(* ===== verification/Prelude.thy ===== *)
theory Prelude imports Main "HOL-Library.Word" "HOL-Library.Multiset" begin

unbundle bit_operations_syntax

text \<open>
  Shared vocabulary of the development: Rust's machine integers, the kernel's error
  enum and result type (\<^verbatim>\<open>kernel/src/error.rs\<close>), the saturating arithmetic the code uses,
  fixed-size tables addressed by a first-match scan, and the generic lemmas on lists and
  bit sets that the component theories rely on.
\<close>

named_theorems bitset_simps \<open>membership of a bit in the bitwise operations\<close>
named_theorems std_simps \<open>definitions of the standard library operations the code calls\<close>

section \<open>Machine integers\<close>

type_synonym u8 = "8 word"
type_synonym u16 = "16 word"
type_synonym u32 = "32 word"
type_synonym u64 = "64 word"

text \<open>
  Counters and clocks that the code only adds, subtracts and compares are natural numbers
  below \<open>2 ^ 64\<close>; their saturating operations are written out.
\<close>

definition u64_max :: nat where
  "u64_max = 2 ^ 64 - 1"

definition u32_max :: nat where
  "u32_max = 2 ^ 32 - 1"

text \<open>The unit of physical memory (\<^verbatim>\<open>kernel/src/mm/frame.rs\<close>).\<close>

definition FRAME_SIZE :: nat where "FRAME_SIZE = 16 * 1024"

text \<open>The CPUs that the per-CPU arrays have room for.\<close>

definition MAX_CPUS :: nat where "MAX_CPUS = 16"

definition sat_add64 :: "nat \<Rightarrow> nat \<Rightarrow> nat" where
  "sat_add64 a b = min (a + b) u64_max"

definition sat_mul64 :: "nat \<Rightarrow> nat \<Rightarrow> nat" where
  "sat_mul64 a b = min (a * b) u64_max"

definition sat_add32 :: "nat \<Rightarrow> nat \<Rightarrow> nat" where
  "sat_add32 a b = min (a + b) u32_max"

definition checked_add64 :: "nat \<Rightarrow> nat \<Rightarrow> nat option" where
  "checked_add64 a b = (if a + b \<le> u64_max then Some (a + b) else None)"

lemma sat_add64_le [simp]: "sat_add64 a b \<le> u64_max"
  by (simp add: sat_add64_def)

lemma sat_add64_ge: "a \<le> u64_max \<Longrightarrow> a \<le> sat_add64 a b"
  by (simp add: sat_add64_def)

lemma sat_add64_exact: "a + b \<le> u64_max \<Longrightarrow> sat_add64 a b = a + b"
  by (simp add: sat_add64_def)

lemma sat_add64_0 [simp]: "a \<le> u64_max \<Longrightarrow> sat_add64 a 0 = a"
  by (simp add: sat_add64_def)

lemma sat_add64_mono: "a \<le> c \<Longrightarrow> b \<le> d \<Longrightarrow> sat_add64 a b \<le> sat_add64 c d"
  by (auto simp: sat_add64_def)

lemma checked_add64_Some [simp]:
  "checked_add64 a b = Some c \<longleftrightarrow> c = a + b \<and> a + b \<le> u64_max"
  by (auto simp: checked_add64_def)

lemma checked_add64_None [simp]: "checked_add64 a b = None \<longleftrightarrow> u64_max < a + b"
  by (auto simp: checked_add64_def)

section \<open>Kernel errors and results\<close>

datatype (plugins only: code size) kernel_error =
    InternalError | NotSupported | InvalidArgument | WouldBlock | Cancelled | TimedOut
  | Deadlock | Interrupted | BufferTooSmall | NoSuchSyscall
  | OutOfMemory | InvalidAddress | PageFault | BadAlignment
  | NoSuchProcess | InvalidExecutable | ProcessExited | NoChildProcess
  | ChannelClosed | ChannelFull | MessageTooLarge | Overflow | ResourceExhausted
  | PermissionDenied | InvalidCapability | NotPermitted
  | NotFound | AlreadyExists | NotADirectory | IsADirectory | DiskFull | InvalidHandle
  | TooManyLinks | NotEmpty | CorruptedData | ReadOnlyFilesystem | TooManyOpenFiles
  | FileTooLarge | CrossDevice | StaleHandle | NoAttribute
  | IoError | NoSuchDevice | DeviceBusy | NoSuchDeviceOrAddress
  | ConnectionRefused | NotConnected | InProgress | ConnectAlready | BrokenPipe | AddrInUse
  | MsgSize | NoAddress | WrongSocketType

type_synonym 'a kernel_result = "kernel_error + 'a"

abbreviation Err :: "kernel_error \<Rightarrow> 'a kernel_result" where
  "Err \<equiv> Inl"

abbreviation Ok :: "'a \<Rightarrow> 'a kernel_result" where
  "Ok \<equiv> Inr"

text \<open>The error numbers of the stable ABI.\<close>

fun error_code :: "kernel_error \<Rightarrow> int" where
  "error_code InternalError = -1"
| "error_code NotSupported = -2"
| "error_code InvalidArgument = -3"
| "error_code WouldBlock = -4"
| "error_code Cancelled = -5"
| "error_code TimedOut = -6"
| "error_code Deadlock = -7"
| "error_code Interrupted = -8"
| "error_code BufferTooSmall = -9"
| "error_code NoSuchSyscall = -10"
| "error_code OutOfMemory = -100"
| "error_code InvalidAddress = -101"
| "error_code PageFault = -102"
| "error_code BadAlignment = -103"
| "error_code NoSuchProcess = -200"
| "error_code InvalidExecutable = -201"
| "error_code ProcessExited = -202"
| "error_code NoChildProcess = -203"
| "error_code ChannelClosed = -300"
| "error_code ChannelFull = -301"
| "error_code MessageTooLarge = -302"
| "error_code Overflow = -303"
| "error_code ResourceExhausted = -304"
| "error_code PermissionDenied = -400"
| "error_code InvalidCapability = -401"
| "error_code NotPermitted = -402"
| "error_code NotFound = -500"
| "error_code AlreadyExists = -501"
| "error_code NotADirectory = -502"
| "error_code IsADirectory = -503"
| "error_code DiskFull = -504"
| "error_code InvalidHandle = -505"
| "error_code TooManyLinks = -506"
| "error_code NotEmpty = -507"
| "error_code CorruptedData = -508"
| "error_code ReadOnlyFilesystem = -509"
| "error_code TooManyOpenFiles = -510"
| "error_code FileTooLarge = -511"
| "error_code CrossDevice = -512"
| "error_code StaleHandle = -513"
| "error_code NoAttribute = -514"
| "error_code IoError = -600"
| "error_code NoSuchDevice = -601"
| "error_code DeviceBusy = -602"
| "error_code NoSuchDeviceOrAddress = -603"
| "error_code ConnectionRefused = -700"
| "error_code NotConnected = -701"
| "error_code InProgress = -702"
| "error_code ConnectAlready = -703"
| "error_code BrokenPipe = -704"
| "error_code AddrInUse = -705"
| "error_code MsgSize = -706"
| "error_code NoAddress = -707"
| "error_code WrongSocketType = -708"

section \<open>Bit sets\<close>

text \<open>
  A word read as the set of its bits. The component theories state what a rights mask
  permits through this set, so that the bitwise code is compared with set operations.
\<close>

definition bits :: "'a::len word \<Rightarrow> nat set" where
  "bits w = {n. bit w n}"

lemma bits_AND [bitset_simps]: "bits (a AND b) = bits a \<inter> bits b"
  by (auto simp: bits_def bit_simps)

lemma bits_OR [bitset_simps]: "bits (a OR b) = bits a \<union> bits b"
  by (auto simp: bits_def bit_simps)

lemma bits_AND_NOT: "bits (a AND NOT b) = bits a - bits b"
  by (auto simp: bits_def bit_simps dest: bit_imp_le_length)

lemma bits_0 [bitset_simps]: "bits 0 = {}"
  by (simp add: bits_def)

lemma bits_eq_iff: "a = b \<longleftrightarrow> bits a = bits b"
  by (auto simp: bits_def intro: bit_eqI)

lemma bits_empty_iff: "bits a = {} \<longleftrightarrow> a = 0"
  by (metis bits_0 bits_eq_iff)

section \<open>Tables scanned from the front\<close>

text \<open>
  The kernel keeps several fixed-size arrays whose operations walk the slots from the front and act on the
  first one that satisfies a test. \<open>first_index\<close> is \<^verbatim>\<open>iter().position(..)\<close>.
\<close>

fun first_index :: "('a \<Rightarrow> bool) \<Rightarrow> 'a list \<Rightarrow> nat option" where
  "first_index P [] = None"
| "first_index P (x # xs) = (if P x then Some 0 else map_option Suc (first_index P xs))"

lemma first_index_None [simp]: "first_index P xs = None \<longleftrightarrow> (\<forall>x \<in> set xs. \<not> P x)"
  by (induction xs) auto

lemma first_index_Some:
  "first_index P xs = Some i \<Longrightarrow> i < length xs \<and> P (xs ! i) \<and> (\<forall>j < i. \<not> P (xs ! j))"
proof (induction xs arbitrary: i)
  case Nil
  then show ?case by simp
next
  case (Cons x xs)
  show ?case
  proof (cases "P x")
    case True
    with Cons.prems show ?thesis by simp
  next
    case False
    with Cons.prems obtain k where k: "first_index P xs = Some k" "i = Suc k"
      by auto
    with Cons.IH [OF k(1)] False show ?thesis
      by (auto simp: nth_Cons split: nat.splits)
  qed
qed

lemma first_index_SomeI:
  assumes "x \<in> set xs" and "P x"
  obtains i where "first_index P xs = Some i"
  using assms by (cases "first_index P xs") auto

lemma first_index_lt: "first_index P xs = Some i \<Longrightarrow> i < length xs"
  using first_index_Some by blast

lemma first_index_sat: "first_index P xs = Some i \<Longrightarrow> P (xs ! i)"
  using first_index_Some by blast

lemma first_index_before: "first_index P xs = Some i \<Longrightarrow> j < i \<Longrightarrow> \<not> P (xs ! j)"
  using first_index_Some by blast

lemma first_index_take_drop:
  "first_index P xs = Some i \<Longrightarrow>
     xs = take i xs @ xs ! i # drop (Suc i) xs \<and> (\<forall>x \<in> set (take i xs). \<not> P x)"
  using first_index_Some [of P xs i] by (auto simp: id_take_nth_drop in_set_conv_nth)

lemma find_first_index:
  "find P xs = map_option ((!) xs) (first_index P xs)"
  by (induction xs) (auto simp: option.map_comp comp_def)

lemma length_filter_update:
  assumes "i < length xs"
  shows "length (filter P (xs[i := y])) + (if P (xs ! i) then 1 else 0)
       = length (filter P xs) + (if P y then 1 else 0)"
  using assms
proof (induction xs arbitrary: i)
  case Nil
  then show ?case by simp
next
  case (Cons x xs)
  show ?case
  proof (cases i)
    case 0
    then show ?thesis by simp
  next
    case (Suc k)
    with Cons.prems have "k < length xs" by simp
    from Cons.IH [OF this] Suc show ?thesis by auto
  qed
qed

lemma set_update_eq: "i < length xs \<Longrightarrow> set (xs[i := x]) \<subseteq> insert x (set xs)"
  by (rule set_update_subset_insert)

section \<open>Machines\<close>

text \<open>
  A component is a state and operations on it; an execution is a list of operations run one
  after the other, each under the component's lock. What every operation keeps, every
  execution keeps; a quantity no operation raises beyond a bound stays within it.
\<close>

locale machine =
  fixes step :: "'e \<Rightarrow> 's \<Rightarrow> 's"
    and inv :: "'s \<Rightarrow> bool"
  assumes inv_step: "inv s \<Longrightarrow> inv (step e s)"
begin

lemma inv_run: "inv s \<Longrightarrow> inv (fold step es s)"
  by (induction es arbitrary: s) (auto intro: inv_step)

lemma stable_run:
  assumes "inv s" and "P s"
    and "\<And>t e. inv t \<Longrightarrow> P t \<Longrightarrow> e \<in> set es \<Longrightarrow> P (step e t)"
  shows "P (fold step es s)"
  using assms
  by (induction es arbitrary: s) (auto intro: inv_step)

end

text \<open>A machine whose operations only ever add authority they are explicitly given.\<close>

locale authority_machine = machine step inv
  for step :: "'e \<Rightarrow> 's \<Rightarrow> 's" and inv :: "'s \<Rightarrow> bool" +
  fixes authority :: "'s \<Rightarrow> 'a set"
    and given :: "'e \<Rightarrow> 'a set"
  assumes authority_step: "inv s \<Longrightarrow> authority (step e s) \<subseteq> authority s \<union> given e"
begin

lemma authority_run:
  "inv s \<Longrightarrow> authority (fold step es s) \<subseteq> authority s \<union> (\<Union>e \<in> set es. given e)"
proof (induction es arbitrary: s)
  case Nil
  then show ?case by simp
next
  case (Cons e es)
  have "authority (fold step es (step e s))
      \<subseteq> authority (step e s) \<union> (\<Union>e \<in> set es. given e)"
    using Cons.prems by (intro Cons.IH inv_step)
  with authority_step [OF Cons.prems, of e] show ?case
    by auto
qed

lemma authority_confined:
  "inv s \<Longrightarrow> (\<And>e. e \<in> set es \<Longrightarrow> given e = {}) \<Longrightarrow> authority (fold step es s) \<subseteq> authority s"
  using authority_run [of s es] by auto

end

end
