(* ===== verification/Errors.thy ===== *)
theory Errors imports Prelude begin

text \<open>
  The kernel's error type as an ABI (\<^verbatim>\<open>kernel/src/error.rs\<close>): the list of every variant that the
  declaring macro writes, the stable text of each and the decoding of an error number, which is
  a search of that list. The type and its numbers are in the prelude.
\<close>

definition all_errors :: "kernel_error list" where
  "all_errors =
     [InternalError, NotSupported, InvalidArgument, WouldBlock, Cancelled,
      TimedOut, Deadlock, Interrupted, BufferTooSmall, NoSuchSyscall,
      OutOfMemory, InvalidAddress, PageFault, BadAlignment, NoSuchProcess,
      InvalidExecutable, ProcessExited, NoChildProcess, ChannelClosed, ChannelFull,
      MessageTooLarge, Overflow, ResourceExhausted, PermissionDenied, InvalidCapability,
      NotPermitted, NotFound, AlreadyExists, NotADirectory, IsADirectory,
      DiskFull, InvalidHandle, TooManyLinks, NotEmpty, CorruptedData,
      ReadOnlyFilesystem, TooManyOpenFiles, FileTooLarge, CrossDevice, StaleHandle,
      NoAttribute, IoError, NoSuchDevice, DeviceBusy, NoSuchDeviceOrAddress,
      ConnectionRefused, NotConnected, InProgress, ConnectAlready, BrokenPipe,
      AddrInUse, MsgSize, NoAddress, WrongSocketType]"

text \<open>\<^verbatim>\<open>from_code\<close>, the loop over the rest of the list.\<close>

fun from_code_loop :: "kernel_error list \<Rightarrow> int \<Rightarrow> kernel_error option" where
  "from_code_loop [] code = None"
| "from_code_loop (e # tail) code = (if error_code e = code then Some e else from_code_loop tail code)"

definition error_from_code :: "int \<Rightarrow> kernel_error option" where
  "error_from_code code = from_code_loop all_errors code"

fun error_message :: "kernel_error \<Rightarrow> string" where
  "error_message InternalError = ''internal kernel error''"
| "error_message NotSupported = ''operation not supported''"
| "error_message InvalidArgument = ''invalid argument''"
| "error_message WouldBlock = ''operation would block''"
| "error_message Cancelled = ''operation cancelled''"
| "error_message TimedOut = ''operation timed out''"
| "error_message Deadlock = ''operation would deadlock''"
| "error_message Interrupted = ''interrupted by signal''"
| "error_message BufferTooSmall = ''output buffer too small for the whole answer''"
| "error_message NoSuchSyscall = ''no such syscall (no handler registered)''"
| "error_message OutOfMemory = ''out of memory''"
| "error_message InvalidAddress = ''invalid address''"
| "error_message PageFault = ''unresolvable page fault''"
| "error_message BadAlignment = ''bad alignment''"
| "error_message NoSuchProcess = ''no such process''"
| "error_message InvalidExecutable = ''invalid executable''"
| "error_message ProcessExited = ''process has exited''"
| "error_message NoChildProcess = ''no child processes''"
| "error_message ChannelClosed = ''channel closed''"
| "error_message ChannelFull = ''channel buffer full''"
| "error_message MessageTooLarge = ''message too large''"
| "error_message Overflow = ''counter overflow''"
| "error_message ResourceExhausted = ''resource limit reached''"
| "error_message PermissionDenied = ''permission denied''"
| "error_message InvalidCapability = ''invalid capability''"
| "error_message NotPermitted = ''operation not permitted''"
| "error_message NotFound = ''not found''"
| "error_message AlreadyExists = ''already exists''"
| "error_message NotADirectory = ''not a directory''"
| "error_message IsADirectory = ''is a directory''"
| "error_message DiskFull = ''disk full''"
| "error_message InvalidHandle = ''invalid handle''"
| "error_message TooManyLinks = ''too many symbolic links''"
| "error_message NotEmpty = ''directory not empty''"
| "error_message CorruptedData = ''data integrity check failed''"
| "error_message ReadOnlyFilesystem = ''read-only filesystem''"
| "error_message TooManyOpenFiles = ''too many open files''"
| "error_message FileTooLarge = ''file too large''"
| "error_message CrossDevice = ''cross-device operation not permitted''"
| "error_message StaleHandle = ''directory handle no longer denotes the same directory''"
| "error_message NoAttribute = ''no such extended attribute''"
| "error_message IoError = ''I/O error''"
| "error_message NoSuchDevice = ''no such device''"
| "error_message DeviceBusy = ''device busy''"
| "error_message NoSuchDeviceOrAddress = ''no such device or address''"
| "error_message ConnectionRefused = ''connection refused''"
| "error_message NotConnected = ''socket not connected''"
| "error_message InProgress = ''operation now in progress''"
| "error_message ConnectAlready = ''connection already in progress''"
| "error_message BrokenPipe = ''broken pipe (write side shut down)''"
| "error_message AddrInUse = ''address already in use''"
| "error_message MsgSize = ''message too long for datagram''"
| "error_message NoAddress = ''name has no address of the kind asked''"
| "error_message WrongSocketType = ''socket at that name is of the wrong type''"

lemma all_errors_complete: "e \<in> set all_errors"
  by (cases e) (simp_all add: all_errors_def)

lemma error_code_negative: "error_code e < 0"
  by (cases e) simp_all

lemma distinct_codes: "distinct (map error_code all_errors)"
  by (simp add: all_errors_def)

lemma from_code_loop_iff:
  "distinct (map error_code es) \<Longrightarrow>
     from_code_loop es c = Some e \<longleftrightarrow> e \<in> set es \<and> error_code e = c"
  by (induction es) (auto simp: rev_image_eqI)

text \<open>
  Decoding an error number inverts encoding, both ways: a number decodes to a variant exactly
  when that variant has the number, so every variant survives the ABI, a number no variant has is
  refused, and 0 (success) or a positive result is never an error.
\<close>

theorem error_numbers_roundtrip:
  "(error_from_code c = Some e \<longleftrightarrow> error_code e = c) \<and> error_from_code (error_code e) = Some e
     \<and> error_from_code (int n) = None"
proof -
  have iff: "error_from_code c = Some e \<longleftrightarrow> error_code e = c" for c e
    by (simp add: error_from_code_def from_code_loop_iff distinct_codes all_errors_complete)
  moreover have "error_from_code (int n) = None"
    using iff [of "int n"] error_code_negative by (metis not_None_eq of_nat_less_0_iff)
  ultimately show ?thesis by simp
qed

end
