(* ===== verification/Rights.thy ===== *)
theory Rights imports Prelude begin

text \<open>
  Capability rights (\<^verbatim>\<open>kernel/src/cap/rights.rs\<close>): the 64-bit mask, the declared rights, what
  init is granted, the mask operations and the textual form. A mask permits the set of its
  bits; the operations are compared with the operations on that set.
\<close>

section \<open>The declared rights\<close>

type_synonym rights = u64

definition READ :: rights where "READ = push_bit 0 1"
definition WRITE :: rights where "WRITE = push_bit 1 1"
definition EXECUTE :: rights where "EXECUTE = push_bit 2 1"
definition CREATE :: rights where "CREATE = push_bit 3 1"
definition DELETE :: rights where "DELETE = push_bit 4 1"
definition METADATA :: rights where "METADATA = push_bit 5 1"
definition TRANSFER :: rights where "TRANSFER = push_bit 6 1"
definition DUPLICATE :: rights where "DUPLICATE = push_bit 7 1"
definition WAIT :: rights where "WAIT = push_bit 8 1"
definition SIGNAL :: rights where "SIGNAL = push_bit 9 1"
definition IO_REALTIME :: rights where "IO_REALTIME = push_bit 16 1"
definition DEBUG :: rights where "DEBUG = push_bit 17 1"
definition SET_CREDENTIALS :: rights where "SET_CREDENTIALS = push_bit 18 1"
definition MEMORY_LOCK :: rights where "MEMORY_LOCK = push_bit 19 1"
definition SET_HOSTNAME :: rights where "SET_HOSTNAME = push_bit 20 1"
definition SET_KEYLAYOUT :: rights where "SET_KEYLAYOUT = push_bit 21 1"
definition SET_BRIGHTNESS :: rights where "SET_BRIGHTNESS = push_bit 22 1"
definition ENROLL_SECUREBOOT :: rights where "ENROLL_SECUREBOOT = push_bit 23 1"
definition RELOAD_KERNEL :: rights where "RELOAD_KERNEL = push_bit 24 1"
definition POWER_OFF :: rights where "POWER_OFF = push_bit 25 1"
definition REBOOT :: rights where "REBOOT = push_bit 26 1"

definition DISTINCT :: "rights list" where
  "DISTINCT = [READ, WRITE, EXECUTE, CREATE, DELETE, METADATA, TRANSFER, DUPLICATE, WAIT, SIGNAL,
     IO_REALTIME, DEBUG, SET_CREDENTIALS, MEMORY_LOCK, SET_HOSTNAME, SET_KEYLAYOUT,
     SET_BRIGHTNESS, ENROLL_SECUREBOOT, RELOAD_KERNEL, POWER_OFF, REBOOT]"

text \<open>The constant evaluated by the loop over \<^verbatim>\<open>DISTINCT\<close>.\<close>

fun or_loop :: "rights \<Rightarrow> rights list \<Rightarrow> rights" where
  "or_loop acc [] = acc"
| "or_loop acc (r # rs) = or_loop (acc OR r) rs"

definition DECLARED :: rights where
  "DECLARED = or_loop 0 DISTINCT"

definition ALL_RIGHTS :: rights where "ALL_RIGHTS = NOT 0"
definition NONE :: rights where "NONE = 0"

definition INIT_PROCESS :: rights where
  "INIT_PROCESS = READ OR WRITE OR EXECUTE OR CREATE OR DELETE OR METADATA OR TRANSFER
     OR DUPLICATE OR WAIT OR SIGNAL OR IO_REALTIME OR DEBUG OR SET_CREDENTIALS OR MEMORY_LOCK
     OR SET_HOSTNAME OR SET_KEYLAYOUT OR ENROLL_SECUREBOOT OR RELOAD_KERNEL OR POWER_OFF
     OR REBOOT"

definition INIT_FILE :: rights where
  "INIT_FILE = READ OR WRITE OR EXECUTE OR CREATE OR DELETE OR METADATA OR TRANSFER
     OR DUPLICATE OR WAIT OR SIGNAL OR IO_REALTIME OR DEBUG OR SET_CREDENTIALS OR MEMORY_LOCK
     OR SET_HOSTNAME OR SET_KEYLAYOUT OR ENROLL_SECUREBOOT OR RELOAD_KERNEL OR POWER_OFF
     OR REBOOT"

definition INIT_SOCKET :: rights where
  "INIT_SOCKET = READ OR WRITE OR EXECUTE OR CREATE OR DELETE OR METADATA OR TRANSFER
     OR DUPLICATE OR WAIT OR SIGNAL OR IO_REALTIME OR DEBUG OR SET_CREDENTIALS OR MEMORY_LOCK
     OR SET_HOSTNAME OR SET_KEYLAYOUT OR ENROLL_SECUREBOOT OR RELOAD_KERNEL OR POWER_OFF
     OR REBOOT"

definition READ_ONLY :: rights where "READ_ONLY = READ OR WAIT OR DUPLICATE"
definition READ_WRITE :: rights where "READ_WRITE = READ OR WRITE OR WAIT OR DUPLICATE"

lemmas right_defs =
  READ_def WRITE_def EXECUTE_def CREATE_def DELETE_def METADATA_def TRANSFER_def DUPLICATE_def
  WAIT_def SIGNAL_def IO_REALTIME_def DEBUG_def SET_CREDENTIALS_def MEMORY_LOCK_def
  SET_HOSTNAME_def SET_KEYLAYOUT_def SET_BRIGHTNESS_def ENROLL_SECUREBOOT_def RELOAD_KERNEL_def
  POWER_OFF_def REBOOT_def

section \<open>Operations\<close>

definition rights_contains :: "rights \<Rightarrow> rights \<Rightarrow> bool" where
  "rights_contains r other \<longleftrightarrow> (r AND other) = other"

definition rights_union :: "rights \<Rightarrow> rights \<Rightarrow> rights" where
  "rights_union r other = r OR other"

definition rights_intersect :: "rights \<Rightarrow> rights \<Rightarrow> rights" where
  "rights_intersect r other = r AND other"

definition rights_remove :: "rights \<Rightarrow> rights \<Rightarrow> rights" where
  "rights_remove r other = r AND NOT other"

definition rights_is_empty :: "rights \<Rightarrow> bool" where
  "rights_is_empty r \<longleftrightarrow> r = 0"

definition rights_is_subset_of :: "rights \<Rightarrow> rights \<Rightarrow> bool" where
  "rights_is_subset_of r other \<longleftrightarrow> (r AND NOT other) = 0"

text \<open>
  \<^verbatim>\<open>Display\<close>: the names of the rights the code lists, joined by \<open>+\<close>; \<^verbatim>\<open>none\<close> when the loop has
  written nothing. The list the code walks holds fifteen of the declared rights.
\<close>

definition display_flags :: "(rights \<times> string) list" where
  "display_flags = [(READ, ''r''), (WRITE, ''w''), (EXECUTE, ''x''), (CREATE, ''c''),
     (DELETE, ''d''), (METADATA, ''m''), (TRANSFER, ''t''), (DUPLICATE, ''dup''),
     (WAIT, ''wait''), (SIGNAL, ''sig''), (IO_REALTIME, ''io_rt''), (DEBUG, ''debug''),
     (SET_CREDENTIALS, ''setcred''), (MEMORY_LOCK, ''mlock''), (SET_HOSTNAME, ''sethost'')]"

fun display_loop :: "rights \<Rightarrow> (rights \<times> string) list \<Rightarrow> bool \<times> string \<Rightarrow> bool \<times> string" where
  "display_loop r [] st = st"
| "display_loop r ((flag, name) # fs) (first, out) =
     (if rights_contains r flag
      then display_loop r fs (False, out @ (if first then '''' else ''+'') @ name)
      else display_loop r fs (first, out))"

definition rights_display :: "rights \<Rightarrow> string" where
  "rights_display r =
     (case display_loop r display_flags (True, '''') of
        (first, out) \<Rightarrow> if first then out @ ''none'' else out)"

section \<open>Masks as sets\<close>

lemma rights_contains_bits: "rights_contains r s \<longleftrightarrow> bits s \<subseteq> bits r"
  by (auto simp: rights_contains_def bits_eq_iff bitset_simps)

lemma rights_subset_bits: "rights_is_subset_of r s \<longleftrightarrow> bits r \<subseteq> bits s"
  by (simp add: rights_is_subset_of_def bits_eq_iff bits_AND_NOT bits_0)

lemma rights_empty_bits: "rights_is_empty r \<longleftrightarrow> bits r = {}"
  by (simp add: rights_is_empty_def bits_empty_iff)

lemma bits_union [bitset_simps]: "bits (rights_union r s) = bits r \<union> bits s"
  by (simp add: rights_union_def bitset_simps)

lemma bits_intersect [bitset_simps]: "bits (rights_intersect r s) = bits r \<inter> bits s"
  by (simp add: rights_intersect_def bitset_simps)

lemma bits_remove [bitset_simps]: "bits (rights_remove r s) = bits r - bits s"
  by (simp add: rights_remove_def bits_AND_NOT)

lemma bits_NONE [bitset_simps]: "bits NONE = {}"
  by (simp add: NONE_def bitset_simps)

lemma bits_ALL: "bits ALL_RIGHTS = {..< 64}"
  by (auto simp: bits_def ALL_RIGHTS_def bit_simps)

lemmas rights_bits = rights_contains_bits rights_subset_bits rights_empty_bits

lemma rights_contains_refl [simp]: "rights_contains r r"
  by (simp add: rights_bits)

lemma rights_contains_trans: "rights_contains r s \<Longrightarrow> rights_contains s t \<Longrightarrow> rights_contains r t"
  by (auto simp: rights_bits)

lemma rights_contains_union:
  "rights_contains r (rights_union s t) \<longleftrightarrow> rights_contains r s \<and> rights_contains r t"
  by (auto simp: rights_bits bitset_simps)

lemma rights_subset_iff_contains: "rights_is_subset_of r s \<longleftrightarrow> rights_contains s r"
  by (simp add: rights_bits)

lemma rights_remove_mono: "rights_contains (rights_remove r s) t \<Longrightarrow> rights_contains r t"
  by (auto simp: rights_bits bitset_simps)

text \<open>Removing what a narrower mask lacks leaves the part of the mask inside the narrower one.\<close>

lemma rights_remove_remove: "rights_remove r (rights_remove r k) = rights_intersect r k"
  by (auto simp: bits_eq_iff bitset_simps)

lemma rights_remove_empty: "rights_is_empty (rights_remove r s) \<longleftrightarrow> bits r \<subseteq> bits s"
  by (simp add: rights_empty_bits bits_remove)

lemma rights_split: "rights_union (rights_remove r g) (rights_intersect r g) = r"
  by (auto simp: bits_eq_iff bitset_simps)

section \<open>The compile-time assertions\<close>

lemma bits_right:
  "n < 64 \<Longrightarrow> bits (push_bit n 1 :: u64) = {n}"
  by (auto simp: bits_def bit_simps)

lemma bits_rights:
  "bits READ = {0}" "bits WRITE = {1}" "bits EXECUTE = {2}" "bits CREATE = {3}"
  "bits DELETE = {4}" "bits METADATA = {5}" "bits TRANSFER = {6}" "bits DUPLICATE = {7}"
  "bits WAIT = {8}" "bits SIGNAL = {9}" "bits IO_REALTIME = {16}" "bits DEBUG = {17}"
  "bits SET_CREDENTIALS = {18}" "bits MEMORY_LOCK = {19}" "bits SET_HOSTNAME = {20}"
  "bits SET_KEYLAYOUT = {21}" "bits SET_BRIGHTNESS = {22}" "bits ENROLL_SECUREBOOT = {23}"
  "bits RELOAD_KERNEL = {24}" "bits POWER_OFF = {25}" "bits REBOOT = {26}"
  unfolding right_defs by (rule bits_right, simp)+

lemma bits_or_loop: "bits (or_loop acc rs) = bits acc \<union> (\<Union>r \<in> set rs. bits r)"
  by (induction rs arbitrary: acc) (auto simp: bitset_simps)

lemma bits_DECLARED: "bits DECLARED = {0,1,2,3,4,5,6,7,8,9} \<union> {16,17,18,19,20,21,22,23,24,25,26}"
  by (simp add: DECLARED_def DISTINCT_def bits_or_loop bits_rights bitset_simps) auto

end
