(* ===== verification/Resources.thy ===== *)
theory Resources imports Rights begin

text \<open>
  Resource types (\<^verbatim>\<open>kernel/src/cap/mod.rs\<close>): the enum with its stable discriminants, the checked
  conversion from a raw number, the PCI function's resource id, and the rights a capability
  keeps when its process stops being root.
\<close>

section \<open>The enum and its discriminants\<close>

datatype (plugins only: code size) resource_type =
    Channel | Pipe | SharedMemory | EventFd | CompletionPort | Process | Thread | PortIo
  | DeviceIrq | File | Socket | Timer | IoScheduler | Service | Namespace | StreamSocket
  | Epoll | SignalFd | Timerfd | Inotify | AlsaPcm | Drm | NetRaw | NetSocket | Pty
  | SystemClock | PrivilegedPort | ResourceLimit | InputDevice | BlockDevice | Semaphore
  | UnixSocket | NativeSocket | CapBroker | PciDevice | FileTree

fun discriminant :: "resource_type \<Rightarrow> u16" where
  "discriminant Channel = 1"
| "discriminant Pipe = 2"
| "discriminant SharedMemory = 3"
| "discriminant EventFd = 4"
| "discriminant CompletionPort = 5"
| "discriminant Process = 6"
| "discriminant Thread = 7"
| "discriminant PortIo = 8"
| "discriminant DeviceIrq = 9"
| "discriminant File = 10"
| "discriminant Socket = 11"
| "discriminant Timer = 12"
| "discriminant IoScheduler = 13"
| "discriminant Service = 14"
| "discriminant Namespace = 15"
| "discriminant StreamSocket = 16"
| "discriminant Epoll = 18"
| "discriminant SignalFd = 19"
| "discriminant Timerfd = 20"
| "discriminant Inotify = 21"
| "discriminant AlsaPcm = 22"
| "discriminant Drm = 23"
| "discriminant NetRaw = 24"
| "discriminant NetSocket = 25"
| "discriminant Pty = 26"
| "discriminant SystemClock = 27"
| "discriminant PrivilegedPort = 28"
| "discriminant ResourceLimit = 29"
| "discriminant InputDevice = 30"
| "discriminant BlockDevice = 31"
| "discriminant Semaphore = 32"
| "discriminant UnixSocket = 33"
| "discriminant NativeSocket = 34"
| "discriminant CapBroker = 35"
| "discriminant PciDevice = 36"
| "discriminant FileTree = 37"

definition LAST :: u16 where "LAST = discriminant FileTree"

definition RETIRED :: "u16 list" where "RETIRED = [17]"

definition from_raw :: "u16 \<Rightarrow> resource_type option" where
  "from_raw raw = map_of
     [(1, Channel), (2, Pipe), (3, SharedMemory), (4, EventFd), (5, CompletionPort),
      (6, Process), (7, Thread), (8, PortIo), (9, DeviceIrq), (10, File), (11, Socket),
      (12, Timer), (13, IoScheduler), (14, Service), (15, Namespace), (16, StreamSocket),
      (18, Epoll), (19, SignalFd), (20, Timerfd), (21, Inotify), (22, AlsaPcm), (23, Drm),
      (24, NetRaw), (25, NetSocket), (26, Pty), (27, SystemClock), (28, PrivilegedPort),
      (29, ResourceLimit), (30, InputDevice), (31, BlockDevice), (32, Semaphore),
      (33, UnixSocket), (34, NativeSocket), (35, CapBroker), (36, PciDevice), (37, FileTree)] raw"

text \<open>\<^verbatim>\<open>(1..=LAST).filter_map(from_raw)\<close>.\<close>

definition all_resource_types :: "resource_type list" where
  "all_resource_types = List.map_filter (\<lambda>n. from_raw (of_nat n)) [1 ..< Suc (unat LAST)]"

lemma from_raw_discriminant: "from_raw (discriminant t) = Some t"
  by (cases t) (simp_all add: from_raw_def)

lemma discriminant_inj: "discriminant a = discriminant b \<longleftrightarrow> a = b"
  using from_raw_discriminant by (metis option.inject)

lemma from_raw_SomeD: "from_raw n = Some t \<Longrightarrow> discriminant t = n"
  by (auto simp: from_raw_def split: if_splits)

lemma set_all_resource_types: "t \<in> set all_resource_types"
proof -
  have "discriminant t \<noteq> 0 \<and> unat (discriminant t) \<le> unat LAST"
    by (cases t) (simp_all add: LAST_def)
  moreover from this have "1 \<le> unat (discriminant t)"
    by (simp add: Suc_le_eq unat_gt_0)
  ultimately have "unat (discriminant t) \<in> set [1 ..< Suc (unat LAST)]"
    by auto
  moreover have "from_raw (of_nat (unat (discriminant t))) = Some t"
    by (simp add: from_raw_discriminant)
  ultimately have "t \<in> (\<lambda>n. the (from_raw (of_nat n))) ` {n \<in> set [1 ..< Suc (unat LAST)]. from_raw (of_nat n) \<noteq> None}"
    by (intro image_eqI [where x = "unat (discriminant t)"]) (simp_all only: option.sel, simp)
  then show ?thesis
    by (simp only: all_resource_types_def List.map_filter_def comp_def set_map set_filter)
qed

instantiation resource_type :: linorder
begin

definition less_eq_resource_type :: "resource_type \<Rightarrow> resource_type \<Rightarrow> bool" where
  "less_eq_resource_type a b \<longleftrightarrow> discriminant a \<le> discriminant b"

definition less_resource_type :: "resource_type \<Rightarrow> resource_type \<Rightarrow> bool" where
  "less_resource_type a b \<longleftrightarrow> discriminant a < discriminant b"

instance
  by standard
    (auto simp: less_eq_resource_type_def less_resource_type_def discriminant_inj [symmetric])

end

section \<open>PCI functions\<close>

definition pci_device_id :: "u8 \<Rightarrow> u8 \<Rightarrow> u8 \<Rightarrow> u64" where
  "pci_device_id bus device function =
     0x10000 OR push_bit 8 (ucast bus) OR push_bit 3 (ucast (device AND 0x1F))
       OR ucast (function AND 0x7)"

section \<open>What is left without root\<close>

definition ROOT_PROCESS_RIGHTS :: rights where
  "ROOT_PROCESS_RIGHTS =
     rights_union (rights_union (rights_union (rights_union (rights_union (rights_union
       (rights_union SET_CREDENTIALS SET_HOSTNAME) SET_KEYLAYOUT) SET_BRIGHTNESS)
       ENROLL_SECUREBOOT) RELOAD_KERNEL) POWER_OFF) REBOOT"

definition rights_without_root :: "resource_type \<Rightarrow> u64 \<Rightarrow> rights \<Rightarrow> rights" where
  "rights_without_root ty rid r =
     (case ty of
        SystemClock \<Rightarrow> NONE
      | PrivilegedPort \<Rightarrow> NONE
      | ResourceLimit \<Rightarrow> NONE
      | BlockDevice \<Rightarrow> NONE
      | NetRaw \<Rightarrow> NONE
      | PortIo \<Rightarrow> NONE
      | DeviceIrq \<Rightarrow> NONE
      | Process \<Rightarrow>
          (let kept = rights_remove r ROOT_PROCESS_RIGHTS
           in if rid = 0 then rights_remove kept DEBUG else kept)
      | IoScheduler \<Rightarrow> rights_remove r IO_REALTIME
      | Thread \<Rightarrow> rights_remove r IO_REALTIME
      | _ \<Rightarrow> r)"

text \<open>The authority that is root's: the triples a capability loses.\<close>

definition root_only :: "resource_type \<Rightarrow> u64 \<Rightarrow> nat set" where
  "root_only ty rid =
     (if ty \<in> {SystemClock, PrivilegedPort, ResourceLimit, BlockDevice, NetRaw, PortIo, DeviceIrq}
      then UNIV
      else if ty = Process then bits ROOT_PROCESS_RIGHTS \<union> (if rid = 0 then bits DEBUG else {})
      else if ty \<in> {IoScheduler, Thread} then bits IO_REALTIME else {})"

lemma bits_rights_without_root:
  "bits (rights_without_root ty rid r) = bits r - root_only ty rid"
  by (cases ty) (auto simp: rights_without_root_def root_only_def bitset_simps Let_def)

lemma bits_ROOT_PROCESS_RIGHTS:
  "bits ROOT_PROCESS_RIGHTS = {18, 20, 21, 22, 23, 24, 25, 26}"
  by (simp add: ROOT_PROCESS_RIGHTS_def bitset_simps bits_rights) auto

lemma rights_without_root_subset:
  "rights_contains r (rights_without_root ty rid r)"
  by (auto simp: rights_bits bits_rights_without_root)

lemma rights_without_root_idem:
  "rights_without_root ty rid (rights_without_root ty rid r) = rights_without_root ty rid r"
  by (auto simp: bits_eq_iff bits_rights_without_root)

end
