(* ===== verification/OrdMap.thy ===== *)
theory OrdMap imports Prelude begin

text \<open>
  The ordered map of the Rust standard library (\<^verbatim>\<open>alloc::collections::BTreeMap\<close>), as the kernel's
  tables use it: look up, insert or replace, remove, walk the values in key order, change
  values in place. A map is its list of entries in ascending key order; the locale states the
  contract the tables rely on, and the interpretation discharges it for the list.
\<close>

section \<open>The operations\<close>

type_synonym ('k, 'v) btree = "('k \<times> 'v) list"

definition bt_ok :: "('k::linorder, 'v) btree \<Rightarrow> bool" where
  "bt_ok m \<longleftrightarrow> sorted_wrt (<) (map fst m)"

definition bt_get :: "('k, 'v) btree \<Rightarrow> 'k \<Rightarrow> 'v option" where
  "bt_get m k = map_of m k"

fun bt_insert :: "'k::linorder \<Rightarrow> 'v \<Rightarrow> ('k, 'v) btree \<Rightarrow> ('k, 'v) btree" where
  "bt_insert k v [] = [(k, v)]"
| "bt_insert k v (p # m) =
     (if fst p < k then p # bt_insert k v m
      else if fst p = k then (k, v) # m
      else (k, v) # p # m)"

definition bt_remove :: "'k \<Rightarrow> ('k, 'v) btree \<Rightarrow> ('k, 'v) btree" where
  "bt_remove k m = filter (\<lambda>p. fst p \<noteq> k) m"

text \<open>\<^verbatim>\<open>values()\<close>, \<^verbatim>\<open>values_mut()\<close> with an update of every value, and \<^verbatim>\<open>get_mut\<close> with an update of one.\<close>

definition bt_values :: "('k, 'v) btree \<Rightarrow> 'v list" where
  "bt_values m = map snd m"

definition bt_map :: "('v \<Rightarrow> 'v) \<Rightarrow> ('k, 'v) btree \<Rightarrow> ('k, 'v) btree" where
  "bt_map f m = map (\<lambda>p. (fst p, f (snd p))) m"

definition bt_adjust :: "'k \<Rightarrow> ('v \<Rightarrow> 'v) \<Rightarrow> ('k, 'v) btree \<Rightarrow> ('k, 'v) btree" where
  "bt_adjust k f m = map (\<lambda>p. if fst p = k then (fst p, f (snd p)) else p) m"

text \<open>
  A loop over \<^verbatim>\<open>values_mut()\<close> whose body may change the value and counts whether it did: the map
  with every value changed, and the count.
\<close>

definition bt_sweep :: "('v \<Rightarrow> 'v \<times> bool) \<Rightarrow> ('k, 'v) btree \<Rightarrow> ('k, 'v) btree \<times> nat" where
  "bt_sweep f m = (bt_map (\<lambda>v. fst (f v)) m, length (filter (\<lambda>v. snd (f v)) (bt_values m)))"

section \<open>Facts about the operations\<close>

lemma bt_get_Nil [simp]: "bt_get [] k = None"
  by (simp add: bt_get_def)

lemma bt_get_insert [simp]:
  "bt_ok m \<Longrightarrow> bt_get (bt_insert k v m) j = (if j = k then Some v else bt_get m j)"
proof (induction m)
  case Nil
  then show ?case by (simp add: bt_get_def)
next
  case (Cons p m)
  then have IH: "bt_get (bt_insert k v m) j = (if j = k then Some v else bt_get m j)"
    and less: "\<forall>q \<in> set m. fst p < fst q"
    by (auto simp: bt_ok_def)
  show ?case using IH less
    by (cases p) (auto simp: bt_get_def map_of_eq_None_iff)
qed

lemma set_bt_insert: "set (bt_insert k v m) \<subseteq> insert (k, v) (set m)"
  by (induction m) auto

lemma keys_bt_insert [simp]: "fst ` set (bt_insert k v m) = insert k (fst ` set m)"
  by (induction m) auto

lemma bt_ok_Nil [simp]: "bt_ok []"
  by (simp add: bt_ok_def)

lemma bt_ok_insert [simp]: "bt_ok m \<Longrightarrow> bt_ok (bt_insert k v m)"
proof (induction m)
  case Nil
  then show ?case by (simp add: bt_ok_def)
next
  case (Cons p m)
  then have IH: "bt_ok (bt_insert k v m)" and less: "\<forall>x \<in> fst ` set m. fst p < x"
    by (auto simp: bt_ok_def)
  then have "fst p < k \<Longrightarrow> \<forall>x \<in> fst ` set (bt_insert k v m). fst p < x"
    by simp
  with IH Cons.prems show ?case
    by (fastforce simp: bt_ok_def not_less)
qed

lemma bt_ok_remove [simp]: "bt_ok m \<Longrightarrow> bt_ok (bt_remove k m)"
  by (simp add: bt_ok_def bt_remove_def sorted_wrt_map sorted_wrt_filter)

lemma bt_get_remove [simp]:
  "bt_get (bt_remove k m) j = (if j = k then None else bt_get m j)"
  by (induction m) (auto simp: bt_get_def bt_remove_def)

lemma bt_get_map [simp]: "bt_get (bt_map f m) k = map_option f (bt_get m k)"
  by (induction m) (auto simp: bt_get_def bt_map_def)

lemma bt_ok_map [simp]: "bt_ok (bt_map f m) = bt_ok m"
  by (simp add: bt_ok_def bt_map_def comp_def)

lemma bt_get_adjust [simp]:
  "bt_get (bt_adjust k f m) j = (if j = k then map_option f (bt_get m j) else bt_get m j)"
  by (induction m) (auto simp: bt_get_def bt_adjust_def)

lemma bt_ok_adjust [simp]: "bt_ok (bt_adjust k f m) = bt_ok m"
  by (simp add: bt_ok_def bt_adjust_def comp_def if_distrib cong: if_cong)

lemma bt_values_map [simp]: "bt_values (bt_map f m) = map f (bt_values m)"
  by (simp add: bt_values_def bt_map_def)

lemma length_bt_map [simp]: "length (bt_map f m) = length m"
  by (simp add: bt_map_def)

lemma length_bt_adjust [simp]: "length (bt_adjust k f m) = length m"
  by (simp add: bt_adjust_def)

lemma length_bt_insert [simp]:
  "bt_ok m \<Longrightarrow>
     length (bt_insert k v m) = (if bt_get m k = None then Suc (length m) else length m)"
proof (induction m)
  case Nil
  then show ?case by simp
next
  case (Cons p m)
  then have IH: "length (bt_insert k v m) = (if bt_get m k = None then Suc (length m) else length m)"
    and less: "\<forall>q \<in> set m. fst p < fst q"
    by (auto simp: bt_ok_def)
  show ?case
  proof (cases "fst p < k")
    case True
    with IH show ?thesis by (cases p) (simp add: bt_get_def)
  next
    case False
    with less show ?thesis by (cases p) (auto simp: bt_get_def map_of_eq_None_iff)
  qed
qed

lemma bt_get_in_values: "bt_get m k = Some v \<Longrightarrow> v \<in> set (bt_values m)"
  by (auto simp: bt_get_def bt_values_def dest: map_of_SomeD intro: rev_image_eqI)

lemma bt_values_get: "bt_ok m \<Longrightarrow> v \<in> set (bt_values m) \<Longrightarrow> \<exists>k. bt_get m k = Some v"
proof -
  assume "bt_ok m" and "v \<in> set (bt_values m)"
  then obtain k where "(k, v) \<in> set m" and "distinct (map fst m)"
    by (auto simp: bt_values_def bt_ok_def strict_sorted_iff)
  then show "\<exists>k. bt_get m k = Some v"
    by (auto simp: bt_get_def)
qed

lemma set_bt_values:
  "bt_ok m \<Longrightarrow> v \<in> set (bt_values m) \<longleftrightarrow> (\<exists>k. bt_get m k = Some v)"
  using bt_get_in_values bt_values_get by metis

lemma fst_bt_sweep [simp]: "fst (bt_sweep f m) = bt_map (\<lambda>v. fst (f v)) m"
  by (simp add: bt_sweep_def)

lemma snd_bt_sweep: "snd (bt_sweep f m) = length (filter (\<lambda>v. snd (f v)) (bt_values m))"
  by (simp add: bt_sweep_def)

lemma bt_map_map: "bt_map f (bt_map g m) = bt_map (\<lambda>v. f (g v)) m"
  by (simp add: bt_map_def comp_def)

lemma bt_map_cong: "(\<And>v. v \<in> set (bt_values m) \<Longrightarrow> f v = g v) \<Longrightarrow> bt_map f m = bt_map g m"
  by (simp add: bt_map_def bt_values_def)

text \<open>The entries as a list: the first one, membership, and the keys as a multiset.\<close>

lemma bt_in_set: "bt_ok m \<Longrightarrow> (k, v) \<in> set m \<longleftrightarrow> bt_get m k = Some v"
  by (auto simp: bt_ok_def bt_get_def strict_sorted_iff dest: map_of_SomeD)

lemma bt_in_keys: "k \<in> fst ` set m \<longleftrightarrow> bt_get m k \<noteq> None"
  by (force simp: bt_get_def map_of_eq_None_iff)

lemma bt_empty_iff: "m = [] \<longleftrightarrow> (\<forall>k. bt_get m k = None)"
  by (cases m) (auto simp: bt_get_def)

lemma bt_get_front [simp]: "bt_get ((k, v) # m) k = Some v"
  by (simp add: bt_get_def)

lemma bt_front_least: "bt_ok ((k, v) # m) \<Longrightarrow> bt_get ((k, v) # m) j \<noteq> None \<Longrightarrow> k \<le> j"
  by (fastforce simp: bt_ok_def bt_get_def dest: map_of_SomeD split: if_splits)

lemma bt_ok_tail: "bt_ok (p # m) \<Longrightarrow> bt_ok m"
  by (simp add: bt_ok_def)

lemma bt_remove_front: "bt_ok (p # m) \<Longrightarrow> bt_remove (fst p) (p # m) = m"
  by (auto simp: bt_ok_def bt_remove_def intro!: filter_True)

lemma bt_remove_absent: "bt_get m k = None \<Longrightarrow> bt_remove k m = m"
  by (force simp: bt_get_def bt_remove_def map_of_eq_None_iff intro: filter_True)

lemma keys_bt_adjust [simp]: "map fst (bt_adjust k f m) = map fst m"
  by (simp add: bt_adjust_def)

lemma mset_bt_insert:
  "bt_get m k = None \<Longrightarrow> mset (map fst (bt_insert k v m)) = add_mset k (mset (map fst m))"
  by (induction m) (auto simp: bt_get_def split: if_splits)

lemma mset_bt_remove:
  "bt_ok m \<Longrightarrow> bt_get m k = Some v \<Longrightarrow>
     mset (map fst m) = add_mset k (mset (map fst (bt_remove k m)))"
proof (induction m)
  case Nil
  then show ?case by simp
next
  case (Cons p m)
  show ?case
  proof (cases "fst p = k")
    case True
    with bt_remove_front [OF Cons.prems(1)] show ?thesis by simp
  next
    case False
    with Cons show ?thesis
      by (cases p) (auto simp: bt_get_def bt_remove_def dest: bt_ok_tail)
  qed
qed

lemma length_bt_remove:
  "bt_ok m \<Longrightarrow> bt_get m k = Some v \<Longrightarrow> Suc (length (bt_remove k m)) = length m"
  using mset_bt_remove [of m k v] by (metis length_map size_add_mset size_mset)

lemma bt_insert_same: "bt_ok m \<Longrightarrow> bt_get m k = Some v \<Longrightarrow> bt_insert k v m = m"
proof (induction m)
  case (Cons a m)
  obtain j w where a: "a = (j, w)" by (cases a)
  show ?case
  proof (cases "j = k")
    case True
    with Cons a show ?thesis by (simp add: bt_get_def)
  next
    case False
    with Cons a have "bt_get m k = Some v" "bt_ok m" by (simp_all add: bt_get_def bt_ok_def)
    moreover from this have "k \<in> set (map fst m)" by (force simp: bt_get_def dest: map_of_SomeD)
    then have "j < k" using Cons.prems(1) a by (auto simp: bt_ok_def)
    ultimately show ?thesis using Cons.IH a False by simp
  qed
qed (simp add: bt_get_def)

lemma bt_remove_above: "bt_ok ((j, w) # m) \<Longrightarrow> k \<le> j \<Longrightarrow> bt_remove k m = m"
  unfolding bt_remove_def bt_ok_def by (rule filter_True) force

lemma bt_values_insert:
  "bt_ok m \<Longrightarrow> mset (bt_values (bt_insert k v m)) = add_mset v (mset (bt_values (bt_remove k m)))"
proof (induction m)
  case (Cons a m)
  obtain j w where a: "a = (j, w)" by (cases a)
  have "bt_ok m" using Cons.prems by (simp add: bt_ok_def)
  note IH = Cons.IH [OF this]
  consider "j < k" | "j = k" | "k < j" by fastforce
  then show ?case
  proof cases
    case 1
    then have "j \<noteq> k" by simp
    with IH a 1 show ?thesis by (simp add: bt_values_def bt_remove_def)
  next
    case 2
    with bt_remove_above [of j w m k] Cons.prems a show ?thesis
      by (simp add: bt_values_def) (simp add: bt_remove_def)
  next
    case 3
    then have "\<not> j < k" "j \<noteq> k" by auto
    with 3 bt_remove_above [of j w m k] Cons.prems a show ?thesis
      by (simp add: bt_values_def) (simp add: bt_remove_def)
  qed
qed (simp add: bt_values_def bt_remove_def)

lemma bt_values_remove:
  "bt_ok m \<Longrightarrow> bt_get m k = Some v \<Longrightarrow> mset (bt_values m) = add_mset v (mset (bt_values (bt_remove k m)))"
  using bt_values_insert [of m k v] bt_insert_same [of m k v] by simp

lemma set_values_insert_subset: "bt_ok m \<Longrightarrow> set (bt_values (bt_insert k v m)) \<subseteq> insert v (set (bt_values m))"
proof -
  assume ok: "bt_ok m"
  have "set_mset (mset (bt_values (bt_insert k v m))) \<subseteq> insert v (set (bt_values (bt_remove k m)))"
    unfolding bt_values_insert [OF ok] by simp
  then show ?thesis by (auto simp: bt_values_def bt_remove_def)
qed

lemma bt_adjust_insert: "bt_ok m \<Longrightarrow> bt_get m k = Some v \<Longrightarrow> bt_adjust k f m = bt_insert k (f v) m"
proof (induction m)
  case (Cons a m)
  obtain j w where a: "a = (j, w)" by (cases a)
  have rest: "bt_adjust k f m = m" if "j = k"
    using Cons.prems(1) a that by (induction m) (auto simp: bt_adjust_def bt_ok_def)
  show ?case
  proof (cases "j = k")
    case True
    with Cons a rest show ?thesis by (simp add: bt_adjust_def bt_get_def)
  next
    case False
    with Cons a have m: "bt_get m k = Some v" "bt_ok m" by (simp_all add: bt_get_def bt_ok_def)
    then have "k \<in> set (map fst m)" by (force simp: bt_get_def dest: map_of_SomeD)
    then have "j < k" using Cons.prems(1) a by (auto simp: bt_ok_def)
    with Cons.IH [OF m(2,1)] a False show ?thesis by (simp add: bt_adjust_def)
  qed
qed (simp add: bt_get_def)

lemma bt_adjust_same: "bt_ok m \<Longrightarrow> bt_get m k = Some v \<Longrightarrow> bt_adjust k (\<lambda>_. v) m = m"
  by (simp add: bt_adjust_insert bt_insert_same)

section \<open>The contract\<close>

locale ordered_map =
  fixes empty_map :: "'m"
    and lookup :: "'m \<Rightarrow> 'k::linorder \<Rightarrow> 'v option"
    and insert_at :: "'k \<Rightarrow> 'v \<Rightarrow> 'm \<Rightarrow> 'm"
    and remove_at :: "'k \<Rightarrow> 'm \<Rightarrow> 'm"
    and adjust_at :: "'k \<Rightarrow> ('v \<Rightarrow> 'v) \<Rightarrow> 'm \<Rightarrow> 'm"
    and vals :: "'m \<Rightarrow> 'v list"
    and ok :: "'m \<Rightarrow> bool"
  assumes ok_empty: "ok empty_map"
    and ok_insert: "ok m \<Longrightarrow> ok (insert_at k v m)"
    and ok_remove: "ok m \<Longrightarrow> ok (remove_at k m)"
    and ok_adjust: "ok m \<Longrightarrow> ok (adjust_at k f m)"
    and lookup_empty: "lookup empty_map k = None"
    and lookup_insert: "ok m \<Longrightarrow> lookup (insert_at k v m) = (lookup m)(k \<mapsto> v)"
    and lookup_remove: "ok m \<Longrightarrow> lookup (remove_at k m) = (lookup m)(k := None)"
    and lookup_adjust:
      "ok m \<Longrightarrow> lookup (adjust_at k f m) = (lookup m)(k := map_option f (lookup m k))"
    and vals_lookup: "ok m \<Longrightarrow> set (vals m) = ran (lookup m)"
begin

lemmas lookup_simps = lookup_empty lookup_insert lookup_remove lookup_adjust

lemma insert_frame: "ok m \<Longrightarrow> j \<noteq> k \<Longrightarrow> lookup (insert_at k v m) j = lookup m j"
  by (simp add: lookup_insert)

lemma dom_insert: "ok m \<Longrightarrow> dom (lookup (insert_at k v m)) = insert k (dom (lookup m))"
  by (simp add: lookup_insert)

lemma dom_remove: "ok m \<Longrightarrow> dom (lookup (remove_at k m)) = dom (lookup m) - {k}"
  by (simp add: lookup_remove)

lemma dom_adjust: "ok m \<Longrightarrow> dom (lookup (adjust_at k f m)) = dom (lookup m)"
  by (auto simp: lookup_adjust split: if_splits)

lemma forall_vals: "ok m \<Longrightarrow> (\<forall>v \<in> set (vals m). P v) \<longleftrightarrow> (\<forall>k v. lookup m k = Some v \<longrightarrow> P v)"
  by (auto simp: vals_lookup ran_def)

lemma exists_vals: "ok m \<Longrightarrow> (\<exists>v \<in> set (vals m). P v) \<longleftrightarrow> (\<exists>k v. lookup m k = Some v \<and> P v)"
  by (auto simp: vals_lookup ran_def)

lemma insert_vals_inv:
  "ok m \<Longrightarrow> P v \<Longrightarrow> \<forall>w \<in> set (vals m). P w \<Longrightarrow> \<forall>w \<in> set (vals (insert_at k v m)). P w"
  by (auto simp: forall_vals ok_insert lookup_insert split: if_splits)

end

interpretation bt: ordered_map "[]" bt_get bt_insert bt_remove bt_adjust bt_values bt_ok
proof unfold_locales
  fix m :: "('a::linorder, 'b) btree" and k v f
  show "bt_ok m \<Longrightarrow> set (bt_values m) = ran (bt_get m)"
    by (auto simp: ran_def set_bt_values)
qed auto

end
