(* ===== verification/CapTable.thy ===== *)
theory CapTable imports OrdMap Resources begin

text \<open>
  The per-process capability table (\<^verbatim>\<open>kernel/src/cap/table.rs\<close>): entries keyed by handle, the
  handle counter, and every operation of the table. The authority a table confers is the set
  of (type, object, right) triples its valid entries hold; the operations are related to that
  set, and the table's operations form a machine whose authority only grows by what it is given.
\<close>

section \<open>State\<close>

definition MAX_ENTRIES :: nat where "MAX_ENTRIES = 4096"

record cap_entry =
  ce_type :: resource_type
  ce_id :: u64
  ce_rights :: rights
  ce_suspended :: rights
  ce_valid :: bool

record cap_table =
  ct_entries :: "(u64, cap_entry) btree"
  ct_next :: u64

definition ct_new :: cap_table where
  "ct_new = \<lparr>ct_entries = [], ct_next = 1\<rparr>"

section \<open>Operations\<close>

definition ct_insert_with_suspended ::
  "resource_type \<Rightarrow> u64 \<Rightarrow> rights \<Rightarrow> rights \<Rightarrow> cap_table \<Rightarrow> cap_table \<times> u64 kernel_result" where
  "ct_insert_with_suspended ty rid r susp t =
     (if MAX_ENTRIES \<le> length (ct_entries t) then (t, Err InvalidArgument)
      else
        let handle_val = ct_next t;
            next = handle_val + 1;
            next = (if next = 0 then 1 else next);
            entry = \<lparr>ce_type = ty, ce_id = rid, ce_rights = r, ce_suspended = susp, ce_valid = True\<rparr>
        in (t\<lparr>ct_entries := bt_insert handle_val entry (ct_entries t), ct_next := next\<rparr>,
            Ok handle_val))"

definition ct_insert ::
  "resource_type \<Rightarrow> u64 \<Rightarrow> rights \<Rightarrow> cap_table \<Rightarrow> cap_table \<times> u64 kernel_result" where
  "ct_insert ty rid r t = ct_insert_with_suspended ty rid r NONE t"

definition ct_lookup :: "cap_table \<Rightarrow> u64 \<Rightarrow> cap_entry kernel_result" where
  "ct_lookup t h =
     (case bt_get (ct_entries t) h of
        None \<Rightarrow> Err InvalidCapability
      | Some e \<Rightarrow> if \<not> ce_valid e then Err InvalidCapability else Ok e)"

definition ct_check_rights :: "cap_table \<Rightarrow> u64 \<Rightarrow> rights \<Rightarrow> cap_entry kernel_result" where
  "ct_check_rights t h required =
     (case ct_lookup t h of
        Inl err \<Rightarrow> Err err
      | Inr e \<Rightarrow> if \<not> rights_contains (ce_rights e) required then Err PermissionDenied else Ok e)"

definition ct_duplicate :: "u64 \<Rightarrow> rights \<Rightarrow> cap_table \<Rightarrow> cap_table \<times> u64 kernel_result" where
  "ct_duplicate source new_rights t =
     (case bt_get (ct_entries t) source of
        None \<Rightarrow> (t, Err InvalidCapability)
      | Some e \<Rightarrow>
          if \<not> ce_valid e then (t, Err InvalidCapability)
          else if \<not> rights_contains (ce_rights e) DUPLICATE then (t, Err PermissionDenied)
          else if \<not> rights_is_subset_of new_rights (ce_rights e) then (t, Err PermissionDenied)
          else ct_insert (ce_type e) (ce_id e) new_rights t)"

definition ct_revoke :: "u64 \<Rightarrow> cap_table \<Rightarrow> cap_table \<times> bool" where
  "ct_revoke h t =
     (case bt_get (ct_entries t) h of
        Some _ \<Rightarrow> (t\<lparr>ct_entries := bt_adjust h (\<lambda>e. e\<lparr>ce_valid := False\<rparr>) (ct_entries t)\<rparr>, True)
      | None \<Rightarrow> (t, False))"

definition ct_remove :: "u64 \<Rightarrow> cap_table \<Rightarrow> cap_table \<times> cap_entry option" where
  "ct_remove h t = (t\<lparr>ct_entries := bt_remove h (ct_entries t)\<rparr>, bt_get (ct_entries t) h)"

definition ct_valid_entries :: "cap_table \<Rightarrow> cap_entry list" where
  "ct_valid_entries t = filter ce_valid (bt_values (ct_entries t))"

definition ct_count :: "cap_table \<Rightarrow> nat" where
  "ct_count t = length (filter ce_valid (bt_values (ct_entries t)))"

definition ct_has_resource :: "cap_table \<Rightarrow> resource_type \<Rightarrow> u64 \<Rightarrow> rights \<Rightarrow> bool" where
  "ct_has_resource t ty rid required \<longleftrightarrow>
     (\<exists>e \<in> set (bt_values (ct_entries t)).
        ce_valid e \<and> ce_type e = ty \<and> ce_id e = rid \<and> rights_contains (ce_rights e) required)"

definition ct_has_capability_type :: "cap_table \<Rightarrow> resource_type \<Rightarrow> rights \<Rightarrow> bool" where
  "ct_has_capability_type t ty required \<longleftrightarrow>
     (\<exists>e \<in> set (bt_values (ct_entries t)).
        ce_valid e \<and> ce_type e = ty \<and> rights_contains (ce_rights e) required)"

definition ct_drain_valid :: "cap_table \<Rightarrow> cap_table \<times> (resource_type \<times> u64) list" where
  "ct_drain_valid t =
     (t\<lparr>ct_entries := []\<rparr>,
      map (\<lambda>e. (ce_type e, ce_id e)) (filter ce_valid (bt_values (ct_entries t))))"

text \<open>The bodies of the loops over \<^verbatim>\<open>values_mut()\<close>: the entry afterwards, and whether it is counted.\<close>

definition narrow_body :: "(cap_entry \<Rightarrow> rights) \<Rightarrow> cap_entry \<Rightarrow> cap_entry \<times> bool" where
  "narrow_body keep e =
     (if \<not> ce_valid e then (e, False)
      else let kept = keep e in
        if kept = ce_rights e then (e, False)
        else if rights_is_empty kept then (e\<lparr>ce_valid := False\<rparr>, True)
        else (e\<lparr>ce_rights := kept\<rparr>, True))"

definition suspend_body :: "(cap_entry \<Rightarrow> rights) \<Rightarrow> cap_entry \<Rightarrow> cap_entry \<times> bool" where
  "suspend_body keep e =
     (if \<not> ce_valid e then (e, False)
      else let gone = rights_remove (ce_rights e) (keep e) in
        if rights_is_empty gone then (e, False)
        else (e\<lparr>ce_rights := rights_remove (ce_rights e) gone,
                ce_suspended := rights_union (ce_suspended e) gone\<rparr>, True))"

definition restore_body :: "cap_entry \<Rightarrow> cap_entry \<times> bool" where
  "restore_body e =
     (if \<not> ce_valid e \<or> rights_is_empty (ce_suspended e) then (e, False)
      else (e\<lparr>ce_rights := rights_union (ce_rights e) (ce_suspended e), ce_suspended := NONE\<rparr>, True))"

definition drop_body :: "cap_entry \<Rightarrow> cap_entry \<times> bool" where
  "drop_body e =
     (if \<not> ce_valid e \<or> rights_is_empty (ce_suspended e) then (e, False)
      else (let e = e\<lparr>ce_suspended := NONE\<rparr> in
        if rights_is_empty (ce_rights e) then e\<lparr>ce_valid := False\<rparr> else e, True))"

definition revoke_resource_body :: "resource_type \<Rightarrow> u64 \<Rightarrow> cap_entry \<Rightarrow> cap_entry \<times> bool" where
  "revoke_resource_body ty rid e =
     (if ce_valid e \<and> ce_type e = ty \<and> ce_id e = rid then (e\<lparr>ce_valid := False\<rparr>, True)
      else (e, False))"

definition ct_sweep :: "(cap_entry \<Rightarrow> cap_entry \<times> bool) \<Rightarrow> cap_table \<Rightarrow> cap_table \<times> nat" where
  "ct_sweep body t =
     (case bt_sweep body (ct_entries t) of (es, changed) \<Rightarrow> (t\<lparr>ct_entries := es\<rparr>, changed))"

definition ct_narrow_all :: "(cap_entry \<Rightarrow> rights) \<Rightarrow> cap_table \<Rightarrow> cap_table \<times> nat" where
  "ct_narrow_all keep t = ct_sweep (narrow_body keep) t"

definition ct_suspend :: "(cap_entry \<Rightarrow> rights) \<Rightarrow> cap_table \<Rightarrow> cap_table \<times> nat" where
  "ct_suspend keep t = ct_sweep (suspend_body keep) t"

definition ct_restore :: "cap_table \<Rightarrow> cap_table \<times> nat" where
  "ct_restore t = ct_sweep restore_body t"

definition ct_drop_suspended :: "cap_table \<Rightarrow> cap_table \<times> nat" where
  "ct_drop_suspended t = ct_sweep drop_body t"

definition ct_revoke_by_resource :: "resource_type \<Rightarrow> u64 \<Rightarrow> cap_table \<Rightarrow> cap_table \<times> nat" where
  "ct_revoke_by_resource ty rid t = ct_sweep (revoke_resource_body ty rid) t"

definition ct_suspended_count :: "cap_table \<Rightarrow> nat" where
  "ct_suspended_count t =
     length (filter (\<lambda>e. ce_valid e \<and> \<not> rights_is_empty (ce_suspended e)) (bt_values (ct_entries t)))"

text \<open>What \<^verbatim>\<open>SYS_CAP_QUERY\<close> reports of an entry (\<^verbatim>\<open>CapEntryInfo::from_entry\<close>).\<close>

record cap_entry_info =
  ci_type :: u16
  ci_reserved :: "u16 list"
  ci_rights :: u64
  ci_id :: u64

definition cap_entry_info_from :: "cap_entry \<Rightarrow> cap_entry_info" where
  "cap_entry_info_from e =
     \<lparr>ci_type = discriminant (ce_type e), ci_reserved = [0, 0, 0], ci_rights = ce_rights e,
      ci_id = ce_id e\<rparr>"

section \<open>The table invariant\<close>

definition table_ok :: "cap_table \<Rightarrow> bool" where
  "table_ok t \<longleftrightarrow>
     bt_ok (ct_entries t) \<and> length (ct_entries t) \<le> MAX_ENTRIES \<and> ct_next t \<noteq> 0
     \<and> bt_get (ct_entries t) 0 = None"

lemma table_okD:
  assumes "table_ok t"
  shows "bt_ok (ct_entries t)" and "length (ct_entries t) \<le> MAX_ENTRIES" and "ct_next t \<noteq> 0"
    and "bt_get (ct_entries t) 0 = None"
  using assms by (simp_all add: table_ok_def)

lemma table_ok_new: "table_ok ct_new"
  by (simp add: table_ok_def ct_new_def)

lemma length_bt_remove_le: "length (bt_remove k m) \<le> length m"
  by (simp add: bt_remove_def)

lemma ct_sweep_simps [simp]:
  "fst (ct_sweep body t) = t\<lparr>ct_entries := bt_map (\<lambda>e. fst (body e)) (ct_entries t)\<rparr>"
  "snd (ct_sweep body t) = length (filter (\<lambda>e. snd (body e)) (bt_values (ct_entries t)))"
  by (simp_all add: ct_sweep_def bt_sweep_def)

lemma ct_next_sweep: "ct_next (fst (ct_sweep body t)) = ct_next t"
  by simp

lemma table_ok_sweep: "table_ok t \<Longrightarrow> table_ok (fst (ct_sweep body t))"
  by (simp add: table_ok_def)

lemma table_ok_insert:
  "table_ok t \<Longrightarrow> table_ok (fst (ct_insert_with_suspended ty rid r s t))"
  by (auto simp: table_ok_def ct_insert_with_suspended_def Let_def)

lemma table_ok_duplicate: "table_ok t \<Longrightarrow> table_ok (fst (ct_duplicate h r t))"
  by (auto simp: ct_duplicate_def ct_insert_def table_ok_insert split: option.splits)

lemma table_ok_revoke: "table_ok t \<Longrightarrow> table_ok (fst (ct_revoke h t))"
  by (auto simp: table_ok_def ct_revoke_def split: option.splits)

lemma table_ok_remove: "table_ok t \<Longrightarrow> table_ok (fst (ct_remove h t))"
  using length_bt_remove_le [of h "ct_entries t"] by (auto simp: table_ok_def ct_remove_def)

lemma table_ok_drain: "table_ok t \<Longrightarrow> table_ok (fst (ct_drain_valid t))"
  by (auto simp: table_ok_def ct_drain_valid_def)

section \<open>Authority\<close>

text \<open>What an entry permits now, and what it could permit once its put-aside rights are back.\<close>

definition entry_usable :: "cap_entry \<Rightarrow> (resource_type \<times> u64 \<times> nat) set" where
  "entry_usable e = (if ce_valid e then {ce_type e} \<times> {ce_id e} \<times> bits (ce_rights e) else {})"

definition entry_held :: "cap_entry \<Rightarrow> (resource_type \<times> u64 \<times> nat) set" where
  "entry_held e =
     (if ce_valid e
      then {ce_type e} \<times> {ce_id e} \<times> (bits (ce_rights e) \<union> bits (ce_suspended e)) else {})"

definition usable :: "cap_table \<Rightarrow> (resource_type \<times> u64 \<times> nat) set" where
  "usable t = (\<Union>e \<in> set (bt_values (ct_entries t)). entry_usable e)"

definition held :: "cap_table \<Rightarrow> (resource_type \<times> u64 \<times> nat) set" where
  "held t = (\<Union>e \<in> set (bt_values (ct_entries t)). entry_held e)"

definition rights_over :: "resource_type \<Rightarrow> u64 \<Rightarrow> rights \<Rightarrow> (resource_type \<times> u64 \<times> nat) set" where
  "rights_over ty rid r = {ty} \<times> {rid} \<times> bits r"

lemma usable_subset_held: "usable t \<subseteq> held t"
  by (force simp: usable_def held_def entry_usable_def entry_held_def)

lemma has_resource_usable:
  "ct_has_resource t ty rid r \<Longrightarrow> rights_over ty rid r \<subseteq> usable t"
  by (force simp: ct_has_resource_def rights_over_def usable_def entry_usable_def rights_bits)

lemma has_type_usable:
  assumes "ct_has_capability_type t ty r" and "b \<in> bits r"
  shows "\<exists>rid. (ty, rid, b) \<in> usable t"
  using assms by (force simp: ct_has_capability_type_def usable_def entry_usable_def rights_bits)

lemma lookup_usable:
  assumes "ct_check_rights t h r = Ok e"
  shows "rights_over (ce_type e) (ce_id e) r \<subseteq> usable t"
proof -
  from assms have "e \<in> set (bt_values (ct_entries t))" and "ce_valid e" and "bits r \<subseteq> bits (ce_rights e)"
    by (auto simp: ct_check_rights_def ct_lookup_def rights_bits dest: bt_get_in_values
        split: option.splits if_splits sum.splits)
  then show ?thesis
    by (force simp: rights_over_def usable_def entry_usable_def)
qed

text \<open>An insertion under a handle adds the new entry's authority and may only lose what was there.\<close>

lemma set_values_insert:
  "set (bt_values (bt_insert k v m)) \<subseteq> insert v (set (bt_values m))"
  using set_bt_insert [of k v m] by (force simp: bt_values_def)

lemma held_insert:
  "held (fst (ct_insert_with_suspended ty rid r s t))
     \<subseteq> held t \<union> rights_over ty rid r \<union> rights_over ty rid s"
proof (cases "MAX_ENTRIES \<le> length (ct_entries t)")
  case True
  then show ?thesis by (auto simp: ct_insert_with_suspended_def)
next
  case False
  define e where "e = \<lparr>ce_type = ty, ce_id = rid, ce_rights = r, ce_suspended = s, ce_valid = True\<rparr>"
  have "held (fst (ct_insert_with_suspended ty rid r s t)) \<subseteq> entry_held e \<union> held t"
    using False set_values_insert [of "ct_next t" e "ct_entries t"]
    by (auto simp: ct_insert_with_suspended_def held_def Let_def e_def)
  then show ?thesis
    by (auto simp: entry_held_def e_def rights_over_def)
qed

lemma held_duplicate: "held (fst (ct_duplicate h r t)) \<subseteq> held t"
proof (cases "bt_get (ct_entries t) h")
  case None
  then show ?thesis by (simp add: ct_duplicate_def)
next
  case (Some e)
  show ?thesis
  proof (cases "ce_valid e \<and> rights_contains (ce_rights e) DUPLICATE \<and> rights_is_subset_of r (ce_rights e)")
    case False
    with Some show ?thesis by (auto simp: ct_duplicate_def)
  next
    case True
    with Some have "fst (ct_duplicate h r t) = fst (ct_insert (ce_type e) (ce_id e) r t)"
      by (simp add: ct_duplicate_def)
    moreover have "rights_over (ce_type e) (ce_id e) r \<subseteq> held t"
      using True bt_get_in_values [OF Some]
      by (force simp: rights_over_def held_def entry_held_def rights_bits)
    ultimately show ?thesis
      using held_insert [of "ce_type e" "ce_id e" r NONE t]
      by (auto simp: ct_insert_def rights_over_def bitset_simps)
  qed
qed

lemma held_sweep:
  assumes "\<And>e. entry_held (fst (body e)) \<subseteq> entry_held e"
  shows "held (fst (ct_sweep body t)) \<subseteq> held t"
  using assms by (force simp: held_def)

lemma entry_held_bodies:
  "entry_held (fst (suspend_body keep e)) \<subseteq> entry_held e"
  "entry_held (fst (restore_body e)) \<subseteq> entry_held e"
  "entry_held (fst (drop_body e)) \<subseteq> entry_held e"
  "entry_held (fst (revoke_resource_body ty rid e)) \<subseteq> entry_held e"
  by (auto simp: entry_held_def suspend_body_def restore_body_def drop_body_def
      revoke_resource_body_def Let_def bitset_simps)

lemma entry_held_narrow:
  "rights_contains (ce_rights e) (keep e) \<Longrightarrow> entry_held (fst (narrow_body keep e)) \<subseteq> entry_held e"
  by (auto simp: entry_held_def narrow_body_def Let_def rights_bits)

lemma held_revoke: "held (fst (ct_revoke h t)) \<subseteq> held t"
  by (force simp: ct_revoke_def held_def entry_held_def bt_adjust_def bt_values_def
      split: option.splits if_splits)

lemma held_remove: "held (fst (ct_remove h t)) \<subseteq> held t"
  by (force simp: ct_remove_def held_def bt_remove_def bt_values_def)

lemma held_drain: "held (fst (ct_drain_valid t)) \<subseteq> held t"
  by (simp add: ct_drain_valid_def held_def bt_values_def)

section \<open>The table as a machine\<close>

text \<open>
  The operations of the table's interface; narrowing and putting aside take the closure the
  process table passes them, the rights left without root.
\<close>

definition without_root :: "cap_entry \<Rightarrow> rights" where
  "without_root e = rights_without_root (ce_type e) (ce_id e) (ce_rights e)"

datatype cap_op =
    OpInsert resource_type u64 rights rights
  | OpDuplicate u64 rights
  | OpRevoke u64
  | OpRemove u64
  | OpNarrowRoot
  | OpSuspendRoot
  | OpRestore
  | OpDropSuspended
  | OpRevokeByResource resource_type u64
  | OpDrain

fun cap_step :: "cap_op \<Rightarrow> cap_table \<Rightarrow> cap_table" where
  "cap_step (OpInsert ty rid r s) t = fst (ct_insert_with_suspended ty rid r s t)"
| "cap_step (OpDuplicate h r) t = fst (ct_duplicate h r t)"
| "cap_step (OpRevoke h) t = fst (ct_revoke h t)"
| "cap_step (OpRemove h) t = fst (ct_remove h t)"
| "cap_step OpNarrowRoot t = fst (ct_narrow_all without_root t)"
| "cap_step OpSuspendRoot t = fst (ct_suspend without_root t)"
| "cap_step OpRestore t = fst (ct_restore t)"
| "cap_step OpDropSuspended t = fst (ct_drop_suspended t)"
| "cap_step (OpRevokeByResource ty rid) t = fst (ct_revoke_by_resource ty rid t)"
| "cap_step OpDrain t = fst (ct_drain_valid t)"

fun cap_given :: "cap_op \<Rightarrow> (resource_type \<times> u64 \<times> nat) set" where
  "cap_given (OpInsert ty rid r s) = rights_over ty rid r \<union> rights_over ty rid s"
| "cap_given _ = {}"

lemma without_root_narrows: "rights_contains (ce_rights e) (without_root e)"
  by (simp add: without_root_def rights_without_root_subset)

lemma cap_step_ok: "table_ok t \<Longrightarrow> table_ok (cap_step op t)"
  by (cases op)
    (simp_all add: table_ok_insert table_ok_duplicate table_ok_revoke table_ok_remove
      table_ok_drain table_ok_sweep ct_narrow_all_def ct_suspend_def ct_restore_def
      ct_drop_suspended_def ct_revoke_by_resource_def del: ct_sweep_simps)

lemma cap_step_held: "held (cap_step op t) \<subseteq> held t \<union> cap_given op"
proof (cases op)
  case (OpInsert ty rid r s)
  then show ?thesis using held_insert [of ty rid r s t] by auto
next
  case OpNarrowRoot
  have "held (cap_step op t) \<subseteq> held t"
    unfolding OpNarrowRoot cap_step.simps ct_narrow_all_def
    by (rule held_sweep) (intro entry_held_narrow without_root_narrows)
  then show ?thesis by auto
next
  case (OpDuplicate h r)
  then show ?thesis using held_duplicate [of h r t] by auto
next
  case (OpRevoke h)
  then show ?thesis using held_revoke [of h t] by auto
next
  case (OpRemove h)
  then show ?thesis using held_remove [of h t] by auto
next
  case OpSuspendRoot
  then show ?thesis using held_sweep [where t = t, OF entry_held_bodies(1)]
    by (simp add: ct_suspend_def del: ct_sweep_simps)
next
  case OpRestore
  then show ?thesis using held_sweep [where t = t, OF entry_held_bodies(2)]
    by (simp add: ct_restore_def del: ct_sweep_simps)
next
  case OpDropSuspended
  then show ?thesis using held_sweep [where t = t, OF entry_held_bodies(3)]
    by (simp add: ct_drop_suspended_def del: ct_sweep_simps)
next
  case (OpRevokeByResource ty rid)
  then show ?thesis using held_sweep [where t = t, OF entry_held_bodies(4)]
    by (simp add: ct_revoke_by_resource_def del: ct_sweep_simps)
next
  case OpDrain
  then show ?thesis using held_drain [of t] by auto
qed

interpretation cap: authority_machine cap_step table_ok held cap_given
  by unfold_locales (rule cap_step_ok cap_step_held | assumption)+

section \<open>Putting root's authority aside\<close>

text \<open>A set of triples without those that are root's.\<close>

definition rootless :: "(resource_type \<times> u64 \<times> nat) set \<Rightarrow> (resource_type \<times> u64 \<times> nat) set" where
  "rootless X = {(ty, rid, b). (ty, rid, b) \<in> X \<and> b \<notin> root_only ty rid}"

lemma rootless_UN: "rootless (\<Union>x \<in> A. f x) = (\<Union>x \<in> A. rootless (f x))"
  by (auto simp: rootless_def)

lemma rootless_idem [simp]: "rootless (rootless X) = rootless X"
  by (auto simp: rootless_def)

lemma rootless_subset: "rootless X \<subseteq> X"
  by (auto simp: rootless_def)

lemma bits_without_root: "bits (without_root e) = bits (ce_rights e) - root_only (ce_type e) (ce_id e)"
  by (simp add: without_root_def bits_rights_without_root)

lemma usable_suspend_body:
  "entry_usable (fst (suspend_body without_root e)) = rootless (entry_usable e)"
proof (cases "ce_valid e \<and> \<not> bits (ce_rights e) \<subseteq> bits (without_root e)")
  case True
  then have "fst (suspend_body without_root e) =
      e\<lparr>ce_rights := rights_intersect (ce_rights e) (without_root e),
        ce_suspended := rights_union (ce_suspended e) (rights_remove (ce_rights e) (without_root e))\<rparr>"
    by (simp add: suspend_body_def Let_def rights_remove_empty rights_remove_remove)
  with True show ?thesis
    by (auto simp: entry_usable_def rootless_def bits_intersect bits_without_root)
next
  case False
  then have "fst (suspend_body without_root e) = e"
    by (auto simp: suspend_body_def Let_def rights_remove_empty)
  with False show ?thesis
    by (auto simp: entry_usable_def rootless_def bits_without_root)
qed

lemma held_suspend_body: "entry_held (fst (suspend_body keep e)) = entry_held e"
  by (auto simp: entry_held_def suspend_body_def Let_def bitset_simps)

lemma narrow_drop_body:
  assumes "ce_valid e"
    and "\<not> (rights_is_empty (without_root e) \<and> (ce_rights e \<noteq> without_root e \<or> ce_suspended e \<noteq> 0))"
  shows "fst (drop_body (fst (narrow_body without_root e)))
     = e\<lparr>ce_rights := without_root e, ce_suspended := NONE\<rparr>"
  using assms by (cases e) (auto simp: drop_body_def narrow_body_def Let_def rights_is_empty_def NONE_def)

lemma narrow_drop_invalid:
  "ce_valid e \<Longrightarrow> rights_is_empty (without_root e) \<and> (ce_rights e \<noteq> without_root e \<or> ce_suspended e \<noteq> 0)
     \<Longrightarrow> \<not> ce_valid (fst (drop_body (fst (narrow_body without_root e))))"
  by (auto simp: drop_body_def narrow_body_def Let_def rights_is_empty_def NONE_def)

lemma narrow_drop_usable:
  fixes e :: cap_entry
  defines "e' \<equiv> fst (drop_body (fst (narrow_body without_root e)))"
  shows "entry_held e' = rootless (entry_usable e) \<and> entry_usable e' = rootless (entry_usable e)"
proof (cases "ce_valid e")
  case False
  then have "e' = e" by (simp add: e'_def drop_body_def narrow_body_def)
  with False show ?thesis by (simp add: entry_held_def entry_usable_def rootless_def)
next
  case valid: True
  show ?thesis
  proof (cases "rights_is_empty (without_root e) \<and> (ce_rights e \<noteq> without_root e \<or> ce_suspended e \<noteq> 0)")
    case True
    then have "rootless (entry_usable e) = {}"
      using bits_without_root [of e]
      by (auto simp: rights_empty_bits rootless_def entry_usable_def)
    with narrow_drop_invalid [OF valid True] show ?thesis
      by (simp add: e'_def entry_held_def entry_usable_def)
  next
    case False
    then have "e' = e\<lparr>ce_rights := without_root e, ce_suspended := NONE\<rparr>"
      using narrow_drop_body [OF valid False] by (simp only: e'_def)
    with valid show ?thesis
      by (auto simp: entry_held_def entry_usable_def rootless_def bits_without_root bits_NONE)
  qed
qed

lemma restore_suspend_body: "fst (restore_body (fst (suspend_body keep e))) = fst (restore_body e)"
proof (cases "ce_valid e \<and> \<not> rights_is_empty (rights_remove (ce_rights e) (keep e))")
  case False
  then have "fst (suspend_body keep e) = e" by (auto simp: suspend_body_def Let_def)
  then show ?thesis by simp
next
  case True
  define gone where "gone = rights_remove (ce_rights e) (keep e)"
  have union: "rights_union (rights_remove (ce_rights e) gone) (rights_union (ce_suspended e) gone)
      = rights_union (ce_rights e) (ce_suspended e)"
    by (auto simp: bits_eq_iff bitset_simps gone_def)
  have "\<not> rights_is_empty gone" using True by (simp add: gone_def)
  then have put_aside: "\<not> rights_is_empty (rights_union (ce_suspended e) gone)"
    by (simp add: rights_empty_bits bits_union)
  have none: "rights_is_empty (ce_suspended e) \<Longrightarrow>
      e\<lparr>ce_rights := rights_union (ce_rights e) (ce_suspended e), ce_suspended := NONE\<rparr> = e"
    by (cases e) (simp add: rights_is_empty_def rights_union_def NONE_def)
  have "fst (suspend_body keep e) =
      e\<lparr>ce_rights := rights_remove (ce_rights e) gone, ce_suspended := rights_union (ce_suspended e) gone\<rparr>"
    using True by (simp add: suspend_body_def Let_def gone_def)
  then have "fst (restore_body (fst (suspend_body keep e))) =
      e\<lparr>ce_rights := rights_union (ce_rights e) (ce_suspended e), ce_suspended := NONE\<rparr>"
    using True put_aside by (simp add: restore_body_def union)
  also have "\<dots> = fst (restore_body e)"
    using True none by (simp add: restore_body_def)
  finally show ?thesis .
qed

lemma held_values: "held t = (\<Union>e \<in> set (bt_values (ct_entries t)). entry_held e)"
  by (simp add: held_def)

lemma usable_sweep:
  "usable (fst (ct_sweep body t)) = (\<Union>e \<in> set (bt_values (ct_entries t)). entry_usable (fst (body e)))"
  by (simp add: usable_def)

lemma held_sweep_eq:
  "held (fst (ct_sweep body t)) = (\<Union>e \<in> set (bt_values (ct_entries t)). entry_held (fst (body e)))"
  by (simp add: held_def)

text \<open>
  A right put aside permits nothing and is not lost: after root's rights are put aside, what
  the table permits is exactly what it permitted less root's triples, what it could permit is
  unchanged, and giving the rights back yields the table that giving them back would have
  yielded anyway.
\<close>

lemma suspend_puts_root_aside:
  fixes t :: cap_table
  defines "t' \<equiv> fst (ct_suspend without_root t)"
  shows "usable t' = rootless (usable t) \<and> held t' = held t \<and> fst (ct_restore t') = fst (ct_restore t)"
proof -
  have "usable t' = rootless (usable t)"
    unfolding t'_def ct_suspend_def usable_sweep usable_suspend_body
    by (simp add: usable_def rootless_UN)
  moreover have "held t' = held t"
    unfolding t'_def ct_suspend_def held_sweep_eq held_suspend_body
    by (simp add: held_def)
  moreover have "fst (ct_restore t') = fst (ct_restore t)"
    by (simp add: t'_def ct_restore_def ct_suspend_def bt_map_map restore_suspend_body)
  ultimately show ?thesis by blast
qed

text \<open>
  Narrowing every entry and dropping what was put aside takes root's authority for good: what
  the table can ever permit without a new grant is what it permitted before less root's triples.
\<close>

lemma narrow_and_drop_is_final:
  fixes t :: cap_table
  defines "t' \<equiv> fst (ct_drop_suspended (fst (ct_narrow_all without_root t)))"
  shows "held t' = rootless (usable t) \<and> usable t' = rootless (usable t)"
proof -
  have vals: "bt_values (ct_entries t')
      = map (\<lambda>e. fst (drop_body (fst (narrow_body without_root e)))) (bt_values (ct_entries t))"
    by (simp add: t'_def ct_drop_suspended_def ct_narrow_all_def)
  have "held t' = rootless (usable t)"
    by (simp add: held_def vals narrow_drop_usable usable_def rootless_UN)
  moreover have "usable t' = rootless (usable t)"
    by (simp add: usable_def vals narrow_drop_usable rootless_UN)
  ultimately show ?thesis by blast
qed

section \<open>Delegation\<close>

lemma ct_insert_ok:
  assumes "table_ok t" and "ct_insert_with_suspended ty rid r s t = (t', Ok h)"
  shows "h = ct_next t"
    and "bt_get (ct_entries t') j
       = (if j = h then Some \<lparr>ce_type = ty, ce_id = rid, ce_rights = r, ce_suspended = s, ce_valid = True\<rparr>
          else bt_get (ct_entries t) j)"
  using assms by (auto simp: ct_insert_with_suspended_def Let_def table_ok_def split: if_splits)

text \<open>
  A duplicated capability names the same object, carries exactly the rights asked for, which
  the source holds, and nothing put aside; the source held the DUPLICATE right; no other handle
  of the table changes meaning.
\<close>

theorem duplicate_attenuates:
  assumes ok: "table_ok t" and dup: "ct_duplicate h r t = (t', Ok h')"
  shows "\<exists>e e'. ct_check_rights t h DUPLICATE = Ok e \<and> ct_lookup t' h' = Ok e'
      \<and> ce_type e' = ce_type e \<and> ce_id e' = ce_id e
      \<and> ce_rights e' = r \<and> bits r \<subseteq> bits (ce_rights e) \<and> ce_suspended e' = NONE
      \<and> h' \<noteq> 0 \<and> (\<forall>j. j \<noteq> h' \<longrightarrow> ct_lookup t' j = ct_lookup t j)"
proof -
  from dup obtain e where e: "bt_get (ct_entries t) h = Some e" "ce_valid e"
    "rights_contains (ce_rights e) DUPLICATE" "bits r \<subseteq> bits (ce_rights e)"
    and ins: "ct_insert_with_suspended (ce_type e) (ce_id e) r NONE t = (t', Ok h')"
    by (auto simp: ct_duplicate_def ct_insert_def rights_subset_bits split: option.splits if_splits)
  note new = ct_insert_ok [OF ok ins]
  have "ct_check_rights t h DUPLICATE = Ok e"
    using e by (simp add: ct_check_rights_def ct_lookup_def)
  moreover have "ct_lookup t' h' = Ok \<lparr>ce_type = ce_type e, ce_id = ce_id e, ce_rights = r,
      ce_suspended = NONE, ce_valid = True\<rparr>"
    using new(2) [of h'] by (simp add: ct_lookup_def)
  moreover have "\<forall>j. j \<noteq> h' \<longrightarrow> ct_lookup t' j = ct_lookup t j"
    using new(2) by (simp add: ct_lookup_def)
  ultimately show ?thesis
    using e new(1) ok by (auto simp: table_ok_def)
qed

definition sample_table :: cap_table where
  "sample_table =
     fst (ct_insert Process 7 (rights_union READ (rights_union SET_CREDENTIALS DUPLICATE))
       (fst (ct_insert SystemClock 0 WRITE ct_new)))"

lemma table_ok_sample: "table_ok sample_table"
  by (simp add: sample_table_def ct_insert_def table_ok_insert table_ok_new)

lemma sample_entries:
  "sample_table = \<lparr>ct_entries =
     [(1, \<lparr>ce_type = SystemClock, ce_id = 0, ce_rights = 2, ce_suspended = 0, ce_valid = True\<rparr>),
      (2, \<lparr>ce_type = Process, ce_id = 7, ce_rights = 262273, ce_suspended = 0, ce_valid = True\<rparr>)],
     ct_next = 3\<rparr>"
  by (simp add: sample_table_def ct_insert_def ct_insert_with_suspended_def ct_new_def
      MAX_ENTRIES_def right_defs rights_union_def NONE_def)

lemma sample_duplicate:
  "ct_duplicate 2 READ sample_table
     = (sample_table\<lparr>ct_entries := ct_entries sample_table @
          [(3, \<lparr>ce_type = Process, ce_id = 7, ce_rights = 1, ce_suspended = 0, ce_valid = True\<rparr>)],
          ct_next := 4\<rparr>, Ok 3)"
  by (simp add: sample_entries ct_duplicate_def bt_get_def right_defs rights_contains_def
      rights_is_subset_of_def ct_insert_def ct_insert_with_suspended_def MAX_ENTRIES_def NONE_def)

theorem duplicate_attenuates_witness:
  "\<exists>e e'. ct_check_rights sample_table 2 DUPLICATE = Ok e
     \<and> ct_lookup (fst (ct_duplicate 2 READ sample_table)) 3 = Ok e'
     \<and> ce_id e' = 7 \<and> ce_rights e' = READ"
proof -
  have "ct_duplicate 2 READ sample_table = (fst (ct_duplicate 2 READ sample_table), Ok 3)"
    by (simp add: sample_duplicate)
  from duplicate_attenuates [OF table_ok_sample this]
  obtain e e' where e: "ct_check_rights sample_table 2 DUPLICATE = Ok e"
    "ct_lookup (fst (ct_duplicate 2 READ sample_table)) 3 = Ok e'" "ce_id e' = ce_id e"
    "ce_rights e' = READ"
    by blast
  moreover have "ce_id e = 7"
    using e(1)
    by (auto simp: sample_entries ct_check_rights_def ct_lookup_def bt_get_def split: if_splits)
  ultimately show ?thesis by auto
qed

text \<open>
  C7: Confinement: whatever operations are run on a table, the authority it can ever confer is
  among what it could confer before and what insertions gave it. In particular duplicating,
  revoking, putting aside and giving back never create authority.
\<close>

theorem table_confinement:
  assumes "table_ok t"
  shows "usable (fold cap_step ops t) \<subseteq> held t \<union> (\<Union>op \<in> set ops. cap_given op)"
  using cap.authority_run [OF assms, of ops] usable_subset_held [of "fold cap_step ops t"] by blast

theorem table_confinement_witness:
  "usable (fold cap_step [OpSuspendRoot, OpDuplicate 2 READ, OpRestore] sample_table)
     \<subseteq> held sample_table"
  using table_confinement [OF table_ok_sample, of "[OpSuspendRoot, OpDuplicate 2 READ, OpRestore]"]
  by simp

section \<open>Revocation\<close>

text \<open>A handle that has been issued and names no valid entry.\<close>

definition dead :: "u64 \<Rightarrow> cap_table \<Rightarrow> bool" where
  "dead h t \<longleftrightarrow> h < ct_next t \<and> (\<forall>e. bt_get (ct_entries t) h = Some e \<longrightarrow> \<not> ce_valid e)"

lemma lookup_invalid_iff:
  "ct_lookup t h = Err InvalidCapability \<longleftrightarrow> (\<forall>e. bt_get (ct_entries t) h = Some e \<longrightarrow> \<not> ce_valid e)"
  by (auto simp: ct_lookup_def split: option.splits)

lemma bodies_keep_invalid:
  "\<not> ce_valid e \<Longrightarrow> \<not> ce_valid (fst (narrow_body keep e))"
  "\<not> ce_valid e \<Longrightarrow> \<not> ce_valid (fst (suspend_body keep e))"
  "\<not> ce_valid e \<Longrightarrow> \<not> ce_valid (fst (restore_body e))"
  "\<not> ce_valid e \<Longrightarrow> \<not> ce_valid (fst (drop_body e))"
  "\<not> ce_valid e \<Longrightarrow> \<not> ce_valid (fst (revoke_resource_body ty rid e))"
  by (simp_all add: narrow_body_def suspend_body_def restore_body_def drop_body_def
      revoke_resource_body_def)

lemma dead_sweep:
  "(\<And>e. \<not> ce_valid e \<Longrightarrow> \<not> ce_valid (fst (body e))) \<Longrightarrow> dead h t \<Longrightarrow> dead h (fst (ct_sweep body t))"
  by (auto simp: dead_def)

lemma next_handle_step:
  assumes "unat n + 1 < 2 ^ 64"
  shows "unat (n + 1 :: u64) = unat n + 1" and "n < n + 1" and "n + 1 \<noteq> 0"
proof -
  show 1: "unat (n + 1) = unat n + 1"
    using assms by (subst unat_add_lem [THEN iffD1]) simp_all
  show "n < n + 1" by (simp add: word_less_nat_alt 1)
  show "n + 1 \<noteq> 0" using 1 by (metis add_is_0 one_neq_zero unat_0)
qed

lemma dead_insert:
  assumes "table_ok t" and "dead h t" and "unat (ct_next t) + 1 < 2 ^ 64"
  shows "dead h (fst (ct_insert_with_suspended ty rid r s t))
    \<and> unat (ct_next (fst (ct_insert_with_suspended ty rid r s t))) \<le> unat (ct_next t) + 1"
  using assms next_handle_step [OF assms(3)]
  by (auto simp: ct_insert_with_suspended_def Let_def dead_def table_ok_def)

lemma dead_step:
  assumes "table_ok t" and "dead h t" and "unat (ct_next t) + 1 < 2 ^ 64"
  shows "dead h (cap_step op t) \<and> unat (ct_next (cap_step op t)) \<le> unat (ct_next t) + 1"
proof (cases op)
  case (OpInsert ty rid r s)
  then show ?thesis using dead_insert [OF assms] by simp
next
  case (OpDuplicate g r)
  then show ?thesis
    using dead_insert [OF assms] assms
    by (auto simp: ct_duplicate_def ct_insert_def split: option.splits)
next
  case (OpRevoke g)
  then show ?thesis using assms by (auto simp: ct_revoke_def dead_def split: option.splits)
next
  case (OpRemove g)
  then show ?thesis using assms by (auto simp: ct_remove_def dead_def)
next
  case OpDrain
  then show ?thesis using assms by (auto simp: ct_drain_valid_def dead_def)
next
  case OpNarrowRoot
  then show ?thesis using dead_sweep [OF bodies_keep_invalid(1) assms(2)]
    by (simp add: ct_narrow_all_def ct_next_sweep del: ct_sweep_simps)
next
  case OpSuspendRoot
  then show ?thesis using dead_sweep [OF bodies_keep_invalid(2) assms(2)]
    by (simp add: ct_suspend_def ct_next_sweep del: ct_sweep_simps)
next
  case OpRestore
  then show ?thesis using dead_sweep [OF bodies_keep_invalid(3) assms(2)]
    by (simp add: ct_restore_def ct_next_sweep del: ct_sweep_simps)
next
  case OpDropSuspended
  then show ?thesis using dead_sweep [OF bodies_keep_invalid(4) assms(2)]
    by (simp add: ct_drop_suspended_def ct_next_sweep del: ct_sweep_simps)
next
  case (OpRevokeByResource ty rid)
  then show ?thesis using dead_sweep [OF bodies_keep_invalid(5) assms(2)]
    by (simp add: ct_revoke_by_resource_def ct_next_sweep del: ct_sweep_simps)
qed

text \<open>
  C13: Revocation is final: once a handle that has been issued is revoked, no sequence of table
  operations makes it valid again, as long as fewer operations follow than it takes the 64-bit
  handle counter to come round.
\<close>

theorem revoked_stays_revoked:
  assumes "table_ok t" and "h < ct_next t" and "unat (ct_next t) + length ops < 2 ^ 64"
  shows "ct_lookup (fold cap_step ops (fst (ct_revoke h t))) h = Err InvalidCapability"
proof -
  have "dead h (fold cap_step ops s)"
    if "table_ok s" and "dead h s" and "unat (ct_next s) + length ops < 2 ^ 64" for s
    using that
  proof (induction ops arbitrary: s)
    case Nil
    then show ?case by simp
  next
    case (Cons op ops)
    then have "dead h (cap_step op s) \<and> unat (ct_next (cap_step op s)) \<le> unat (ct_next s) + 1"
      by (intro dead_step) simp_all
    with Cons.prems show ?case
      by (auto intro!: Cons.IH cap_step_ok)
  qed
  moreover have "dead h (fst (ct_revoke h t))" and "ct_next (fst (ct_revoke h t)) = ct_next t"
    using assms(2) by (auto simp: ct_revoke_def dead_def split: option.splits)
  ultimately have "dead h (fold cap_step ops (fst (ct_revoke h t)))"
    using assms by (simp add: table_ok_revoke)
  then show ?thesis by (simp add: lookup_invalid_iff dead_def)
qed

theorem revoked_stays_revoked_witness:
  "ct_lookup (fold cap_step [OpRestore, OpInsert File 0 READ NONE] (fst (ct_revoke 2 sample_table))) 2
     = Err InvalidCapability"
  by (rule revoked_stays_revoked [OF table_ok_sample]) (simp_all add: sample_entries)

end
