(* ===== verification/CapAudit.thy ===== *)
theory CapAudit imports Prelude begin

text \<open>
  The capability audit log (\<^verbatim>\<open>kernel/src/cap/audit.rs\<close>): a ring of 128 entries written at a
  32-bit position that only counts up, four event counters, and the queries over them. The
  ring is related to the full history of recorded events.
\<close>

section \<open>State\<close>

definition RING_SIZE :: nat where "RING_SIZE = 128"
definition RING_MASK :: nat where "RING_MASK = RING_SIZE - 1"

datatype audit_op = Grant | Revoke | Deny | Transfer | Duplicate | Delegate | Use | Drop

fun audit_op_code :: "audit_op \<Rightarrow> u8" where
  "audit_op_code Grant = 0"
| "audit_op_code Revoke = 1"
| "audit_op_code Deny = 2"
| "audit_op_code Transfer = 3"
| "audit_op_code Duplicate = 4"
| "audit_op_code Delegate = 5"
| "audit_op_code Use = 6"
| "audit_op_code Drop = 7"

definition audit_op_from_u8 :: "u8 \<Rightarrow> audit_op" where
  "audit_op_from_u8 v =
     (if v = 0 then Grant else if v = 1 then Revoke else if v = 2 then Deny
      else if v = 3 then Transfer else if v = 4 then Duplicate else if v = 5 then Delegate
      else if v = 6 then Use else if v = 7 then Drop else Deny)"

record audit_entry =
  ae_timestamp :: u64
  ae_pid :: u32
  ae_handle :: u32
  ae_op :: u8
  ae_rights :: u8
  ae_target_pid :: u16
  ae_result :: u32

definition audit_empty :: audit_entry where
  "audit_empty = \<lparr>ae_timestamp = 0, ae_pid = 0, ae_handle = 0, ae_op = 0, ae_rights = 0,
     ae_target_pid = 0, ae_result = 0\<rparr>"

record audit_log =
  al_ring :: "audit_entry list"
  al_write_pos :: u32
  al_enabled :: bool
  al_total_events :: u64
  al_total_denials :: u64
  al_total_grants :: u64
  al_total_revokes :: u64

definition audit_init :: audit_log where
  "audit_init = \<lparr>al_ring = replicate RING_SIZE audit_empty, al_write_pos = 0, al_enabled = True,
     al_total_events = 0, al_total_denials = 0, al_total_grants = 0, al_total_revokes = 0\<rparr>"

section \<open>Recording\<close>

text \<open>The clock tick read by the code is the argument \<open>now\<close>.\<close>

definition audit_record ::
  "u64 \<Rightarrow> audit_op \<Rightarrow> u32 \<Rightarrow> u32 \<Rightarrow> u8 \<Rightarrow> u16 \<Rightarrow> u32 \<Rightarrow> audit_log \<Rightarrow> audit_log" where
  "audit_record now op pid handle r target_pid result l =
     (if \<not> al_enabled l then l
      else
        let entry = \<lparr>ae_timestamp = now, ae_pid = pid, ae_handle = handle, ae_op = audit_op_code op,
              ae_rights = r, ae_target_pid = target_pid, ae_result = result\<rparr>;
            pos = al_write_pos l;
            slot = unat pos AND RING_MASK;
            l = l\<lparr>al_write_pos := pos + 1, al_ring := (al_ring l)[slot := entry],
                  al_total_events := al_total_events l + 1\<rparr>
        in (case op of
              Deny \<Rightarrow> l\<lparr>al_total_denials := al_total_denials l + 1\<rparr>
            | Grant \<Rightarrow> l\<lparr>al_total_grants := al_total_grants l + 1\<rparr>
            | Revoke \<Rightarrow> l\<lparr>al_total_revokes := al_total_revokes l + 1\<rparr>
            | _ \<Rightarrow> l))"

definition record_use :: "u64 \<Rightarrow> u32 \<Rightarrow> u32 \<Rightarrow> u8 \<Rightarrow> audit_log \<Rightarrow> audit_log" where
  "record_use now pid handle r = audit_record now Use pid handle r 0 0"

definition record_deny :: "u64 \<Rightarrow> u32 \<Rightarrow> u32 \<Rightarrow> u8 \<Rightarrow> u32 \<Rightarrow> audit_log \<Rightarrow> audit_log" where
  "record_deny now pid handle r err = audit_record now Deny pid handle r 0 err"

definition record_grant :: "u64 \<Rightarrow> u32 \<Rightarrow> u32 \<Rightarrow> u8 \<Rightarrow> audit_log \<Rightarrow> audit_log" where
  "record_grant now pid handle r = audit_record now Grant pid handle r 0 0"

definition record_revoke :: "u64 \<Rightarrow> u32 \<Rightarrow> u32 \<Rightarrow> audit_log \<Rightarrow> audit_log" where
  "record_revoke now pid handle = audit_record now Revoke pid handle 0 0 0"

definition record_transfer :: "u64 \<Rightarrow> u32 \<Rightarrow> u32 \<Rightarrow> u32 \<Rightarrow> u8 \<Rightarrow> audit_log \<Rightarrow> audit_log" where
  "record_transfer now from_pid to_pid handle r =
     audit_record now Transfer from_pid handle r (ucast to_pid) 0"

definition audit_enable :: "audit_log \<Rightarrow> audit_log" where
  "audit_enable l = l\<lparr>al_enabled := True\<rparr>"

definition audit_disable :: "audit_log \<Rightarrow> audit_log" where
  "audit_disable l = l\<lparr>al_enabled := False\<rparr>"

definition audit_reset :: "audit_log \<Rightarrow> audit_log" where
  "audit_reset l = l\<lparr>al_write_pos := 0, al_total_events := 0, al_total_denials := 0,
     al_total_grants := 0, al_total_revokes := 0, al_ring := replicate RING_SIZE audit_empty\<rparr>"

section \<open>Queries\<close>

record audit_stats =
  as_enabled :: bool
  as_total_events :: u64
  as_total_denials :: u64
  as_total_grants :: u64
  as_total_revokes :: u64
  as_ring_entries :: nat

definition audit_stats_of :: "audit_log \<Rightarrow> audit_stats" where
  "audit_stats_of l =
     \<lparr>as_enabled = al_enabled l, as_total_events = al_total_events l,
      as_total_denials = al_total_denials l, as_total_grants = al_total_grants l,
      as_total_revokes = al_total_revokes l,
      as_ring_entries = min (unat (al_write_pos l)) RING_SIZE\<rparr>"

text \<open>The entries \<^verbatim>\<open>recent\<close> copies into a buffer of length \<open>len\<close>.\<close>

definition audit_recent :: "nat \<Rightarrow> audit_log \<Rightarrow> audit_entry list" where
  "audit_recent len l =
     (let write_pos = unat (al_write_pos l);
          available = min write_pos RING_SIZE;
          to_copy = min len available
      in map (\<lambda>i. al_ring l ! ((write_pos - 1 - i) AND RING_MASK)) [0 ..< to_copy])"

fun denials_loop :: "audit_entry list \<Rightarrow> u32 \<Rightarrow> nat \<Rightarrow> nat list \<Rightarrow> nat \<Rightarrow> nat" where
  "denials_loop ring pid start [] denials = denials"
| "denials_loop ring pid start (i # is) denials =
     (let e = ring ! ((start + i) AND RING_MASK)
      in denials_loop ring pid start is
           (if ae_pid e = pid \<and> ae_op e = audit_op_code Deny then sat_add32 denials 1 else denials))"

definition denials_for_pid :: "u32 \<Rightarrow> audit_log \<Rightarrow> nat" where
  "denials_for_pid pid l =
     (let write_pos = unat (al_write_pos l);
          count = min write_pos RING_SIZE;
          start = (if write_pos \<le> RING_SIZE then 0 else write_pos AND RING_MASK)
      in denials_loop (al_ring l) pid start [0 ..< count] 0)"

section \<open>The ring and the history\<close>

lemma and_ring_mask [simp]: "(n::nat) AND RING_MASK = n mod RING_SIZE"
proof -
  have "n AND mask 7 = n mod 2 ^ 7"
    by (simp only: take_bit_eq_mask [symmetric] take_bit_eq_mod)
  then show ?thesis
    by (simp add: RING_MASK_def RING_SIZE_def mask_eq_exp_minus_1)
qed

lemma audit_op_roundtrip: "audit_op_from_u8 (audit_op_code op) = op"
  by (cases op) (simp_all add: audit_op_from_u8_def)

text \<open>The ring holds the last 128 events of the history, each in the slot its number selects.\<close>

definition ring_holds :: "audit_log \<Rightarrow> audit_entry list \<Rightarrow> bool" where
  "ring_holds l log \<longleftrightarrow>
     length (al_ring l) = RING_SIZE \<and> length log < 2 ^ 32 \<and> unat (al_write_pos l) = length log
     \<and> (\<forall>j < length log. length log \<le> j + RING_SIZE \<longrightarrow> al_ring l ! (j mod RING_SIZE) = log ! j)"

lemma ring_holds_init: "ring_holds audit_init []"
  by (simp add: ring_holds_def audit_init_def)

lemma mod_ring_distinct:
  assumes "j < n" and "n \<le> j + RING_SIZE" and "j mod RING_SIZE = n mod RING_SIZE"
  shows "n = j + RING_SIZE"
proof -
  from assms(3) obtain k where k: "n = j + RING_SIZE * k"
    using assms(1) by (metis add.commute mod_eq_nat1E mult.commute nat_less_le order.order_iff_strict)
  moreover have "0 < RING_SIZE" by (simp add: RING_SIZE_def)
  ultimately show ?thesis
    using assms(1,2) by (cases k; cases "k - 1") auto
qed

lemma ring_holds_record:
  assumes "ring_holds l log" and "al_enabled l" and "length log + 1 < 2 ^ 32"
  shows "ring_holds (audit_record now op pid handle r target result l)
    (log @ [\<lparr>ae_timestamp = now, ae_pid = pid, ae_handle = handle, ae_op = audit_op_code op,
              ae_rights = r, ae_target_pid = target, ae_result = result\<rparr>])"
proof -
  define entry where "entry = \<lparr>ae_timestamp = now, ae_pid = pid, ae_handle = handle,
    ae_op = audit_op_code op, ae_rights = r, ae_target_pid = target, ae_result = result\<rparr>"
  define l' where "l' = audit_record now op pid handle r target result l"
  have R: "0 < RING_SIZE" by (simp add: RING_SIZE_def)
  have l': "al_write_pos l' = al_write_pos l + 1"
    "al_ring l' = (al_ring l)[length log mod RING_SIZE := entry]"
    using assms
    by (auto simp: l'_def audit_record_def Let_def ring_holds_def entry_def split: audit_op.splits)
  have "unat (al_write_pos l') = length log + 1"
    using assms unat_add_lem [of "al_write_pos l" 1] by (simp add: l' ring_holds_def)
  moreover have "al_ring l' ! (j mod RING_SIZE) = (log @ [entry]) ! j"
    if "j < length log + 1" and "length log + 1 \<le> j + RING_SIZE" for j
  proof (cases "j = length log")
    case True
    then show ?thesis using assms R by (simp add: l' ring_holds_def)
  next
    case False
    with that have "j < length log" by simp
    moreover from this have "j mod RING_SIZE \<noteq> length log mod RING_SIZE"
      using mod_ring_distinct [of j "length log"] that by auto
    ultimately show ?thesis
      using assms that by (simp add: l' ring_holds_def nth_append)
  qed
  ultimately show ?thesis
    using assms by (simp add: ring_holds_def l'_def [symmetric] entry_def [symmetric] l'(2))
qed

lemma recent_holds:
  assumes "ring_holds l log"
  shows "audit_recent len l = take (min len RING_SIZE) (rev log)"
proof (rule nth_equalityI)
  show len: "length (audit_recent len l) = length (take (min len RING_SIZE) (rev log))"
    using assms by (simp add: audit_recent_def Let_def ring_holds_def)
  fix i
  assume "i < length (audit_recent len l)"
  then have i: "i < min len RING_SIZE" "i < length log"
    by (simp_all add: len)
  then have "al_ring l ! ((length log - 1 - i) mod RING_SIZE) = log ! (length log - 1 - i)"
    using assms by (auto simp: ring_holds_def)
  then show "audit_recent len l ! i = take (min len RING_SIZE) (rev log) ! i"
    using assms i by (simp add: audit_recent_def Let_def ring_holds_def rev_nth)
qed

lemma denials_loop_eq:
  "acc + length (filter (\<lambda>i. ae_pid (ring ! ((start + i) AND RING_MASK)) = pid
       \<and> ae_op (ring ! ((start + i) AND RING_MASK)) = audit_op_code Deny) is) \<le> u32_max
   \<Longrightarrow> denials_loop ring pid start is acc = acc + length (filter
        (\<lambda>i. ae_pid (ring ! ((start + i) AND RING_MASK)) = pid
           \<and> ae_op (ring ! ((start + i) AND RING_MASK)) = audit_op_code Deny) is)"
  by (induction "is" arbitrary: acc) (auto simp: Let_def sat_add32_def)

lemma ring_window:
  assumes "ring_holds l log" and "n = length log"
    and "start = (if n \<le> RING_SIZE then 0 else n mod RING_SIZE)"
  shows "map (\<lambda>i. al_ring l ! ((start + i) mod RING_SIZE)) [0 ..< min n RING_SIZE]
       = drop (n - min n RING_SIZE) log"
proof (rule nth_equalityI)
  show "length (map (\<lambda>i. al_ring l ! ((start + i) mod RING_SIZE)) [0 ..< min n RING_SIZE])
      = length (drop (n - min n RING_SIZE) log)"
    using assms by simp
  fix i
  assume "i < length (map (\<lambda>i. al_ring l ! ((start + i) mod RING_SIZE)) [0 ..< min n RING_SIZE])"
  then have i: "i < min n RING_SIZE" by simp
  define j where "j = n - min n RING_SIZE + i"
  have "(start + i) mod RING_SIZE = j mod RING_SIZE"
  proof (cases "n \<le> RING_SIZE")
    case True
    then show ?thesis using assms by (simp add: j_def)
  next
    case False
    then have "n + i = j + RING_SIZE" by (simp add: j_def)
    then have "(n + i) mod RING_SIZE = j mod RING_SIZE" by simp
    with False assms(3) show ?thesis by (simp add: mod_add_left_eq)
  qed
  moreover have "j < length log" and "length log \<le> j + RING_SIZE"
    using i assms by (auto simp: j_def)
  ultimately show "map (\<lambda>i. al_ring l ! ((start + i) mod RING_SIZE)) [0 ..< min n RING_SIZE] ! i
      = drop (n - min n RING_SIZE) log ! i"
    using assms i by (simp add: ring_holds_def j_def)
qed

definition is_denial :: "u32 \<Rightarrow> audit_entry \<Rightarrow> bool" where
  "is_denial pid e \<longleftrightarrow> ae_pid e = pid \<and> ae_op e = audit_op_code Deny"

lemma denials_hold:
  assumes "ring_holds l log"
  shows "denials_for_pid pid l = length (filter (is_denial pid) (drop (length log - RING_SIZE) log))"
proof -
  define n where "n = length log"
  define start where "start = (if n \<le> RING_SIZE then 0 else n mod RING_SIZE)"
  define f where "f = (\<lambda>i. al_ring l ! ((start + i) mod RING_SIZE))"
  have pos: "unat (al_write_pos l) = n" using assms by (simp add: ring_holds_def n_def)
  have "length (filter (\<lambda>i. is_denial pid (f i)) [0 ..< min n RING_SIZE]) \<le> RING_SIZE"
    by (rule le_trans [OF length_filter_le]) simp
  then have "length (filter (\<lambda>i. is_denial pid (f i)) [0 ..< min n RING_SIZE]) \<le> u32_max"
    by (simp add: RING_SIZE_def u32_max_def)
  then have "denials_loop (al_ring l) pid start [0 ..< min n RING_SIZE] 0
      = length (filter (\<lambda>i. is_denial pid (f i)) [0 ..< min n RING_SIZE])"
    using denials_loop_eq [of 0 "al_ring l" start pid "[0 ..< min n RING_SIZE]"]
    by (simp add: is_denial_def f_def)
  moreover have "denials_for_pid pid l = denials_loop (al_ring l) pid start [0 ..< min n RING_SIZE] 0"
    by (simp add: denials_for_pid_def Let_def pos start_def)
  ultimately have "denials_for_pid pid l = length (filter (\<lambda>i. is_denial pid (f i)) [0 ..< min n RING_SIZE])"
    by simp
  also have "\<dots> = length (filter (is_denial pid) (map f [0 ..< min n RING_SIZE]))"
    by (simp add: filter_map comp_def)
  also have "map f [0 ..< min n RING_SIZE] = drop (n - min n RING_SIZE) log"
    unfolding f_def by (rule ring_window [OF assms n_def start_def])
  finally show ?thesis by (simp add: n_def min_def)
qed

type_synonym audit_call = "u64 \<times> audit_op \<times> u32 \<times> u32 \<times> u8 \<times> u16 \<times> u32"

fun call_entry :: "audit_call \<Rightarrow> audit_entry" where
  "call_entry (now, op, pid, handle, r, target, result) =
     \<lparr>ae_timestamp = now, ae_pid = pid, ae_handle = handle, ae_op = audit_op_code op,
      ae_rights = r, ae_target_pid = target, ae_result = result\<rparr>"

fun do_record :: "audit_call \<Rightarrow> audit_log \<Rightarrow> audit_log" where
  "do_record (now, op, pid, handle, r, target, result) l =
     audit_record now op pid handle r target result l"

lemma do_record_enabled: "al_enabled (do_record c l) = al_enabled l"
  by (cases c) (simp add: audit_record_def Let_def split: audit_op.splits)

lemma ring_holds_run:
  "ring_holds l log \<Longrightarrow> al_enabled l \<Longrightarrow> length log + length calls < 2 ^ 32 \<Longrightarrow>
     ring_holds (fold do_record calls l) (log @ map call_entry calls)"
proof (induction calls arbitrary: l log)
  case Nil
  then show ?case by simp
next
  case (Cons c calls)
  have "ring_holds (do_record c l) (log @ [call_entry c])"
    using Cons.prems ring_holds_record by (cases c) simp
  then show ?case
    using Cons.IH [of "do_record c l" "log @ [call_entry c]"] Cons.prems
    by (simp add: do_record_enabled)
qed

text \<open>
  C35: The audit ring reports the history faithfully: after fewer than 2^32 recorded events, the
  recent-entries query returns the newest events first, up to 128 of them, and the denial count
  of a process is the number of its denials among the last 128 events.
\<close>

theorem audit_log_reports_history:
  assumes "length calls < 2 ^ 32"
  shows "audit_recent len (fold do_record calls audit_init)
           = take (min len RING_SIZE) (rev (map call_entry calls))
       \<and> denials_for_pid pid (fold do_record calls audit_init)
           = length (filter (is_denial pid) (drop (length calls - RING_SIZE) (map call_entry calls)))"
proof -
  have "ring_holds (fold do_record calls audit_init) (map call_entry calls)"
    using ring_holds_run [OF ring_holds_init] assms by (simp add: audit_init_def)
  from recent_holds [OF this] denials_hold [OF this] show ?thesis by simp
qed

theorem audit_log_reports_history_witness:
  "denials_for_pid 5 (fold do_record [(1, Deny, 5, 1, 2, 0, 400), (2, Grant, 5, 2, 1, 0, 0)] audit_init) = 1"
  using audit_log_reports_history [of "[(1, Deny, 5, 1, 2, 0, 400), (2, Grant, 5, 2, 1, 0, 0)]" 0 5]
  by (simp add: is_denial_def RING_SIZE_def)

end
