(* ===== verification/ProcAuthority.thy ===== *)
theory ProcAuthority imports CapTable CapAudit begin

text \<open>
  A process's identity and authority (\<^verbatim>\<open>kernel/src/proc/pcb.rs\<close>, \<^verbatim>\<open>kernel/src/proc/setid.rs\<close>):
  credentials, the setuid family, root's authority following the user ids, and the capability
  operations on the process table (granting, checking, inheriting on spawn, detaching and
  attaching for transfer), with the audit records they write. Each operation runs under the
  process table's lock.
\<close>

section \<open>State\<close>

record credentials =
  cr_uid :: u32
  cr_gid :: u32
  cr_groups :: "u32 list"
  cr_ruid :: u32
  cr_suid :: u32
  cr_fsuid :: u32
  cr_rgid :: u32
  cr_sgid :: u32
  cr_fsgid :: u32

definition cred_new :: "u32 \<Rightarrow> u32 \<Rightarrow> credentials" where
  "cred_new uid gid = \<lparr>cr_uid = uid, cr_gid = gid, cr_groups = [], cr_ruid = uid, cr_suid = uid,
     cr_fsuid = uid, cr_rgid = gid, cr_sgid = gid, cr_fsgid = gid\<rparr>"

definition cred_root :: credentials where "cred_root = cred_new 0 0"

definition is_root :: "credentials \<Rightarrow> bool" where "is_root c \<longleftrightarrow> cr_uid c = 0"

definition any_root_uid :: "credentials \<Rightarrow> bool" where
  "any_root_uid c \<longleftrightarrow> cr_ruid c = 0 \<or> cr_uid c = 0 \<or> cr_suid c = 0"

definition set_all_uids :: "u32 \<Rightarrow> credentials \<Rightarrow> credentials" where
  "set_all_uids u c = c\<lparr>cr_ruid := u, cr_uid := u, cr_suid := u, cr_fsuid := u\<rparr>"

definition set_all_gids :: "u32 \<Rightarrow> credentials \<Rightarrow> credentials" where
  "set_all_gids g c = c\<lparr>cr_rgid := g, cr_gid := g, cr_sgid := g, cr_fsgid := g\<rparr>"

definition cred_exec :: "credentials \<Rightarrow> credentials" where
  "cred_exec c = c\<lparr>cr_suid := cr_uid c, cr_fsuid := cr_uid c, cr_sgid := cr_gid c,
     cr_fsgid := cr_gid c\<rparr>"

text \<open>The part of a process record these operations read and write.\<close>

record pcb =
  p_cred :: credentials
  p_caps :: cap_table

record kstate =
  k_procs :: "(u64, pcb) btree"
  k_audit :: audit_log

definition put_proc :: "u64 \<Rightarrow> pcb \<Rightarrow> kstate \<Rightarrow> kstate" where
  "put_proc pid p k = k\<lparr>k_procs := bt_adjust pid (\<lambda>_. p) (k_procs k)\<rparr>"

section \<open>Capabilities of a process\<close>

definition grant_capability ::
  "u64 \<Rightarrow> u64 \<Rightarrow> resource_type \<Rightarrow> u64 \<Rightarrow> rights \<Rightarrow> kstate \<Rightarrow> kstate \<times> u64 kernel_result" where
  "grant_capability now pid ty rid r k =
     (case bt_get (k_procs k) pid of
        None \<Rightarrow> (k, Err NoSuchProcess)
      | Some p \<Rightarrow>
          (case ct_insert ty rid r (p_caps p) of
             (t, result) \<Rightarrow>
               let k = put_proc pid (p\<lparr>p_caps := t\<rparr>) k
               in (case result of
                     Inr h \<Rightarrow> (k\<lparr>k_audit := record_grant now (ucast pid) (ucast h) (ucast r) (k_audit k)\<rparr>,
                              result)
                   | Inl _ \<Rightarrow> (k, result))))"

definition check_capability ::
  "u64 \<Rightarrow> u64 \<Rightarrow> u64 \<Rightarrow> rights \<Rightarrow> kstate \<Rightarrow> kstate \<times> unit kernel_result" where
  "check_capability now pid h required k =
     (case bt_get (k_procs k) pid of
        None \<Rightarrow> (k, Err NoSuchProcess)
      | Some p \<Rightarrow>
          (case ct_check_rights (p_caps p) h required of
             Inr _ \<Rightarrow> (k, Ok ())
           | Inl e \<Rightarrow>
               (k\<lparr>k_audit := record_deny now (ucast pid) (ucast h) (ucast required)
                     (word_of_int (- error_code e)) (k_audit k)\<rparr>, Err e)))"

fun validate_caps :: "cap_table \<Rightarrow> u64 list \<Rightarrow> unit kernel_result" where
  "validate_caps t [] = Ok ()"
| "validate_caps t (h # hs) = (case ct_lookup t h of Inl e \<Rightarrow> Err e | Inr _ \<Rightarrow> validate_caps t hs)"

fun remove_loop ::
  "u64 \<Rightarrow> u64 \<Rightarrow> u64 list \<Rightarrow> cap_table \<Rightarrow> audit_log \<Rightarrow> cap_entry list \<Rightarrow> cap_table \<times> audit_log \<times> cap_entry list"
where
  "remove_loop now pid [] t a acc = (t, a, acc)"
| "remove_loop now pid (h # hs) t a acc =
     (case ct_remove h t of
        (t, Some e) \<Rightarrow>
          remove_loop now pid hs t
            (audit_record now Drop (ucast pid) (ucast h) (ucast (ce_rights e)) 0 0 a) (acc @ [e])
      | (t, None) \<Rightarrow> remove_loop now pid hs t a acc)"

definition remove_caps ::
  "u64 \<Rightarrow> u64 \<Rightarrow> u64 list \<Rightarrow> kstate \<Rightarrow> kstate \<times> cap_entry list kernel_result" where
  "remove_caps now pid handles k =
     (case bt_get (k_procs k) pid of
        None \<Rightarrow> (k, Err NoSuchProcess)
      | Some p \<Rightarrow>
          (case validate_caps (p_caps p) handles of
             Inl e \<Rightarrow> (k, Err e)
           | Inr _ \<Rightarrow>
               (case remove_loop now pid handles (p_caps p) (k_audit k) [] of
                  (t, a, entries) \<Rightarrow>
                    ((put_proc pid (p\<lparr>p_caps := t\<rparr>) k)\<lparr>k_audit := a\<rparr>, Ok entries))))"

fun insert_loop ::
  "(resource_type \<times> u64 \<times> rights) list \<Rightarrow> cap_table \<Rightarrow> u64 list \<Rightarrow> cap_table \<times> u64 list" where
  "insert_loop [] t acc = (t, acc)"
| "insert_loop ((ty, rid, r) # es) t acc =
     (case ct_insert ty rid r t of
        (t, Inr h) \<Rightarrow> insert_loop es t (acc @ [h])
      | (t, Inl _) \<Rightarrow> insert_loop es t acc)"

definition insert_caps ::
  "u64 \<Rightarrow> (resource_type \<times> u64 \<times> rights) list \<Rightarrow> kstate \<Rightarrow> kstate \<times> u64 list kernel_result" where
  "insert_caps pid entries k =
     (case bt_get (k_procs k) pid of
        None \<Rightarrow> (k, Err NoSuchProcess)
      | Some p \<Rightarrow>
          (case insert_loop entries (p_caps p) [] of
             (t, hs) \<Rightarrow> (put_proc pid (p\<lparr>p_caps := t\<rparr>) k, Ok hs)))"

fun inherit_loop :: "cap_entry list \<Rightarrow> cap_table \<Rightarrow> nat \<Rightarrow> cap_table \<times> nat" where
  "inherit_loop [] t copied = (t, copied)"
| "inherit_loop (e # es) t copied =
     (case ct_insert_with_suspended (ce_type e) (ce_id e) (ce_rights e) (ce_suspended e) t of
        (t, Inr _) \<Rightarrow> inherit_loop es t (sat_add64 copied 1)
      | (t, Inl _) \<Rightarrow> inherit_loop es t copied)"

definition inherit_caps_from :: "u64 \<Rightarrow> u64 \<Rightarrow> kstate \<Rightarrow> kstate \<times> nat" where
  "inherit_caps_from parent child k =
     (if parent = 0 \<or> parent = child then (k, 0)
      else case bt_get (k_procs k) parent of
        None \<Rightarrow> (k, 0)
      | Some pp \<Rightarrow>
          let entries = ct_valid_entries (p_caps pp)
          in if entries = [] then (k, 0)
             else case bt_get (k_procs k) child of
               None \<Rightarrow> (k, 0)
             | Some p \<Rightarrow>
                 (case inherit_loop entries (p_caps p) 0 of
                    (t, copied) \<Rightarrow> (put_proc child (p\<lparr>p_caps := t\<rparr>) k, copied)))"

fun check_requests ::
  "cap_entry list \<Rightarrow> (resource_type \<times> u64 \<times> rights) list \<Rightarrow> unit kernel_result" where
  "check_requests entries [] = Ok ()"
| "check_requests entries ((ty, rid, r) # rs) =
     (if rights_is_empty r then Err InvalidArgument
      else if \<not> (\<exists>e \<in> set entries. ce_type e = ty \<and> ce_id e = rid \<and> rights_contains (ce_rights e) r)
      then Err PermissionDenied
      else check_requests entries rs)"

fun subset_loop ::
  "(resource_type \<times> u64 \<times> rights) list \<Rightarrow> cap_table \<Rightarrow> nat \<Rightarrow> cap_table \<times> nat kernel_result" where
  "subset_loop [] t granted = (t, Ok granted)"
| "subset_loop ((ty, rid, r) # rs) t granted =
     (case ct_insert ty rid r t of
        (t, Inl e) \<Rightarrow> (t, Err e)
      | (t, Inr _) \<Rightarrow> subset_loop rs t (sat_add64 granted 1))"

definition inherit_caps_subset ::
  "u64 \<Rightarrow> u64 \<Rightarrow> (resource_type \<times> u64 \<times> rights) list \<Rightarrow> kstate \<Rightarrow> kstate \<times> nat kernel_result" where
  "inherit_caps_subset parent child requested k =
     (if requested = [] then (k, Ok 0)
      else if parent = 0 then (k, Err PermissionDenied)
      else case bt_get (k_procs k) parent of
        None \<Rightarrow> (k, Err NoSuchProcess)
      | Some pp \<Rightarrow>
          (case check_requests (ct_valid_entries (p_caps pp)) requested of
             Inl e \<Rightarrow> (k, Err e)
           | Inr _ \<Rightarrow>
               (case bt_get (k_procs k) child of
                  None \<Rightarrow> (k, Err NoSuchProcess)
                | Some p \<Rightarrow>
                    (case subset_loop requested (p_caps p) 0 of
                       (t, res) \<Rightarrow> (put_proc child (p\<lparr>p_caps := t\<rparr>) k, res)))))"

definition has_capability_for :: "kstate \<Rightarrow> u64 \<Rightarrow> resource_type \<Rightarrow> u64 \<Rightarrow> rights \<Rightarrow> bool" where
  "has_capability_for k pid ty rid required =
     (case bt_get (k_procs k) pid of
        Some p \<Rightarrow> ct_has_resource (p_caps p) ty rid required | None \<Rightarrow> False)"

definition has_capability_type :: "kstate \<Rightarrow> u64 \<Rightarrow> resource_type \<Rightarrow> rights \<Rightarrow> bool" where
  "has_capability_type k pid ty required =
     (case bt_get (k_procs k) pid of
        Some p \<Rightarrow> ct_has_capability_type (p_caps p) ty required | None \<Rightarrow> False)"

definition cap_count :: "kstate \<Rightarrow> u64 \<Rightarrow> nat option" where
  "cap_count k pid = map_option (\<lambda>p. ct_count (p_caps p)) (bt_get (k_procs k) pid)"

definition cap_entries :: "kstate \<Rightarrow> u64 \<Rightarrow> cap_entry list option" where
  "cap_entries k pid = map_option (\<lambda>p. ct_valid_entries (p_caps p)) (bt_get (k_procs k) pid)"

definition suspended_rights :: "kstate \<Rightarrow> u64 \<Rightarrow> nat" where
  "suspended_rights k pid =
     (case bt_get (k_procs k) pid of None \<Rightarrow> 0 | Some p \<Rightarrow> ct_suspended_count (p_caps p))"

section \<open>Authority follows identity\<close>

definition swap_credentials :: "credentials \<Rightarrow> pcb \<Rightarrow> pcb \<times> nat" where
  "swap_credentials new p =
     (let old = p_cred p; p = p\<lparr>p_cred := new\<rparr>
      in if any_root_uid old \<and> \<not> any_root_uid new
         then (case ct_narrow_all without_root (p_caps p) of
                 (t, narrowed) \<Rightarrow>
                   (case ct_drop_suspended t of
                      (t, dropped) \<Rightarrow> (p\<lparr>p_caps := t\<rparr>, sat_add64 narrowed dropped)))
         else if cr_uid old = 0 \<and> cr_uid new \<noteq> 0
         then (case ct_suspend without_root (p_caps p) of (t, n) \<Rightarrow> (p\<lparr>p_caps := t\<rparr>, n))
         else if cr_uid old \<noteq> 0 \<and> cr_uid new = 0
         then (case ct_restore (p_caps p) of (t, n) \<Rightarrow> (p\<lparr>p_caps := t\<rparr>, n))
         else (p, 0))"

definition set_credentials :: "u64 \<Rightarrow> credentials \<Rightarrow> kstate \<Rightarrow> kstate \<times> unit kernel_result" where
  "set_credentials pid c k =
     (case bt_get (k_procs k) pid of
        None \<Rightarrow> (k, Err NoSuchProcess)
      | Some p \<Rightarrow> (put_proc pid (p\<lparr>p_cred := c\<rparr>) k, Ok ()))"

definition change_credentials :: "u64 \<Rightarrow> credentials \<Rightarrow> kstate \<Rightarrow> kstate \<times> nat kernel_result" where
  "change_credentials pid c k =
     (case bt_get (k_procs k) pid of
        None \<Rightarrow> (k, Err NoSuchProcess)
      | Some p \<Rightarrow> (case swap_credentials c p of (p', n) \<Rightarrow> (put_proc pid p' k, Ok n)))"

text \<open>\<open>update_credentials\<close> on the process itself, and under the process table.\<close>

definition update_proc ::
  "(credentials \<Rightarrow> bool \<Rightarrow> credentials kernel_result) \<Rightarrow> pcb \<Rightarrow> pcb \<times> nat kernel_result" where
  "update_proc change p =
     (let may_set = ct_has_capability_type (p_caps p) Process SET_CREDENTIALS
      in case change (p_cred p) may_set of
           Inl e \<Rightarrow> (p, Err e)
         | Inr c \<Rightarrow> (case swap_credentials c p of (p', n) \<Rightarrow> (p', Ok n)))"

definition update_credentials ::
  "u64 \<Rightarrow> (credentials \<Rightarrow> bool \<Rightarrow> credentials kernel_result) \<Rightarrow> kstate \<Rightarrow> kstate \<times> nat kernel_result" where
  "update_credentials pid change k =
     (case bt_get (k_procs k) pid of
        None \<Rightarrow> (k, Err NoSuchProcess)
      | Some p \<Rightarrow> (case update_proc change p of (p', res) \<Rightarrow> (put_proc pid p' k, res)))"

definition install_spawn_identity ::
  "u64 \<Rightarrow> u64 \<Rightarrow> credentials \<Rightarrow> bool \<Rightarrow> kstate \<Rightarrow> kstate \<times> unit kernel_result" where
  "install_spawn_identity parent child c inherited k =
     (if parent \<noteq> 0 \<and>
        \<not> (case bt_get (k_procs k) parent of
             Some p \<Rightarrow> ct_has_capability_type (p_caps p) Process SET_CREDENTIALS | None \<Rightarrow> False)
      then (k, Err PermissionDenied)
      else case bt_get (k_procs k) child of
        None \<Rightarrow> (k, Err NoSuchProcess)
      | Some p \<Rightarrow>
          (if inherited then (put_proc child (fst (swap_credentials c p)) k, Ok ())
           else (put_proc child (p\<lparr>p_cred := c\<rparr>) k, Ok ())))"

definition exec_proc :: "pcb \<Rightarrow> pcb" where
  "exec_proc p =
     (let p = p\<lparr>p_cred := cred_exec (p_cred p)\<rparr>
      in if \<not> any_root_uid (p_cred p) then p\<lparr>p_caps := fst (ct_drop_suspended (p_caps p))\<rparr> else p)"

definition exec_credentials :: "u64 \<Rightarrow> kstate \<Rightarrow> kstate" where
  "exec_credentials pid k =
     (case bt_get (k_procs k) pid of None \<Rightarrow> k | Some p \<Rightarrow> put_proc pid (exec_proc p) k)"

definition inherit_credentials :: "u64 \<Rightarrow> u64 \<Rightarrow> kstate \<Rightarrow> kstate \<times> unit kernel_result" where
  "inherit_credentials parent child k =
     (case bt_get (k_procs k) parent of
        None \<Rightarrow> (k, Err NoSuchProcess)
      | Some pp \<Rightarrow>
          let c = cred_exec (p_cred pp)
          in case bt_get (k_procs k) child of
               None \<Rightarrow> (k, Err NoSuchProcess)
             | Some p \<Rightarrow>
                 let p = (if \<not> any_root_uid c
                          then p\<lparr>p_caps := fst (ct_drop_suspended (p_caps p))\<rparr> else p)
                 in (put_proc child (p\<lparr>p_cred := c\<rparr>) k, Ok ()))"

section \<open>The setuid family\<close>

datatype which = User | Group

datatype authority = Linux | Native

definition KEEP :: u32 where "KEEP = NOT 0"

type_synonym four_ids = "u32 \<times> u32 \<times> u32 \<times> u32"

fun ids :: "credentials \<Rightarrow> which \<Rightarrow> four_ids" where
  "ids c User = (cr_ruid c, cr_uid c, cr_suid c, cr_fsuid c)"
| "ids c Group = (cr_rgid c, cr_gid c, cr_sgid c, cr_fsgid c)"

fun set_ids :: "credentials \<Rightarrow> which \<Rightarrow> four_ids \<Rightarrow> credentials" where
  "set_ids c User (r, e, s, f) = c\<lparr>cr_ruid := r, cr_uid := e, cr_suid := s, cr_fsuid := f\<rparr>"
| "set_ids c Group (r, e, s, f) = c\<lparr>cr_rgid := r, cr_gid := e, cr_sgid := s, cr_fsgid := f\<rparr>"

text \<open>The closure \<^verbatim>\<open>apply\<close> hands to \<open>update_credentials\<close>, and \<^verbatim>\<open>apply\<close> itself on the table.\<close>

definition apply_change ::
  "which \<Rightarrow> authority \<Rightarrow> (four_ids \<Rightarrow> bool \<Rightarrow> four_ids kernel_result)
     \<Rightarrow> credentials \<Rightarrow> bool \<Rightarrow> credentials kernel_result" where
  "apply_change which authority change c may_set =
     (let privileged = (authority = Linux \<and> cr_uid c = 0) \<or> may_set
      in case change (ids c which) privileged of
           Inl e \<Rightarrow> Err e
         | Inr new \<Rightarrow> Ok (set_ids c which new))"

definition apply_ids ::
  "u64 \<Rightarrow> which \<Rightarrow> authority \<Rightarrow> (four_ids \<Rightarrow> bool \<Rightarrow> four_ids kernel_result) \<Rightarrow> kstate
     \<Rightarrow> kstate \<times> unit kernel_result" where
  "apply_ids pid which authority change k =
     (case update_credentials pid (apply_change which authority change) k of
        (k, Inr _) \<Rightarrow> (k, Ok ())
      | (k, Inl e) \<Rightarrow> if e = NoSuchProcess then (k, Ok ()) else (k, Err e))"

definition set_id_change :: "u32 \<Rightarrow> four_ids \<Rightarrow> bool \<Rightarrow> four_ids kernel_result" where
  "set_id_change i old privileged =
     (case old of (r, _, s, _) \<Rightarrow>
        if privileged then Ok (i, i, i, i)
        else if i = r \<or> i = s then Ok (r, i, s, i)
        else Err NotPermitted)"

definition set_id :: "u64 \<Rightarrow> which \<Rightarrow> authority \<Rightarrow> u32 \<Rightarrow> kstate \<Rightarrow> kstate \<times> unit kernel_result" where
  "set_id pid which authority i k =
     (if i = KEEP then (k, Err InvalidArgument) else apply_ids pid which authority (set_id_change i) k)"

definition set_re_id_change :: "u32 \<Rightarrow> u32 \<Rightarrow> four_ids \<Rightarrow> bool \<Rightarrow> four_ids kernel_result" where
  "set_re_id_change real effective old privileged =
     (case old of (r, e, s, _) \<Rightarrow>
        if \<not> privileged
           \<and> ((real \<noteq> KEEP \<and> real \<noteq> r \<and> real \<noteq> e)
              \<or> (effective \<noteq> KEEP \<and> effective \<noteq> r \<and> effective \<noteq> e \<and> effective \<noteq> s))
        then Err NotPermitted
        else
          let new_r = (if real = KEEP then r else real);
              new_e = (if effective = KEEP then e else effective);
              new_s = (if real \<noteq> KEEP \<or> (effective \<noteq> KEEP \<and> effective \<noteq> r) then new_e else s)
          in Ok (new_r, new_e, new_s, new_e))"

definition set_re_id ::
  "u64 \<Rightarrow> which \<Rightarrow> authority \<Rightarrow> u32 \<Rightarrow> u32 \<Rightarrow> kstate \<Rightarrow> kstate \<times> unit kernel_result" where
  "set_re_id pid which authority real effective k =
     apply_ids pid which authority (set_re_id_change real effective) k"

definition set_res_id_change :: "u32 \<Rightarrow> u32 \<Rightarrow> u32 \<Rightarrow> four_ids \<Rightarrow> bool \<Rightarrow> four_ids kernel_result" where
  "set_res_id_change real effective saved old privileged =
     (case old of (r, e, s, f) \<Rightarrow>
        if (real = KEEP \<or> real = r)
           \<and> (effective = KEEP \<or> (effective = e \<and> effective = f))
           \<and> (saved = KEEP \<or> saved = s)
        then Ok (r, e, s, f)
        else
          let held = (\<lambda>i. i = KEEP \<or> i = r \<or> i = e \<or> i = s);
              allowed = privileged \<or> (held real \<and> held effective \<and> held saved)
          in if \<not> allowed then Err NotPermitted
             else
               let pick = (\<lambda>given old. if given = KEEP then old else given);
                   new_e = pick effective e
               in Ok (pick real r, new_e, pick saved s, new_e))"

definition set_res_id ::
  "u64 \<Rightarrow> which \<Rightarrow> authority \<Rightarrow> u32 \<Rightarrow> u32 \<Rightarrow> u32 \<Rightarrow> kstate \<Rightarrow> kstate \<times> unit kernel_result" where
  "set_res_id pid which authority real effective saved k =
     apply_ids pid which authority (set_res_id_change real effective saved) k"

definition set_fs_id_change ::
  "which \<Rightarrow> authority \<Rightarrow> u32 \<Rightarrow> credentials \<Rightarrow> bool \<Rightarrow> credentials kernel_result" where
  "set_fs_id_change which authority i c may_set =
     (case ids c which of (r, e, s, f) \<Rightarrow>
        let privileged = (authority = Linux \<and> cr_uid c = 0) \<or> may_set
        in if i \<noteq> KEEP \<and> i \<noteq> f \<and> (i = r \<or> i = e \<or> i = s \<or> privileged)
           then Ok (set_ids c which (r, e, s, i))
           else Ok c)"

text \<open>The answer is the old filesystem id, 0 for a process that is gone.\<close>

definition set_fs_id :: "u64 \<Rightarrow> which \<Rightarrow> authority \<Rightarrow> u32 \<Rightarrow> kstate \<Rightarrow> kstate \<times> u32" where
  "set_fs_id pid which authority i k =
     (fst (update_credentials pid (set_fs_id_change which authority i) k),
      case bt_get (k_procs k) pid of
        None \<Rightarrow> 0
      | Some p \<Rightarrow> (case ids (p_cred p) which of (_, _, _, f) \<Rightarrow> f))"

section \<open>The process as a machine\<close>

datatype id_event =
    EvSetId which authority u32
  | EvSetReId which authority u32 u32
  | EvSetResId which authority u32 u32 u32
  | EvSetFsId which authority u32
  | EvExec
  | EvCap cap_op

text \<open>A call of process \<open>pid\<close> on the kernel's state, and its effect on the process record.\<close>

fun sys_step :: "u64 \<Rightarrow> id_event \<Rightarrow> kstate \<Rightarrow> kstate" where
  "sys_step pid (EvSetId w a i) k = fst (set_id pid w a i k)"
| "sys_step pid (EvSetReId w a r e) k = fst (set_re_id pid w a r e k)"
| "sys_step pid (EvSetResId w a r e s) k = fst (set_res_id pid w a r e s k)"
| "sys_step pid (EvSetFsId w a i) k = fst (set_fs_id pid w a i k)"
| "sys_step pid EvExec k = exec_credentials pid k"
| "sys_step pid (EvCap op) k =
     (case bt_get (k_procs k) pid of
        None \<Rightarrow> k | Some p \<Rightarrow> put_proc pid (p\<lparr>p_caps := cap_step op (p_caps p)\<rparr>) k)"

fun proc_step :: "id_event \<Rightarrow> pcb \<Rightarrow> pcb" where
  "proc_step (EvSetId w a i) p =
     (if i = KEEP then p else fst (update_proc (apply_change w a (set_id_change i)) p))"
| "proc_step (EvSetReId w a r e) p = fst (update_proc (apply_change w a (set_re_id_change r e)) p)"
| "proc_step (EvSetResId w a r e s) p =
     fst (update_proc (apply_change w a (set_res_id_change r e s)) p)"
| "proc_step (EvSetFsId w a i) p = fst (update_proc (set_fs_id_change w a i) p)"
| "proc_step EvExec p = exec_proc p"
| "proc_step (EvCap op) p = p\<lparr>p_caps := cap_step op (p_caps p)\<rparr>"

fun ev_given :: "id_event \<Rightarrow> (resource_type \<times> u64 \<times> nat) set" where
  "ev_given (EvCap op) = cap_given op"
| "ev_given _ = {}"

lemma put_proc_get [simp]:
  "bt_get (k_procs k) pid = Some p \<Longrightarrow> bt_get (k_procs (put_proc pid q k)) pid = Some q"
  by (simp add: put_proc_def)

lemma put_proc_other [simp]:
  "j \<noteq> pid \<Longrightarrow> bt_get (k_procs (put_proc pid q k)) j = bt_get (k_procs k) j"
  by (simp add: put_proc_def)

lemma put_proc_audit [simp]: "k_audit (put_proc pid q k) = k_audit k"
  by (simp add: put_proc_def)

lemma change_credentials_get:
  "bt_get (k_procs k) pid = Some p \<Longrightarrow>
     bt_get (k_procs (fst (change_credentials pid c k))) pid = Some (fst (swap_credentials c p))"
  by (simp add: change_credentials_def case_prod_beta)

lemma apply_ids_proc:
  assumes "bt_get (k_procs k) pid = Some p"
  shows "bt_get (k_procs (fst (apply_ids pid w a ch k))) pid
       = Some (fst (update_proc (apply_change w a ch) p))"
  using assms
  by (auto simp: apply_ids_def update_credentials_def split: prod.splits sum.splits)

lemma sys_step_proc:
  assumes "bt_get (k_procs k) pid = Some p"
  shows "bt_get (k_procs (sys_step pid e k)) pid = Some (proc_step e p)"
  using assms
  by (cases e)
    (auto simp: set_id_def set_re_id_def set_res_id_def set_fs_id_def exec_credentials_def
      apply_ids_proc update_credentials_def split: prod.splits)

lemma sys_run_proc:
  "bt_get (k_procs k) pid = Some p \<Longrightarrow>
     bt_get (k_procs (fold (sys_step pid) es k)) pid = Some (fold proc_step es p)"
  by (induction es arbitrary: k p) (auto dest: sys_step_proc)

lemma swap_cred [simp]: "p_cred (fst (swap_credentials c p)) = c"
  by (auto simp: swap_credentials_def Let_def split: prod.splits)

lemma swap_caps:
  "p_caps (fst (swap_credentials c p)) =
     (if any_root_uid (p_cred p) \<and> \<not> any_root_uid c
      then cap_step OpDropSuspended (cap_step OpNarrowRoot (p_caps p))
      else if cr_uid (p_cred p) = 0 \<and> cr_uid c \<noteq> 0 then cap_step OpSuspendRoot (p_caps p)
      else if cr_uid (p_cred p) \<noteq> 0 \<and> cr_uid c = 0 then cap_step OpRestore (p_caps p)
      else p_caps p)"
  by (auto simp: swap_credentials_def Let_def split: prod.splits)

lemma swap_ok: "table_ok (p_caps p) \<Longrightarrow> table_ok (p_caps (fst (swap_credentials c p)))"
  by (simp only: swap_caps split: if_splits) (blast intro: cap_step_ok)

lemma cap_step_held_silent: "cap_given op = {} \<Longrightarrow> held (cap_step op t) \<subseteq> held t"
  using cap_step_held [of op t] by simp

lemma swap_held: "held (p_caps (fst (swap_credentials c p))) \<subseteq> held (p_caps p)"
proof -
  have "held (cap_step OpDropSuspended (cap_step OpNarrowRoot t)) \<subseteq> held t" for t
    using cap_step_held_silent [of OpDropSuspended "cap_step OpNarrowRoot t"]
      cap_step_held_silent [of OpNarrowRoot t] by auto
  then show ?thesis
    using cap_step_held_silent [of OpSuspendRoot "p_caps p"] cap_step_held_silent [of OpRestore "p_caps p"]
    by (auto simp only: swap_caps cap_given.simps split: if_splits)
qed

lemma update_proc_cases:
  obtains "fst (update_proc ch p) = p"
  | c where "ch (p_cred p) (ct_has_capability_type (p_caps p) Process SET_CREDENTIALS) = Ok c"
      and "fst (update_proc ch p) = fst (swap_credentials c p)"
  by (cases "ch (p_cred p) (ct_has_capability_type (p_caps p) Process SET_CREDENTIALS)")
    (auto simp: update_proc_def Let_def split: prod.splits)

lemma update_proc_ok: "table_ok (p_caps p) \<Longrightarrow> table_ok (p_caps (fst (update_proc ch p)))"
  by (rule update_proc_cases [of ch p]) (simp_all add: swap_ok)

lemma update_proc_held: "held (p_caps (fst (update_proc ch p))) \<subseteq> held (p_caps p)"
  by (rule update_proc_cases [of ch p]) (simp_all add: swap_held)

lemma exec_proc_caps:
  "p_caps (exec_proc p) = p_caps p \<or> p_caps (exec_proc p) = cap_step OpDropSuspended (p_caps p)"
  by (simp add: exec_proc_def Let_def)

lemma proc_step_ok: "table_ok (p_caps p) \<Longrightarrow> table_ok (p_caps (proc_step e p))"
proof (cases e)
  case EvExec
  assume "table_ok (p_caps p)"
  with EvExec exec_proc_caps [of p] show ?thesis
    using cap_step_ok [of "p_caps p" OpDropSuspended] by auto
qed (auto simp: update_proc_ok cap_step_ok)

lemma proc_step_held: "held (p_caps (proc_step e p)) \<subseteq> held (p_caps p) \<union> ev_given e"
proof (cases e)
  case EvExec
  with exec_proc_caps [of p] show ?thesis
    using cap_step_held_silent [of OpDropSuspended "p_caps p"] by auto
next
  case (EvCap op)
  then show ?thesis using cap_step_held [of op "p_caps p"] by simp
qed (use update_proc_held in auto)

interpretation proc: authority_machine proc_step "\<lambda>p. table_ok (p_caps p)" "\<lambda>p. held (p_caps p)" ev_given
  by unfold_locales (rule proc_step_ok proc_step_held | assumption)+

section \<open>A process that gave up root cannot take it back\<close>

definition may_set_ids :: "pcb \<Rightarrow> bool" where
  "may_set_ids p \<longleftrightarrow> (\<exists>rid. (Process, rid, 18) \<in> held (p_caps p))"

text \<open>No user id is 0 and the right to set credentials is out of reach.\<close>

definition unrooted :: "pcb \<Rightarrow> bool" where
  "unrooted p \<longleftrightarrow> \<not> any_root_uid (p_cred p) \<and> \<not> may_set_ids p"

lemma no_set_credentials:
  "\<not> may_set_ids p \<Longrightarrow> \<not> ct_has_capability_type (p_caps p) Process SET_CREDENTIALS"
  using has_type_usable [of "p_caps p" Process SET_CREDENTIALS 18] usable_subset_held [of "p_caps p"]
  by (auto simp: may_set_ids_def bits_rights)

lemma set_ids_root:
  "any_root_uid (set_ids c Group new) = any_root_uid c"
  "any_root_uid (set_ids c User (r, e, s, f)) \<longleftrightarrow> r = 0 \<or> e = 0 \<or> s = 0"
  by (cases new) (simp_all add: any_root_uid_def)

text \<open>What the rules give an unprivileged caller: each id one of those it already has.\<close>

definition ids_closed :: "(four_ids \<Rightarrow> bool \<Rightarrow> four_ids kernel_result) \<Rightarrow> bool" where
  "ids_closed ch \<longleftrightarrow>
     (\<forall>r e s f r' e' s' f'. ch (r, e, s, f) False = Ok (r', e', s', f') \<longrightarrow>
        {r', e', s'} \<subseteq> {r, e, s})"

lemma ids_closed_set_id: "ids_closed (set_id_change i)"
  unfolding ids_closed_def set_id_change_def by (auto split: if_splits)

lemma pick_own:
  fixes i old :: u32
  shows "i = KEEP \<or> i \<in> S \<Longrightarrow> old \<in> S \<Longrightarrow> (if i = KEEP then old else i) \<in> S"
  by (cases "i = KEEP") simp_all

lemma ids_closed_set_re_id: "ids_closed (set_re_id_change re ef)"
  unfolding ids_closed_def
proof (intro allI impI)
  fix r e s f r' e' s' f'
  assume run: "set_re_id_change re ef (r, e, s, f) False = Ok (r', e', s', f')"
  let ?p = "\<lambda>i old. if i = KEEP then old else i"
  let ?s = "if re \<noteq> KEEP \<or> (ef \<noteq> KEEP \<and> ef \<noteq> r) then ?p ef e else s"
  have eq: "set_re_id_change re ef (r, e, s, f) False =
      (if \<not> False \<and> ((re \<noteq> KEEP \<and> re \<noteq> r \<and> re \<noteq> e) \<or> (ef \<noteq> KEEP \<and> ef \<noteq> r \<and> ef \<noteq> e \<and> ef \<noteq> s))
       then Err NotPermitted else Ok (?p re r, ?p ef e, ?s, ?p ef e))"
    unfolding set_re_id_change_def prod.case Let_def ..
  define bad where "bad \<longleftrightarrow> (re \<noteq> KEEP \<and> re \<noteq> r \<and> re \<noteq> e) \<or> (ef \<noteq> KEEP \<and> ef \<noteq> r \<and> ef \<noteq> e \<and> ef \<noteq> s)"
  have "(if bad then Err NotPermitted else Ok (?p re r, ?p ef e, ?s, ?p ef e)) = Ok (r', e', s', f')"
    using run unfolding eq bad_def by (simp only: not_False_eq_True simp_thms)
  then have "\<not> bad \<and> Ok (r', e', s', f') = Ok (?p re r, ?p ef e, ?s, ?p ef e)"
    by (cases bad) (simp_all only: if_True if_False simp_thms sum.distinct)
  then have own: "\<not> bad" and "Ok (r', e', s', f') = Ok (?p re r, ?p ef e, ?s, ?p ef e)"
    by (rule conjunct1, rule conjunct2)
  then have new: "r' = ?p re r" "e' = ?p ef e" "s' = ?s"
    by (simp_all only: sum.inject prod.inject)
  have "?p re r \<in> {r, e, s}"
    by (rule pick_own) (use own in \<open>unfold bad_def, blast\<close>)+
  moreover have pe: "?p ef e \<in> {r, e, s}"
    by (rule pick_own) (use own in \<open>unfold bad_def, blast\<close>)+
  moreover have "?s \<in> {r, e, s}"
    using pe by (cases "re \<noteq> KEEP \<or> (ef \<noteq> KEEP \<and> ef \<noteq> r)") (simp_all only: if_True if_False insert_iff simp_thms)
  ultimately show "{r', e', s'} \<subseteq> {r, e, s}"
    unfolding new by blast
qed

lemma ids_closed_set_res_id: "ids_closed (set_res_id_change re ef sa)"
  unfolding ids_closed_def
proof (intro allI impI)
  fix r e s f r' e' s' f'
  assume run: "set_res_id_change re ef sa (r, e, s, f) False = Ok (r', e', s', f')"
  let ?p = "\<lambda>i old. if i = KEEP then old else i" and ?own = "\<lambda>i. i = KEEP \<or> i \<in> {r, e, s}"
  let ?same = "(re = KEEP \<or> re = r) \<and> (ef = KEEP \<or> (ef = e \<and> ef = f)) \<and> (sa = KEEP \<or> sa = s)"
  show "{r', e', s'} \<subseteq> {r, e, s}"
  proof (cases ?same)
    case True
    then show ?thesis using run unfolding set_res_id_change_def prod.case by simp
  next
    case False
    then have eq: "set_res_id_change re ef sa (r, e, s, f) False =
        (if \<not> (?own re \<and> ?own ef \<and> ?own sa) then Err NotPermitted
         else Ok (?p re r, ?p ef e, ?p sa s, ?p ef e))"
      unfolding set_res_id_change_def prod.case Let_def if_not_P [OF False] by simp
    then have own: "?own re" "?own ef" "?own sa"
      using run by (metis sum.distinct(1))+
    then have "?p re r \<in> {r, e, s}" "?p ef e \<in> {r, e, s}" "?p sa s \<in> {r, e, s}"
      using pick_own [of _ "{r, e, s}"] by blast+
    moreover have "Ok (r', e', s', f') = Ok (?p re r, ?p ef e, ?p sa s, ?p ef e)"
      using eq run own by metis
    then have "r' = ?p re r" "e' = ?p ef e" "s' = ?p sa s"
      by (simp_all only: sum.inject prod.inject)
    ultimately show ?thesis by blast
  qed
qed

lemmas ids_closed_changes = ids_closed_set_id ids_closed_set_re_id ids_closed_set_res_id

lemma unrooted_apply:
  assumes "ids_closed ch" and "unrooted p"
    and "apply_change w a ch (p_cred p) (ct_has_capability_type (p_caps p) Process SET_CREDENTIALS) = Ok c"
  shows "\<not> any_root_uid c"
proof -
  have priv: "\<not> ct_has_capability_type (p_caps p) Process SET_CREDENTIALS" "cr_uid (p_cred p) \<noteq> 0"
    using assms(2) no_set_credentials by (auto simp: unrooted_def any_root_uid_def)
  obtain r e s f where old: "ids (p_cred p) w = (r, e, s, f)"
    by (cases "ids (p_cred p) w") auto
  obtain r' e' s' f' where new: "ch (r, e, s, f) False = Ok (r', e', s', f')"
    and c: "c = set_ids (p_cred p) w (r', e', s', f')"
    using assms(3) priv old by (auto simp: apply_change_def split: sum.splits)
  have "{r', e', s'} \<subseteq> {r, e, s}"
    using assms(1) new unfolding ids_closed_def by blast
  then show ?thesis
    using assms(2) old c
    by (cases w) (auto simp: unrooted_def set_ids_root any_root_uid_def)
qed

lemma fs_id_root:
  "set_fs_id_change w a i c m = Ok c' \<Longrightarrow> any_root_uid c' = any_root_uid c"
  by (cases w) (auto simp: set_fs_id_change_def Let_def any_root_uid_def split: if_splits)

lemma update_proc_unrooted:
  assumes "\<not> any_root_uid (p_cred p)"
    and "\<And>c. ch (p_cred p) (ct_has_capability_type (p_caps p) Process SET_CREDENTIALS) = Ok c
           \<Longrightarrow> \<not> any_root_uid c"
  shows "\<not> any_root_uid (p_cred (fst (update_proc ch p)))"
  by (rule update_proc_cases [of ch p]) (use assms in auto)

text \<open>An event that hands the process no right to set credentials.\<close>

definition grants_set_credentials :: "id_event \<Rightarrow> bool" where
  "grants_set_credentials e \<longleftrightarrow> (\<exists>rid. (Process, rid, 18) \<in> ev_given e)"

lemma unrooted_step:
  assumes "unrooted p" and "\<not> grants_set_credentials e"
  shows "unrooted (proc_step e p)"
proof -
  have "\<not> may_set_ids (proc_step e p)"
    using assms proc_step_held [of e p] by (auto simp: unrooted_def may_set_ids_def grants_set_credentials_def)
  moreover have "\<not> any_root_uid (p_cred p)" using assms(1) by (simp add: unrooted_def)
  then have "\<not> any_root_uid (p_cred (proc_step e p))"
  proof (cases e)
    case (EvSetFsId w a i)
    with \<open>\<not> any_root_uid (p_cred p)\<close> show ?thesis
      by (simp, intro update_proc_unrooted) (auto dest: fs_id_root)
  next
    case EvExec
    with \<open>\<not> any_root_uid (p_cred p)\<close> show ?thesis
      by (simp add: exec_proc_def cred_exec_def any_root_uid_def Let_def)
  next
    case (EvSetId w a i)
    with \<open>\<not> any_root_uid (p_cred p)\<close> show ?thesis
      using update_proc_unrooted [OF _ unrooted_apply [OF ids_closed_set_id assms(1)]] by simp
  next
    case (EvSetReId w a r e)
    with \<open>\<not> any_root_uid (p_cred p)\<close> show ?thesis
      using update_proc_unrooted [OF _ unrooted_apply [OF ids_closed_set_re_id assms(1)]] by simp
  next
    case (EvSetResId w a r e s)
    with \<open>\<not> any_root_uid (p_cred p)\<close> show ?thesis
      using update_proc_unrooted [OF _ unrooted_apply [OF ids_closed_set_res_id assms(1)]] by simp
  qed simp
  ultimately show ?thesis by (simp add: unrooted_def)
qed

lemma unrooted_run:
  "unrooted p \<Longrightarrow> (\<And>e. e \<in> set es \<Longrightarrow> \<not> grants_set_credentials e) \<Longrightarrow> unrooted (fold proc_step es p)"
  by (induction es arbitrary: p) (auto intro: unrooted_step)

lemma set_credentials_is_root_only: "18 \<in> root_only Process rid"
  by (simp add: root_only_def bits_ROOT_PROCESS_RIGHTS)

lemma swap_dropping_root:
  assumes "any_root_uid (p_cred p)" and "\<not> any_root_uid c"
  defines "p' \<equiv> fst (swap_credentials c p)"
  shows "held (p_caps p') = rootless (usable (p_caps p)) \<and> unrooted p'"
proof -
  have "held (p_caps p') = rootless (usable (p_caps p))"
    using assms(1,2) narrow_and_drop_is_final [of "p_caps p"] by (simp add: p'_def swap_caps)
  moreover from this have "\<not> may_set_ids p'"
    using set_credentials_is_root_only by (auto simp: may_set_ids_def rootless_def)
  ultimately show ?thesis using assms(2) by (simp add: unrooted_def p'_def)
qed

text \<open>
  C1: Giving up root is final. Once a credential change takes a process from holding uid 0 in some
  slot to holding it in none, no sequence of setuid-family calls (by either authority), execs and
  capability operations brings uid 0 back unless one of them grants the right to set credentials,
  and the process can never use more than it could before less root's authority, plus what it was
  given since.
\<close>

theorem dropped_root_cannot_return:
  assumes k: "bt_get (k_procs k) pid = Some p" and ok: "table_ok (p_caps p)"
    and drop: "any_root_uid (p_cred p)" "\<not> any_root_uid c"
    and given: "\<And>e. e \<in> set es \<Longrightarrow> \<not> grants_set_credentials e"
  shows "\<exists>p'. bt_get (k_procs (fold (sys_step pid) es (fst (change_credentials pid c k)))) pid = Some p'
      \<and> \<not> any_root_uid (p_cred p')
      \<and> usable (p_caps p') \<subseteq> rootless (usable (p_caps p)) \<union> (\<Union>e \<in> set es. ev_given e)"
proof -
  define q where "q = fst (swap_credentials c p)"
  have q: "held (p_caps q) = rootless (usable (p_caps p))" "unrooted q" "table_ok (p_caps q)"
    using swap_dropping_root [OF drop] swap_ok [OF ok] by (simp_all add: q_def)
  have "bt_get (k_procs (fst (change_credentials pid c k))) pid = Some q"
    using change_credentials_get [OF k] by (simp add: q_def)
  from sys_run_proc [OF this]
  have "bt_get (k_procs (fold (sys_step pid) es (fst (change_credentials pid c k)))) pid
      = Some (fold proc_step es q)" .
  moreover have "\<not> any_root_uid (p_cred (fold proc_step es q))"
    using unrooted_run [OF q(2) given] by (simp add: unrooted_def)
  moreover have "usable (p_caps (fold proc_step es q))
      \<subseteq> rootless (usable (p_caps p)) \<union> (\<Union>e \<in> set es. ev_given e)"
    using proc.authority_run [OF q(3), of es] usable_subset_held [of "p_caps (fold proc_step es q)"]
    unfolding q(1) by blast
  ultimately show ?thesis by blast
qed

definition sample_proc :: pcb where
  "sample_proc = \<lparr>p_cred = cred_root, p_caps = sample_table\<rparr>"

definition sample_kernel :: kstate where
  "sample_kernel = \<lparr>k_procs = [(5, sample_proc)], k_audit = audit_init\<rparr>"

lemma sample_kernel_get: "bt_get (k_procs sample_kernel) 5 = Some sample_proc"
  by (simp add: sample_kernel_def bt_get_def)

theorem dropped_root_cannot_return_witness:
  "\<exists>p'. bt_get (k_procs (fold (sys_step 5) [EvSetId User Linux 0, EvExec, EvSetReId User Native 0 0]
             (fst (change_credentials 5 (cred_new 1000 1000) sample_kernel)))) 5 = Some p'
      \<and> \<not> any_root_uid (p_cred p') \<and> usable (p_caps p') \<subseteq> rootless (usable sample_table)"
proof -
  have "table_ok (p_caps sample_proc)" "any_root_uid (p_cred sample_proc)"
    "\<not> any_root_uid (cred_new 1000 1000)"
    by (simp_all add: sample_proc_def table_ok_sample any_root_uid_def cred_root_def cred_new_def)
  moreover have "\<not> grants_set_credentials e"
    if "e \<in> set [EvSetId User Linux 0, EvExec, EvSetReId User Native 0 0]" for e
    using that by (auto simp: grants_set_credentials_def)
  ultimately show ?thesis
    using dropped_root_cannot_return [OF sample_kernel_get, of "cred_new 1000 1000"
        "[EvSetId User Linux 0, EvExec, EvSetReId User Native 0 0]"]
    by (simp add: sample_proc_def)
qed

text \<open>Giving rights back changes nothing in a table that has none put aside.\<close>

lemma restore_nothing:
  assumes "ct_suspended_count t = 0"
  shows "fst (ct_restore t) = t"
proof -
  have "fst (restore_body e) = e" if "e \<in> set (bt_values (ct_entries t))" for e
    using assms that by (auto simp: ct_suspended_count_def restore_body_def filter_empty_conv)
  then have "bt_map (\<lambda>e. fst (restore_body e)) (ct_entries t) = ct_entries t"
    by (force simp: bt_map_def bt_values_def intro!: map_idI)
  then show ?thesis by (simp add: ct_restore_def)
qed

text \<open>
  C31: A temporary change of the effective uid suspends and does not destroy: a root process with
  no rights put aside yet (\<open>ct_suspended_count\<close> is 0) that sets its effective uid to another user,
  keeping uid 0 in its real or saved slot, can use exactly its authority less root's meanwhile, and
  setting the effective uid back to 0 gives it the very table it had.
\<close>

theorem temporary_drop_roundtrip:
  assumes k: "bt_get (k_procs k) pid = Some p"
    and rooted: "cr_uid (p_cred p) = 0" and none: "ct_suspended_count (p_caps p) = 0"
    and leave: "cr_uid away \<noteq> 0" "any_root_uid away" and again: "cr_uid again = 0"
  defines "k1 \<equiv> fst (change_credentials pid away k)"
  shows "(\<exists>p1. bt_get (k_procs k1) pid = Some p1 \<and> usable (p_caps p1) = rootless (usable (p_caps p)))
    \<and> bt_get (k_procs (fst (change_credentials pid again k1))) pid = Some (p\<lparr>p_cred := again\<rparr>)"
proof -
  define q where "q = fst (swap_credentials away p)"
  have caps: "p_caps q = fst (ct_suspend without_root (p_caps p))" and cred: "p_cred q = away"
    using rooted leave by (simp_all add: q_def swap_caps)
  have k1: "bt_get (k_procs k1) pid = Some q"
    using change_credentials_get [OF k] by (simp add: k1_def q_def)
  have "p_caps (fst (swap_credentials again q)) = fst (ct_restore (p_caps q))"
    using leave again by (simp add: swap_caps cred any_root_uid_def)
  also have "\<dots> = p_caps p"
    using suspend_puts_root_aside [of "p_caps p"] restore_nothing [of "p_caps p"] none by (simp add: caps del: ct_sweep_simps)
  finally have "fst (swap_credentials again q) = p\<lparr>p_cred := again\<rparr>"
    using swap_cred [of again q] by (intro pcb.equality) simp_all
  then have "bt_get (k_procs (fst (change_credentials pid again k1))) pid = Some (p\<lparr>p_cred := again\<rparr>)"
    using change_credentials_get [OF k1, of again] by simp
  with k1 show ?thesis
    using suspend_puts_root_aside [of "p_caps p"] by (simp add: caps)
qed

theorem temporary_drop_roundtrip_witness:
  "bt_get (k_procs (fst (change_credentials 5 cred_root
      (fst (change_credentials 5 (cred_root\<lparr>cr_uid := 1000\<rparr>) sample_kernel))))) 5
     = Some (sample_proc\<lparr>p_cred := cred_root\<rparr>)"
proof -
  have "cr_uid (p_cred sample_proc) = 0" "ct_suspended_count (p_caps sample_proc) = 0"
    "cr_uid (cred_root\<lparr>cr_uid := 1000\<rparr>) \<noteq> 0" "any_root_uid (cred_root\<lparr>cr_uid := 1000\<rparr>)"
    "cr_uid cred_root = 0"
    by (simp_all add: sample_proc_def sample_entries ct_suspended_count_def bt_values_def
        rights_is_empty_def any_root_uid_def cred_root_def cred_new_def)
  from temporary_drop_roundtrip [OF sample_kernel_get this] show ?thesis by blast
qed

section \<open>Spawning with a chosen subset\<close>

lemma usable_insert:
  assumes "table_ok t" and "ct_insert ty rid r t = (t', res)"
  shows "usable t' \<subseteq> usable t \<union> rights_over ty rid r" and "table_ok t'"
proof -
  show "table_ok t'"
    using assms table_ok_insert [OF assms(1), of ty rid r NONE] by (simp add: ct_insert_def)
  show "usable t' \<subseteq> usable t \<union> rights_over ty rid r"
  proof (cases "MAX_ENTRIES \<le> length (ct_entries t)")
    case True
    with assms(2) show ?thesis by (auto simp: ct_insert_def ct_insert_with_suspended_def)
  next
    case False
    then have "t' = fst (ct_insert ty rid r t)" using assms(2) by simp
    then show ?thesis
      using False set_values_insert [of "ct_next t" "\<lparr>ce_type = ty, ce_id = rid, ce_rights = r,
          ce_suspended = NONE, ce_valid = True\<rparr>" "ct_entries t"]
      by (auto simp: ct_insert_def ct_insert_with_suspended_def usable_def Let_def entry_usable_def
          rights_over_def)
  qed
qed

lemma subset_loop_usable:
  assumes "table_ok t" and "subset_loop rs t n = (t', res)"
  shows "table_ok t' \<and> usable t' \<subseteq> usable t \<union> (\<Union>(ty, rid, r) \<in> set rs. rights_over ty rid r)"
  using assms
proof (induction rs t n rule: subset_loop.induct)
  case (2 ty rid r rs t n)
  obtain t1 r1 where ins: "ct_insert ty rid r t = (t1, r1)" by fastforce
  note one = usable_insert [OF 2(2) ins]
  show ?case
  proof (cases r1)
    case (Inl e)
    with 2(3) ins one show ?thesis by auto
  next
    case (Inr h)
    with 2(1) [OF ins [symmetric, unfolded Inr] refl one(2)] 2(3) ins one show ?thesis by auto
  qed
qed auto

lemma check_requests_covered:
  assumes "check_requests (ct_valid_entries t) rs = Ok ()"
  shows "(\<Union>(ty, rid, r) \<in> set rs. rights_over ty rid r) \<subseteq> usable t"
  using assms
proof (induction "ct_valid_entries t" rs rule: check_requests.induct)
  case (2 ty rid r rs)
  then obtain e where "e \<in> set (ct_valid_entries t)" "ce_type e = ty" "ce_id e = rid"
    "rights_contains (ce_rights e) r"
    by (auto split: if_splits)
  then have "rights_over ty rid r \<subseteq> usable t"
    by (force simp: rights_over_def usable_def entry_usable_def ct_valid_entries_def rights_bits)
  with 2 show ?case by (auto split: if_splits)
qed simp

text \<open>A request the parent can pass on: some right, all of it in one of the parent's entries.\<close>

definition can_grant :: "cap_table \<Rightarrow> resource_type \<times> u64 \<times> rights \<Rightarrow> bool" where
  "can_grant t rq \<longleftrightarrow> (case rq of (ty, rid, r) \<Rightarrow> \<not> rights_is_empty r
     \<and> (\<exists>e \<in> set (ct_valid_entries t). ce_type e = ty \<and> ce_id e = rid \<and> rights_contains (ce_rights e) r))"

lemma check_requests_grants:
  "check_requests (ct_valid_entries t) rs = Ok () \<longleftrightarrow> (\<forall>rq \<in> set rs. can_grant t rq)"
  by (induction rs) (auto simp: can_grant_def split: if_splits)

lemma check_requests_answers:
  "check_requests es rs \<in> {Ok (), Err PermissionDenied, Err InvalidArgument}"
  by (induction es rs rule: check_requests.induct) auto

text \<open>
  C32: A child spawned with a requested subset gets nothing its parent could not use at the moment of
  the call: whatever the outcome, the child can use only what it could before and what the parent
  can use, and no other process changes. An empty request succeeds and leaves the whole state as it
  was; a request with an item the parent cannot grant - no rights in it, or not all of them in one
  of its valid capabilities - or any request of process 0 is refused, and leaves the whole state as it was.
\<close>

theorem spawn_subset_attenuates:
  assumes parent: "bt_get (k_procs k) parent = Some pp"
    and child: "bt_get (k_procs k) child = Some pc" and ok: "table_ok (p_caps pc)"
    and run: "inherit_caps_subset parent child reqs k = (k', res)"
  shows "(\<exists>pc'. bt_get (k_procs k') child = Some pc' \<and> p_cred pc' = p_cred pc
          \<and> usable (p_caps pc') \<subseteq> usable (p_caps pc) \<union> usable (p_caps pp))
      \<and> (\<forall>j. j \<noteq> child \<longrightarrow> bt_get (k_procs k') j = bt_get (k_procs k) j)
      \<and> (res = Err PermissionDenied \<longrightarrow> k' = k)
      \<and> (reqs = [] \<longrightarrow> k' = k \<and> res = Ok 0)
      \<and> (reqs \<noteq> [] \<and> parent = 0 \<longrightarrow> k' = k \<and> res = Err PermissionDenied)
      \<and> ((\<exists>rq \<in> set reqs. \<not> can_grant (p_caps pp) rq) \<longrightarrow>
           k' = k \<and> (res = Err PermissionDenied \<or> res = Err InvalidArgument))"
proof (cases "reqs = [] \<or> parent = 0 \<or> check_requests (ct_valid_entries (p_caps pp)) reqs \<noteq> Ok ()")
  case True
  then have "k' = k"
    using run parent by (auto simp: inherit_caps_subset_def split: if_splits sum.splits)
  moreover have "(reqs = [] \<longrightarrow> res = Ok 0) \<and> (reqs \<noteq> [] \<and> parent = 0 \<longrightarrow> res = Err PermissionDenied)"
    using run by (auto simp: inherit_caps_subset_def split: if_splits)
  moreover have "res = Err PermissionDenied \<or> res = Err InvalidArgument" if "\<exists>rq \<in> set reqs. \<not> can_grant (p_caps pp) rq"
    using that run parent check_requests_grants [of "p_caps pp" reqs]
      check_requests_answers [of "ct_valid_entries (p_caps pp)" reqs]
    by (auto simp: inherit_caps_subset_def split: if_splits sum.splits)
  ultimately show ?thesis using child by auto
next
  case False
  then have chk: "check_requests (ct_valid_entries (p_caps pp)) reqs = Ok ()" by simp
  obtain t r where loop: "subset_loop reqs (p_caps pc) 0 = (t, r)" by fastforce
  with False run parent child
  have k': "k' = put_proc child (pc\<lparr>p_caps := t\<rparr>) k" "res = r"
    by (auto simp: inherit_caps_subset_def)
  have "res \<noteq> Err PermissionDenied"
  proof -
    have "snd (subset_loop rs t n) \<noteq> Err PermissionDenied" for rs t n
      by (induction rs t n rule: subset_loop.induct)
        (auto simp: ct_insert_def ct_insert_with_suspended_def Let_def split: prod.splits sum.splits if_splits)
    then show ?thesis using loop k'(2) by (metis snd_conv)
  qed
  moreover have "usable t \<subseteq> usable (p_caps pc) \<union> usable (p_caps pp)"
    using subset_loop_usable [OF ok loop] check_requests_covered [OF chk] by blast
  moreover have "\<not> (\<exists>rq \<in> set reqs. \<not> can_grant (p_caps pp) rq)"
    using chk check_requests_grants by blast
  ultimately show ?thesis using child False by (auto simp: k'(1))
qed

lemma sample_usable_read: "check_requests (ct_valid_entries (p_caps sample_proc)) [(Process, 7, READ)] = Ok ()"
  by (simp add: sample_proc_def sample_entries ct_valid_entries_def bt_values_def right_defs
      rights_is_empty_def rights_contains_def)

theorem spawn_subset_attenuates_witness:
  "\<exists>pc'. bt_get (k_procs (fst (inherit_caps_subset 5 6 [(Process, 7, READ)]
       (sample_kernel\<lparr>k_procs := [(5, sample_proc), (6, \<lparr>p_cred = cred_root, p_caps = ct_new\<rparr>)]\<rparr>)))) 6 = Some pc'
     \<and> usable (p_caps pc') \<subseteq> usable (p_caps \<lparr>p_cred = cred_root, p_caps = ct_new\<rparr>)
          \<union> usable (p_caps sample_proc)"
proof -
  let ?k = "sample_kernel\<lparr>k_procs := [(5, sample_proc), (6, \<lparr>p_cred = cred_root, p_caps = ct_new\<rparr>)]\<rparr>"
  have "bt_get (k_procs ?k) 5 = Some sample_proc"
    "bt_get (k_procs ?k) 6 = Some \<lparr>p_cred = cred_root, p_caps = ct_new\<rparr>"
    "table_ok (p_caps \<lparr>p_cred = cred_root, p_caps = ct_new\<rparr>)"
    by (simp_all add: bt_get_def table_ok_new)
  from spawn_subset_attenuates [OF this prod.collapse [symmetric], of "[(Process, 7, READ)]"]
  show ?thesis by blast
qed

section \<open>Transfer\<close>

lemma validate_caps_ok:
  "validate_caps t hs = Ok () \<longleftrightarrow> (\<forall>h \<in> set hs. \<exists>e. ct_lookup t h = Ok e)"
  by (induction t hs rule: validate_caps.induct) (auto split: sum.splits)

lemma lookup_some:
  "ct_lookup t h = Ok e \<longleftrightarrow> bt_get (ct_entries t) h = Some e \<and> ce_valid e"
  by (auto simp: ct_lookup_def split: option.splits)

lemma ct_remove_get:
  "bt_ok (ct_entries t) \<Longrightarrow> bt_get (ct_entries (fst (ct_remove h t))) j
     = (if j = h then None else bt_get (ct_entries t) j)"
  by (simp add: ct_remove_def)

lemma remove_loop_spec:
  assumes "bt_ok (ct_entries t)" and "remove_loop now pid hs t a acc = (t', a', es)"
  shows "(\<forall>j. bt_get (ct_entries t') j = (if j \<in> set hs then None else bt_get (ct_entries t) j))
    \<and> set es = set acc \<union> {e. \<exists>h \<in> set hs. bt_get (ct_entries t) h = Some e}"
  using assms
proof (induction now pid hs t a acc arbitrary: t' a' es rule: remove_loop.induct)
  case (1 now pid t a acc)
  then show ?case by simp
next
  case (2 now pid h hs t a acc)
  define t1 where "t1 = fst (ct_remove h t)"
  have ok: "bt_ok (ct_entries t1)" and get: "bt_get (ct_entries t1) j
      = (if j = h then None else bt_get (ct_entries t) j)" for j
    using 2(3) ct_remove_get [OF 2(3), of h] by (simp_all add: t1_def ct_remove_def)
  show ?case
  proof (cases "bt_get (ct_entries t) h")
    case None
    then have rm: "ct_remove h t = (t1, None)" by (simp add: t1_def ct_remove_def)
    from 2(4) rm have "remove_loop now pid hs t1 a acc = (t', a', es)" by simp
    from 2(1) [OF rm [symmetric] refl ok this] None show ?thesis
      unfolding get by (auto split: if_splits) (metis option.distinct(1))
  next
    case (Some e)
    then have rm: "ct_remove h t = (t1, Some e)" by (simp add: t1_def ct_remove_def)
    let ?a = "audit_record now Drop (ucast pid) (ucast h) (ucast (ce_rights e)) 0 0 a"
    from 2(4) rm have "remove_loop now pid hs t1 ?a (acc @ [e]) = (t', a', es)" by simp
    from 2(2) [OF rm [symmetric] refl ok this] Some show ?thesis
      unfolding get by (auto split: if_splits) (metis option.inject)
  qed
qed

lemma insert_loop_usable:
  assumes "table_ok t" and "insert_loop es t acc = (t', hs)"
  shows "usable t' \<subseteq> usable t \<union> (\<Union>(ty, rid, r) \<in> set es. rights_over ty rid r)"
  using assms
proof (induction es t acc rule: insert_loop.induct)
  case (2 ty rid r es t acc)
  obtain t1 r1 where ins: "ct_insert ty rid r t = (t1, r1)" by fastforce
  note one = usable_insert [OF 2(3) ins]
  show ?case
  proof (cases r1)
    case (Inl e)
    with 2(1) [OF ins [symmetric, unfolded Inl] refl one(2)] 2(4) ins one show ?thesis by auto
  next
    case (Inr h)
    with 2(2) [OF ins [symmetric, unfolded Inr] refl one(2)] 2(4) ins one show ?thesis by auto
  qed
qed auto

text \<open>What travels with a message: the entries without what is put aside.\<close>

definition transferable :: "cap_entry list \<Rightarrow> (resource_type \<times> u64 \<times> rights) list" where
  "transferable es = map (\<lambda>e. (ce_type e, ce_id e, ce_rights e)) es"

text \<open>
  C8: A transfer moves capabilities and never copies them. Detaching either fails on an invalid
  handle and changes nothing, or takes every named handle out of the sender's table and touches
  no other; attaching what was detached gives the receiver only authority that the detached
  entries carried in the sender's table.
\<close>

theorem transfer_moves:
  assumes sender: "bt_get (k_procs k) s = Some ps" "table_ok (p_caps ps)"
    and receiver: "bt_get (k_procs k) r = Some pr" "table_ok (p_caps pr)" and diff: "s \<noteq> r"
    and detach: "remove_caps now s hs k = (k1, res)"
  shows "case res of
      Inl e \<Rightarrow> k1 = k \<and> e = InvalidCapability
    | Inr es \<Rightarrow> \<exists>ps' pr'.
        bt_get (k_procs (fst (insert_caps r (transferable es) k1))) s = Some ps'
        \<and> (\<forall>h \<in> set hs. ct_lookup (p_caps ps') h = Err InvalidCapability)
        \<and> (\<forall>h. h \<notin> set hs \<longrightarrow> ct_lookup (p_caps ps') h = ct_lookup (p_caps ps) h)
        \<and> bt_get (k_procs (fst (insert_caps r (transferable es) k1))) r = Some pr'
        \<and> usable (p_caps pr') \<subseteq> usable (p_caps pr)
            \<union> (\<Union>h \<in> set hs. case ct_lookup (p_caps ps) h of Inl _ \<Rightarrow> {} | Inr e \<Rightarrow> entry_usable e)"
proof (cases "validate_caps (p_caps ps) hs")
  case (Inl e)
  have "validate_caps t gs = Err e \<Longrightarrow> e = InvalidCapability" for t gs
    by (induction gs) (auto simp: ct_lookup_def split: sum.splits option.splits if_splits)
  with Inl sender detach show ?thesis by (auto simp: remove_caps_def)
next
  case (Inr u)
  obtain t a es where loop: "remove_loop now s hs (p_caps ps) (k_audit k) [] = (t, a, es)"
    by (metis prod_cases3)
  with Inr sender detach have res: "res = Ok es" and k1: "k1 = (put_proc s (ps\<lparr>p_caps := t\<rparr>) k)\<lparr>k_audit := a\<rparr>"
    by (simp_all add: remove_caps_def)
  note spec = remove_loop_spec [OF table_okD(1) [OF sender(2)] loop]
  obtain t2 hs2 where ins: "insert_loop (transferable es) (p_caps pr) [] = (t2, hs2)" by fastforce
  have r1: "bt_get (k_procs k1) r = Some pr" and s1: "bt_get (k_procs k1) s = Some (ps\<lparr>p_caps := t\<rparr>)"
    using k1 sender receiver diff by simp_all
  with ins diff have after: "bt_get (k_procs (fst (insert_caps r (transferable es) k1))) s = Some (ps\<lparr>p_caps := t\<rparr>)"
    "bt_get (k_procs (fst (insert_caps r (transferable es) k1))) r = Some (pr\<lparr>p_caps := t2\<rparr>)"
    by (simp_all add: insert_caps_def)
  have valid: "\<exists>e. ct_lookup (p_caps ps) h = Ok e" if "h \<in> set hs" for h
    using Inr that validate_caps_ok [of "p_caps ps" hs] by simp
  have "entry_usable e \<subseteq> (\<Union>h \<in> set hs. case ct_lookup (p_caps ps) h of Inl _ \<Rightarrow> {} | Inr e \<Rightarrow> entry_usable e)"
    and "ce_valid e" if "e \<in> set es" for e
  proof -
    from spec that obtain h where h: "h \<in> set hs" "bt_get (ct_entries (p_caps ps)) h = Some e"
      by auto
    with valid [OF h(1)] have look: "ct_lookup (p_caps ps) h = Ok e" by (auto simp: lookup_some)
    then show "ce_valid e" by (simp add: lookup_some)
    show "entry_usable e \<subseteq> (\<Union>h \<in> set hs. case ct_lookup (p_caps ps) h of Inl _ \<Rightarrow> {} | Inr e \<Rightarrow> entry_usable e)"
      using h(1) by (intro subsetI UN_I [of h]) (simp_all add: look)
  qed
  then have "(\<Union>(ty, rid, q) \<in> set (transferable es). rights_over ty rid q)
      \<subseteq> (\<Union>h \<in> set hs. case ct_lookup (p_caps ps) h of Inl _ \<Rightarrow> {} | Inr e \<Rightarrow> entry_usable e)"
    unfolding transferable_def rights_over_def entry_usable_def by fastforce
  with insert_loop_usable [OF receiver(2) ins]
  have "usable t2 \<subseteq> usable (p_caps pr)
      \<union> (\<Union>h \<in> set hs. case ct_lookup (p_caps ps) h of Inl _ \<Rightarrow> {} | Inr e \<Rightarrow> entry_usable e)"
    by blast
  moreover have "(\<forall>h \<in> set hs. ct_lookup t h = Err InvalidCapability)
      \<and> (\<forall>h. h \<notin> set hs \<longrightarrow> ct_lookup t h = ct_lookup (p_caps ps) h)"
    using spec by (simp add: ct_lookup_def)
  ultimately show ?thesis
    unfolding res sum.case after by (auto simp del: split_paired_Ex)
qed

theorem transfer_moves_witness:
  "\<exists>k1 es ps'. remove_caps 0 5 [2]
       (sample_kernel\<lparr>k_procs := [(5, sample_proc), (6, \<lparr>p_cred = cred_root, p_caps = ct_new\<rparr>)]\<rparr>) = (k1, Ok es)
     \<and> bt_get (k_procs (fst (insert_caps 6 (transferable es) k1))) 5 = Some ps'
     \<and> ct_lookup (p_caps ps') 2 = Err InvalidCapability"
proof -
  let ?r = "\<lparr>p_cred = cred_root, p_caps = ct_new\<rparr>"
  let ?k = "sample_kernel\<lparr>k_procs := [(5, sample_proc), (6, ?r)]\<rparr>"
  obtain k1 res where run: "remove_caps 0 5 [2] ?k = (k1, res)" by fastforce
  have pre: "bt_get (k_procs ?k) 5 = Some sample_proc" "table_ok (p_caps sample_proc)"
    "bt_get (k_procs ?k) 6 = Some ?r" "table_ok (p_caps ?r)" "(5 :: u64) \<noteq> 6"
    by (simp_all add: bt_get_def table_ok_new sample_proc_def table_ok_sample)
  have "validate_caps (p_caps sample_proc) [2] = Ok ()"
    by (simp add: sample_proc_def sample_entries ct_lookup_def bt_get_def)
  with run pre(1) obtain es where "res = Ok es"
    by (auto simp: remove_caps_def simp del: validate_caps.simps remove_loop.simps split: prod.splits)
  with transfer_moves [OF pre run] run show ?thesis by auto
qed

end
