(* ===== verification/CapGroups.thy ===== *)
theory CapGroups imports Resources begin

text \<open>
  Named capability groups (\<^verbatim>\<open>kernel/src/cap/groups.rs\<close>): a fixed table of 32 groups, each with a
  fixed array of grant slots and a fixed array of member gids. The arrays are lists of the same
  length; what a slot holds outlives its count, as in the code. Names are the bytes of a \<^verbatim>\<open>&str\<close>,
  copied whole, so \<^verbatim>\<open>name_str\<close> never meets invalid UTF-8. Each operation holds the table's lock.
\<close>

section \<open>State\<close>

definition MAX_GROUPS :: nat where "MAX_GROUPS = 32"
definition MAX_CAPS_PER_GROUP :: nat where "MAX_CAPS_PER_GROUP = sat_add64 (unat LAST) 8"
definition MAX_MEMBERS_PER_GROUP :: nat where "MAX_MEMBERS_PER_GROUP = 16"
definition MAX_NAME_LEN :: nat where "MAX_NAME_LEN = 31"

record cap_grant =
  gr_type :: resource_type
  gr_rights :: rights

record cap_group =
  g_active :: bool
  g_builtin :: bool
  g_id :: u32
  g_name :: "u8 list"
  g_name_len :: nat
  g_caps :: "cap_grant option list"
  g_cap_count :: nat
  g_members :: "u32 list"
  g_member_count :: nat

definition group_empty :: cap_group where
  "group_empty = \<lparr>g_active = False, g_builtin = False, g_id = 0,
     g_name = replicate (MAX_NAME_LEN + 1) 0, g_name_len = 0,
     g_caps = replicate MAX_CAPS_PER_GROUP None, g_cap_count = 0,
     g_members = replicate MAX_MEMBERS_PER_GROUP 0, g_member_count = 0\<rparr>"

definition name_str :: "cap_group \<Rightarrow> u8 list" where
  "name_str g = take (g_name_len g) (g_name g)"

text \<open>The table and the counter ids are drawn from.\<close>

record group_state =
  gs_groups :: "cap_group list"
  gs_next_id :: u32

definition groups_static :: group_state where
  "groups_static = \<lparr>gs_groups = replicate MAX_GROUPS group_empty, gs_next_id = 100\<rparr>"

definition GROUP_ADMIN :: u32 where "GROUP_ADMIN = 1"
definition GROUP_NETWORK :: u32 where "GROUP_NETWORK = 2"
definition GROUP_FILESYSTEM :: u32 where "GROUP_FILESYSTEM = 3"
definition GROUP_DRIVER :: u32 where "GROUP_DRIVER = 4"
definition GROUP_PROCESS :: u32 where "GROUP_PROCESS = 5"
definition GROUP_IPC :: u32 where "GROUP_IPC = 6"

text \<open>\<^verbatim>\<open>copy_from_slice\<close> into the front of an array, and grants zipped into the front of the slots.\<close>

definition copy_front :: "'a list \<Rightarrow> 'a list \<Rightarrow> 'a list" where
  "copy_front xs old = xs @ drop (length xs) old"

section \<open>The built-in groups\<close>

definition install_builtin ::
  "u32 \<Rightarrow> u8 list \<Rightarrow> cap_grant list \<Rightarrow> u32 \<Rightarrow> cap_group list \<Rightarrow> cap_group list \<times> unit kernel_result" where
  "install_builtin i name grants member_gid groups =
     (if MAX_CAPS_PER_GROUP < length grants then (groups, Err InvalidArgument)
      else if MAX_NAME_LEN < length name then (groups, Err InvalidArgument)
      else case first_index (\<lambda>g. \<not> g_active g) groups of
        None \<Rightarrow> (groups, Err OutOfMemory)
      | Some s \<Rightarrow>
          (groups[s := (groups ! s)\<lparr>g_active := True, g_builtin := True, g_id := i,
             g_name_len := length name, g_name := copy_front name (g_name (groups ! s)),
             g_cap_count := length grants,
             g_caps := copy_front (map Some grants) (g_caps (groups ! s)),
             g_members := (g_members (groups ! s))[0 := member_gid], g_member_count := 1\<rparr>], Ok ()))"

definition ascii :: "string \<Rightarrow> u8 list" where
  "ascii s = map (\<lambda>c. of_nat (of_char c)) s"

definition admin_types :: "resource_type list" where
  "admin_types =
     [Channel, Pipe, SharedMemory, EventFd, CompletionPort, Process, Thread, PortIo, DeviceIrq,
      File, Socket, Timer, IoScheduler, Service, Namespace, StreamSocket, Epoll, SignalFd,
      Timerfd, Inotify, AlsaPcm, Drm, NetRaw, NetSocket, Pty, SystemClock, PrivilegedPort,
      ResourceLimit, InputDevice, BlockDevice, Semaphore, UnixSocket, NativeSocket, CapBroker,
      PciDevice, FileTree]"

definition admin_grants :: "cap_grant list" where
  "admin_grants = map (\<lambda>ty. \<lparr>gr_type = ty, gr_rights = ALL_RIGHTS\<rparr>) admin_types"

definition rw :: rights where "rw = rights_union READ WRITE"
definition rwc :: rights where "rwc = rights_union rw CREATE"

text \<open>The six installations of \<^verbatim>\<open>init\<close>, in its order; member gid 0 is root.\<close>

definition builtin_specs :: "(u32 \<times> u8 list \<times> cap_grant list) list" where
  "builtin_specs =
     [(GROUP_ADMIN, ascii ''admin'', admin_grants),
      (GROUP_NETWORK, ascii ''network'', [\<lparr>gr_type = Socket, gr_rights = rw\<rparr>]),
      (GROUP_FILESYSTEM, ascii ''filesystem'',
         [\<lparr>gr_type = File, gr_rights = rights_union (rights_union rwc DELETE) METADATA\<rparr>]),
      (GROUP_DRIVER, ascii ''driver'',
         [\<lparr>gr_type = PortIo, gr_rights = rw\<rparr>, \<lparr>gr_type = DeviceIrq, gr_rights = rw\<rparr>]),
      (GROUP_PROCESS, ascii ''process'',
         [\<lparr>gr_type = Process, gr_rights = rwc\<rparr>, \<lparr>gr_type = Thread, gr_rights = rwc\<rparr>]),
      (GROUP_IPC, ascii ''ipc'',
         map (\<lambda>ty. \<lparr>gr_type = ty, gr_rights = rwc\<rparr>)
           [Channel, Pipe, SharedMemory, EventFd, CompletionPort])]"

fun install_all ::
  "(u32 \<times> u8 list \<times> cap_grant list) list \<Rightarrow> cap_group list \<Rightarrow> cap_group list \<times> unit kernel_result list" where
  "install_all [] groups = (groups, [])"
| "install_all ((i, name, grants) # specs) groups =
     (case install_builtin i name grants 0 groups of
        (groups, r) \<Rightarrow> (case install_all specs groups of (groups, rs) \<Rightarrow> (groups, r # rs)))"

definition groups_init :: "group_state \<Rightarrow> group_state \<times> unit kernel_result list" where
  "groups_init s =
     (case install_all builtin_specs (gs_groups s) of
        (groups, results) \<Rightarrow> (s\<lparr>gs_groups := groups\<rparr>, results))"

section \<open>Operations\<close>

text \<open>The walk every operation makes: the first active slot with the id.\<close>

definition find_group :: "u32 \<Rightarrow> cap_group list \<Rightarrow> nat option" where
  "find_group i groups = first_index (\<lambda>g. g_active g \<and> g_id g = i) groups"

definition group_create :: "u8 list \<Rightarrow> group_state \<Rightarrow> group_state \<times> u32 kernel_result" where
  "group_create name s =
     (if name = [] \<or> MAX_NAME_LEN < length name then (s, Err InvalidArgument)
      else if \<exists>g \<in> set (gs_groups s). g_active g \<and> name_str g = name then (s, Err AlreadyExists)
      else case first_index (\<lambda>g. \<not> g_active g) (gs_groups s) of
        None \<Rightarrow> (s, Err OutOfMemory)
      | Some slot \<Rightarrow>
          let i = gs_next_id s;
              g = gs_groups s ! slot;
              g = g\<lparr>g_active := True, g_builtin := False, g_id := i, g_name_len := length name,
                    g_name := copy_front name (g_name g), g_cap_count := 0, g_member_count := 0\<rparr>
          in (s\<lparr>gs_groups := (gs_groups s)[slot := g],
                gs_next_id := of_nat (sat_add32 (unat i) 1)\<rparr>, Ok i))"

definition group_remove :: "u32 \<Rightarrow> group_state \<Rightarrow> group_state \<times> unit kernel_result" where
  "group_remove i s =
     (case find_group i (gs_groups s) of
        None \<Rightarrow> (s, Err InvalidHandle)
      | Some slot \<Rightarrow>
          let g = gs_groups s ! slot
          in if g_builtin g then (s, Err PermissionDenied)
             else (s\<lparr>gs_groups := (gs_groups s)[slot := g\<lparr>g_active := False\<rparr>]\<rparr>, Ok ()))"

definition group_add_cap :: "u32 \<Rightarrow> cap_grant \<Rightarrow> group_state \<Rightarrow> group_state \<times> unit kernel_result" where
  "group_add_cap i grant s =
     (case find_group i (gs_groups s) of
        None \<Rightarrow> (s, Err InvalidHandle)
      | Some slot \<Rightarrow>
          let g = gs_groups s ! slot
          in if MAX_CAPS_PER_GROUP \<le> g_cap_count g then (s, Err OutOfMemory)
             else case first_index (\<lambda>c. c = None) (g_caps g) of
               None \<Rightarrow> (s, Err OutOfMemory)
             | Some c \<Rightarrow>
                 (s\<lparr>gs_groups := (gs_groups s)[slot := g\<lparr>g_caps := (g_caps g)[c := Some grant],
                      g_cap_count := sat_add64 (g_cap_count g) 1\<rparr>]\<rparr>, Ok ()))"

definition group_add_member :: "u32 \<Rightarrow> u32 \<Rightarrow> group_state \<Rightarrow> group_state \<times> unit kernel_result" where
  "group_add_member i gid s =
     (case find_group i (gs_groups s) of
        None \<Rightarrow> (s, Err InvalidHandle)
      | Some slot \<Rightarrow>
          let g = gs_groups s ! slot
          in if gid \<in> set (take (g_member_count g) (g_members g)) then (s, Ok ())
             else if MAX_MEMBERS_PER_GROUP \<le> g_member_count g then (s, Err OutOfMemory)
             else (s\<lparr>gs_groups := (gs_groups s)[slot :=
                       g\<lparr>g_members := (g_members g)[g_member_count g := gid],
                         g_member_count := sat_add64 (g_member_count g) 1\<rparr>]\<rparr>, Ok ()))"

definition group_remove_member :: "u32 \<Rightarrow> u32 \<Rightarrow> group_state \<Rightarrow> group_state \<times> unit kernel_result" where
  "group_remove_member i gid s =
     (case find_group i (gs_groups s) of
        None \<Rightarrow> (s, Err InvalidHandle)
      | Some slot \<Rightarrow>
          let g = gs_groups s ! slot
          in case first_index (\<lambda>m. m = gid) (take (g_member_count g) (g_members g)) of
               None \<Rightarrow> (s, Ok ())
             | Some j \<Rightarrow>
                 let last = g_member_count g - 1
                 in (s\<lparr>gs_groups := (gs_groups s)[slot :=
                         g\<lparr>g_members := (g_members g)[j := g_members g ! last],
                           g_member_count := last\<rparr>]\<rparr>, Ok ()))"

definition in_group :: "cap_group \<Rightarrow> u32 \<Rightarrow> u32 list \<Rightarrow> bool" where
  "in_group g primary_gid supplementary_gids \<longleftrightarrow>
     list_ex (\<lambda>gid. gid = primary_gid \<or> gid \<in> set supplementary_gids)
       (take (g_member_count g) (g_members g))"

definition group_grants :: "cap_group \<Rightarrow> resource_type \<Rightarrow> rights \<Rightarrow> bool" where
  "group_grants g ty required \<longleftrightarrow>
     list_ex (\<lambda>c. case c of None \<Rightarrow> False
                  | Some grant \<Rightarrow> gr_type grant = ty \<and> rights_contains (gr_rights grant) required)
       (g_caps g)"

definition groups_check_access ::
  "group_state \<Rightarrow> u32 \<Rightarrow> u32 \<Rightarrow> u32 list \<Rightarrow> resource_type \<Rightarrow> rights \<Rightarrow> bool" where
  "groups_check_access s uid primary_gid supplementary_gids ty required \<longleftrightarrow>
     uid = 0 \<or>
     list_ex (\<lambda>g. g_active g \<and> in_group g primary_gid supplementary_gids \<and> group_grants g ty required)
       (gs_groups s)"

definition group_find_by_name :: "group_state \<Rightarrow> u8 list \<Rightarrow> u32 option" where
  "group_find_by_name s name = map_option g_id (find (\<lambda>g. g_active g \<and> name_str g = name) (gs_groups s))"

definition group_is_member :: "group_state \<Rightarrow> u32 \<Rightarrow> u32 \<Rightarrow> u32 list \<Rightarrow> bool" where
  "group_is_member s i primary_gid supplementary_gids =
     (case find_group i (gs_groups s) of
        None \<Rightarrow> False
      | Some slot \<Rightarrow> in_group (gs_groups s ! slot) primary_gid supplementary_gids)"

definition group_count :: "group_state \<Rightarrow> nat" where
  "group_count s = length (filter g_active (gs_groups s))"

definition group_list :: "group_state \<Rightarrow> (u32 \<times> u8 list \<times> nat \<times> nat \<times> bool) list" where
  "group_list s =
     map (\<lambda>g. (g_id g, name_str g, g_cap_count g, g_member_count g, g_builtin g))
       (filter g_active (gs_groups s))"

section \<open>The table after boot\<close>

text \<open>What \<^verbatim>\<open>install_builtin\<close> makes of an unused slot.\<close>

definition builtin_group :: "u32 \<times> u8 list \<times> cap_grant list \<Rightarrow> cap_group" where
  "builtin_group spec =
     (case spec of (i, name, grants) \<Rightarrow>
        \<lparr>g_active = True, g_builtin = True, g_id = i,
          g_name = copy_front name (replicate (MAX_NAME_LEN + 1) 0), g_name_len = length name,
          g_caps = copy_front (map Some grants) (replicate MAX_CAPS_PER_GROUP None),
          g_cap_count = length grants,
          g_members = (replicate MAX_MEMBERS_PER_GROUP 0)[0 := 0], g_member_count = 1\<rparr>)"

lemma MAX_CAPS_eq: "MAX_CAPS_PER_GROUP = 45"
  by (simp add: MAX_CAPS_PER_GROUP_def LAST_def sat_add64_def u64_max_def)

lemma first_free:
  "\<forall>g \<in> set xs. g_active g \<Longrightarrow>
     first_index (\<lambda>g. \<not> g_active g) (xs @ group_empty # ys) = Some (length xs)"
  by (induction xs) (simp_all add: group_empty_def)

lemma install_builtin_free:
  assumes "\<forall>g \<in> set xs. g_active g" and "length grants \<le> MAX_CAPS_PER_GROUP" and "length name \<le> MAX_NAME_LEN"
  shows "install_builtin i name grants 0 (xs @ group_empty # ys)
    = (xs @ builtin_group (i, name, grants) # ys, Ok ())"
  using assms by (simp add: install_builtin_def first_free) (simp add: builtin_group_def group_empty_def)

lemma install_all_free:
  assumes "\<forall>g \<in> set xs. g_active g" and "length specs \<le> n"
    and "\<forall>(i, name, grants) \<in> set specs. length grants \<le> MAX_CAPS_PER_GROUP \<and> length name \<le> MAX_NAME_LEN"
  shows "install_all specs (xs @ replicate n group_empty)
    = (xs @ map builtin_group specs @ replicate (n - length specs) group_empty, replicate (length specs) (Ok ()))"
  using assms
proof (induction specs arbitrary: xs n)
  case Nil
  then show ?case by simp
next
  case (Cons spec specs)
  obtain i name grants where spec: "spec = (i, name, grants)" by (cases spec)
  obtain m where n: "n = Suc m" using Cons.prems by (cases n) auto
  have step: "install_builtin i name grants 0 (xs @ replicate n group_empty)
      = ((xs @ [builtin_group spec]) @ replicate m group_empty, Ok ())"
    using Cons.prems install_builtin_free [of xs grants name i "replicate m group_empty"] by (simp add: spec n)
  have "\<forall>g \<in> set (xs @ [builtin_group spec]). g_active g"
    using Cons.prems by (simp add: builtin_group_def spec)
  from Cons.IH [OF this, of m] Cons.prems step show ?case
    by (simp add: spec n)
qed

lemma specs_fit:
  "\<forall>(i, name, grants) \<in> set builtin_specs. length grants \<le> MAX_CAPS_PER_GROUP \<and> length name \<le> MAX_NAME_LEN"
  by (simp add: builtin_specs_def MAX_CAPS_eq MAX_NAME_LEN_def admin_grants_def admin_types_def ascii_def)

definition booted :: group_state where
  "booted = fst (groups_init groups_static)"

lemma groups_init_static:
  "groups_init groups_static
     = (\<lparr>gs_groups = map builtin_group builtin_specs @ replicate 26 group_empty, gs_next_id = 100\<rparr>,
        replicate 6 (Ok ()))"
proof -
  have "length builtin_specs = 6" by (simp add: builtin_specs_def)
  then show ?thesis
    using install_all_free [of "[]" builtin_specs MAX_GROUPS] specs_fit
    by (simp add: groups_init_def groups_static_def MAX_GROUPS_def)
qed

lemma booted_groups: "gs_groups booted = map builtin_group builtin_specs @ replicate 26 group_empty"
  by (simp add: booted_def groups_init_static)

lemma admin_types_all: "ty \<in> set admin_types"
  by (cases ty) (simp_all add: admin_types_def)

lemma admin_grants_all: "group_grants (builtin_group (i, name, admin_grants)) ty r"
proof -
  have "Some \<lparr>gr_type = ty, gr_rights = ALL_RIGHTS\<rparr> \<in> set (g_caps (builtin_group (i, name, admin_grants)))"
    using admin_types_all [of ty] by (auto simp: builtin_group_def copy_front_def admin_grants_def)
  moreover have "bits r \<subseteq> {..< 64}"
    by (auto simp: bits_def dest: bit_imp_le_length)
  ultimately show ?thesis
    unfolding group_grants_def list_ex_iff
    by (intro bexI [of _ "Some \<lparr>gr_type = ty, gr_rights = ALL_RIGHTS\<rparr>"]) (simp_all add: rights_bits bits_ALL)
qed

lemma builtin_group_sel:
  "g_active (builtin_group spec)" "g_builtin (builtin_group spec)" "g_id (builtin_group spec) = fst spec"
  by (cases spec, simp add: builtin_group_def)+

lemma in_builtin_group:
  "in_group (builtin_group spec) p supp \<longleftrightarrow> p = 0 \<or> 0 \<in> set supp"
  by (cases spec) (simp add: in_group_def builtin_group_def MAX_MEMBERS_PER_GROUP_def eval_nat_numeral)

text \<open>
  Every built-in group is installed at boot without error, and the table then grants exactly
  what its documentation promises: uid 0 and every member of the OS group 0 have every right over
  every resource type (the admin group really covers all of them), and nobody else has anything.
\<close>

theorem boot_groups_grant_root_only:
  "snd (groups_init groups_static) = replicate 6 (Ok ())
   \<and> (groups_check_access booted uid gid supp ty required \<longleftrightarrow> uid = 0 \<or> gid = 0 \<or> 0 \<in> set supp)"
proof -
  have inactive: "\<not> list_ex (\<lambda>g. g_active g \<and> P g) (replicate n group_empty)" for P n
    by (induction n) (simp_all add: group_empty_def)
  have "builtin_specs = (GROUP_ADMIN, ascii ''admin'', admin_grants) # tl builtin_specs"
    by (simp add: builtin_specs_def)
  then have "(GROUP_ADMIN, ascii ''admin'', admin_grants) \<in> set builtin_specs"
    by (metis list.set_intros(1))
  moreover have "g_active (builtin_group spec)" for spec
    by (cases spec) (simp add: builtin_group_def)
  ultimately have "list_ex (\<lambda>g. g_active g \<and> in_group g gid supp \<and> group_grants g ty required)
      (map builtin_group builtin_specs) \<longleftrightarrow> gid = 0 \<or> 0 \<in> set supp"
    using admin_grants_all [of GROUP_ADMIN "ascii ''admin''" ty required]
    unfolding list_ex_iff set_map by (auto simp: in_builtin_group simp del: image_eqI intro: rev_image_eqI)
  then show ?thesis
    using inactive by (simp add: groups_init_static groups_check_access_def booted_groups)
qed

section \<open>The table as a machine\<close>

datatype group_op =
    GCreate "u8 list" | GRemove u32 | GAddCap u32 cap_grant | GAddMember u32 u32 | GRemoveMember u32 u32

fun group_step :: "group_op \<Rightarrow> group_state \<Rightarrow> group_state" where
  "group_step (GCreate name) s = fst (group_create name s)"
| "group_step (GRemove i) s = fst (group_remove i s)"
| "group_step (GAddCap i c) s = fst (group_add_cap i c s)"
| "group_step (GAddMember i gid) s = fst (group_add_member i gid s)"
| "group_step (GRemoveMember i gid) s = fst (group_remove_member i gid s)"

definition grp_ok :: "cap_group \<Rightarrow> bool" where
  "grp_ok g \<longleftrightarrow> length (g_name g) = MAX_NAME_LEN + 1 \<and> g_name_len g \<le> MAX_NAME_LEN
     \<and> length (g_caps g) = MAX_CAPS_PER_GROUP
     \<and> length (g_members g) = MAX_MEMBERS_PER_GROUP \<and> g_member_count g \<le> MAX_MEMBERS_PER_GROUP
     \<and> distinct (take (g_member_count g) (g_members g))"

definition groups_ok :: "group_state \<Rightarrow> bool" where
  "groups_ok s \<longleftrightarrow> length (gs_groups s) = MAX_GROUPS \<and> (\<forall>g \<in> set (gs_groups s). grp_ok g)"

lemma groups_ok_update:
  "groups_ok s \<Longrightarrow> grp_ok g \<Longrightarrow> groups_ok (s\<lparr>gs_groups := (gs_groups s)[i := g]\<rparr>)"
  using set_update_subset_insert [of "gs_groups s" i g] by (auto simp: groups_ok_def)

lemma groups_ok_nth: "groups_ok s \<Longrightarrow> i < length (gs_groups s) \<Longrightarrow> grp_ok (gs_groups s ! i)"
  by (simp add: groups_ok_def)

lemma find_group_SomeD:
  assumes "find_group i gs = Some slot"
  shows "slot < length gs" and "g_active (gs ! slot)" and "g_id (gs ! slot) = i"
  using first_index_Some [OF assms [unfolded find_group_def]] by auto

text \<open>Every operation leaves the table as it is or replaces one slot, and keeps what is built in.\<close>

definition keeps_builtin :: "cap_group \<Rightarrow> cap_group \<Rightarrow> bool" where
  "keeps_builtin g g' \<longleftrightarrow> g_active g' \<and> g_builtin g' \<and> g_id g' = g_id g \<and> name_str g' = name_str g
     \<and> (\<forall>c. Some c \<in> set (g_caps g) \<longrightarrow> Some c \<in> set (g_caps g'))"

lemma keeps_builtin_refl: "g_active g \<Longrightarrow> g_builtin g \<Longrightarrow> keeps_builtin g g"
  by (simp add: keeps_builtin_def)

lemma keeps_builtin_trans: "keeps_builtin g h \<Longrightarrow> keeps_builtin h k \<Longrightarrow> keeps_builtin g k"
  by (simp add: keeps_builtin_def)

definition slot_change :: "group_state \<Rightarrow> group_state \<Rightarrow> bool" where
  "slot_change s s' \<longleftrightarrow> gs_groups s' = gs_groups s \<or>
     (\<exists>i g. i < length (gs_groups s) \<and> gs_groups s' = (gs_groups s)[i := g] \<and> grp_ok g
        \<and> (g_active (gs_groups s ! i) \<and> g_builtin (gs_groups s ! i) \<longrightarrow> keeps_builtin (gs_groups s ! i) g))"

lemma slot_change_same [simp]: "slot_change s s"
  by (simp add: slot_change_def)

lemma slot_changeI:
  assumes "i < length (gs_groups s)" and "grp_ok g"
    and "g_active (gs_groups s ! i) \<and> g_builtin (gs_groups s ! i) \<longrightarrow> keeps_builtin (gs_groups s ! i) g"
  shows "slot_change s (s\<lparr>gs_groups := (gs_groups s)[i := g]\<rparr>)"
    and "slot_change s (s\<lparr>gs_groups := (gs_groups s)[i := g], gs_next_id := n\<rparr>)"
  using assms by (auto simp: slot_change_def)

lemma create_change:
  assumes "groups_ok s"
  shows "slot_change s (fst (group_create name s))"
proof (cases "first_index (\<lambda>g. \<not> g_active g) (gs_groups s)")
  case None
  then show ?thesis by (simp add: group_create_def del: first_index_None)
next
  case (Some i)
  note i = first_index_Some [OF Some]
  with groups_ok_nth [OF assms, of i] Some show ?thesis
    by (auto simp: group_create_def Let_def grp_ok_def copy_front_def intro!: slot_changeI)
qed

lemma remove_change:
  assumes "groups_ok s"
  shows "slot_change s (fst (group_remove i s))"
proof (cases "find_group i (gs_groups s)")
  case None
  then show ?thesis by (simp add: group_remove_def)
next
  case (Some k)
  with find_group_SomeD [OF Some] groups_ok_nth [OF assms, of k] show ?thesis
    by (auto simp: group_remove_def Let_def grp_ok_def intro!: slot_changeI)
qed

lemma add_cap_change:
  assumes "groups_ok s"
  shows "slot_change s (fst (group_add_cap i c s))"
proof (cases "find_group i (gs_groups s)")
  case None
  then show ?thesis by (simp add: group_add_cap_def)
next
  case (Some k)
  let ?g = "gs_groups s ! k"
  note k = find_group_SomeD [OF Some] and ok = groups_ok_nth [OF assms, of k]
  show ?thesis
  proof (cases "first_index (\<lambda>c. c = None) (g_caps ?g)")
    case None
    with Some show ?thesis by (simp add: group_add_cap_def Let_def del: first_index_None)
  next
    case free: (Some j)
    have "Some d \<in> set ((g_caps ?g)[j := Some c])" if "Some d \<in> set (g_caps ?g)" for d
    proof -
      from that obtain m where "m < length (g_caps ?g)" "g_caps ?g ! m = Some d"
        by (auto simp: in_set_conv_nth)
      then show ?thesis
        using first_index_Some [OF free] by (cases "m = j") (auto simp: in_set_conv_nth intro!: exI [of _ m])
    qed
    with Some free k ok show ?thesis
      by (auto simp: group_add_cap_def Let_def grp_ok_def keeps_builtin_def name_str_def intro!: slot_changeI)
  qed
qed

lemma add_member_change:
  assumes "groups_ok s"
  shows "slot_change s (fst (group_add_member i gid s))"
proof (cases "find_group i (gs_groups s)")
  case None
  then show ?thesis by (simp add: group_add_member_def)
next
  case (Some k)
  with find_group_SomeD [OF Some] groups_ok_nth [OF assms, of k] show ?thesis
    by (auto simp: group_add_member_def Let_def grp_ok_def keeps_builtin_def name_str_def sat_add64_def
        take_Suc_conv_app_nth MAX_MEMBERS_PER_GROUP_def u64_max_def intro!: slot_changeI)
qed

text \<open>Removing by swapping the last member in.\<close>

lemma swap_remove:
  assumes "distinct (take n xs)" and "n \<le> length xs"
    and "first_index (\<lambda>m. m = x) (take n xs) = Some j"
  shows "set (take (n - 1) (xs[j := xs ! (n - 1)])) = set (take n xs) - {x}"
    and "distinct (take (n - 1) (xs[j := xs ! (n - 1)]))"
proof -
  from first_index_Some [OF assms(3)] have j: "j < n" "xs ! j = x" using assms(2) by auto
  then obtain m where n: "n = Suc m" by (cases n) auto
  define ys where "ys = take m xs"
  have xs: "take n xs = ys @ [xs ! m]" "length ys = m"
    using assms(2) by (simp_all add: n ys_def take_Suc_conv_app_nth)
  have upd: "take (n - 1) (xs[j := xs ! (n - 1)]) = ys[j := xs ! m]"
    by (simp add: n ys_def take_update_swap)
  have dist: "distinct ys" "xs ! m \<notin> set ys" using assms(1) by (simp_all add: xs(1))
  show "distinct (take (n - 1) (xs[j := xs ! (n - 1)]))"
    unfolding upd using dist by (simp add: distinct_list_update)
  show "set (take (n - 1) (xs[j := xs ! (n - 1)])) = set (take n xs) - {x}"
  proof (cases "j = m")
    case True
    with dist j xs(2) have "ys[j := xs ! m] = ys" by (simp add: list_update_beyond)
    with dist j True show ?thesis unfolding upd xs by simp
  next
    case False
    with j n xs(2) have "j < length ys" by simp
    moreover from this have jm: "ys ! j = x" using j by (simp add: ys_def)
    ultimately have jm: "j < length ys" "ys ! j = x" by simp_all
    with dist set_update_distinct [OF dist(1) jm(1), of "xs ! m"] show ?thesis
      unfolding upd xs(1) by auto
  qed
qed

lemma remove_member_change:
  assumes "groups_ok s"
  shows "slot_change s (fst (group_remove_member i gid s))"
proof (cases "find_group i (gs_groups s)")
  case None
  then show ?thesis by (simp add: group_remove_member_def)
next
  case (Some k)
  let ?g = "gs_groups s ! k"
  note k = find_group_SomeD [OF Some]
  then have ok: "grp_ok ?g" by (intro groups_ok_nth [OF assms])
  show ?thesis
  proof (cases "first_index (\<lambda>m. m = gid) (take (g_member_count ?g) (g_members ?g))")
    case None
    with Some show ?thesis by (simp add: group_remove_member_def Let_def del: first_index_None)
  next
    case idx: (Some j)
    from ok have "distinct (take (g_member_count ?g - 1) ((g_members ?g)[j := g_members ?g ! (g_member_count ?g - 1)]))"
      by (intro swap_remove(2) [OF _ _ idx]) (simp_all add: grp_ok_def)
    with Some idx k ok show ?thesis
      by (auto simp: group_remove_member_def Let_def grp_ok_def keeps_builtin_def name_str_def intro!: slot_changeI)
  qed
qed

lemma step_change: "groups_ok s \<Longrightarrow> slot_change s (group_step op s)"
  by (cases op)
    (simp_all add: create_change remove_change add_cap_change add_member_change remove_member_change)

lemma slot_change_ok:
  assumes "groups_ok s" and "slot_change s s'"
  shows "groups_ok s'"
  using assms set_update_subset_insert [of "gs_groups s"]
  by (fastforce simp: groups_ok_def slot_change_def)

interpretation groups: machine group_step groups_ok
  by unfold_locales (rule slot_change_ok [OF _ step_change])

lemma slot_change_keeps:
  assumes "slot_change s s'" and "i < length (gs_groups s)"
    and "keeps_builtin g (gs_groups s ! i)"
  shows "keeps_builtin g (gs_groups s' ! i)"
  using assms keeps_builtin_trans [of g "gs_groups s ! i"]
  by (auto simp: slot_change_def keeps_builtin_def nth_list_update)

lemma booted_ok: "groups_ok booted"
proof -
  have "grp_ok (builtin_group spec)" if "spec \<in> set builtin_specs" for spec
  proof -
    obtain i name grants where spec: "spec = (i, name, grants)" by (cases spec)
    with specs_fit that have "length grants \<le> MAX_CAPS_PER_GROUP" "length name \<le> MAX_NAME_LEN" by auto
    then show ?thesis
      by (simp add: grp_ok_def builtin_group_def spec copy_front_def MAX_MEMBERS_PER_GROUP_def eval_nat_numeral)
  qed
  moreover have "grp_ok group_empty" by (simp add: grp_ok_def group_empty_def)
  moreover have "length builtin_specs = 6" by (simp add: builtin_specs_def)
  ultimately show ?thesis
    unfolding groups_ok_def booted_groups by (auto simp: MAX_GROUPS_def)
qed

text \<open>
  Built-in groups are permanent. Whatever groups, grants and members are created, added and
  removed after boot, every built-in group stays in its slot, active, with its id and its name,
  and still holds every grant it was installed with.
\<close>

theorem builtin_groups_permanent:
  assumes "i < 6"
  shows "keeps_builtin (builtin_group (builtin_specs ! i)) (gs_groups (fold group_step ops booted) ! i)"
proof -
  have six: "length builtin_specs = 6" by (simp add: builtin_specs_def)
  have "gs_groups booted ! i = builtin_group (builtin_specs ! i)"
    using assms by (simp add: booted_groups nth_append six)
  moreover have "g_active (builtin_group spec) \<and> g_builtin (builtin_group spec)" for spec
    by (cases spec) (simp add: builtin_group_def)
  ultimately have "keeps_builtin (builtin_group (builtin_specs ! i)) (gs_groups booted ! i)"
    by (simp add: keeps_builtin_refl)
  then show ?thesis
    using groups.stable_run [OF booted_ok, of "\<lambda>t. keeps_builtin (builtin_group (builtin_specs ! i)) (gs_groups t ! i)" ops]
      slot_change_keeps [OF step_change] assms
    by (simp add: groups_ok_def MAX_GROUPS_def)
qed

theorem builtin_groups_permanent_witness:
  "keeps_builtin (builtin_group (builtin_specs ! 0))
     (gs_groups (fold group_step [GRemove GROUP_ADMIN, GCreate (ascii ''admin''), GRemoveMember 1 0] booted) ! 0)"
  by (rule builtin_groups_permanent) simp

section \<open>Membership\<close>

text \<open>The gids of the group an id names.\<close>

definition member_gids :: "group_state \<Rightarrow> u32 \<Rightarrow> u32 set" where
  "member_gids s i =
     (case find_group i (gs_groups s) of
        None \<Rightarrow> {}
      | Some slot \<Rightarrow> set (take (g_member_count (gs_groups s ! slot)) (g_members (gs_groups s ! slot))))"

lemma is_member_gids: "group_is_member s i p supp \<longleftrightarrow> member_gids s i \<inter> insert p (set supp) \<noteq> {}"
  by (auto simp: group_is_member_def member_gids_def in_group_def list_ex_iff split: option.splits)

lemma find_group_update:
  assumes "find_group i gs = Some slot" and "g_active g" and "g_id g = i"
  shows "find_group j (gs[slot := g]) = find_group j gs"
proof -
  note slot = find_group_SomeD [OF assms(1)]
  have "(\<lambda>g. g_active g \<and> g_id g = j) (gs ! slot) = (\<lambda>g. g_active g \<and> g_id g = j) g"
    using slot assms by simp
  then have "first_index P (gs[slot := g]) = first_index P gs" if "P (gs ! slot) = P g" for P
    using that slot(1)
  proof (induction gs arbitrary: slot)
    case (Cons x xs)
    then show ?case by (cases slot) simp_all
  qed simp
  then show ?thesis
    using slot assms by (simp add: find_group_def)
qed

text \<open>
  Membership is a set: adding a gid to a group succeeds exactly when it leaves the group with
  that gid as a member, removing one leaves exactly the others, whatever the order the array ends
  up in, and no operation on one group changes who is in another.
\<close>

theorem membership_is_a_set:
  assumes ok: "groups_ok s" and found: "find_group i (gs_groups s) = Some slot"
  shows "member_gids (fst (group_remove_member i gid s)) i = member_gids s i - {gid}
    \<and> (snd (group_add_member i gid s) = Ok () \<longrightarrow>
         member_gids (fst (group_add_member i gid s)) i = insert gid (member_gids s i))
    \<and> (snd (group_add_member i gid s) \<noteq> Ok () \<longrightarrow>
         fst (group_add_member i gid s) = s \<and> card (member_gids s i) = MAX_MEMBERS_PER_GROUP)
    \<and> (\<forall>j. j \<noteq> i \<longrightarrow> member_gids (fst (group_remove_member i gid s)) j = member_gids s j
          \<and> member_gids (fst (group_add_member i gid s)) j = member_gids s j)"
proof -
  let ?g = "gs_groups s ! slot" and ?n = "g_member_count (gs_groups s ! slot)"
  note slot = find_group_SomeD [OF found]
  have g: "grp_ok ?g" by (rule groups_ok_nth [OF ok slot(1)])
  have len: "?n \<le> length (g_members ?g)" and dist: "distinct (take ?n (g_members ?g))"
    using g by (simp_all add: grp_ok_def)
  have upd: "member_gids (s\<lparr>gs_groups := (gs_groups s)[slot := h]\<rparr>) j
      = (if j = i then set (take (g_member_count h) (g_members h)) else member_gids s j)"
    if "g_active h" "g_id h = i" for h j
  proof (cases "find_group j (gs_groups s)")
    case None
    then show ?thesis using found by (auto simp: member_gids_def find_group_update [OF found that])
  next
    case (Some k)
    then have "j = g_id (gs_groups s ! k)" using find_group_SomeD(3) by metis
    have k: "find_group j ((gs_groups s)[slot := h]) = Some k"
      using Some by (simp add: find_group_update [OF found that])
    show ?thesis
    proof (cases "j = i")
      case True
      then have "k = slot" using Some found by simp
      then show ?thesis using k slot(1) True by (simp add: member_gids_def)
    next
      case False
      then have "k \<noteq> slot" using \<open>j = g_id (gs_groups s ! k)\<close> slot(3) by auto
      then show ?thesis using k Some False by (simp add: member_gids_def)
    qed
  qed
  have here: "member_gids s i = set (take ?n (g_members ?g))"
    by (simp add: member_gids_def found)
  have remove: "member_gids (fst (group_remove_member i gid s)) j
      = (if j = i then member_gids s i - {gid} else member_gids s j)" for j
  proof (cases "first_index (\<lambda>m. m = gid) (take ?n (g_members ?g))")
    case None
    then have "gid \<notin> member_gids s i" by (auto simp: here)
    with None show ?thesis
      by (simp add: group_remove_member_def found Let_def del: first_index_None)
  next
    case (Some k)
    then show ?thesis
      using swap_remove(1) [OF dist len Some] slot
      by (simp add: group_remove_member_def found Let_def upd here)
  qed
  have add: "member_gids (fst (group_add_member i gid s)) j
      = (if j = i \<and> snd (group_add_member i gid s) = Ok () then insert gid (member_gids s i)
         else member_gids s j)" for j
  proof (cases "gid \<in> set (take ?n (g_members ?g)) \<or> MAX_MEMBERS_PER_GROUP \<le> ?n")
    case True
    then show ?thesis by (auto simp: group_add_member_def found Let_def here)
  next
    case False
    then have room: "?n < length (g_members ?g)" "sat_add64 ?n 1 = Suc ?n"
      using g by (simp_all add: grp_ok_def sat_add64_def u64_max_def MAX_MEMBERS_PER_GROUP_def)
    let ?h = "?g\<lparr>g_members := (g_members ?g)[?n := gid], g_member_count := Suc ?n\<rparr>"
    have run: "group_add_member i gid s = (s\<lparr>gs_groups := (gs_groups s)[slot := ?h]\<rparr>, Ok ())"
      using False by (simp add: group_add_member_def found Let_def room [simplified])
    have "set (take (Suc ?n) ((g_members ?g)[?n := gid])) = insert gid (member_gids s i)"
      using room by (simp add: here take_Suc_conv_app_nth)
    then show ?thesis
      using slot by (simp add: run upd)
  qed
  have full: "fst (group_add_member i gid s) = s \<and> card (member_gids s i) = MAX_MEMBERS_PER_GROUP"
    if "snd (group_add_member i gid s) \<noteq> Ok ()"
    using that g dist
    by (auto simp: group_add_member_def found Let_def here grp_ok_def distinct_card split: if_splits)
  show ?thesis using remove add full by simp
qed

theorem membership_is_a_set_witness:
  "member_gids (fst (group_remove_member GROUP_ADMIN 0 booted)) GROUP_ADMIN = member_gids booted GROUP_ADMIN - {0}"
proof -
  obtain specs where specs: "builtin_specs = (GROUP_ADMIN, ascii ''admin'', admin_grants) # specs"
    unfolding builtin_specs_def by blast
  have hit: "first_index P (map builtin_group (x # xs) @ zs) = Some 0" if "P (builtin_group x)" for P x xs zs
    using that by simp
  have "find_group GROUP_ADMIN (gs_groups booted) = Some 0"
    unfolding booted_groups specs find_group_def
    by (rule hit) (simp only: builtin_group_sel fst_conv simp_thms)
  from membership_is_a_set [OF booted_ok this] show ?thesis by (rule conjunct1)
qed

section \<open>What a reused slot carries over\<close>

text \<open>
  C39: Creating a group in the slot of a removed one clears the counts and not the grant slots,
  and access is decided by the slots: a member of the new group, which reports no grants, holds
  every grant of the removed group. (The creating code never means to grant anything.)
\<close>

theorem reused_slot_keeps_grants:
  assumes found: "find_group i (gs_groups s) = Some slot" and custom: "\<not> g_builtin (gs_groups s ! slot)"
    and full: "\<forall>k < slot. g_active (gs_groups s ! k)"
    and grants: "group_grants (gs_groups s ! slot) ty required"
    and name: "name \<noteq> []" "length name \<le> MAX_NAME_LEN"
      "\<forall>g \<in> set (gs_groups s). g_active g \<longrightarrow> name_str g \<noteq> name"
  defines "s1 \<equiv> fst (group_remove i s)"
  shows "\<exists>s2. group_create name s1 = (s2, Ok (gs_next_id s)) \<and> g_cap_count (gs_groups s2 ! slot) = 0
     \<and> g_id (gs_groups s2 ! slot) = gs_next_id s \<and> group_grants (gs_groups s2 ! slot) ty required"
proof -
  note slot = find_group_SomeD [OF found]
  let ?gs = "(gs_groups s)[slot := (gs_groups s ! slot)\<lparr>g_active := False\<rparr>]"
  have s1: "gs_groups s1 = ?gs" "gs_next_id s1 = gs_next_id s"
    using found custom by (simp_all add: s1_def group_remove_def Let_def)
  have free: "first_index (\<lambda>g. \<not> g_active g) ?gs = Some slot"
  proof -
    obtain k where k: "first_index (\<lambda>g. \<not> g_active g) ?gs = Some k"
      by (rule first_index_SomeI [of "(gs_groups s ! slot)\<lparr>g_active := False\<rparr>" ?gs "\<lambda>g. \<not> g_active g"])
        (simp_all add: set_update_memI [OF slot(1)])
    have "\<not> k < slot" "\<not> slot < k"
      using first_index_Some [OF k] full slot by auto
    with k show ?thesis by simp
  qed
  have "\<not> (\<exists>g \<in> set ?gs. g_active g \<and> name_str g = name)"
    using name(3) set_update_subset_insert [of "gs_groups s" slot] by fastforce
  with free name slot grants show ?thesis
    by (auto simp: group_create_def s1 Let_def group_grants_def)
qed

definition custom_state :: group_state where
  "custom_state =
     \<lparr>gs_groups = [group_empty\<lparr>g_active := True, g_id := 100, g_name := copy_front (ascii ''ops'') (replicate 32 0),
        g_name_len := 3, g_caps := (replicate MAX_CAPS_PER_GROUP None)[0 := Some \<lparr>gr_type = PortIo, gr_rights = rw\<rparr>],
        g_cap_count := 1\<rparr>], gs_next_id = 101\<rparr>"

lemma custom_slots:
  "(replicate MAX_CAPS_PER_GROUP None)[0 := Some c] = Some c # replicate 44 None"
proof -
  have m: "MAX_CAPS_PER_GROUP = Suc 44" by (simp add: MAX_CAPS_eq)
  show ?thesis unfolding m replicate_Suc by simp
qed

theorem reused_slot_keeps_grants_witness:
  "\<exists>s2. group_create (ascii ''guests'') (fst (group_remove 100 custom_state)) = (s2, Ok 101)
     \<and> g_cap_count (gs_groups s2 ! 0) = 0 \<and> group_grants (gs_groups s2 ! 0) PortIo READ"
proof -
  have pre: "find_group 100 (gs_groups custom_state) = Some 0"
    "\<not> g_builtin (gs_groups custom_state ! 0)" "\<forall>k < 0. g_active (gs_groups custom_state ! k)"
    by (simp_all add: custom_state_def find_group_def group_empty_def)
  have grants: "group_grants (gs_groups custom_state ! 0) PortIo READ"
    by (simp add: custom_state_def group_grants_def custom_slots rw_def rights_bits bits_union)
  have name: "ascii ''guests'' \<noteq> []" "length (ascii ''guests'') \<le> MAX_NAME_LEN"
    by (simp_all add: ascii_def MAX_NAME_LEN_def)
  have "length (name_str g) = 3" if "g \<in> set (gs_groups custom_state)" for g
    using that by (simp add: custom_state_def ascii_def name_str_def copy_front_def)
  then have fresh: "\<forall>g \<in> set (gs_groups custom_state). g_active g \<longrightarrow> name_str g \<noteq> ascii ''guests''"
    by (force simp: ascii_def)
  have "gs_next_id custom_state = 101" by (simp add: custom_state_def)
  with reused_slot_keeps_grants [OF pre grants name fresh] show ?thesis by auto
qed

end
