(* ===== verification/Waiters.thy ===== *)
theory Waiters imports Prelude begin

text \<open>
  What the blocking IPC objects share (\<^verbatim>\<open>kernel/src/ipc/waiters.rs\<close>): the set of parked tasks of one
  end, how long a call may wait, and the deadline of a timed wait. The clock, the current task and
  whether a deliverable signal is pending are inputs of the step that reads them; the timer that
  wakes a task at its deadline is the scheduler's, and is seen here as the task running again.
\<close>

type_synonym task_id = u64
type_synonym waiter_set = "task_id list"

definition ws_new :: waiter_set where "ws_new = []"

definition ws_insert :: "task_id \<Rightarrow> waiter_set \<Rightarrow> waiter_set" where
  "ws_insert t w = (if t \<in> set w then w else w @ [t])"

definition ws_remove :: "task_id \<Rightarrow> waiter_set \<Rightarrow> waiter_set" where
  "ws_remove t w = filter (\<lambda>u. u \<noteq> t) w"

text \<open>\<^verbatim>\<open>take_all\<close>: the tasks to wake, and the set left empty.\<close>

definition ws_take_all :: "waiter_set \<Rightarrow> task_id list \<times> waiter_set" where
  "ws_take_all w = (w, [])"

definition ws_count :: "waiter_set \<Rightarrow> nat" where "ws_count w = length w"

datatype patience = Never | Forever | Upto nat

type_synonym deadline = "nat option"

text \<open>\<^verbatim>\<open>Deadline::ends_now\<close>: the deadline afterwards, and how the wait ends if it ends now.\<close>

definition ends_now :: "nat \<Rightarrow> patience \<Rightarrow> deadline \<Rightarrow> deadline \<times> kernel_error option" where
  "ends_now now patience armed =
     (case patience of
        Never \<Rightarrow> (armed, Some WouldBlock)
      | Forever \<Rightarrow> (armed, None)
      | Upto ns \<Rightarrow>
          (if ns = 0 then (armed, Some TimedOut)
           else case armed of
             None \<Rightarrow> (Some (sat_add64 now ns), None)
           | Some at \<Rightarrow> (armed, if at \<le> now then Some TimedOut else None)))"

text \<open>How one turn of a blocking call's loop ends: with its answer, to go round again, or parked.\<close>

datatype 'r turn = Finished 'r | Again | Parked

lemma set_ws_insert [simp]: "set (ws_insert t w) = insert t (set w)"
  by (auto simp: ws_insert_def)

lemma set_ws_remove [simp]: "set (ws_remove t w) = set w - {t}"
  by (auto simp: ws_remove_def)

lemma distinct_ws [simp]:
  "distinct w \<Longrightarrow> distinct (ws_insert t w)" "distinct w \<Longrightarrow> distinct (ws_remove t w)"
  by (simp_all add: ws_insert_def ws_remove_def)

lemma ws_new_simps [simp]: "ws_new = []" "ws_take_all w = (w, [])"
  by (simp_all add: ws_new_def ws_take_all_def)

lemma ends_now_never [simp]: "ends_now now Never dl = (dl, Some WouldBlock)"
  by (simp add: ends_now_def)

lemma ends_now_forever [simp]: "ends_now now Forever dl = (dl, None)"
  by (simp add: ends_now_def)

text \<open>Asked again from its deadline on, a timed wait is told the time is out.\<close>

lemma ends_now_expires:
  "sat_add64 now ns \<le> later \<Longrightarrow>
     snd (ends_now later (Upto ns) (fst (ends_now now (Upto ns) None))) = Some TimedOut"
  by (simp add: ends_now_def)

end
