(* ===== verification/Pipe.thy ===== *)
theory Pipe imports Waiters OrdMap "HOL-Library.Sublist" begin

text \<open>
  Pipes (\<^verbatim>\<open>kernel/src/ipc/pipe.rs\<close>): the handle's encoding, the ring buffer, reading and writing with
  their waits, reference counts and closing, resizing, polling, and named pipes' opens. A blocking
  call is a loop that takes the table's lock once per turn; one turn is one definition here, which
  yields whether the call has finished, goes round again or has parked, so that an execution is any
  interleaving of turns of any calls. Statistics and trace records are not modelled.
\<close>

section \<open>Handles\<close>

type_synonym pipe_handle = u64

datatype pipe_end = ReadEnd | WriteEnd | BothEnds

definition ID_BITS :: nat where "ID_BITS = 40"
definition SEEN_SHIFT :: nat where "SEEN_SHIFT = 41"
definition SEEN_BITS :: nat where "SEEN_BITS = 20"
definition BOTH_BIT :: u64 where "BOTH_BIT = push_bit 61 1"
definition SEEN_FLAG :: u64 where "SEEN_FLAG = push_bit 62 1"

definition handle_new :: "u64 \<Rightarrow> pipe_end \<Rightarrow> pipe_handle" where
  "handle_new pipe_id e =
     (let i = push_bit 1 (pipe_id AND (push_bit ID_BITS 1 - 1))
      in case e of ReadEnd \<Rightarrow> i | WriteEnd \<Rightarrow> i OR 1 | BothEnds \<Rightarrow> i OR BOTH_BIT)"

definition with_seen :: "pipe_handle \<Rightarrow> u32 \<Rightarrow> pipe_handle" where
  "with_seen h writers =
     (let seen = ucast writers AND (push_bit SEEN_BITS 1 - 1)
      in h OR SEEN_FLAG OR push_bit SEEN_SHIFT seen)"

definition seen_writers :: "pipe_handle \<Rightarrow> u32 option" where
  "seen_writers h =
     (if h AND SEEN_FLAG \<noteq> 0 then Some (ucast (drop_bit SEEN_SHIFT h AND (push_bit SEEN_BITS 1 - 1)))
      else None)"

definition handle_pipe_id :: "pipe_handle \<Rightarrow> u64" where
  "handle_pipe_id h = drop_bit 1 h AND (push_bit ID_BITS 1 - 1)"

definition handle_end :: "pipe_handle \<Rightarrow> pipe_end" where
  "handle_end h =
     (if h AND BOTH_BIT \<noteq> 0 then BothEnds else if h AND 1 = 0 then ReadEnd else WriteEnd)"

definition handle_reads :: "pipe_handle \<Rightarrow> bool" where
  "handle_reads h \<longleftrightarrow> handle_end h = ReadEnd \<or> handle_end h = BothEnds"

definition handle_writes :: "pipe_handle \<Rightarrow> bool" where
  "handle_writes h \<longleftrightarrow> handle_end h = WriteEnd \<or> handle_end h = BothEnds"

section \<open>The ring\<close>

definition PIPE_BUF :: nat where "PIPE_BUF = 4096"
definition DEFAULT_BUFFER_CAPACITY :: nat where "DEFAULT_BUFFER_CAPACITY = 64 * 1024"
definition MIN_PIPE_BUFFER_CAPACITY :: nat where "MIN_PIPE_BUFFER_CAPACITY = 4096"
definition MAX_PIPE_BUFFER_CAPACITY :: nat where "MAX_PIPE_BUFFER_CAPACITY = 1024 * 1024"

text \<open>A named pipe's tie to its node; \<open>fl_hold\<close> names the object the \<^verbatim>\<open>Arc\<close> points to.\<close>

record fifo_link =
  fl_id :: "u64 \<times> u64"
  fl_hold :: u64
  fl_path :: string
  fl_r_counter :: u32
  fl_w_counter :: u32
  fl_open_waiters :: waiter_set

record pipe =
  pp_buf :: "u8 list"
  pp_head :: nat
  pp_len :: nat
  pp_read_closed :: bool
  pp_write_closed :: bool
  pp_readers :: waiter_set
  pp_writers :: waiter_set
  pp_reader_refcount :: u32
  pp_writer_refcount :: u32
  pp_fifo :: "fifo_link option"

definition pipe_new :: "nat \<Rightarrow> pipe" where
  "pipe_new capacity = \<lparr>pp_buf = replicate capacity 0, pp_head = 0, pp_len = 0, pp_read_closed = False,
     pp_write_closed = False, pp_readers = ws_new, pp_writers = ws_new, pp_reader_refcount = 1,
     pp_writer_refcount = 1, pp_fifo = None\<rparr>"

definition eof_for :: "pipe \<Rightarrow> pipe_handle \<Rightarrow> bool" where
  "eof_for p h \<longleftrightarrow> pp_write_closed p \<and>
     (case (seen_writers h, pp_fifo p) of
        (Some seen, Some link) \<Rightarrow> fl_w_counter link AND (push_bit SEEN_BITS 1 - 1) \<noteq> seen
      | _ \<Rightarrow> True)"

definition pipe_readable :: "pipe \<Rightarrow> nat" where "pipe_readable p = pp_len p"

definition pipe_writable :: "pipe \<Rightarrow> nat" where "pipe_writable p = length (pp_buf p) - pp_len p"

text \<open>\<^verbatim>\<open>buf[pos..pos + xs.len()].copy_from_slice(xs)\<close> and \<^verbatim>\<open>buf[pos..pos + n]\<close>.\<close>

definition copy_at :: "nat \<Rightarrow> 'a list \<Rightarrow> 'a list \<Rightarrow> 'a list" where
  "copy_at pos xs buf = take pos buf @ xs @ drop (pos + length xs) buf"

definition piece :: "nat \<Rightarrow> nat \<Rightarrow> 'a list \<Rightarrow> 'a list" where
  "piece pos n buf = take n (drop pos buf)"

definition write_bytes :: "u8 list \<Rightarrow> pipe \<Rightarrow> pipe \<times> nat" where
  "write_bytes data p =
     (let avail = pipe_writable p; to_write = min (length data) avail
      in if to_write = 0 then (p, 0)
         else
           let cap = length (pp_buf p);
               write_pos = (pp_head p + pp_len p) mod cap;
               first = min to_write (cap - write_pos);
               buf = copy_at write_pos (take first data) (pp_buf p);
               second = to_write - first;
               buf = (if 0 < second then copy_at 0 (piece first second data) buf else buf)
           in (p\<lparr>pp_buf := buf, pp_len := pp_len p + to_write\<rparr>, to_write))"

text \<open>The bytes copied out into a buffer of length \<open>n\<close>.\<close>

definition read_bytes :: "nat \<Rightarrow> pipe \<Rightarrow> pipe \<times> u8 list" where
  "read_bytes n p =
     (let to_read = min n (pp_len p)
      in if to_read = 0 then (p, [])
         else
           let cap = length (pp_buf p);
               first = min to_read (cap - pp_head p);
               second = to_read - first;
               out = piece (pp_head p) first (pp_buf p) @ (if 0 < second then piece 0 second (pp_buf p) else [])
           in (p\<lparr>pp_head := (pp_head p + to_read) mod cap, pp_len := pp_len p - to_read\<rparr>, out))"

definition peek_bytes_at :: "nat \<Rightarrow> nat \<Rightarrow> pipe \<Rightarrow> u8 list" where
  "peek_bytes_at offset n p =
     (if pp_len p \<le> offset then []
      else
        let avail = pp_len p - offset; to_read = min n avail
        in if to_read = 0 then []
           else
             let cap = length (pp_buf p);
                 start = (pp_head p + offset) mod cap;
                 first = min to_read (cap - start);
                 second = to_read - first
             in piece start first (pp_buf p) @ (if 0 < second then piece 0 second (pp_buf p) else []))"

section \<open>The ring is a queue\<close>

definition ring_ok :: "pipe \<Rightarrow> bool" where
  "ring_ok p \<longleftrightarrow> pp_len p \<le> length (pp_buf p) \<and> (pp_head p < length (pp_buf p) \<or> pp_head p = 0)"

definition contents :: "pipe \<Rightarrow> u8 list" where
  "contents p = map (\<lambda>i. pp_buf p ! ((pp_head p + i) mod length (pp_buf p))) [0 ..< pp_len p]"

lemma length_contents [simp]: "length (contents p) = pp_len p"
  by (simp add: contents_def)

lemma contents_empty [simp]: "contents p = [] \<longleftrightarrow> pp_len p = 0"
  by (simp add: contents_def)

lemma contents_nth: "i < pp_len p \<Longrightarrow> contents p ! i = pp_buf p ! ((pp_head p + i) mod length (pp_buf p))"
  by (simp add: contents_def)

lemma length_copy_at [simp]: "pos + length xs \<le> length buf \<Longrightarrow> length (copy_at pos xs buf) = length buf"
  by (simp add: copy_at_def)

lemma nth_copy_at:
  "pos + length xs \<le> length buf \<Longrightarrow>
     copy_at pos xs buf ! i = (if pos \<le> i \<and> i < pos + length xs then xs ! (i - pos) else buf ! i)"
  by (auto simp: copy_at_def nth_append not_less)

lemma length_piece [simp]: "pos + n \<le> length buf \<Longrightarrow> length (piece pos n buf) = n"
  by (simp add: piece_def)

lemma nth_piece: "pos + n \<le> length buf \<Longrightarrow> i < n \<Longrightarrow> piece pos n buf ! i = buf ! (pos + i)"
  by (simp add: piece_def)

lemma wrap: "h < c \<Longrightarrow> x \<le> c \<Longrightarrow> (h + x) mod c = (if h + x < c then h + x else h + x - (c :: nat))"
  by (simp add: mod_if)

text \<open>A run of the ring, read in at most two pieces.\<close>

lemma two_pieces:
  assumes "start < length buf" and "n \<le> length buf"
  defines "first \<equiv> min n (length buf - start)"
  shows "piece start first buf @ (if 0 < n - first then piece 0 (n - first) buf else [])
       = map (\<lambda>i. buf ! ((start + i) mod length buf)) [0 ..< n]"
proof (rule nth_equalityI)
  show "length (piece start first buf @ (if 0 < n - first then piece 0 (n - first) buf else []))
      = length (map (\<lambda>i. buf ! ((start + i) mod length buf)) [0 ..< n])"
    using assms by (auto simp: piece_def)
next
  fix i
  assume "i < length (piece start first buf @ (if 0 < n - first then piece 0 (n - first) buf else []))"
  then have i: "i < n" using assms by (auto simp: piece_def split: if_splits)
  have len: "length (piece start first buf) = first" using assms by simp
  show "(piece start first buf @ (if 0 < n - first then piece 0 (n - first) buf else [])) ! i
      = map (\<lambda>i. buf ! ((start + i) mod length buf)) [0 ..< n] ! i"
  proof (cases "i < first")
    case True
    then show ?thesis
      using i assms len by (simp add: nth_append nth_piece wrap)
  next
    case False
    then have "first = length buf - start" "0 < n - first" using i by (auto simp: first_def)
    moreover from this have "\<not> start + i < length buf" using False by simp
    ultimately show ?thesis
      using i False assms(1,2) len by (simp add: nth_append nth_piece wrap add.commute)
  qed
qed

lemma read_bytes_spec:
  assumes "ring_ok p" and "read_bytes n p = (p', out)"
  shows "out = take n (contents p) \<and> contents p' = drop n (contents p) \<and> ring_ok p'
     \<and> pp_buf p' = pp_buf p \<and> pp_len p' = pp_len p - n"
proof (cases "min n (pp_len p) = 0")
  case True
  with assms have "p' = p" "out = []" "n = 0 \<or> contents p = []" by (auto simp: read_bytes_def)
  with assms(1) show ?thesis by auto
next
  case False
  define m where "m = min n (pp_len p)"
  have head: "pp_head p < length (pp_buf p)" and len: "pp_len p \<le> length (pp_buf p)"
    using assms(1) False by (auto simp: ring_ok_def)
  have p': "p' = p\<lparr>pp_head := (pp_head p + m) mod length (pp_buf p), pp_len := pp_len p - m\<rparr>"
    and out: "out = map (\<lambda>i. pp_buf p ! ((pp_head p + i) mod length (pp_buf p))) [0 ..< m]"
    using assms(2) False two_pieces [OF head, of m] len by (auto simp: read_bytes_def Let_def m_def)
  have "contents p' = drop n (contents p)"
  proof (rule nth_equalityI)
    show "length (contents p') = length (drop n (contents p))" by (auto simp: p' m_def)
  next
    fix i assume "i < length (contents p')"
    then have i: "i < pp_len p - m" by (simp add: p')
    then have "m = n" by (auto simp: m_def)
    with i show "contents p' ! i = drop n (contents p) ! i"
      by (simp add: contents_nth p' mod_add_left_eq add.assoc)
  qed
  moreover have "out = take n (contents p)"
    by (rule nth_equalityI) (auto simp: out m_def contents_nth)
  moreover have "ring_ok p'"
  proof -
    have "(pp_head p + m) mod length (pp_buf p) < length (pp_buf p)"
      using head by (intro mod_less_divisor) linarith
    with len show ?thesis by (simp add: ring_ok_def p')
  qed
  ultimately show ?thesis by (simp add: p') (simp add: m_def)
qed

lemma write_bytes_spec:
  assumes "ring_ok p" and "write_bytes data p = (p', n)"
  shows "n = min (length data) (pipe_writable p) \<and> contents p' = contents p @ take n data \<and> ring_ok p'
     \<and> length (pp_buf p') = length (pp_buf p) \<and> pp_len p' = pp_len p + n"
proof (cases "min (length data) (pipe_writable p) = 0")
  case True
  with assms have "p' = p" "n = 0" by (auto simp: write_bytes_def)
  with assms(1) True show ?thesis by simp
next
  case False
  let ?b = "pp_buf p" and ?h = "pp_head p" and ?l = "pp_len p"
  define c where "c = length ?b"
  define m where "m = min (length data) (pipe_writable p)"
  define w where "w = (?h + ?l) mod c"
  define f where "f = min m (c - w)"
  define b1 where "b1 = copy_at w (take f data) ?b"
  define b2 where "b2 = (if 0 < m - f then copy_at 0 (piece f (m - f) data) b1 else b1)"
  have m: "0 < m" "m \<le> length data" "?l + m \<le> c"
    using False by (auto simp: m_def c_def pipe_writable_def)
  have h: "?h < c" using assms(1) m by (auto simp: ring_ok_def c_def)
  have w: "w = (if ?h + ?l < c then ?h + ?l else ?h + ?l - c)" "w < c"
    using h m by (simp_all add: w_def wrap) linarith
  have f: "f \<le> length data" "w + f \<le> c" "f \<le> m" using m w(2) by (auto simp: f_def)
  have p': "p' = p\<lparr>pp_buf := b2, pp_len := ?l + m\<rparr>" and n: "n = m"
  proof -
    have "write_bytes data p = (p\<lparr>pp_buf := b2, pp_len := ?l + m\<rparr>, m)"
      unfolding write_bytes_def Let_def if_not_P [OF False] b2_def b1_def f_def w_def c_def m_def ..
    with assms(2) show "p' = p\<lparr>pp_buf := b2, pp_len := ?l + m\<rparr>" "n = m" by (metis prod.inject)+
  qed
  have len1: "length b1 = c" using f by (simp add: b1_def c_def [symmetric])
  have len2: "length b2 = c" using f m len1 w by (auto simp: b2_def f_def)
  have nth: "b2 ! j = (if w \<le> j \<and> j < w + f then data ! (j - w)
       else if j < m - f then data ! (f + j) else ?b ! j)" for j
  proof -
    have b1: "b1 ! j = (if w \<le> j \<and> j < w + f then data ! (j - w) else ?b ! j)"
    proof -
      have "b1 ! j = (if w \<le> j \<and> j < w + f then take f data ! (j - w) else ?b ! j)"
        using f by (simp add: b1_def nth_copy_at c_def [symmetric])
      moreover have "take f data ! (j - w) = data ! (j - w)" if "w \<le> j \<and> j < w + f"
        using that by (intro nth_take) linarith
      ultimately show ?thesis by auto
    qed
    show ?thesis
    proof (cases "0 < m - f")
      case True
      then have "f = c - w" by (simp add: f_def split: if_splits)
      moreover from this have "m - f \<le> w" using m w by (auto split: if_splits)
      ultimately show ?thesis
        using True m len1 by (simp add: b2_def nth_copy_at b1 nth_piece)
    qed (simp add: b2_def b1)
  qed
  have ring: "b2 ! ((?h + i) mod c) = (if i < ?l then ?b ! ((?h + i) mod c) else data ! (i - ?l))"
    if "i < ?l + m" for i
  proof (cases "?h + i < c")
    case True
    then have at: "(?h + i) mod c = ?h + i" using h m that by (simp add: wrap)
    show ?thesis
    proof (cases "i < ?l")
      case True
      have "\<not> (w \<le> ?h + i \<and> ?h + i < w + f)" "\<not> ?h + i < m - f"
        using True \<open>?h + i < c\<close> w(1) h m(3) by (auto simp: f_def split: if_splits)
      then have "b2 ! (?h + i) = ?b ! (?h + i)" unfolding nth by (simp only: if_False)
      with True show ?thesis by (simp add: at)
    next
      case False
      then have "w = ?h + ?l" using w True by simp
      moreover from this have "w \<le> ?h + i \<and> ?h + i < w + f"
        using \<open>\<not> i < ?l\<close> that True by (simp add: f_def)
      ultimately have "b2 ! (?h + i) = data ! (i - ?l)" unfolding nth by simp
      with False show ?thesis by (simp add: at)
    qed
  next
    case False
    then have at: "(?h + i) mod c = ?h + i - c" using h m that by (simp add: wrap)
    show ?thesis
    proof (cases "i < ?l")
      case True
      then have "w = ?h + ?l - c" using w False by simp
      then have "\<not> (w \<le> ?h + i - c \<and> ?h + i - c < w + f)" "\<not> ?h + i - c < m - f"
        using True False h m by (auto simp: f_def)
      then have "b2 ! (?h + i - c) = ?b ! (?h + i - c)" unfolding nth by (simp only: if_False)
      with True show ?thesis by (simp add: at)
    next
      case late: False
      have "b2 ! (?h + i - c) = data ! (i - ?l)"
      proof (cases "?h + ?l < c")
        case True
        then have "w = ?h + ?l" "f = c - w" using w False that late by (auto simp: f_def)
        then have "\<not> (w \<le> ?h + i - c \<and> ?h + i - c < w + f)" "?h + i - c < m - f" "f + (?h + i - c) = i - ?l"
          using True False that h m by auto
        then show ?thesis unfolding nth by (simp only: if_False if_True)
      next
        case wrapped: False
        then have "w = ?h + ?l - c" using w by simp
        moreover from this have "f = m" using h m by (simp add: f_def)
        ultimately have "w \<le> ?h + i - c \<and> ?h + i - c < w + f" "?h + i - c - w = i - ?l"
          using wrapped False late that by auto
        then show ?thesis unfolding nth by (simp only: if_True simp_thms)
      qed
      with late show ?thesis by (simp add: at)
    qed
  qed
  have "contents p' = contents p @ take n data"
    by (rule nth_equalityI)
      (use m in \<open>auto simp: p' n contents_nth nth_append ring len2 c_def [symmetric] pipe_writable_def\<close>)
  moreover have "ring_ok p'"
    using h m len2 by (simp add: ring_ok_def p')
  ultimately show ?thesis
    using len2 by (simp add: p' n c_def) (simp add: m_def)
qed

lemma peek_bytes_spec:
  assumes "ring_ok p"
  shows "peek_bytes_at offset n p = take n (drop offset (contents p))"
proof (cases "pp_len p \<le> offset \<or> n = 0")
  case True
  then show ?thesis by (auto simp: peek_bytes_at_def)
next
  case False
  define m where "m = min n (pp_len p - offset)"
  let ?c = "length (pp_buf p)"
  have c: "0 < ?c" "m \<le> ?c" using assms False by (auto simp: ring_ok_def m_def)
  have "peek_bytes_at offset n p
      = map (\<lambda>i. pp_buf p ! (((pp_head p + offset) mod ?c + i) mod ?c)) [0 ..< m]"
  proof -
    have "\<not> pp_len p \<le> offset" "min n (pp_len p - offset) \<noteq> 0" using False by auto
    then show ?thesis
      unfolding peek_bytes_at_def Let_def using c
      by (simp only: if_False m_def [symmetric]) (intro two_pieces mod_less_divisor)
  qed
  also have "\<dots> = take n (drop offset (contents p))"
    by (rule nth_equalityI) (simp_all add: m_def contents_nth nth_drop mod_add_left_eq add.assoc less_diff_conv)
  finally show ?thesis .
qed

text \<open>Moving bytes touches nothing but the ring.\<close>

lemma bytes_frame:
  assumes "write_bytes data p = (p', n) \<or> read_bytes k p = (p', out)"
  shows "pp_readers p' = pp_readers p \<and> pp_writers p' = pp_writers p
    \<and> pp_read_closed p' = pp_read_closed p \<and> pp_write_closed p' = pp_write_closed p
    \<and> pp_reader_refcount p' = pp_reader_refcount p \<and> pp_writer_refcount p' = pp_writer_refcount p
    \<and> pp_fifo p' = pp_fifo p"
proof -
  define same where "same q \<longleftrightarrow> pp_readers q = pp_readers p \<and> pp_writers q = pp_writers p
    \<and> pp_read_closed q = pp_read_closed p \<and> pp_write_closed q = pp_write_closed p
    \<and> pp_reader_refcount q = pp_reader_refcount p \<and> pp_writer_refcount q = pp_writer_refcount p
    \<and> pp_fifo q = pp_fifo p" for q :: pipe
  have "same (fst (write_bytes data p))" "same (fst (read_bytes k p))"
    by (simp_all add: same_def write_bytes_def read_bytes_def Let_def)
  then show ?thesis using assms by (auto simp: same_def)
qed

section \<open>The table and the calls\<close>

record pipes =
  ps_table :: "(u64, pipe) btree"
  ps_next_id :: u64

definition pipes_static :: pipes where
  "pipes_static = \<lparr>ps_table = [], ps_next_id = 1\<rparr>"

definition put_pipe :: "u64 \<Rightarrow> pipe \<Rightarrow> pipes \<Rightarrow> pipes" where
  "put_pipe i p s = s\<lparr>ps_table := bt_adjust i (\<lambda>_. p) (ps_table s)\<rparr>"

definition alloc_pipe_id :: "pipes \<Rightarrow> pipes \<times> u64" where
  "alloc_pipe_id s = (s\<lparr>ps_next_id := ps_next_id s + 1\<rparr>, ps_next_id s)"

definition pipe_create :: "pipes \<Rightarrow> pipes \<times> pipe_handle \<times> pipe_handle" where
  "pipe_create s =
     (case alloc_pipe_id s of
        (s, i) \<Rightarrow>
          (s\<lparr>ps_table := bt_insert i (pipe_new DEFAULT_BUFFER_CAPACITY) (ps_table s)\<rparr>,
           handle_new i ReadEnd, handle_new i WriteEnd))"

datatype read_into = RBuffer nat | RProbe
datatype write_from = WData "u8 list" | WProbe

text \<open>The checks before the loop.\<close>

definition write_check :: "pipe_handle \<Rightarrow> write_from \<Rightarrow> unit kernel_result" where
  "write_check h from =
     (if \<not> handle_writes h then Err InvalidHandle
      else if from = WData [] then Err InvalidArgument else Ok ())"

definition read_check :: "pipe_handle \<Rightarrow> read_into \<Rightarrow> unit kernel_result" where
  "read_check h into =
     (if \<not> handle_reads h then Err InvalidHandle
      else if into = RBuffer 0 then Err InvalidArgument else Ok ())"

definition so_far :: "nat \<Rightarrow> kernel_error \<Rightarrow> nat kernel_result" where
  "so_far sofar e = (if 0 < sofar then Ok sofar else Err e)"

text \<open>A full pipe: no wait, a timeout, a signal, or a park.\<close>

definition write_wait ::
  "patience \<Rightarrow> task_id \<Rightarrow> nat \<Rightarrow> bool \<Rightarrow> nat \<Rightarrow> deadline \<Rightarrow> pipe
     \<Rightarrow> pipe \<times> task_id list \<times> nat \<times> deadline \<times> nat kernel_result turn" where
  "write_wait patience task now signal sofar dl p =
     (case ends_now now patience dl of
        (dl, Some e) \<Rightarrow> (p, [], sofar, dl, Finished (so_far sofar e))
      | (dl, None) \<Rightarrow>
          if signal then (p, [], sofar, dl, Finished (so_far sofar Interrupted))
          else (p\<lparr>pp_writers := ws_insert task (pp_writers p)\<rparr>, [], sofar, dl, Parked))"

definition write_turn ::
  "write_from \<Rightarrow> patience \<Rightarrow> task_id \<Rightarrow> nat \<Rightarrow> bool \<Rightarrow> nat \<Rightarrow> deadline \<Rightarrow> pipe
     \<Rightarrow> pipe \<times> task_id list \<times> nat \<times> deadline \<times> nat kernel_result turn" where
  "write_turn from patience task now signal sofar dl p =
     (let p = p\<lparr>pp_writers := ws_remove task (pp_writers p)\<rparr>
      in if pp_read_closed p then (p, [], sofar, dl, Finished (so_far sofar ChannelClosed))
         else case from of
           WData data \<Rightarrow>
             let rest = drop sofar data;
                 fits = (if length data \<le> PIPE_BUF then length rest \<le> pipe_writable p
                         else 0 < pipe_writable p)
             in if fits then
                  (case write_bytes rest p of
                     (p, written) \<Rightarrow>
                       let sofar = sat_add64 sofar written
                       in case ws_take_all (pp_readers p) of
                            (woken, readers) \<Rightarrow>
                              (p\<lparr>pp_readers := readers\<rparr>, woken, sofar, dl,
                               if length data \<le> sofar then Finished (Ok sofar) else Again))
                else write_wait patience task now signal sofar dl p
         | WProbe \<Rightarrow>
             if 0 < pipe_writable p then (p, [], sofar, dl, Finished (Ok 1))
             else write_wait patience task now signal sofar dl p)"

text \<open>What a read answers: its result, and the bytes put in its buffer.\<close>

type_synonym read_answer = "nat kernel_result \<times> u8 list"

definition read_turn ::
  "read_into \<Rightarrow> patience \<Rightarrow> task_id \<Rightarrow> nat \<Rightarrow> bool \<Rightarrow> deadline \<Rightarrow> pipe
     \<Rightarrow> pipe \<times> task_id list \<times> deadline \<times> read_answer turn" where
  "read_turn into patience task now signal dl p =
     (let p = p\<lparr>pp_readers := ws_remove task (pp_readers p)\<rparr>;
          none = (\<lambda>p.
            if pp_write_closed p then (p, [], dl, Finished (Ok 0, []))
            else case ends_now now patience dl of
                (dl, Some e) \<Rightarrow> (p, [], dl, Finished (Err e, []))
              | (dl, None) \<Rightarrow>
                  if signal then (p, [], dl, Finished (Err Interrupted, []))
                  else (p\<lparr>pp_readers := ws_insert task (pp_readers p)\<rparr>, [], dl, Parked))
      in case into of
           RBuffer n \<Rightarrow>
             (case read_bytes n p of
                (p, out) \<Rightarrow>
                  if 0 < length out then
                    (case ws_take_all (pp_writers p) of
                       (woken, writers) \<Rightarrow>
                         (p\<lparr>pp_writers := writers\<rparr>, woken, dl, Finished (Ok (length out), out)))
                  else none p)
         | RProbe \<Rightarrow>
             if 0 < pipe_readable p then (p, [], dl, Finished (Ok 1, [])) else none p)"

text \<open>The turns on the table: the pipe looked up, or \<^verbatim>\<open>InvalidHandle\<close>.\<close>

definition write_on ::
  "pipe_handle \<Rightarrow> write_from \<Rightarrow> patience \<Rightarrow> task_id \<Rightarrow> nat \<Rightarrow> bool \<Rightarrow> nat \<Rightarrow> deadline \<Rightarrow> pipes
     \<Rightarrow> pipes \<times> task_id list \<times> nat \<times> deadline \<times> nat kernel_result turn" where
  "write_on h from patience task now signal sofar dl s =
     (case bt_get (ps_table s) (handle_pipe_id h) of
        None \<Rightarrow> (s, [], sofar, dl, Finished (Err InvalidHandle))
      | Some p \<Rightarrow>
          (case write_turn from patience task now signal sofar dl p of
             (p, rest) \<Rightarrow> (put_pipe (handle_pipe_id h) p s, rest)))"

definition read_on ::
  "pipe_handle \<Rightarrow> read_into \<Rightarrow> patience \<Rightarrow> task_id \<Rightarrow> nat \<Rightarrow> bool \<Rightarrow> deadline \<Rightarrow> pipes
     \<Rightarrow> pipes \<times> task_id list \<times> deadline \<times> read_answer turn" where
  "read_on h into patience task now signal dl s =
     (case bt_get (ps_table s) (handle_pipe_id h) of
        None \<Rightarrow> (s, [], dl, Finished (Err InvalidHandle, []))
      | Some p \<Rightarrow>
          (case read_turn into patience task now signal dl p of
             (p, rest) \<Rightarrow> (put_pipe (handle_pipe_id h) p s, rest)))"

definition peek_at :: "pipe_handle \<Rightarrow> u64 \<Rightarrow> nat \<Rightarrow> pipes \<Rightarrow> u8 list kernel_result" where
  "peek_at h offset n s =
     (if \<not> handle_reads h then Err InvalidHandle
      else if n = 0 then Err InvalidArgument
      else case bt_get (ps_table s) (handle_pipe_id h) of
        None \<Rightarrow> Err InvalidHandle
      | Some p \<Rightarrow> Ok (peek_bytes_at (unat offset) n p))"

definition checked_inc32 :: "u32 \<Rightarrow> u32 option" where
  "checked_inc32 n = (if unat n = u32_max then None else Some (n + 1))"

definition saturating_dec32 :: "u32 \<Rightarrow> u32" where
  "saturating_dec32 n = (if n = 0 then 0 else n - 1)"

definition dup_pipe :: "pipe_handle \<Rightarrow> pipe \<Rightarrow> pipe kernel_result" where
  "dup_pipe h p =
     (let read = handle_reads h; write = handle_writes h
      in if (read \<and> pp_reader_refcount p = 0) \<or> (write \<and> pp_writer_refcount p = 0)
         then Err InvalidHandle
         else case (if read then checked_inc32 (pp_reader_refcount p) else Some (pp_reader_refcount p),
                    if write then checked_inc32 (pp_writer_refcount p) else Some (pp_writer_refcount p)) of
           (Some readers, Some writers) \<Rightarrow>
             Ok (p\<lparr>pp_reader_refcount := readers, pp_writer_refcount := writers\<rparr>)
         | _ \<Rightarrow> Err InvalidHandle)"

definition pipe_dup :: "pipe_handle \<Rightarrow> pipes \<Rightarrow> pipes \<times> pipe_handle kernel_result" where
  "pipe_dup h s =
     (case bt_get (ps_table s) (handle_pipe_id h) of
        None \<Rightarrow> (s, Err InvalidHandle)
      | Some p \<Rightarrow>
          (case dup_pipe h p of
             Inl e \<Rightarrow> (s, Err e)
           | Inr p \<Rightarrow> (put_pipe (handle_pipe_id h) p s, Ok h)))"

text \<open>One reference given up at the read end, at the write end: the pipe and the tasks to wake.\<close>

definition close_read_end :: "pipe \<Rightarrow> pipe \<times> task_id list" where
  "close_read_end p =
     (let p = p\<lparr>pp_reader_refcount := saturating_dec32 (pp_reader_refcount p)\<rparr>
      in if pp_reader_refcount p = 0 \<and> \<not> pp_read_closed p
         then (p\<lparr>pp_read_closed := True, pp_writers := snd (ws_take_all (pp_writers p))\<rparr>,
               fst (ws_take_all (pp_writers p)))
         else (p, []))"

definition close_write_end :: "pipe \<Rightarrow> pipe \<times> task_id list" where
  "close_write_end p =
     (let p = p\<lparr>pp_writer_refcount := saturating_dec32 (pp_writer_refcount p)\<rparr>
      in if pp_writer_refcount p = 0 \<and> \<not> pp_write_closed p
         then (p\<lparr>pp_write_closed := True, pp_readers := snd (ws_take_all (pp_readers p))\<rparr>,
               fst (ws_take_all (pp_readers p)))
         else (p, []))"

text \<open>Each end the handle holds gives up a reference.\<close>

definition close_pipe :: "pipe_handle \<Rightarrow> pipe \<Rightarrow> pipe \<times> task_id list" where
  "close_pipe h p =
     (case (if handle_reads h then close_read_end p else (p, [])) of
        (p, woken1) \<Rightarrow>
          (case (if handle_writes h then close_write_end p else (p, [])) of
             (p, woken2) \<Rightarrow> (p, woken1 @ woken2)))"

text \<open>The tasks to wake, and the node of a named pipe whose last end closed.\<close>

definition pipe_close :: "pipe_handle \<Rightarrow> pipes \<Rightarrow> pipes \<times> task_id list \<times> fifo_link option" where
  "pipe_close h s =
     (case bt_get (ps_table s) (handle_pipe_id h) of
        None \<Rightarrow> (s, [], None)
      | Some p \<Rightarrow>
          (case close_pipe h p of
             (p, woken) \<Rightarrow>
               if pp_read_closed p \<and> pp_write_closed p
               then (s\<lparr>ps_table := bt_remove (handle_pipe_id h) (ps_table s)\<rparr>, woken, pp_fifo p)
               else (put_pipe (handle_pipe_id h) p s, woken, None)))"

definition pipe_capacity :: "pipe_handle \<Rightarrow> pipes \<Rightarrow> nat kernel_result" where
  "pipe_capacity h s =
     (case bt_get (ps_table s) (handle_pipe_id h) of
        None \<Rightarrow> Err InvalidHandle
      | Some p \<Rightarrow> Ok (length (pp_buf p)))"

text \<open>The new buffer with the old contents unwrapped into its front.\<close>

definition resize_pipe :: "nat \<Rightarrow> pipe \<Rightarrow> pipe" where
  "resize_pipe new_cap p =
     (let new_buf = replicate new_cap 0;
          new_buf =
            (if 0 < pp_len p then
               let old_cap = length (pp_buf p); first = min (pp_len p) (old_cap - pp_head p);
                   new_buf = copy_at 0 (piece (pp_head p) first (pp_buf p)) new_buf;
                   second = pp_len p - first
               in if 0 < second then copy_at first (piece 0 second (pp_buf p)) new_buf else new_buf
             else new_buf)
      in p\<lparr>pp_buf := new_buf, pp_head := 0\<rparr>)"

text \<open>
  Whether the allocator can reserve the new buffer is an input. The tasks to wake are an output as
  in the other calls: none, whatever room the new buffer makes.
\<close>

definition pipe_set_capacity ::
  "bool \<Rightarrow> pipe_handle \<Rightarrow> nat \<Rightarrow> pipes \<Rightarrow> pipes \<times> task_id list \<times> nat kernel_result" where
  "pipe_set_capacity memory h new_cap s =
     (if MAX_PIPE_BUFFER_CAPACITY < new_cap then (s, [], Err InvalidArgument)
      else if \<not> memory then (s, [], Err OutOfMemory)
      else case bt_get (ps_table s) (handle_pipe_id h) of
        None \<Rightarrow> (s, [], Err InvalidHandle)
      | Some p \<Rightarrow>
          if new_cap < pp_len p then (s, [], Err DeviceBusy)
          else (put_pipe (handle_pipe_id h) (resize_pipe new_cap p) s, [], Ok new_cap))"

section \<open>Polling\<close>

definition pipe_readable_h :: "pipe_handle \<Rightarrow> pipes \<Rightarrow> bool" where
  "pipe_readable_h h s =
     (case bt_get (ps_table s) (handle_pipe_id h) of
        None \<Rightarrow> False | Some p \<Rightarrow> 0 < pp_len p \<or> eof_for p h)"

definition pipe_writable_h :: "pipe_handle \<Rightarrow> pipes \<Rightarrow> bool" where
  "pipe_writable_h h s =
     (case bt_get (ps_table s) (handle_pipe_id h) of
        None \<Rightarrow> False
      | Some p \<Rightarrow> min PIPE_BUF (length (pp_buf p)) \<le> pipe_writable p \<or> pp_read_closed p)"

definition pipe_register_waiter :: "pipe_handle \<Rightarrow> task_id \<Rightarrow> pipes \<Rightarrow> pipes" where
  "pipe_register_waiter h task s =
     (case bt_get (ps_table s) (handle_pipe_id h) of
        None \<Rightarrow> s
      | Some p \<Rightarrow> put_pipe (handle_pipe_id h)
          (p\<lparr>pp_readers := ws_insert task (pp_readers p), pp_writers := ws_insert task (pp_writers p)\<rparr>) s)"

definition pipe_deregister_waiter :: "pipe_handle \<Rightarrow> task_id \<Rightarrow> pipes \<Rightarrow> pipes" where
  "pipe_deregister_waiter h task s =
     (case bt_get (ps_table s) (handle_pipe_id h) of
        None \<Rightarrow> s
      | Some p \<Rightarrow> put_pipe (handle_pipe_id h)
          (p\<lparr>pp_readers := ws_remove task (pp_readers p), pp_writers := ws_remove task (pp_writers p)\<rparr>) s)"

definition poll_status :: "pipe_handle \<Rightarrow> pipes \<Rightarrow> u16" where
  "poll_status h s =
     (case bt_get (ps_table s) (handle_pipe_id h) of
        None \<Rightarrow> 0x10
      | Some p \<Rightarrow>
          let flags =
                (if handle_reads h then
                   (if 0 < pp_len p \<or> eof_for p h then 0x01 else 0) OR (if eof_for p h then 0x10 else 0)
                 else 0)
          in flags OR
             (if handle_writes h then
                (if min PIPE_BUF (length (pp_buf p)) \<le> pipe_writable p \<or> pp_read_closed p then 0x04 else 0)
                OR (if pp_read_closed p then 0x08 else 0)
              else 0))"

definition readable_bytes :: "pipe_handle \<Rightarrow> pipes \<Rightarrow> nat" where
  "readable_bytes h s =
     (case bt_get (ps_table s) (handle_pipe_id h) of
        None \<Rightarrow> 0
      | Some p \<Rightarrow> if handle_reads h then pp_len p else length (pp_buf p) - pp_len p)"

definition queued_bytes :: "pipe_handle \<Rightarrow> pipes \<Rightarrow> nat" where
  "queued_bytes h s =
     (case bt_get (ps_table s) (handle_pipe_id h) of None \<Rightarrow> 0 | Some p \<Rightarrow> pp_len p)"

section \<open>Named pipes\<close>

datatype fifo_access = FifoRead | FifoWrite | FifoBoth
datatype fifo_partner = PartnerWriter u32 | PartnerReader u32

definition fifo_create :: "u64 \<times> u64 \<Rightarrow> u64 \<Rightarrow> string \<Rightarrow> pipes \<Rightarrow> pipes \<times> u64" where
  "fifo_create i hold path s =
     (case alloc_pipe_id s of
        (s, pipe_id) \<Rightarrow>
          let p = (pipe_new DEFAULT_BUFFER_CAPACITY)\<lparr>pp_reader_refcount := 0, pp_writer_refcount := 0,
                    pp_read_closed := True, pp_write_closed := True,
                    pp_fifo := Some \<lparr>fl_id = i, fl_hold = hold, fl_path = path, fl_r_counter = 0,
                      fl_w_counter = 0, fl_open_waiters = ws_new\<rparr>\<rparr>
          in (s\<lparr>ps_table := bt_insert pipe_id p (ps_table s)\<rparr>, pipe_id))"

definition fifo_alive :: "u64 \<Rightarrow> pipes \<Rightarrow> bool" where
  "fifo_alive pipe_id s \<longleftrightarrow> bt_get (ps_table s) pipe_id \<noteq> None"

text \<open>The opener counted on the pipe's record: the handle, what it waits for, and the tasks to wake.\<close>

definition attach_pipe ::
  "u64 \<Rightarrow> fifo_access \<Rightarrow> bool \<Rightarrow> pipe \<Rightarrow> (pipe \<times> task_id list \<times> pipe_handle \<times> fifo_partner option) kernel_result" where
  "attach_pipe pipe_id access nonblock p =
     (let readers = pp_reader_refcount p; writers = pp_writer_refcount p
      in case pp_fifo p of
        None \<Rightarrow> Err InvalidHandle
      | Some link \<Rightarrow>
          let read = access \<noteq> FifoWrite; write = access \<noteq> FifoRead
          in if write \<and> \<not> read \<and> nonblock \<and> readers = 0 then Err NoSuchDeviceOrAddress
             else case if read then checked_inc32 readers else Some readers of
               None \<Rightarrow> Err Overflow
             | Some new_readers \<Rightarrow>
                 (case if write then checked_inc32 writers else Some writers of
                    None \<Rightarrow> Err Overflow
                  | Some new_writers \<Rightarrow>
                      let link = (if read then link\<lparr>fl_r_counter := fl_r_counter link + 1\<rparr> else link);
                          link = (if write then link\<lparr>fl_w_counter := fl_w_counter link + 1\<rparr> else link);
                          (handle, partner) =
                            (case access of
                               FifoRead \<Rightarrow>
                                 if writers = 0 \<and> nonblock
                                 then (with_seen (handle_new pipe_id ReadEnd) (fl_w_counter link), None)
                                 else (handle_new pipe_id ReadEnd,
                                       if writers = 0 then Some (PartnerWriter (fl_w_counter link)) else None)
                             | FifoWrite \<Rightarrow>
                                 (handle_new pipe_id WriteEnd,
                                  if readers = 0 then Some (PartnerReader (fl_r_counter link)) else None)
                             | FifoBoth \<Rightarrow> (handle_new pipe_id BothEnds, None));
                          (wake, waiters) =
                            (if (read \<and> readers = 0) \<or> (write \<and> writers = 0)
                             then ws_take_all (fl_open_waiters link) else ([], fl_open_waiters link));
                          link = link\<lparr>fl_open_waiters := waiters\<rparr>;
                          p = p\<lparr>pp_fifo := Some link, pp_reader_refcount := new_readers,
                                pp_writer_refcount := new_writers,
                                pp_read_closed := (if read then False else pp_read_closed p),
                                pp_write_closed := (if write then False else pp_write_closed p)\<rparr>
                      in Ok (p, wake, handle, partner)))"

definition fifo_attach ::
  "u64 \<Rightarrow> fifo_access \<Rightarrow> bool \<Rightarrow> pipes
     \<Rightarrow> pipes \<times> task_id list \<times> (pipe_handle \<times> fifo_partner option) kernel_result" where
  "fifo_attach pipe_id access nonblock s =
     (case bt_get (ps_table s) pipe_id of
        None \<Rightarrow> (s, [], Err InvalidHandle)
      | Some p \<Rightarrow>
          (case attach_pipe pipe_id access nonblock p of
             Inl e \<Rightarrow> (s, [], Err e)
           | Inr (p, wake, answer) \<Rightarrow> (put_pipe pipe_id p s, wake, Ok answer)))"

text \<open>One turn of an open's wait for the other side: on the node's tie, and on the table.\<close>

definition partner_turn ::
  "fifo_partner \<Rightarrow> task_id \<Rightarrow> bool \<Rightarrow> fifo_link \<Rightarrow> fifo_link \<times> unit kernel_result turn" where
  "partner_turn partner task signal link =
     (let link = link\<lparr>fl_open_waiters := ws_remove task (fl_open_waiters link)\<rparr>;
          came = (case partner of
                    PartnerWriter seen \<Rightarrow> fl_w_counter link \<noteq> seen
                  | PartnerReader seen \<Rightarrow> fl_r_counter link \<noteq> seen)
      in if came then (link, Finished (Ok ()))
         else if signal then (link, Finished (Err Interrupted))
         else (link\<lparr>fl_open_waiters := ws_insert task (fl_open_waiters link)\<rparr>, Parked))"

definition fifo_wait_turn ::
  "pipe_handle \<Rightarrow> fifo_partner \<Rightarrow> task_id \<Rightarrow> bool \<Rightarrow> pipes \<Rightarrow> pipes \<times> unit kernel_result turn" where
  "fifo_wait_turn h partner task signal s =
     (case bt_get (ps_table s) (handle_pipe_id h) of
        None \<Rightarrow> (s, Finished (Err InvalidHandle))
      | Some p \<Rightarrow>
          (case pp_fifo p of
             None \<Rightarrow> (s, Finished (Err InvalidHandle))
           | Some link \<Rightarrow>
               (case partner_turn partner task signal link of
                  (link, r) \<Rightarrow> (put_pipe (handle_pipe_id h) (p\<lparr>pp_fifo := Some link\<rparr>) s, r))))"

definition fifo_drop_if_unused :: "u64 \<Rightarrow> pipes \<Rightarrow> pipes \<times> (u64 \<times> u64) option" where
  "fifo_drop_if_unused pipe_id s =
     (case bt_get (ps_table s) pipe_id of
        None \<Rightarrow> (s, None)
      | Some p \<Rightarrow>
          if pp_fifo p \<noteq> None \<and> pp_reader_refcount p = 0 \<and> pp_writer_refcount p = 0
          then (s\<lparr>ps_table := bt_remove pipe_id (ps_table s)\<rparr>, map_option fl_id (pp_fifo p))
          else (s, None))"

definition fifo_node :: "pipe_handle \<Rightarrow> pipes \<Rightarrow> (u64 \<times> string) option" where
  "fifo_node h s =
     Option.bind (bt_get (ps_table s) (handle_pipe_id h))
       (\<lambda>p. map_option (\<lambda>link. (fl_hold link, fl_path link)) (pp_fifo p))"

end
