(* ===== verification/Streams.thy ===== *)
theory Streams imports Prelude begin

text \<open>
  Executions whose steps are observed: an event may be admissible only in some states, and what
  each event adds to and takes from a stream depends on the state it runs in. The locale is the
  contract of a first-in first-out byte or message stream; a component that discharges it for one
  of its objects delivers exactly what was put in, in order, over every interleaving.
\<close>

fun run_ok :: "('e \<Rightarrow> 's \<Rightarrow> bool) \<Rightarrow> ('e \<Rightarrow> 's \<Rightarrow> 's) \<Rightarrow> 'e list \<Rightarrow> 's \<Rightarrow> bool" where
  "run_ok ok step [] s \<longleftrightarrow> True"
| "run_ok ok step (e # es) s \<longleftrightarrow> ok e s \<and> run_ok ok step es (step e s)"

text \<open>What the events of a run yield, one after the other.\<close>

fun gather :: "('e \<Rightarrow> 's \<Rightarrow> 'b list) \<Rightarrow> ('e \<Rightarrow> 's \<Rightarrow> 's) \<Rightarrow> 'e list \<Rightarrow> 's \<Rightarrow> 'b list" where
  "gather f step [] s = []"
| "gather f step (e # es) s = f e s @ gather f step es (step e s)"

lemma run_ok_mono:
  "run_ok ok step es s \<Longrightarrow> (\<And>e t. e \<in> set es \<Longrightarrow> ok e t \<Longrightarrow> ok' e t) \<Longrightarrow> run_ok ok' step es s"
  by (induction es arbitrary: s) auto

locale guarded_machine =
  fixes step :: "'e \<Rightarrow> 's \<Rightarrow> 's"
    and ok :: "'e \<Rightarrow> 's \<Rightarrow> bool"
    and inv :: "'s \<Rightarrow> bool"
  assumes inv_step: "inv s \<Longrightarrow> ok e s \<Longrightarrow> inv (step e s)"
begin

lemma inv_run: "inv s \<Longrightarrow> run_ok ok step es s \<Longrightarrow> inv (fold step es s)"
  by (induction es arbitrary: s) (auto intro: inv_step)

lemma keeps_run:
  assumes "\<And>t e. inv t \<Longrightarrow> ok e t \<Longrightarrow> P t \<Longrightarrow> P (step e t)"
  shows "inv s \<Longrightarrow> run_ok ok step es s \<Longrightarrow> P s \<Longrightarrow> P (fold step es s)"
  by (induction es arbitrary: s) (auto intro: inv_step assms)

text \<open>A fact every admissible event keeps or that an observation reports having ended.\<close>

lemma keeps_or_reports:
  assumes "\<And>t e. inv t \<Longrightarrow> ok e t \<Longrightarrow> P t \<Longrightarrow> P (step e t) \<or> x \<in> set (f e t)"
  shows "inv s \<Longrightarrow> run_ok ok step es s \<Longrightarrow> P s \<Longrightarrow> P (fold step es s) \<or> x \<in> set (gather f step es s)"
proof (induction es arbitrary: s)
  case Nil
  then show ?case by simp
next
  case (Cons e es)
  then have "P (step e s) \<or> x \<in> set (f e s)" using assms by simp
  then show ?case
    using Cons.IH [of "step e s"] Cons.prems inv_step by auto
qed

end

locale stream_machine = guarded_machine step ok inv
  for step :: "'e \<Rightarrow> 's \<Rightarrow> 's" and ok :: "'e \<Rightarrow> 's \<Rightarrow> bool" and inv :: "'s \<Rightarrow> bool" +
  fixes content :: "'s \<Rightarrow> 'b list option"
    and put :: "'e \<Rightarrow> 's \<Rightarrow> 'b list"
    and got :: "'e \<Rightarrow> 's \<Rightarrow> 'b list"
  assumes gone_stays: "inv s \<Longrightarrow> ok e s \<Longrightarrow> content s = None \<Longrightarrow> content (step e s) = None"
    and balance: "inv s \<Longrightarrow> ok e s \<Longrightarrow> content s = Some c \<Longrightarrow> content (step e s) = Some c' \<Longrightarrow>
      c @ put e s = got e s @ c'"
begin

lemma gone_run: "inv s \<Longrightarrow> run_ok ok step es s \<Longrightarrow> content s = None \<Longrightarrow> content (fold step es s) = None"
  by (induction es arbitrary: s) (simp_all add: inv_step gone_stays)

text \<open>What was in the stream and was put in since is what was taken and what is left.\<close>

lemma stream_run:
  "inv s \<Longrightarrow> run_ok ok step es s \<Longrightarrow> content s = Some c \<Longrightarrow> content (fold step es s) = Some c' \<Longrightarrow>
     c @ gather put step es s = gather got step es s @ c'"
proof (induction es arbitrary: s c)
  case Nil
  then show ?case by simp
next
  case (Cons e es)
  have inv: "inv (step e s)" using Cons.prems inv_step by simp
  obtain d where d: "content (step e s) = Some d"
    using gone_run [OF inv, of es] Cons.prems by (cases "content (step e s)") auto
  have "c @ put e s = got e s @ d"
    using balance Cons.prems d by simp
  moreover have "d @ gather put step es (step e s) = gather got step es (step e s) @ c'"
    using Cons.IH [OF inv _ d] Cons.prems by simp
  ultimately show ?case by (metis append.assoc gather.simps(2))
qed

end

text \<open>A machine that keeps a stock: what its events bring in is what they take out and what stays.\<close>

locale ledger_machine = guarded_machine step ok inv
  for step :: "'e \<Rightarrow> 's \<Rightarrow> 's" and ok :: "'e \<Rightarrow> 's \<Rightarrow> bool" and inv :: "'s \<Rightarrow> bool" +
  fixes stock :: "'s \<Rightarrow> 'b multiset"
    and income :: "'e \<Rightarrow> 's \<Rightarrow> 'b list"
    and outgo :: "'e \<Rightarrow> 's \<Rightarrow> 'b list"
  assumes ledger: "inv s \<Longrightarrow> ok e s \<Longrightarrow>
      stock s + mset (income e s) = mset (outgo e s) + stock (step e s)"
begin

lemma ledger_run:
  "inv s \<Longrightarrow> run_ok ok step es s \<Longrightarrow>
     stock s + mset (gather income step es s) = mset (gather outgo step es s) + stock (fold step es s)"
proof (induction es arbitrary: s)
  case (Cons e es)
  have inv: "inv s" and ok: "ok e s" and run: "run_ok ok step es (step e s)" using Cons.prems by simp_all
  let ?in = "gather income step es (step e s)" and ?out = "gather outgo step es (step e s)"
  have "stock s + mset (gather income step (e # es) s) = (stock s + mset (income e s)) + mset ?in"
    by (simp add: add.assoc)
  also have "\<dots> = mset (outgo e s) + (stock (step e s) + mset ?in)"
    unfolding ledger [OF inv ok] by (simp only: add.assoc)
  also have "\<dots> = mset (outgo e s) + (mset ?out + stock (fold step es (step e s)))"
    unfolding Cons.IH [OF inv_step [OF inv ok] run] ..
  finally show ?case by (simp add: add.assoc)
qed simp

end

end
