(* ===== verification/PipeStream.thy ===== *)
theory PipeStream imports Pipe Streams begin

text \<open>
  What pipes promise (\<^verbatim>\<open>kernel/src/ipc/pipe.rs\<close>): handles decode to what they were made of, every
  byte is delivered once and in order whatever calls interleave, a write of at most
  \<^verbatim>\<open>PIPE_BUF\<close> bytes is never split, a closed end never blocks the other, and a parked task is woken
  by whatever makes its wait pointless.
\<close>

section \<open>Handles\<close>

lemma low_bits: "x AND (push_bit n 1 - 1) = take_bit n (x :: 'a::len word)"
  by (simp add: take_bit_eq_mask mask_eq_decr_exp push_bit_eq_mult)

lemma handle_new_take: "handle_new i e =
    (case e of ReadEnd \<Rightarrow> push_bit 1 (take_bit 40 i) | WriteEnd \<Rightarrow> push_bit 1 (take_bit 40 i) OR 1
     | BothEnds \<Rightarrow> push_bit 1 (take_bit 40 i) OR push_bit 61 1)"
  unfolding handle_new_def Let_def low_bits ID_BITS_def BOTH_BIT_def ..

lemma bit_shifted: "bit (push_bit 1 (take_bit 40 i) :: u64) n \<longleftrightarrow> 1 \<le> n \<and> n \<le> 40 \<and> bit i (n - 1)"
  by (auto simp only: bit_push_bit_iff bit_take_bit_iff possible_bit_word) auto

lemma bit_flag: "k < 64 \<Longrightarrow> bit (push_bit k 1 :: u64) n \<longleftrightarrow> n = k"
  by (auto simp only: bit_push_bit_iff possible_bit_word bit_1_iff) auto

lemma bit_handle:
  "bit (handle_new i e) n \<longleftrightarrow>
     (1 \<le> n \<and> n \<le> 40 \<and> bit i (n - 1)) \<or> (e = WriteEnd \<and> n = 0) \<or> (e = BothEnds \<and> n = 61)"
  by (cases e)
    (simp_all only: handle_new_take pipe_end.case bit_shifted bit_or_iff bit_flag bit_1_iff, auto)

lemma and_flag: "k < 64 \<Longrightarrow> h AND push_bit k 1 \<noteq> (0 :: u64) \<longleftrightarrow> bit h k"
  by (metis and_exp_eq_0_iff_not_bit push_bit_of_1)

text \<open>What the decoders read off the bits.\<close>

lemma handle_end_bits:
  "handle_end h = (if bit h 61 then BothEnds else if bit h 0 then WriteEnd else ReadEnd)"
  using and_flag [of 61 h] and_flag [of 0 h]
  by (simp only: handle_end_def BOTH_BIT_def push_bit_of_1 power_0) auto

lemma bit_pipe_id: "bit (handle_pipe_id h) n \<longleftrightarrow> n < 40 \<and> bit h (Suc n)"
  by (simp only: handle_pipe_id_def low_bits ID_BITS_def bit_take_bit_iff bit_drop_bit_eq comp_def add_Suc plus_nat.add_0 One_nat_def)

lemma bit_with_seen:
  "bit (with_seen h w) n \<longleftrightarrow> bit h n \<or> n = 62 \<or> (41 \<le> n \<and> n < 61 \<and> bit w (n - 41))"
proof -
  have "bit (push_bit 41 (take_bit 20 (ucast w)) :: u64) n \<longleftrightarrow> 41 \<le> n \<and> n < 61 \<and> bit w (n - 41)"
    by (auto simp only: bit_push_bit_iff bit_take_bit_iff possible_bit_word bit_ucast_iff) auto
  moreover have sixty_two: "bit (push_bit 62 1 :: u64) n \<longleftrightarrow> n = 62"
    by (rule bit_flag) simp
  ultimately show ?thesis
    by (simp only: with_seen_def Let_def low_bits SEEN_BITS_def SEEN_SHIFT_def SEEN_FLAG_def
        bit_or_iff sixty_two)
qed

lemma seen_writers_bits:
  "seen_writers h = (if bit h 62 then Some (ucast (take_bit 20 (drop_bit 41 h))) else None)"
  using and_flag [of 62 h]
  by (simp only: seen_writers_def SEEN_FLAG_def SEEN_SHIFT_def SEEN_BITS_def low_bits)

text \<open>
  A handle decodes to what it was made of: the pipe (for the 2^40 ids the encoding has room
  for) and the end; remembering a writer count changes neither and the count comes back modulo
  2^20; an ordinary handle remembers none; and no handle is negative as a signed answer.
\<close>

theorem pipe_handle_roundtrip:
  assumes "i < 2 ^ 40"
  shows "handle_pipe_id (handle_new i e) = i \<and> handle_end (handle_new i e) = e
    \<and> seen_writers (handle_new i e) = None
    \<and> handle_pipe_id (with_seen (handle_new i e) w) = i \<and> handle_end (with_seen (handle_new i e) w) = e
    \<and> seen_writers (with_seen (handle_new i e) w) = Some (take_bit 20 w)
    \<and> \<not> bit (with_seen (handle_new i e) w) 63"
proof -
  have high: "\<not> bit i n" if "40 \<le> n" for n
  proof -
    have "take_bit 40 (unat i) = unat i"
      using assms by (intro take_bit_nat_eq_self) (simp add: word_less_nat_alt)
    then have "take_bit 40 i = i"
      by (metis unsigned_word_eqI unsigned_take_bit_eq)
    with that show ?thesis by (metis bit_take_bit_iff linorder_not_less)
  qed
  have ids: "handle_pipe_id (handle_new i e) = i" "handle_pipe_id (with_seen (handle_new i e) w) = i"
  proof -
    have "bit (handle_pipe_id (handle_new i e)) n = bit i n"
      "bit (handle_pipe_id (with_seen (handle_new i e) w)) n = bit i n" for n
      by (cases "40 \<le> n"; simp add: bit_pipe_id bit_with_seen bit_handle high)+
    then show "handle_pipe_id (handle_new i e) = i" "handle_pipe_id (with_seen (handle_new i e) w) = i"
      by (auto intro: bit_word_eqI)
  qed
  have seen: "ucast (take_bit 20 (drop_bit 41 (with_seen (handle_new i e) w))) = take_bit 20 w"
    by (rule bit_word_eqI)
      (simp only: bit_ucast_iff bit_take_bit_iff bit_drop_bit_eq comp_def bit_with_seen bit_handle possible_bit_word, auto)
  show ?thesis
    using ids seen by (cases e) (simp_all add: handle_end_bits seen_writers_bits bit_with_seen bit_handle)
qed

theorem pipe_handle_roundtrip_witness:
  "handle_pipe_id (with_seen (handle_new 7 ReadEnd) 3) = 7"
  using pipe_handle_roundtrip [of 7 ReadEnd 3] by simp

section \<open>Turns on one pipe\<close>

text \<open>Every pipe's state is consistent: the ring, and each closed flag with its reference count.\<close>

definition pipe_ok :: "pipe \<Rightarrow> bool" where
  "pipe_ok p \<longleftrightarrow> ring_ok p \<and> (pp_read_closed p \<longleftrightarrow> pp_reader_refcount p = 0)
     \<and> (pp_write_closed p \<longleftrightarrow> pp_writer_refcount p = 0)"

text \<open>Who is parked as a reader has nothing to read; as a writer, a reader and a nearly full ring.\<close>

definition readers_wait :: "pipe \<Rightarrow> bool" where
  "readers_wait p \<longleftrightarrow> (pp_readers p \<noteq> [] \<longrightarrow> pp_len p = 0 \<and> \<not> pp_write_closed p)"

definition writers_wait :: "pipe \<Rightarrow> bool" where
  "writers_wait p \<longleftrightarrow> (pp_writers p \<noteq> [] \<longrightarrow> pipe_writable p < PIPE_BUF \<and> \<not> pp_read_closed p)"

lemma contents_cong [simp]:
  "contents (p\<lparr>pp_readers := r\<rparr>) = contents p" "contents (p\<lparr>pp_writers := w\<rparr>) = contents p"
  "contents (p\<lparr>pp_reader_refcount := n\<rparr>) = contents p" "contents (p\<lparr>pp_writer_refcount := n\<rparr>) = contents p"
  "contents (p\<lparr>pp_read_closed := b\<rparr>) = contents p" "contents (p\<lparr>pp_write_closed := b\<rparr>) = contents p"
  "contents (p\<lparr>pp_fifo := l\<rparr>) = contents p"
  by (simp_all add: contents_def)

lemma ring_ok_cong [simp]:
  "ring_ok (p\<lparr>pp_readers := r\<rparr>) = ring_ok p" "ring_ok (p\<lparr>pp_writers := w\<rparr>) = ring_ok p"
  "ring_ok (p\<lparr>pp_reader_refcount := n\<rparr>) = ring_ok p" "ring_ok (p\<lparr>pp_writer_refcount := n\<rparr>) = ring_ok p"
  "ring_ok (p\<lparr>pp_read_closed := b\<rparr>) = ring_ok p" "ring_ok (p\<lparr>pp_write_closed := b\<rparr>) = ring_ok p"
  "ring_ok (p\<lparr>pp_fifo := l\<rparr>) = ring_ok p"
  by (simp_all add: ring_ok_def)

lemma writable_cong [simp]:
  "pipe_writable (p\<lparr>pp_readers := r\<rparr>) = pipe_writable p" "pipe_writable (p\<lparr>pp_writers := w\<rparr>) = pipe_writable p"
  by (simp_all add: pipe_writable_def)

text \<open>The wait leaves everything but the writers' set alone.\<close>

lemma write_wait_cases:
  obtains p' woken dl' r where "write_wait patience task now signal sofar dl p = (p', woken, sofar, dl', r)"
    and "woken = []" and "r \<noteq> Again"
    and "r \<noteq> Parked \<Longrightarrow> p' = p" and "r = Parked \<Longrightarrow> p' = p\<lparr>pp_writers := ws_insert task (pp_writers p)\<rparr>"
    and "\<And>k. r = Finished (Ok k) \<Longrightarrow> 0 < sofar"
proof (cases "ends_now now patience dl")
  case (Pair d e)
  then show ?thesis
    by (cases e; cases signal) (auto simp: write_wait_def so_far_def intro: that split: if_splits)
qed

text \<open>
  A turn of a write puts in a run of the data from where it stood, wakes every reader if it put
  anything in (or had nothing left to), and is finished or goes round; or it changes nothing but
  its own registration.
\<close>

lemma write_turn_cases:
  assumes ok: "ring_ok p"
  obtains (wrote) data q n where "from = WData data" and "\<not> pp_read_closed p"
      and "if length data \<le> PIPE_BUF then length (drop sofar data) \<le> pipe_writable p else 0 < pipe_writable p"
      and "write_bytes (drop sofar data) (p\<lparr>pp_writers := ws_remove task (pp_writers p)\<rparr>) = (q, n)"
      and "write_turn from patience task now signal sofar dl p
         = (q\<lparr>pp_readers := []\<rparr>, pp_readers p, sat_add64 sofar n, dl,
            if length data \<le> sat_add64 sofar n then Finished (Ok (sat_add64 sofar n)) else Again)"
    | (quit) dl' r where "write_turn from patience task now signal sofar dl p
         = (p\<lparr>pp_writers := ws_remove task (pp_writers p)\<rparr>, [], sofar, dl', Finished r)"
      and "\<And>k. from \<noteq> WProbe \<Longrightarrow> r = Ok k \<Longrightarrow> 0 < sofar"
    | (park) dl' where "write_turn from patience task now signal sofar dl p
         = (p\<lparr>pp_writers := ws_insert task (ws_remove task (pp_writers p))\<rparr>, [], sofar, dl', Parked)"
      and "\<not> pp_read_closed p" and "pipe_writable p < PIPE_BUF"
proof -
  let ?q = "p\<lparr>pp_writers := ws_remove task (pp_writers p)\<rparr>"
  let ?fits = "\<lambda>data. if length data \<le> PIPE_BUF then length (drop sofar data) \<le> pipe_writable p else 0 < pipe_writable p"
  consider (closed) "pp_read_closed p"
    | (data) data where "\<not> pp_read_closed p" "from = WData data" "?fits data"
    | (probe) "\<not> pp_read_closed p" "from = WProbe" "0 < pipe_writable p"
    | (wait) "\<not> pp_read_closed p" "pipe_writable p < PIPE_BUF"
        "write_turn from patience task now signal sofar dl p = write_wait patience task now signal sofar dl ?q"
  proof (cases "pp_read_closed p")
    case False
    show ?thesis
    proof (cases "from")
      case (WData data)
      show ?thesis
      proof (cases "?fits data")
        case True
        with False WData data show ?thesis by blast
      next
        case no: False
        then have "pipe_writable p < PIPE_BUF"
          by (auto split: if_splits simp: PIPE_BUF_def)
        moreover have "write_turn from patience task now signal sofar dl p
            = write_wait patience task now signal sofar dl ?q"
          using False WData no by (auto simp: write_turn_def Let_def split: if_splits)
        ultimately show ?thesis using False wait by blast
      qed
    next
      case WProbe
      with False show ?thesis
        using probe wait by (cases "0 < pipe_writable p") (auto simp: write_turn_def Let_def PIPE_BUF_def)
    qed
  qed (use closed in blast)
  then show ?thesis
  proof cases
    case closed
    then have "write_turn from patience task now signal sofar dl p
        = (?q, [], sofar, dl, Finished (so_far sofar ChannelClosed))"
      by (simp add: write_turn_def Let_def)
    then show ?thesis by (rule quit) (auto simp: so_far_def split: if_splits)
  next
    case data
    obtain q n where wb: "write_bytes (drop sofar data) ?q = (q, n)" by fastforce
    then have "pp_readers q = pp_readers p"
      using bytes_frame [of "drop sofar data" ?q q n] by simp
    moreover have "\<not> pp_read_closed ?q" using data(1) by simp
    ultimately have "write_turn from patience task now signal sofar dl p
         = (q\<lparr>pp_readers := []\<rparr>, pp_readers p, sat_add64 sofar n, dl,
            if length data \<le> sat_add64 sofar n then Finished (Ok (sat_add64 sofar n)) else Again)"
      by (simp only: write_turn_def Let_def data(1,2) write_from.case writable_cong pipe.simps
          if_P [OF data(3)] if_False wb prod.case ws_new_simps)
    from wrote [OF data(2,1,3) wb this] show ?thesis .
  next
    case probe
    then show ?thesis by (intro quit [of dl "Ok 1"]) (simp_all add: write_turn_def Let_def)
  next
    case wait
    show ?thesis
    proof (rule write_wait_cases [of patience task now signal sofar dl ?q])
      fix p' woken dl' r
      assume w: "write_wait patience task now signal sofar dl ?q = (p', woken, sofar, dl', r)" "woken = []"
        "r \<noteq> Again" "r \<noteq> Parked \<Longrightarrow> p' = ?q" "r = Parked \<Longrightarrow> p' = ?q\<lparr>pp_writers := ws_insert task (pp_writers ?q)\<rparr>"
        "\<And>k. r = Finished (Ok k) \<Longrightarrow> 0 < sofar"
      show ?thesis
      proof (cases r)
        case (Finished x)
        with w wait(3) show ?thesis by (intro quit [of dl' x]) simp_all
      next
        case Parked
        with w wait show ?thesis by (intro park) simp_all
      qed (use w in simp)
    qed
  qed
qed

lemma read_turn_cases:
  assumes ok: "ring_ok p"
  obtains (took) n q out where "into = RBuffer n" and "out \<noteq> []"
      and "read_bytes n (p\<lparr>pp_readers := ws_remove task (pp_readers p)\<rparr>) = (q, out)"
      and "read_turn into patience task now signal dl p
         = (q\<lparr>pp_writers := []\<rparr>, pp_writers p, dl, Finished (Ok (length out), out))"
    | (quit) dl' r where "read_turn into patience task now signal dl p
         = (p\<lparr>pp_readers := ws_remove task (pp_readers p)\<rparr>, [], dl', Finished (r, []))"
      and "\<And>n. into = RBuffer n \<Longrightarrow> 0 < n \<Longrightarrow> pp_len p = 0"
      and "pp_write_closed p \<Longrightarrow> into \<noteq> RBuffer 0 \<Longrightarrow>
         r = Ok (if 0 < pp_len p then 1 else 0)"
    | (park) dl' where "read_turn into patience task now signal dl p
         = (p\<lparr>pp_readers := ws_insert task (ws_remove task (pp_readers p))\<rparr>, [], dl', Parked)"
      and "\<not> pp_write_closed p" and "into \<noteq> RBuffer 0 \<Longrightarrow> pp_len p = 0"
proof -
  let ?q = "p\<lparr>pp_readers := ws_remove task (pp_readers p)\<rparr>"
  let ?none = "if pp_write_closed p then (?q, [], dl, Finished (Ok 0, []))
     else case ends_now now patience dl of
         (dl, Some e) \<Rightarrow> (?q, [], dl, Finished (Err e, []))
       | (dl, None) \<Rightarrow>
           if signal then (?q, [], dl, Finished (Err Interrupted, []))
           else (?q\<lparr>pp_readers := ws_insert task (pp_readers ?q)\<rparr>, [], dl, Parked)"
  have idle: thesis
    if turn: "read_turn into patience task now signal dl p = ?none"
      and empty: "into \<noteq> RBuffer 0 \<Longrightarrow> pp_len p = 0"
  proof (cases "pp_write_closed p")
    case True
    with turn empty show ?thesis by (intro quit [of dl "Ok 0"]) simp_all
  next
    case False
    obtain d e where "ends_now now patience dl = (d, e)" by fastforce
    with turn empty False show ?thesis
      by (cases e; cases signal) (auto intro: quit park)
  qed
  show ?thesis
  proof (cases into)
    case (RBuffer n)
    obtain q out where rb: "read_bytes n ?q = (q, out)" by fastforce
    show ?thesis
    proof (cases "out = []")
      case True
      have "take n (contents ?q) = []"
        using read_bytes_spec [of ?q n q out] rb ok True by simp
      then have none: "n = 0 \<or> pp_len p = 0" by simp
      moreover from none have "q = ?q" using rb by (auto simp: read_bytes_def)
      ultimately show ?thesis
        using RBuffer rb True by (intro idle) (auto simp: read_turn_def Let_def)
    next
      case False
      have "pp_writers q = pp_writers p"
        using bytes_frame [of _ ?q q _ n out] rb by simp
      with RBuffer rb False show ?thesis
        by (intro took [OF RBuffer False rb]) (simp add: read_turn_def Let_def)
    qed
  next
    case RProbe
    show ?thesis
    proof (cases "0 < pp_len p")
      case True
      with RProbe show ?thesis
        by (intro quit [of dl "Ok 1"]) (simp_all add: read_turn_def Let_def pipe_readable_def)
    next
      case False
      with RProbe show ?thesis
        by (intro idle) (simp_all add: read_turn_def Let_def pipe_readable_def)
    qed
  qed
qed

lemma resize_contents:
  assumes "ring_ok p" and "pp_len p \<le> new_cap"
  shows "contents (resize_pipe new_cap p) = contents p" and "ring_ok (resize_pipe new_cap p)"
    and "length (pp_buf (resize_pipe new_cap p)) = new_cap" and "pp_len (resize_pipe new_cap p) = pp_len p"
proof -
  let ?q = "resize_pipe new_cap p"
  define f where "f = min (pp_len p) (length (pp_buf p) - pp_head p)"
  define pieces where "pieces = piece (pp_head p) f (pp_buf p)
     @ (if 0 < pp_len p - f then piece 0 (pp_len p - f) (pp_buf p) else [])"
  have "pp_head p < length (pp_buf p) \<Longrightarrow> pieces = contents p"
    using assms(1) unfolding pieces_def f_def contents_def ring_ok_def
    by (intro two_pieces) auto
  moreover have "pp_len p = 0 \<or> pp_head p < length (pp_buf p)" using assms(1) by (auto simp: ring_ok_def)
  ultimately have buf: "take (pp_len p) (pp_buf ?q) = contents p \<and> length (pp_buf ?q) = new_cap"
  proof (cases "pp_len p = 0")
    case True
    then show ?thesis by (simp add: resize_pipe_def contents_def)
  next
    case False
    then have h: "pp_head p < length (pp_buf p)" using assms(1) by (auto simp: ring_ok_def)
    then have pieces: "pieces = contents p"
      by (rule \<open>pp_head p < length (pp_buf p) \<Longrightarrow> pieces = contents p\<close>)
    have lens: "length (piece (pp_head p) f (pp_buf p)) = f" "f \<le> pp_len p"
      "length (piece 0 (pp_len p - f) (pp_buf p)) = pp_len p - f"
      using h assms(1) by (auto simp: f_def ring_ok_def piece_def)
    have "pp_buf ?q = pieces @ replicate (new_cap - pp_len p) 0"
      using False lens assms(2)
      by (auto simp: resize_pipe_def Let_def f_def [symmetric] copy_at_def pieces_def)
    then show ?thesis using pieces assms(2) by simp
  qed
  have head: "pp_head ?q = 0" and len: "pp_len ?q = pp_len p" by (simp_all add: resize_pipe_def Let_def)
  show "length (pp_buf ?q) = new_cap" using buf by simp
  show "pp_len ?q = pp_len p" by (rule len)
  show "ring_ok ?q" using buf assms(2) head len by (simp add: ring_ok_def)
  show "contents ?q = contents p"
  proof (rule nth_equalityI)
    show "length (contents ?q) = length (contents p)" by (simp add: len)
  next
    fix i assume "i < length (contents ?q)"
    then have i: "i < pp_len p" by (simp add: len)
    then have "contents ?q ! i = pp_buf ?q ! i"
      using assms(2) buf by (simp add: contents_nth head len)
    also have "\<dots> = contents p ! i" using i buf by (metis nth_take)
    finally show "contents ?q ! i = contents p ! i" .
  qed
qed

lemma resize_frame [simp]:
  "pp_readers (resize_pipe c p) = pp_readers p" "pp_writers (resize_pipe c p) = pp_writers p"
  "pp_read_closed (resize_pipe c p) = pp_read_closed p" "pp_write_closed (resize_pipe c p) = pp_write_closed p"
  "pp_reader_refcount (resize_pipe c p) = pp_reader_refcount p"
  "pp_writer_refcount (resize_pipe c p) = pp_writer_refcount p"
  by (simp_all add: resize_pipe_def Let_def)

section \<open>Runs\<close>

datatype (plugins only: code size) pipe_event =
    EvCreate
  | EvWrite pipe_handle write_from patience task_id nat bool nat deadline
  | EvRead pipe_handle read_into patience task_id nat bool deadline
  | EvDup pipe_handle
  | EvClose pipe_handle
  | EvSetCapacity bool pipe_handle nat
  | EvRegister pipe_handle task_id
  | EvDeregister pipe_handle task_id
  | EvFifoCreate "u64 \<times> u64" u64 string
  | EvFifoAttach u64 fifo_access bool
  | EvFifoWait pipe_handle fifo_partner task_id bool
  | EvFifoDrop u64

fun pipe_step :: "pipe_event \<Rightarrow> pipes \<Rightarrow> pipes" where
  "pipe_step EvCreate s = fst (pipe_create s)"
| "pipe_step (EvWrite h src pt t now sig n dl) s = fst (write_on h src pt t now sig n dl s)"
| "pipe_step (EvRead h into pt t now sig dl) s = fst (read_on h into pt t now sig dl s)"
| "pipe_step (EvDup h) s = fst (pipe_dup h s)"
| "pipe_step (EvClose h) s = fst (pipe_close h s)"
| "pipe_step (EvSetCapacity memory h c) s = fst (pipe_set_capacity memory h c s)"
| "pipe_step (EvRegister h t) s = pipe_register_waiter h t s"
| "pipe_step (EvDeregister h t) s = pipe_deregister_waiter h t s"
| "pipe_step (EvFifoCreate i hold path) s = fst (fifo_create i hold path s)"
| "pipe_step (EvFifoAttach i access nonblock) s = fst (fifo_attach i access nonblock s)"
| "pipe_step (EvFifoWait h partner t sig) s = fst (fifo_wait_turn h partner t sig s)"
| "pipe_step (EvFifoDrop i) s = fst (fifo_drop_if_unused i s)"

text \<open>The tasks an event wakes.\<close>

fun pipe_woken :: "pipe_event \<Rightarrow> pipes \<Rightarrow> task_id list" where
  "pipe_woken (EvWrite h src pt t now sig n dl) s = fst (snd (write_on h src pt t now sig n dl s))"
| "pipe_woken (EvRead h into pt t now sig dl) s = fst (snd (read_on h into pt t now sig dl s))"
| "pipe_woken (EvClose h) s = fst (snd (pipe_close h s))"
| "pipe_woken (EvSetCapacity memory h c) s = fst (snd (pipe_set_capacity memory h c s))"
| "pipe_woken (EvFifoAttach i access nonblock) s = fst (snd (fifo_attach i access nonblock s))"
| "pipe_woken _ s = []"

text \<open>The bytes the callers are told have gone into pipe \<open>i\<close>, and those they got out of it.\<close>

fun pipe_put :: "u64 \<Rightarrow> pipe_event \<Rightarrow> pipes \<Rightarrow> u8 list" where
  "pipe_put i (EvWrite h (WData data) pt t now sig n dl) s =
     (if handle_pipe_id h = i
      then case write_on h (WData data) pt t now sig n dl s of (_, _, n', _) \<Rightarrow> take (n' - n) (drop n data)
      else [])"
| "pipe_put i _ s = []"

fun pipe_got :: "u64 \<Rightarrow> pipe_event \<Rightarrow> pipes \<Rightarrow> u8 list" where
  "pipe_got i (EvRead h into pt t now sig dl) s =
     (if handle_pipe_id h = i
      then case read_on h into pt t now sig dl s of
          (_, _, _, Finished (_, out)) \<Rightarrow> out | _ \<Rightarrow> []
      else [])"
| "pipe_got i _ s = []"

text \<open>
  What is assumed of an event: a write stands within its data, a read has a buffer to fill (both
  checked or kept by the calls), and a new pipe's id has not come round.
\<close>

fun event_ok :: "pipe_event \<Rightarrow> pipes \<Rightarrow> bool" where
  "event_ok (EvWrite h (WData data) pt t now sig n dl) s \<longleftrightarrow> n \<le> length data \<and> length data \<le> u64_max"
| "event_ok (EvRead h into pt t now sig dl) s \<longleftrightarrow> into \<noteq> RBuffer 0"
| "event_ok EvCreate s \<longleftrightarrow> unat (ps_next_id s) + 1 < 2 ^ 64"
| "event_ok (EvFifoCreate _ _ _) s \<longleftrightarrow> unat (ps_next_id s) + 1 < 2 ^ 64"
| "event_ok _ s \<longleftrightarrow> True"

definition pipes_ok :: "pipes \<Rightarrow> bool" where
  "pipes_ok s \<longleftrightarrow> bt_ok (ps_table s)
     \<and> (\<forall>i p. bt_get (ps_table s) i = Some p \<longrightarrow> i < ps_next_id s \<and> pipe_ok p)"

text \<open>What an event makes of one pipe: the pipe afterwards, or none when it is taken away.\<close>

fun pipe_effect :: "pipe_event \<Rightarrow> u64 \<Rightarrow> pipe \<Rightarrow> pipe option" where
  "pipe_effect (EvWrite h src pt t now sig n dl) i p =
     Some (if handle_pipe_id h = i then fst (write_turn src pt t now sig n dl p) else p)"
| "pipe_effect (EvRead h into pt t now sig dl) i p =
     Some (if handle_pipe_id h = i then fst (read_turn into pt t now sig dl p) else p)"
| "pipe_effect (EvDup h) i p =
     Some (if handle_pipe_id h = i then case dup_pipe h p of Inl _ \<Rightarrow> p | Inr q \<Rightarrow> q else p)"
| "pipe_effect (EvClose h) i p =
     (if handle_pipe_id h = i
      then let q = fst (close_pipe h p) in if pp_read_closed q \<and> pp_write_closed q then None else Some q
      else Some p)"
| "pipe_effect (EvSetCapacity memory h c) i p =
     Some (if handle_pipe_id h = i \<and> c \<le> MAX_PIPE_BUFFER_CAPACITY \<and> memory \<and> pp_len p \<le> c
           then resize_pipe c p else p)"
| "pipe_effect (EvRegister h t) i p =
     Some (if handle_pipe_id h = i
           then p\<lparr>pp_readers := ws_insert t (pp_readers p), pp_writers := ws_insert t (pp_writers p)\<rparr> else p)"
| "pipe_effect (EvDeregister h t) i p =
     Some (if handle_pipe_id h = i
           then p\<lparr>pp_readers := ws_remove t (pp_readers p), pp_writers := ws_remove t (pp_writers p)\<rparr> else p)"
| "pipe_effect (EvFifoAttach j access nonblock) i p =
     Some (if j = i then case attach_pipe i access nonblock p of Inl _ \<Rightarrow> p | Inr (q, _) \<Rightarrow> q else p)"
| "pipe_effect (EvFifoWait h partner t sig) i p =
     Some (if handle_pipe_id h = i
           then p\<lparr>pp_fifo := map_option (\<lambda>l. fst (partner_turn partner t sig l)) (pp_fifo p)\<rparr> else p)"
| "pipe_effect (EvFifoDrop j) i p =
     (if j = i \<and> pp_fifo p \<noteq> None \<and> pp_reader_refcount p = 0 \<and> pp_writer_refcount p = 0
      then None else Some p)"
| "pipe_effect _ i p = Some p"

lemma put_pipe_get:
  "bt_get (ps_table (put_pipe j q s)) i =
     (if i = j then map_option (\<lambda>_. q) (bt_get (ps_table s) j) else bt_get (ps_table s) i)"
  by (simp add: put_pipe_def)

lemma put_pipe_simps [simp]:
  "bt_ok (ps_table (put_pipe j q s)) = bt_ok (ps_table s)" "ps_next_id (put_pipe j q s) = ps_next_id s"
  by (simp_all add: put_pipe_def)

lemma fifo_same: "pp_fifo p = None \<Longrightarrow> p\<lparr>pp_fifo := None\<rparr> = p"
  by (cases p) simp

lemma pipe_step_effect:
  assumes "pipes_ok s" and "bt_get (ps_table s) i = Some p"
  shows "event_ok e s \<Longrightarrow> bt_get (ps_table (pipe_step e s)) i = pipe_effect e i p"
  using assms
  by (cases e)
    (auto simp: pipes_ok_def pipe_create_def alloc_pipe_id_def fifo_create_def Let_def
      write_on_def read_on_def pipe_dup_def pipe_close_def pipe_set_capacity_def
      pipe_register_waiter_def pipe_deregister_waiter_def fifo_attach_def fifo_wait_turn_def
      fifo_drop_if_unused_def put_pipe_get fifo_same not_less split: option.splits prod.splits sum.splits)

section \<open>Consistency\<close>

lemma pipe_ok_cong [simp]:
  "pipe_ok (p\<lparr>pp_readers := r\<rparr>) = pipe_ok p" "pipe_ok (p\<lparr>pp_writers := w\<rparr>) = pipe_ok p"
  "pipe_ok (p\<lparr>pp_fifo := l\<rparr>) = pipe_ok p"
  by (simp_all add: pipe_ok_def)

lemma write_bytes_pipe_ok: "pipe_ok p \<Longrightarrow> write_bytes data p = (q, n) \<Longrightarrow> pipe_ok q"
  using write_bytes_spec [of p data q n] bytes_frame [of data p q n] by (simp add: pipe_ok_def)

lemma read_bytes_pipe_ok: "pipe_ok p \<Longrightarrow> read_bytes n p = (q, out) \<Longrightarrow> pipe_ok q"
  using read_bytes_spec [of p n q out] bytes_frame [of _ p q _ n out] by (simp add: pipe_ok_def)

lemma write_turn_ok:
  assumes "pipe_ok p"
  shows "pipe_ok (fst (write_turn src pt t now sig n dl p))"
proof -
  have r: "ring_ok p" using assms by (simp add: pipe_ok_def)
  show ?thesis
    by (rule write_turn_cases [OF r, where ?from = src and patience = pt and task = t and now = now
          and signal = sig and sofar = n and dl = dl])
      (use assms in \<open>auto dest: write_bytes_pipe_ok [rotated]\<close>)
qed

lemma read_turn_ok:
  assumes "pipe_ok p"
  shows "pipe_ok (fst (read_turn into pt t now sig dl p))"
proof -
  have r: "ring_ok p" using assms by (simp add: pipe_ok_def)
  show ?thesis
    by (rule read_turn_cases [OF r, where into = into and patience = pt and task = t and now = now
          and signal = sig and dl = dl])
      (use assms in \<open>auto dest: read_bytes_pipe_ok [rotated]\<close>)
qed

lemma dec32_zero: "saturating_dec32 n = 0 \<longleftrightarrow> n = 0 \<or> n = 1"
  by (auto simp: saturating_dec32_def)

lemma inc32_some:
  assumes "checked_inc32 n = Some m"
  shows "m = n + 1 \<and> m \<noteq> 0"
proof -
  from assms have m: "m = n + 1" and n: "unat n \<noteq> u32_max"
    by (auto simp: checked_inc32_def split: if_splits)
  have "n + 1 \<noteq> 0"
  proof
    assume "n + 1 = 0"
    then have "n = - 1" by (simp add: eq_neg_iff_add_eq_0)
    then have "unat n = u32_max" by (simp add: u32_max_def unsigned_minus_1_eq_mask mask_eq_exp_minus_1)
    with n show False by simp
  qed
  with m show ?thesis by simp
qed

lemma dup_ok: "pipe_ok p \<Longrightarrow> dup_pipe h p = Inr q \<Longrightarrow> pipe_ok q"
  by (auto simp: dup_pipe_def pipe_ok_def Let_def dest: inc32_some split: option.splits if_splits)

lemma close_ends_ok:
  "pipe_ok p \<Longrightarrow> pipe_ok (fst (close_read_end p))" "pipe_ok p \<Longrightarrow> pipe_ok (fst (close_write_end p))"
  by (auto simp: pipe_ok_def close_read_end_def close_write_end_def Let_def dec32_zero)

lemma close_ok: "pipe_ok p \<Longrightarrow> pipe_ok (fst (close_pipe h p))"
  using close_ends_ok by (auto simp: close_pipe_def split: prod.splits) (metis fst_conv)+

lemma attach_ok: "pipe_ok p \<Longrightarrow> attach_pipe i access nonblock p = Inr (q, r) \<Longrightarrow> pipe_ok q"
  by (cases access)
    (auto simp: attach_pipe_def pipe_ok_def Let_def dest: inc32_some split: option.splits if_splits prod.splits)

lemma resize_ok: "pipe_ok p \<Longrightarrow> pp_len p \<le> c \<Longrightarrow> pipe_ok (resize_pipe c p)"
  using resize_contents(2) [of p c] by (simp add: pipe_ok_def)

lemma effect_ok:
  assumes "pipe_ok p" and "pipe_effect e i p = Some q"
  shows "pipe_ok q"
  using assms
  by (cases e)
    (auto simp: write_turn_ok read_turn_ok close_ok resize_ok Let_def dest: dup_ok attach_ok
      split: if_splits sum.splits)

lemma pipe_new_ok: "pipe_ok (pipe_new DEFAULT_BUFFER_CAPACITY)"
  by (simp add: pipe_ok_def ring_ok_def pipe_new_def DEFAULT_BUFFER_CAPACITY_def)

text \<open>Only a creation makes a pipe, under the id the counter stood at.\<close>

lemma pipe_step_none:
  assumes "pipes_ok s" and "bt_get (ps_table s) i = None"
    and "event_ok e s" and "bt_get (ps_table (pipe_step e s)) i = Some q"
  shows "i = ps_next_id s \<and> ps_next_id (pipe_step e s) = ps_next_id s + 1 \<and> pipe_ok q
    \<and> pp_readers q = [] \<and> pp_writers q = []"
proof -
  have "pipe_ok ((pipe_new DEFAULT_BUFFER_CAPACITY)\<lparr>pp_reader_refcount := 0, pp_writer_refcount := 0,
      pp_read_closed := True, pp_write_closed := True, pp_fifo := l\<rparr>)" for l
    by (simp add: pipe_ok_def ring_ok_def pipe_new_def DEFAULT_BUFFER_CAPACITY_def)
  with assms pipe_new_ok show ?thesis
    by (cases e)
      (auto simp: pipes_ok_def pipe_create_def alloc_pipe_id_def fifo_create_def Let_def
        write_on_def read_on_def pipe_dup_def pipe_close_def pipe_set_capacity_def
        pipe_register_waiter_def pipe_deregister_waiter_def fifo_attach_def fifo_wait_turn_def
        fifo_drop_if_unused_def put_pipe_get pipe_new_def not_less split: option.splits prod.splits sum.splits if_splits)
qed

lemma pipe_step_next:
  "ps_next_id (pipe_step e s) = ps_next_id s \<or> ps_next_id (pipe_step e s) = ps_next_id s + 1"
  by (cases e)
    (auto simp: pipe_create_def alloc_pipe_id_def fifo_create_def Let_def
      write_on_def read_on_def pipe_dup_def pipe_close_def pipe_set_capacity_def
      pipe_register_waiter_def pipe_deregister_waiter_def fifo_attach_def fifo_wait_turn_def
      fifo_drop_if_unused_def split: option.splits prod.splits sum.splits)

lemma next_id_grows:
  assumes "event_ok e s" and "ps_next_id (pipe_step e s) \<noteq> ps_next_id s"
  shows "ps_next_id s < ps_next_id (pipe_step e s)"
proof -
  have "(\<exists>i hold path. e = EvFifoCreate i hold path) \<or> e = EvCreate"
    using assms(2)
    by (cases e)
      (auto simp: write_on_def read_on_def pipe_dup_def pipe_close_def pipe_set_capacity_def
        pipe_register_waiter_def pipe_deregister_waiter_def fifo_attach_def fifo_wait_turn_def
        fifo_drop_if_unused_def Let_def split: option.splits prod.splits sum.splits if_splits)
  then have room: "unat (ps_next_id s) + 1 < 2 ^ 64" using assms(1) by auto
  then have "unat (ps_next_id s + 1) = unat (ps_next_id s) + 1"
    by (subst unat_add_lem [THEN iffD1]) simp_all
  moreover have "ps_next_id (pipe_step e s) = ps_next_id s + 1"
    using assms(2) pipe_step_next [of e s] by simp
  ultimately show ?thesis by (simp add: word_less_nat_alt)
qed

lemma next_id_le: "event_ok e s \<Longrightarrow> ps_next_id s \<le> ps_next_id (pipe_step e s)"
  using next_id_grows [of e s] by (cases "ps_next_id (pipe_step e s) = ps_next_id s") auto

lemma pipe_step_table_ok: "pipes_ok s \<Longrightarrow> bt_ok (ps_table (pipe_step e s))"
  by (cases e)
    (auto simp: pipes_ok_def pipe_create_def alloc_pipe_id_def fifo_create_def Let_def
      write_on_def read_on_def pipe_dup_def pipe_close_def pipe_set_capacity_def
      pipe_register_waiter_def pipe_deregister_waiter_def fifo_attach_def fifo_wait_turn_def
      fifo_drop_if_unused_def split: option.splits prod.splits sum.splits)

lemma pipes_ok_step:
  assumes "pipes_ok s" and "event_ok e s"
  shows "pipes_ok (pipe_step e s)"
  unfolding pipes_ok_def
proof (intro conjI allI impI)
  show "bt_ok (ps_table (pipe_step e s))" by (rule pipe_step_table_ok [OF assms(1)])
next
  fix i q assume q: "bt_get (ps_table (pipe_step e s)) i = Some q"
  show "i < ps_next_id (pipe_step e s)"
  proof (cases "bt_get (ps_table s) i")
    case None
    then show ?thesis
      using pipe_step_none [OF assms(1) None assms(2) q] next_id_grows [OF assms(2)] by auto
  next
    case (Some p)
    then have "i < ps_next_id s" using assms(1) by (simp add: pipes_ok_def)
    then show ?thesis using next_id_le [OF assms(2)] by simp
  qed
  show "pipe_ok q"
  proof (cases "bt_get (ps_table s) i")
    case None
    then show ?thesis using pipe_step_none [OF assms(1) None assms(2) q] by simp
  next
    case (Some p)
    then show ?thesis
      using pipe_step_effect [OF assms(1) Some assms(2)] q effect_ok [of p e i q] assms(1)
      by (simp add: pipes_ok_def)
  qed
qed

section \<open>The byte stream\<close>

text \<open>A pipe that exists and keeps its place below the counter.\<close>

definition stream_inv :: "u64 \<Rightarrow> pipes \<Rightarrow> bool" where
  "stream_inv i s \<longleftrightarrow> pipes_ok s \<and> i < ps_next_id s"

definition stream_content :: "u64 \<Rightarrow> pipes \<Rightarrow> u8 list option" where
  "stream_content i s = map_option contents (bt_get (ps_table s) i)"

lemma stream_inv_step: "stream_inv i s \<Longrightarrow> event_ok e s \<Longrightarrow> stream_inv i (pipe_step e s)"
  using pipes_ok_step [of s e] next_id_le [of e s] by (auto simp: stream_inv_def)

lemma stream_gone:
  "stream_inv i s \<Longrightarrow> event_ok e s \<Longrightarrow> stream_content i s = None \<Longrightarrow> stream_content i (pipe_step e s) = None"
  using pipe_step_none [of s i e]
  by (cases "bt_get (ps_table (pipe_step e s)) i") (auto simp: stream_content_def stream_inv_def)

lemma contents_cong2 [simp]: "contents (p\<lparr>pp_reader_refcount := a, pp_writer_refcount := b\<rparr>) = contents p"
  by (simp add: contents_def)

lemma close_contents: "contents (fst (close_pipe h p)) = contents p"
  by (auto simp: close_pipe_def close_read_end_def close_write_end_def Let_def split: prod.splits)

lemma dup_contents: "dup_pipe h p = Inr q \<Longrightarrow> contents q = contents p"
  by (auto simp: dup_pipe_def Let_def split: option.splits if_splits)

lemma attach_contents: "attach_pipe i access nonblock p = Inr (q, r) \<Longrightarrow> contents q = contents p"
  by (auto simp: attach_pipe_def Let_def contents_def split: option.splits if_splits prod.splits)

lemma quiet_effect:
  assumes "\<nexists>h src pt t now sig n dl. e = EvWrite h src pt t now sig n dl"
    and "\<nexists>h into pt t now sig dl. e = EvRead h into pt t now sig dl"
    and "ring_ok p" and "pipe_effect e i p = Some q"
  shows "contents q = contents p"
  using assms
  by (cases e)
    (auto simp: close_contents resize_contents Let_def dest: dup_contents attach_contents
      split: if_splits sum.splits)

lemma write_turn_stream:
  assumes "ring_ok p" and "\<And>data. src = WData data \<Longrightarrow> n \<le> length data \<and> length data \<le> u64_max"
    and "write_turn src pt t now sig n dl p = (q, woken, n', dl', r)"
  shows "contents q = contents p @ (case src of WData data \<Rightarrow> take (n' - n) (drop n data) | WProbe \<Rightarrow> [])
     \<and> (src = WProbe \<longrightarrow> n' = n)"
  using assms(1)
proof (rule write_turn_cases [where ?from = src and patience = pt and task = t and now = now
      and signal = sig and sofar = n and dl = dl])
  fix data x m
  assume src: "src = WData data"
    and wb: "write_bytes (drop n data) (p\<lparr>pp_writers := ws_remove t (pp_writers p)\<rparr>) = (x, m)"
    and turn: "write_turn src pt t now sig n dl p = (x\<lparr>pp_readers := []\<rparr>, pp_readers p, sat_add64 n m, dl,
       if length data \<le> sat_add64 n m then Finished (Ok (sat_add64 n m)) else Again)"
  have spec: "m = min (length (drop n data)) (pipe_writable p) \<and> contents x = contents p @ take m (drop n data)"
    using write_bytes_spec [OF _ wb] assms(1) by simp
  then have "n + m \<le> u64_max" using assms(2) [OF src] by (auto simp: min_def)
  then have "sat_add64 n m = n + m" by (simp add: sat_add64_def)
  with turn assms(3) have "q = x\<lparr>pp_readers := []\<rparr>" "n' = n + m" by simp_all
  then show ?thesis using conjunct2 [OF spec] src by simp
qed (use assms(3) in \<open>auto split: write_from.splits\<close>)

lemma read_turn_stream:
  assumes "ring_ok p" and "read_turn into pt t now sig dl p = (q, woken, dl', r)"
  shows "contents p = (case r of Finished (_, out) \<Rightarrow> out | _ \<Rightarrow> []) @ contents q"
  using assms(1)
proof (rule read_turn_cases [where into = into and patience = pt and task = t and now = now
      and signal = sig and dl = dl])
  fix n x out
  assume "read_bytes n (p\<lparr>pp_readers := ws_remove t (pp_readers p)\<rparr>) = (x, out)"
    and turn: "read_turn into pt t now sig dl p
       = (x\<lparr>pp_writers := []\<rparr>, pp_writers p, dl, Finished (Ok (length out), out))"
  then have "out = take n (contents p) \<and> contents x = drop n (contents p)"
    using read_bytes_spec [of "p\<lparr>pp_readers := ws_remove t (pp_readers p)\<rparr>" n x out] assms(1) by simp
  then show ?thesis using turn assms(2) by simp
qed (use assms(2) in auto)

lemma stream_balance:
  assumes "stream_inv i s" and "event_ok e s" and "stream_content i s = Some c"
    and "stream_content i (pipe_step e s) = Some c'"
  shows "c @ pipe_put i e s = pipe_got i e s @ c'"
proof -
  obtain p where p: "bt_get (ps_table s) i = Some p" "c = contents p"
    using assms(3) by (auto simp: stream_content_def)
  have r: "ring_ok p" using assms(1) p(1) by (simp add: stream_inv_def pipes_ok_def pipe_ok_def)
  obtain q where q: "pipe_effect e i p = Some q" "c' = contents q"
    using assms(4) pipe_step_effect [OF _ p(1) assms(2)] assms(1)
    by (auto simp: stream_content_def stream_inv_def)
  show ?thesis
  proof (cases "(\<exists>h src pt t now sig n dl. e = EvWrite h src pt t now sig n dl) \<or>
      (\<exists>h into pt t now sig dl. e = EvRead h into pt t now sig dl)")
    case False
    then have "pipe_put i e s = []" "pipe_got i e s = []" by (cases e; auto)+
    with quiet_effect [of e p i q] False r q p show ?thesis by simp
  next
    case True
    then show ?thesis
    proof (elim disjE exE)
      fix h src pt t now sig n dl
      assume e: "e = EvWrite h src pt t now sig n dl"
      obtain x woken n' dl' res where turn: "write_turn src pt t now sig n dl p = (x, woken, n', dl', res)"
        by (metis prod_cases5)
      have "contents x = contents p @ (case src of WData data \<Rightarrow> take (n' - n) (drop n data) | WProbe \<Rightarrow> [])"
        using assms(2) e by (intro write_turn_stream [OF r _ turn, THEN conjunct1]) simp
      then show ?thesis
        using q p turn by (cases src) (auto simp: e write_on_def)
    next
      fix h into pt t now sig dl
      assume e: "e = EvRead h into pt t now sig dl"
      obtain x woken dl' res where turn: "read_turn into pt t now sig dl p = (x, woken, dl', res)"
        by (metis prod_cases4)
      from read_turn_stream [OF r turn] show ?thesis
        using q p turn by (auto simp: e read_on_def split: turn.splits)
    qed
  qed
qed

interpretation pipe_stream: stream_machine pipe_step event_ok "stream_inv i" "stream_content i" "pipe_put i" "pipe_got i"
  by unfold_locales (rule stream_inv_step stream_gone stream_balance; assumption)+

text \<open>
  C4: A pipe delivers exactly the bytes written, in order. Over any interleaving of turns of
  reads and writes (blocking, timed or not), probes, duplications, closings, resizings, polls and
  opens of any pipes, as long as the pipe lasts: what was in it and the bytes writers were told
  went in are, one after the other, the bytes readers got and what is in it now.
\<close>

theorem pipe_delivers_in_order:
  assumes "pipes_ok s" and "run_ok event_ok pipe_step es s"
    and "bt_get (ps_table s) i = Some p" and "bt_get (ps_table (fold pipe_step es s)) i = Some p'"
  shows "contents p @ gather (pipe_put i) pipe_step es s = gather (pipe_got i) pipe_step es s @ contents p'"
proof -
  have "stream_inv i s" using assms(1,3) by (simp add: stream_inv_def pipes_ok_def)
  then show ?thesis
    by (rule pipe_stream.stream_run) (use assms in \<open>simp_all add: stream_content_def\<close>)
qed

definition sample_pipes :: pipes where
  "sample_pipes = \<lparr>ps_table = [(1, pipe_new 4)], ps_next_id = 2\<rparr>"

definition sample_run :: "pipe_event list" where
  "sample_run = [EvWrite 3 (WData [10, 20, 30]) Never 7 0 False 0 None, EvRead 2 (RBuffer 2) Never 8 0 False None]"

lemma sample_pipes_ok: "pipes_ok sample_pipes"
  by (auto simp: pipes_ok_def sample_pipes_def bt_get_def bt_ok_def pipe_ok_def ring_ok_def pipe_new_def
      split: if_splits)

lemma sample_handles: "handle_pipe_id 3 = 1" "handle_pipe_id 2 = 1"
  by (simp_all add: handle_pipe_id_def ID_BITS_def)

lemma sample_run_get:
  "\<exists>p'. bt_get (ps_table (fold pipe_step sample_run sample_pipes)) 1 = Some p'"
  using pipe_step_effect [OF sample_pipes_ok, of 1 "pipe_new 4" "hd sample_run"]
    pipe_step_effect [OF pipes_ok_step [OF sample_pipes_ok], of "hd sample_run" 1 _ "hd (tl sample_run)"]
  by (simp add: sample_run_def sample_pipes_def bt_get_def sample_handles u64_max_def)

theorem pipe_delivers_in_order_witness:
  "\<exists>p'. contents (pipe_new 4) @ gather (pipe_put 1) pipe_step sample_run sample_pipes
     = gather (pipe_got 1) pipe_step sample_run sample_pipes @ contents p'"
proof -
  obtain p' where "bt_get (ps_table (fold pipe_step sample_run sample_pipes)) 1 = Some p'"
    using sample_run_get by blast
  moreover have "run_ok event_ok pipe_step sample_run sample_pipes"
    by (simp add: sample_run_def u64_max_def)
  moreover have "bt_get (ps_table sample_pipes) 1 = Some (pipe_new 4)"
    by (simp add: sample_pipes_def bt_get_def)
  ultimately show ?thesis using pipe_delivers_in_order [OF sample_pipes_ok] by blast
qed

section \<open>Whole writes and closed ends\<close>

text \<open>
  A write of at most \<^verbatim>\<open>PIPE_BUF\<close> bytes is atomic: any turn of one either puts in all of its
  bytes after what was there and answers their number, or leaves the contents alone. And a turn
  that parks has found fewer than \<^verbatim>\<open>PIPE_BUF\<close> bytes of room and a reader.
\<close>

theorem small_writes_are_whole:
  assumes "ring_ok p" and "length data \<le> PIPE_BUF" and "data \<noteq> []"
    and "write_turn (WData data) patience task now signal 0 dl p = (p', woken, n, dl', r)"
  shows "(contents p' = contents p @ data \<and> r = Finished (Ok (length data)) \<and> woken = pp_readers p) \<or>
    (contents p' = contents p \<and> woken = [] \<and> (\<forall>k. r \<noteq> Finished (Ok k)) \<and> r \<noteq> Again
       \<and> (r = Parked \<longrightarrow> pipe_writable p < PIPE_BUF \<and> \<not> pp_read_closed p))"
  using assms(1)
proof (rule write_turn_cases [where ?from = "WData data" and patience = patience and task = task
      and now = now and signal = signal and sofar = 0 and dl = dl])
  fix d x m
  assume src: "WData data = WData d"
    and fits: "if length d \<le> PIPE_BUF then length (drop 0 d) \<le> pipe_writable p else 0 < pipe_writable p"
    and wb: "write_bytes (drop 0 d) (p\<lparr>pp_writers := ws_remove task (pp_writers p)\<rparr>) = (x, m)"
    and turn: "write_turn (WData data) patience task now signal 0 dl p = (x\<lparr>pp_readers := []\<rparr>, pp_readers p,
       sat_add64 0 m, dl, if length d \<le> sat_add64 0 m then Finished (Ok (sat_add64 0 m)) else Again)"
  have d: "d = data" using src by simp
  have "m = length data \<and> contents x = contents p @ data"
    using write_bytes_spec [OF _ wb] assms(1,2) fits by (simp add: d)
  moreover have "sat_add64 0 (length data) = length data"
    using assms(2) by (simp add: sat_add64_def PIPE_BUF_def u64_max_def)
  ultimately show ?thesis using turn assms(4) d by simp
next
  fix d r'
  assume turn: "write_turn (WData data) patience task now signal 0 dl p
     = (p\<lparr>pp_writers := ws_remove task (pp_writers p)\<rparr>, [], 0, d, Finished r')"
  assume "\<And>k. WData data \<noteq> WProbe \<Longrightarrow> r' = Ok k \<Longrightarrow> 0 < (0 :: nat)"
  then have "r' \<noteq> Ok k" for k by blast
  with turn assms(4) show ?thesis by auto
next
  fix d
  assume "write_turn (WData data) patience task now signal 0 dl p
     = (p\<lparr>pp_writers := ws_insert task (ws_remove task (pp_writers p))\<rparr>, [], 0, d, Parked)"
    and "\<not> pp_read_closed p" and "pipe_writable p < PIPE_BUF"
  with assms(4) show ?thesis by auto
qed

theorem small_writes_are_whole_witness:
  "contents (fst (write_turn (WData [1, 2, 3]) Forever 7 0 False 0 None (pipe_new 4))) = [1, 2, 3]
   \<or> contents (fst (write_turn (WData [1, 2, 3]) Forever 7 0 False 0 None (pipe_new 4))) = []"
proof -
  have "ring_ok (pipe_new 4)" "length [1, 2, 3 :: u8] \<le> PIPE_BUF" "[1, 2, 3 :: u8] \<noteq> []" "contents (pipe_new 4) = []"
    by (simp_all add: ring_ok_def pipe_new_def PIPE_BUF_def)
  moreover obtain p' woken n dl' r where
    "write_turn (WData [1, 2, 3]) Forever 7 0 False 0 None (pipe_new 4) = (p', woken, n, dl', r)"
    by (metis prod_cases5)
  ultimately show ?thesis using small_writes_are_whole [of "pipe_new 4" "[1, 2, 3]"] by fastforce
qed

text \<open>
  A closed end never blocks the other. With the write end closed a read with room for bytes
  answers at once, the bytes left in order or end of file when there are none; with the read end
  closed a write answers at once that the pipe is broken, or how much it had got in before.
\<close>

theorem closed_end_never_blocks:
  assumes "ring_ok p"
  shows "(pp_write_closed p \<and> 0 < n \<longrightarrow>
      (\<exists>q woken d. read_turn (RBuffer n) patience task now signal dl p
         = (q, woken, d, Finished (Ok (min n (pp_len p)), take n (contents p)))))
    \<and> (pp_read_closed p \<longrightarrow>
      (\<exists>q. write_turn from patience task now signal sofar dl p
         = (q, [], sofar, dl, Finished (if 0 < sofar then Ok sofar else Err ChannelClosed))))"
proof (intro conjI impI)
  assume closed: "pp_write_closed p \<and> 0 < n"
  show "\<exists>q woken d. read_turn (RBuffer n) patience task now signal dl p
      = (q, woken, d, Finished (Ok (min n (pp_len p)), take n (contents p)))"
    using assms
  proof (rule read_turn_cases [where into = "RBuffer n" and patience = patience and task = task
        and now = now and signal = signal and dl = dl])
    fix m x out
    assume "RBuffer n = RBuffer m" "read_bytes m (p\<lparr>pp_readers := ws_remove task (pp_readers p)\<rparr>) = (x, out)"
      and turn: "read_turn (RBuffer n) patience task now signal dl p
        = (x\<lparr>pp_writers := []\<rparr>, pp_writers p, dl, Finished (Ok (length out), out))"
    then have "out = take n (contents p)"
      using read_bytes_spec [of "p\<lparr>pp_readers := ws_remove task (pp_readers p)\<rparr>" m x out] assms by simp
    with turn show ?thesis by (simp add: min.commute)
  next
    fix d r
    assume turn: "read_turn (RBuffer n) patience task now signal dl p
        = (p\<lparr>pp_readers := ws_remove task (pp_readers p)\<rparr>, [], d, Finished (r, []))"
      and "\<And>m. RBuffer n = RBuffer m \<Longrightarrow> 0 < m \<Longrightarrow> pp_len p = 0"
      and "pp_write_closed p \<Longrightarrow> RBuffer n \<noteq> RBuffer 0 \<Longrightarrow> r = Ok (if 0 < pp_len p then 1 else 0)"
    then have "pp_len p = 0" "r = Ok 0" using closed by auto
    with turn show ?thesis by (simp add: contents_def)
  qed (use closed in simp)
next
  assume "pp_read_closed p"
  then show "\<exists>q. write_turn from patience task now signal sofar dl p
      = (q, [], sofar, dl, Finished (if 0 < sofar then Ok sofar else Err ChannelClosed))"
    by (simp add: write_turn_def so_far_def)
qed

theorem closed_end_never_blocks_witness:
  "\<exists>q woken d. read_turn (RBuffer 2) Forever 7 0 False None ((pipe_new 4)\<lparr>pp_write_closed := True\<rparr>)
     = (q, woken, d, Finished (Ok 0, []))"
proof -
  let ?p = "(pipe_new 4)\<lparr>pp_write_closed := True\<rparr>"
  have ok: "ring_ok ?p" by (simp add: ring_ok_def pipe_new_def)
  have "pp_write_closed ?p \<and> 0 < (2 :: nat)" "pp_len ?p = 0" by (simp_all add: pipe_new_def)
  then show ?thesis
    using closed_end_never_blocks [OF ok, of 2 Forever 7 0 False None] by (simp add: contents_def)
qed

section \<open>No lost wakeups\<close>

text \<open>An event in which task \<open>t\<close> itself acts on pipe \<open>i\<close>: a turn of its own, or its registration.\<close>

fun acts_on :: "task_id \<Rightarrow> u64 \<Rightarrow> pipe_event \<Rightarrow> bool" where
  "acts_on t i (EvWrite h src pt t' now sig n dl) \<longleftrightarrow> t' = t \<and> handle_pipe_id h = i"
| "acts_on t i (EvRead h into pt t' now sig dl) \<longleftrightarrow> t' = t \<and> handle_pipe_id h = i"
| "acts_on t i (EvRegister h t') \<longleftrightarrow> t' = t \<and> handle_pipe_id h = i"
| "acts_on t i (EvDeregister h t') \<longleftrightarrow> t' = t \<and> handle_pipe_id h = i"
| "acts_on t i e \<longleftrightarrow> False"

text \<open>Parked as a reader of pipe \<open>i\<close> with nothing there to read and a writer to wait for.\<close>

definition reader_parked :: "task_id \<Rightarrow> u64 \<Rightarrow> pipes \<Rightarrow> bool" where
  "reader_parked t i s \<longleftrightarrow>
     (\<exists>p. bt_get (ps_table s) i = Some p \<and> t \<in> set (pp_readers p) \<and> pp_len p = 0 \<and> \<not> pp_write_closed p)"

text \<open>Parked as a writer of pipe \<open>i\<close> with a reader and not room enough for every write.\<close>

definition writer_parked :: "task_id \<Rightarrow> u64 \<Rightarrow> pipes \<Rightarrow> bool" where
  "writer_parked t i s \<longleftrightarrow>
     (\<exists>p. bt_get (ps_table s) i = Some p \<and> t \<in> set (pp_writers p) \<and> pipe_writable p < PIPE_BUF
        \<and> \<not> pp_read_closed p)"

lemma write_turn_reader:
  assumes "ring_ok p" and "t \<in> set (pp_readers p)" and "pp_len p = 0" and "\<not> pp_write_closed p"
    and "write_turn src pt t' now sig n dl p = (q, woken, rest)"
  shows "t \<in> set woken \<or> (t \<in> set (pp_readers q) \<and> pp_len q = 0 \<and> \<not> pp_write_closed q)"
  using assms(1)
  by (rule write_turn_cases [where ?from = src and patience = pt and task = t' and now = now
        and signal = sig and sofar = n and dl = dl])
    (use assms(2-5) in auto)

lemma read_turn_reader:
  assumes "ring_ok p" and "t \<in> set (pp_readers p)" and "pp_len p = 0" and "\<not> pp_write_closed p"
    and "t' \<noteq> t" and "read_turn into pt t' now sig dl p = (q, woken, rest)"
  shows "t \<in> set (pp_readers q) \<and> pp_len q = 0 \<and> \<not> pp_write_closed q"
  using assms(1)
proof (rule read_turn_cases [where into = into and patience = pt and task = t' and now = now
      and signal = sig and dl = dl])
  fix n x out
  assume "out \<noteq> []" "read_bytes n (p\<lparr>pp_readers := ws_remove t' (pp_readers p)\<rparr>) = (x, out)"
  then show ?thesis
    using read_bytes_spec [of "p\<lparr>pp_readers := ws_remove t' (pp_readers p)\<rparr>" n x out] assms(1,3)
    by (simp add: contents_def)
qed (use assms(2-6) in auto)

lemma close_reader:
  assumes "t \<in> set (pp_readers p)" and "pp_len p = 0" and "\<not> pp_write_closed p"
    and "close_pipe h p = (q, woken)"
  shows "t \<in> set woken \<or> (t \<in> set (pp_readers q) \<and> pp_len q = 0 \<and> \<not> pp_write_closed q)"
  using assms
  by (auto simp: close_pipe_def close_read_end_def close_write_end_def Let_def split: if_splits prod.splits)

lemma frame_ops:
  "dup_pipe h p = Inr q \<Longrightarrow> pp_readers q = pp_readers p \<and> pp_writers q = pp_writers p \<and> pp_len q = pp_len p
     \<and> pp_buf q = pp_buf p \<and> pp_write_closed q = pp_write_closed p \<and> pp_read_closed q = pp_read_closed p"
  "attach_pipe i access nonblock p = Inr (q, r) \<Longrightarrow> pp_readers q = pp_readers p \<and> pp_writers q = pp_writers p
     \<and> pp_len q = pp_len p \<and> pp_buf q = pp_buf p
     \<and> (pp_write_closed q \<longrightarrow> pp_write_closed p) \<and> (pp_read_closed q \<longrightarrow> pp_read_closed p)"
  by (auto simp: dup_pipe_def attach_pipe_def Let_def split: option.splits if_splits prod.splits)

lemma reader_parked_step:
  assumes ok: "pipes_ok s" "event_ok e s" and parked: "reader_parked t i s" and other: "\<not> acts_on t i e"
  shows "reader_parked t i (pipe_step e s) \<or> t \<in> set (pipe_woken e s)"
proof -
  obtain p where p: "bt_get (ps_table s) i = Some p" "t \<in> set (pp_readers p)" "pp_len p = 0" "\<not> pp_write_closed p"
    using parked by (auto simp: reader_parked_def)
  note eff = pipe_step_effect [OF ok(1) p(1) ok(2)]
  have pok: "pipe_ok p" using ok(1) p(1) by (simp add: pipes_ok_def)
  then have r: "ring_ok p" by (simp add: pipe_ok_def)
  have stays: "reader_parked t i (pipe_step e s)"
    if "pipe_effect e i p = Some q" "t \<in> set (pp_readers q)" "pp_len q = 0" "\<not> pp_write_closed q" for q
    using that eff by (auto simp: reader_parked_def)
  have untouched: "pipe_effect e i p = Some p \<Longrightarrow> ?thesis"
    using stays p by blast
  show ?thesis
  proof (cases e)
    case (EvWrite h src pt t' now sig n dl)
    obtain q woken rest where turn: "write_turn src pt t' now sig n dl p = (q, woken, rest)"
      by (metis prod_cases3)
    show ?thesis
    proof (cases "handle_pipe_id h = i")
      case True
      have "pipe_effect e i p = Some q" "pipe_woken e s = woken"
        using True turn p(1) by (auto simp: EvWrite write_on_def)
      with write_turn_reader [OF r p(2-4) turn] stays show ?thesis by metis
    qed (rule untouched, simp add: EvWrite)
  next
    case (EvRead h into pt t' now sig dl)
    obtain q woken rest where turn: "read_turn into pt t' now sig dl p = (q, woken, rest)"
      by (metis prod_cases3)
    show ?thesis
    proof (cases "handle_pipe_id h = i")
      case True
      then have "pipe_effect e i p = Some q" "t' \<noteq> t"
        using turn other by (auto simp: EvRead)
      with read_turn_reader [OF r p(2-4) _ turn] stays show ?thesis by metis
    qed (rule untouched, simp add: EvRead)
  next
    case (EvClose h)
    obtain q woken where c: "close_pipe h p = (q, woken)" by fastforce
    show ?thesis
    proof (cases "handle_pipe_id h = i")
      case True
      have woken: "pipe_woken e s = woken"
        using True c p(1) by (auto simp: EvClose pipe_close_def)
      show ?thesis
      proof (cases "t \<in> set woken")
        case False
        then have q: "t \<in> set (pp_readers q)" "pp_len q = 0" "\<not> pp_write_closed q"
          using close_reader [OF p(2-4) c] by auto
        then have "pipe_effect e i p = Some q" using True c by (simp add: EvClose)
        with stays q show ?thesis by blast
      qed (simp add: woken)
    qed (rule untouched, simp add: EvClose)
  next
    case (EvFifoDrop j)
    with p pok show ?thesis by (intro untouched) (auto simp: pipe_ok_def)
  next
    case (EvSetCapacity memory h c)
    with p resize_contents(4) [OF r, of c] show ?thesis
      by (intro disjI1 stays [of "if handle_pipe_id h = i \<and> c \<le> MAX_PIPE_BUFFER_CAPACITY \<and> memory \<and> pp_len p \<le> c
           then resize_pipe c p else p"]) auto
  next
    case (EvDup h)
    with p show ?thesis
      by (intro disjI1 stays [of "if handle_pipe_id h = i then case dup_pipe h p of Inl _ \<Rightarrow> p | Inr q \<Rightarrow> q else p"])
        (auto dest: frame_ops split: sum.splits)
  next
    case (EvFifoAttach j access nonblock)
    show ?thesis
    proof (cases "\<exists>q r. j = i \<and> attach_pipe i access nonblock p = Inr (q, r)")
      case True
      then obtain q r where "j = i" "attach_pipe i access nonblock p = Inr (q, r)" by blast
      with EvFifoAttach frame_ops(2) [of i access nonblock p q r] p show ?thesis
        by (intro disjI1 stays [of q]) auto
    next
      case False
      with EvFifoAttach show ?thesis
        by (intro untouched) (auto split: sum.splits)
    qed
  next
    case (EvRegister h t')
    with p show ?thesis
      by (intro disjI1 stays [of "if handle_pipe_id h = i then p\<lparr>pp_readers := ws_insert t' (pp_readers p),
           pp_writers := ws_insert t' (pp_writers p)\<rparr> else p"]) auto
  next
    case (EvDeregister h t')
    with p other show ?thesis
      by (intro disjI1 stays [of "if handle_pipe_id h = i then p\<lparr>pp_readers := ws_remove t' (pp_readers p),
           pp_writers := ws_remove t' (pp_writers p)\<rparr> else p"]) auto
  next
    case (EvFifoWait h partner t' sig)
    with p show ?thesis
      by (intro disjI1 stays [of "if handle_pipe_id h = i then p\<lparr>pp_fifo := map_option
           (\<lambda>l. fst (partner_turn partner t' sig l)) (pp_fifo p)\<rparr> else p"]) auto
  qed (rule untouched, simp)+
qed

lemma write_turn_writer:
  assumes "ring_ok p" and "t \<in> set (pp_writers p)" and "pipe_writable p < PIPE_BUF" and "\<not> pp_read_closed p"
    and "t' \<noteq> t" and "write_turn src pt t' now sig n dl p = (q, woken, rest)"
  shows "t \<in> set (pp_writers q) \<and> pipe_writable q < PIPE_BUF \<and> \<not> pp_read_closed q"
  using assms(1)
proof (rule write_turn_cases [where ?from = src and patience = pt and task = t' and now = now
      and signal = sig and sofar = n and dl = dl])
  fix d x m
  let ?p = "p\<lparr>pp_writers := ws_remove t' (pp_writers p)\<rparr>"
  assume wb: "write_bytes (drop n d) ?p = (x, m)"
    and turn: "write_turn src pt t' now sig n dl p = (x\<lparr>pp_readers := []\<rparr>, pp_readers p, sat_add64 n m, dl,
       if length d \<le> sat_add64 n m then Finished (Ok (sat_add64 n m)) else Again)"
  have "pipe_writable x \<le> pipe_writable p" "pp_writers x = ws_remove t' (pp_writers p)" "pp_read_closed x = pp_read_closed p"
    using write_bytes_spec [OF _ wb] bytes_frame [of "drop n d" ?p x m] wb assms(1)
    by (simp_all add: pipe_writable_def)
  with turn assms(2-6) show ?thesis by auto
qed (use assms(2-6) in auto)

lemma read_turn_writer:
  assumes "ring_ok p" and "t \<in> set (pp_writers p)" and "pipe_writable p < PIPE_BUF" and "\<not> pp_read_closed p"
    and "read_turn into pt t' now sig dl p = (q, woken, rest)"
  shows "t \<in> set woken \<or> (t \<in> set (pp_writers q) \<and> pipe_writable q < PIPE_BUF \<and> \<not> pp_read_closed q)"
  using assms(1)
  by (rule read_turn_cases [where into = into and patience = pt and task = t' and now = now
        and signal = sig and dl = dl])
    (use assms(2-5) in auto)

lemma close_writer:
  assumes "t \<in> set (pp_writers p)" and "pipe_writable p < PIPE_BUF" and "\<not> pp_read_closed p"
    and "close_pipe h p = (q, woken)"
  shows "t \<in> set woken \<or> (t \<in> set (pp_writers q) \<and> pipe_writable q < PIPE_BUF \<and> \<not> pp_read_closed q)"
  using assms
  by (auto simp: close_pipe_def close_read_end_def close_write_end_def Let_def pipe_writable_def
      split: if_splits prod.splits)

text \<open>A resize, which wakes nobody.\<close>

fun is_resize :: "pipe_event \<Rightarrow> bool" where
  "is_resize (EvSetCapacity _ _ _) \<longleftrightarrow> True"
| "is_resize _ \<longleftrightarrow> False"

lemma writer_parked_step:
  assumes ok: "pipes_ok s" "event_ok e s" and parked: "writer_parked t i s" and other: "\<not> acts_on t i e"
    and "\<not> is_resize e"
  shows "writer_parked t i (pipe_step e s) \<or> t \<in> set (pipe_woken e s)"
proof -
  obtain p where p: "bt_get (ps_table s) i = Some p" "t \<in> set (pp_writers p)" "pipe_writable p < PIPE_BUF"
    "\<not> pp_read_closed p"
    using parked by (auto simp: writer_parked_def)
  note eff = pipe_step_effect [OF ok(1) p(1) ok(2)]
  have pok: "pipe_ok p" using ok(1) p(1) by (simp add: pipes_ok_def)
  then have r: "ring_ok p" by (simp add: pipe_ok_def)
  have stays: "writer_parked t i (pipe_step e s)"
    if "pipe_effect e i p = Some q" "t \<in> set (pp_writers q)" "pipe_writable q < PIPE_BUF" "\<not> pp_read_closed q" for q
    using that eff by (auto simp: writer_parked_def)
  have untouched: "pipe_effect e i p = Some p \<Longrightarrow> ?thesis"
    using stays p by blast
  show ?thesis
  proof (cases e)
    case (EvWrite h src pt t' now sig n dl)
    obtain q woken rest where turn: "write_turn src pt t' now sig n dl p = (q, woken, rest)"
      by (metis prod_cases3)
    show ?thesis
    proof (cases "handle_pipe_id h = i")
      case True
      then have "pipe_effect e i p = Some q" "t' \<noteq> t"
        using turn other by (auto simp: EvWrite)
      with write_turn_writer [OF r p(2-4) _ turn] stays show ?thesis by metis
    qed (rule untouched, simp add: EvWrite)
  next
    case (EvRead h into pt t' now sig dl)
    obtain q woken rest where turn: "read_turn into pt t' now sig dl p = (q, woken, rest)"
      by (metis prod_cases3)
    show ?thesis
    proof (cases "handle_pipe_id h = i")
      case True
      have "pipe_effect e i p = Some q" "pipe_woken e s = woken"
        using True turn p(1) by (auto simp: EvRead read_on_def)
      with read_turn_writer [OF r p(2-4) turn] stays show ?thesis by metis
    qed (rule untouched, simp add: EvRead)
  next
    case (EvClose h)
    obtain q woken where c: "close_pipe h p = (q, woken)" by fastforce
    show ?thesis
    proof (cases "handle_pipe_id h = i")
      case True
      have woken: "pipe_woken e s = woken"
        using True c p(1) by (auto simp: EvClose pipe_close_def)
      show ?thesis
      proof (cases "t \<in> set woken")
        case False
        then have q: "t \<in> set (pp_writers q)" "pipe_writable q < PIPE_BUF" "\<not> pp_read_closed q"
          using close_writer [OF p(2-4) c] by auto
        then have "pipe_effect e i p = Some q" using True c by (simp add: EvClose)
        with stays q show ?thesis by blast
      qed (simp add: woken)
    qed (rule untouched, simp add: EvClose)
  next
    case (EvFifoDrop j)
    with p pok show ?thesis by (intro untouched) (auto simp: pipe_ok_def)
  next
    case (EvDup h)
    with p show ?thesis
      by (intro disjI1 stays [of "if handle_pipe_id h = i then case dup_pipe h p of Inl _ \<Rightarrow> p | Inr q \<Rightarrow> q else p"])
        (auto simp: pipe_writable_def dest: frame_ops split: sum.splits)
  next
    case (EvFifoAttach j access nonblock)
    show ?thesis
    proof (cases "\<exists>q r. j = i \<and> attach_pipe i access nonblock p = Inr (q, r)")
      case True
      then obtain q r where "j = i" "attach_pipe i access nonblock p = Inr (q, r)" by blast
      with EvFifoAttach frame_ops(2) [of i access nonblock p q r] p show ?thesis
        by (intro disjI1 stays [of q]) (auto simp: pipe_writable_def)
    next
      case False
      with EvFifoAttach show ?thesis
        by (intro untouched) (auto split: sum.splits)
    qed
  next
    case (EvRegister h t')
    with p show ?thesis
      by (intro disjI1 stays [of "if handle_pipe_id h = i then p\<lparr>pp_readers := ws_insert t' (pp_readers p),
           pp_writers := ws_insert t' (pp_writers p)\<rparr> else p"]) (auto simp: pipe_writable_def)
  next
    case (EvDeregister h t')
    with p other show ?thesis
      by (intro disjI1 stays [of "if handle_pipe_id h = i then p\<lparr>pp_readers := ws_remove t' (pp_readers p),
           pp_writers := ws_remove t' (pp_writers p)\<rparr> else p"]) (auto simp: pipe_writable_def)
  next
    case (EvFifoWait h partner t' sig)
    with p show ?thesis
      by (intro disjI1 stays [of "if handle_pipe_id h = i then p\<lparr>pp_fifo := map_option
           (\<lambda>l. fst (partner_turn partner t' sig l)) (pp_fifo p)\<rparr> else p"]) (auto simp: pipe_writable_def)
  next
    case (EvSetCapacity memory h c)
    with \<open>\<not> is_resize e\<close> show ?thesis by simp
  qed (rule untouched, simp)+
qed

interpretation pipe_others: guarded_machine pipe_step "\<lambda>e s. event_ok e s \<and> good e" pipes_ok
  by unfold_locales (simp add: pipes_ok_step)

lemma run_ok_others:
  "run_ok event_ok pipe_step es s \<Longrightarrow> (\<And>e. e \<in> set es \<Longrightarrow> good e) \<Longrightarrow>
     run_ok (\<lambda>e s. event_ok e s \<and> good e) pipe_step es s"
  by (rule run_ok_mono) simp_all

text \<open>
  C14: A reader that parks does not miss what it waits for. When a turn of a read parks, then
  whatever any other task does, up to the reader's own next turn, either the pipe is still empty
  with a writer to come and the reader still registered, or the reader has been woken.
\<close>

theorem parked_reader_is_woken:
  assumes "pipes_ok s0" and "into \<noteq> RBuffer 0"
    and park: "read_on h into patience t now signal dl s0 = (s, woken, dl', Parked)"
    and run: "run_ok event_ok pipe_step es s"
    and others: "\<And>e. e \<in> set es \<Longrightarrow> \<not> acts_on t (handle_pipe_id h) e"
  shows "reader_parked t (handle_pipe_id h) (fold pipe_step es s) \<or> t \<in> set (gather pipe_woken pipe_step es s)"
proof -
  obtain p where p: "bt_get (ps_table s0) (handle_pipe_id h) = Some p"
    using park by (auto simp: read_on_def split: option.splits)
  obtain q w d r where turn: "read_turn into patience t now signal dl p = (q, w, d, r)"
    by (metis prod_cases4)
  with p park have s: "s = put_pipe (handle_pipe_id h) q s0" and r: "r = Parked"
    by (auto simp: read_on_def)
  have ring: "ring_ok p" using assms(1) p by (simp add: pipes_ok_def pipe_ok_def)
  have "t \<in> set (pp_readers q) \<and> pp_len q = 0 \<and> \<not> pp_write_closed q"
    using ring
    by (rule read_turn_cases [where into = into and patience = patience and task = t and now = now
          and signal = signal and dl = dl])
      (use turn r assms(2) in auto)
  then have "reader_parked t (handle_pipe_id h) s"
    using p by (auto simp: reader_parked_def s put_pipe_get)
  moreover have "pipes_ok s"
    using pipes_ok_step [OF assms(1), of "EvRead h into patience t now signal dl"] park assms(2) by simp
  ultimately show ?thesis
    by (intro pipe_others.keeps_or_reports [where good = "\<lambda>e. \<not> acts_on t (handle_pipe_id h) e"])
      (use reader_parked_step run_ok_others [OF run others] in auto)
qed

lemma sample_pipes_get: "bt_get (ps_table sample_pipes) 1 = Some (pipe_new 4)"
  by (simp add: sample_pipes_def bt_get_def)

theorem parked_reader_is_woken_witness:
  "8 \<in> set (gather pipe_woken pipe_step [EvWrite 3 (WData [1]) Never 7 0 False 0 None]
        (fst (read_on 2 (RBuffer 2) Forever 8 0 False None sample_pipes)))
   \<or> reader_parked 8 1 (fold pipe_step [EvWrite 3 (WData [1]) Never 7 0 False 0 None]
        (fst (read_on 2 (RBuffer 2) Forever 8 0 False None sample_pipes)))"
proof -
  have "read_turn (RBuffer 2) Forever 8 0 False None (pipe_new 4)
      = ((pipe_new 4)\<lparr>pp_readers := [8]\<rparr>, [], None, Parked)"
    by (simp add: read_turn_def read_bytes_def pipe_new_def ws_insert_def ws_remove_def Let_def)
  then have "read_on 2 (RBuffer 2) Forever 8 0 False None sample_pipes
      = (fst (read_on 2 (RBuffer 2) Forever 8 0 False None sample_pipes), [], None, Parked)"
    by (simp add: read_on_def sample_handles sample_pipes_get)
  from parked_reader_is_woken [OF sample_pipes_ok _ this, of "[EvWrite 3 (WData [1]) Never 7 0 False 0 None]"]
  show ?thesis by (auto simp: sample_handles u64_max_def)
qed

text \<open>
  A writer that parks does not miss a reader either, as long as the pipe is not resized: up to
  the writer's own next turn either there is still a reader and less than \<^verbatim>\<open>PIPE_BUF\<close> of room, and
  the writer is registered, or it has been woken.
\<close>

theorem parked_writer_is_woken:
  assumes "pipes_ok s0" and valid: "event_ok (EvWrite h src patience t now signal sofar dl) s0"
    and park: "write_on h src patience t now signal sofar dl s0 = (s, woken, n, dl', Parked)"
    and run: "run_ok event_ok pipe_step es s"
    and others: "\<And>e. e \<in> set es \<Longrightarrow> \<not> acts_on t (handle_pipe_id h) e \<and> \<not> is_resize e"
  shows "writer_parked t (handle_pipe_id h) (fold pipe_step es s) \<or> t \<in> set (gather pipe_woken pipe_step es s)"
proof -
  obtain p where p: "bt_get (ps_table s0) (handle_pipe_id h) = Some p"
    using park by (auto simp: write_on_def split: option.splits)
  obtain q w m d r where turn: "write_turn src patience t now signal sofar dl p = (q, w, m, d, r)"
    by (metis prod_cases5)
  with p park have s: "s = put_pipe (handle_pipe_id h) q s0" and r: "r = Parked"
    by (auto simp: write_on_def)
  have ring: "ring_ok p" using assms(1) p by (simp add: pipes_ok_def pipe_ok_def)
  have "t \<in> set (pp_writers q) \<and> pipe_writable q < PIPE_BUF \<and> \<not> pp_read_closed q"
    using ring
    by (rule write_turn_cases [where ?from = src and patience = patience and task = t and now = now
          and signal = signal and sofar = sofar and dl = dl])
      (use turn r in \<open>auto split: if_splits\<close>)
  then have "writer_parked t (handle_pipe_id h) s"
    using p by (auto simp: writer_parked_def s put_pipe_get)
  moreover have "pipes_ok s"
    using pipes_ok_step [OF assms(1) valid] park by simp
  ultimately show ?thesis
    by (intro pipe_others.keeps_or_reports [where good = "\<lambda>e. \<not> acts_on t (handle_pipe_id h) e \<and> \<not> is_resize e"])
      (use writer_parked_step run_ok_others [OF run others] in auto)
qed

definition full_pipe :: pipe where
  "full_pipe = (pipe_new 4)\<lparr>pp_len := 4\<rparr>"

definition full_pipes :: pipes where
  "full_pipes = \<lparr>ps_table = [(1, full_pipe)], ps_next_id = 2\<rparr>"

lemma full_pipes_ok: "pipes_ok full_pipes" and full_pipes_get: "bt_get (ps_table full_pipes) 1 = Some full_pipe"
  by (auto simp: pipes_ok_def full_pipes_def full_pipe_def bt_get_def bt_ok_def pipe_ok_def ring_ok_def
      pipe_new_def split: if_splits)

theorem parked_writer_is_woken_witness:
  "7 \<in> set (gather pipe_woken pipe_step [EvRead 2 (RBuffer 1) Never 8 0 False None]
        (fst (write_on 3 (WData [1]) Forever 7 0 False 0 None full_pipes)))
   \<or> writer_parked 7 1 (fold pipe_step [EvRead 2 (RBuffer 1) Never 8 0 False None]
        (fst (write_on 3 (WData [1]) Forever 7 0 False 0 None full_pipes)))"
proof -
  have "write_turn (WData [1]) Forever 7 0 False 0 None full_pipe
      = (full_pipe\<lparr>pp_writers := [7]\<rparr>, [], 0, None, Parked)"
    by (simp add: write_turn_def write_wait_def full_pipe_def pipe_new_def pipe_writable_def PIPE_BUF_def
        ws_insert_def ws_remove_def Let_def)
  then have "write_on 3 (WData [1]) Forever 7 0 False 0 None full_pipes
      = (fst (write_on 3 (WData [1]) Forever 7 0 False 0 None full_pipes), [], 0, None, Parked)"
    by (simp add: write_on_def sample_handles full_pipes_get)
  from parked_writer_is_woken [OF full_pipes_ok _ this, of "[EvRead 2 (RBuffer 1) Never 8 0 False None]"]
  show ?thesis by (auto simp: sample_handles u64_max_def)
qed

text \<open>What may end a writer's wait: a read of the pipe, or a close of one of its handles.\<close>

fun may_free :: "u64 \<Rightarrow> pipe_event \<Rightarrow> bool" where
  "may_free i (EvRead h into pt t now sig dl) \<longleftrightarrow> handle_pipe_id h = i"
| "may_free i (EvClose h) \<longleftrightarrow> handle_pipe_id h = i"
| "may_free i _ \<longleftrightarrow> False"

definition writer_listed :: "task_id \<Rightarrow> u64 \<Rightarrow> pipes \<Rightarrow> bool" where
  "writer_listed t i s \<longleftrightarrow> (\<exists>p. bt_get (ps_table s) i = Some p \<and> t \<in> set (pp_writers p) \<and> \<not> pp_read_closed p)"

lemma write_turn_listed:
  assumes "ring_ok p" and "t' \<noteq> t" and "t \<in> set (pp_writers p)" and "\<not> pp_read_closed p"
    and "write_turn src pt t' now sig n dl p = (q, woken, rest)"
  shows "t \<in> set (pp_writers q) \<and> \<not> pp_read_closed q"
  using assms(1)
proof (rule write_turn_cases [where ?from = src and patience = pt and task = t' and now = now
      and signal = sig and sofar = n and dl = dl])
  fix d x m
  let ?p = "p\<lparr>pp_writers := ws_remove t' (pp_writers p)\<rparr>"
  assume wb: "write_bytes (drop n d) ?p = (x, m)"
    and turn: "write_turn src pt t' now sig n dl p = (x\<lparr>pp_readers := []\<rparr>, pp_readers p, sat_add64 n m, dl,
       if length d \<le> sat_add64 n m then Finished (Ok (sat_add64 n m)) else Again)"
  have "pp_writers x = ws_remove t' (pp_writers p)" "pp_read_closed x = pp_read_closed p"
    using bytes_frame [of "drop n d" ?p x m] wb by simp_all
  with turn assms(2-5) show ?thesis by auto
qed (use assms(2-5) in auto)

lemma writer_listed_step:
  assumes ok: "pipes_ok s" "event_ok e s" and listed: "writer_listed t i s"
    and other: "\<not> acts_on t i e" and shut: "\<not> may_free i e"
  shows "writer_listed t i (pipe_step e s)"
proof -
  obtain p where p: "bt_get (ps_table s) i = Some p" "t \<in> set (pp_writers p)" "\<not> pp_read_closed p"
    using listed by (auto simp: writer_listed_def)
  note eff = pipe_step_effect [OF ok(1) p(1) ok(2)]
  have pok: "pipe_ok p" using ok(1) p(1) by (simp add: pipes_ok_def)
  have "\<exists>q. pipe_effect e i p = Some q \<and> t \<in> set (pp_writers q) \<and> \<not> pp_read_closed q"
  proof (cases e)
    case (EvWrite h src pt t' now sig n dl)
    obtain q woken rest where turn: "write_turn src pt t' now sig n dl p = (q, woken, rest)"
      by (metis prod_cases3)
    with EvWrite other p(2,3) write_turn_listed [OF _ _ p(2,3) turn] pok show ?thesis by (auto simp: pipe_ok_def)
  next
    case (EvDup h)
    with p(2,3) show ?thesis by (auto dest: frame_ops split: sum.splits)
  next
    case (EvFifoAttach j access nonblock)
    with p(2,3) show ?thesis by (auto dest: frame_ops split: sum.splits)
  next
    case (EvFifoDrop j)
    with p(2,3) pok show ?thesis by (auto simp: pipe_ok_def)
  next
    case (EvDeregister h t')
    with p(2,3) other show ?thesis by auto
  qed (use p(2,3) shut in auto)
  with eff show ?thesis by (auto simp: writer_listed_def)
qed

text \<open>
  C40: A resize can leave a writer asleep that has room. Take a task waiting among the writers of a
  pipe with a reader left, for a write of at most \<^verbatim>\<open>PIPE_BUF\<close> bytes of which none is written yet, and
  resize the pipe, with the memory for it and within the limit, so that \<^verbatim>\<open>PIPE_BUF\<close> bytes are free. The
  call succeeds, wakes nobody and leaves the task among the waiting writers, although a turn of its
  write would now finish. And there it stays, for every wake of a writer takes it out of the list,
  through any run of other tasks' calls - writes, duplications, named-pipe opens, resizes, and
  anything on other pipes - until one reads from the pipe or closes one of its handles.
\<close>

theorem resize_strands_writer:
  assumes ok: "pipes_ok s" and p: "bt_get (ps_table s) (handle_pipe_id h) = Some p" "t \<in> set (pp_writers p)"
      "\<not> pp_read_closed p"
    and cap: "pp_len p + PIPE_BUF \<le> c" "c \<le> MAX_PIPE_BUFFER_CAPACITY"
    and data: "length data \<le> PIPE_BUF" "data \<noteq> []"
    and run: "run_ok event_ok pipe_step es (pipe_step (EvSetCapacity True h c) s)"
    and others: "\<And>e. e \<in> set es \<Longrightarrow> \<not> acts_on t (handle_pipe_id h) e \<and> \<not> may_free (handle_pipe_id h) e"
  shows "\<exists>q. pipe_set_capacity True h c s = (put_pipe (handle_pipe_id h) q s, [], Ok c) \<and> t \<in> set (pp_writers q)
    \<and> snd (snd (snd (snd (write_turn (WData data) patience t now signal 0 dl q)))) = Finished (Ok (length data))
    \<and> writer_listed t (handle_pipe_id h) (fold pipe_step es (put_pipe (handle_pipe_id h) q s))"
proof -
  let ?q = "resize_pipe c p" and ?s = "pipe_step (EvSetCapacity True h c) s"
  have ring: "ring_ok p" using ok p by (simp add: pipes_ok_def pipe_ok_def)
  have "\<not> MAX_PIPE_BUFFER_CAPACITY < c" "\<not> c < pp_len p" using cap by simp_all
  then have resize: "pipe_set_capacity True h c s = (put_pipe (handle_pipe_id h) ?q s, [], Ok c)"
    using p by (simp add: pipe_set_capacity_def)
  have q: "ring_ok ?q" "length (pp_buf ?q) = c" "pp_len ?q = pp_len p"
    using resize_contents [OF ring, of c] cap by simp_all
  have room: "length data \<le> pipe_writable ?q" using q cap data by (simp add: pipe_writable_def)
  obtain q' w n d r where turn: "write_turn (WData data) patience t now signal 0 dl ?q = (q', w, n, d, r)"
    by (metis prod_cases5)
  have "r = Finished (Ok (length data))"
  proof -
    obtain x m where wb: "write_bytes data (?q\<lparr>pp_writers := ws_remove t (pp_writers ?q)\<rparr>) = (x, m)"
      by fastforce
    have "m = length data"
      using write_bytes_spec [OF _ wb] q(1) room by simp
    moreover have "sat_add64 0 (length data) = length data"
      using data by (simp add: sat_add64_def PIPE_BUF_def u64_max_def)
    moreover have "\<not> pp_read_closed (?q\<lparr>pp_writers := ws_remove t (pp_writers ?q)\<rparr>)" using p by simp
    ultimately show ?thesis
      using turn wb room data by (auto simp: write_turn_def Let_def)
  qed
  moreover have "writer_listed t (handle_pipe_id h) (fold pipe_step es ?s)"
  proof (rule pipe_others.keeps_run [where P = "writer_listed t (handle_pipe_id h)"
        and good = "\<lambda>e. \<not> acts_on t (handle_pipe_id h) e \<and> \<not> may_free (handle_pipe_id h) e"])
    show "pipes_ok ?s" by (rule pipes_ok_step [OF ok]) simp
    show "writer_listed t (handle_pipe_id h) ?s"
      using resize p by (simp add: writer_listed_def put_pipe_get)
  qed (use writer_listed_step run_ok_others [OF run others] in auto)
  ultimately show ?thesis using turn resize p by (intro exI [of _ ?q]) simp
qed

theorem resize_strands_writer_witness:
  "\<exists>q. pipe_set_capacity True 3 8192
        (full_pipes\<lparr>ps_table := [(1, full_pipe\<lparr>pp_writers := [7]\<rparr>)]\<rparr>)
      = (put_pipe 1 q (full_pipes\<lparr>ps_table := [(1, full_pipe\<lparr>pp_writers := [7]\<rparr>)]\<rparr>), [], Ok 8192)
    \<and> writer_listed 7 1 (fold pipe_step [EvWrite 3 (WData [5]) Never 8 0 False 0 None, EvDup 3]
        (put_pipe 1 q (full_pipes\<lparr>ps_table := [(1, full_pipe\<lparr>pp_writers := [7]\<rparr>)]\<rparr>)))"
proof -
  let ?s = "full_pipes\<lparr>ps_table := [(1, full_pipe\<lparr>pp_writers := [7]\<rparr>)]\<rparr>"
    and ?es = "[EvWrite 3 (WData [5]) Never 8 0 False 0 None, EvDup 3]"
  have "pipes_ok ?s"
    using full_pipes_ok by (auto simp: pipes_ok_def full_pipes_def bt_get_def bt_ok_def split: if_splits)
  moreover have "bt_get (ps_table ?s) (handle_pipe_id 3) = Some (full_pipe\<lparr>pp_writers := [7]\<rparr>)"
    by (simp add: sample_handles bt_get_def)
  moreover have "7 \<in> set (pp_writers (full_pipe\<lparr>pp_writers := [7]\<rparr>))"
    "\<not> pp_read_closed (full_pipe\<lparr>pp_writers := [7]\<rparr>)"
    "pp_len (full_pipe\<lparr>pp_writers := [7]\<rparr>) + PIPE_BUF \<le> 8192" "8192 \<le> MAX_PIPE_BUFFER_CAPACITY"
    "length [0 :: u8] \<le> PIPE_BUF" "[0 :: u8] \<noteq> []"
    by (simp_all add: full_pipe_def pipe_new_def PIPE_BUF_def MAX_PIPE_BUFFER_CAPACITY_def)
  moreover have "run_ok event_ok pipe_step ?es (pipe_step (EvSetCapacity True 3 8192) ?s)"
    by (simp add: u64_max_def)
  moreover have "\<not> acts_on 7 (handle_pipe_id 3) e \<and> \<not> may_free (handle_pipe_id 3) e" if "e \<in> set ?es" for e
    using that by auto
  ultimately have "\<exists>q. pipe_set_capacity True 3 8192 ?s = (put_pipe (handle_pipe_id 3) q ?s, [], Ok 8192)
      \<and> 7 \<in> set (pp_writers q)
      \<and> snd (snd (snd (snd (write_turn (WData [0]) Forever 7 0 False 0 None q)))) = Finished (Ok (length [0 :: u8]))
      \<and> writer_listed 7 (handle_pipe_id 3) (fold pipe_step ?es (put_pipe (handle_pipe_id 3) q ?s))"
    by (rule resize_strands_writer)
  then show ?thesis unfolding sample_handles by blast
qed

end
