(* ===== verification/RunQueue.thy ===== *)
theory RunQueue imports OrdMap Streams "HOL-Library.Product_Lexorder" "HOL-Library.Code_Target_Nat" begin

text \<open>
  What the three scheduler backends share (\<^verbatim>\<open>kernel/src/sched/\<close>): the priority constants of
  \<^verbatim>\<open>task.rs\<close>, the loop over the set bits of a word, the steal buffer and the workload profiles of
  \<^verbatim>\<open>priority_rr.rs\<close>, the time-slice table, and the contract a run queue keeps with the scheduler.
  A task id is a number; an 8-bit priority is a number below 256; a slice is a number below
  \<open>2 ^ 32\<close> with the code's saturating operations.
\<close>

section \<open>Constants\<close>

type_synonym task_id = nat

definition NUM_PRIORITIES :: nat where "NUM_PRIORITIES = 32"
definition RT_LEVELS :: nat where "RT_LEVELS = 8"
definition IDLE_PRIORITY :: nat where "IDLE_PRIORITY = NUM_PRIORITIES - 1"
definition MAX_STEAL :: nat where "MAX_STEAL = 16"
definition BASE_TIME_SLICE :: nat where "BASE_TIME_SLICE = 2"
definition SLICE_INCREMENT :: nat where "SLICE_INCREMENT = 1"

lemmas sched_consts =
  NUM_PRIORITIES_def RT_LEVELS_def IDLE_PRIORITY_def MAX_STEAL_def BASE_TIME_SLICE_def
  SLICE_INCREMENT_def

definition sat_mul32 :: "nat \<Rightarrow> nat \<Rightarrow> nat" where
  "sat_mul32 a b = min (a * b) u32_max"

text \<open>The level a priority is queued at: clamped into the table.\<close>

definition level_of :: "nat \<Rightarrow> nat" where
  "level_of priority = min priority (NUM_PRIORITIES - 1)"

lemma level_of_lt [simp]: "level_of p < 32"
  by (simp add: level_of_def sched_consts)

section \<open>The real-time band\<close>

text \<open>POSIX's real-time priorities 1 to 99, spread over the levels of the band.\<close>

definition rt_level :: "nat \<Rightarrow> nat" where
  "rt_level rt_priority =
     (let p = (if rt_priority = 0 then 1 else if rt_priority > 99 then 99 else rt_priority);
          step = (p - 1) * RT_LEVELS div 99
      in RT_LEVELS - 1 - step)"

datatype sched_policy = Other | Fifo | Rr | Batch | Idle

definition policy_from_linux :: "nat \<Rightarrow> sched_policy option" where
  "policy_from_linux policy =
     (if policy = 0 then Some Other else if policy = 1 then Some Fifo
      else if policy = 2 then Some Rr else if policy = 3 then Some Batch
      else if policy = 5 then Some Idle else None)"

fun policy_linux :: "sched_policy \<Rightarrow> nat" where
  "policy_linux Other = 0"
| "policy_linux Fifo = 1"
| "policy_linux Rr = 2"
| "policy_linux Batch = 3"
| "policy_linux Idle = 5"

fun is_realtime :: "sched_policy \<Rightarrow> bool" where
  "is_realtime Fifo = True"
| "is_realtime Rr = True"
| "is_realtime _ = False"

section \<open>Workload profiles and time slices\<close>

datatype profile = Desktop | Server | Development | Gaming

definition profile_from_u8 :: "nat \<Rightarrow> profile option" where
  "profile_from_u8 v =
     (if v = 0 then Some Desktop else if v = 1 then Some Server
      else if v = 2 then Some Development else if v = 3 then Some Gaming else None)"

fun profile_base :: "profile \<Rightarrow> nat" where
  "profile_base Desktop = 2"
| "profile_base Server = 4"
| "profile_base Development = 1"
| "profile_base Gaming = 1"

fun profile_increment :: "profile \<Rightarrow> nat" where
  "profile_increment Desktop = 1"
| "profile_increment Server = 2"
| "profile_increment Development = 1"
| "profile_increment Gaming = 2"

fun profile_name :: "profile \<Rightarrow> string" where
  "profile_name Desktop = ''Desktop''"
| "profile_name Server = ''Server''"
| "profile_name Development = ''Development''"
| "profile_name Gaming = ''Gaming''"

text \<open>
  Each backend has its own copy of the slice table and of the four functions on it; they are
  the same text, given here once on the table.
\<close>

definition slices_new :: "nat list" where
  "slices_new = map (\<lambda>i. sat_add32 BASE_TIME_SLICE (sat_mul32 i SLICE_INCREMENT)) [0..<NUM_PRIORITIES]"

definition slices_set :: "nat \<Rightarrow> nat \<Rightarrow> nat list \<Rightarrow> nat list \<times> bool" where
  "slices_set level ticks ts =
     (if NUM_PRIORITIES \<le> level \<or> ticks = 0 then (ts, False) else (ts[level := ticks], True))"

definition slices_get :: "nat \<Rightarrow> nat list \<Rightarrow> nat option" where
  "slices_get level ts = (if level < length ts then Some (ts ! level) else None)"

definition slices_reconfigure :: "nat \<Rightarrow> nat \<Rightarrow> nat list \<Rightarrow> nat list \<times> bool" where
  "slices_reconfigure base increment ts =
     (if base = 0 then (ts, False)
      else (map (\<lambda>i. sat_add32 base (sat_mul32 i increment)) [0..<length ts], True))"

definition slices_profile :: "profile \<Rightarrow> nat list \<Rightarrow> nat list" where
  "slices_profile p ts = fst (slices_reconfigure (profile_base p) (profile_increment p) ts)"

text \<open>The slice a task of some level starts with: \<^verbatim>\<open>get(level).copied().unwrap_or(BASE_TIME_SLICE)\<close>.\<close>

definition slice_at :: "nat \<Rightarrow> nat list \<Rightarrow> nat" where
  "slice_at level ts = (case slices_get level ts of Some t \<Rightarrow> t | None \<Rightarrow> BASE_TIME_SLICE)"

text \<open>A slice table as every reachable one is: one slice per level, none of them zero.\<close>

definition slices_ok :: "nat list \<Rightarrow> bool" where
  "slices_ok ts \<longleftrightarrow> length ts = NUM_PRIORITIES \<and> (\<forall>t \<in> set ts. 0 < t)"

lemma slices_ok_new: "slices_ok slices_new"
  by (simp add: slices_ok_def slices_new_def sat_add32_def u32_max_def sched_consts)

lemma slices_ok_set: "slices_ok ts \<Longrightarrow> slices_ok (fst (slices_set l t ts))"
  by (auto simp: slices_ok_def slices_set_def dest: set_update_subset_insert [THEN subsetD])

lemma slices_ok_reconfigure: "slices_ok ts \<Longrightarrow> slices_ok (fst (slices_reconfigure b i ts))"
  by (auto simp: slices_ok_def slices_reconfigure_def sat_add32_def u32_max_def)

lemma slices_ok_profile: "slices_ok ts \<Longrightarrow> slices_ok (slices_profile p ts)"
  by (simp add: slices_profile_def slices_ok_reconfigure)

lemma slice_at_pos: "slices_ok ts \<Longrightarrow> 0 < slice_at l ts"
  by (auto simp: slices_ok_def slice_at_def slices_get_def BASE_TIME_SLICE_def)

section \<open>The steal buffer\<close>

type_synonym stolen = "(task_id \<times> nat) list"

definition stolen_push :: "task_id \<Rightarrow> nat \<Rightarrow> stolen \<Rightarrow> stolen" where
  "stolen_push i priority st = (if length st < MAX_STEAL then st @ [(i, priority)] else st)"

text \<open>\<^verbatim>\<open>MigratedTasks::push\<close>.\<close>

definition migrated_push :: "task_id \<Rightarrow> task_id list \<Rightarrow> task_id list" where
  "migrated_push i m = (if length m < MAX_STEAL then m @ [i] else m)"

section \<open>The loop over the set bits of a word\<close>

definition trailing_zeros :: "u32 \<Rightarrow> nat" where
  "trailing_zeros w = (case find (bit w) [0..<32] of Some i \<Rightarrow> i | None \<Rightarrow> 32)"

lemma bit_u32_lt: "bit w i \<Longrightarrow> i < 32" for w :: u32
  using bit_imp_le_length [of w i] by simp

lemma no_bits: "(\<forall>i. \<not> bit w i) \<longleftrightarrow> w = 0" for w :: u32
  by (metis bit_0_eq bot_apply bit_eqI bot_bool_def)

lemma find_upt_Some: "find P [0..<n] = Some i \<longleftrightarrow> i < n \<and> P i \<and> (\<forall>j < i. \<not> P j)"
  by (auto simp: find_Some_iff)

lemma trailing_zeros_props:
  assumes "w \<noteq> 0"
  shows "bit w (trailing_zeros w)" and "trailing_zeros w < 32"
    and "j < trailing_zeros w \<Longrightarrow> \<not> bit w j"
proof -
  obtain n where "bit w n" using assms by (auto simp: bit_eq_iff)
  moreover then have "n < 32" by (rule bit_u32_lt)
  ultimately obtain i where i: "find (bit w) [0..<32] = Some i"
    by (cases "find (bit w) [0..<32]") (auto simp: find_None_iff)
  from i have "trailing_zeros w = i" by (simp only: trailing_zeros_def option.case)
  moreover from i have "i < 32 \<and> bit w i \<and> (\<forall>j < i. \<not> bit w j)"
    by (rule find_upt_Some [THEN iffD1])
  ultimately show "bit w (trailing_zeros w)" "trailing_zeros w < 32"
    "j < trailing_zeros w \<Longrightarrow> \<not> bit w j"
    by auto
qed

text \<open>\<^verbatim>\<open>bits &= bits.wrapping_sub(1)\<close> clears the lowest set bit.\<close>

lemma clear_lowest:
  fixes w :: u32
  assumes "w \<noteq> 0"
  shows "w AND (w - 1) = unset_bit (trailing_zeros w) w"
proof -
  let ?k = "trailing_zeros w"
  let ?v = "unset_bit ?k w"
  note tz = trailing_zeros_props [OF assms]
  have low: "\<not> bit ?v n" if "n \<le> ?k" for n
    using tz(3) [of n] that by (cases "n = ?k") (auto simp: bit_unset_bit_iff)
  have "w = ?v OR push_bit ?k 1"
    by (rule bit_word_eqI) (use tz in \<open>auto simp: bit_simps\<close>)
  also have "\<dots> = ?v + push_bit ?k 1"
    by (rule disjunctive_add [symmetric]) (use low in \<open>auto simp: bit_simps\<close>)
  finally have "w - 1 = ?v + mask ?k"
    by (simp add: mask_eq_exp_minus_1 push_bit_eq_mult)
  also have "\<dots> = ?v OR mask ?k"
    by (rule disjunctive_add) (use low in \<open>auto simp: bit_simps\<close>)
  finally have *: "w - 1 = ?v OR mask ?k" .
  show ?thesis
    by (rule bit_word_eqI) (use tz(3) in \<open>auto simp: * bit_simps\<close>)
qed

lemma bits_clear_lowest: "w \<noteq> 0 \<Longrightarrow> bit (w AND (w - 1)) n \<longleftrightarrow> bit w n \<and> n \<noteq> trailing_zeros w"
  for w :: u32
  by (auto simp: clear_lowest bit_unset_bit_iff)

lemma clear_lowest_less: "w \<noteq> 0 \<Longrightarrow> unat (w AND (w - 1)) < unat w" for w :: u32
proof -
  assume w: "w \<noteq> 0"
  have "w AND (w - 1) \<noteq> w"
    using bits_clear_lowest [OF w, of "trailing_zeros w"] trailing_zeros_props(1) [OF w] by auto
  moreover have "w AND (w - 1) \<le> w"
    by (simp add: word_and_le2 word_le_nat_alt [symmetric] word_and_le1)
  ultimately have "w AND (w - 1) < w" by simp
  then show ?thesis by (simp add: word_less_nat_alt)
qed

text \<open>
  \<^verbatim>\<open>while bits != 0 && c { f(bits.trailing_zeros()); bits &= bits.wrapping_sub(1) }\<close>; the loops
  without a second condition pass \<open>\<lambda>s. True\<close>.
\<close>

function while_bits :: "('s \<Rightarrow> bool) \<Rightarrow> (nat \<Rightarrow> 's \<Rightarrow> 's) \<Rightarrow> u32 \<Rightarrow> 's \<Rightarrow> 's" where
  "while_bits c f w s =
     (if w = 0 \<or> \<not> c s then s else while_bits c f (w AND (w - 1)) (f (trailing_zeros w) s))"
  by auto
termination
  by (relation "measure (\<lambda>(c, f, w, s). unat w)") (auto intro: clear_lowest_less)

declare while_bits.simps [simp del]

text \<open>The set bits in ascending order.\<close>

definition set_levels :: "u32 \<Rightarrow> nat list" where
  "set_levels w = filter (bit w) [0..<32]"

lemma set_levels_0 [simp]: "set_levels 0 = []"
  by (simp add: set_levels_def)

lemma set_levels_step:
  assumes "w \<noteq> 0"
  shows "set_levels w = trailing_zeros w # set_levels (w AND (w - 1))"
proof -
  let ?k = "trailing_zeros w"
  note tz = trailing_zeros_props [OF assms]
  have split: "[0..<32] = [0..<?k] @ ?k # [Suc ?k..<32]"
    using tz(2) upt_add_eq_append [of 0 "?k" "32 - ?k"] upt_conv_Cons [of "?k" 32] by simp
  have "filter (bit w) [0..<?k] = []" "filter (bit (w AND (w - 1))) [0..<?k] = []"
    using tz(3) by (auto simp: bits_clear_lowest [OF assms])
  moreover have "filter (bit (w AND (w - 1))) [Suc ?k..<32] = filter (bit w) [Suc ?k..<32]"
    by (rule filter_cong) (auto simp: bits_clear_lowest [OF assms])
  ultimately show ?thesis
    using tz(1) bits_clear_lowest [OF assms, of ?k] by (simp add: set_levels_def split)
qed

lemma while_bits_fold:
  "while_bits c f w s = fold (\<lambda>i s. if c s then f i s else s) (set_levels w) s"
proof (induction c f w s rule: while_bits.induct)
  case (1 c f w s)
  have stop: "fold (\<lambda>i s. if c s then f i s else s) ls s = s" if "\<not> c s" for ls
    using that by (induction ls) auto
  show ?case
    using 1 stop by (subst while_bits.simps) (auto simp: set_levels_step)
qed

text \<open>The fold is what is evaluated on concrete words.\<close>

lemmas [code] = while_bits_fold

lemma set_set_levels: "set (set_levels w) = {i. bit w i}"
  by (auto simp: set_levels_def dest: bit_u32_lt)

lemma distinct_set_levels: "distinct (set_levels w)"
  by (simp add: set_levels_def)

lemma filter_absent: "i \<notin># M \<Longrightarrow> filter_mset (\<lambda>j. j \<noteq> i) M = M"
  by (induction M) auto

section \<open>The contract of a run queue\<close>

text \<open>
  What the scheduler asks of a backend, as events: \<^verbatim>\<open>enqueue\<close>, \<^verbatim>\<open>dequeue\<close>, \<^verbatim>\<open>pick_next\<close>, \<^verbatim>\<open>steal\<close>
  and \<^verbatim>\<open>tick\<close>, and the tasks an event takes off the queue.
\<close>

datatype rq_event = RqEnqueue task_id nat | RqDequeue task_id nat | RqPick | RqSteal nat | RqTick

fun rq_step ::
  "(task_id \<Rightarrow> nat \<Rightarrow> 's \<Rightarrow> 's) \<Rightarrow> (task_id \<Rightarrow> nat \<Rightarrow> 's \<Rightarrow> bool \<times> 's) \<Rightarrow> ('s \<Rightarrow> task_id option \<times> 's) \<Rightarrow>
   (nat \<Rightarrow> 's \<Rightarrow> stolen \<times> 's) \<Rightarrow> ('s \<Rightarrow> bool \<times> 's) \<Rightarrow> rq_event \<Rightarrow> 's \<Rightarrow> 's" where
  "rq_step enq deq pick steal tick (RqEnqueue i p) s = enq i p s"
| "rq_step enq deq pick steal tick (RqDequeue i p) s = snd (deq i p s)"
| "rq_step enq deq pick steal tick RqPick s = snd (pick s)"
| "rq_step enq deq pick steal tick (RqSteal n) s = snd (steal n s)"
| "rq_step enq deq pick steal tick RqTick s = snd (tick s)"

text \<open>The tasks an event hands to a CPU, and those it takes away, by hand or by removal.\<close>

fun rq_handed ::
  "('s \<Rightarrow> task_id option \<times> 's) \<Rightarrow> (nat \<Rightarrow> 's \<Rightarrow> stolen \<times> 's) \<Rightarrow> rq_event \<Rightarrow> 's \<Rightarrow> task_id list" where
  "rq_handed pick steal RqPick s = (case fst (pick s) of Some i \<Rightarrow> [i] | None \<Rightarrow> [])"
| "rq_handed pick steal (RqSteal n) s = map fst (fst (steal n s))"
| "rq_handed pick steal _ s = []"

definition rq_taken ::
  "('s \<Rightarrow> task_id option \<times> 's) \<Rightarrow> (nat \<Rightarrow> 's \<Rightarrow> stolen \<times> 's) \<Rightarrow> rq_event \<Rightarrow> 's \<Rightarrow> task_id list" where
  "rq_taken pick steal e s =
     (case e of RqDequeue i p \<Rightarrow> [i] | _ \<Rightarrow> rq_handed pick steal e s)"

text \<open>
  The task counters of two backends are 32 bits wide, and a pick of the deadline backend may put
  back up to 32 throttled tasks: an enqueue or a pick is admissible where that fits the counter.
\<close>

definition rq_room :: "('s \<Rightarrow> nat) \<Rightarrow> rq_event \<Rightarrow> 's \<Rightarrow> bool" where
  "rq_room backlog e s = (case e of RqEnqueue i p \<Rightarrow> backlog s < u32_max
     | RqPick \<Rightarrow> backlog s + 32 \<le> u32_max | _ \<Rightarrow> True)"

locale run_queue =
  fixes inv :: "'s \<Rightarrow> bool"
    and tasks :: "'s \<Rightarrow> task_id multiset"
    and enq :: "task_id \<Rightarrow> nat \<Rightarrow> 's \<Rightarrow> 's"
    and deq :: "task_id \<Rightarrow> nat \<Rightarrow> 's \<Rightarrow> bool \<times> 's"
    and pick :: "'s \<Rightarrow> task_id option \<times> 's"
    and steal :: "nat \<Rightarrow> 's \<Rightarrow> stolen \<times> 's"
    and tick :: "'s \<Rightarrow> bool \<times> 's"
    and backlog :: "'s \<Rightarrow> nat"
  assumes inv_enq: "inv s \<Longrightarrow> backlog s < u32_max \<Longrightarrow> inv (enq i p s)"
    and inv_deq: "inv s \<Longrightarrow> inv (snd (deq i p s))"
    and inv_pick: "inv s \<Longrightarrow> backlog s + 32 \<le> u32_max \<Longrightarrow> inv (snd (pick s))"
    and inv_steal: "inv s \<Longrightarrow> inv (snd (steal n s))"
    and inv_tick: "inv s \<Longrightarrow> inv (snd (tick s))"
    and tasks_enq: "inv s \<Longrightarrow> backlog s < u32_max \<Longrightarrow>
      set_mset (tasks (enq i p s)) = insert i (set_mset (tasks s))"
    and tasks_enq_new: "inv s \<Longrightarrow> backlog s < u32_max \<Longrightarrow> i \<notin># tasks s \<Longrightarrow>
      tasks (enq i p s) = add_mset i (tasks s)"
    and tasks_deq: "inv s \<Longrightarrow> tasks (snd (deq i p s)) = filter_mset (\<lambda>j. j \<noteq> i) (tasks s)"
    and pick_none: "inv s \<Longrightarrow> backlog s + 32 \<le> u32_max \<Longrightarrow> fst (pick s) = None \<Longrightarrow> tasks s = {#}"
    and pick_some: "inv s \<Longrightarrow> backlog s + 32 \<le> u32_max \<Longrightarrow> fst (pick s) = Some i \<Longrightarrow>
      tasks s \<subseteq># add_mset i (tasks (snd (pick s)))"
    and tasks_steal: "inv s \<Longrightarrow>
      tasks s = mset (map fst (fst (steal n s))) + tasks (snd (steal n s))"
    and size_enq: "inv s \<Longrightarrow> backlog s < u32_max \<Longrightarrow> size (tasks (enq i p s)) \<le> Suc (size (tasks s))"
    and steal_length: "inv s \<Longrightarrow> length (fst (steal n s)) \<le> min n MAX_STEAL"
    and tasks_tick: "inv s \<Longrightarrow> tasks (snd (tick s)) = tasks s"
    and backlog_size: "inv s \<Longrightarrow> backlog s = size (tasks s)"
begin

abbreviation step :: "rq_event \<Rightarrow> 's \<Rightarrow> 's" where
  "step \<equiv> rq_step enq deq pick steal tick"

lemma inv_step: "inv s \<Longrightarrow> rq_room backlog e s \<Longrightarrow> inv (step e s)"
  by (cases e) (auto simp: rq_room_def inv_enq inv_deq inv_pick inv_steal inv_tick)

lemma picks_something:
  "inv s \<Longrightarrow> backlog s + 32 \<le> u32_max \<Longrightarrow> tasks s \<noteq> {#} \<Longrightarrow> \<exists>i. fst (pick s) = Some i"
  using pick_none by blast

lemma grow: "inv s \<and> backlog s \<le> n \<Longrightarrow> n < u32_max \<Longrightarrow> inv (enq i p s) \<and> backlog (enq i p s) \<le> Suc n"
  using size_enq [of s i p] backlog_size inv_enq [of s i p] by fastforce

text \<open>A queued task stays queued until an event takes it.\<close>

lemma kept_or_taken:
  assumes "inv s" and "rq_room backlog e s" and "i \<in># tasks s"
  shows "i \<in># tasks (step e s) \<or> i \<in> set (rq_taken pick steal e s)"
proof (cases e)
  case (RqEnqueue j p)
  with assms show ?thesis by (simp add: rq_room_def tasks_enq)
next
  case (RqDequeue j p)
  with assms show ?thesis by (auto simp: tasks_deq rq_taken_def)
next
  case RqPick
  with assms(2) have room: "backlog s + 32 \<le> u32_max" by (simp add: rq_room_def)
  show ?thesis
  proof (cases "fst (pick s)")
    case None
    with assms room pick_none show ?thesis by simp
  next
    case (Some j)
    with assms room pick_some [of s j] have "i \<in># add_mset j (tasks (snd (pick s)))"
      by (meson mset_subset_eqD)
    with RqPick Some show ?thesis by (auto simp: rq_taken_def)
  qed
next
  case (RqSteal n)
  from assms tasks_steal [of s n] have "i \<in># mset (map fst (fst (steal n s))) + tasks (snd (steal n s))"
    by simp
  with RqSteal show ?thesis by (auto simp: rq_taken_def)
next
  case RqTick
  with assms show ?thesis by (simp add: tasks_tick)
qed

end

sublocale run_queue \<subseteq> rq: guarded_machine step "rq_room backlog" inv
  by unfold_locales (rule inv_step)

context run_queue begin

lemma never_lost:
  assumes "inv s" and "run_ok (rq_room backlog) step es s" and "i \<in># tasks s"
  shows "i \<in># tasks (fold step es s) \<or> i \<in> set (gather (rq_taken pick steal) step es s)"
  using rq.keeps_or_reports [where P = "\<lambda>t. i \<in># tasks t" and f = "rq_taken pick steal" and x = i]
    kept_or_taken assms by blast

end

text \<open>A queue that hands out nothing but what is queued: no task leaves it and comes back by itself.\<close>

locale exact_queue = run_queue +
  assumes pick_exact: "inv s \<Longrightarrow> fst (pick s) = Some i \<Longrightarrow> tasks s = add_mset i (tasks (snd (pick s)))"
    and pick_nothing: "inv s \<Longrightarrow> fst (pick s) = None \<Longrightarrow> tasks (snd (pick s)) = {#}"
begin

lemma not_queued_step:
  assumes "inv s" and "rq_room backlog e s" and "i \<notin># tasks s" and "\<And>p. e \<noteq> RqEnqueue i p"
  shows "i \<notin># tasks (step e s) \<and> i \<notin> set (rq_handed pick steal e s)"
proof (cases e)
  case (RqEnqueue j p)
  with assms show ?thesis by (auto simp: rq_room_def tasks_enq)
next
  case (RqDequeue j p)
  with assms show ?thesis by (simp add: tasks_deq)
next
  case RqPick
  show ?thesis
  proof (cases "fst (pick s)")
    case None
    with RqPick pick_nothing [OF assms(1) None] show ?thesis by simp
  next
    case (Some j)
    with pick_exact [OF assms(1) Some] assms(3) RqPick show ?thesis by simp
  qed
next
  case (RqSteal n)
  from assms(3) tasks_steal [OF assms(1), of n] have "i \<notin># mset (map fst (fst (steal n s))) + tasks (snd (steal n s))"
    by simp
  with RqSteal show ?thesis by auto
next
  case RqTick
  with assms show ?thesis by (simp add: tasks_tick)
qed

lemma backlog_step:
  assumes "inv s" and "rq_room backlog e s"
  shows "backlog (step e s) \<le> Suc (backlog s)"
proof (cases e)
  case (RqEnqueue j p)
  with assms grow [of s "backlog s" j p] show ?thesis by (simp add: rq_room_def)
next
  case (RqDequeue j p)
  with assms show ?thesis
    by (simp add: backlog_size inv_deq tasks_deq le_SucI size_mset_mono)
next
  case RqPick
  with assms pick_exact [of s] pick_nothing [of s] show ?thesis
    by (cases "fst (pick s)") (auto simp: rq_room_def backlog_size inv_pick)
next
  case (RqSteal n)
  from arg_cong [OF tasks_steal [OF assms(1), of n], of size] RqSteal assms show ?thesis
    by (simp add: backlog_size inv_steal)
next
  case RqTick
  with assms show ?thesis by (simp add: backlog_size inv_tick tasks_tick)
qed

text \<open>A run short enough for the counter is admissible.\<close>

lemma short_run_ok: "inv s \<Longrightarrow> backlog s + length es + 32 \<le> u32_max \<Longrightarrow> run_ok (rq_room backlog) step es s"
proof (induction es arbitrary: s)
  case Nil
  then show ?case by simp
next
  case (Cons e es)
  then have room: "rq_room backlog e s" by (auto simp: rq_room_def split: rq_event.splits)
  with backlog_step [OF Cons.prems(1) room] inv_step Cons show ?case by simp
qed

text \<open>A task that is not queued is not handed out before it is enqueued again.\<close>

lemma gone_stays_gone:
  assumes "inv s" and "run_ok (rq_room backlog) step es s" and "i \<notin># tasks s"
    and "\<And>p. RqEnqueue i p \<notin> set es"
  shows "i \<notin># tasks (fold step es s) \<and> i \<notin> set (gather (rq_handed pick steal) step es s)"
  using assms
proof (induction es arbitrary: s)
  case Nil
  then show ?case by simp
next
  case (Cons e es)
  have here: "i \<notin># tasks (step e s) \<and> i \<notin> set (rq_handed pick steal e s)"
    using Cons.prems by (intro not_queued_step) auto
  moreover have "i \<notin># tasks (fold step es (step e s)) \<and>
      i \<notin> set (gather (rq_handed pick steal) step es (step e s))"
    using Cons.prems here inv_step by (intro Cons.IH) auto
  ultimately show ?case by simp
qed

end

end
