(* ===== verification/PriorityRR.thy ===== *)
theory PriorityRR imports RunQueue begin

text \<open>
  The priority round-robin backend, \<^verbatim>\<open>kernel/src/sched/priority_rr.rs\<close>: 32 first-in first-out
  queues and a bitmap of the non-empty ones. The invariant is that the bitmap names exactly the
  non-empty levels; under it the bit tricks pick what a scan of the levels would.
\<close>

section \<open>State\<close>

record rr =
  rr_queues :: "task_id list list"
  rr_bitmap :: u32
  rr_slices :: "nat list"
  rr_remaining :: nat

definition rr_new_const :: rr where
  "rr_new_const = \<lparr>rr_queues = replicate NUM_PRIORITIES [], rr_bitmap = 0,
     rr_slices = replicate NUM_PRIORITIES 0, rr_remaining = 0\<rparr>"

definition rr_new :: rr where
  "rr_new = \<lparr>rr_queues = replicate NUM_PRIORITIES [], rr_bitmap = 0,
     rr_slices = map (\<lambda>i. BASE_TIME_SLICE + i * SLICE_INCREMENT) [0..<NUM_PRIORITIES],
     rr_remaining = 0\<rparr>"

section \<open>Operations\<close>

definition rr_band :: u32 where
  "rr_band = push_bit RT_LEVELS 1 - 1"

definition rr_idle_bit :: u32 where
  "rr_idle_bit = push_bit IDLE_PRIORITY 1"

definition rr_pick_next_masked :: "bool \<Rightarrow> rr \<Rightarrow> task_id option \<times> rr" where
  "rr_pick_next_masked avoid_band s =
     (if rr_bitmap s = 0 then (None, s)
      else let pickable = (if avoid_band \<and> rr_bitmap s AND NOT rr_band \<noteq> 0
                           then rr_bitmap s AND NOT rr_band else rr_bitmap s);
               level = trailing_zeros pickable
      in if level < length (rr_queues s) then
           (case rr_queues s ! level of
              [] \<Rightarrow> (None, s)
            | i # q \<Rightarrow>
                (Some i,
                 s\<lparr>rr_queues := (rr_queues s)[level := q],
                   rr_bitmap := (if q = [] then rr_bitmap s AND NOT (push_bit level 1) else rr_bitmap s),
                   rr_remaining := slice_at level (rr_slices s)\<rparr>))
         else (None, s))"

definition rr_pick_next :: "rr \<Rightarrow> task_id option \<times> rr" where
  "rr_pick_next s = rr_pick_next_masked False s"

definition rr_enqueue :: "task_id \<Rightarrow> nat \<Rightarrow> rr \<Rightarrow> rr" where
  "rr_enqueue i priority s =
     (let level = level_of priority
      in if level < length (rr_queues s) then
           s\<lparr>rr_queues := (rr_queues s)[level := rr_queues s ! level @ [i]],
             rr_bitmap := rr_bitmap s OR push_bit level 1\<rparr>
         else s)"

text \<open>One turn of the sweep, at one level of the bitmap's copy.\<close>

definition rr_dequeue_level :: "task_id \<Rightarrow> nat \<Rightarrow> bool \<times> rr \<Rightarrow> bool \<times> rr" where
  "rr_dequeue_level i level = (\<lambda>(removed, s).
     if level < length (rr_queues s) then
       let before = length (rr_queues s ! level);
           q = filter (\<lambda>t. t \<noteq> i) (rr_queues s ! level);
           s' = s\<lparr>rr_queues := (rr_queues s)[level := q]\<rparr>
       in if length q \<noteq> before then
            (True, if q = [] then s'\<lparr>rr_bitmap := rr_bitmap s' AND NOT (push_bit level 1)\<rparr> else s')
          else (removed, s')
     else (removed, s))"

definition rr_dequeue :: "task_id \<Rightarrow> nat \<Rightarrow> rr \<Rightarrow> bool \<times> rr" where
  "rr_dequeue i priority s =
     while_bits (\<lambda>a. True) (rr_dequeue_level i) (rr_bitmap s) (False, s)"

definition rr_entries_for :: "task_id \<Rightarrow> rr \<Rightarrow> nat" where
  "rr_entries_for i s = sum_list (map (\<lambda>q. length (filter (\<lambda>t. t = i) q)) (rr_queues s))"

definition rr_tick :: "rr \<Rightarrow> bool \<times> rr" where
  "rr_tick s =
     (if rr_remaining s = u32_max then (False, s)
      else let s' = (if 0 < rr_remaining s then s\<lparr>rr_remaining := rr_remaining s - 1\<rparr> else s)
           in (rr_remaining s' = 0, s'))"

definition rr_top_level :: "rr \<Rightarrow> nat option" where
  "rr_top_level s = (if rr_bitmap s \<noteq> 0 then Some (trailing_zeros (rr_bitmap s)) else None)"

definition rr_has_ordinary_work :: "rr \<Rightarrow> bool" where
  "rr_has_ordinary_work s \<longleftrightarrow> rr_bitmap s AND NOT rr_band AND NOT rr_idle_bit \<noteq> 0"

definition rr_has_ready :: "rr \<Rightarrow> bool" where
  "rr_has_ready s \<longleftrightarrow> rr_bitmap s \<noteq> 0"

definition rr_has_real_work :: "rr \<Rightarrow> bool" where
  "rr_has_real_work s \<longleftrightarrow> rr_bitmap s AND NOT rr_idle_bit \<noteq> 0"

definition rr_set_time_slice :: "nat \<Rightarrow> nat \<Rightarrow> rr \<Rightarrow> bool \<times> rr" where
  "rr_set_time_slice level ticks s =
     (let (ts, ok) = slices_set level ticks (rr_slices s) in (ok, s\<lparr>rr_slices := ts\<rparr>))"

definition rr_time_slice :: "nat \<Rightarrow> rr \<Rightarrow> nat option" where
  "rr_time_slice level s = slices_get level (rr_slices s)"

definition rr_reconfigure_slices :: "nat \<Rightarrow> nat \<Rightarrow> rr \<Rightarrow> bool \<times> rr" where
  "rr_reconfigure_slices base increment s =
     (let (ts, ok) = slices_reconfigure base increment (rr_slices s) in (ok, s\<lparr>rr_slices := ts\<rparr>))"

definition rr_apply_profile :: "profile \<Rightarrow> rr \<Rightarrow> rr" where
  "rr_apply_profile p s = snd (rr_reconfigure_slices (profile_base p) (profile_increment p) s)"

text \<open>The two counting loops; a count saturates at the width of \<^verbatim>\<open>usize\<close>.\<close>

definition rr_count_level :: "rr \<Rightarrow> nat \<Rightarrow> nat \<Rightarrow> nat" where
  "rr_count_level s level n =
     (if level < length (rr_queues s) then sat_add64 n (length (rr_queues s ! level)) else n)"

definition rr_total_tasks :: "rr \<Rightarrow> nat" where
  "rr_total_tasks s =
     (if rr_bitmap s = 0 then 0 else while_bits (\<lambda>n. True) (rr_count_level s) (rr_bitmap s) 0)"

definition rr_real_tasks :: "rr \<Rightarrow> nat" where
  "rr_real_tasks s =
     while_bits (\<lambda>n. True) (rr_count_level s) (rr_bitmap s AND NOT rr_idle_bit) 0"

text \<open>Stealing pops the back of the levels in turn, the most urgent first.\<close>

fun rr_pop_level :: "nat \<Rightarrow> nat \<Rightarrow> task_id list \<Rightarrow> stolen \<Rightarrow> task_id list \<times> stolen \<times> nat" where
  "rr_pop_level level remaining [] st = ([], st, remaining)"
| "rr_pop_level level remaining (i # r) st =
     (if remaining = 0 then (i # r, st, 0)
      else rr_pop_level level (remaining - 1) r (stolen_push i (level mod 256) st))"

definition rr_steal_level :: "nat \<Rightarrow> stolen \<times> nat \<times> rr \<Rightarrow> stolen \<times> nat \<times> rr" where
  "rr_steal_level level = (\<lambda>(st, remaining, s).
     if level < length (rr_queues s) then
       let (rest, st', remaining') = rr_pop_level level remaining (rev (rr_queues s ! level)) st;
           q = rev rest;
           s' = s\<lparr>rr_queues := (rr_queues s)[level := q]\<rparr>
       in (st', remaining',
           if q = [] then s'\<lparr>rr_bitmap := rr_bitmap s' AND NOT (push_bit level 1)\<rparr> else s')
     else (st, remaining, s))"

definition rr_steal :: "nat \<Rightarrow> rr \<Rightarrow> stolen \<times> rr" where
  "rr_steal want s =
     (if want = 0 \<or> rr_bitmap s = 0 then ([], s)
      else let (st, remaining, s') =
             while_bits (\<lambda>(st, remaining, s). 0 < remaining) rr_steal_level (rr_bitmap s)
               ([], min want MAX_STEAL, s)
           in (st, s'))"

section \<open>The invariant\<close>

definition rr_inv :: "rr \<Rightarrow> bool" where
  "rr_inv s \<longleftrightarrow> length (rr_queues s) = 32 \<and>
     (\<forall>i < 32. bit (rr_bitmap s) i \<longleftrightarrow> rr_queues s ! i \<noteq> [])"

definition rr_tasks :: "rr \<Rightarrow> task_id multiset" where
  "rr_tasks s = mset (concat (rr_queues s))"

lemma rr_inv_length [simp]: "rr_inv s \<Longrightarrow> length (rr_queues s) = 32"
  by (simp add: rr_inv_def)

lemma rr_inv_bit: "rr_inv s \<Longrightarrow> bit (rr_bitmap s) i \<longleftrightarrow> i < 32 \<and> rr_queues s ! i \<noteq> []"
  using bit_u32_lt [of "rr_bitmap s" i] by (auto simp: rr_inv_def)

lemma rr_new_inv: "rr_inv rr_new"
  by (simp add: rr_inv_def rr_new_def sched_consts)

lemma mset_concat_update:
  assumes "l < length qs"
  shows "mset (concat (qs[l := q])) + mset (qs ! l) = mset (concat qs) + mset q"
  using assms
proof (induction qs arbitrary: l)
  case Nil
  then show ?case by simp
next
  case (Cons a qs)
  then show ?case by (cases l) (auto simp: ac_simps)
qed

lemma rr_no_bits: "rr_inv s \<Longrightarrow> rr_bitmap s = 0 \<longleftrightarrow> rr_tasks s = {#}"
proof -
  assume inv: "rr_inv s"
  have "rr_tasks s = {#} \<longleftrightarrow> (\<forall>i < 32. rr_queues s ! i = [])"
    using rr_inv_length [OF inv] by (auto simp: rr_tasks_def all_set_conv_all_nth)
  also have "\<dots> \<longleftrightarrow> (\<forall>i. \<not> bit (rr_bitmap s) i)"
    using rr_inv_bit [OF inv] by auto
  also have "\<dots> \<longleftrightarrow> rr_bitmap s = 0"
    by (rule no_bits)
  finally show ?thesis by simp
qed

lemma mset_cancel: "b + c = q \<Longrightarrow> t + q = u + c \<Longrightarrow> b + t = (u :: 'a multiset)"
proof -
  assume "b + c = q" and "t + q = u + c"
  then have "(b + t) + c = u + c" by (auto simp: ac_simps)
  then show "b + t = u" by simp
qed

text \<open>A level changed to some queue, its bit kept or cleared to match.\<close>

definition rr_put :: "nat \<Rightarrow> task_id list \<Rightarrow> rr \<Rightarrow> rr" where
  "rr_put level q s = s\<lparr>rr_queues := (rr_queues s)[level := q],
     rr_bitmap := (if q = [] then rr_bitmap s AND NOT (push_bit level 1) else rr_bitmap s)\<rparr>"

lemma rr_put_inv:
  assumes "rr_inv s" and "l < 32" and "rr_queues s ! l \<noteq> []"
  shows "rr_inv (rr_put l q s)"
  using assms by (auto simp: rr_inv_def rr_put_def nth_list_update bit_simps)

lemma rr_put_tasks:
  "rr_inv s \<Longrightarrow> l < 32 \<Longrightarrow> rr_tasks (rr_put l q s) + mset (rr_queues s ! l) = rr_tasks s + mset q"
  by (simp add: rr_tasks_def rr_put_def mset_concat_update)

lemma rr_put_simps [simp]:
  "rr_queues (rr_put l q s) = (rr_queues s)[l := q]"
  "rr_slices (rr_put l q s) = rr_slices s"
  "rr_remaining (rr_put l q s) = rr_remaining s"
  by (simp_all add: rr_put_def)

lemma rr_inv_remaining [simp]: "rr_inv (s\<lparr>rr_remaining := r\<rparr>) = rr_inv s"
  by (simp add: rr_inv_def)

lemma rr_tasks_remaining [simp]: "rr_tasks (s\<lparr>rr_remaining := r\<rparr>) = rr_tasks s"
  by (simp add: rr_tasks_def)

section \<open>Enqueue\<close>

lemma rr_enqueue_inv: "rr_inv s \<Longrightarrow> rr_inv (rr_enqueue i p s)"
  using level_of_lt [of p]
  by (auto simp: rr_inv_def rr_enqueue_def Let_def nth_list_update bit_simps)

lemma rr_enqueue_tasks: "rr_inv s \<Longrightarrow> rr_tasks (rr_enqueue i p s) = add_mset i (rr_tasks s)"
proof -
  assume inv: "rr_inv s"
  let ?l = "level_of p"
  have "mset (concat ((rr_queues s)[?l := rr_queues s ! ?l @ [i]])) + mset (rr_queues s ! ?l)
      = mset (concat (rr_queues s)) + mset (rr_queues s ! ?l @ [i])"
    by (rule mset_concat_update) (simp add: inv)
  then show ?thesis
    using inv by (simp add: rr_tasks_def rr_enqueue_def Let_def)
qed

section \<open>Pick\<close>

text \<open>
  The reference: walk the levels from the most urgent, take the first task found. The throttled
  pick walks the levels below the band first and falls back on all of them.
\<close>

definition rr_scan :: "task_id list list \<Rightarrow> nat list \<Rightarrow> nat option" where
  "rr_scan qs levels = find (\<lambda>l. qs ! l \<noteq> []) levels"

definition rr_pick_level :: "bool \<Rightarrow> rr \<Rightarrow> nat option" where
  "rr_pick_level avoid_band s =
     (case (if avoid_band then rr_scan (rr_queues s) [RT_LEVELS..<NUM_PRIORITIES] else None) of
        Some l \<Rightarrow> Some l
      | None \<Rightarrow> rr_scan (rr_queues s) [0..<NUM_PRIORITIES])"

lemma bit_rr_band: "bit rr_band n \<longleftrightarrow> n < 8"
proof -
  have *: "rr_band = mask 8" by (simp add: rr_band_def sched_consts mask_eq_exp_minus_1)
  show ?thesis unfolding * by (simp only: bit_mask_iff) auto
qed

lemma bit_rr_idle: "bit rr_idle_bit n \<longleftrightarrow> n = 31"
proof -
  have *: "rr_idle_bit = push_bit 31 1" by (simp add: rr_idle_bit_def sched_consts)
  show ?thesis unfolding * by (simp only: bit_push_bit_iff bit_1_iff) auto
qed

lemma scan_trailing_zeros:
  assumes "w \<noteq> 0" and "\<And>i. bit w i \<longleftrightarrow> a \<le> i \<and> i < 32 \<and> qs ! i \<noteq> []"
  shows "rr_scan qs [a..<32] = Some (trailing_zeros w)"
proof -
  note tz = trailing_zeros_props [OF assms(1)]
  let ?k = "trailing_zeros w"
  have k: "a \<le> ?k" "qs ! ?k \<noteq> []" using tz(1) assms(2) by auto
  have nth: "[a..<32] ! (?k - a) = ?k" using k tz(2) by simp
  have "\<forall>j < ?k - a. \<not> qs ! ([a..<32] ! j) \<noteq> []"
    using tz(2,3) assms(2) k by simp
  with nth k tz(2) show ?thesis
    unfolding rr_scan_def find_Some_iff by (intro exI [of _ "?k - a"]) auto
qed

lemma scan_none:
  assumes "\<And>i. a \<le> i \<Longrightarrow> i < 32 \<Longrightarrow> qs ! i = []"
  shows "rr_scan qs [a..<32] = None"
  using assms by (simp add: rr_scan_def find_None_iff)

lemma rr_pick_eq:
  assumes inv: "rr_inv s"
  shows "rr_pick_next_masked avoid s =
    (case rr_pick_level avoid s of
       None \<Rightarrow> (None, s)
     | Some l \<Rightarrow> (Some (hd (rr_queues s ! l)),
         (rr_put l (tl (rr_queues s ! l)) s)\<lparr>rr_remaining := slice_at l (rr_slices s)\<rparr>))"
proof (cases "rr_bitmap s = 0")
  case True
  then have "\<And>i. i < 32 \<Longrightarrow> rr_queues s ! i = []"
    using inv by (simp add: rr_inv_def)
  then have "rr_scan (rr_queues s) [a..<32] = None" for a
    by (intro scan_none) auto
  with True show ?thesis
    by (simp add: rr_pick_next_masked_def rr_pick_level_def NUM_PRIORITIES_def)
next
  case False
  define ord where "ord = rr_bitmap s AND NOT rr_band"
  define w where "w = (if avoid \<and> ord \<noteq> 0 then ord else rr_bitmap s)"
  have ord_bit: "bit ord i \<longleftrightarrow> 8 \<le> i \<and> i < 32 \<and> rr_queues s ! i \<noteq> []" for i
    using rr_inv_bit [OF inv, of i] by (auto simp: ord_def bit_simps bit_rr_band)
  have w: "w \<noteq> 0" using False by (simp add: w_def)
  have all: "rr_scan (rr_queues s) [0..<32] = Some (trailing_zeros (rr_bitmap s))"
    using False by (rule scan_trailing_zeros) (use rr_inv_bit [OF inv] in auto)
  have some: "rr_scan (rr_queues s) [8..<32] = Some (trailing_zeros ord)" if "ord \<noteq> 0"
    using that by (rule scan_trailing_zeros) (rule ord_bit)
  have none: "rr_scan (rr_queues s) [8..<32] = None" if "ord = 0"
    by (rule scan_none) (use ord_bit that in auto)
  have lvl: "rr_pick_level avoid s = Some (trailing_zeros w)"
    using all some none
    by (cases "ord = 0") (auto simp: rr_pick_level_def w_def sched_consts)
  have l: "trailing_zeros w < 32" "bit (rr_bitmap s) (trailing_zeros w)"
    using trailing_zeros_props [OF w] by (auto simp: w_def ord_def bit_simps split: if_splits)
  then obtain i q where q: "rr_queues s ! trailing_zeros w = i # q"
    using rr_inv_bit [OF inv, of "trailing_zeros w"] by (cases "rr_queues s ! trailing_zeros w") auto
  have pk: "(if avoid \<and> rr_bitmap s AND NOT rr_band \<noteq> 0 then rr_bitmap s AND NOT rr_band
      else rr_bitmap s) = w"
    by (simp add: w_def ord_def)
  have "rr_pick_next_masked avoid s = (Some i,
      s\<lparr>rr_queues := (rr_queues s)[trailing_zeros w := q],
        rr_bitmap := (if q = [] then rr_bitmap s AND NOT (push_bit (trailing_zeros w) 1) else rr_bitmap s),
        rr_remaining := slice_at (trailing_zeros w) (rr_slices s)\<rparr>)"
    unfolding rr_pick_next_masked_def Let_def pk using False inv l q by simp
  then show ?thesis by (simp add: lvl q rr_put_def)
qed

lemma rr_scan_SomeD:
  "rr_scan qs levels = Some l \<Longrightarrow> l \<in> set levels \<and> qs ! l \<noteq> []"
  by (auto simp: rr_scan_def find_Some_iff)

lemma rr_pick_level_SomeD:
  "rr_pick_level avoid s = Some l \<Longrightarrow> l < 32 \<and> rr_queues s ! l \<noteq> []"
  by (auto simp: rr_pick_level_def sched_consts dest!: rr_scan_SomeD split: option.splits if_splits)

lemma rr_pick_level_None:
  "rr_inv s \<Longrightarrow> rr_pick_level avoid s = None \<Longrightarrow> rr_tasks s = {#}"
  by (auto simp: rr_pick_level_def rr_scan_def find_None_iff sched_consts rr_tasks_def
      all_set_conv_all_nth split: option.splits)

lemma rr_pick_None:
  "rr_inv s \<Longrightarrow> fst (rr_pick_next_masked avoid s) = None \<Longrightarrow>
     rr_tasks s = {#} \<and> snd (rr_pick_next_masked avoid s) = s"
  by (auto simp: rr_pick_eq rr_pick_level_None split: option.splits)

lemma rr_pick_Some:
  assumes inv: "rr_inv s" and "fst (rr_pick_next_masked avoid s) = Some i"
  shows "rr_tasks s = add_mset i (rr_tasks (snd (rr_pick_next_masked avoid s)))"
proof -
  from assms obtain l where l: "rr_pick_level avoid s = Some l" and i: "i = hd (rr_queues s ! l)"
    by (auto simp: rr_pick_eq split: option.splits)
  from rr_pick_level_SomeD [OF l] obtain q where q: "l < 32" "rr_queues s ! l = i # q"
    using i by (cases "rr_queues s ! l") auto
  from rr_put_tasks [OF inv q(1), of q] q show ?thesis
    by (simp add: rr_pick_eq [OF inv] l)
qed

lemma rr_pick_inv: "rr_inv s \<Longrightarrow> rr_inv (snd (rr_pick_next_masked avoid s))"
  by (auto simp: rr_pick_eq split: option.splits intro!: rr_put_inv dest: rr_pick_level_SomeD)

section \<open>Dequeue\<close>

lemma rr_put_same: "rr_inv s \<Longrightarrow> rr_queues s ! l \<noteq> [] \<Longrightarrow> rr_put l (rr_queues s ! l) s = s"
  by (simp add: rr_put_def)

lemma rr_dequeue_level_eq:
  assumes "rr_inv s" and "l < 32" and "rr_queues s ! l \<noteq> []"
  shows "rr_dequeue_level i l (r, s) =
    (r \<or> i \<in> set (rr_queues s ! l), rr_put l (filter (\<lambda>t. t \<noteq> i) (rr_queues s ! l)) s)"
proof (cases "i \<in> set (rr_queues s ! l)")
  case True
  then have "length (filter (\<lambda>t. t \<noteq> i) (rr_queues s ! l)) \<noteq> length (rr_queues s ! l)"
    using length_filter_less [of i "rr_queues s ! l" "\<lambda>t. t \<noteq> i"] by simp
  with True assms show ?thesis
    by (simp add: rr_dequeue_level_def Let_def rr_put_def)
next
  case False
  then have "filter (\<lambda>t. t \<noteq> i) (rr_queues s ! l) = rr_queues s ! l"
    by (auto intro: filter_True)
  with False assms show ?thesis
    by (simp add: rr_dequeue_level_def Let_def rr_put_same)
qed

lemma rr_dequeue_fold:
  assumes "rr_inv s" and "distinct ls" and "\<forall>l \<in> set ls. l < 32 \<and> rr_queues s ! l \<noteq> []"
  shows "\<exists>r' s'. fold (rr_dequeue_level i) ls (r, s) = (r', s') \<and> rr_inv s' \<and>
    rr_slices s' = rr_slices s \<and> rr_remaining s' = rr_remaining s \<and>
    r' = (r \<or> (\<exists>l \<in> set ls. i \<in> set (rr_queues s ! l))) \<and>
    (\<forall>l < 32. rr_queues s' ! l =
      (if l \<in> set ls then filter (\<lambda>t. t \<noteq> i) (rr_queues s ! l) else rr_queues s ! l))"
  using assms
proof (induction ls arbitrary: r s)
  case Nil
  then show ?case by simp
next
  case (Cons k ls)
  have k: "k < 32" "rr_queues s ! k \<noteq> []" using Cons.prems(3) by simp_all
  let ?q = "filter (\<lambda>t. t \<noteq> i) (rr_queues s ! k)"
  let ?s = "rr_put k ?q s"
  have other: "rr_queues ?s ! l = rr_queues s ! l" if "l \<noteq> k" for l
    using that by simp
  have nonempty: "\<forall>l \<in> set ls. l < 32 \<and> rr_queues ?s ! l \<noteq> []"
  proof
    fix l assume "l \<in> set ls"
    moreover then have "l \<noteq> k" using Cons.prems(2) by auto
    ultimately show "l < 32 \<and> rr_queues ?s ! l \<noteq> []" using other Cons.prems(3) by simp
  qed
  have dist: "distinct ls" using Cons.prems(2) by simp
  from Cons.IH [OF rr_put_inv [OF Cons.prems(1) k] dist nonempty, of "r \<or> i \<in> set (rr_queues s ! k)"]
  obtain r' s' where IH: "fold (rr_dequeue_level i) ls (r \<or> i \<in> set (rr_queues s ! k), ?s) = (r', s')"
    "rr_inv s'" "rr_slices s' = rr_slices s" "rr_remaining s' = rr_remaining s"
    "r' = ((r \<or> i \<in> set (rr_queues s ! k)) \<or> (\<exists>l \<in> set ls. i \<in> set (rr_queues ?s ! l)))"
    "\<forall>l < 32. rr_queues s' ! l =
      (if l \<in> set ls then filter (\<lambda>t. t \<noteq> i) (rr_queues ?s ! l) else rr_queues ?s ! l)"
    by (auto simp only: rr_put_simps)
  have k_ls: "k \<notin> set ls" using Cons.prems(2) by simp
  have "fold (rr_dequeue_level i) (k # ls) (r, s) = (r', s')"
    using IH(1) by (simp add: rr_dequeue_level_eq [OF Cons.prems(1) k])
  moreover have "(\<exists>l \<in> set ls. i \<in> set (rr_queues ?s ! l)) = (\<exists>l \<in> set ls. i \<in> set (rr_queues s ! l))"
    using other k_ls by metis
  moreover have "\<forall>l < 32. rr_queues s' ! l =
      (if l \<in> set (k # ls) then filter (\<lambda>t. t \<noteq> i) (rr_queues s ! l) else rr_queues s ! l)"
    using IH(6) other k_ls k Cons.prems(1) by (auto simp: nth_list_update)
  ultimately show ?case using IH(2,3,4,5) by auto
qed

lemma rr_dequeue_spec:
  assumes inv: "rr_inv s"
  obtains s' where "rr_dequeue i p s = (i \<in># rr_tasks s, s')" and "rr_inv s'"
    and "rr_queues s' = map (filter (\<lambda>t. t \<noteq> i)) (rr_queues s)"
    and "rr_slices s' = rr_slices s" and "rr_remaining s' = rr_remaining s"
proof -
  let ?ls = "set_levels (rr_bitmap s)"
  have ls: "l \<in> set ?ls \<longleftrightarrow> l < 32 \<and> rr_queues s ! l \<noteq> []" for l
    using rr_inv_bit [OF inv] by (simp add: set_set_levels)
  then have lsD: "\<forall>l \<in> set ?ls. l < 32 \<and> rr_queues s ! l \<noteq> []" by simp
  obtain r' s' where f: "fold (rr_dequeue_level i) ?ls (False, s) = (r', s')" "rr_inv s'"
    "rr_slices s' = rr_slices s" "rr_remaining s' = rr_remaining s"
    "r' = (False \<or> (\<exists>l \<in> set ?ls. i \<in> set (rr_queues s ! l)))"
    "\<forall>l < 32. rr_queues s' ! l =
      (if l \<in> set ?ls then filter (\<lambda>t. t \<noteq> i) (rr_queues s ! l) else rr_queues s ! l)"
    using rr_dequeue_fold [OF inv distinct_set_levels lsD, of i False]
    by (elim exE conjE) (rule that)
  have d: "rr_dequeue i p s = (r', s')"
    using f(1) by (simp add: rr_dequeue_def while_bits_fold)
  have "r' \<longleftrightarrow> (\<exists>l < 32. i \<in> set (rr_queues s ! l))"
    using f(5) ls by (metis list.distinct(1) list.set_cases)
  also have "\<dots> \<longleftrightarrow> (\<exists>q \<in> set (rr_queues s). i \<in> set q)"
    using rr_inv_length [OF inv] by (metis in_set_conv_nth)
  also have "\<dots> \<longleftrightarrow> i \<in># rr_tasks s"
    by (simp add: rr_tasks_def)
  finally have "r' = (i \<in># rr_tasks s)" .
  moreover have "rr_queues s' = map (filter (\<lambda>t. t \<noteq> i)) (rr_queues s)"
    using inv f(2,6) ls by (intro nth_equalityI) auto
  ultimately show ?thesis using that d f(2,3,4) by simp
qed

lemma filter_concat_map: "concat (map (filter P) xss) = filter P (concat xss)"
  by (induction xss) auto

lemma rr_dequeue_tasks: "rr_inv s \<Longrightarrow>
    rr_tasks (snd (rr_dequeue i p s)) = filter_mset (\<lambda>j. j \<noteq> i) (rr_tasks s)"
  by (erule rr_dequeue_spec [of s i p]) (simp add: rr_tasks_def filter_concat_map mset_filter)

lemma rr_dequeue_inv: "rr_inv s \<Longrightarrow> rr_inv (snd (rr_dequeue i p s))"
  by (erule rr_dequeue_spec [of s i p]) simp

lemma rr_dequeue_found: "rr_inv s \<Longrightarrow> fst (rr_dequeue i p s) = (i \<in># rr_tasks s)"
  by (erule rr_dequeue_spec [of s i p]) simp

lemma rr_entries_count: "rr_entries_for i s = count (rr_tasks s) i"
proof -
  have "length (filter (\<lambda>t. t = i) q) = count (mset q) i" for q
    by (induction q) auto
  then have "sum_list (map (\<lambda>q. length (filter (\<lambda>t. t = i) q)) qs) = count (mset (concat qs)) i" for qs
    by (induction qs) simp_all
  then show ?thesis by (simp add: rr_entries_for_def rr_tasks_def)
qed

section \<open>Steal\<close>

lemma rr_pop_level_eq:
  "length st + n \<le> MAX_STEAL \<Longrightarrow> l < 256 \<Longrightarrow>
     rr_pop_level l n xs st = (drop n xs, st @ map (\<lambda>i. (i, l)) (take n xs), n - length xs)"
proof (induction l n xs st rule: rr_pop_level.induct)
  case (1 l n st)
  then show ?case by simp
next
  case (2 l n i r st)
  show ?case
  proof (cases n)
    case 0
    then show ?thesis by simp
  next
    case (Suc m)
    with 2 show ?thesis by (simp add: stolen_push_def)
  qed
qed

lemma rr_steal_level_eq:
  assumes "rr_inv s" and "l < 32" and "length st + n \<le> MAX_STEAL"
  shows "rr_steal_level l (st, n, s) =
    (st @ map (\<lambda>i. (i, l)) (take n (rev (rr_queues s ! l))), n - length (rr_queues s ! l),
     rr_put l (rev (drop n (rev (rr_queues s ! l)))) s)"
  using assms by (simp add: rr_steal_level_def rr_pop_level_eq Let_def rr_put_def)

lemma min_split: "min n a + min (n - a) b = min n (a + b)" for n :: nat
  by (auto simp: min_def)

lemma rr_steal_fold:
  assumes "rr_inv s" and "distinct ls" and "\<forall>l \<in> set ls. l < 32 \<and> rr_queues s ! l \<noteq> []"
    and "length st + n \<le> MAX_STEAL"
  shows "\<exists>st' n' s'.
    fold (\<lambda>l a. if (\<lambda>(st, n, s). 0 < n) a then rr_steal_level l a else a) ls (st, n, s) = (st', n', s') \<and>
    rr_inv s' \<and> mset (map fst st') + rr_tasks s' = mset (map fst st) + rr_tasks s \<and>
    length st' = length st + min n (sum_list (map (\<lambda>l. length (rr_queues s ! l)) ls))"
  using assms
proof (induction ls arbitrary: st n s)
  case Nil
  then show ?case by simp
next
  case (Cons k ls)
  show ?case
  proof (cases "0 < n")
    case False
    then have "fold (\<lambda>l a. if (\<lambda>(st, n, s). 0 < n) a then rr_steal_level l a else a) (k # ls) (st, n, s)
        = (st, n, s)" by (induction ls) auto
    with False Cons.prems show ?thesis by simp
  next
    case True
    have k: "k < 32" "rr_queues s ! k \<noteq> []" using Cons.prems(3) by simp_all
    let ?q = "rr_queues s ! k"
    let ?rest = "rev (drop n (rev ?q))"
    let ?st = "st @ map (\<lambda>i. (i, k)) (take n (rev ?q))"
    let ?s = "rr_put k ?rest s"
    have k_ls: "k \<notin> set ls" using Cons.prems(2) by simp
    have other: "rr_queues ?s ! l = rr_queues s ! l" if "l \<in> set ls" for l
      using that k_ls by (cases "l = k") auto
    have len: "length ?st + (n - length ?q) \<le> MAX_STEAL" using Cons.prems(4) by simp
    from Cons.IH [OF rr_put_inv [OF Cons.prems(1) k] _ _ len, of ?rest] other Cons.prems(2,3)
    obtain st' n' s' where IH:
      "fold (\<lambda>l a. if (\<lambda>(st, n, s). 0 < n) a then rr_steal_level l a else a) ls (?st, n - length ?q, ?s)
        = (st', n', s')"
      "rr_inv s'" "mset (map fst st') + rr_tasks s' = mset (map fst ?st) + rr_tasks ?s"
      "length st' = length ?st + min (n - length ?q) (sum_list (map (\<lambda>l. length (rr_queues ?s ! l)) ls))"
      by auto
    have sums: "map (\<lambda>l. length (rr_queues ?s ! l)) ls = map (\<lambda>l. length (rr_queues s ! l)) ls"
      using other by simp
    have "mset (take n (rev ?q)) + mset ?rest = mset ?q"
      by (metis append_take_drop_id mset_append mset_rev)
    from mset_cancel [OF this rr_put_tasks [OF Cons.prems(1) k(1), of ?rest]]
    have "mset (map fst ?st) + rr_tasks ?s = mset (map fst st) + rr_tasks s"
      by (simp add: comp_def)
    moreover have "length st' = length st + min n (sum_list (map (\<lambda>l. length (rr_queues s ! l)) (k # ls)))"
      using IH(4) min_split [of n "length ?q"] unfolding sums by simp
    moreover have "fold (\<lambda>l a. if (\<lambda>(st, n, s). 0 < n) a then rr_steal_level l a else a) (k # ls) (st, n, s)
        = (st', n', s')"
      using True IH(1) rr_steal_level_eq [OF Cons.prems(1) k(1) Cons.prems(4)] by simp
    ultimately show ?thesis using IH(2,3) by auto
  qed
qed

text \<open>Summing the lengths of some of the levels by the bitmap is summing them over all.\<close>

lemma sum_list_filter_zero:
  "(\<And>x. x \<in> set xs \<Longrightarrow> \<not> P x \<Longrightarrow> f x = (0::nat)) \<Longrightarrow> sum_list (map f (filter P xs)) = sum_list (map f xs)"
  by (induction xs) auto

lemma rr_levels_sum:
  assumes inv: "rr_inv s"
  shows "sum_list (map (\<lambda>l. length (rr_queues s ! l)) (filter (\<lambda>l. bit (rr_bitmap s) l \<and> P l) [0..<32]))
    = sum_list (map (\<lambda>l. if P l then length (rr_queues s ! l) else 0) [0..<32])"
proof -
  have "map (\<lambda>l. length (rr_queues s ! l)) (filter (\<lambda>l. bit (rr_bitmap s) l \<and> P l) [0..<32])
      = map (\<lambda>l. if P l then length (rr_queues s ! l) else 0)
          (filter (\<lambda>l. bit (rr_bitmap s) l \<and> P l) [0..<32])"
    by simp
  then show ?thesis
    using rr_inv_bit [OF inv] by (simp only:) (rule sum_list_filter_zero; auto)
qed

lemma rr_size_sum:
  assumes inv: "rr_inv s"
  shows "size (rr_tasks s) = sum_list (map (\<lambda>l. length (rr_queues s ! l)) [0..<32])"
proof -
  have "size (rr_tasks s) = sum_list (map length (rr_queues s))"
    by (simp add: rr_tasks_def length_concat)
  also have "rr_queues s = map ((!) (rr_queues s)) [0..<32]"
    using map_nth [of "rr_queues s"] inv by simp
  finally show ?thesis by (simp add: comp_def)
qed

lemma rr_steal_spec:
  assumes inv: "rr_inv s"
  obtains st s' where "rr_steal n s = (st, s')" and "rr_inv s'"
    and "rr_tasks s = mset (map fst st) + rr_tasks s'"
    and "length st = min (min n MAX_STEAL) (size (rr_tasks s))"
proof (cases "n = 0 \<or> rr_bitmap s = 0")
  case True
  with rr_no_bits [OF inv] inv that [of "[]" s] show ?thesis
    by (auto simp: rr_steal_def)
next
  case False
  let ?ls = "set_levels (rr_bitmap s)"
  have "\<forall>l \<in> set ?ls. l < 32 \<and> rr_queues s ! l \<noteq> []"
    using rr_inv_bit [OF inv] by (simp add: set_set_levels)
  from rr_steal_fold [OF inv distinct_set_levels this, of "[]" "min n MAX_STEAL"]
  obtain st n' s' where f:
    "fold (\<lambda>l a. if (\<lambda>(st, n, s). 0 < n) a then rr_steal_level l a else a) ?ls ([], min n MAX_STEAL, s)
      = (st, n', s')"
    "rr_inv s'" "mset (map fst st) + rr_tasks s' = rr_tasks s"
    "length st = min (min n MAX_STEAL) (sum_list (map (\<lambda>l. length (rr_queues s ! l)) ?ls))"
    by auto
  have "rr_steal n s = (st, s')"
    using False f(1) by (simp add: rr_steal_def while_bits_fold)
  moreover have "sum_list (map (\<lambda>l. length (rr_queues s ! l)) ?ls) = size (rr_tasks s)"
    unfolding set_levels_def rr_size_sum [OF inv]
    using rr_levels_sum [OF inv, of "\<lambda>l. True"] by (simp only: simp_thms if_True)
  ultimately show ?thesis using f(2,3,4) by (intro that [of st s']) simp_all
qed

section \<open>Counting\<close>

lemma rr_count_fold:
  assumes "length (rr_queues s) = 32" and "set ls \<subseteq> {..<32}"
  shows "fold (rr_count_level s) ls n =
    (if ls = [] then n else min (n + sum_list (map (\<lambda>l. length (rr_queues s ! l)) ls)) u64_max)"
  using assms(2)
proof (induction ls arbitrary: n)
  case Nil
  then show ?case by simp
next
  case (Cons k ls)
  then show ?case
    using assms(1) by (auto simp: rr_count_level_def sat_add64_def)
qed

lemma rr_total_size: "rr_inv s \<Longrightarrow> size (rr_tasks s) \<le> u64_max \<Longrightarrow> rr_total_tasks s = size (rr_tasks s)"
proof -
  assume inv: "rr_inv s" and small: "size (rr_tasks s) \<le> u64_max"
  show ?thesis
  proof (cases "rr_bitmap s = 0")
    case True
    then show ?thesis using rr_no_bits [OF inv] by (simp add: rr_total_tasks_def)
  next
    case False
    let ?ls = "set_levels (rr_bitmap s)"
    have sub: "set ?ls \<subseteq> {..<32}" by (auto simp: set_set_levels dest: bit_u32_lt)
    have ne: "?ls \<noteq> []" using set_levels_step [OF False] by simp
    have "sum_list (map (\<lambda>l. length (rr_queues s ! l)) ?ls) = size (rr_tasks s)"
      unfolding set_levels_def rr_size_sum [OF inv]
      using rr_levels_sum [OF inv, of "\<lambda>l. True"] by (simp only: simp_thms if_True)
    with False small ne show ?thesis
      by (simp add: rr_total_tasks_def while_bits_fold rr_count_fold [OF rr_inv_length [OF inv] sub])
  qed
qed

text \<open>The real work is what is queued above the idle level.\<close>

lemma rr_real_work: "rr_inv s \<Longrightarrow> rr_has_real_work s \<longleftrightarrow> (\<exists>l < IDLE_PRIORITY. rr_queues s ! l \<noteq> [])"
proof -
  assume inv: "rr_inv s"
  have "rr_has_real_work s \<longleftrightarrow> (\<exists>l. bit (rr_bitmap s AND NOT rr_idle_bit) l)"
    unfolding rr_has_real_work_def using no_bits [of "rr_bitmap s AND NOT rr_idle_bit"] by blast
  moreover have "bit (rr_bitmap s AND NOT rr_idle_bit) l \<longleftrightarrow> l < 31 \<and> rr_queues s ! l \<noteq> []" for l
    using rr_inv_bit [OF inv, of l] by (auto simp: bit_simps bit_rr_idle)
  ultimately show ?thesis by (simp add: sched_consts)
qed

section \<open>Ticks and slices\<close>

lemma rr_tick_queues [simp]:
  "rr_queues (snd (rr_tick s)) = rr_queues s" "rr_bitmap (snd (rr_tick s)) = rr_bitmap s"
  by (simp_all add: rr_tick_def Let_def)

lemma rr_tick_inv: "rr_inv s \<Longrightarrow> rr_inv (snd (rr_tick s))"
  by (simp add: rr_inv_def)

lemma rr_tick_tasks: "rr_tasks (snd (rr_tick s)) = rr_tasks s"
  by (simp add: rr_tasks_def)

section \<open>The contract\<close>

definition rr_ok :: "rr \<Rightarrow> bool" where
  "rr_ok s \<longleftrightarrow> rr_inv s \<and> size (rr_tasks s) \<le> u32_max"

lemma rr_ok_inv [intro]: "rr_ok s \<Longrightarrow> rr_inv s"
  by (simp add: rr_ok_def)

lemma u32_le_u64: "n \<le> u32_max \<Longrightarrow> n \<le> u64_max"
  by (simp add: u32_max_def u64_max_def)

lemma rr_ok_total: "rr_ok s \<Longrightarrow> rr_total_tasks s = size (rr_tasks s)"
  by (simp add: rr_ok_def rr_total_size u32_le_u64)

lemma rr_ok_fewer: "rr_ok s \<Longrightarrow> rr_inv s' \<Longrightarrow> rr_tasks s' \<subseteq># rr_tasks s \<Longrightarrow> rr_ok s'"
  by (auto simp: rr_ok_def dest: size_mset_mono)

lemma rr_ok_new: "rr_ok rr_new"
  by (simp add: rr_ok_def rr_new_inv) (simp add: rr_tasks_def rr_new_def)

interpretation rrq: exact_queue rr_ok rr_tasks rr_enqueue rr_dequeue rr_pick_next rr_steal rr_tick rr_total_tasks
proof unfold_locales
  fix s i p
  assume "rr_ok s" and "rr_total_tasks s < u32_max"
  then show "rr_ok (rr_enqueue i p s)"
    by (simp add: rr_ok_total) (simp add: rr_ok_def rr_enqueue_inv rr_enqueue_tasks)
next
  fix s i p assume ok: "rr_ok s"
  show "rr_ok (snd (rr_dequeue i p s))"
    by (rule rr_ok_fewer [OF ok]) (use ok in \<open>auto simp: rr_dequeue_inv rr_dequeue_tasks rr_ok_inv\<close>)
next
  fix s assume ok: "rr_ok s"
  show "rr_ok (snd (rr_pick_next s))"
  proof (rule rr_ok_fewer [OF ok])
    show "rr_tasks (snd (rr_pick_next s)) \<subseteq># rr_tasks s"
      using rr_pick_None rr_pick_Some ok unfolding rr_pick_next_def
      by (cases "fst (rr_pick_next_masked False s)") (fastforce dest: rr_ok_inv)+
  qed (use ok in \<open>auto simp: rr_pick_next_def rr_pick_inv rr_ok_inv\<close>)
next
  fix s n assume ok: "rr_ok s"
  show "rr_ok (snd (rr_steal n s))"
    by (rule rr_steal_spec [OF rr_ok_inv [OF ok], of n]) (auto intro: rr_ok_fewer [OF ok])
next
  fix s assume ok: "rr_ok s"
  then show "rr_ok (snd (rr_tick s))"
    by (simp add: rr_ok_def rr_tick_inv rr_tick_tasks)
next
  fix s i p assume "rr_ok s"
  then show "set_mset (rr_tasks (rr_enqueue i p s)) = insert i (set_mset (rr_tasks s))"
    and "rr_tasks (rr_enqueue i p s) = add_mset i (rr_tasks s)"
    by (auto simp: rr_enqueue_tasks rr_ok_inv)
next
  fix s i p assume "rr_ok s"
  then show "rr_tasks (snd (rr_dequeue i p s)) = filter_mset (\<lambda>j. j \<noteq> i) (rr_tasks s)"
    by (auto simp: rr_dequeue_tasks rr_ok_inv)
next
  fix s assume "rr_ok s" and "fst (rr_pick_next s) = None"
  then show "rr_tasks s = {#}" and "rr_tasks (snd (rr_pick_next s)) = {#}"
    using rr_pick_None [OF rr_ok_inv, of s False] by (auto simp: rr_pick_next_def)
next
  fix s i assume "rr_ok s" and "fst (rr_pick_next s) = Some i"
  then show "rr_tasks s \<subseteq># add_mset i (rr_tasks (snd (rr_pick_next s)))"
    and "rr_tasks s = add_mset i (rr_tasks (snd (rr_pick_next s)))"
    using rr_pick_Some [OF rr_ok_inv, of s False i] by (auto simp: rr_pick_next_def)
next
  fix s n assume ok: "rr_ok s"
  show "rr_tasks s = mset (map fst (fst (rr_steal n s))) + rr_tasks (snd (rr_steal n s))"
    by (rule rr_steal_spec [OF rr_ok_inv [OF ok], of n]) simp
  show "length (fst (rr_steal n s)) \<le> min n MAX_STEAL"
    by (rule rr_steal_spec [OF rr_ok_inv [OF ok], of n]) (metis fst_conv min.cobounded1)
qed (simp_all add: rr_tick_tasks rr_ok_total rr_enqueue_tasks rr_ok_inv)

section \<open>Properties\<close>

abbreviation rr_step :: "rq_event \<Rightarrow> rr \<Rightarrow> rr" where
  "rr_step \<equiv> rq_step rr_enqueue rr_dequeue rr_pick_next rr_steal rr_tick"

text \<open>What picking again and again hands out.\<close>

fun rr_picks :: "nat \<Rightarrow> rr \<Rightarrow> task_id list" where
  "rr_picks 0 s = []"
| "rr_picks (Suc n) s =
     (case rr_pick_next s of (None, s') \<Rightarrow> [] | (Some i, s') \<Rightarrow> i # rr_picks n s')"

lemma find_map: "find P (map f xs) = map_option f (find (P \<circ> f) xs)"
  by (induction xs) auto

lemma concat_first_nonempty:
  "find (\<lambda>l. qs ! l \<noteq> []) [0..<length qs] = Some l \<Longrightarrow>
     concat qs = hd (qs ! l) # concat (qs[l := tl (qs ! l)])"
proof (induction qs arbitrary: l)
  case Nil
  then show ?case by simp
next
  case (Cons q qs)
  have upt: "[0..<length (q # qs)] = 0 # map Suc [0..<length qs]"
    by (simp add: upt_conv_Cons map_Suc_upt del: upt_Suc)
  note found = Cons.prems [unfolded upt]
  show ?case
  proof (cases "q = []")
    case False
    with found have "l = 0" by simp
    with False show ?thesis by (cases q) auto
  next
    case True
    with found have "find (\<lambda>l. (q # qs) ! l \<noteq> []) (map Suc [0..<length qs]) = Some l" by simp
    then obtain k where k: "l = Suc k" "find (\<lambda>l. qs ! l \<noteq> []) [0..<length qs] = Some k"
      by (auto simp: find_map comp_def)
    from Cons.IH [OF k(2)] True k(1) show ?thesis by simp
  qed
qed

text \<open>
  picking repeatedly, with nothing queued in between, hands out the queued tasks level by
  level from the most urgent and in arrival order within a level.
\<close>

theorem rr_picks_in_order:
  assumes "rr_inv s"
  shows "rr_picks n s = take n (concat (rr_queues s))"
  using assms
proof (induction n arbitrary: s)
  case 0
  then show ?case by simp
next
  case (Suc n)
  note inv = Suc.prems
  show ?case
  proof (cases "rr_pick_level False s")
    case None
    then have "rr_tasks s = {#}" by (rule rr_pick_level_None [OF inv])
    then show ?thesis
      by (simp add: rr_pick_next_def rr_pick_eq [OF inv] None rr_tasks_def)
  next
    case (Some l)
    let ?q = "rr_queues s ! l"
    let ?s = "(rr_put l (tl ?q) s)\<lparr>rr_remaining := slice_at l (rr_slices s)\<rparr>"
    have p: "rr_pick_next s = (Some (hd ?q), ?s)"
      by (simp add: rr_pick_next_def rr_pick_eq [OF inv] Some)
    have "rr_inv ?s"
      using rr_pick_inv [OF inv, of False] p by (simp add: rr_pick_next_def)
    from Suc.IH [OF this] have "rr_picks n ?s = take n (concat ((rr_queues s)[l := tl ?q]))"
      by simp
    moreover have "find (\<lambda>l. rr_queues s ! l \<noteq> []) [0..<length (rr_queues s)] = Some l"
      using Some by (simp add: rr_pick_level_def rr_scan_def inv NUM_PRIORITIES_def)
    then have "concat (rr_queues s) = hd ?q # concat ((rr_queues s)[l := tl ?q])"
      by (rule concat_first_nonempty)
    ultimately show ?thesis by (simp add: p)
  qed
qed

text \<open>A queue with a task of the real-time band and two ordinary ones.\<close>

definition rr_example :: rr where
  "rr_example = rr_enqueue 5 20 (rr_enqueue 9 3 (rr_enqueue 7 20 rr_new))"

lemma rr_example_ok: "rr_ok rr_example"
proof -
  have "rr_ok rr_new \<and> rr_total_tasks rr_new \<le> 0"
    using rr_ok_new by (simp add: rr_total_tasks_def rr_new_def)
  from rrq.grow [OF rrq.grow [OF rrq.grow [OF this]]] show ?thesis
    by (simp add: rr_example_def u32_max_def)
qed

lemma rr_example_queues: "rr_queues rr_example = (replicate 32 [])[20 := [7, 5], 3 := [9]]"
  by (simp add: rr_example_def rr_enqueue_def rr_new_def level_of_def sched_consts Let_def
      list_update_swap [of 3 20])

theorem rr_picks_in_order_witness:
  "rr_inv rr_example \<and> rr_picks 5 rr_example = [9, 7, 5]"
proof -
  have "take 5 (concat (rr_queues rr_example)) = [9, 7, 5]"
    unfolding rr_example_queues by code_simp
  with rr_picks_in_order [OF rr_ok_inv [OF rr_example_ok], of 5] rr_example_ok show ?thesis
    by auto
qed

text \<open>
  the bitmap pick is the scan it replaces. The task picked is the first of the most urgent
  non-empty level; under the real-time throttle, the first of the most urgent level below the
  band if there is one, and of any level otherwise, so the throttle never idles a CPU.
\<close>

theorem rr_pick_equals_scan:
  assumes "rr_inv s"
  shows "fst (rr_pick_next_masked avoid s)
       = map_option (\<lambda>l. hd (rr_queues s ! l)) (rr_pick_level avoid s)
    \<and> (rr_pick_level avoid s = None \<longleftrightarrow> concat (rr_queues s) = [])"
proof (intro conjI)
  show "fst (rr_pick_next_masked avoid s)
      = map_option (\<lambda>l. hd (rr_queues s ! l)) (rr_pick_level avoid s)"
    by (simp add: rr_pick_eq [OF assms] split: option.splits)
  show "rr_pick_level avoid s = None \<longleftrightarrow> concat (rr_queues s) = []"
    using rr_pick_level_None [OF assms, of avoid] rr_pick_level_SomeD [of avoid s] assms
    by (cases "rr_pick_level avoid s") (auto simp: rr_tasks_def)
qed

theorem rr_pick_equals_scan_witness:
  "rr_inv rr_example \<and> fst (rr_pick_next_masked True rr_example) = Some 7
     \<and> fst (rr_pick_next_masked False rr_example) = Some 9"
proof -
  have "map_option (\<lambda>l. hd (rr_queues rr_example ! l)) (rr_pick_level True rr_example) = Some 7"
    and "map_option (\<lambda>l. hd (rr_queues rr_example ! l)) (rr_pick_level False rr_example) = Some 9"
    unfolding rr_pick_level_def rr_example_queues by code_simp+
  with rr_pick_equals_scan [OF rr_ok_inv [OF rr_example_ok]] rr_example_ok show ?thesis
    by auto
qed

section \<open>Runs with throttled picks\<close>

text \<open>
  The operations of the contract, and the pick that passes over the real-time band, which
  \<^verbatim>\<open>pick_next_local\<close> calls while real-time tasks are throttled: a pick is an event of its own, with
  the mask it is called with.
\<close>

datatype rr_event = RrOp rq_event | RrPick bool

fun rr_event_step :: "rr_event \<Rightarrow> rr \<Rightarrow> rr" where
  "rr_event_step (RrOp e) s = rr_step e s"
| "rr_event_step (RrPick avoid) s = snd (rr_pick_next_masked avoid s)"

fun rr_event_ok :: "rr_event \<Rightarrow> rr \<Rightarrow> bool" where
  "rr_event_ok (RrOp e) s \<longleftrightarrow> rq_room rr_total_tasks e s"
| "rr_event_ok (RrPick avoid) s \<longleftrightarrow> True"

fun rr_event_hands :: "rr_event \<Rightarrow> rr \<Rightarrow> task_id list" where
  "rr_event_hands (RrOp e) s = rq_handed rr_pick_next rr_steal e s"
| "rr_event_hands (RrPick avoid) s = (case fst (rr_pick_next_masked avoid s) of Some i \<Rightarrow> [i] | None \<Rightarrow> [])"

lemma rr_masked_pick:
  assumes ok: "rr_ok s"
  shows "rr_ok (snd (rr_pick_next_masked avoid s))"
    and "i \<notin># rr_tasks s \<Longrightarrow> i \<notin># rr_tasks (snd (rr_pick_next_masked avoid s))
      \<and> fst (rr_pick_next_masked avoid s) \<noteq> Some i"
proof -
  note inv = rr_ok_inv [OF ok]
  have sub: "rr_tasks (snd (rr_pick_next_masked avoid s)) \<subseteq># rr_tasks s"
    using rr_pick_None [OF inv, of avoid] rr_pick_Some [OF inv, of avoid]
    by (cases "fst (rr_pick_next_masked avoid s)") simp_all
  show "rr_ok (snd (rr_pick_next_masked avoid s))" by (rule rr_ok_fewer [OF ok rr_pick_inv [OF inv] sub])
  show "i \<notin># rr_tasks (snd (rr_pick_next_masked avoid s)) \<and> fst (rr_pick_next_masked avoid s) \<noteq> Some i"
    if "i \<notin># rr_tasks s"
    using that sub rr_pick_Some [OF inv, of avoid] by (auto dest: mset_subset_eqD)
qed

interpretation rr_runs: guarded_machine rr_event_step rr_event_ok rr_ok
proof
  fix s e assume "rr_ok s" and "rr_event_ok e s"
  then show "rr_ok (rr_event_step e s)" by (cases e) (simp_all add: rrq.inv_step rr_masked_pick)
qed

lemma rr_off_step:
  assumes "rr_ok s" and "rr_event_ok e s" and "i \<notin># rr_tasks s" and "\<And>q. e \<noteq> RrOp (RqEnqueue i q)"
  shows "i \<notin># rr_tasks (rr_event_step e s) \<and> i \<notin> set (rr_event_hands e s)"
proof (cases e)
  case (RrOp q)
  with assms rrq.not_queued_step [of s q i] show ?thesis by auto
next
  case (RrPick avoid)
  with rr_masked_pick(2) [OF assms(1,3), of avoid] show ?thesis by (auto split: option.splits)
qed

lemma rr_off_run:
  "rr_ok s \<Longrightarrow> run_ok rr_event_ok rr_event_step es s \<Longrightarrow> i \<notin># rr_tasks s \<Longrightarrow>
     \<forall>q. RrOp (RqEnqueue i q) \<notin> set es \<Longrightarrow> i \<notin> set (gather rr_event_hands rr_event_step es s)"
proof (induction es arbitrary: s)
  case (Cons e es)
  have here: "i \<notin># rr_tasks (rr_event_step e s) \<and> i \<notin> set (rr_event_hands e s)"
    using Cons.prems by (intro rr_off_step) auto
  with Cons.IH [of "rr_event_step e s"] Cons.prems rr_runs.inv_step [of s e] show ?case by simp
qed simp

text \<open>
  C19: A task taken off a round-robin queue, killed or suspended, is handed to no CPU by any later
  run of the queue's operations - enqueues of other tasks, removals, picks over all levels, picks
  that pass over the real-time band while it is throttled, work stealing, ticks - until it is
  enqueued again, as long as the tasks fit the 32-bit counters.
\<close>

theorem rr_removed_task_stays_off:
  assumes "rr_ok s" and "run_ok rr_event_ok rr_event_step es (snd (rr_dequeue i p s))"
    and "\<forall>q. RrOp (RqEnqueue i q) \<notin> set es"
  shows "i \<notin> set (gather rr_event_hands rr_event_step es (snd (rr_dequeue i p s)))"
proof -
  have "i \<notin># rr_tasks (snd (rr_dequeue i p s))"
    using rr_dequeue_tasks [of s i p] assms(1) by (auto simp: rr_ok_inv)
  then show ?thesis
    using rr_off_run [OF rrq.inv_deq [OF assms(1)] assms(2)] assms(3) by simp
qed

lemma rr_example_backlog: "rr_total_tasks (snd (rr_dequeue 7 0 rr_example)) \<le> 3"
proof -
  have "rr_total_tasks (snd (rr_dequeue 7 0 rr_example)) \<le> size (rr_tasks rr_example)"
    using rr_example_ok rr_dequeue_tasks [of rr_example 7 0]
    by (simp add: rr_ok_total rrq.inv_deq rr_ok_inv size_mset_mono)
  then show ?thesis by (simp add: rr_tasks_def rr_example_queues numeral_eq_Suc)
qed

theorem rr_removed_task_stays_off_witness:
  "7 \<notin> set (gather rr_event_hands rr_event_step [RrOp (RqEnqueue 3 0), RrPick True, RrOp (RqSteal 4), RrPick False]
     (snd (rr_dequeue 7 0 rr_example)))
   \<and> rr_ok rr_example"
proof -
  have "run_ok rr_event_ok rr_event_step [RrOp (RqEnqueue 3 0), RrPick True, RrOp (RqSteal 4), RrPick False]
      (snd (rr_dequeue 7 0 rr_example))"
    using rr_example_backlog by (simp add: rq_room_def u32_max_def)
  moreover have "\<forall>q. RrOp (RqEnqueue 7 q) \<notin> set [RrOp (RqEnqueue 3 0), RrPick True, RrOp (RqSteal 4), RrPick False]"
    by simp
  ultimately show ?thesis
    using rr_removed_task_stays_off [OF rr_example_ok] rr_example_ok by blast
qed

end
