(* ===== verification/Eevdf.thy ===== *)
theory Eevdf imports RunQueue begin

text \<open>
  The EEVDF backend, \<^verbatim>\<open>kernel/src/sched/eevdf.rs\<close>: the waiting tasks in a map ordered by virtual
  deadline, an index from task to deadline, and two partition indexes, of the eligible tasks by
  deadline and of the others by virtual runtime. The lemmas show that every operation keeps the
  partition exact, and that the indexed pick is the scan of the whole tree it replaced. Virtual
  times are numbers below \<open>2 ^ 64\<close> with the code's saturating operations.
\<close>

section \<open>State\<close>

definition WEIGHT_TABLE :: "nat list" where
  "WEIGHT_TABLE =
     [88761, 71755, 56483, 46273, 36291, 29154, 23254, 18705,
      14949, 11916, 9548, 7620, 6100, 4904, 3906, 3121,
      2501, 1991, 1586, 1277, 1024, 820, 655, 526,
      423, 335, 272, 215, 172, 137, 110, 15]"

definition VRUNTIME_UNIT :: nat where "VRUNTIME_UNIT = 1000000"
definition MIN_GRANULARITY :: nat where "MIN_GRANULARITY = 1000"

record ev_entry =
  ee_id :: task_id
  ee_priority :: nat
  ee_weight :: nat
  ee_vruntime :: nat
  ee_deadline :: nat
  ee_eligible :: bool

record eevdf =
  ev_tree :: "(nat \<times> task_id, ev_entry) btree"
  ev_deadlines :: "(task_id, nat) btree"
  ev_elig :: "(nat \<times> task_id, unit) btree"
  ev_inelig :: "(nat \<times> task_id, unit) btree"
  ev_min_vruntime :: nat
  ev_nr_running :: nat
  ev_slices :: "nat list"
  ev_remaining :: nat
  ev_cur_weight :: nat
  ev_cur_vruntime :: nat
  ev_cur_priority :: nat
  ev_cur_id :: task_id

definition ev_new_with :: "nat list \<Rightarrow> eevdf" where
  "ev_new_with ts = \<lparr>ev_tree = [], ev_deadlines = [], ev_elig = [], ev_inelig = [],
     ev_min_vruntime = 0, ev_nr_running = 0, ev_slices = ts, ev_remaining = 0,
     ev_cur_weight = 0, ev_cur_vruntime = 0, ev_cur_priority = 0, ev_cur_id = 0\<rparr>"

definition ev_new_const :: eevdf where
  "ev_new_const = ev_new_with (replicate NUM_PRIORITIES 0)"

definition ev_new :: eevdf where
  "ev_new = ev_new_with slices_new"

section \<open>Operations\<close>

definition ev_weight_for :: "nat \<Rightarrow> nat" where
  "ev_weight_for priority = WEIGHT_TABLE ! level_of priority"

definition ev_compute_deadline :: "nat \<Rightarrow> nat \<Rightarrow> nat \<Rightarrow> eevdf \<Rightarrow> nat" where
  "ev_compute_deadline vruntime priority weight s =
     (let slice_ticks = slice_at (level_of priority) (ev_slices s);
          slice_vruntime = (if weight = 0 then VRUNTIME_UNIT
                            else sat_mul64 slice_ticks VRUNTIME_UNIT div weight)
      in sat_add64 vruntime slice_vruntime)"

text \<open>The smallest vruntime above the floor: the front of the vruntime index, or the running task's.\<close>

definition ev_min_above :: "eevdf \<Rightarrow> nat option" where
  "ev_min_above s =
     (let front = (case ev_inelig s of [] \<Rightarrow> None | (k, u) # m \<Rightarrow> Some (fst k))
      in if ev_cur_id s \<noteq> 0 then
           Some (case front of Some m \<Rightarrow> min m (ev_cur_vruntime s) | None \<Rightarrow> ev_cur_vruntime s)
         else front)"

definition ev_update_min_vruntime :: "eevdf \<Rightarrow> eevdf" where
  "ev_update_min_vruntime s =
     (if ev_elig s \<noteq> [] then s
      else case ev_min_above s of
             None \<Rightarrow> s
           | Some m \<Rightarrow> if ev_min_vruntime s < m then s\<lparr>ev_min_vruntime := m\<rparr> else s)"

text \<open>One promotion of the loop of \<^verbatim>\<open>rebalance\<close>.\<close>

definition ev_promote :: "nat \<times> task_id \<Rightarrow> eevdf \<Rightarrow> eevdf" where
  "ev_promote k s =
     (let s' = s\<lparr>ev_inelig := bt_remove k (ev_inelig s)\<rparr>
      in case bt_get (ev_deadlines s') (snd k) of
           None \<Rightarrow> s'
         | Some d \<Rightarrow> s'\<lparr>ev_elig := bt_insert (d, snd k) () (ev_elig s'),
             ev_tree := bt_adjust (d, snd k) (\<lambda>e. e\<lparr>ee_eligible := True\<rparr>) (ev_tree s')\<rparr>)"

lemma ev_promote_inelig [simp]: "ev_inelig (ev_promote k s) = bt_remove k (ev_inelig s)"
  by (simp add: ev_promote_def Let_def split: option.splits)

function ev_rebalance :: "eevdf \<Rightarrow> eevdf" where
  "ev_rebalance s =
     (case ev_inelig s of
        [] \<Rightarrow> s
      | (k, u) # m \<Rightarrow> if ev_min_vruntime s < fst k then s else ev_rebalance (ev_promote k s))"
  by auto
termination
proof (relation "measure (\<lambda>s. length (ev_inelig s))")
  fix s :: eevdf and k m and x :: "(nat \<times> task_id) \<times> unit" and u
  assume "ev_inelig s = x # m" and "(k, u) = x"
  then show "(ev_promote k s, s) \<in> measure (\<lambda>s. length (ev_inelig s))"
    by (auto simp: bt_remove_def less_Suc_eq_le)
qed simp

declare ev_rebalance.simps [simp del]

text \<open>An entry leaves the partition index its flag names.\<close>

definition ev_unindex :: "nat \<times> task_id \<Rightarrow> ev_entry \<Rightarrow> eevdf \<Rightarrow> eevdf" where
  "ev_unindex k e s =
     (if ee_eligible e then s\<lparr>ev_elig := bt_remove k (ev_elig s)\<rparr>
      else s\<lparr>ev_inelig := bt_remove (ee_vruntime e, snd k) (ev_inelig s)\<rparr>)"

definition ev_pick_next :: "eevdf \<Rightarrow> task_id option \<times> eevdf" where
  "ev_pick_next s =
     (if ev_tree s = [] then (None, s)
      else let key = (case ev_elig s of (k, u) # m \<Rightarrow> k | [] \<Rightarrow> fst (hd (ev_tree s)))
      in case bt_get (ev_tree s) key of
           None \<Rightarrow> (None, s)
         | Some e \<Rightarrow>
             let s = s\<lparr>ev_tree := bt_remove key (ev_tree s)\<rparr>;
                 s = s\<lparr>ev_deadlines := bt_remove (ee_id e) (ev_deadlines s)\<rparr>;
                 s = ev_unindex key e s;
                 s = s\<lparr>ev_nr_running := ev_nr_running s - 1,
                       ev_remaining := slice_at (level_of (ee_priority e)) (ev_slices s),
                       ev_cur_weight := ee_weight e, ev_cur_vruntime := ee_vruntime e,
                       ev_cur_priority := ee_priority e, ev_cur_id := ee_id e\<rparr>
             in (Some (ee_id e), ev_rebalance (ev_update_min_vruntime s)))"

text \<open>The stale entry an enqueue removes first, and the vruntime the task starts with.\<close>

definition ev_drop_stale :: "task_id \<Rightarrow> eevdf \<Rightarrow> eevdf" where
  "ev_drop_stale i s =
     (case bt_get (ev_deadlines s) i of
        None \<Rightarrow> s
      | Some d \<Rightarrow>
          let s = s\<lparr>ev_deadlines := bt_remove i (ev_deadlines s)\<rparr>;
              s = (case bt_get (ev_tree s) (d, i) of
                     None \<Rightarrow> s
                   | Some e \<Rightarrow> ev_unindex (d, i) e (s\<lparr>ev_tree := bt_remove (d, i) (ev_tree s)\<rparr>))
          in s\<lparr>ev_nr_running := ev_nr_running s - 1\<rparr>)"

definition ev_start_vruntime :: "task_id \<Rightarrow> eevdf \<Rightarrow> nat \<times> eevdf" where
  "ev_start_vruntime i s =
     (if ev_cur_id s = i then (ev_cur_vruntime s, s\<lparr>ev_cur_id := 0, ev_cur_weight := 0\<rparr>)
      else (ev_min_vruntime s, s))"

definition ev_insert :: "ev_entry \<Rightarrow> eevdf \<Rightarrow> eevdf" where
  "ev_insert e s =
     (let k = (ee_deadline e, ee_id e);
          s = s\<lparr>ev_tree := bt_insert k e (ev_tree s),
                ev_deadlines := bt_insert (ee_id e) (ee_deadline e) (ev_deadlines s)\<rparr>;
          s = (if ee_eligible e then s\<lparr>ev_elig := bt_insert k () (ev_elig s)\<rparr>
               else s\<lparr>ev_inelig := bt_insert (ee_vruntime e, ee_id e) () (ev_inelig s)\<rparr>)
      in s\<lparr>ev_nr_running := sat_add32 (ev_nr_running s) 1\<rparr>)"

definition ev_enqueue :: "task_id \<Rightarrow> nat \<Rightarrow> eevdf \<Rightarrow> eevdf" where
  "ev_enqueue i priority s =
     (let s = ev_drop_stale i s;
          weight = ev_weight_for priority;
          (vruntime, s) = ev_start_vruntime i s;
          deadline = ev_compute_deadline vruntime priority weight s;
          e = \<lparr>ee_id = i, ee_priority = priority, ee_weight = weight, ee_vruntime = vruntime,
               ee_deadline = deadline, ee_eligible = (vruntime \<le> ev_min_vruntime s)\<rparr>
      in ev_rebalance (ev_update_min_vruntime (ev_insert e s)))"

definition ev_forget_current :: "task_id \<Rightarrow> eevdf \<Rightarrow> bool \<times> eevdf" where
  "ev_forget_current i s =
     (if ev_cur_id s = i then (True, s\<lparr>ev_cur_id := 0, ev_cur_weight := 0, ev_remaining := 0\<rparr>)
      else (False, s))"

definition ev_dequeue :: "task_id \<Rightarrow> nat \<Rightarrow> eevdf \<Rightarrow> bool \<times> eevdf" where
  "ev_dequeue i priority s =
     (case bt_get (ev_deadlines s) i of
        None \<Rightarrow> ev_forget_current i s
      | Some d \<Rightarrow>
          let s = s\<lparr>ev_deadlines := bt_remove i (ev_deadlines s)\<rparr>
          in case bt_get (ev_tree s) (d, i) of
               None \<Rightarrow> ev_forget_current i s
             | Some e \<Rightarrow>
                 let s = ev_unindex (d, i) e (s\<lparr>ev_tree := bt_remove (d, i) (ev_tree s)\<rparr>);
                     s = s\<lparr>ev_nr_running := ev_nr_running s - 1\<rparr>
                 in (True, ev_rebalance (ev_update_min_vruntime s)))"

definition ev_entries_for :: "task_id \<Rightarrow> eevdf \<Rightarrow> nat" where
  "ev_entries_for i s = length (filter (\<lambda>k. snd k = i) (map fst (ev_tree s)))"

definition ev_should_preempt :: "eevdf \<Rightarrow> bool" where
  "ev_should_preempt s =
     (if ev_cur_weight s = 0 then False
      else case ev_tree s of
             [] \<Rightarrow> False
           | (k, front) # m \<Rightarrow>
               if ev_min_vruntime s < ee_vruntime front then False
               else sat_add64 (ee_deadline front) MIN_GRANULARITY
                      < ev_compute_deadline (ev_cur_vruntime s) (ev_cur_priority s) (ev_cur_weight s) s)"

definition ev_tick :: "eevdf \<Rightarrow> bool \<times> eevdf" where
  "ev_tick s =
     (if ev_cur_weight s = 0 then (False, s)
      else let s = s\<lparr>ev_cur_vruntime :=
                       sat_add64 (ev_cur_vruntime s) (VRUNTIME_UNIT div ev_cur_weight s)\<rparr>;
               s = ev_rebalance (ev_update_min_vruntime s);
               s = (if 0 < ev_remaining s then s\<lparr>ev_remaining := ev_remaining s - 1\<rparr> else s)
           in (ev_remaining s = 0 \<or> ev_should_preempt s, s))"

definition ev_has_ready :: "eevdf \<Rightarrow> bool" where
  "ev_has_ready s \<longleftrightarrow> ev_tree s \<noteq> []"

definition ev_has_real_work :: "eevdf \<Rightarrow> bool" where
  "ev_has_real_work s \<longleftrightarrow> (\<exists>e \<in> set (bt_values (ev_tree s)). ee_priority e \<noteq> IDLE_PRIORITY)"

definition ev_total_tasks :: "eevdf \<Rightarrow> nat" where
  "ev_total_tasks s = ev_nr_running s"

definition ev_real_tasks :: "eevdf \<Rightarrow> nat" where
  "ev_real_tasks s = length (filter (\<lambda>e. ee_priority e \<noteq> IDLE_PRIORITY) (bt_values (ev_tree s)))"

text \<open>The keys a steal collects, from the latest deadline, and the removal of each.\<close>

definition ev_steal_keys :: "nat \<Rightarrow> eevdf \<Rightarrow> (nat \<times> task_id) list" where
  "ev_steal_keys want s = take (min want MAX_STEAL) (rev (map fst (ev_tree s)))"

definition ev_steal_one :: "nat \<times> task_id \<Rightarrow> stolen \<times> eevdf \<Rightarrow> stolen \<times> eevdf" where
  "ev_steal_one k = (\<lambda>(st, s).
     case bt_get (ev_tree s) k of
       None \<Rightarrow> (st, s)
     | Some e \<Rightarrow>
         let s = s\<lparr>ev_tree := bt_remove k (ev_tree s)\<rparr>;
             s = s\<lparr>ev_deadlines := bt_remove (ee_id e) (ev_deadlines s)\<rparr>;
             s = ev_unindex k e s;
             s = s\<lparr>ev_nr_running := ev_nr_running s - 1\<rparr>
         in (stolen_push (ee_id e) (ee_priority e) st, s))"

definition ev_steal :: "nat \<Rightarrow> eevdf \<Rightarrow> stolen \<times> eevdf" where
  "ev_steal want s =
     (if want = 0 \<or> ev_tree s = [] then ([], s)
      else let ks = ev_steal_keys want s;
               (st, s) = fold ev_steal_one ks ([], s)
           in (st, if ks \<noteq> [] then ev_rebalance (ev_update_min_vruntime s) else s))"

definition ev_set_time_slice :: "nat \<Rightarrow> nat \<Rightarrow> eevdf \<Rightarrow> bool \<times> eevdf" where
  "ev_set_time_slice level ticks s =
     (let (ts, ok) = slices_set level ticks (ev_slices s) in (ok, s\<lparr>ev_slices := ts\<rparr>))"

definition ev_time_slice :: "nat \<Rightarrow> eevdf \<Rightarrow> nat option" where
  "ev_time_slice level s = slices_get level (ev_slices s)"

definition ev_reconfigure_slices :: "nat \<Rightarrow> nat \<Rightarrow> eevdf \<Rightarrow> bool \<times> eevdf" where
  "ev_reconfigure_slices base increment s =
     (let (ts, ok) = slices_reconfigure base increment (ev_slices s) in (ok, s\<lparr>ev_slices := ts\<rparr>))"

definition ev_apply_profile :: "profile \<Rightarrow> eevdf \<Rightarrow> eevdf" where
  "ev_apply_profile p s = snd (ev_reconfigure_slices (profile_base p) (profile_increment p) s)"

text \<open>The diagnostic the code's own test runs.\<close>

definition ev_partition_invariant_ok :: "eevdf \<Rightarrow> bool" where
  "ev_partition_invariant_ok s \<longleftrightarrow>
     ev_nr_running s = length (ev_tree s) \<and>
     length (ev_elig s) + length (ev_inelig s) = length (ev_tree s) \<and>
     (\<forall>(k, e) \<in> set (ev_tree s).
        ee_eligible e = (ee_vruntime e \<le> ev_min_vruntime s) \<and>
        (if ee_eligible e then bt_get (ev_elig s) k \<noteq> None
         else bt_get (ev_inelig s) (ee_vruntime e, snd k) \<noteq> None))"

section \<open>The invariant\<close>

text \<open>
  The abstract queue is a map \<open>Q\<close> from tasks to their entries. The four maps of the code represent
  it when the tree holds each entry under its deadline and id, the deadline index its deadline,
  and each partition index the entries its flag names, none of them flagged above the floor \<open>m\<close>.
  The full invariant adds that the flags are exact.
\<close>

definition ev_view ::
  "(task_id \<Rightarrow> ev_entry option) \<Rightarrow> (nat \<times> task_id \<Rightarrow> ev_entry option) \<Rightarrow> (task_id \<Rightarrow> nat option) \<Rightarrow>
   (nat \<times> task_id \<Rightarrow> unit option) \<Rightarrow> (nat \<times> task_id \<Rightarrow> unit option) \<Rightarrow> nat \<Rightarrow> bool" where
  "ev_view Q T D E N m \<longleftrightarrow> (\<forall>i.
     (\<forall>e. Q i = Some e \<longrightarrow> ee_id e = i \<and> (ee_eligible e \<longrightarrow> ee_vruntime e \<le> m)) \<and>
     D i = map_option ee_deadline (Q i) \<and>
     (\<forall>d. T (d, i) = (if D i = Some d then Q i else None)) \<and>
     (\<forall>d. E (d, i) = (if \<exists>e. Q i = Some e \<and> ee_eligible e \<and> ee_deadline e = d then Some () else None)) \<and>
     (\<forall>v. N (v, i) = (if \<exists>e. Q i = Some e \<and> \<not> ee_eligible e \<and> ee_vruntime e = v then Some () else None)))"

definition ev_weak :: "(task_id \<Rightarrow> ev_entry option) \<Rightarrow> eevdf \<Rightarrow> bool" where
  "ev_weak Q s \<longleftrightarrow>
     bt_ok (ev_tree s) \<and> bt_ok (ev_deadlines s) \<and> bt_ok (ev_elig s) \<and> bt_ok (ev_inelig s) \<and>
     ev_view Q (bt_get (ev_tree s)) (bt_get (ev_deadlines s)) (bt_get (ev_elig s))
       (bt_get (ev_inelig s)) (ev_min_vruntime s) \<and>
     ev_nr_running s = length (ev_tree s) \<and> length (ev_tree s) \<le> u32_max"

definition ev_exact :: "eevdf \<Rightarrow> bool" where
  "ev_exact s \<longleftrightarrow> (\<forall>v i. bt_get (ev_inelig s) (v, i) \<noteq> None \<longrightarrow> ev_min_vruntime s < v)"

definition ev_inv :: "eevdf \<Rightarrow> bool" where
  "ev_inv s \<longleftrightarrow> (\<exists>Q. ev_weak Q s) \<and> ev_exact s"

definition ev_tasks :: "eevdf \<Rightarrow> task_id multiset" where
  "ev_tasks s = image_mset snd (mset (map fst (ev_tree s)))"

lemma ev_new_inv: "ev_inv ev_new"
  by (auto simp: ev_inv_def ev_exact_def ev_weak_def ev_view_def ev_new_def ev_new_with_def
      intro!: exI [of _ "\<lambda>i. None"])

lemma ev_viewD:
  assumes "ev_view Q T D E N m"
  shows "Q i = Some e \<Longrightarrow> ee_id e = i" "Q i = Some e \<Longrightarrow> ee_eligible e \<Longrightarrow> ee_vruntime e \<le> m"
    "D i = map_option ee_deadline (Q i)" "T (d, i) = (if D i = Some d then Q i else None)"
    "E (d, i) = (if \<exists>e. Q i = Some e \<and> ee_eligible e \<and> ee_deadline e = d then Some () else None)"
    "N (v, i) = (if \<exists>e. Q i = Some e \<and> \<not> ee_eligible e \<and> ee_vruntime e = v then Some () else None)"
  using assms unfolding ev_view_def by blast+

lemma ev_view_tree: "ev_view Q T D E N m \<Longrightarrow> T (d, i) = Some e \<longleftrightarrow> Q i = Some e \<and> ee_deadline e = d"
  using ev_viewD(3,4) [of Q T D E N m] by (auto split: if_splits)

lemma ev_view_floor: "ev_view Q T D E N m \<Longrightarrow> m \<le> m' \<Longrightarrow> ev_view Q T D E N m'"
  unfolding ev_view_def by (meson order_trans)

text \<open>An entry removed, an entry added, an entry promoted.\<close>

lemma ev_view_cut:
  assumes v: "ev_view Q T D E N m" and "Q i = Some e" and "ee_deadline e = d"
  shows "ev_view (Q(i := None)) (T((d, i) := None)) (D(i := None))
    (if ee_eligible e then E((d, i) := None) else E)
    (if ee_eligible e then N else N((ee_vruntime e, i) := None)) m"
  unfolding ev_view_def
  by (rule allI, rename_tac j, case_tac "j = i"; cases "ee_eligible e")
    (use assms(2,3) ev_viewD [OF v] in \<open>simp_all, (blast+)?\<close>)

lemma ev_view_add:
  assumes v: "ev_view Q T D E N m" and "Q i = None" and "ee_id e = i" and "ee_deadline e = d"
    and "ee_eligible e \<longrightarrow> ee_vruntime e \<le> m"
  shows "ev_view (Q(i \<mapsto> e)) (T((d, i) \<mapsto> e)) (D(i \<mapsto> d))
    (if ee_eligible e then E((d, i) \<mapsto> ()) else E)
    (if ee_eligible e then N else N((ee_vruntime e, i) \<mapsto> ())) m"
  unfolding ev_view_def
  by (rule allI, rename_tac j, case_tac "j = i"; cases "ee_eligible e")
    (use assms(2-5) ev_viewD [OF v] in \<open>simp_all, (blast+)?\<close>)

lemma ev_view_promote:
  assumes v: "ev_view Q T D E N m" and "Q i = Some e" and "ee_deadline e = d"
    and "\<not> ee_eligible e" and "ee_vruntime e \<le> m"
  shows "ev_view (Q(i \<mapsto> e\<lparr>ee_eligible := True\<rparr>)) (T((d, i) \<mapsto> e\<lparr>ee_eligible := True\<rparr>)) D
    (E((d, i) \<mapsto> ())) (N((ee_vruntime e, i) := None)) m"
  unfolding ev_view_def
  by (rule allI, rename_tac j, case_tac "j = i")
    (use assms(2-5) ev_viewD [OF v] in \<open>simp_all, (blast+)?\<close>)

section \<open>Cutting, inserting and promoting entries\<close>

lemma ev_weak_tree: "ev_weak Q s \<Longrightarrow>
    bt_get (ev_tree s) (d, i) = Some e \<longleftrightarrow> Q i = Some e \<and> ee_deadline e = d"
  unfolding ev_weak_def using ev_view_tree by blast

lemma ev_weak_deadline: "ev_weak Q s \<Longrightarrow> bt_get (ev_deadlines s) i = map_option ee_deadline (Q i)"
  unfolding ev_weak_def using ev_viewD(3) by blast

lemma ev_weak_id: "ev_weak Q s \<Longrightarrow> Q i = Some e \<Longrightarrow> ee_id e = i"
  unfolding ev_weak_def using ev_viewD(1) by blast

lemma ev_weak_elig: "ev_weak Q s \<Longrightarrow> bt_get (ev_elig s) (d, i) \<noteq> None \<longleftrightarrow>
    (\<exists>e. Q i = Some e \<and> ee_eligible e \<and> ee_deadline e = d)"
  unfolding ev_weak_def using ev_viewD(5) by (metis option.distinct(1))

lemma ev_weak_inelig: "ev_weak Q s \<Longrightarrow> bt_get (ev_inelig s) (v, i) \<noteq> None \<longleftrightarrow>
    (\<exists>e. Q i = Some e \<and> \<not> ee_eligible e \<and> ee_vruntime e = v)"
  unfolding ev_weak_def using ev_viewD(6) by (metis option.distinct(1))

lemma ev_weak_flag: "ev_weak Q s \<Longrightarrow> Q i = Some e \<Longrightarrow> ee_eligible e \<Longrightarrow> ee_vruntime e \<le> ev_min_vruntime s"
  unfolding ev_weak_def using ev_viewD(2) by blast

text \<open>The fields the invariant does not read.\<close>

lemma ev_weak_frame [simp]:
  "ev_weak Q (s\<lparr>ev_remaining := r\<rparr>) = ev_weak Q s"
  "ev_weak Q (s\<lparr>ev_cur_weight := w\<rparr>) = ev_weak Q s"
  "ev_weak Q (s\<lparr>ev_cur_vruntime := v\<rparr>) = ev_weak Q s"
  "ev_weak Q (s\<lparr>ev_cur_priority := p\<rparr>) = ev_weak Q s"
  "ev_weak Q (s\<lparr>ev_cur_id := i\<rparr>) = ev_weak Q s"
  "ev_weak Q (s\<lparr>ev_slices := ts\<rparr>) = ev_weak Q s"
  by (simp_all add: ev_weak_def)

text \<open>A whole entry out of the tree, the deadline index and its partition index.\<close>

definition ev_cut :: "nat \<times> task_id \<Rightarrow> ev_entry \<Rightarrow> eevdf \<Rightarrow> eevdf" where
  "ev_cut k e s =
     (ev_unindex k e (s\<lparr>ev_tree := bt_remove k (ev_tree s),
        ev_deadlines := bt_remove (snd k) (ev_deadlines s)\<rparr>))\<lparr>ev_nr_running := ev_nr_running s - 1\<rparr>"

lemma ev_cut_simps [simp]:
  "ev_tree (ev_cut k e s) = bt_remove k (ev_tree s)"
  "ev_deadlines (ev_cut k e s) = bt_remove (snd k) (ev_deadlines s)"
  "ev_elig (ev_cut k e s) = (if ee_eligible e then bt_remove k (ev_elig s) else ev_elig s)"
  "ev_inelig (ev_cut k e s) =
     (if ee_eligible e then ev_inelig s else bt_remove (ee_vruntime e, snd k) (ev_inelig s))"
  "ev_min_vruntime (ev_cut k e s) = ev_min_vruntime s"
  "ev_nr_running (ev_cut k e s) = ev_nr_running s - 1"
  "ev_slices (ev_cut k e s) = ev_slices s"
  "ev_cur_id (ev_cut k e s) = ev_cur_id s"
  "ev_cur_vruntime (ev_cut k e s) = ev_cur_vruntime s"
  by (simp_all add: ev_cut_def ev_unindex_def)

lemma ev_weak_cut:
  assumes w: "ev_weak Q s" and q: "Q i = Some e" "ee_deadline e = d"
  shows "ev_weak (Q(i := None)) (ev_cut (d, i) e s)"
proof -
  have "bt_get (ev_tree s) (d, i) = Some e" using w q ev_weak_tree by blast
  then have "Suc (length (bt_remove (d, i) (ev_tree s))) = length (ev_tree s)"
    using w by (simp add: ev_weak_def length_bt_remove)
  moreover have "ev_view Q (bt_get (ev_tree s)) (bt_get (ev_deadlines s)) (bt_get (ev_elig s))
       (bt_get (ev_inelig s)) (ev_min_vruntime s)"
    using w by (simp add: ev_weak_def)
  note ev_view_cut [OF this q]
  ultimately show ?thesis
    using w by (cases "ee_eligible e") (simp_all add: ev_weak_def bt.lookup_remove)
qed

lemma ev_tasks_cut:
  assumes w: "ev_weak Q s" and q: "Q i = Some e" "ee_deadline e = d"
  shows "ev_tasks s = add_mset i (ev_tasks (ev_cut (d, i) e s))"
proof -
  have "bt_get (ev_tree s) (d, i) = Some e" using w q ev_weak_tree by blast
  then have "mset (map fst (ev_tree s)) = add_mset (d, i) (mset (map fst (bt_remove (d, i) (ev_tree s))))"
    using w by (intro mset_bt_remove) (simp_all add: ev_weak_def)
  then show ?thesis by (simp add: ev_tasks_def)
qed

lemma ev_exact_cut: "ev_exact s \<Longrightarrow> ev_exact (ev_cut k e s)"
  by (auto simp: ev_exact_def)

lemma ev_weak_insert:
  assumes w: "ev_weak Q s" and new: "Q (ee_id e) = None" and room: "length (ev_tree s) < u32_max"
    and flag: "ee_eligible e \<longrightarrow> ee_vruntime e \<le> ev_min_vruntime s"
  shows "ev_weak (Q(ee_id e \<mapsto> e)) (ev_insert e s)"
proof -
  have none: "bt_get (ev_tree s) (ee_deadline e, ee_id e) = None"
    using ev_weak_tree [OF w] new by (metis not_None_eq)
  have "ev_view Q (bt_get (ev_tree s)) (bt_get (ev_deadlines s)) (bt_get (ev_elig s))
       (bt_get (ev_inelig s)) (ev_min_vruntime s)"
    using w by (simp add: ev_weak_def)
  note ev_view_add [OF this new refl refl flag]
  with w none room show ?thesis
    by (cases "ee_eligible e") (simp_all add: ev_weak_def ev_insert_def Let_def bt.lookup_insert
        sat_add32_def)
qed

lemma ev_tasks_insert:
  assumes w: "ev_weak Q s" and new: "Q (ee_id e) = None"
  shows "ev_tasks (ev_insert e s) = add_mset (ee_id e) (ev_tasks s)"
proof -
  have "bt_get (ev_tree s) (ee_deadline e, ee_id e) = None"
    using ev_weak_tree [OF w] new by (metis not_None_eq)
  then show ?thesis
    by (simp add: ev_tasks_def ev_insert_def Let_def mset_bt_insert [unfolded mset_map])
qed

lemma ev_promote_weak:
  assumes w: "ev_weak Q s" and k: "bt_get (ev_inelig s) (v, i) \<noteq> None" and le: "v \<le> ev_min_vruntime s"
  shows "\<exists>Q'. ev_weak Q' (ev_promote (v, i) s)" and "map fst (ev_tree (ev_promote (v, i) s)) = map fst (ev_tree s)"
proof -
  from k ev_weak_inelig [OF w] obtain e where e: "Q i = Some e" "\<not> ee_eligible e" "ee_vruntime e = v"
    by blast
  have d: "bt_get (ev_deadlines s) i = Some (ee_deadline e)"
    using ev_weak_deadline [OF w] e by simp
  have t: "bt_get (ev_tree s) (ee_deadline e, i) = Some e"
    using ev_weak_tree [OF w] e by simp
  have "ev_view Q (bt_get (ev_tree s)) (bt_get (ev_deadlines s)) (bt_get (ev_elig s))
       (bt_get (ev_inelig s)) (ev_min_vruntime s)"
    using w by (simp add: ev_weak_def)
  note ev_view_promote [OF this e(1) refl e(2)]
  with w d t e le have "ev_weak (Q(i \<mapsto> e\<lparr>ee_eligible := True\<rparr>)) (ev_promote (v, i) s)"
    by (simp add: ev_weak_def ev_promote_def Let_def bt.lookup_insert bt.lookup_remove bt.lookup_adjust)
  then show "\<exists>Q'. ev_weak Q' (ev_promote (v, i) s)" by blast
  show "map fst (ev_tree (ev_promote (v, i) s)) = map fst (ev_tree s)"
    by (simp add: ev_promote_def Let_def d)
qed

section \<open>The floor and the partition\<close>

lemma ev_update_simps [simp]:
  "ev_tree (ev_update_min_vruntime s) = ev_tree s"
  "ev_deadlines (ev_update_min_vruntime s) = ev_deadlines s"
  "ev_elig (ev_update_min_vruntime s) = ev_elig s"
  "ev_inelig (ev_update_min_vruntime s) = ev_inelig s"
  "ev_nr_running (ev_update_min_vruntime s) = ev_nr_running s"
  "ev_slices (ev_update_min_vruntime s) = ev_slices s"
  "ev_remaining (ev_update_min_vruntime s) = ev_remaining s"
  "ev_cur_weight (ev_update_min_vruntime s) = ev_cur_weight s"
  "ev_cur_id (ev_update_min_vruntime s) = ev_cur_id s"
  "ev_cur_vruntime (ev_update_min_vruntime s) = ev_cur_vruntime s"
  by (simp_all add: ev_update_min_vruntime_def split: option.splits)

lemma ev_update_floor: "ev_min_vruntime s \<le> ev_min_vruntime (ev_update_min_vruntime s)"
  by (simp add: ev_update_min_vruntime_def split: option.splits)

lemma ev_update_weak: "ev_weak Q s \<Longrightarrow> ev_weak Q (ev_update_min_vruntime s)"
  using ev_view_floor [OF _ ev_update_floor] by (simp add: ev_weak_def)

lemma ev_rebalance_spec:
  "ev_weak Q s \<Longrightarrow> (\<exists>Q'. ev_weak Q' (ev_rebalance s)) \<and> ev_exact (ev_rebalance s) \<and>
     map fst (ev_tree (ev_rebalance s)) = map fst (ev_tree s)"
proof (induction s arbitrary: Q rule: ev_rebalance.induct)
  case (1 s)
  show ?case
  proof (cases "ev_inelig s")
    case Nil
    then have "ev_rebalance s = s" by (subst ev_rebalance.simps) simp
    with Nil "1.prems" show ?thesis by (auto simp: ev_exact_def)
  next
    case (Cons p m)
    obtain v i u where p: "p = ((v, i), u)" by (metis surj_pair)
    have ok: "bt_ok (((v, i), u) # m)"
      using "1.prems" Cons p by (simp add: ev_weak_def)
    show ?thesis
    proof (cases "ev_min_vruntime s < v")
      case True
      then have r: "ev_rebalance s = s" using Cons p by (subst ev_rebalance.simps) simp
      have "ev_exact s"
        unfolding ev_exact_def
      proof (intro allI impI)
        fix w j assume "bt_get (ev_inelig s) (w, j) \<noteq> None"
        then have "(v, i) \<le> (w, j)"
          using bt_front_least [OF ok, of "(w, j)"] Cons p by metis
        with True show "ev_min_vruntime s < w" by (auto simp: less_eq_prod_def)
      qed
      with r "1.prems" show ?thesis by auto
    next
      case False
      then have r: "ev_rebalance s = ev_rebalance (ev_promote (v, i) s)"
        using Cons p by (subst ev_rebalance.simps) simp
      have "bt_get (ev_inelig s) (v, i) \<noteq> None" using Cons p by simp
      from ev_promote_weak [OF "1.prems" this] False
      obtain Q' where Q': "ev_weak Q' (ev_promote (v, i) s)"
        and t: "map fst (ev_tree (ev_promote (v, i) s)) = map fst (ev_tree s)" by auto
      from "1.IH" [OF Cons p [symmetric] _ Q'] False t r show ?thesis by simp
    qed
  qed
qed

text \<open>The tail every operation ends with.\<close>

definition ev_settle :: "eevdf \<Rightarrow> eevdf" where
  "ev_settle s = ev_rebalance (ev_update_min_vruntime s)"

lemma ev_settle_inv: "ev_weak Q s \<Longrightarrow> ev_inv (ev_settle s)"
  using ev_rebalance_spec [OF ev_update_weak] by (auto simp: ev_settle_def ev_inv_def)

lemma ev_settle_keys: "ev_weak Q s \<Longrightarrow> map fst (ev_tree (ev_settle s)) = map fst (ev_tree s)"
  using ev_rebalance_spec [OF ev_update_weak, of Q s] by (simp add: ev_settle_def)

lemma ev_settle_tasks: "ev_weak Q s \<Longrightarrow> ev_tasks (ev_settle s) = ev_tasks s"
  unfolding ev_tasks_def by (simp only: ev_settle_keys)

lemma ev_invE:
  assumes "ev_inv s"
  obtains Q where "ev_weak Q s" and "ev_exact s"
  using assms by (auto simp: ev_inv_def)

section \<open>The operations keep it\<close>

lemma ev_drop_stale_eq:
  assumes w: "ev_weak Q s"
  shows "ev_drop_stale i s = (case Q i of None \<Rightarrow> s | Some e \<Rightarrow> ev_cut (ee_deadline e, i) e s)"
proof (cases "Q i")
  case None
  then show ?thesis by (simp add: ev_drop_stale_def ev_weak_deadline [OF w])
next
  case (Some e)
  then have "bt_get (ev_tree s) (ee_deadline e, i) = Some e" using ev_weak_tree [OF w] by simp
  with Some show ?thesis
    by (simp add: ev_drop_stale_def ev_weak_deadline [OF w] Let_def ev_cut_def ev_unindex_def)
qed

lemma ev_drop_stale_weak:
  assumes w: "ev_weak Q s"
  shows "ev_weak (Q(i := None)) (ev_drop_stale i s)"
proof (cases "Q i")
  case None
  then have "Q(i := None) = Q" by auto
  with None w show ?thesis by (simp add: ev_drop_stale_eq [OF w])
next
  case (Some e)
  with ev_weak_cut [OF w Some refl] show ?thesis by (simp add: ev_drop_stale_eq [OF w])
qed

text \<open>No task has two entries.\<close>

lemma ev_tasks_in: "ev_weak Q s \<Longrightarrow> i \<in># ev_tasks s \<longleftrightarrow> Q i \<noteq> None"
proof -
  assume w: "ev_weak Q s"
  have "i \<in># ev_tasks s \<longleftrightarrow> (\<exists>d. (d, i) \<in> fst ` set (ev_tree s))"
    by (force simp: ev_tasks_def)
  also have "\<dots> \<longleftrightarrow> (\<exists>d e. bt_get (ev_tree s) (d, i) = Some e)"
    by (simp add: bt_in_keys)
  also have "\<dots> \<longleftrightarrow> Q i \<noteq> None"
    using ev_weak_tree [OF w] by auto
  finally show ?thesis .
qed

lemma ev_tasks_drop:
  assumes w: "ev_weak Q s"
  shows "ev_tasks (ev_drop_stale i s) = filter_mset (\<lambda>j. j \<noteq> i) (ev_tasks s)"
proof (cases "Q i")
  case None
  then have "i \<notin># ev_tasks s" using ev_tasks_in [OF w] by simp
  then have "filter_mset (\<lambda>j. j \<noteq> i) (ev_tasks s) = ev_tasks s"
    by (rule filter_absent)
  with None show ?thesis by (simp add: ev_drop_stale_eq [OF w])
next
  case (Some e)
  let ?t = "ev_cut (ee_deadline e, i) e s"
  have "i \<notin># ev_tasks ?t" using ev_tasks_in [OF ev_weak_cut [OF w Some refl]] by simp
  then have "filter_mset (\<lambda>j. j \<noteq> i) (ev_tasks ?t) = ev_tasks ?t"
    by (rule filter_absent)
  with ev_tasks_cut [OF w Some refl] Some show ?thesis by (simp add: ev_drop_stale_eq [OF w])
qed

lemma ev_drop_stale_len: "ev_weak Q s \<Longrightarrow> length (ev_tree (ev_drop_stale i s)) \<le> length (ev_tree s)"
  by (simp add: ev_drop_stale_eq bt_remove_def split: option.splits)

lemma ev_drop_stale_floor [simp]: "ev_min_vruntime (ev_drop_stale i s) = ev_min_vruntime s"
  by (simp add: ev_drop_stale_def ev_unindex_def Let_def split: option.splits)

text \<open>The entry an enqueue builds, and the state it inserts it in.\<close>

lemma ev_enqueue_shape:
  assumes w: "ev_weak Q s"
  obtains e t where "ev_enqueue i p s = ev_settle (ev_insert e t)" and "ee_id e = i"
    and "ev_weak (Q(i := None)) t" and "ev_tasks t = filter_mset (\<lambda>j. j \<noteq> i) (ev_tasks s)"
    and "ee_eligible e \<longleftrightarrow> ee_vruntime e \<le> ev_min_vruntime t"
    and "length (ev_tree t) \<le> length (ev_tree s)"
proof -
  let ?d = "ev_drop_stale i s"
  define t where "t = snd (ev_start_vruntime i ?d)"
  define v where "v = fst (ev_start_vruntime i ?d)"
  define e where "e = \<lparr>ee_id = i, ee_priority = p, ee_weight = ev_weight_for p, ee_vruntime = v,
    ee_deadline = ev_compute_deadline v p (ev_weight_for p) t, ee_eligible = (v \<le> ev_min_vruntime t)\<rparr>"
  have "ev_enqueue i p s = ev_settle (ev_insert e t)"
    by (simp add: ev_enqueue_def ev_settle_def e_def t_def v_def Let_def case_prod_beta)
  moreover have "ev_weak (Q(i := None)) t" "ev_tree t = ev_tree ?d"
    using ev_drop_stale_weak [OF w, of i] by (auto simp: t_def ev_start_vruntime_def)
  moreover from this have "ev_tasks t = filter_mset (\<lambda>j. j \<noteq> i) (ev_tasks s)"
    using ev_tasks_drop [OF w, of i] by (simp add: ev_tasks_def)
  moreover have "length (ev_tree t) \<le> length (ev_tree s)"
    using ev_drop_stale_len [OF w] \<open>ev_tree t = ev_tree ?d\<close> by simp
  ultimately show ?thesis by (intro that [of e t]) (simp_all add: e_def)
qed

lemma ev_enqueue_inv:
  assumes inv: "ev_inv s" and room: "length (ev_tree s) < u32_max"
  shows "ev_inv (ev_enqueue i p s)"
    and "ev_tasks (ev_enqueue i p s) = add_mset i (filter_mset (\<lambda>j. j \<noteq> i) (ev_tasks s))"
proof -
  from inv obtain Q where w: "ev_weak Q s" by (rule ev_invE)
  obtain e t where t: "ev_enqueue i p s = ev_settle (ev_insert e t)" "ee_id e = i"
    "ev_weak (Q(i := None)) t" "ev_tasks t = filter_mset (\<lambda>j. j \<noteq> i) (ev_tasks s)"
    "ee_eligible e \<longleftrightarrow> ee_vruntime e \<le> ev_min_vruntime t" "length (ev_tree t) \<le> length (ev_tree s)"
    by (rule ev_enqueue_shape [OF w])
  have none: "(Q(i := None)) (ee_id e) = None" using t(2) by simp
  have wi: "ev_weak ((Q(i := None))(ee_id e \<mapsto> e)) (ev_insert e t)"
    using t(3,5,6) none room by (intro ev_weak_insert) auto
  show "ev_inv (ev_enqueue i p s)" using ev_settle_inv [OF wi] t(1) by simp
  show "ev_tasks (ev_enqueue i p s) = add_mset i (filter_mset (\<lambda>j. j \<noteq> i) (ev_tasks s))"
    using ev_settle_tasks [OF wi] ev_tasks_insert [OF t(3) none] t(1,2,4) by simp
qed

lemma ev_forget_simps [simp]:
  "ev_tree (snd (ev_forget_current i s)) = ev_tree s"
  "ev_weak Q (snd (ev_forget_current i s)) = ev_weak Q s"
  "ev_exact (snd (ev_forget_current i s)) = ev_exact s"
  by (simp_all add: ev_forget_current_def ev_exact_def)

lemma ev_swap: "s\<lparr>ev_deadlines := D, ev_tree := T\<rparr> = s\<lparr>ev_tree := T, ev_deadlines := D\<rparr>"
  by simp

lemma ev_dequeue_eq:
  assumes w: "ev_weak Q s"
  shows "ev_dequeue i p s =
    (case Q i of None \<Rightarrow> ev_forget_current i s
     | Some e \<Rightarrow> (True, ev_settle (ev_cut (ee_deadline e, i) e s)))"
proof (cases "Q i")
  case None
  then show ?thesis by (simp add: ev_dequeue_def ev_weak_deadline [OF w])
next
  case (Some e)
  then have "bt_get (ev_tree s) (ee_deadline e, i) = Some e" using ev_weak_tree [OF w] by simp
  with Some show ?thesis
    by (simp add: ev_dequeue_def ev_weak_deadline [OF w] Let_def ev_cut_def ev_unindex_def ev_settle_def ev_swap)
qed

lemma ev_dequeue_inv:
  assumes inv: "ev_inv s"
  shows "ev_inv (snd (ev_dequeue i p s))"
    and "ev_tasks (snd (ev_dequeue i p s)) = filter_mset (\<lambda>j. j \<noteq> i) (ev_tasks s)"
proof -
  from inv obtain Q where w: "ev_weak Q s" and x: "ev_exact s" by (rule ev_invE)
  show "ev_inv (snd (ev_dequeue i p s))"
  proof (cases "Q i")
    case None
    with w x show ?thesis by (auto simp: ev_dequeue_eq [OF w] ev_inv_def)
  next
    case (Some e)
    with ev_settle_inv [OF ev_weak_cut [OF w Some refl]] show ?thesis
      by (simp add: ev_dequeue_eq [OF w])
  qed
  show "ev_tasks (snd (ev_dequeue i p s)) = filter_mset (\<lambda>j. j \<noteq> i) (ev_tasks s)"
    using ev_tasks_drop [OF w, of i]
    by (cases "Q i") (simp_all add: ev_dequeue_eq [OF w] ev_drop_stale_eq [OF w]
        ev_settle_tasks [OF ev_weak_cut [OF w _ refl]] ev_tasks_def [of "snd (ev_forget_current i s)"]
        ev_tasks_def [of s])
qed

section \<open>Pick\<close>

definition ev_front_key :: "eevdf \<Rightarrow> nat \<times> task_id" where
  "ev_front_key s = (case ev_elig s of (k, u) # m \<Rightarrow> k | [] \<Rightarrow> fst (hd (ev_tree s)))"

lemma ev_front_entry:
  assumes w: "ev_weak Q s" and "ev_tree s \<noteq> []"
  obtains d i e where "ev_front_key s = (d, i)" and "Q i = Some e" and "ee_deadline e = d"
    and "ev_elig s \<noteq> [] \<Longrightarrow> ee_eligible e"
proof (cases "ev_elig s")
  case Nil
  with assms(2) obtain d i e m where t: "ev_tree s = ((d, i), e) # m"
    by (cases "ev_tree s") auto
  then have "bt_get (ev_tree s) (d, i) = Some e" by simp
  then have "Q i = Some e" "ee_deadline e = d" using ev_weak_tree [OF w] by simp_all
  with t Nil show ?thesis
    by (intro that [of d i e]) (simp_all add: ev_front_key_def)
next
  case (Cons p m)
  then obtain d i where t: "ev_elig s = ((d, i), ()) # m" by (cases p) auto
  then have "bt_get (ev_elig s) (d, i) \<noteq> None" by simp
  with ev_weak_elig [OF w] obtain e where "Q i = Some e" "ee_eligible e" "ee_deadline e = d" by blast
  with t show ?thesis by (intro that [of d i e]) (auto simp: ev_front_key_def)
qed

text \<open>What a pick records of the task it hands out.\<close>

definition ev_run :: "ev_entry \<Rightarrow> eevdf \<Rightarrow> eevdf" where
  "ev_run e s = s\<lparr>ev_remaining := slice_at (level_of (ee_priority e)) (ev_slices s),
     ev_cur_weight := ee_weight e, ev_cur_vruntime := ee_vruntime e,
     ev_cur_priority := ee_priority e, ev_cur_id := ee_id e\<rparr>"

lemma ev_run_simps [simp]:
  "ev_weak Q (ev_run e s) = ev_weak Q s" "ev_tasks (ev_run e s) = ev_tasks s"
  "ev_tree (ev_run e s) = ev_tree s"
  by (simp_all add: ev_run_def ev_tasks_def)

lemma ev_pick_eq:
  assumes w: "ev_weak Q s" and k: "ev_front_key s = (d, i)" and e: "Q i = Some e" "ee_deadline e = d"
    and "ev_tree s \<noteq> []"
  shows "ev_pick_next s = (Some i, ev_settle (ev_run e (ev_cut (d, i) e s)))"
proof -
  have "bt_get (ev_tree s) (d, i) = Some e" using ev_weak_tree [OF w] e by simp
  with assms(5) k ev_weak_id [OF w e(1)] show ?thesis
    unfolding ev_pick_next_def ev_front_key_def [symmetric]
    by (simp add: Let_def ev_cut_def ev_unindex_def ev_run_def ev_settle_def)
qed

lemma ev_pick_empty: "ev_tree s = [] \<Longrightarrow> ev_pick_next s = (None, s)"
  by (simp add: ev_pick_next_def)

lemma ev_tree_empty: "ev_tree s = [] \<longleftrightarrow> ev_tasks s = {#}"
  by (simp add: ev_tasks_def)

lemma ev_pick_cases:
  assumes inv: "ev_inv s"
  obtains "ev_tasks s = {#}" and "ev_pick_next s = (None, s)"
  | i s' where "ev_pick_next s = (Some i, s')" and "ev_inv s'" and "ev_tasks s = add_mset i (ev_tasks s')"
proof (cases "ev_tree s = []")
  case True
  with that(1) ev_pick_empty ev_tree_empty show ?thesis by blast
next
  case False
  from inv obtain Q where w: "ev_weak Q s" by (rule ev_invE)
  from ev_front_entry [OF w False] obtain d i e
    where k: "ev_front_key s = (d, i)" and e: "Q i = Some e" "ee_deadline e = d" by metis
  have cut: "ev_weak (Q(i := None)) (ev_run e (ev_cut (d, i) e s))"
    using ev_weak_cut [OF w e] by simp
  show ?thesis
    using that(2) [OF ev_pick_eq [OF w k e False] ev_settle_inv [OF cut]]
      ev_settle_tasks [OF cut] ev_tasks_cut [OF w e] by simp
qed

section \<open>Steal\<close>

lemma ev_steal_one_eq:
  assumes w: "ev_weak Q s" and "Q i = Some e" and "ee_deadline e = d" and "length st < MAX_STEAL"
  shows "ev_steal_one (d, i) (st, s) = (st @ [(i, ee_priority e)], ev_cut (d, i) e s)"
proof -
  have "bt_get (ev_tree s) (d, i) = Some e" using ev_weak_tree [OF w] assms by simp
  with assms ev_weak_id [OF w] show ?thesis
    by (simp add: ev_steal_one_def Let_def ev_cut_def ev_unindex_def stolen_push_def)
qed

lemma ev_steal_fold:
  assumes "ev_weak Q s" and "distinct ks" and "\<forall>k \<in> set ks. bt_get (ev_tree s) k \<noteq> None"
    and "length st + length ks \<le> MAX_STEAL"
  shows "\<exists>st' s' Q'. fold ev_steal_one ks (st, s) = (st', s') \<and> ev_weak Q' s' \<and>
    mset (map fst st') + ev_tasks s' = mset (map fst st) + ev_tasks s \<and> length st' = length st + length ks"
  using assms
proof (induction ks arbitrary: st s Q)
  case Nil
  then show ?case by auto
next
  case (Cons k ks)
  obtain d i where k: "k = (d, i)" by (cases k)
  with Cons.prems ev_weak_tree [OF Cons.prems(1)] obtain e where e: "Q i = Some e" "ee_deadline e = d"
    by auto
  let ?s = "ev_cut (d, i) e s" and ?st = "st @ [(i, ee_priority e)]"
  have "distinct ks" "\<forall>k \<in> set ks. bt_get (ev_tree ?s) k \<noteq> None" "length ?st + length ks \<le> MAX_STEAL"
    using Cons.prems(2,3,4) k by auto
  from Cons.IH [OF ev_weak_cut [OF Cons.prems(1) e] this]
  obtain st' s' Q' where IH: "fold ev_steal_one ks (?st, ?s) = (st', s')" "ev_weak Q' s'"
    "mset (map fst st') + ev_tasks s' = mset (map fst ?st) + ev_tasks ?s"
    "length st' = length ?st + length ks" by blast
  have "fold ev_steal_one (k # ks) (st, s) = (st', s')"
    using IH(1) ev_steal_one_eq [OF Cons.prems(1) e] Cons.prems(4) k by simp
  with IH(2,3,4) ev_tasks_cut [OF Cons.prems(1) e] show ?case by auto
qed

lemma ev_steal_spec:
  assumes inv: "ev_inv s"
  obtains st s' where "ev_steal n s = (st, s')" and "ev_inv s'"
    and "ev_tasks s = mset (map fst st) + ev_tasks s'"
    and "length st = min (min n MAX_STEAL) (size (ev_tasks s))"
proof (cases "n = 0 \<or> ev_tree s = []")
  case True
  with inv that [of "[]" s] ev_tree_empty [of s] show ?thesis by (auto simp: ev_steal_def)
next
  case False
  from inv obtain Q where w: "ev_weak Q s" by (rule ev_invE)
  let ?ks = "ev_steal_keys n s"
  have "bt_ok (ev_tree s)" using w by (simp add: ev_weak_def)
  then have dist: "distinct ?ks"
    by (auto simp: ev_steal_keys_def bt_ok_def strict_sorted_iff intro: distinct_take)
  have mem: "\<forall>k \<in> set ?ks. bt_get (ev_tree s) k \<noteq> None"
  proof
    fix k assume "k \<in> set ?ks"
    then have "k \<in> fst ` set (ev_tree s)"
      by (auto simp: ev_steal_keys_def dest!: in_set_takeD)
    then show "bt_get (ev_tree s) k \<noteq> None" by (rule bt_in_keys [THEN iffD1])
  qed
  have len: "length ?ks = min (min n MAX_STEAL) (length (ev_tree s))"
    by (simp add: ev_steal_keys_def)
  then have "length [] + length ?ks \<le> MAX_STEAL" by simp
  from ev_steal_fold [OF w dist mem this]
  obtain st t Q' where f: "fold ev_steal_one ?ks ([], s) = (st, t)" "ev_weak Q' t"
    "mset (map fst st) + ev_tasks t = ev_tasks s" "length st = length ?ks" by auto
  have "0 < length ?ks" unfolding len using False by (simp add: MAX_STEAL_def)
  then have "?ks \<noteq> []" by auto
  then have "ev_steal n s = (st, ev_settle t)"
    using False f(1) by (simp add: ev_steal_def Let_def ev_settle_def)
  moreover have "length (ev_tree s) = size (ev_tasks s)" by (simp add: ev_tasks_def)
  ultimately show ?thesis
    using ev_settle_inv [OF f(2)] ev_settle_tasks [OF f(2)] f(3,4) len
    by (intro that [of st "ev_settle t"]) simp_all
qed

section \<open>Tick\<close>

lemma ev_inv_remaining [simp]: "ev_inv (s\<lparr>ev_remaining := r\<rparr>) = ev_inv s"
  by (simp add: ev_inv_def ev_exact_def)

lemma ev_tick_shape:
  "snd (ev_tick s) = s \<or> (\<exists>v r. snd (ev_tick s) = (ev_settle (s\<lparr>ev_cur_vruntime := v\<rparr>))\<lparr>ev_remaining := r\<rparr>)"
proof (cases "ev_cur_weight s = 0")
  case True
  then show ?thesis by (simp add: ev_tick_def)
next
  case False
  let ?t = "ev_settle (s\<lparr>ev_cur_vruntime := sat_add64 (ev_cur_vruntime s) (VRUNTIME_UNIT div ev_cur_weight s)\<rparr>)"
  have "?t = ?t\<lparr>ev_remaining := ev_remaining ?t\<rparr>" by simp
  with False show ?thesis
    by (simp only: ev_tick_def ev_settle_def Let_def snd_conv if_False split: if_splits) blast
qed

lemma ev_tick_inv: "ev_inv s \<Longrightarrow> ev_inv (snd (ev_tick s)) \<and> ev_tasks (snd (ev_tick s)) = ev_tasks s"
proof -
  assume inv: "ev_inv s"
  then obtain Q where w: "ev_weak Q s" by (rule ev_invE)
  then have "ev_weak Q (s\<lparr>ev_cur_vruntime := v\<rparr>)" for v by simp
  note ev_settle_inv [OF this] ev_settle_tasks [OF this]
  with inv ev_tick_shape [of s] show ?thesis by (auto simp: ev_tasks_def)
qed

section \<open>The contract\<close>

lemma ev_total: "ev_inv s \<Longrightarrow> ev_total_tasks s = size (ev_tasks s) \<and> ev_total_tasks s = length (ev_tree s)"
  by (auto simp: ev_inv_def ev_weak_def ev_total_tasks_def ev_tasks_def)

interpretation evq: exact_queue ev_inv ev_tasks ev_enqueue ev_dequeue ev_pick_next ev_steal ev_tick ev_total_tasks
proof unfold_locales
  fix s i p assume a: "ev_inv s" "ev_total_tasks s < u32_max"
  then have room: "length (ev_tree s) < u32_max" using ev_total by metis
  show "ev_inv (ev_enqueue i p s)" by (rule ev_enqueue_inv [OF a(1) room])
  show "set_mset (ev_tasks (ev_enqueue i p s)) = insert i (set_mset (ev_tasks s))"
    by (auto simp: ev_enqueue_inv(2) [OF a(1) room])
  show "size (ev_tasks (ev_enqueue i p s)) \<le> Suc (size (ev_tasks s))"
    by (simp add: ev_enqueue_inv(2) [OF a(1) room] size_mset_mono)
  show "ev_tasks (ev_enqueue i p s) = add_mset i (ev_tasks s)" if "i \<notin># ev_tasks s"
    by (simp add: ev_enqueue_inv(2) [OF a(1) room] filter_absent [OF that])
next
  fix s i p assume "ev_inv s"
  then show "ev_inv (snd (ev_dequeue i p s))"
    and "ev_tasks (snd (ev_dequeue i p s)) = filter_mset (\<lambda>j. j \<noteq> i) (ev_tasks s)"
    by (rule ev_dequeue_inv)+
next
  fix s assume "ev_inv s"
  then show "ev_inv (snd (ev_pick_next s))" by (rule ev_pick_cases [of s]) (simp_all add: \<open>ev_inv s\<close>)
next
  fix s n assume inv: "ev_inv s"
  show "ev_inv (snd (ev_steal n s))" by (rule ev_steal_spec [OF inv, of n]) simp
  show "ev_tasks s = mset (map fst (fst (ev_steal n s))) + ev_tasks (snd (ev_steal n s))"
    by (rule ev_steal_spec [OF inv, of n]) simp
  show "length (fst (ev_steal n s)) \<le> min n MAX_STEAL"
    by (rule ev_steal_spec [OF inv, of n]) (metis fst_conv min.cobounded1)
next
  fix s assume "ev_inv s"
  then show "ev_inv (snd (ev_tick s))" and "ev_tasks (snd (ev_tick s)) = ev_tasks s"
    and "ev_total_tasks s = size (ev_tasks s)"
    using ev_tick_inv ev_total by blast+
next
  fix s assume inv: "ev_inv s" and none: "fst (ev_pick_next s) = None"
  show "ev_tasks s = {#}" and "ev_tasks (snd (ev_pick_next s)) = {#}"
    by (rule ev_pick_cases [OF inv]; use none in simp)+
next
  fix s i assume inv: "ev_inv s" and some: "fst (ev_pick_next s) = Some i"
  show "ev_tasks s \<subseteq># add_mset i (ev_tasks (snd (ev_pick_next s)))"
    and "ev_tasks s = add_mset i (ev_tasks (snd (ev_pick_next s)))"
    by (rule ev_pick_cases [OF inv]; use some in simp)+
qed

section \<open>Properties\<close>

text \<open>
  The pick this design replaced: walk the whole tree in deadline order and take the first
  eligible task, or the first task of all if none is eligible.
\<close>

definition ev_scan :: "eevdf \<Rightarrow> task_id option" where
  "ev_scan s =
     (case find (\<lambda>p. ee_vruntime (snd p) \<le> ev_min_vruntime s) (ev_tree s) of
        Some p \<Rightarrow> Some (snd (fst p))
      | None \<Rightarrow> (case ev_tree s of [] \<Rightarrow> None | p # m \<Rightarrow> Some (snd (fst p))))"

lemma ev_flag_exact:
  assumes w: "ev_weak Q s" and x: "ev_exact s" and q: "Q i = Some e"
  shows "ee_eligible e \<longleftrightarrow> ee_vruntime e \<le> ev_min_vruntime s"
proof (cases "ee_eligible e")
  case True
  with ev_weak_flag [OF w q] show ?thesis by simp
next
  case False
  with q ev_weak_inelig [OF w] have "bt_get (ev_inelig s) (ee_vruntime e, i) \<noteq> None" by blast
  with x have "ev_min_vruntime s < ee_vruntime e" by (simp only: ev_exact_def)
  with False show ?thesis by simp
qed

lemma ev_tree_entry: "ev_weak Q s \<Longrightarrow> (k, e) \<in> set (ev_tree s) \<Longrightarrow> Q (snd k) = Some e \<and> ee_deadline e = fst k"
  using bt_in_set [of "ev_tree s" k e] ev_weak_tree [of Q s "fst k" "snd k" e] by (simp add: ev_weak_def)

lemma sorted_find_least:
  assumes "bt_ok m" and "(k, v) \<in> set m" and "P (k, v)"
    and "\<And>j w. (j, w) \<in> set m \<Longrightarrow> P (j, w) \<Longrightarrow> k \<le> j"
  shows "find P m = Some (k, v)"
  using assms
proof (induction m)
  case Nil
  then show ?case by simp
next
  case (Cons p m)
  show ?case
  proof (cases "P p")
    case True
    with Cons.prems(4) [of "fst p" "snd p"] have "k \<le> fst p" by simp
    with Cons.prems(1,2) have "(k, v) = p" by (auto simp: bt_ok_def)
    with True show ?thesis by simp
  next
    case False
    with Cons.prems(2,3) have "(k, v) \<in> set m" by auto
    then have "find P m = Some (k, v)"
      using Cons.prems(3,4) by (intro Cons.IH [OF bt_ok_tail [OF Cons.prems(1)]]) auto
    with False show ?thesis by simp
  qed
qed

lemma ev_scan_front:
  assumes w: "ev_weak Q s" and x: "ev_exact s" and "ev_tree s \<noteq> []"
  shows "ev_scan s = Some (snd (ev_front_key s))"
proof -
  let ?P = "\<lambda>p. ee_vruntime (snd p) \<le> ev_min_vruntime s"
  have flag: "?P (k, e) \<longleftrightarrow> ee_eligible e" if "(k, e) \<in> set (ev_tree s)" for k e
    using ev_flag_exact [OF w x] ev_tree_entry [OF w that] by auto
  have ok: "bt_ok (ev_tree s)" "bt_ok (ev_elig s)" using w by (simp_all add: ev_weak_def)
  show ?thesis
  proof (cases "ev_elig s")
    case Nil
    then have "\<not> ?P p" if "p \<in> set (ev_tree s)" for p
      using flag [of "fst p" "snd p"] that ev_weak_elig [OF w, of "fst (fst p)" "snd (fst p)"]
        ev_tree_entry [OF w, of "fst p" "snd p"] by auto
    then have "find ?P (ev_tree s) = None" unfolding find_None_iff by blast
    with Nil assms(3) show ?thesis
      by (cases "ev_tree s") (auto simp: ev_scan_def ev_front_key_def)
  next
    case (Cons p m)
    then obtain k where el: "ev_elig s = (k, ()) # m" by (cases p) auto
    from ev_front_entry [OF w assms(3)] el obtain d i e
      where k: "k = (d, i)" and e: "Q i = Some e" "ee_deadline e = d" "ee_eligible e"
      by (auto simp: ev_front_key_def)
    have mem: "(k, e) \<in> set (ev_tree s)"
      using bt_in_set [OF ok(1)] ev_weak_tree [OF w] e k by simp
    have "find ?P (ev_tree s) = Some (k, e)"
    proof (rule sorted_find_least [OF ok(1) mem])
      show "?P (k, e)" using flag [OF mem] e(3) by simp
    next
      fix j f assume jf: "(j, f) \<in> set (ev_tree s)" and "?P (j, f)"
      then have "ee_eligible f" using flag by simp
      then have "bt_get (ev_elig s) j \<noteq> None"
        using ev_tree_entry [OF w jf] ev_weak_elig [OF w, of "fst j" "snd j"] by auto
      then show "k \<le> j" using bt_front_least [of k "()" m j] ok(2) el by simp
    qed
    with el show ?thesis by (simp add: ev_scan_def ev_front_key_def)
  qed
qed

text \<open>
  C22: the indexed pick is the scan it replaced: it hands out the eligible task with the earliest
  virtual deadline, the smallest id first among equals, and the earliest deadline of all when no
  task is eligible.
\<close>

theorem ev_pick_equals_scan:
  assumes "ev_inv s"
  shows "fst (ev_pick_next s) = ev_scan s"
proof (cases "ev_tree s = []")
  case True
  then show ?thesis by (simp add: ev_pick_empty ev_scan_def)
next
  case False
  from assms obtain Q where w: "ev_weak Q s" and x: "ev_exact s" by (rule ev_invE)
  from ev_front_entry [OF w False] obtain d i e
    where k: "ev_front_key s = (d, i)" and e: "Q i = Some e" "ee_deadline e = d" by metis
  show ?thesis
    using ev_pick_eq [OF w k e False] ev_scan_front [OF w x False] k by simp
qed

text \<open>An idle task queued before an ordinary one.\<close>

definition ev_example :: eevdf where
  "ev_example = ev_enqueue 2 20 (ev_enqueue 1 31 ev_new)"

lemma ev_example_inv: "ev_inv ev_example"
proof -
  have "ev_inv ev_new \<and> ev_total_tasks ev_new \<le> 0"
    using ev_new_inv by (simp add: ev_total_tasks_def ev_new_def ev_new_with_def)
  from evq.grow [OF evq.grow [OF this]] show ?thesis
    by (simp add: ev_example_def u32_max_def)
qed

lemma ev_example_slices: "slice_at 31 slices_new = 33" "slice_at 20 slices_new = 22"
  by code_simp+

lemmas ev_eval = ev_example_def ev_enqueue_def ev_new_def ev_new_with_def ev_drop_stale_def
  ev_start_vruntime_def ev_insert_def ev_compute_deadline_def ev_weight_for_def level_of_def
  ev_example_slices WEIGHT_TABLE_def VRUNTIME_UNIT_def sched_consts
  sat_add32_def sat_mul32_def sat_add64_def sat_mul64_def u32_max_def u64_max_def Let_def
  ev_update_min_vruntime_def ev_min_above_def ev_rebalance.simps ev_promote_def ev_unindex_def
  ev_pick_next_def ev_tick_def ev_scan_def bt_get_def bt_remove_def bt_adjust_def

theorem ev_pick_equals_scan_witness: "ev_inv ev_example \<and> fst (ev_pick_next ev_example) = Some 2"
proof -
  have "ev_scan ev_example = Some 2"
    by (simp add: ev_eval)
  with ev_pick_equals_scan [OF ev_example_inv] ev_example_inv show ?thesis by simp
qed

abbreviation ev_step :: "rq_event \<Rightarrow> eevdf \<Rightarrow> eevdf" where
  "ev_step \<equiv> rq_step ev_enqueue ev_dequeue ev_pick_next ev_steal ev_tick"

lemma bt_length_card: "bt_ok m \<Longrightarrow> length m = card (dom (bt_get m))"
proof -
  assume ok: "bt_ok m"
  then have "distinct (map fst m)" by (simp add: bt_ok_def strict_sorted_iff)
  then have "length m = card (fst ` set m)" by (metis distinct_card length_map set_map)
  also have "fst ` set m = dom (bt_get m)" unfolding dom_def by (rule set_eqI) (simp only: bt_in_keys mem_Collect_eq)
  finally show ?thesis .
qed

lemma ev_partition_counts:
  assumes w: "ev_weak Q s"
  shows "length (ev_elig s) + length (ev_inelig s) = length (ev_tree s)"
proof -
  let ?A = "{i. \<exists>e. Q i = Some e \<and> ee_eligible e}" and ?B = "{i. \<exists>e. Q i = Some e \<and> \<not> ee_eligible e}"
  have T: "dom (bt_get (ev_tree s)) = (\<lambda>i. (ee_deadline (the (Q i)), i)) ` (?A \<union> ?B)"
    using ev_weak_tree [OF w] by (force simp: dom_def image_iff)
  have E: "dom (bt_get (ev_elig s)) = (\<lambda>i. (ee_deadline (the (Q i)), i)) ` ?A"
    using ev_weak_elig [OF w] by (force simp: dom_def image_iff)
  have N: "dom (bt_get (ev_inelig s)) = (\<lambda>i. (ee_vruntime (the (Q i)), i)) ` ?B"
    using ev_weak_inelig [OF w] by (force simp: dom_def image_iff)
  have inj: "inj_on (\<lambda>i. (f i, i)) X" for f :: "nat \<Rightarrow> nat" and X by (simp add: inj_on_def)
  have "bt_get (ev_tree s) = map_of (ev_tree s)" by (rule ext) (rule bt_get_def)
  then have "finite (dom (bt_get (ev_tree s)))" by (simp add: finite_dom_map_of)
  then have fin: "finite (?A \<union> ?B)" unfolding T
    by (rule finite_image_iff [OF inj, THEN iffD1])
  have ok: "bt_ok (ev_tree s)" "bt_ok (ev_elig s)" "bt_ok (ev_inelig s)"
    using w by (simp_all add: ev_weak_def)
  have "length (ev_tree s) = card (?A \<union> ?B)"
    unfolding bt_length_card [OF ok(1)] T by (rule card_image [OF inj])
  moreover have "length (ev_elig s) = card ?A"
    unfolding bt_length_card [OF ok(2)] E by (rule card_image [OF inj])
  moreover have "length (ev_inelig s) = card ?B"
    unfolding bt_length_card [OF ok(3)] N by (rule card_image [OF inj])
  moreover have "card (?A \<union> ?B) = card ?A + card ?B"
    using fin by (intro card_Un_disjoint) auto
  ultimately show ?thesis by simp
qed

text \<open>
  from a fresh scheduler, every run of operations leaves the partition indexes exact: the
  count is the number of waiting tasks, each of them is in exactly the index its eligibility
  names, and no index holds anything else.
\<close>

theorem ev_partition_kept:
  assumes "run_ok (rq_room ev_total_tasks) ev_step es ev_new"
  shows "ev_partition_invariant_ok (fold ev_step es ev_new)"
proof -
  let ?s = "fold ev_step es ev_new"
  have "ev_inv ?s" by (rule evq.rq.inv_run [OF ev_new_inv assms])
  then obtain Q where w: "ev_weak Q ?s" and x: "ev_exact ?s" by (rule ev_invE)
  have "ee_eligible e = (ee_vruntime e \<le> ev_min_vruntime ?s) \<and>
      (if ee_eligible e then bt_get (ev_elig ?s) k \<noteq> None
       else bt_get (ev_inelig ?s) (ee_vruntime e, snd k) \<noteq> None)"
    if ke: "(k, e) \<in> set (ev_tree ?s)" for k e
  proof -
    note q = ev_tree_entry [OF w ke]
    have "ee_eligible e = (ee_vruntime e \<le> ev_min_vruntime ?s)"
      using ev_flag_exact [OF w x] q by blast
    moreover have "bt_get (ev_elig ?s) k \<noteq> None" if "ee_eligible e"
      using ev_weak_elig [OF w, of "fst k" "snd k"] q that by auto
    moreover have "bt_get (ev_inelig ?s) (ee_vruntime e, snd k) \<noteq> None" if "\<not> ee_eligible e"
      using ev_weak_inelig [OF w] q that by blast
    ultimately show ?thesis by (cases "ee_eligible e") simp_all
  qed
  then show ?thesis
    using ev_partition_counts [OF w] w
    by (auto simp only: ev_partition_invariant_ok_def ev_weak_def case_prod_beta split: prod.splits)
qed

theorem ev_partition_kept_witness:
  "ev_partition_invariant_ok
     (fold ev_step [RqEnqueue 1 0, RqPick, RqTick, RqEnqueue 2 20, RqEnqueue 1 0, RqSteal 1] ev_new)"
  by (rule ev_partition_kept, rule evq.short_run_ok [OF ev_new_inv])
    (simp add: ev_total_tasks_def ev_new_def ev_new_with_def u32_max_def)

end
