(* ===== verification/DeadlineSched.thy ===== *)
theory DeadlineSched imports RunQueue begin

text \<open>
  The earliest-deadline-first backend, \<^verbatim>\<open>kernel/src/sched/deadline.rs\<close>: the run queue ordered by
  absolute deadline, the registered parameters with admission control, and the tasks throttled
  until their next period. Ticks and deadlines are numbers below \<open>2 ^ 64\<close>, budgets and periods
  numbers below \<open>2 ^ 32\<close>, with the code's saturating operations.
\<close>

section \<open>State\<close>

record dl_params =
  dp_budget :: nat
  dp_deadline :: nat
  dp_period :: nat

definition dp_utilization :: "dl_params \<Rightarrow> nat" where
  "dp_utilization p =
     (if dp_period p = 0 then 10000 else sat_mul64 (dp_budget p) 10000 div dp_period p)"

record dl_entry =
  de_id :: task_id
  de_priority :: nat
  de_params :: dl_params
  de_abs_deadline :: nat
  de_budget :: nat
  de_period_start :: nat

definition MAX_UTILIZATION :: nat where "MAX_UTILIZATION = 9500"

record dsched =
  ds_tree :: "(nat \<times> task_id, dl_entry) btree"
  ds_deadlines :: "(task_id, nat) btree"
  ds_params :: "(task_id, dl_params) btree"
  ds_throttled :: "(task_id, nat \<times> nat) btree"
  ds_tick :: nat
  ds_util :: nat
  ds_nr_running :: nat
  ds_slices :: "nat list"
  ds_remaining :: nat
  ds_cur_priority :: nat
  ds_cur_id :: task_id
  ds_cur_is_deadline :: bool
  ds_cur_abs :: nat

definition dl_new_with :: "nat list \<Rightarrow> dsched" where
  "dl_new_with ts = \<lparr>ds_tree = [], ds_deadlines = [], ds_params = [], ds_throttled = [],
     ds_tick = 0, ds_util = 0, ds_nr_running = 0, ds_slices = ts, ds_remaining = 0,
     ds_cur_priority = 0, ds_cur_id = 0, ds_cur_is_deadline = False, ds_cur_abs = 0\<rparr>"

definition dl_new_const :: dsched where
  "dl_new_const = dl_new_with (replicate NUM_PRIORITIES 0)"

definition dl_new :: dsched where
  "dl_new = dl_new_with slices_new"

section \<open>Operations\<close>

definition dl_drop_params :: "task_id \<Rightarrow> dsched \<Rightarrow> dsched" where
  "dl_drop_params i s =
     (case bt_get (ds_params s) i of
        None \<Rightarrow> s
      | Some old \<Rightarrow> s\<lparr>ds_params := bt_remove i (ds_params s),
                      ds_util := ds_util s - dp_utilization old\<rparr>)"

definition dl_register :: "task_id \<Rightarrow> dl_params \<Rightarrow> dsched \<Rightarrow> bool \<times> dsched" where
  "dl_register i p s =
     (if MAX_UTILIZATION < sat_add64 (ds_util s) (dp_utilization p) then (False, s)
      else let s = dl_drop_params i s
           in (True, s\<lparr>ds_params := bt_insert i p (ds_params s),
                       ds_util := sat_add64 (ds_util s) (dp_utilization p)\<rparr>))"

definition dl_unregister :: "task_id \<Rightarrow> dsched \<Rightarrow> dsched" where
  "dl_unregister i s =
     (let s = dl_drop_params i s in s\<lparr>ds_throttled := bt_remove i (ds_throttled s)\<rparr>)"

text \<open>The deadline and budget a task is queued with, and the state after the running task gave its own up.\<close>

definition dl_activation :: "task_id \<Rightarrow> nat \<Rightarrow> dsched \<Rightarrow> (nat \<times> nat) \<times> dsched" where
  "dl_activation i priority s =
     (if ds_cur_id s = i \<and> ds_cur_is_deadline s then
        ((ds_cur_abs s, ds_remaining s), s\<lparr>ds_cur_id := 0, ds_cur_is_deadline := False\<rparr>)
      else case bt_get (ds_params s) i of
             Some p \<Rightarrow> ((sat_add64 (ds_tick s) (dp_deadline p), dp_budget p), s)
           | None \<Rightarrow> let slice = slice_at (level_of priority) (ds_slices s)
                     in ((sat_add64 (ds_tick s) slice, slice), s))"

definition dl_drop_stale :: "task_id \<Rightarrow> dsched \<Rightarrow> dsched" where
  "dl_drop_stale i s =
     (case bt_get (ds_deadlines s) i of
        None \<Rightarrow> s
      | Some d \<Rightarrow> s\<lparr>ds_deadlines := bt_remove i (ds_deadlines s),
                    ds_tree := bt_remove (d, i) (ds_tree s),
                    ds_nr_running := ds_nr_running s - 1\<rparr>)"

definition dl_insert :: "dl_entry \<Rightarrow> dsched \<Rightarrow> dsched" where
  "dl_insert e s =
     s\<lparr>ds_tree := bt_insert (de_abs_deadline e, de_id e) e (ds_tree s),
       ds_deadlines := bt_insert (de_id e) (de_abs_deadline e) (ds_deadlines s),
       ds_nr_running := sat_add32 (ds_nr_running s) 1\<rparr>"

definition dl_enqueue :: "task_id \<Rightarrow> nat \<Rightarrow> dsched \<Rightarrow> dsched" where
  "dl_enqueue i priority s =
     (let s = dl_drop_stale i s;
          ((abs_deadline, budget), s) = dl_activation i priority s;
          rel = (abs_deadline - ds_tick s) mod 2 ^ 32;
          params = (case bt_get (ds_params s) i of
                      Some p \<Rightarrow> p
                    | None \<Rightarrow> \<lparr>dp_budget = budget, dp_deadline = rel, dp_period = rel\<rparr>)
      in dl_insert \<lparr>de_id = i, de_priority = priority, de_params = params,
           de_abs_deadline = abs_deadline, de_budget = budget, de_period_start = ds_tick s\<rparr> s)"

text \<open>At most 32 throttled tasks whose period has come are put back in one call.\<close>

definition dl_due :: "dsched \<Rightarrow> task_id list" where
  "dl_due s = take 32 (map fst (filter (\<lambda>p. snd (snd p) \<le> ds_tick s) (ds_throttled s)))"

definition dl_put_back :: "task_id \<Rightarrow> dsched \<Rightarrow> dsched" where
  "dl_put_back i s = dl_enqueue i 0 (s\<lparr>ds_throttled := bt_remove i (ds_throttled s)\<rparr>)"

definition dl_replenish_throttled :: "dsched \<Rightarrow> dsched" where
  "dl_replenish_throttled s = fold dl_put_back (dl_due s) s"

definition dl_pick_next :: "dsched \<Rightarrow> task_id option \<times> dsched" where
  "dl_pick_next s =
     (let s = dl_replenish_throttled s
      in case ds_tree s of
           [] \<Rightarrow> (None, s)
         | (key, e) # m \<Rightarrow>
             let s = s\<lparr>ds_tree := bt_remove key (ds_tree s),
                       ds_deadlines := bt_remove (de_id e) (ds_deadlines s),
                       ds_nr_running := ds_nr_running s - 1,
                       ds_cur_id := de_id e, ds_cur_priority := de_priority e,
                       ds_cur_is_deadline := (bt_get (ds_params s) (de_id e) \<noteq> None),
                       ds_cur_abs := de_abs_deadline e\<rparr>
             in (Some (de_id e),
                 s\<lparr>ds_remaining := (if ds_cur_is_deadline s then de_budget e
                                    else slice_at (level_of (de_priority e)) (ds_slices s))\<rparr>))"

definition dl_forget_current :: "task_id \<Rightarrow> dsched \<Rightarrow> bool \<times> dsched" where
  "dl_forget_current i s =
     (if ds_cur_id s = i then
        (True, s\<lparr>ds_cur_id := 0, ds_remaining := 0, ds_cur_is_deadline := False\<rparr>)
      else (False, s))"

definition dl_dequeue :: "task_id \<Rightarrow> nat \<Rightarrow> dsched \<Rightarrow> bool \<times> dsched" where
  "dl_dequeue i priority s =
     (case bt_get (ds_deadlines s) i of
        None \<Rightarrow> dl_forget_current i s
      | Some d \<Rightarrow>
          let s = s\<lparr>ds_deadlines := bt_remove i (ds_deadlines s)\<rparr>
          in if bt_get (ds_tree s) (d, i) \<noteq> None then
               (True, s\<lparr>ds_tree := bt_remove (d, i) (ds_tree s), ds_nr_running := ds_nr_running s - 1\<rparr>)
             else dl_forget_current i s)"

definition dl_entries_for :: "task_id \<Rightarrow> dsched \<Rightarrow> nat" where
  "dl_entries_for i s = length (filter (\<lambda>k. snd k = i) (map fst (ds_tree s)))"

text \<open>The running task's budget runs out: a registered task is throttled to its next period.\<close>

definition dl_throttle :: "dsched \<Rightarrow> dsched" where
  "dl_throttle s =
     (if ds_cur_is_deadline s then
        let s' = (case bt_get (ds_params s) (ds_cur_id s) of
                    None \<Rightarrow> s
                  | Some p \<Rightarrow>
                      let next_period = sat_add64 (ds_tick s) (dp_period p);
                          next_deadline = sat_add64 next_period (dp_deadline p)
                      in s\<lparr>ds_throttled :=
                           bt_insert (ds_cur_id s) (next_deadline, next_period) (ds_throttled s)\<rparr>)
        in s'\<lparr>ds_cur_id := 0, ds_cur_is_deadline := False\<rparr>
      else s)"

definition dl_tick :: "dsched \<Rightarrow> bool \<times> dsched" where
  "dl_tick s =
     (let s = s\<lparr>ds_tick := sat_add64 (ds_tick s) 1\<rparr>
      in if ds_cur_id s = 0 then (False, s)
         else let s = (if 0 < ds_remaining s then s\<lparr>ds_remaining := ds_remaining s - 1\<rparr> else s)
              in if ds_remaining s = 0 then (True, dl_throttle s)
                 else (ds_cur_is_deadline s \<and> ds_cur_abs s < ds_tick s, s))"

definition dl_has_ready :: "dsched \<Rightarrow> bool" where
  "dl_has_ready s \<longleftrightarrow> ds_tree s \<noteq> []"

definition dl_has_real_work :: "dsched \<Rightarrow> bool" where
  "dl_has_real_work s \<longleftrightarrow> (\<exists>e \<in> set (bt_values (ds_tree s)). de_priority e \<noteq> IDLE_PRIORITY)"

definition dl_total_tasks :: "dsched \<Rightarrow> nat" where
  "dl_total_tasks s = ds_nr_running s"

definition dl_real_tasks :: "dsched \<Rightarrow> nat" where
  "dl_real_tasks s = length (filter (\<lambda>e. de_priority e \<noteq> IDLE_PRIORITY) (bt_values (ds_tree s)))"

definition dl_throttled_count :: "dsched \<Rightarrow> nat" where
  "dl_throttled_count s = length (ds_throttled s)"

text \<open>A steal passes over the registered tasks, from the latest deadline.\<close>

definition dl_steal_keys :: "nat \<Rightarrow> dsched \<Rightarrow> (nat \<times> task_id) list" where
  "dl_steal_keys want s = take (min want MAX_STEAL)
     (map fst (filter (\<lambda>p. bt_get (ds_params s) (de_id (snd p)) = None) (rev (ds_tree s))))"

definition dl_steal_one :: "nat \<times> task_id \<Rightarrow> stolen \<times> dsched \<Rightarrow> stolen \<times> dsched" where
  "dl_steal_one k = (\<lambda>(st, s).
     case bt_get (ds_tree s) k of
       None \<Rightarrow> (st, s)
     | Some e \<Rightarrow>
         (stolen_push (de_id e) (de_priority e) st,
          s\<lparr>ds_tree := bt_remove k (ds_tree s), ds_deadlines := bt_remove (de_id e) (ds_deadlines s),
            ds_nr_running := ds_nr_running s - 1\<rparr>))"

definition dl_steal :: "nat \<Rightarrow> dsched \<Rightarrow> stolen \<times> dsched" where
  "dl_steal want s =
     (if want = 0 \<or> ds_tree s = [] then ([], s)
      else fold dl_steal_one (dl_steal_keys want s) ([], s))"

definition dl_set_time_slice :: "nat \<Rightarrow> nat \<Rightarrow> dsched \<Rightarrow> bool \<times> dsched" where
  "dl_set_time_slice level ticks s =
     (let (ts, ok) = slices_set level ticks (ds_slices s) in (ok, s\<lparr>ds_slices := ts\<rparr>))"

definition dl_time_slice :: "nat \<Rightarrow> dsched \<Rightarrow> nat option" where
  "dl_time_slice level s = slices_get level (ds_slices s)"

definition dl_reconfigure_slices :: "nat \<Rightarrow> nat \<Rightarrow> dsched \<Rightarrow> bool \<times> dsched" where
  "dl_reconfigure_slices base increment s =
     (let (ts, ok) = slices_reconfigure base increment (ds_slices s) in (ok, s\<lparr>ds_slices := ts\<rparr>))"

definition dl_apply_profile :: "profile \<Rightarrow> dsched \<Rightarrow> dsched" where
  "dl_apply_profile p s = snd (dl_reconfigure_slices (profile_base p) (profile_increment p) s)"

section \<open>The invariant\<close>

text \<open>
  As for the EEVDF queue, the tree and the deadline index represent a map \<open>Q\<close> from tasks to
  entries.
\<close>

definition dl_view ::
  "(task_id \<Rightarrow> dl_entry option) \<Rightarrow> (nat \<times> task_id \<Rightarrow> dl_entry option) \<Rightarrow> (task_id \<Rightarrow> nat option) \<Rightarrow> bool" where
  "dl_view Q T D \<longleftrightarrow> (\<forall>i.
     (\<forall>e. Q i = Some e \<longrightarrow> de_id e = i) \<and>
     D i = map_option de_abs_deadline (Q i) \<and>
     (\<forall>d. T (d, i) = (if D i = Some d then Q i else None)))"

definition dl_rep :: "(task_id \<Rightarrow> dl_entry option) \<Rightarrow> dsched \<Rightarrow> bool" where
  "dl_rep Q s \<longleftrightarrow> bt_ok (ds_tree s) \<and> bt_ok (ds_deadlines s) \<and> bt_ok (ds_throttled s) \<and>
     dl_view Q (bt_get (ds_tree s)) (bt_get (ds_deadlines s)) \<and>
     ds_nr_running s = length (ds_tree s) \<and> length (ds_tree s) \<le> u32_max"

definition dl_inv :: "dsched \<Rightarrow> bool" where
  "dl_inv s \<longleftrightarrow> (\<exists>Q. dl_rep Q s)"

definition dl_tasks :: "dsched \<Rightarrow> task_id multiset" where
  "dl_tasks s = image_mset snd (mset (map fst (ds_tree s)))"

lemma dl_viewD:
  assumes "dl_view Q T D"
  shows "Q i = Some e \<Longrightarrow> de_id e = i" "D i = map_option de_abs_deadline (Q i)"
    "T (d, i) = (if D i = Some d then Q i else None)"
  using assms unfolding dl_view_def by blast+

lemma dl_view_cut:
  assumes v: "dl_view Q T D" and "Q i = Some e" and "de_abs_deadline e = d"
  shows "dl_view (Q(i := None)) (T((d, i) := None)) (D(i := None))"
  unfolding dl_view_def
  by (rule allI, rename_tac j, case_tac "j = i")
    (use assms(2,3) dl_viewD [OF v] in \<open>simp_all, (blast+)?\<close>)

lemma dl_view_add:
  assumes v: "dl_view Q T D" and "Q i = None" and "de_id e = i" and "de_abs_deadline e = d"
  shows "dl_view (Q(i \<mapsto> e)) (T((d, i) \<mapsto> e)) (D(i \<mapsto> d))"
  unfolding dl_view_def
  by (rule allI, rename_tac j, case_tac "j = i")
    (use assms(2-4) dl_viewD [OF v] in \<open>simp_all, (blast+)?\<close>)

lemma dl_new_inv: "dl_inv dl_new"
  by (auto simp: dl_inv_def dl_rep_def dl_view_def dl_new_def dl_new_with_def
      intro!: exI [of _ "\<lambda>i. None"])

lemma dl_rep_tree: "dl_rep Q s \<Longrightarrow>
    bt_get (ds_tree s) (d, i) = Some e \<longleftrightarrow> Q i = Some e \<and> de_abs_deadline e = d"
proof -
  assume "dl_rep Q s"
  then have "dl_view Q (bt_get (ds_tree s)) (bt_get (ds_deadlines s))" by (simp add: dl_rep_def)
  note dl_viewD(2,3) [OF this]
  then show ?thesis by (auto split: if_splits)
qed

lemma dl_rep_deadline: "dl_rep Q s \<Longrightarrow> bt_get (ds_deadlines s) i = map_option de_abs_deadline (Q i)"
  unfolding dl_rep_def using dl_viewD(2) by blast

lemma dl_rep_id: "dl_rep Q s \<Longrightarrow> Q i = Some e \<Longrightarrow> de_id e = i"
  unfolding dl_rep_def using dl_viewD(1) by blast

text \<open>The invariant reads the queue and the throttled tasks only.\<close>

lemma dl_rep_cong:
  "ds_tree s = ds_tree t \<Longrightarrow> ds_deadlines s = ds_deadlines t \<Longrightarrow> bt_ok (ds_throttled s) = bt_ok (ds_throttled t) \<Longrightarrow>
     ds_nr_running s = ds_nr_running t \<Longrightarrow> dl_rep Q s = dl_rep Q t"
  by (simp add: dl_rep_def)

lemma dl_tasks_in: "dl_rep Q s \<Longrightarrow> i \<in># dl_tasks s \<longleftrightarrow> Q i \<noteq> None"
proof -
  assume w: "dl_rep Q s"
  have "i \<in># dl_tasks s \<longleftrightarrow> (\<exists>d. (d, i) \<in> fst ` set (ds_tree s))"
    by (force simp: dl_tasks_def)
  also have "\<dots> \<longleftrightarrow> (\<exists>d e. bt_get (ds_tree s) (d, i) = Some e)"
    by (simp add: bt_in_keys)
  also have "\<dots> \<longleftrightarrow> Q i \<noteq> None"
    using dl_rep_tree [OF w] by auto
  finally show ?thesis .
qed

text \<open>An entry out of the queue.\<close>

definition dl_cut :: "nat \<times> task_id \<Rightarrow> dsched \<Rightarrow> dsched" where
  "dl_cut k s = s\<lparr>ds_tree := bt_remove k (ds_tree s),
     ds_deadlines := bt_remove (snd k) (ds_deadlines s), ds_nr_running := ds_nr_running s - 1\<rparr>"

lemma dl_cut_simps [simp]:
  "ds_tree (dl_cut k s) = bt_remove k (ds_tree s)"
  "ds_throttled (dl_cut k s) = ds_throttled s"
  "ds_params (dl_cut k s) = ds_params s"
  by (simp_all add: dl_cut_def)

lemma dl_rep_cut:
  assumes w: "dl_rep Q s" and q: "Q i = Some e" "de_abs_deadline e = d"
  shows "dl_rep (Q(i := None)) (dl_cut (d, i) s)"
    and "dl_tasks s = add_mset i (dl_tasks (dl_cut (d, i) s))"
proof -
  have ok: "bt_ok (ds_tree s)" and t: "bt_get (ds_tree s) (d, i) = Some e"
    using w q dl_rep_tree [OF w] by (simp_all add: dl_rep_def)
  have "Suc (length (bt_remove (d, i) (ds_tree s))) = length (ds_tree s)"
    by (rule length_bt_remove [OF ok t])
  moreover have "dl_view Q (bt_get (ds_tree s)) (bt_get (ds_deadlines s))"
    using w by (simp add: dl_rep_def)
  note dl_view_cut [OF this q]
  ultimately show "dl_rep (Q(i := None)) (dl_cut (d, i) s)"
    using w by (simp add: dl_rep_def dl_cut_def bt.lookup_remove)
  show "dl_tasks s = add_mset i (dl_tasks (dl_cut (d, i) s))"
    using mset_bt_remove [OF ok t] by (simp add: dl_tasks_def)
qed

lemma dl_rep_insert:
  assumes w: "dl_rep Q s" and new: "Q (de_id e) = None" and room: "length (ds_tree s) < u32_max"
  shows "dl_rep (Q(de_id e \<mapsto> e)) (dl_insert e s)"
    and "dl_tasks (dl_insert e s) = add_mset (de_id e) (dl_tasks s)"
proof -
  have none: "bt_get (ds_tree s) (de_abs_deadline e, de_id e) = None"
    using dl_rep_tree [OF w] new by (metis not_None_eq)
  have "dl_view Q (bt_get (ds_tree s)) (bt_get (ds_deadlines s))"
    using w by (simp add: dl_rep_def)
  note dl_view_add [OF this new refl refl]
  with w none room show "dl_rep (Q(de_id e \<mapsto> e)) (dl_insert e s)"
    by (simp add: dl_rep_def dl_insert_def bt.lookup_insert sat_add32_def)
  show "dl_tasks (dl_insert e s) = add_mset (de_id e) (dl_tasks s)"
    using none by (simp add: dl_tasks_def dl_insert_def mset_bt_insert [unfolded mset_map])
qed

section \<open>Enqueue and dequeue\<close>

lemma dl_drop_stale_eq:
  "dl_rep Q s \<Longrightarrow>
     dl_drop_stale i s = (case Q i of None \<Rightarrow> s | Some e \<Rightarrow> dl_cut (de_abs_deadline e, i) s)"
  by (simp add: dl_drop_stale_def dl_rep_deadline dl_cut_def split: option.splits)

lemma dl_drop_stale_rep:
  assumes w: "dl_rep Q s"
  shows "dl_rep (Q(i := None)) (dl_drop_stale i s)"
    and "dl_tasks (dl_drop_stale i s) = filter_mset (\<lambda>j. j \<noteq> i) (dl_tasks s)"
proof -
  have "dl_rep (Q(i := None)) (dl_drop_stale i s) \<and>
      dl_tasks (dl_drop_stale i s) = filter_mset (\<lambda>j. j \<noteq> i) (dl_tasks s)"
  proof (cases "Q i")
    case None
    then have "Q(i := None) = Q" by auto
    with None w dl_tasks_in [OF w] filter_absent [of i "dl_tasks s"] show ?thesis
      by (simp add: dl_drop_stale_eq [OF w])
  next
    case (Some e)
    note cut = dl_rep_cut [OF w Some refl]
    have "i \<notin># dl_tasks (dl_cut (de_abs_deadline e, i) s)" using dl_tasks_in [OF cut(1)] by simp
    note filter_absent [OF this]
    with cut Some show ?thesis by (simp add: dl_drop_stale_eq [OF w])
  qed
  then show "dl_rep (Q(i := None)) (dl_drop_stale i s)"
    and "dl_tasks (dl_drop_stale i s) = filter_mset (\<lambda>j. j \<noteq> i) (dl_tasks s)" by blast+
qed

lemma dl_size: "size (dl_tasks s) = length (ds_tree s)"
  by (simp add: dl_tasks_def)

lemma dl_activation_rep: "dl_rep Q (snd (dl_activation i p s)) = dl_rep Q s"
  by (rule dl_rep_cong) (simp_all add: dl_activation_def Let_def split: option.splits)

lemma dl_activation_simps [simp]:
  "ds_tree (snd (dl_activation i p s)) = ds_tree s"
  "ds_params (snd (dl_activation i p s)) = ds_params s"
  "ds_throttled (snd (dl_activation i p s)) = ds_throttled s"
  by (simp_all add: dl_activation_def Let_def split: option.splits)

lemma dl_enqueue_shape:
  "\<exists>e. dl_enqueue i p s = dl_insert e (snd (dl_activation i p (dl_drop_stale i s))) \<and> de_id e = i"
  unfolding dl_enqueue_def Let_def case_prod_beta by (rule exI, rule conjI, rule refl) simp

lemma dl_enqueue_spec:
  assumes inv: "dl_inv s" and room: "length (ds_tree s) < u32_max"
  shows "dl_inv (dl_enqueue i p s)"
    and "dl_tasks (dl_enqueue i p s) = add_mset i (filter_mset (\<lambda>j. j \<noteq> i) (dl_tasks s))"
proof -
  from inv obtain Q where w: "dl_rep Q s" by (auto simp: dl_inv_def)
  let ?t = "snd (dl_activation i p (dl_drop_stale i s))"
  note drop = dl_drop_stale_rep [OF w, of i]
  have rep: "dl_rep (Q(i := None)) ?t" using drop(1) by (simp add: dl_activation_rep)
  have tasks: "dl_tasks ?t = filter_mset (\<lambda>j. j \<noteq> i) (dl_tasks s)"
    using drop(2) by (simp add: dl_tasks_def)
  have "size (dl_tasks ?t) \<le> size (dl_tasks s)"
    unfolding tasks by (rule size_mset_mono) simp
  with room have len: "length (ds_tree ?t) < u32_max" by (simp only: dl_size)
  from dl_enqueue_shape obtain e where e: "dl_enqueue i p s = dl_insert e ?t" "de_id e = i"
    by blast
  have new: "(Q(i := None)) (de_id e) = None" using e(2) by simp
  show "dl_inv (dl_enqueue i p s)"
    unfolding e(1) dl_inv_def using dl_rep_insert(1) [OF rep new len] by blast
  show "dl_tasks (dl_enqueue i p s) = add_mset i (filter_mset (\<lambda>j. j \<noteq> i) (dl_tasks s))"
    unfolding e(1) dl_rep_insert(2) [OF rep new len] using e(2) tasks by simp
qed

lemma dl_forget_rep: "dl_rep Q (snd (dl_forget_current i s)) = dl_rep Q s"
  by (rule dl_rep_cong) (simp_all add: dl_forget_current_def)

lemma dl_forget_simps [simp]:
  "ds_tree (snd (dl_forget_current i s)) = ds_tree s"
  "ds_throttled (snd (dl_forget_current i s)) = ds_throttled s"
  "ds_tick (snd (dl_forget_current i s)) = ds_tick s"
  by (simp_all add: dl_forget_current_def)

lemma dl_dequeue_eq:
  assumes w: "dl_rep Q s"
  shows "dl_dequeue i p s =
    (case Q i of None \<Rightarrow> dl_forget_current i s | Some e \<Rightarrow> (True, dl_cut (de_abs_deadline e, i) s))"
  using dl_rep_tree [OF w]
  by (auto simp: dl_dequeue_def dl_rep_deadline [OF w] Let_def dl_cut_def split: option.splits)

lemma dl_dequeue_spec:
  assumes inv: "dl_inv s"
  shows "dl_inv (snd (dl_dequeue i p s))"
    and "dl_tasks (snd (dl_dequeue i p s)) = filter_mset (\<lambda>j. j \<noteq> i) (dl_tasks s)"
    and "ds_throttled (snd (dl_dequeue i p s)) = ds_throttled s"
    and "ds_tick (snd (dl_dequeue i p s)) = ds_tick s"
proof -
  from inv obtain Q where w: "dl_rep Q s" by (auto simp: dl_inv_def)
  note drop = dl_drop_stale_rep [OF w, of i]
  show "dl_inv (snd (dl_dequeue i p s))"
    using drop(1) w by (cases "Q i")
      (auto simp: dl_inv_def dl_dequeue_eq [OF w] dl_drop_stale_eq [OF w] dl_forget_rep)
  show "dl_tasks (snd (dl_dequeue i p s)) = filter_mset (\<lambda>j. j \<noteq> i) (dl_tasks s)"
    using drop(2) by (cases "Q i")
      (auto simp: dl_dequeue_eq [OF w] dl_drop_stale_eq [OF w] dl_tasks_def)
  show "ds_throttled (snd (dl_dequeue i p s)) = ds_throttled s"
    and "ds_tick (snd (dl_dequeue i p s)) = ds_tick s"
    by (auto simp: dl_dequeue_eq [OF w] dl_cut_def split: option.splits)
qed

section \<open>Replenishment and pick\<close>

lemma dl_count_le: "dl_inv s \<Longrightarrow> count (dl_tasks s) i \<le> 1"
proof -
  assume "dl_inv s"
  then obtain Q where w: "dl_rep Q s" by (auto simp: dl_inv_def)
  show ?thesis
  proof (cases "Q i")
    case None
    with dl_tasks_in [OF w, of i] show ?thesis by (simp add: not_in_iff)
  next
    case (Some e)
    note cut = dl_rep_cut [OF w Some refl]
    have "i \<notin># dl_tasks (dl_cut (de_abs_deadline e, i) s)" using dl_tasks_in [OF cut(1)] by simp
    with cut(2) show ?thesis by (simp add: not_in_iff)
  qed
qed

lemma replace_subset: "count M i \<le> 1 \<Longrightarrow> M \<subseteq># add_mset i (filter_mset (\<lambda>j. j \<noteq> i) M)"
  by (auto simp: subseteq_mset_def)

lemma dl_inv_unthrottle: "dl_inv s \<Longrightarrow> dl_inv (s\<lparr>ds_throttled := bt_remove i (ds_throttled s)\<rparr>)"
  by (auto simp: dl_inv_def dl_rep_def)

lemma dl_put_back_spec:
  assumes "dl_inv s" and "length (ds_tree s) < u32_max"
  shows "dl_inv (dl_put_back i s)" and "dl_tasks s \<subseteq># dl_tasks (dl_put_back i s)"
    and "i \<in># dl_tasks (dl_put_back i s)" and "length (ds_tree (dl_put_back i s)) \<le> Suc (length (ds_tree s))"
proof -
  let ?s = "s\<lparr>ds_throttled := bt_remove i (ds_throttled s)\<rparr>"
  have "length (ds_tree ?s) < u32_max" using assms by simp
  note e = dl_enqueue_spec [OF dl_inv_unthrottle [OF assms(1)] this, of i 0]
  have t: "dl_tasks ?s = dl_tasks s" by (simp add: dl_tasks_def)
  show "dl_inv (dl_put_back i s)" using e(1) by (simp add: dl_put_back_def)
  show "dl_tasks s \<subseteq># dl_tasks (dl_put_back i s)"
    unfolding dl_put_back_def e(2) t by (rule replace_subset [OF dl_count_le [OF assms(1)]])
  show "i \<in># dl_tasks (dl_put_back i s)" unfolding dl_put_back_def e(2) by simp
  have "size (filter_mset (\<lambda>j. j \<noteq> i) (dl_tasks s)) \<le> size (dl_tasks s)" by (rule size_mset_mono) simp
  then have "size (dl_tasks (dl_put_back i s)) \<le> Suc (size (dl_tasks s))"
    unfolding dl_put_back_def e(2) t by simp
  then show "length (ds_tree (dl_put_back i s)) \<le> Suc (length (ds_tree s))" by (simp only: dl_size)
qed

lemma dl_put_back_fold:
  "dl_inv s \<Longrightarrow> length (ds_tree s) + length is \<le> u32_max \<Longrightarrow>
     dl_inv (fold dl_put_back is s) \<and> dl_tasks s \<subseteq># dl_tasks (fold dl_put_back is s) \<and>
     set is \<subseteq> set_mset (dl_tasks (fold dl_put_back is s))"
proof (induction "is" arbitrary: s)
  case Nil
  then show ?case by simp
next
  case (Cons i "is")
  have room: "length (ds_tree s) < u32_max" using Cons.prems(2) by simp
  note p = dl_put_back_spec [OF Cons.prems(1) room, of i]
  have "length (ds_tree (dl_put_back i s)) + length is \<le> u32_max" using p(4) Cons.prems(2) by simp
  from Cons.IH [OF p(1) this] have IH: "dl_inv (fold dl_put_back is (dl_put_back i s))"
    "dl_tasks (dl_put_back i s) \<subseteq># dl_tasks (fold dl_put_back is (dl_put_back i s))"
    "set is \<subseteq> set_mset (dl_tasks (fold dl_put_back is (dl_put_back i s)))" by blast+
  moreover have "i \<in># dl_tasks (fold dl_put_back is (dl_put_back i s))"
    using IH(2) p(3) by (meson mset_subset_eqD)
  ultimately show ?case using p(2) by (auto intro: subset_mset.order_trans)
qed

lemma dl_replenish_spec:
  assumes "dl_inv s" and "length (ds_tree s) + 32 \<le> u32_max"
  shows "dl_inv (dl_replenish_throttled s)" and "dl_tasks s \<subseteq># dl_tasks (dl_replenish_throttled s)"
    and "set (dl_due s) \<subseteq> set_mset (dl_tasks (dl_replenish_throttled s))"
proof -
  have "length (dl_due s) \<le> 32" by (simp add: dl_due_def)
  then have "length (ds_tree s) + length (dl_due s) \<le> u32_max" using assms(2) by simp
  from dl_put_back_fold [OF assms(1) this]
  show "dl_inv (dl_replenish_throttled s)" and "dl_tasks s \<subseteq># dl_tasks (dl_replenish_throttled s)"
    and "set (dl_due s) \<subseteq> set_mset (dl_tasks (dl_replenish_throttled s))"
    by (simp_all add: dl_replenish_throttled_def)
qed

lemma dl_pick_cases:
  assumes inv: "dl_inv s" and room: "length (ds_tree s) + 32 \<le> u32_max"
  obtains "dl_tasks (dl_replenish_throttled s) = {#}" and "fst (dl_pick_next s) = None"
    and "snd (dl_pick_next s) = dl_replenish_throttled s"
  | d i e m s' where "dl_pick_next s = (Some i, s')" and "dl_inv s'"
    and "dl_tasks (dl_replenish_throttled s) = add_mset i (dl_tasks s')"
    and "ds_tree (dl_replenish_throttled s) = ((d, i), e) # m"
proof -
  let ?r = "dl_replenish_throttled s"
  note r = dl_replenish_spec [OF inv room]
  show ?thesis
  proof (cases "ds_tree ?r")
    case Nil
    then have "dl_pick_next s = (None, ?r)" by (simp add: dl_pick_next_def Let_def)
    with Nil that(1) show ?thesis by (simp add: dl_tasks_def)
  next
    case (Cons p m)
    obtain d i e where p: "p = ((d, i), e)" by (metis surj_pair)
    from r(1) obtain Q where w: "dl_rep Q ?r" by (auto simp: dl_inv_def)
    have "bt_get (ds_tree ?r) (d, i) = Some e" using Cons p by simp
    then have q: "Q i = Some e" "de_abs_deadline e = d" using dl_rep_tree [OF w] by simp_all
    have fst: "fst (dl_pick_next s) = Some i"
      using dl_rep_id [OF w q(1)] by (simp add: dl_pick_next_def Let_def Cons p)
    have rep: "dl_rep (Q(i := None)) (snd (dl_pick_next s))"
      using dl_rep_cut(1) [OF w q] dl_rep_id [OF w q(1)]
      by (subst dl_rep_cong [of _ "dl_cut (d, i) ?r"])
        (simp_all add: dl_pick_next_def Let_def Cons p dl_cut_def)
    have tasks: "dl_tasks (snd (dl_pick_next s)) = dl_tasks (dl_cut (d, i) ?r)"
      by (simp add: dl_pick_next_def Let_def Cons p dl_cut_def dl_tasks_def)
    show ?thesis
    proof (rule that(2))
      show "dl_pick_next s = (Some i, snd (dl_pick_next s))" using fst by (metis prod.collapse)
      show "dl_inv (snd (dl_pick_next s))" using rep by (auto simp: dl_inv_def)
      show "dl_tasks ?r = add_mset i (dl_tasks (snd (dl_pick_next s)))"
        using dl_rep_cut(2) [OF w q] tasks by simp
      show "ds_tree ?r = ((d, i), e) # m" using Cons p by simp
    qed
  qed
qed

section \<open>Steal and tick\<close>

lemma dl_steal_one_eq:
  assumes w: "dl_rep Q s" and q: "Q i = Some e" "de_abs_deadline e = d" and "length st < MAX_STEAL"
  shows "dl_steal_one (d, i) (st, s) = (st @ [(i, de_priority e)], dl_cut (d, i) s)"
proof -
  have "bt_get (ds_tree s) (d, i) = Some e" using dl_rep_tree [OF w] q by simp
  with assms dl_rep_id [OF w q(1)] show ?thesis
    by (simp add: dl_steal_one_def dl_cut_def stolen_push_def)
qed

lemma dl_steal_fold:
  assumes "dl_rep Q s" and "distinct ks" and "\<forall>k \<in> set ks. bt_get (ds_tree s) k \<noteq> None"
    and "length st + length ks \<le> MAX_STEAL"
  shows "\<exists>st' s' Q'. fold dl_steal_one ks (st, s) = (st', s') \<and> dl_rep Q' s' \<and>
    mset (map fst st') + dl_tasks s' = mset (map fst st) + dl_tasks s \<and> length st' = length st + length ks"
  using assms
proof (induction ks arbitrary: st s Q)
  case Nil
  then show ?case by auto
next
  case (Cons k ks)
  obtain d i where k: "k = (d, i)" by (cases k)
  with Cons.prems dl_rep_tree [OF Cons.prems(1)] obtain e where e: "Q i = Some e" "de_abs_deadline e = d"
    by auto
  note cut = dl_rep_cut [OF Cons.prems(1) e]
  let ?s = "dl_cut (d, i) s" and ?st = "st @ [(i, de_priority e)]"
  have "distinct ks" "\<forall>k \<in> set ks. bt_get (ds_tree ?s) k \<noteq> None" "length ?st + length ks \<le> MAX_STEAL"
    using Cons.prems(2,3,4) k by auto
  from Cons.IH [OF cut(1) this]
  obtain st' s' Q' where IH: "fold dl_steal_one ks (?st, ?s) = (st', s')" "dl_rep Q' s'"
    "mset (map fst st') + dl_tasks s' = mset (map fst ?st) + dl_tasks ?s"
    "length st' = length ?st + length ks" by blast
  have "fold dl_steal_one (k # ks) (st, s) = (st', s')"
    using IH(1) dl_steal_one_eq [OF Cons.prems(1) e] Cons.prems(4) k by simp
  with IH(2,3,4) cut(2) show ?case by auto
qed

lemma dl_steal_spec:
  assumes inv: "dl_inv s"
  obtains st s' where "dl_steal n s = (st, s')" and "dl_inv s'"
    and "dl_tasks s = mset (map fst st) + dl_tasks s'" and "length st = (if n = 0 then 0 else length (dl_steal_keys n s))"
proof (cases "n = 0 \<or> ds_tree s = []")
  case True
  with inv that [of "[]" s] show ?thesis by (auto simp: dl_steal_def dl_steal_keys_def)
next
  case False
  from inv obtain Q where w: "dl_rep Q s" by (auto simp: dl_inv_def)
  let ?ks = "dl_steal_keys n s"
  have "distinct (map fst (ds_tree s))" using w by (simp add: dl_rep_def bt_ok_def strict_sorted_iff)
  then have "distinct (map fst (filter P (rev (ds_tree s))))" for P
    by (simp add: distinct_map_filter rev_map [symmetric])
  then have dist: "distinct ?ks" by (simp add: dl_steal_keys_def)
  have mem: "\<forall>k \<in> set ?ks. bt_get (ds_tree s) k \<noteq> None"
  proof
    fix k assume "k \<in> set ?ks"
    then have "k \<in> fst ` set (ds_tree s)"
      by (force simp: dl_steal_keys_def dest!: in_set_takeD)
    then show "bt_get (ds_tree s) k \<noteq> None" by (rule bt_in_keys [THEN iffD1])
  qed
  have "length [] + length ?ks \<le> MAX_STEAL" by (simp add: dl_steal_keys_def)
  from dl_steal_fold [OF w dist mem this]
  obtain st t Q' where f: "fold dl_steal_one ?ks ([], s) = (st, t)" "dl_rep Q' t"
    "mset (map fst st) + dl_tasks t = dl_tasks s" "length st = length ?ks" by auto
  moreover have "dl_steal n s = (st, t)" using False f(1) by (simp add: dl_steal_def)
  ultimately show ?thesis using False by (intro that [of st t]) (auto simp: dl_inv_def)
qed

text \<open>A steal takes no registered task, and registers or unregisters none.\<close>

lemma dl_steal_fold_ids:
  assumes "dl_rep Q s" and "distinct ks" and "\<forall>k \<in> set ks. bt_get (ds_tree s) k \<noteq> None"
    and "length st + length ks \<le> MAX_STEAL"
  shows "map fst (fst (fold dl_steal_one ks (st, s))) = map fst st @ map snd ks
    \<and> ds_params (snd (fold dl_steal_one ks (st, s))) = ds_params s"
  using assms
proof (induction ks arbitrary: st s Q)
  case (Cons k ks)
  obtain d i where k: "k = (d, i)" by (cases k)
  with Cons.prems dl_rep_tree [OF Cons.prems(1)] obtain e where e: "Q i = Some e" "de_abs_deadline e = d"
    by auto
  let ?s = "dl_cut (d, i) s" and ?st = "st @ [(i, de_priority e)]"
  have "distinct ks" "\<forall>k \<in> set ks. bt_get (ds_tree ?s) k \<noteq> None" "length ?st + length ks \<le> MAX_STEAL"
    using Cons.prems(2,3,4) k by auto
  from Cons.IH [OF dl_rep_cut(1) [OF Cons.prems(1) e] this] show ?case
    using dl_steal_one_eq [OF Cons.prems(1) e] Cons.prems(4) k by (simp add: dl_cut_def)
qed simp

lemma dl_steal_spares_registered:
  assumes inv: "dl_inv s"
  shows "ds_params (snd (dl_steal n s)) = ds_params s"
    and "i \<in> set (map fst (fst (dl_steal n s))) \<Longrightarrow> bt_get (ds_params s) i = None"
proof -
  from inv obtain Q where w: "dl_rep Q s" by (auto simp: dl_inv_def)
  let ?ks = "dl_steal_keys n s"
  have "distinct (map fst (ds_tree s))" using w by (simp add: dl_rep_def bt_ok_def strict_sorted_iff)
  then have "distinct (map fst (filter P (rev (ds_tree s))))" for P
    by (simp add: distinct_map_filter rev_map [symmetric])
  then have dist: "distinct ?ks" by (simp add: dl_steal_keys_def)
  have key: "\<exists>e. bt_get (ds_tree s) k = Some e \<and> bt_get (ds_params s) (snd k) = None" if in_ks: "k \<in> set ?ks" for k
  proof -
    obtain e where e: "(k, e) \<in> set (ds_tree s)" "bt_get (ds_params s) (de_id e) = None"
      using in_ks by (force simp: dl_steal_keys_def dest!: in_set_takeD)
    have get: "bt_get (ds_tree s) k = Some e"
      using e(1) w by (simp add: dl_rep_def bt_ok_def strict_sorted_iff bt_get_def)
    obtain d i where k: "k = (d, i)" by (cases k)
    have "Q i = Some e" using get dl_rep_tree [OF w] k by (auto split: if_splits)
    then have "de_id e = i" by (rule dl_rep_id [OF w])
    with e(2) get k show ?thesis by simp
  qed
  then have mem: "\<forall>k \<in> set ?ks. bt_get (ds_tree s) k \<noteq> None" by fastforce
  have "length [] + length ?ks \<le> MAX_STEAL" by (simp add: dl_steal_keys_def)
  note ids = dl_steal_fold_ids [OF w dist mem this]
  show "ds_params (snd (dl_steal n s)) = ds_params s" using ids by (simp add: dl_steal_def)
  show "bt_get (ds_params s) i = None" if "i \<in> set (map fst (fst (dl_steal n s)))"
  proof -
    have some: "\<not> (n = 0 \<or> ds_tree s = [])"
    proof
      assume "n = 0 \<or> ds_tree s = []"
      then have "dl_steal n s = ([], s)" unfolding dl_steal_def by (rule if_P)
      with that show False by simp
    qed
    then have "dl_steal n s = fold dl_steal_one ?ks ([], s)" unfolding dl_steal_def by (rule if_not_P)
    with that have "i \<in> set (map fst (fst (fold dl_steal_one ?ks ([], s))))" by (simp only:)
    then have "i \<in> set (map snd ?ks)" by (simp only: conjunct1 [OF ids] list.map append_Nil)
    then obtain k where k: "i = snd k" "k \<in> set ?ks" unfolding set_map by (rule imageE)
    from key [OF k(2)] show ?thesis unfolding k(1) by (elim exE conjE)
  qed
qed

lemma dl_tick_spec: "dl_inv s \<Longrightarrow> dl_inv (snd (dl_tick s)) \<and> dl_tasks (snd (dl_tick s)) = dl_tasks s"
proof -
  assume "dl_inv s"
  then obtain Q where w: "dl_rep Q s" by (auto simp: dl_inv_def)
  have "ds_tree (snd (dl_tick s)) = ds_tree s" "ds_deadlines (snd (dl_tick s)) = ds_deadlines s"
    "ds_nr_running (snd (dl_tick s)) = ds_nr_running s"
    by (simp_all add: dl_tick_def dl_throttle_def Let_def split: option.splits)
  moreover have "bt_ok (ds_throttled (snd (dl_tick s)))"
    using w by (simp add: dl_tick_def dl_throttle_def Let_def dl_rep_def split: option.splits)
  ultimately have "dl_rep Q (snd (dl_tick s))"
    using w by (subst dl_rep_cong [of _ s]) (simp_all add: dl_rep_def)
  with \<open>ds_tree (snd (dl_tick s)) = ds_tree s\<close> show ?thesis by (auto simp: dl_inv_def dl_tasks_def)
qed

section \<open>The contract\<close>

lemma dl_total: "dl_inv s \<Longrightarrow> dl_total_tasks s = length (ds_tree s)"
  by (auto simp: dl_inv_def dl_rep_def dl_total_tasks_def)

text \<open>
  The contract without its exact part: a pick may put throttled tasks back.
\<close>

interpretation dlq: run_queue dl_inv dl_tasks dl_enqueue dl_dequeue dl_pick_next dl_steal dl_tick dl_total_tasks
proof unfold_locales
  fix s i p assume a: "dl_inv s" "dl_total_tasks s < u32_max"
  then have room: "length (ds_tree s) < u32_max" using dl_total by metis
  note e = dl_enqueue_spec [OF a(1) room, of i p]
  show "dl_inv (dl_enqueue i p s)" by (rule e)
  show "set_mset (dl_tasks (dl_enqueue i p s)) = insert i (set_mset (dl_tasks s))"
    by (auto simp: e(2))
  show "size (dl_tasks (dl_enqueue i p s)) \<le> Suc (size (dl_tasks s))"
    unfolding e(2) by (simp add: size_mset_mono)
  show "dl_tasks (dl_enqueue i p s) = add_mset i (dl_tasks s)" if "i \<notin># dl_tasks s"
    by (simp add: e(2) filter_absent [OF that])
next
  fix s i p assume "dl_inv s"
  then show "dl_inv (snd (dl_dequeue i p s))"
    and "dl_tasks (snd (dl_dequeue i p s)) = filter_mset (\<lambda>j. j \<noteq> i) (dl_tasks s)"
    by (rule dl_dequeue_spec)+
next
  fix s n assume inv: "dl_inv s"
  show "dl_inv (snd (dl_steal n s))" by (rule dl_steal_spec [OF inv, of n]) simp
  show "dl_tasks s = mset (map fst (fst (dl_steal n s))) + dl_tasks (snd (dl_steal n s))"
    by (rule dl_steal_spec [OF inv, of n]) simp
  show "length (fst (dl_steal n s)) \<le> min n MAX_STEAL"
    by (rule dl_steal_spec [OF inv, of n]) (auto simp: dl_steal_keys_def)
next
  fix s assume "dl_inv s"
  then show "dl_inv (snd (dl_tick s))" and "dl_tasks (snd (dl_tick s)) = dl_tasks s"
    and "dl_total_tasks s = size (dl_tasks s)"
    using dl_tick_spec dl_total by (simp_all add: dl_size)
next
  fix s assume a: "dl_inv s" "dl_total_tasks s + 32 \<le> u32_max"
  then have room: "length (ds_tree s) + 32 \<le> u32_max" using dl_total by metis
  note r = dl_replenish_spec [OF a(1) room]
  show "dl_inv (snd (dl_pick_next s))"
    by (rule dl_pick_cases [OF a(1) room]) (simp_all add: r(1))
  show "dl_tasks s = {#}" if none: "fst (dl_pick_next s) = None"
    by (rule dl_pick_cases [OF a(1) room]; use r(2) none in simp)
  show "dl_tasks s \<subseteq># add_mset i (dl_tasks (snd (dl_pick_next s)))" if some: "fst (dl_pick_next s) = Some i" for i
    by (rule dl_pick_cases [OF a(1) room]; use r(2) some in simp)
qed

section \<open>Admission control\<close>

definition dl_load :: "(task_id, dl_params) btree \<Rightarrow> nat" where
  "dl_load m = sum_list (map dp_utilization (bt_values m))"

lemma dl_load_insert: "bt_get m i = None \<Longrightarrow> dl_load (bt_insert i p m) = dp_utilization p + dl_load m"
  by (induction m) (auto simp: dl_load_def bt_values_def bt_get_def split: if_splits)

lemma dl_load_remove: "bt_ok m \<Longrightarrow> bt_get m i = Some p \<Longrightarrow>
    dl_load m = dp_utilization p + dl_load (bt_remove i m)"
proof (induction m)
  case Nil
  then show ?case by simp
next
  case (Cons x m)
  show ?case
  proof (cases "fst x = i")
    case True
    with Cons.prems(2) bt_remove_front [OF Cons.prems(1)] show ?thesis
      by (cases x) (auto simp: dl_load_def bt_values_def bt_get_def)
  next
    case False
    with Cons show ?thesis
      by (cases x) (auto simp: dl_load_def bt_values_def bt_get_def bt_remove_def dest: bt_ok_tail)
  qed
qed

definition dl_admitted :: "dsched \<Rightarrow> bool" where
  "dl_admitted s \<longleftrightarrow> bt_ok (ds_params s) \<and> ds_util s = dl_load (ds_params s) \<and>
     ds_util s \<le> MAX_UTILIZATION"

lemma dl_drop_params_load:
  assumes "dl_admitted s"
  shows "dl_admitted (dl_drop_params i s)" and "bt_get (ds_params (dl_drop_params i s)) i = None"
    and "ds_util (dl_drop_params i s) \<le> ds_util s"
proof -
  have "dl_admitted (dl_drop_params i s) \<and> bt_get (ds_params (dl_drop_params i s)) i = None \<and>
      ds_util (dl_drop_params i s) \<le> ds_util s"
  proof (cases "bt_get (ds_params s) i")
    case None
    with assms show ?thesis by (simp add: dl_drop_params_def)
  next
    case (Some p)
    with assms dl_load_remove [of "ds_params s" i p] show ?thesis
      by (simp add: dl_drop_params_def dl_admitted_def)
  qed
  then show "dl_admitted (dl_drop_params i s)" and "bt_get (ds_params (dl_drop_params i s)) i = None"
    and "ds_util (dl_drop_params i s) \<le> ds_util s" by blast+
qed

lemma dl_register_admitted: "dl_admitted s \<Longrightarrow> dl_admitted (snd (dl_register i p s))"
proof -
  assume a: "dl_admitted s"
  let ?u = "dp_utilization p"
  show ?thesis
  proof (cases "MAX_UTILIZATION < sat_add64 (ds_util s) ?u")
    case True
    with a show ?thesis by (simp add: dl_register_def)
  next
    case False
    note d = dl_drop_params_load [OF a, of i]
    have "ds_util s + ?u \<le> MAX_UTILIZATION"
      using False by (simp add: sat_add64_def MAX_UTILIZATION_def u64_max_def split: if_splits)
    with d(3) have le: "ds_util (dl_drop_params i s) + ?u \<le> MAX_UTILIZATION" by simp
    then have "sat_add64 (ds_util (dl_drop_params i s)) ?u = ds_util (dl_drop_params i s) + ?u"
      by (intro sat_add64_exact) (simp add: MAX_UTILIZATION_def u64_max_def)
    with False d(1,2) le show ?thesis
      by (simp add: dl_register_def Let_def dl_admitted_def dl_load_insert)
  qed
qed

lemma dl_admitted_cong:
  "ds_params s = ds_params t \<Longrightarrow> ds_util s = ds_util t \<Longrightarrow> dl_admitted s = dl_admitted t"
  by (simp add: dl_admitted_def)

lemma dl_frame_enqueue [simp]:
  "ds_params (dl_enqueue i p s) = ds_params s" "ds_util (dl_enqueue i p s) = ds_util s"
  by (simp_all add: dl_enqueue_def dl_insert_def dl_activation_def dl_drop_stale_def Let_def case_prod_beta
      split: option.splits)

lemma dl_frame_put_back:
  "ds_params (fold dl_put_back is s) = ds_params s \<and> ds_util (fold dl_put_back is s) = ds_util s"
  by (induction "is" arbitrary: s) (simp_all add: dl_put_back_def)

lemma dl_frame_pick:
  "ds_params (snd (dl_pick_next s)) = ds_params s \<and> ds_util (snd (dl_pick_next s)) = ds_util s"
  using dl_frame_put_back [of "dl_due s" s]
  by (simp add: dl_pick_next_def dl_replenish_throttled_def Let_def split: list.splits prod.splits)

lemma dl_frame_steal:
  "ds_params (snd (fold dl_steal_one ks (st, s))) = ds_params s \<and>
     ds_util (snd (fold dl_steal_one ks (st, s))) = ds_util s"
  by (induction ks arbitrary: st s) (simp_all add: dl_steal_one_def split: option.splits)

text \<open>The events of this backend: a run queue's, and registration.\<close>

datatype dl_event = DlQueue rq_event | DlRegister task_id dl_params | DlUnregister task_id

abbreviation dl_step :: "rq_event \<Rightarrow> dsched \<Rightarrow> dsched" where
  "dl_step \<equiv> rq_step dl_enqueue dl_dequeue dl_pick_next dl_steal dl_tick"

fun dl_full_step :: "dl_event \<Rightarrow> dsched \<Rightarrow> dsched" where
  "dl_full_step (DlQueue e) s = dl_step e s"
| "dl_full_step (DlRegister i p) s = snd (dl_register i p s)"
| "dl_full_step (DlUnregister i) s = dl_unregister i s"

lemma dl_frame_step: "ds_params (dl_step e s) = ds_params s \<and> ds_util (dl_step e s) = ds_util s"
proof (cases e)
  case RqPick
  then show ?thesis by (simp add: dl_frame_pick)
next
  case (RqSteal n)
  then show ?thesis by (simp add: dl_steal_def dl_frame_steal)
qed (simp_all add: dl_dequeue_def dl_forget_current_def dl_tick_def dl_throttle_def Let_def
    split: option.splits)

lemma dl_admitted_step: "dl_admitted s \<Longrightarrow> dl_admitted (dl_full_step e s)"
proof (cases e)
  case (DlQueue q)
  moreover assume "dl_admitted s"
  ultimately show ?thesis using dl_frame_step dl_admitted_cong by (metis dl_full_step.simps(1))
next
  case (DlUnregister i)
  moreover assume "dl_admitted s"
  ultimately show ?thesis using dl_drop_params_load(1) [of s i]
    by (simp add: dl_unregister_def Let_def dl_admitted_def)
qed (simp add: dl_register_admitted)

interpretation dlm: machine dl_full_step dl_admitted
  by unfold_locales (rule dl_admitted_step)

text \<open>
  C25: whatever is registered, unregistered, queued and run, the recorded utilization is the sum
  over the registered tasks and never exceeds 95 per cent.
\<close>

theorem dl_utilization_bounded:
  "ds_util (fold dl_full_step es dl_new) = dl_load (ds_params (fold dl_full_step es dl_new))
   \<and> ds_util (fold dl_full_step es dl_new) \<le> MAX_UTILIZATION"
proof -
  have "dl_admitted dl_new" by (simp add: dl_admitted_def dl_new_def dl_new_with_def dl_load_def bt_values_def)
  then have "dl_admitted (fold dl_full_step es dl_new)" by (rule dlm.inv_run)
  then show ?thesis by (simp add: dl_admitted_def)
qed

section \<open>Removal and throttling\<close>

lemma dl_register_inv: "dl_inv s \<Longrightarrow> dl_inv (snd (dl_register i p s))"
proof -
  assume "dl_inv s"
  then obtain Q where "dl_rep Q s" by (auto simp: dl_inv_def)
  moreover have "dl_rep Q (snd (dl_register i p s)) = dl_rep Q s"
    by (rule dl_rep_cong) (simp_all add: dl_register_def dl_drop_params_def Let_def split: option.splits)
  ultimately show ?thesis by (auto simp: dl_inv_def)
qed

text \<open>A task of budget 1 running in its period of 2 ticks, and the queue three ticks later.\<close>

definition dl_running :: dsched where
  "dl_running = snd (dl_pick_next (dl_enqueue 5 0
     (snd (dl_register 5 \<lparr>dp_budget = 1, dp_deadline = 5, dp_period = 2\<rparr> dl_new))))"

definition dl_waited :: dsched where
  "dl_waited = snd (dl_tick (snd (dl_tick (snd (dl_tick dl_running)))))"

lemmas dl_eval = dl_new_def dl_new_with_def dl_register_def dl_drop_params_def dl_enqueue_def
  dl_drop_stale_def dl_activation_def dl_insert_def dl_pick_next_def dl_replenish_throttled_def dl_due_def
  dp_utilization_def MAX_UTILIZATION_def sat_add64_def sat_mul64_def sat_add32_def u64_max_def u32_max_def
  Let_def bt_get_def bt_remove_def dl_tick_def dl_throttle_def

lemma dl_running_eq: "dl_running = \<lparr>ds_tree = [], ds_deadlines = [],
    ds_params = [(5, \<lparr>dp_budget = 1, dp_deadline = 5, dp_period = 2\<rparr>)], ds_throttled = [],
    ds_tick = 0, ds_util = 5000, ds_nr_running = 0, ds_slices = slices_new, ds_remaining = 1,
    ds_cur_priority = 0, ds_cur_id = 5, ds_cur_is_deadline = True, ds_cur_abs = 5\<rparr>"
  by (simp add: dl_running_def dl_eval)

lemma dl_waited_eq: "dl_waited = \<lparr>ds_tree = [], ds_deadlines = [],
    ds_params = [(5, \<lparr>dp_budget = 1, dp_deadline = 5, dp_period = 2\<rparr>)], ds_throttled = [(5, 8, 3)],
    ds_tick = 3, ds_util = 5000, ds_nr_running = 0, ds_slices = slices_new, ds_remaining = 0,
    ds_cur_priority = 0, ds_cur_id = 0, ds_cur_is_deadline = False, ds_cur_abs = 5\<rparr>"
  by (simp add: dl_waited_def dl_running_eq dl_eval)

lemma dl_running_inv: "dl_inv dl_running"
proof -
  have "dl_inv (snd (dl_register 5 \<lparr>dp_budget = 1, dp_deadline = 5, dp_period = 2\<rparr> dl_new))"
    by (rule dl_register_inv [OF dl_new_inv])
  then have "dl_inv (dl_enqueue 5 0 (snd (dl_register 5 \<lparr>dp_budget = 1, dp_deadline = 5, dp_period = 2\<rparr> dl_new)))"
    by (rule dlq.inv_enq) (simp add: dl_total_tasks_def dl_eval)
  then show ?thesis
    unfolding dl_running_def by (rule dlq.inv_pick) (simp add: dl_total_tasks_def dl_eval)
qed

lemma dl_waited_inv: "dl_inv dl_waited"
  unfolding dl_waited_def by (intro dlq.inv_tick dl_running_inv)

text \<open>
  C36: Taking a throttled task off this backend's queue does not keep it off. If its period has
  come, at most 32 tasks are throttled (a pick puts no more than 32 back, so with more it may have
  to wait for a later pick) and the 32-bit task counter has room for 32 more, the next pick hands it
  out or leaves it queued, though nothing enqueued it, since the removal does not look at the
  throttled tasks.
\<close>

theorem dl_removed_task_returns:
  assumes "dl_inv s" and "dl_total_tasks s + 32 \<le> u32_max"
    and "bt_get (ds_throttled s) i = Some (d, next)" and "next \<le> ds_tick s" and "length (ds_throttled s) \<le> 32"
  shows "fst (dl_pick_next (snd (dl_dequeue i p s))) = Some i
    \<or> i \<in># dl_tasks (snd (dl_pick_next (snd (dl_dequeue i p s))))"
proof -
  let ?s = "snd (dl_dequeue i p s)"
  note deq = dl_dequeue_spec [OF assms(1), of i p]
  have "size (dl_tasks ?s) \<le> size (dl_tasks s)"
    unfolding deq(2) by (rule size_mset_mono) simp
  then have room: "length (ds_tree ?s) + 32 \<le> u32_max"
    using assms(2) dl_total [OF assms(1)] by (simp add: dl_size)
  have "(i, (d, next)) \<in> set (ds_throttled s)"
    using assms(3) by (auto simp: bt_get_def dest: map_of_SomeD)
  then have "i \<in> set (map fst (filter (\<lambda>p. snd (snd p) \<le> ds_tick s) (ds_throttled s)))"
    using assms(4) by force
  moreover have "length (filter (\<lambda>p. snd (snd p) \<le> ds_tick s) (ds_throttled s)) \<le> 32"
    using assms(5) by (meson length_filter_le order_trans)
  ultimately have "i \<in> set (dl_due ?s)"
    by (simp add: dl_due_def deq(3,4))
  then have "i \<in># dl_tasks (dl_replenish_throttled ?s)"
    using dl_replenish_spec(3) [OF deq(1) room] by blast
  then show ?thesis
    by (rule_tac dl_pick_cases [OF deq(1) room]) auto
qed

theorem dl_removed_task_returns_witness:
  "bt_get (ds_throttled dl_waited) 5 = Some (8, 3) \<and>
   (fst (dl_pick_next (snd (dl_dequeue 5 0 dl_waited))) = Some 5
    \<or> 5 \<in># dl_tasks (snd (dl_pick_next (snd (dl_dequeue 5 0 dl_waited)))))"
proof -
  have "bt_get (ds_throttled dl_waited) 5 = Some (8, 3)" "3 \<le> ds_tick dl_waited"
    "length (ds_throttled dl_waited) \<le> 32" "dl_total_tasks dl_waited + 32 \<le> u32_max"
    by (simp_all add: dl_waited_eq bt_get_def dl_total_tasks_def u32_max_def)
  with dl_removed_task_returns [OF dl_waited_inv] show ?thesis by blast
qed

text \<open>
  throttling does not outlast the tick. When the running task's budget runs out, the tick
  throttles it and asks for a reschedule; the reschedule enqueues the running task, and it is back
  on the queue at once with its whole budget and a fresh deadline.
\<close>

theorem dl_throttle_undone:
  assumes "dl_inv s" and "dl_total_tasks s < u32_max"
    and "ds_cur_id s = i" and "i \<noteq> 0" and "ds_cur_is_deadline s" and "ds_remaining s \<le> 1"
    and "bt_get (ds_params s) i = Some p"
  shows "fst (dl_tick s) \<and> bt_get (ds_throttled (snd (dl_tick s))) i \<noteq> None
    \<and> (\<exists>e. bt_get (ds_tree (dl_enqueue i q (snd (dl_tick s))))
            (sat_add64 (sat_add64 (ds_tick s) 1) (dp_deadline p), i) = Some e \<and> de_budget e = dp_budget p)"
proof -
  from assms(1) obtain Q where w: "dl_rep Q s" by (auto simp: dl_inv_def)
  have thr: "bt_ok (ds_throttled s)" using w by (simp add: dl_rep_def)
  let ?t = "snd (dl_tick s)"
  have t: "fst (dl_tick s)" "bt_get (ds_throttled ?t) i \<noteq> None" "ds_cur_id ?t = 0"
    "\<not> ds_cur_is_deadline ?t" "ds_params ?t = ds_params s" "ds_tick ?t = sat_add64 (ds_tick s) 1"
    using assms(3-7) thr by (simp_all add: dl_tick_def dl_throttle_def Let_def)
  have "dl_inv ?t" "dl_tasks ?t = dl_tasks s" using dl_tick_spec [OF assms(1)] by simp_all
  then obtain Q' where w': "dl_rep Q' ?t" by (auto simp: dl_inv_def)
  let ?d = "dl_drop_stale i ?t"
  have d: "bt_ok (ds_tree ?d)" "ds_cur_is_deadline ?d = ds_cur_is_deadline ?t" "ds_params ?d = ds_params s"
    "ds_tick ?d = sat_add64 (ds_tick s) 1"
    using dl_drop_stale_rep(1) [OF w', of i] t(5,6)
    by (simp_all add: dl_rep_def) (simp_all add: dl_drop_stale_def split: option.splits)
  have act: "dl_activation i q ?d = ((sat_add64 (sat_add64 (ds_tick s) 1) (dp_deadline p), dp_budget p), ?d)"
    using t(4) d assms(7) by (simp add: dl_activation_def)
  show ?thesis
    using t(1,2) d(1) by (simp add: dl_enqueue_def Let_def act dl_insert_def)
qed

theorem dl_throttle_undone_witness:
  "dl_inv dl_running \<and> fst (dl_tick dl_running) \<and>
   (\<exists>e. bt_get (ds_tree (dl_enqueue 5 0 (snd (dl_tick dl_running)))) (6, 5) = Some e \<and> de_budget e = 1)"
proof -
  have a: "dl_total_tasks dl_running < u32_max" "ds_cur_id dl_running = 5" "(5::nat) \<noteq> 0"
    "ds_cur_is_deadline dl_running" "ds_remaining dl_running \<le> 1"
    "bt_get (ds_params dl_running) 5 = Some \<lparr>dp_budget = 1, dp_deadline = 5, dp_period = 2\<rparr>"
    by (simp_all add: dl_running_eq dl_total_tasks_def u32_max_def bt_get_def)
  have "sat_add64 (sat_add64 (ds_tick dl_running) 1) 5 = 6"
    by (simp add: dl_running_eq sat_add64_def u64_max_def)
  with dl_throttle_undone [OF dl_running_inv a, of 0] dl_running_inv show ?thesis by simp
qed

end
