(* ===== verification/SchedCpu.thy ===== *)
theory SchedCpu imports PriorityRR Eevdf DeadlineSched begin

text \<open>
  The scheduler backend enum, \<^verbatim>\<open>kernel/src/sched/backend.rs\<close>, and the per-CPU scheduler with work
  stealing, \<^verbatim>\<open>PerCpuScheduler\<close> of \<^verbatim>\<open>kernel/src/sched/priority_rr.rs\<close>. Each operation runs under the
  lock of the queue it works on; where the code only tries a lock, whether it gets it is an
  argument. The enum keeps the run-queue contract because each of its variants does.
\<close>

section \<open>The backend enum\<close>

definition BACKEND_PRIORITY_RR :: nat where "BACKEND_PRIORITY_RR = 0"
definition BACKEND_EEVDF :: nat where "BACKEND_EEVDF = 1"
definition BACKEND_DEADLINE :: nat where "BACKEND_DEADLINE = 2"

lemmas backend_ids = BACKEND_PRIORITY_RR_def BACKEND_EEVDF_def BACKEND_DEADLINE_def

datatype (plugins only: code size) backend = PriorityRR rr | Eevdf eevdf | Deadline dsched

text \<open>The two statics: the backend the next initialisation uses, and the one that runs.\<close>

record backend_choice =
  desired_backend :: nat
  active_backend :: nat

definition set_desired_backend :: "nat \<Rightarrow> backend_choice \<Rightarrow> bool \<times> backend_choice" where
  "set_desired_backend i c =
     (if i = BACKEND_PRIORITY_RR \<or> i = BACKEND_EEVDF \<or> i = BACKEND_DEADLINE
      then (True, c\<lparr>desired_backend := i\<rparr>) else (False, c))"

definition set_active_backend :: "nat \<Rightarrow> backend_choice \<Rightarrow> backend_choice" where
  "set_active_backend i c = c\<lparr>active_backend := i\<rparr>"

definition backend_name :: "nat \<Rightarrow> string" where
  "backend_name i =
     (if i = BACKEND_PRIORITY_RR then ''PriorityRoundRobin'' else if i = BACKEND_EEVDF then ''EEVDF''
      else if i = BACKEND_DEADLINE then ''Deadline'' else ''Unknown'')"

definition bk_new_const :: backend where
  "bk_new_const = PriorityRR rr_new_const"

definition bk_from_id :: "nat \<Rightarrow> backend" where
  "bk_from_id i =
     (if i = BACKEND_EEVDF then Eevdf ev_new else if i = BACKEND_DEADLINE then Deadline dl_new
      else PriorityRR rr_new)"

fun bk_id :: "backend \<Rightarrow> nat" where
  "bk_id (PriorityRR s) = BACKEND_PRIORITY_RR"
| "bk_id (Eevdf s) = BACKEND_EEVDF"
| "bk_id (Deadline s) = BACKEND_DEADLINE"

fun bk_pick_next :: "backend \<Rightarrow> task_id option \<times> backend" where
  "bk_pick_next (PriorityRR s) = map_prod id PriorityRR (rr_pick_next s)"
| "bk_pick_next (Eevdf s) = map_prod id Eevdf (ev_pick_next s)"
| "bk_pick_next (Deadline s) = map_prod id Deadline (dl_pick_next s)"

definition bk_pick_next_masked :: "bool \<Rightarrow> backend \<Rightarrow> task_id option \<times> backend" where
  "bk_pick_next_masked avoid_band b =
     (case b of PriorityRR s \<Rightarrow> map_prod id PriorityRR (rr_pick_next_masked avoid_band s)
      | _ \<Rightarrow> bk_pick_next b)"

definition bk_top_level :: "backend \<Rightarrow> nat option" where
  "bk_top_level b = (case b of PriorityRR s \<Rightarrow> rr_top_level s | _ \<Rightarrow> None)"

fun bk_has_real_work :: "backend \<Rightarrow> bool" where
  "bk_has_real_work (PriorityRR s) = rr_has_real_work s"
| "bk_has_real_work (Eevdf s) = ev_has_real_work s"
| "bk_has_real_work (Deadline s) = dl_has_real_work s"

definition bk_has_ordinary_work :: "backend \<Rightarrow> bool" where
  "bk_has_ordinary_work b = (case b of PriorityRR s \<Rightarrow> rr_has_ordinary_work s | _ \<Rightarrow> bk_has_real_work b)"

fun bk_enqueue :: "task_id \<Rightarrow> nat \<Rightarrow> backend \<Rightarrow> backend" where
  "bk_enqueue i p (PriorityRR s) = PriorityRR (rr_enqueue i p s)"
| "bk_enqueue i p (Eevdf s) = Eevdf (ev_enqueue i p s)"
| "bk_enqueue i p (Deadline s) = Deadline (dl_enqueue i p s)"

fun bk_dequeue :: "task_id \<Rightarrow> nat \<Rightarrow> backend \<Rightarrow> bool \<times> backend" where
  "bk_dequeue i p (PriorityRR s) = map_prod id PriorityRR (rr_dequeue i p s)"
| "bk_dequeue i p (Eevdf s) = map_prod id Eevdf (ev_dequeue i p s)"
| "bk_dequeue i p (Deadline s) = map_prod id Deadline (dl_dequeue i p s)"

fun bk_entries_for :: "task_id \<Rightarrow> backend \<Rightarrow> nat" where
  "bk_entries_for i (PriorityRR s) = rr_entries_for i s"
| "bk_entries_for i (Eevdf s) = ev_entries_for i s"
| "bk_entries_for i (Deadline s) = dl_entries_for i s"

fun bk_tick :: "backend \<Rightarrow> bool \<times> backend" where
  "bk_tick (PriorityRR s) = map_prod id PriorityRR (rr_tick s)"
| "bk_tick (Eevdf s) = map_prod id Eevdf (ev_tick s)"
| "bk_tick (Deadline s) = map_prod id Deadline (dl_tick s)"

fun bk_has_ready :: "backend \<Rightarrow> bool" where
  "bk_has_ready (PriorityRR s) = rr_has_ready s"
| "bk_has_ready (Eevdf s) = ev_has_ready s"
| "bk_has_ready (Deadline s) = dl_has_ready s"

fun bk_total_tasks :: "backend \<Rightarrow> nat" where
  "bk_total_tasks (PriorityRR s) = rr_total_tasks s"
| "bk_total_tasks (Eevdf s) = ev_total_tasks s"
| "bk_total_tasks (Deadline s) = dl_total_tasks s"

fun bk_real_tasks :: "backend \<Rightarrow> nat" where
  "bk_real_tasks (PriorityRR s) = rr_real_tasks s"
| "bk_real_tasks (Eevdf s) = ev_real_tasks s"
| "bk_real_tasks (Deadline s) = dl_real_tasks s"

fun bk_steal :: "nat \<Rightarrow> backend \<Rightarrow> stolen \<times> backend" where
  "bk_steal n (PriorityRR s) = map_prod id PriorityRR (rr_steal n s)"
| "bk_steal n (Eevdf s) = map_prod id Eevdf (ev_steal n s)"
| "bk_steal n (Deadline s) = map_prod id Deadline (dl_steal n s)"

fun bk_set_time_slice :: "nat \<Rightarrow> nat \<Rightarrow> backend \<Rightarrow> bool \<times> backend" where
  "bk_set_time_slice l t (PriorityRR s) = map_prod id PriorityRR (rr_set_time_slice l t s)"
| "bk_set_time_slice l t (Eevdf s) = map_prod id Eevdf (ev_set_time_slice l t s)"
| "bk_set_time_slice l t (Deadline s) = map_prod id Deadline (dl_set_time_slice l t s)"

fun bk_time_slice :: "nat \<Rightarrow> backend \<Rightarrow> nat option" where
  "bk_time_slice l (PriorityRR s) = rr_time_slice l s"
| "bk_time_slice l (Eevdf s) = ev_time_slice l s"
| "bk_time_slice l (Deadline s) = dl_time_slice l s"

fun bk_reconfigure_slices :: "nat \<Rightarrow> nat \<Rightarrow> backend \<Rightarrow> bool \<times> backend" where
  "bk_reconfigure_slices b i (PriorityRR s) = map_prod id PriorityRR (rr_reconfigure_slices b i s)"
| "bk_reconfigure_slices b i (Eevdf s) = map_prod id Eevdf (ev_reconfigure_slices b i s)"
| "bk_reconfigure_slices b i (Deadline s) = map_prod id Deadline (dl_reconfigure_slices b i s)"

fun bk_apply_profile :: "profile \<Rightarrow> backend \<Rightarrow> backend" where
  "bk_apply_profile p (PriorityRR s) = PriorityRR (rr_apply_profile p s)"
| "bk_apply_profile p (Eevdf s) = Eevdf (ev_apply_profile p s)"
| "bk_apply_profile p (Deadline s) = Deadline (dl_apply_profile p s)"

fun bk_current_remaining :: "backend \<Rightarrow> nat" where
  "bk_current_remaining (PriorityRR s) = rr_remaining s"
| "bk_current_remaining (Eevdf s) = ev_remaining s"
| "bk_current_remaining (Deadline s) = ds_remaining s"

fun bk_set_current_remaining :: "nat \<Rightarrow> backend \<Rightarrow> backend" where
  "bk_set_current_remaining t (PriorityRR s) = PriorityRR (s\<lparr>rr_remaining := t\<rparr>)"
| "bk_set_current_remaining t (Eevdf s) = Eevdf (s\<lparr>ev_remaining := t\<rparr>)"
| "bk_set_current_remaining t (Deadline s) = Deadline (s\<lparr>ds_remaining := t\<rparr>)"

definition bk_register_deadline :: "task_id \<Rightarrow> dl_params \<Rightarrow> backend \<Rightarrow> bool \<times> backend" where
  "bk_register_deadline i p b =
     (case b of Deadline s \<Rightarrow> map_prod id Deadline (dl_register i p s) | _ \<Rightarrow> (False, b))"

definition bk_unregister_deadline :: "task_id \<Rightarrow> backend \<Rightarrow> backend" where
  "bk_unregister_deadline i b = (case b of Deadline s \<Rightarrow> Deadline (dl_unregister i s) | _ \<Rightarrow> b)"

definition bk_deadline_current_tick :: "backend \<Rightarrow> nat" where
  "bk_deadline_current_tick b = (case b of Deadline s \<Rightarrow> ds_tick s | _ \<Rightarrow> 0)"

definition bk_deadline_utilization :: "backend \<Rightarrow> nat" where
  "bk_deadline_utilization b = (case b of Deadline s \<Rightarrow> ds_util s | _ \<Rightarrow> 0)"

definition bk_deadline_throttled_count :: "backend \<Rightarrow> nat" where
  "bk_deadline_throttled_count b = (case b of Deadline s \<Rightarrow> dl_throttled_count s | _ \<Rightarrow> 0)"

section \<open>The enum keeps the contract\<close>

fun bk_inv :: "backend \<Rightarrow> bool" where
  "bk_inv (PriorityRR s) = rr_ok s"
| "bk_inv (Eevdf s) = ev_inv s"
| "bk_inv (Deadline s) = dl_inv s"

fun bk_tasks :: "backend \<Rightarrow> task_id multiset" where
  "bk_tasks (PriorityRR s) = rr_tasks s"
| "bk_tasks (Eevdf s) = ev_tasks s"
| "bk_tasks (Deadline s) = dl_tasks s"

interpretation bkq: run_queue bk_inv bk_tasks bk_enqueue bk_dequeue bk_pick_next bk_steal bk_tick bk_total_tasks
proof unfold_locales
  fix b i p assume "bk_inv b" and "bk_total_tasks b < u32_max"
  then show "bk_inv (bk_enqueue i p b)"
    and "set_mset (bk_tasks (bk_enqueue i p b)) = insert i (set_mset (bk_tasks b))"
    and "i \<notin># bk_tasks b \<Longrightarrow> bk_tasks (bk_enqueue i p b) = add_mset i (bk_tasks b)"
    and "size (bk_tasks (bk_enqueue i p b)) \<le> Suc (size (bk_tasks b))"
    by (cases b; simp add: rrq.inv_enq evq.inv_enq dlq.inv_enq rrq.tasks_enq evq.tasks_enq dlq.tasks_enq
        rrq.tasks_enq_new evq.tasks_enq_new dlq.tasks_enq_new rrq.size_enq evq.size_enq dlq.size_enq)+
next
  fix b i p assume "bk_inv b"
  then show "bk_inv (snd (bk_dequeue i p b))"
    and "bk_tasks (snd (bk_dequeue i p b)) = filter_mset (\<lambda>j. j \<noteq> i) (bk_tasks b)"
    by (cases b; simp add: rrq.inv_deq evq.inv_deq dlq.inv_deq rrq.tasks_deq evq.tasks_deq dlq.tasks_deq)+
next
  fix b assume inv: "bk_inv b" and room: "bk_total_tasks b + 32 \<le> u32_max"
  show "bk_inv (snd (bk_pick_next b))"
    using inv room by (cases b) (simp_all add: rrq.inv_pick evq.inv_pick dlq.inv_pick)
  show "bk_tasks b = {#}" if "fst (bk_pick_next b) = None"
    using inv room that rrq.pick_none evq.pick_none dlq.pick_none by (cases b) simp_all
  show "bk_tasks b \<subseteq># add_mset i (bk_tasks (snd (bk_pick_next b)))" if "fst (bk_pick_next b) = Some i" for i
    using inv room that rrq.pick_some evq.pick_some dlq.pick_some by (cases b) simp_all
next
  fix b n assume inv: "bk_inv b"
  show "bk_inv (snd (bk_steal n b))"
    using inv by (cases b) (simp_all add: rrq.inv_steal evq.inv_steal dlq.inv_steal)
  show "bk_tasks b = mset (map fst (fst (bk_steal n b))) + bk_tasks (snd (bk_steal n b))"
    using inv rrq.tasks_steal [of _ n] evq.tasks_steal [of _ n] dlq.tasks_steal [of _ n]
    by (cases b) simp_all
  show "length (fst (bk_steal n b)) \<le> min n MAX_STEAL"
    using inv rrq.steal_length [of _ n] evq.steal_length [of _ n] dlq.steal_length [of _ n]
    by (cases b) simp_all
next
  fix b assume "bk_inv b"
  then show "bk_inv (snd (bk_tick b))" and "bk_tasks (snd (bk_tick b)) = bk_tasks b"
    and "bk_total_tasks b = size (bk_tasks b)"
    by (cases b; simp add: rrq.inv_tick evq.inv_tick dlq.inv_tick rrq.tasks_tick evq.tasks_tick dlq.tasks_tick
        rrq.backlog_size evq.backlog_size dlq.backlog_size)+
qed

section \<open>The per-CPU scheduler\<close>

record percpu =
  pc_queues :: "backend list"
  pc_num_cpus :: nat

definition pc_new_const :: percpu where
  "pc_new_const = \<lparr>pc_queues = replicate MAX_CPUS bk_new_const, pc_num_cpus = 0\<rparr>"

text \<open>\<^verbatim>\<open>self.queues.get(cpu)\<close>, and an operation on that queue under its lock.\<close>

definition pc_get :: "nat \<Rightarrow> percpu \<Rightarrow> backend option" where
  "pc_get cpu s = (if cpu < length (pc_queues s) then Some (pc_queues s ! cpu) else None)"

definition pc_put :: "nat \<Rightarrow> backend \<Rightarrow> percpu \<Rightarrow> percpu" where
  "pc_put cpu b s = s\<lparr>pc_queues := (pc_queues s)[cpu := b]\<rparr>"

definition pc_init :: "nat \<Rightarrow> backend_choice \<times> percpu \<Rightarrow> backend_choice \<times> percpu" where
  "pc_init num_cpus = (\<lambda>(c, s).
     let n = max 1 (min num_cpus MAX_CPUS);
         backend_id = desired_backend c
     in (set_active_backend backend_id c,
         s\<lparr>pc_num_cpus := n,
           pc_queues := map (\<lambda>i. if i < n then bk_from_id backend_id else pc_queues s ! i)
                          [0..<length (pc_queues s)]\<rparr>))"

text \<open>The real-time throttle's verdict on the CPU is the scheduler's, an argument here.\<close>

definition pc_pick_next_local :: "bool \<Rightarrow> nat \<Rightarrow> percpu \<Rightarrow> task_id option \<times> percpu" where
  "pc_pick_next_local rt_throttled cpu s =
     (case pc_get cpu s of
        None \<Rightarrow> (None, s)
      | Some b \<Rightarrow> let (r, b') = bk_pick_next_masked rt_throttled b in (r, pc_put cpu b' s))"

definition pc_try_top_level :: "bool \<Rightarrow> nat \<Rightarrow> percpu \<Rightarrow> nat option" where
  "pc_try_top_level free cpu s =
     (case pc_get cpu s of None \<Rightarrow> None | Some b \<Rightarrow> if free then bk_top_level b else None)"

definition pc_try_has_ordinary_work :: "bool \<Rightarrow> nat \<Rightarrow> percpu \<Rightarrow> bool" where
  "pc_try_has_ordinary_work free cpu s \<longleftrightarrow>
     (case pc_get cpu s of None \<Rightarrow> False | Some b \<Rightarrow> free \<and> bk_has_ordinary_work b)"

definition pc_enqueue :: "task_id \<Rightarrow> nat \<Rightarrow> nat \<Rightarrow> percpu \<Rightarrow> percpu" where
  "pc_enqueue i priority cpu s =
     (let target = min cpu (pc_num_cpus s - 1)
      in case pc_get target s of None \<Rightarrow> s | Some b \<Rightarrow> pc_put target (bk_enqueue i priority b) s)"

text \<open>One CPU of the removal sweep; the sweep starts at the CPU the caller named.\<close>

definition pc_dequeue_at :: "task_id \<Rightarrow> nat \<Rightarrow> nat \<Rightarrow> bool \<times> percpu \<Rightarrow> bool \<times> percpu" where
  "pc_dequeue_at i priority cpu = (\<lambda>(removed, s).
     case pc_get cpu s of
       None \<Rightarrow> (removed, s)
     | Some b \<Rightarrow> let (r, b') = bk_dequeue i priority b in (removed \<or> r, pc_put cpu b' s))"

definition pc_dequeue :: "task_id \<Rightarrow> nat \<Rightarrow> nat \<Rightarrow> percpu \<Rightarrow> bool \<times> percpu" where
  "pc_dequeue i priority cpu s =
     (let n = max 1 (pc_num_cpus s);
          named = min cpu (n - 1)
      in fold (pc_dequeue_at i priority) (named # filter (\<lambda>c. c \<noteq> named) [0..<n]) (False, s))"

definition pc_entries_for :: "task_id \<Rightarrow> percpu \<Rightarrow> nat" where
  "pc_entries_for i s =
     sum_list (map (bk_entries_for i) (take (max 1 (pc_num_cpus s)) (pc_queues s)))"

definition cpu_bit :: "nat \<Rightarrow> u64" where
  "cpu_bit cpu = (if cpu < 64 then push_bit cpu 1 else 0)"

definition pc_queued_cpus :: "task_id \<Rightarrow> percpu \<Rightarrow> u64" where
  "pc_queued_cpus i s =
     fold (\<lambda>cpu m. m OR cpu_bit cpu)
       (filter (\<lambda>cpu. 0 < bk_entries_for i (pc_queues s ! cpu))
          [0..<min (max 1 (pc_num_cpus s)) (length (pc_queues s))]) 0"

text \<open>\<open>free\<close> says which locks a \<^verbatim>\<open>try_lock\<close> gets.\<close>

fun pc_try_mask :: "(nat \<Rightarrow> bool) \<Rightarrow> task_id \<Rightarrow> percpu \<Rightarrow> nat list \<Rightarrow> u64 \<Rightarrow> u64 option" where
  "pc_try_mask free i s [] m = Some m"
| "pc_try_mask free i s (cpu # cpus) m =
     (if \<not> free cpu then None
      else pc_try_mask free i s cpus
        (if 0 < bk_entries_for i (pc_queues s ! cpu) then m OR cpu_bit cpu else m))"

definition pc_try_queued_cpus :: "(nat \<Rightarrow> bool) \<Rightarrow> task_id \<Rightarrow> percpu \<Rightarrow> u64 option" where
  "pc_try_queued_cpus free i s =
     pc_try_mask free i s [0..<min (max 1 (pc_num_cpus s)) (length (pc_queues s))] 0"

definition pc_tick :: "bool \<Rightarrow> nat \<Rightarrow> percpu \<Rightarrow> bool \<times> percpu" where
  "pc_tick free cpu s =
     (case pc_get cpu s of
        None \<Rightarrow> (False, s)
      | Some b \<Rightarrow> if free then let (r, b') = bk_tick b in (r, pc_put cpu b' s) else (False, s))"

definition pc_current_remaining :: "nat \<Rightarrow> percpu \<Rightarrow> nat" where
  "pc_current_remaining cpu s = (case pc_get cpu s of None \<Rightarrow> 0 | Some b \<Rightarrow> bk_current_remaining b)"

definition pc_set_current_remaining :: "nat \<Rightarrow> nat \<Rightarrow> percpu \<Rightarrow> percpu" where
  "pc_set_current_remaining cpu t s =
     (case pc_get cpu s of None \<Rightarrow> s | Some b \<Rightarrow> pc_put cpu (bk_set_current_remaining t b) s)"

section \<open>Work stealing and balancing\<close>

text \<open>
  The first phase of a steal scans the other CPUs whose locks are free for the one with the most
  tasks; \<open>None\<close> is the code's \<^verbatim>\<open>usize::MAX\<close>.
\<close>

definition pc_scan_busiest :: "(nat \<Rightarrow> bool) \<Rightarrow> nat \<Rightarrow> percpu \<Rightarrow> nat option \<times> nat" where
  "pc_scan_busiest free cpu s =
     fold (\<lambda>i (victim, most).
         if i = cpu then (victim, most)
         else case pc_get i s of
                None \<Rightarrow> (victim, most)
              | Some b \<Rightarrow> if free i \<and> most < bk_total_tasks b then (Some i, bk_total_tasks b)
                          else (victim, most))
       [0..<pc_num_cpus s] (None, 0)"

text \<open>The stolen tasks after the first go to the thief's queue; all of them are reported.\<close>

fun pc_place_stolen :: "stolen \<Rightarrow> task_id list \<Rightarrow> backend \<Rightarrow> task_id list \<times> backend" where
  "pc_place_stolen [] out b = (out, b)"
| "pc_place_stolen ((i, p) # st) out b = pc_place_stolen st (migrated_push i out) (bk_enqueue i p b)"

text \<open>
  \<^verbatim>\<open>self.queues[cpu]\<close> panics on a CPU that does not exist, which is the outcome \<open>None\<close>; the result is
  the first stolen task, the migrated ids and the scheduler.
\<close>

definition pc_try_steal ::
  "(nat \<Rightarrow> bool) \<Rightarrow> nat \<Rightarrow> task_id list \<Rightarrow> percpu \<Rightarrow> (task_id option \<times> task_id list \<times> percpu) option" where
  "pc_try_steal free cpu out s =
     (if pc_num_cpus s \<le> 1 then Some (None, out, s)
      else case pc_scan_busiest free cpu s of
             (None, most) \<Rightarrow> Some (None, out, s)
           | (Some victim, most) \<Rightarrow>
               if most = 0 then Some (None, out, s)
               else case pc_get victim s of
                      None \<Rightarrow> Some (None, out, s)
                    | Some b \<Rightarrow>
                        let (st, b') = bk_steal (max 1 (most div 2)) b;
                            s = pc_put victim b' s
                        in case st of
                             [] \<Rightarrow> Some (None, out, s)
                           | (i, p) # rest \<Rightarrow>
                               (case pc_get cpu s of
                                  None \<Rightarrow> None
                                | Some mine \<Rightarrow>
                                    let (out', mine') = pc_place_stolen rest (migrated_push i out) mine
                                    in Some (Some i, out', pc_put cpu mine' s)))"

definition pc_scan_lightest :: "(nat \<Rightarrow> bool) \<Rightarrow> nat \<Rightarrow> percpu \<Rightarrow> (nat \<times> nat) option" where
  "pc_scan_lightest free cpu s =
     fold (\<lambda>i best.
         if i = cpu then best
         else case pc_get i s of
                None \<Rightarrow> best
              | Some b \<Rightarrow>
                  if free i \<and> (case best of None \<Rightarrow> True | Some (j, least) \<Rightarrow> bk_total_tasks b < least)
                  then Some (i, bk_total_tasks b) else best)
       [0..<pc_num_cpus s] None"

definition bk_enqueue_all :: "stolen \<Rightarrow> backend \<Rightarrow> backend" where
  "bk_enqueue_all st b = fold (\<lambda>(i, p) b. bk_enqueue i p b) st b"

text \<open>
  The balancer tries its own lock twice and the target's once: \<open>free1\<close>, \<open>free2\<close> and \<open>target_free\<close>;
  \<open>free\<close> is the scan's. The result is the migrations and the scheduler.
\<close>

definition pc_push_balance ::
  "bool \<Rightarrow> (nat \<Rightarrow> bool) \<Rightarrow> bool \<Rightarrow> bool \<Rightarrow> nat \<Rightarrow> percpu \<Rightarrow> (task_id \<times> nat) list \<times> percpu" where
  "pc_push_balance free1 free free2 target_free cpu s =
     (if pc_num_cpus s \<le> 1 then ([], s)
      else case pc_get cpu s of
             None \<Rightarrow> ([], s)
           | Some b \<Rightarrow>
               if \<not> free1 then ([], s)
               else let local = (if bk_has_real_work b then bk_total_tasks b else 0)
               in if local \<le> 1 then ([], s)
               else case pc_scan_lightest free cpu s of
                      None \<Rightarrow> ([], s)
                    | Some (target, least) \<Rightarrow>
                        if local - least < 2 then ([], s)
                        else if \<not> free2 then ([], s)
                        else let to_push = max 1 (min ((local - least) div 2) 4);
                                 (st, b') = bk_steal to_push b;
                                 s = pc_put cpu b' s
                        in if st = [] then ([], s)
                        else if target_free then
                          (case pc_get target s of
                             None \<Rightarrow> ([], pc_put cpu (bk_enqueue_all st b') s)
                           | Some t \<Rightarrow> (map (\<lambda>(i, p). (i, target)) st, pc_put target (bk_enqueue_all st t) s))
                        else ([], pc_put cpu (bk_enqueue_all st b') s))"

text \<open>The drain of a CPU taken offline: steal in batches until a batch is empty.\<close>

partial_function (option) bk_drain :: "stolen \<Rightarrow> backend \<Rightarrow> (stolen \<times> backend) option" where
  "bk_drain acc b =
     (case bk_steal MAX_STEAL b of
        ([], b') \<Rightarrow> Some (acc, b')
      | (st, b') \<Rightarrow> bk_drain (acc @ st) b')"

definition pc_drain_all :: "nat \<Rightarrow> percpu \<Rightarrow> (stolen \<times> percpu) option" where
  "pc_drain_all cpu s =
     (case pc_get cpu s of
        None \<Rightarrow> Some ([], s)
      | Some b \<Rightarrow> map_option (\<lambda>(st, b'). (st, pc_put cpu b' s)) (bk_drain [] b))"

section \<open>Queries and configuration\<close>

definition pc_online :: "percpu \<Rightarrow> backend list" where
  "pc_online s = take (pc_num_cpus s) (pc_queues s)"

definition pc_has_ready :: "percpu \<Rightarrow> bool" where
  "pc_has_ready s \<longleftrightarrow> (\<exists>b \<in> set (pc_online s). bk_has_ready b)"

definition pc_local_has_real_work :: "bool \<Rightarrow> nat \<Rightarrow> percpu \<Rightarrow> bool" where
  "pc_local_has_real_work free cpu s \<longleftrightarrow>
     (case pc_get cpu s of None \<Rightarrow> False | Some b \<Rightarrow> free \<and> bk_has_real_work b)"

definition pc_queue_length :: "bool \<Rightarrow> nat \<Rightarrow> percpu \<Rightarrow> nat" where
  "pc_queue_length free cpu s =
     (case pc_get cpu s of None \<Rightarrow> 0 | Some b \<Rightarrow> if free then bk_total_tasks b else 0)"

definition pc_try_real_queue_length :: "bool \<Rightarrow> nat \<Rightarrow> percpu \<Rightarrow> nat option" where
  "pc_try_real_queue_length free cpu s =
     (case pc_get cpu s of None \<Rightarrow> None | Some b \<Rightarrow> if free then Some (bk_real_tasks b) else None)"

definition pc_real_queue_length :: "bool \<Rightarrow> nat \<Rightarrow> percpu \<Rightarrow> nat" where
  "pc_real_queue_length free cpu s =
     (case pc_try_real_queue_length free cpu s of Some n \<Rightarrow> n | None \<Rightarrow> 0)"

definition pc_others_have_real_work :: "(nat \<Rightarrow> bool) \<Rightarrow> nat \<Rightarrow> percpu \<Rightarrow> bool" where
  "pc_others_have_real_work free cpu s \<longleftrightarrow>
     (\<exists>i < length (pc_online s). i \<noteq> cpu \<and> free i \<and> bk_has_real_work (pc_online s ! i))"

text \<open>A configuration call visits every online CPU and reports whether all accepted it.\<close>

definition pc_set_time_slice :: "nat \<Rightarrow> nat \<Rightarrow> percpu \<Rightarrow> bool \<times> percpu" where
  "pc_set_time_slice level ticks s =
     ((\<forall>b \<in> set (pc_online s). fst (bk_set_time_slice level ticks b)),
      s\<lparr>pc_queues := map (\<lambda>b. snd (bk_set_time_slice level ticks b)) (pc_online s)
                       @ drop (pc_num_cpus s) (pc_queues s)\<rparr>)"

definition pc_time_slice :: "nat \<Rightarrow> percpu \<Rightarrow> nat option" where
  "pc_time_slice level s = (case pc_get 0 s of None \<Rightarrow> None | Some b \<Rightarrow> bk_time_slice level b)"

definition pc_reconfigure_slices :: "nat \<Rightarrow> nat \<Rightarrow> percpu \<Rightarrow> bool \<times> percpu" where
  "pc_reconfigure_slices base increment s =
     ((\<forall>b \<in> set (pc_online s). fst (bk_reconfigure_slices base increment b)),
      s\<lparr>pc_queues := map (\<lambda>b. snd (bk_reconfigure_slices base increment b)) (pc_online s)
                       @ drop (pc_num_cpus s) (pc_queues s)\<rparr>)"

definition pc_apply_profile :: "profile \<Rightarrow> percpu \<Rightarrow> percpu" where
  "pc_apply_profile p s =
     s\<lparr>pc_queues := map (bk_apply_profile p) (pc_online s) @ drop (pc_num_cpus s) (pc_queues s)\<rparr>"

section \<open>No task is lost\<close>

text \<open>The throttled pick keeps the contract as the plain one does.\<close>

lemma bk_masked:
  assumes "bk_inv b" and "bk_total_tasks b + 32 \<le> u32_max"
  shows "bk_inv (snd (bk_pick_next_masked avoid b))"
    and "fst (bk_pick_next_masked avoid b) = None \<Longrightarrow> bk_tasks b = {#}"
    and "fst (bk_pick_next_masked avoid b) = Some i \<Longrightarrow>
      bk_tasks b \<subseteq># add_mset i (bk_tasks (snd (bk_pick_next_masked avoid b)))"
proof -
  have "bk_inv (snd (bk_pick_next_masked avoid b))
    \<and> (fst (bk_pick_next_masked avoid b) = None \<longrightarrow> bk_tasks b = {#})
    \<and> (fst (bk_pick_next_masked avoid b) = Some i \<longrightarrow>
      bk_tasks b \<subseteq># add_mset i (bk_tasks (snd (bk_pick_next_masked avoid b))))"
  proof (cases b)
    case (PriorityRR s)
    have ok: "rr_ok s" using assms PriorityRR by simp
    then have inv: "rr_inv s" by (rule rr_ok_inv)
    have sub: "rr_tasks (snd (rr_pick_next_masked avoid s)) \<subseteq># rr_tasks s"
      using rr_pick_None [OF inv, of avoid] rr_pick_Some [OF inv, of avoid]
      by (cases "fst (rr_pick_next_masked avoid s)") simp_all
    have "rr_ok (snd (rr_pick_next_masked avoid s))"
      by (rule rr_ok_fewer [OF ok rr_pick_inv [OF inv] sub])
    with PriorityRR rr_pick_None [OF inv, of avoid] rr_pick_Some [OF inv, of avoid] show ?thesis
      by (simp add: bk_pick_next_masked_def)
  qed (use assms bkq.inv_pick [OF assms] bkq.pick_none [OF assms] bkq.pick_some [OF assms] in
      \<open>simp_all add: bk_pick_next_masked_def\<close>)
  then show "bk_inv (snd (bk_pick_next_masked avoid b))"
    and "fst (bk_pick_next_masked avoid b) = None \<Longrightarrow> bk_tasks b = {#}"
    and "fst (bk_pick_next_masked avoid b) = Some i \<Longrightarrow>
      bk_tasks b \<subseteq># add_mset i (bk_tasks (snd (bk_pick_next_masked avoid b)))" by blast+
qed

lemma bk_enqueue_all_simps [simp]:
  "bk_enqueue_all [] b = b"
  "bk_enqueue_all (x # st) b = bk_enqueue_all st (bk_enqueue (fst x) (snd x) b)"
  by (simp_all add: bk_enqueue_all_def case_prod_beta)

lemma bk_enqueue_all_inv:
  assumes "bk_inv b" and "bk_total_tasks b + length st \<le> u32_max"
  shows "bk_inv (bk_enqueue_all st b)
    \<and> set_mset (bk_tasks (bk_enqueue_all st b)) = fst ` set st \<union> set_mset (bk_tasks b)"
  using assms
proof (induction st arbitrary: b)
  case Nil
  then show ?case by simp
next
  case (Cons x st)
  have room: "bk_total_tasks b < u32_max" using Cons.prems(2) by simp
  note g = bkq.grow [of b "bk_total_tasks b" "fst x" "snd x"]
  have "bk_inv (bk_enqueue (fst x) (snd x) b)" "bk_total_tasks (bk_enqueue (fst x) (snd x) b) + length st \<le> u32_max"
    using g room Cons.prems by auto
  from Cons.IH [OF this] bkq.tasks_enq [OF Cons.prems(1) room] show ?case by auto
qed

text \<open>Tasks that are not queued yet, and not twice in the batch, are queued exactly once.\<close>

lemma bk_enqueue_all_new:
  assumes "bk_inv b" and "bk_total_tasks b + length st \<le> u32_max" and "distinct (map fst st)"
    and "\<forall>i \<in> fst ` set st. i \<notin># bk_tasks b"
  shows "bk_tasks (bk_enqueue_all st b) = mset (map fst st) + bk_tasks b"
  using assms
proof (induction st arbitrary: b)
  case Nil
  then show ?case by simp
next
  case (Cons x st)
  have room: "bk_total_tasks b < u32_max" using Cons.prems(2) by simp
  note g = bkq.grow [of b "bk_total_tasks b" "fst x" "snd x"]
  have t: "bk_tasks (bk_enqueue (fst x) (snd x) b) = add_mset (fst x) (bk_tasks b)"
    using Cons.prems by (intro bkq.tasks_enq_new room) auto
  have "bk_inv (bk_enqueue (fst x) (snd x) b)" "bk_total_tasks (bk_enqueue (fst x) (snd x) b) + length st \<le> u32_max"
    using g room Cons.prems by auto
  note IH = Cons.IH [OF this]
  have "\<forall>i \<in> fst ` set st. i \<notin># bk_tasks (bk_enqueue (fst x) (snd x) b)"
    unfolding t using Cons.prems(3,4) by (metis insertE list.set_intros(2) distinct.simps(2) image_insert
        insert_iff list.set(2) list.simps(9) list.set_map set_mset_add_mset_insert)
  from IH [OF _ this] Cons.prems(3) t show ?case by simp
qed

lemma pc_place_stolen_backend: "snd (pc_place_stolen st out b) = bk_enqueue_all st b"
  by (induction st out b rule: pc_place_stolen.induct) simp_all

text \<open>
  The invariant of the whole scheduler, and a bound on the queues that leaves the counters room
  for the largest single operation: a steal of 16 after a pick that puts 32 back.
\<close>

definition pc_inv :: "percpu \<Rightarrow> bool" where
  "pc_inv s \<longleftrightarrow> length (pc_queues s) = MAX_CPUS \<and> pc_num_cpus s \<le> MAX_CPUS \<and>
     (\<forall>b \<in> set (pc_queues s). bk_inv b)"

definition pc_room :: "percpu \<Rightarrow> bool" where
  "pc_room s \<longleftrightarrow> (\<forall>b \<in> set (pc_queues s). bk_total_tasks b + 48 \<le> u32_max)"

definition pc_holds :: "task_id \<Rightarrow> percpu \<Rightarrow> bool" where
  "pc_holds i s \<longleftrightarrow> (\<exists>b \<in> set (pc_queues s). i \<in># bk_tasks b)"

lemma pc_getD: "pc_get c s = Some b \<Longrightarrow> c < length (pc_queues s) \<and> b = pc_queues s ! c \<and> b \<in> set (pc_queues s)"
  by (auto simp: pc_get_def split: if_splits)

lemma pc_put_simps [simp]:
  "length (pc_queues (pc_put c b s)) = length (pc_queues s)" "pc_num_cpus (pc_put c b s) = pc_num_cpus s"
  by (simp_all add: pc_put_def)

lemma pc_put_inv: "pc_inv s \<Longrightarrow> bk_inv b \<Longrightarrow> pc_inv (pc_put c b s)"
  using set_update_subset_insert [of "pc_queues s" c b] by (auto simp: pc_inv_def pc_put_def)

lemma pc_get_inv: "pc_inv s \<Longrightarrow> pc_get c s = Some b \<Longrightarrow> bk_inv b"
  using pc_getD [of c s b] by (auto simp: pc_inv_def)

lemma pc_get_room: "pc_room s \<Longrightarrow> pc_get c s = Some b \<Longrightarrow> bk_total_tasks b + 48 \<le> u32_max"
  using pc_getD [of c s b] by (auto simp: pc_room_def)

lemma pc_get_put: "pc_get d (pc_put c b s) = (if d = c \<and> c < length (pc_queues s) then Some b else pc_get d s)"
  by (auto simp: pc_get_def pc_put_def nth_list_update)

lemma pc_get_set: "b \<in> set (pc_queues s) \<longleftrightarrow> (\<exists>c. pc_get c s = Some b)"
  unfolding pc_get_def in_set_conv_nth by (metis option.inject option.distinct(1))

lemma pc_holds_get: "pc_holds i s \<longleftrightarrow> (\<exists>c b. pc_get c s = Some b \<and> i \<in># bk_tasks b)"
  unfolding pc_holds_def Bex_def pc_get_set by blast

text \<open>A queue replaced by one that keeps the task, and one where it may go.\<close>

lemma pc_put_holds:
  assumes "pc_holds i s" and "pc_get c s = Some b" and "i \<in># bk_tasks b \<Longrightarrow> i \<in># bk_tasks b'"
  shows "pc_holds i (pc_put c b' s)"
proof -
  from assms(1) obtain d x where d: "pc_get d s = Some x" "i \<in># bk_tasks x"
    by (auto simp: pc_holds_get)
  have c: "c < length (pc_queues s)" using pc_getD [OF assms(2)] by simp
  show ?thesis
  proof (cases "d = c")
    case True
    with d assms c show ?thesis by (auto simp: pc_holds_get pc_get_put)
  next
    case False
    with d c show ?thesis by (auto simp: pc_holds_get pc_get_put)
  qed
qed

lemma pc_put_has: "c < length (pc_queues s) \<Longrightarrow> i \<in># bk_tasks b \<Longrightarrow> pc_holds i (pc_put c b s)"
  by (auto simp: pc_holds_get pc_get_put)

section \<open>A steal\<close>

lemma pc_scan_busiest_other: "fst (pc_scan_busiest free cpu s) = Some v \<Longrightarrow> v \<noteq> cpu"
proof -
  define f where "f = (\<lambda>i (victim, most).
         if i = cpu then (victim, most)
         else case pc_get i s of
                None \<Rightarrow> (victim, most)
              | Some b \<Rightarrow> if free i \<and> most < bk_total_tasks b then (Some i, bk_total_tasks b)
                          else (victim, most))"
  have "fst (f i acc) \<noteq> Some cpu" if "fst acc \<noteq> Some cpu" for i acc
    using that by (cases acc) (simp add: f_def split: option.splits)
  then have "fst (fold f cs acc) \<noteq> Some cpu" if "fst acc \<noteq> Some cpu" for cs acc
    using that by (induction cs arbitrary: acc) simp_all
  from this [of "(None, 0)" "[0..<pc_num_cpus s]"]
  have "fst (pc_scan_busiest free cpu s) \<noteq> Some cpu"
    by (simp add: pc_scan_busiest_def f_def [symmetric])
  then show "fst (pc_scan_busiest free cpu s) = Some v \<Longrightarrow> v \<noteq> cpu" by auto
qed

text \<open>
  What a steal can do: nothing, or take a batch from another CPU's queue, return its first task
  and queue the rest on its own.
\<close>

lemma pc_try_steal_cases:
  assumes "cpu < length (pc_queues s)"
  obtains (idle) "pc_try_steal free cpu out s = Some (None, out, s)"
  | (emptied) v b b' n where "pc_get v s = Some b" and "bk_steal n b = ([], b')"
      and "pc_try_steal free cpu out s = Some (None, out, pc_put v b' s)"
  | (stole) v b b' n i p rest mine out' where "v \<noteq> cpu" and "pc_get v s = Some b"
      and "bk_steal n b = ((i, p) # rest, b')" and "pc_get cpu s = Some mine"
      and "pc_try_steal free cpu out s =
        Some (Some i, out', pc_put cpu (bk_enqueue_all rest mine) (pc_put v b' s))"
proof (cases "pc_num_cpus s \<le> 1")
  case True
  then show ?thesis by (intro idle) (simp add: pc_try_steal_def)
next
  case online: False
  obtain victim most where scan: "pc_scan_busiest free cpu s = (victim, most)" by (metis surj_pair)
  show ?thesis
  proof (cases "victim = None \<or> most = 0 \<or> pc_get (the victim) s = None")
    case True
    with online scan show ?thesis
      by (intro idle) (auto simp: pc_try_steal_def split: option.splits)
  next
    case False
    then obtain v b where v: "victim = Some v" "most \<noteq> 0" "pc_get v s = Some b" by auto
    have other: "v \<noteq> cpu" using pc_scan_busiest_other [of free cpu s v] scan v by simp
    obtain st b' where steal: "bk_steal (max 1 (most div 2)) b = (st, b')" by (metis surj_pair)
    show ?thesis
    proof (cases st)
      case Nil
      with online scan v steal show ?thesis
        by (intro emptied [of v b _ b']) (auto simp: pc_try_steal_def)
    next
      case (Cons x rest)
      obtain i p where x: "x = (i, p)" by (metis surj_pair)
      obtain mine where mine: "pc_get cpu s = Some mine" using assms by (simp add: pc_get_def)
      have mine': "pc_get cpu (pc_put v b' s) = Some mine" using mine other by (simp add: pc_get_put)
      obtain out' where place: "pc_place_stolen rest (migrated_push i out) mine = (out', bk_enqueue_all rest mine)"
        using pc_place_stolen_backend by (metis prod.collapse)
      show ?thesis
        using online scan v steal Cons x mine' place
        by (intro stole [OF other v(3) _ mine, of _ i p rest b' out']) (auto simp: pc_try_steal_def)
    qed
  qed
qed

lemma pc_steal_room:
  assumes "pc_inv s" and "pc_room s" and "pc_get v s = Some b" and "bk_steal n b = ((i, p) # rest, b')"
    and "pc_get cpu s = Some mine"
  shows "bk_total_tasks mine + length rest \<le> u32_max"
proof -
  have "length rest \<le> MAX_STEAL"
    using bkq.steal_length [OF pc_get_inv [OF assms(1,3)], of n] assms(4) by simp
  with pc_get_room [OF assms(2,5)] show ?thesis by (simp add: MAX_STEAL_def)
qed

lemma pc_try_steal_inv:
  assumes inv: "pc_inv s" and room: "pc_room s" and cpu: "cpu < MAX_CPUS"
    and step: "pc_try_steal free cpu out s = Some (r, out', s')"
  shows "pc_inv s' \<and> (pc_holds j s \<longrightarrow> pc_holds j s' \<or> r = Some j)"
proof -
  have len: "cpu < length (pc_queues s)" using inv cpu by (simp add: pc_inv_def)
  from len show ?thesis
  proof (cases rule: pc_try_steal_cases [where free = free and out = out])
    case idle
    with inv step show ?thesis by simp
  next
    case (emptied v b b' n)
    note bi = pc_get_inv [OF inv emptied(1)]
    have "bk_inv b'" "bk_tasks b = bk_tasks b'"
      using bkq.inv_steal [OF bi, of n] bkq.tasks_steal [OF bi, of n] emptied(2) by simp_all
    moreover have "s' = pc_put v b' s" using emptied(3) step by simp
    ultimately show ?thesis
      using pc_put_inv [OF inv] pc_put_holds [of j s v b b'] emptied(1) by auto
  next
    case (stole v b b' n i p rest mine out'')
    note bi = pc_get_inv [OF inv stole(2)] and mi = pc_get_inv [OF inv stole(4)]
    have b': "bk_inv b'" "bk_tasks b = mset (map fst ((i, p) # rest)) + bk_tasks b'"
      using bkq.inv_steal [OF bi, of n] bkq.tasks_steal [OF bi, of n] stole(3) by simp_all
    have all: "bk_inv (bk_enqueue_all rest mine)"
      "set_mset (bk_tasks (bk_enqueue_all rest mine)) = fst ` set rest \<union> set_mset (bk_tasks mine)"
      using bk_enqueue_all_inv [OF mi pc_steal_room [OF inv room stole(2,3,4)]] by simp_all
    have s': "s' = pc_put cpu (bk_enqueue_all rest mine) (pc_put v b' s)" and r: "r = Some i"
      using stole(5) step by simp_all
    have "pc_inv s'" unfolding s' by (intro pc_put_inv inv b'(1) all(1))
    moreover have "pc_holds j s'" if h: "pc_holds j s" and "j \<noteq> i"
    proof (cases "j \<in> fst ` set rest")
      case True
      then show ?thesis unfolding s' using len all(2) by (intro pc_put_has) auto
    next
      case False
      have "pc_holds j (pc_put v b' s)"
        using h stole(2) by (rule pc_put_holds) (use b'(2) False \<open>j \<noteq> i\<close> in \<open>auto simp: image_iff\<close>)
      then show ?thesis unfolding s'
        by (rule pc_put_holds) (use stole(1,4) all(2) in \<open>auto simp: pc_get_put\<close>)
    qed
    ultimately show ?thesis using r by blast
  qed
qed

section \<open>A push\<close>

lemma pc_push_cases:
  obtains (idle) "snd (pc_push_balance free1 free free2 target_free cpu s) = s"
  | (moved) b b' n st c t where "pc_get cpu s = Some b" and "bk_steal n b = (st, b')"
      and "pc_get c (pc_put cpu b' s) = Some t"
      and "snd (pc_push_balance free1 free free2 target_free cpu s)
        = pc_put c (bk_enqueue_all st t) (pc_put cpu b' s)"
proof (cases "pc_get cpu s")
  case None
  then show ?thesis by (intro idle) (simp add: pc_push_balance_def)
next
  case (Some b)
  let ?local = "if bk_has_real_work b then bk_total_tasks b else 0"
  show ?thesis
  proof (cases "pc_num_cpus s \<le> 1 \<or> \<not> free1 \<or> ?local \<le> 1 \<or> pc_scan_lightest free cpu s = None
      \<or> ?local - snd (the (pc_scan_lightest free cpu s)) < 2 \<or> \<not> free2")
    case True
    with Some show ?thesis
      by (intro idle) (auto simp: pc_push_balance_def Let_def split: option.splits)
  next
    case False
    then obtain target least where scan: "pc_scan_lightest free cpu s = Some (target, least)" by auto
    obtain st b' where steal: "bk_steal (max 1 (min ((?local - least) div 2) 4)) b = (st, b')"
      by (metis surj_pair)
    have get: "pc_get cpu (pc_put cpu b' s) = Some b'"
      using pc_getD [OF Some] by (simp add: pc_get_put)
    have result: "snd (pc_push_balance free1 free free2 target_free cpu s) =
      (if st = [] then pc_put cpu b' s
       else if target_free \<and> pc_get target (pc_put cpu b' s) \<noteq> None
       then pc_put target (bk_enqueue_all st (the (pc_get target (pc_put cpu b' s)))) (pc_put cpu b' s)
       else pc_put cpu (bk_enqueue_all st b') (pc_put cpu b' s))"
      using False Some scan steal by (auto simp: pc_push_balance_def Let_def split: option.splits)
    show ?thesis
    proof (cases "st \<noteq> [] \<and> target_free \<and> pc_get target (pc_put cpu b' s) \<noteq> None")
      case True
      then obtain t where "pc_get target (pc_put cpu b' s) = Some t" by auto
      with True result show ?thesis by (intro moved [OF Some steal, of target t]) auto
    next
      case False
      have "pc_put cpu b' s = pc_put cpu (bk_enqueue_all [] b') (pc_put cpu b' s)"
        by (simp add: pc_put_def)
      with False result show ?thesis by (intro moved [OF Some steal get]) auto
    qed
  qed
qed

lemma pc_push_inv:
  assumes inv: "pc_inv s" and room: "pc_room s"
  shows "pc_inv (snd (pc_push_balance free1 free free2 target_free cpu s))
    \<and> (pc_holds j s \<longrightarrow> pc_holds j (snd (pc_push_balance free1 free free2 target_free cpu s)))"
proof (cases rule: pc_push_cases [of free1 free free2 target_free cpu s])
  case idle
  with inv show ?thesis by simp
next
  case (moved b b' n st c t)
  note bi = pc_get_inv [OF inv moved(1)]
  have b': "bk_inv b'" "bk_tasks b = mset (map fst st) + bk_tasks b'" "length st \<le> MAX_STEAL"
    using bkq.inv_steal [OF bi, of n] bkq.tasks_steal [OF bi, of n] bkq.steal_length [OF bi, of n] moved(2)
    by simp_all
  have inv': "pc_inv (pc_put cpu b' s)" by (rule pc_put_inv [OF inv b'(1)])
  have c: "c < length (pc_queues s)" using pc_getD [OF moved(3)] by simp
  have "bk_total_tasks t + length st \<le> u32_max"
  proof (cases "c = cpu")
    case True
    with moved(3) c have "t = b'" by (simp add: pc_get_put)
    moreover have "size (bk_tasks b') \<le> size (bk_tasks b)" using b'(2) by simp
    ultimately show ?thesis
      using pc_get_room [OF room moved(1)] b'(1,3) bi bkq.backlog_size by (simp add: MAX_STEAL_def)
  next
    case False
    with moved(3) have "pc_get c s = Some t" by (simp add: pc_get_put)
    with pc_get_room [OF room this] b'(3) show ?thesis by (simp add: MAX_STEAL_def)
  qed
  from bk_enqueue_all_inv [OF pc_get_inv [OF inv' moved(3)] this]
  have all: "bk_inv (bk_enqueue_all st t)"
    "set_mset (bk_tasks (bk_enqueue_all st t)) = fst ` set st \<union> set_mset (bk_tasks t)" by simp_all
  have "pc_holds j (pc_put c (bk_enqueue_all st t) (pc_put cpu b' s))" if "pc_holds j s"
  proof (cases "j \<in> fst ` set st")
    case True
    then show ?thesis using c all(2) by (intro pc_put_has) auto
  next
    case False
    have "pc_holds j (pc_put cpu b' s)"
      using that moved(1) by (rule pc_put_holds) (use b'(2) False in \<open>auto simp: image_iff\<close>)
    then show ?thesis by (rule pc_put_holds [OF _ moved(3)]) (use all(2) in auto)
  qed
  with pc_put_inv [OF inv' all(1)] show ?thesis unfolding moved(4) by blast
qed

section \<open>The other operations and whole runs\<close>

datatype pc_event =
    PcEnqueue task_id nat nat | PcDequeue task_id nat nat | PcPick bool nat | PcTick bool nat
  | PcSteal "nat \<Rightarrow> bool" nat | PcPush bool "nat \<Rightarrow> bool" bool bool nat

fun pc_step :: "pc_event \<Rightarrow> percpu \<Rightarrow> percpu" where
  "pc_step (PcEnqueue i p cpu) s = pc_enqueue i p cpu s"
| "pc_step (PcDequeue i p cpu) s = snd (pc_dequeue i p cpu s)"
| "pc_step (PcPick throttled cpu) s = snd (pc_pick_next_local throttled cpu s)"
| "pc_step (PcTick free cpu) s = snd (pc_tick free cpu s)"
| "pc_step (PcSteal free cpu) s =
     (case pc_try_steal free cpu [] s of None \<Rightarrow> s | Some (r, out, s') \<Rightarrow> s')"
| "pc_step (PcPush free1 free free2 target_free cpu) s =
     snd (pc_push_balance free1 free free2 target_free cpu s)"

text \<open>The tasks an event takes off every queue: handed to a CPU, or removed by name.\<close>

fun pc_taken :: "pc_event \<Rightarrow> percpu \<Rightarrow> task_id list" where
  "pc_taken (PcDequeue i p cpu) s = [i]"
| "pc_taken (PcPick throttled cpu) s =
     (case fst (pc_pick_next_local throttled cpu s) of None \<Rightarrow> [] | Some i \<Rightarrow> [i])"
| "pc_taken (PcSteal free cpu) s =
     (case pc_try_steal free cpu [] s of Some (Some i, out, s') \<Rightarrow> [i] | _ \<Rightarrow> [])"
| "pc_taken _ s = []"

text \<open>A steal is called for an existing CPU.\<close>

definition pc_admissible :: "pc_event \<Rightarrow> percpu \<Rightarrow> bool" where
  "pc_admissible e s \<longleftrightarrow> pc_room s \<and> (case e of PcSteal free cpu \<Rightarrow> cpu < MAX_CPUS | _ \<Rightarrow> True)"

lemma pc_enqueue_step:
  assumes inv: "pc_inv s" and room: "pc_room s"
  shows "pc_inv (pc_enqueue i p cpu s) \<and> (pc_holds j s \<longrightarrow> pc_holds j (pc_enqueue i p cpu s))"
proof (cases "pc_get (min cpu (pc_num_cpus s - 1)) s")
  case None
  with inv show ?thesis by (simp add: pc_enqueue_def)
next
  case (Some b)
  have small: "bk_total_tasks b < u32_max" using pc_get_room [OF room Some] by simp
  note bi = pc_get_inv [OF inv Some]
  have "bk_inv (bk_enqueue i p b)" "j \<in># bk_tasks b \<Longrightarrow> j \<in># bk_tasks (bk_enqueue i p b)"
    using bkq.inv_enq [OF bi small] bkq.tasks_enq [OF bi small] by simp_all
  with Some pc_put_inv [OF inv] pc_put_holds [OF _ Some] show ?thesis
    by (simp add: pc_enqueue_def)
qed

lemma pc_dequeue_fold:
  assumes "pc_inv s"
  shows "pc_inv (snd (fold (pc_dequeue_at i p) cs (r, s)))
    \<and> (pc_holds j s \<longrightarrow> j = i \<or> pc_holds j (snd (fold (pc_dequeue_at i p) cs (r, s))))"
  using assms
proof (induction cs arbitrary: r s)
  case Nil
  then show ?case by simp
next
  case (Cons c cs)
  show ?case
  proof (cases "pc_get c s")
    case None
    with Cons show ?thesis by (simp add: pc_dequeue_at_def)
  next
    case (Some b)
    note bi = pc_get_inv [OF Cons.prems Some]
    let ?b = "snd (bk_dequeue i p b)"
    have "pc_inv (pc_put c ?b s)" using Cons.prems bkq.inv_deq [OF bi] by (rule pc_put_inv)
    note IH = Cons.IH [OF this, of "r \<or> fst (bk_dequeue i p b)"]
    have "pc_holds j (pc_put c ?b s)" if "pc_holds j s" "j \<noteq> i"
      using that(1) Some by (rule pc_put_holds) (use that(2) bkq.tasks_deq [OF bi] in simp)
    with IH Some show ?thesis by (auto simp: pc_dequeue_at_def case_prod_beta)
  qed
qed

lemma pc_pick_step:
  assumes inv: "pc_inv s" and room: "pc_room s"
  shows "pc_inv (snd (pc_pick_next_local t cpu s))
    \<and> (pc_holds j s \<longrightarrow> pc_holds j (snd (pc_pick_next_local t cpu s)) \<or> fst (pc_pick_next_local t cpu s) = Some j)"
proof (cases "pc_get cpu s")
  case None
  with inv show ?thesis by (simp add: pc_pick_next_local_def)
next
  case (Some b)
  have small: "bk_total_tasks b + 32 \<le> u32_max" using pc_get_room [OF room Some] by simp
  note m = bk_masked [OF pc_get_inv [OF inv Some] small, of t]
  let ?b = "snd (bk_pick_next_masked t b)"
  have "pc_holds j (pc_put cpu ?b s)" if "pc_holds j s" "fst (bk_pick_next_masked t b) \<noteq> Some j"
  proof (rule pc_put_holds [OF that(1) Some])
    assume j: "j \<in># bk_tasks b"
    then obtain i where i: "fst (bk_pick_next_masked t b) = Some i"
      using m(2) by (cases "fst (bk_pick_next_masked t b)") auto
    with m(3) j have "j \<in># add_mset i (bk_tasks ?b)" by (meson mset_subset_eqD)
    with i that(2) show "j \<in># bk_tasks ?b" by auto
  qed
  with Some pc_put_inv [OF inv m(1)] show ?thesis
    by (auto simp: pc_pick_next_local_def case_prod_beta)
qed

lemma pc_tick_step:
  assumes inv: "pc_inv s"
  shows "pc_inv (snd (pc_tick free cpu s)) \<and> (pc_holds j s \<longrightarrow> pc_holds j (snd (pc_tick free cpu s)))"
proof (cases "pc_get cpu s")
  case None
  with inv show ?thesis by (simp add: pc_tick_def)
next
  case (Some b)
  note bi = pc_get_inv [OF inv Some]
  from Some inv pc_put_inv [OF inv bkq.inv_tick [OF bi]] pc_put_holds [OF _ Some] bkq.tasks_tick [OF bi]
  show ?thesis by (auto simp: pc_tick_def case_prod_beta)
qed

lemma pc_kept_or_taken:
  assumes "pc_inv s" and "pc_admissible e s"
  shows "pc_inv (pc_step e s) \<and> (pc_holds j s \<longrightarrow> pc_holds j (pc_step e s) \<or> j \<in> set (pc_taken e s))"
proof -
  have room: "pc_room s" using assms(2) by (simp add: pc_admissible_def)
  show ?thesis
  proof (cases e)
    case (PcEnqueue i p cpu)
    with pc_enqueue_step [OF assms(1) room] show ?thesis by simp
  next
    case (PcDequeue i p cpu)
    then obtain cs where "pc_step e s = snd (fold (pc_dequeue_at i p) cs (False, s))" "pc_taken e s = [i]"
      by (simp only: pc_step.simps pc_taken.simps pc_dequeue_def Let_def)
    then show ?thesis using pc_dequeue_fold [OF assms(1), of i p cs False j] by auto
  next
    case (PcPick t cpu)
    with pc_pick_step [OF assms(1) room, of t cpu j] show ?thesis by (auto split: option.splits)
  next
    case (PcTick free cpu)
    with pc_tick_step [OF assms(1)] show ?thesis by simp
  next
    case (PcSteal free cpu)
    have cpu: "cpu < MAX_CPUS" using assms(2) PcSteal by (simp add: pc_admissible_def)
    show ?thesis
    proof (cases "pc_try_steal free cpu [] s")
      case None
      with PcSteal assms(1) show ?thesis by simp
    next
      case (Some x)
      obtain r out s' where x: "x = (r, out, s')" by (metis surj_pair)
      from pc_try_steal_inv [OF assms(1) room cpu, of free "[]" r out s' j] Some x PcSteal show ?thesis
        by (auto split: option.splits)
    qed
  next
    case (PcPush free1 free free2 target_free cpu)
    with pc_push_inv [OF assms(1) room] show ?thesis by simp
  qed
qed

interpretation pcm: guarded_machine pc_step pc_admissible pc_inv
  by unfold_locales (simp add: pc_kept_or_taken)

text \<open>
  C15: no run of enqueues, removals, picks, ticks, steals and balancing pushes, on any backend, with
  any locks contended, loses a task: one that is queued on some CPU is still queued on some CPU
  at the end unless it was handed to a CPU or removed by name on the way.
\<close>

theorem pc_never_lost:
  assumes "pc_inv s" and "run_ok pc_admissible pc_step es s" and "pc_holds i s"
  shows "pc_holds i (fold pc_step es s) \<or> i \<in> set (gather pc_taken pc_step es s)"
  using pcm.keeps_or_reports [where P = "pc_holds i" and f = pc_taken and x = i] pc_kept_or_taken assms
  by blast

text \<open>Two CPUs, the second with a task.\<close>

definition pc_example :: percpu where
  "pc_example = \<lparr>pc_queues = PriorityRR rr_new # PriorityRR rr_example # replicate 14 (PriorityRR rr_new),
     pc_num_cpus = 2\<rparr>"

lemma pc_example_ok: "pc_inv pc_example \<and> pc_room pc_example \<and> pc_holds 7 pc_example"
proof -
  have "rr_total_tasks rr_new = 0" by (simp add: rr_total_tasks_def rr_new_def)
  moreover have "rr_total_tasks rr_example = 3"
    unfolding rr_ok_total [OF rr_example_ok] rr_tasks_def rr_example_queues by code_simp
  moreover have "7 \<in># rr_tasks rr_example"
    unfolding rr_tasks_def rr_example_queues by code_simp
  ultimately show ?thesis
    using rr_ok_new rr_example_ok
    by (simp add: pc_inv_def pc_room_def pc_holds_def pc_example_def MAX_CPUS_def u32_max_def)
qed

theorem pc_never_lost_witness:
  "pc_holds 7 (fold pc_step [PcSteal (\<lambda>c. True) 0] pc_example)
   \<or> 7 \<in> set (gather pc_taken pc_step [PcSteal (\<lambda>c. True) 0] pc_example)"
  using pc_example_ok
  by (intro pc_never_lost) (simp_all add: pc_admissible_def MAX_CPUS_def)

section \<open>A steal neither loses nor duplicates\<close>

definition pc_all :: "percpu \<Rightarrow> task_id multiset" where
  "pc_all s = sum_list (map bk_tasks (pc_queues s))"

lemma sum_update: "c < length xs \<Longrightarrow>
    sum_list (map f (xs[c := y])) + f (xs ! c) = sum_list (map f xs) + (f y :: 'a multiset)"
proof (induction xs arbitrary: c)
  case Nil
  then show ?case by simp
next
  case (Cons x xs)
  then show ?case by (cases c) (auto simp: ac_simps)
qed

lemma pc_all_put: "pc_get c s = Some b \<Longrightarrow> pc_all (pc_put c b' s) + bk_tasks b = pc_all s + bk_tasks b'"
  using sum_update [of c "pc_queues s" bk_tasks b'] by (auto simp: pc_all_def pc_put_def dest: pc_getD)

lemma pc_all_get: "pc_get c s = Some b \<Longrightarrow> bk_tasks b \<subseteq># pc_all s"
  using pc_all_put [of c s b "PriorityRR rr_new"]
  by (simp add: rr_tasks_def rr_new_def) (metis mset_subset_eq_add_right)

lemma pc_all_two:
  assumes "pc_get v s = Some b" and "pc_get c s = Some m" and "v \<noteq> c"
  shows "bk_tasks b + bk_tasks m \<subseteq># pc_all s"
proof -
  let ?e = "PriorityRR rr_new"
  have e: "bk_tasks ?e = {#}" by (simp add: rr_tasks_def rr_new_def)
  have "pc_get c (pc_put v ?e s) = Some m" using assms by (simp add: pc_get_put)
  then have "bk_tasks m \<subseteq># pc_all (pc_put v ?e s)" by (rule pc_all_get)
  moreover have "pc_all s = pc_all (pc_put v ?e s) + bk_tasks b"
    using pc_all_put [OF assms(1), of ?e] e by simp
  ultimately show ?thesis by (simp add: union_commute)
qed

text \<open>
  C24: in a scheduler where every task is queued at most once, a work steal leaves every task
  queued at most once: the task it returns is the only one to leave the queues.
\<close>

theorem pc_steal_conserves:
  assumes inv: "pc_inv s" and room: "pc_room s" and cpu: "cpu < MAX_CPUS"
    and once: "\<forall>i. count (pc_all s) i \<le> 1"
    and step: "pc_try_steal free cpu out s = Some (r, out', s')"
  shows "pc_all s = pc_all s' + (case r of None \<Rightarrow> {#} | Some i \<Rightarrow> {#i#})"
proof -
  have len: "cpu < length (pc_queues s)" using inv cpu by (simp add: pc_inv_def)
  from len show ?thesis
  proof (cases rule: pc_try_steal_cases [where free = free and out = out])
    case idle
    with step show ?thesis by simp
  next
    case (emptied v b b' n)
    have "bk_tasks b = bk_tasks b'"
      using bkq.tasks_steal [OF pc_get_inv [OF inv emptied(1)], of n] emptied(2) by simp
    with pc_all_put [OF emptied(1), of b'] emptied(3) step show ?thesis by simp
  next
    case (stole v b b' n i p rest mine out'')
    note bi = pc_get_inv [OF inv stole(2)] and mi = pc_get_inv [OF inv stole(4)]
    have b': "bk_tasks b = add_mset i (mset (map fst rest)) + bk_tasks b'"
      using bkq.tasks_steal [OF bi, of n] stole(3) by simp
    have two: "bk_tasks b + bk_tasks mine \<subseteq># pc_all s"
      using pc_all_two stole(1,2,4) by blast
    have cnt: "count (mset (map fst rest)) j + count (bk_tasks mine) j \<le> 1" for j
    proof -
      have "count (bk_tasks b + bk_tasks mine) j \<le> 1"
        using mset_subset_eq_count [OF two, of j] once by (meson order_trans)
      then show ?thesis unfolding b' by (simp split: if_splits)
    qed
    have "distinct (map fst rest)"
      unfolding distinct_count_atmost_1
      by (metis (no_types) cnt count_mset_0_iff le_antisym less_one linorder_not_less add_leE)
    moreover have "\<forall>j \<in> fst ` set rest. j \<notin># bk_tasks mine"
      using cnt by (metis (no_types, lifting) add_le_same_cancel1 count_greater_eq_one_iff
          le_add_same_cancel1 le_trans list.set_map not_in_iff set_mset_mset add_leD2 add_mono one_add_one numeral_le_one_iff semiring_norm(69))
    ultimately have all: "bk_tasks (bk_enqueue_all rest mine) = mset (map fst rest) + bk_tasks mine"
      by (intro bk_enqueue_all_new [OF mi pc_steal_room [OF inv room stole(2,3,4)]])
    have mine': "pc_get cpu (pc_put v b' s) = Some mine"
      using stole(1,4) by (simp add: pc_get_put)
    have "pc_all s' + bk_tasks mine = pc_all (pc_put v b' s) + bk_tasks (bk_enqueue_all rest mine)"
      using pc_all_put [OF mine'] stole(5) step by simp
    then have "pc_all s' = pc_all (pc_put v b' s) + mset (map fst rest)"
      unfolding all by (metis (no_types, lifting) add.assoc add_right_cancel)
    moreover have "pc_all (pc_put v b' s) + add_mset i (mset (map fst rest)) = pc_all s"
      using pc_all_put [OF stole(2), of b'] unfolding b' by (metis (no_types, lifting) add.assoc add_right_cancel)
    ultimately show ?thesis using stole(5) step by simp
  qed
qed

lemma pc_try_steal_returns: "pc_inv s \<Longrightarrow> cpu < MAX_CPUS \<Longrightarrow> \<exists>r out' s'. pc_try_steal free cpu out s = Some (r, out', s')"
proof -
  assume "pc_inv s" and "cpu < MAX_CPUS"
  then have "cpu < length (pc_queues s)" by (simp add: pc_inv_def)
  then show ?thesis
    by (cases rule: pc_try_steal_cases [where free = free and out = out]) blast+
qed

lemma pc_example_all: "pc_all pc_example = {#9, 7, 5#}"
proof -
  have "rr_tasks rr_new = {#}" by (simp add: rr_tasks_def rr_new_def)
  moreover have "rr_tasks rr_example = mset [9, 7, 5]"
    unfolding rr_tasks_def rr_example_queues
    by (rule arg_cong [of _ _ mset]) code_simp
  ultimately show ?thesis by (simp add: pc_all_def pc_example_def numeral_eq_Suc)
qed

theorem pc_steal_conserves_witness:
  "\<exists>r out s'. pc_try_steal (\<lambda>c. True) 0 [] pc_example = Some (r, out, s')
     \<and> {#9, 7, 5#} = pc_all s' + (case r of None \<Rightarrow> {#} | Some i \<Rightarrow> {#i#})"
proof -
  have ok: "pc_inv pc_example" "pc_room pc_example" "(0::nat) < MAX_CPUS"
    using pc_example_ok by (simp_all add: MAX_CPUS_def)
  obtain r out s' where "pc_try_steal (\<lambda>c. True) 0 [] pc_example = Some (r, out, s')"
    using pc_try_steal_returns ok by blast
  moreover have "\<forall>i. count (pc_all pc_example) i \<le> 1" by (simp add: pc_example_all)
  ultimately show ?thesis
    using pc_steal_conserves [OF ok(1) ok(2) ok(3)] pc_example_all by metis
qed

section \<open>The drain\<close>

text \<open>What a drain cannot take: nothing, except the tasks registered with the deadline scheduler.\<close>

definition bk_undrainable :: "backend \<Rightarrow> bool" where
  "bk_undrainable b =
     (case b of Deadline s \<Rightarrow> (\<forall>i. i \<in># dl_tasks s \<longrightarrow> bt_get (ds_params s) i \<noteq> None)
      | _ \<Rightarrow> bk_tasks b = {#})"

lemma dl_steal_nothing:
  assumes inv: "dl_inv s" and st: "fst (dl_steal MAX_STEAL s) = []"
  shows "snd (dl_steal MAX_STEAL s) = s" and "i \<in># dl_tasks s \<Longrightarrow> bt_get (ds_params s) i \<noteq> None"
proof -
  have pos: "MAX_STEAL \<noteq> 0" by (simp add: MAX_STEAL_def)
  have keys: "dl_steal_keys MAX_STEAL s = []"
    by (rule dl_steal_spec [OF inv, of MAX_STEAL]) (use st pos in simp)
  then show "snd (dl_steal MAX_STEAL s) = s" by (simp add: dl_steal_def)
  from inv obtain Q where w: "dl_rep Q s" by (auto simp: dl_inv_def)
  assume "i \<in># dl_tasks s"
  then obtain e where e: "Q i = Some e" using dl_tasks_in [OF w] by auto
  then have "bt_get (ds_tree s) (de_abs_deadline e, i) = Some e" using dl_rep_tree [OF w] by simp
  then have "((de_abs_deadline e, i), e) \<in> set (ds_tree s)"
    by (auto simp: bt_get_def dest: map_of_SomeD)
  moreover have "\<forall>p \<in> set (ds_tree s). bt_get (ds_params s) (de_id (snd p)) \<noteq> None"
    using keys pos by (auto simp: dl_steal_keys_def filter_empty_conv)
  ultimately show "bt_get (ds_params s) i \<noteq> None" using dl_rep_id [OF w e] by force
qed

lemma full_batch_zero [simp]: "min 16 (size M) = 0 \<longleftrightarrow> M = {#}"
  by (cases "M = {#}") (auto simp: min_def nonempty_has_size)

lemma bk_steal_nothing:
  assumes inv: "bk_inv b" and st: "fst (bk_steal MAX_STEAL b) = []"
  shows "bk_undrainable (snd (bk_steal MAX_STEAL b))"
proof (cases b)
  case (PriorityRR s)
  have "rr_inv s" using inv PriorityRR by (simp add: rr_ok_inv)
  then show ?thesis
    by (rule rr_steal_spec [of s MAX_STEAL]) (use st PriorityRR in \<open>auto simp: bk_undrainable_def MAX_STEAL_def\<close>)
next
  case (Eevdf s)
  have "ev_inv s" using inv Eevdf by simp
  then show ?thesis
    by (rule ev_steal_spec [of s MAX_STEAL]) (use st Eevdf in \<open>auto simp: bk_undrainable_def MAX_STEAL_def\<close>)
next
  case (Deadline s)
  with inv st have "dl_inv s" "fst (dl_steal MAX_STEAL s) = []" by simp_all
  from dl_steal_nothing [OF this] Deadline show ?thesis by (simp add: bk_undrainable_def)
qed

text \<open>The tasks a drain leaves: on the deadline backend those registered with it.\<close>

fun bk_registered :: "backend \<Rightarrow> task_id multiset" where
  "bk_registered (Deadline s) = filter_mset (\<lambda>i. bt_get (ds_params s) i \<noteq> None) (dl_tasks s)"
| "bk_registered _ = {#}"

lemma bk_steal_spares:
  assumes "bk_inv b"
  shows "bk_registered (snd (bk_steal n b)) = bk_registered b"
proof (cases b)
  case (Deadline s)
  then have inv: "dl_inv s" using assms by simp
  let ?st = "fst (dl_steal n s)" and ?s = "snd (dl_steal n s)"
  note spare = dl_steal_spares_registered [OF inv, where n = n]
  have "filter_mset (\<lambda>i. bt_get (ds_params s) i \<noteq> None) (mset (map fst ?st)) = {#}"
    using spare(2) by (auto simp: filter_mset_eq_conv)
  then have "filter_mset (\<lambda>i. bt_get (ds_params s) i \<noteq> None) (dl_tasks s)
      = filter_mset (\<lambda>i. bt_get (ds_params s) i \<noteq> None) (dl_tasks ?s)"
    unfolding dlq.tasks_steal [OF inv, of n] by (simp only: filter_union_mset add_0_left)
  with Deadline spare(1) show ?thesis by simp
qed simp_all

lemma multiset_filter_all: "\<forall>i. i \<in># M \<longrightarrow> P i \<Longrightarrow> filter_mset P M = M"
  by (induction M) auto

lemma undrainable_registered: "bk_undrainable b \<Longrightarrow> bk_tasks b = bk_registered b"
  by (cases b) (simp_all add: bk_undrainable_def multiset_filter_all)

lemma bk_drain_ends:
  assumes "bk_inv b"
  shows "\<exists>st b'. bk_drain acc b = Some (acc @ st, b') \<and> bk_inv b' \<and> bk_tasks b' = bk_registered b \<and>
    bk_tasks b = mset (map fst st) + bk_tasks b'"
  using assms
proof (induction "size (bk_tasks b)" arbitrary: acc b rule: less_induct)
  case less
  obtain st b' where steal: "bk_steal MAX_STEAL b = (st, b')" by (metis surj_pair)
  have b': "bk_inv b'" "bk_tasks b = mset (map fst st) + bk_tasks b'" "bk_registered b' = bk_registered b"
    using bkq.inv_steal [OF less.prems, of MAX_STEAL] bkq.tasks_steal [OF less.prems, of MAX_STEAL]
      bk_steal_spares [OF less.prems, of MAX_STEAL] steal
    by simp_all
  show ?case
  proof (cases st)
    case Nil
    with steal have "bk_drain acc b = Some (acc, b')" by (subst bk_drain.simps) simp
    moreover have "bk_undrainable b'" using bk_steal_nothing [OF less.prems] steal Nil by simp
    then have "bk_tasks b' = bk_registered b" using undrainable_registered b'(3) by simp
    ultimately show ?thesis using Nil b' by (intro exI [of _ "[]"] exI [of _ b']) simp
  next
    case (Cons x xs)
    then have "size (bk_tasks b') < size (bk_tasks b)" using b'(2) by simp
    from less.hyps [OF this b'(1), of "acc @ st"] obtain st2 b2 where
      "bk_drain (acc @ st) b' = Some ((acc @ st) @ st2, b2)" "bk_inv b2" "bk_tasks b2 = bk_registered b'"
      "bk_tasks b' = mset (map fst st2) + bk_tasks b2" by blast
    moreover have "bk_drain acc b = bk_drain (acc @ st) b'"
      using steal Cons by (subst bk_drain.simps) simp
    ultimately show ?thesis using b'(2,3) by (intro exI [of _ "st @ st2"] exI [of _ b2]) simp
  qed
qed

text \<open>
  C34: Draining a CPU that goes offline ends, and hands over exactly what it takes off the queue.
  What is left is exactly the queued tasks registered with the deadline backend, and nothing on the
  other backends: a registered task stays on the queue of a CPU that no longer runs.
\<close>

theorem pc_drain_terminates:
  assumes "pc_inv s" and "pc_get cpu s = Some b"
  shows "\<exists>st b'. pc_drain_all cpu s = Some (st, pc_put cpu b' s) \<and> bk_tasks b' = bk_registered b \<and>
    bk_tasks b = mset (map fst st) + bk_tasks b'"
proof -
  from bk_drain_ends [OF pc_get_inv [OF assms], of "[]"] obtain st b' where
    "bk_drain [] b = Some (st, b')" "bk_tasks b' = bk_registered b" "bk_tasks b = mset (map fst st) + bk_tasks b'"
    by auto
  with assms(2) show ?thesis by (intro exI [of _ st] exI [of _ b']) (simp add: pc_drain_all_def)
qed

theorem pc_drain_terminates_witness:
  "\<exists>st b'. pc_drain_all 1 pc_example = Some (st, pc_put 1 b' pc_example) \<and> bk_tasks b' = {#} \<and>
    rr_tasks rr_example = mset (map fst st) + bk_tasks b'"
  using pc_drain_terminates [of pc_example 1 "PriorityRR rr_example"] pc_example_ok
  by (simp add: pc_get_def pc_example_def)

end
