(* ===== verification/Vma.thy ===== *)
theory Vma imports Prelude "HOL-Library.Multiset" begin

text \<open>
  Virtual memory areas (\<^verbatim>\<open>kernel/src/mm/vma.rs\<close>): the flags of a mapping, the areas themselves, the
  first-fit search for a free gap, the standard library's binary search over the sorted list, and
  the kernel's own address space. The list is read as a map from addresses to pages, \<open>vma_view\<close>: what
  backs the byte, its protection, and what a fork does with it. Addresses are natural numbers below
  \<open>2 ^ 64\<close>; the one sum the code lets wrap, a file offset, wraps here.
\<close>

section \<open>Flags and areas\<close>

type_synonym page_flags = u64

definition PF_PRESENT :: page_flags where "PF_PRESENT = push_bit 0 1"
definition PF_WRITABLE :: page_flags where "PF_WRITABLE = push_bit 1 1"
definition PF_USER_ACCESSIBLE :: page_flags where "PF_USER_ACCESSIBLE = push_bit 2 1"
definition PF_SHARED :: page_flags where "PF_SHARED = push_bit 10 1"
definition PF_MLOCKED :: page_flags where "PF_MLOCKED = push_bit 11 1"
definition PF_FOREIGN :: page_flags where "PF_FOREIGN = push_bit 53 1"
definition PF_NO_EXECUTE :: page_flags where "PF_NO_EXECUTE = push_bit 63 1"

definition flags_contains :: "page_flags \<Rightarrow> page_flags \<Rightarrow> bool" where
  "flags_contains f g \<longleftrightarrow> f AND g = g"

record file_id =
  fi_fs :: nat
  fi_ino :: nat

datatype (plugins only: code size) vma_kind =
    Anonymous | Stack | Guard | Fixed | Brk
  | FileBacked nat nat "file_id option" bool bool

record fork_policy =
  fp_wipe :: bool
  fp_dont_copy :: bool

definition COPY :: fork_policy where
  "COPY = \<lparr>fp_wipe = False, fp_dont_copy = False\<rparr>"

definition copies_pages :: "fork_policy \<Rightarrow> bool" where
  "copies_pages p \<longleftrightarrow> \<not> fp_wipe p \<and> \<not> fp_dont_copy p"

record vma =
  va_start :: nat
  va_end :: nat
  va_kind :: vma_kind
  va_flags :: page_flags
  va_fork :: fork_policy

definition vma_contains :: "nat \<Rightarrow> vma \<Rightarrow> bool" where
  "vma_contains a v \<longleftrightarrow> va_start v \<le> a \<and> a < va_end v"

definition vma_len :: "vma \<Rightarrow> nat" where
  "vma_len v = va_end v - va_start v"

definition HW_PAGE_SIZE :: nat where "HW_PAGE_SIZE = 4096"

definition is_hw_page_aligned :: "nat \<Rightarrow> bool" where
  "is_hw_page_aligned a \<longleftrightarrow> a mod HW_PAGE_SIZE = 0"

section \<open>The gap search\<close>

text \<open>What is left of the window once the areas are behind the cursor.\<close>

definition gap_tail :: "nat \<Rightarrow> nat \<Rightarrow> nat \<Rightarrow> nat option" where
  "gap_tail sz region_end cursor =
     (if cursor \<le> region_end \<and> sz \<le> region_end - cursor then Some cursor else None)"

fun gap_loop :: "nat \<Rightarrow> nat \<Rightarrow> vma list \<Rightarrow> nat \<Rightarrow> nat option" where
  "gap_loop sz region_end [] cursor = gap_tail sz region_end cursor"
| "gap_loop sz region_end (v # vs) cursor =
     (if va_end v \<le> cursor then gap_loop sz region_end vs cursor
      else if region_end \<le> va_start v then gap_tail sz region_end cursor
      else if cursor \<le> va_start v \<and> sz \<le> va_start v - cursor then Some cursor
      else let cursor = (if cursor < va_end v then va_end v else cursor)
           in if region_end \<le> cursor then None else gap_loop sz region_end vs cursor)"

definition find_gap :: "vma list \<Rightarrow> nat \<Rightarrow> nat \<Rightarrow> nat \<Rightarrow> nat option" where
  "find_gap vs sz region_start region_end =
     (if sz = 0 \<or> region_end \<le> region_start then None
      else gap_loop sz region_end vs region_start)"

section \<open>Binary search by start address\<close>

text \<open>
  \<^verbatim>\<open>slice::binary_search_by_key\<close>: a match (\<open>Inr\<close>) or the place to insert at (\<open>Inl\<close>). On starts in
  strictly ascending order, which every list here has, its documentation leaves one result.
\<close>

function bsearch_loop :: "(nat \<Rightarrow> nat) \<Rightarrow> nat \<Rightarrow> nat \<Rightarrow> nat \<Rightarrow> nat" where
  "bsearch_loop key x base sz =
     (if sz \<le> 1 then base
      else let half = sz div 2; mid = base + half
           in bsearch_loop key x (if x < key mid then base else mid) (sz - half))"
  by auto
termination
  by (relation "measure (\<lambda>(key, x, base, sz). sz)") auto

declare bsearch_loop.simps [simp del]

definition binary_search_start :: "nat \<Rightarrow> vma list \<Rightarrow> nat + nat" where
  "binary_search_start x vs =
     (if vs = [] then Inl 0
      else let key = (\<lambda>i. va_start (vs ! i)); i = bsearch_loop key x 0 (length vs)
           in if key i = x then Inr i else Inl (if key i < x then Suc i else i))"

text \<open>The insertion point \<^verbatim>\<open>unwrap_or_else(|p| p)\<close>, and the last area that starts at or below.\<close>

definition insert_pos :: "nat \<Rightarrow> vma list \<Rightarrow> nat" where
  "insert_pos x vs = (case binary_search_start x vs of Inl p \<Rightarrow> p | Inr p \<Rightarrow> p)"

definition insert_at :: "nat \<Rightarrow> 'a \<Rightarrow> 'a list \<Rightarrow> 'a list" where
  "insert_at i x xs = take i xs @ x # drop i xs"

definition remove_at :: "nat \<Rightarrow> 'a list \<Rightarrow> 'a list" where
  "remove_at i xs = take i xs @ drop (Suc i) xs"

definition find_vma :: "nat \<Rightarrow> vma list \<Rightarrow> vma option" where
  "find_vma addr vs =
     (case (case binary_search_start addr vs of
              Inr i \<Rightarrow> Some i
            | Inl i \<Rightarrow> if i = 0 then None else Some (i - 1)) of
        None \<Rightarrow> None
      | Some i \<Rightarrow> (if i < length vs \<and> vma_contains addr (vs ! i) then Some (vs ! i) else None))"

section \<open>The kernel's address space\<close>

record address_space =
  as_pml4 :: nat
  as_vmas :: "vma list"

definition as_new :: "nat \<Rightarrow> address_space" where
  "as_new pml4 = \<lparr>as_pml4 = pml4, as_vmas = []\<rparr>"

definition overlaps :: "vma \<Rightarrow> vma \<Rightarrow> bool" where
  "overlaps v w \<longleftrightarrow> va_start v < va_end w \<and> va_start w < va_end v"

text \<open>The checks a new area must pass, and the list with it.\<close>

definition vma_check :: "vma \<Rightarrow> vma list \<Rightarrow> unit kernel_result" where
  "vma_check v vs =
     (if \<not> is_hw_page_aligned (va_start v) \<or> \<not> is_hw_page_aligned (va_end v) then Err BadAlignment
      else if va_end v \<le> va_start v then Err InvalidArgument
      else if \<exists>w \<in> set vs. overlaps v w then Err AlreadyExists
      else Ok ())"

definition insert_vma :: "vma \<Rightarrow> vma list \<Rightarrow> vma list" where
  "insert_vma v vs = insert_at (insert_pos (va_start v) vs) v vs"

definition as_add_vma :: "vma \<Rightarrow> address_space \<Rightarrow> address_space \<times> unit kernel_result" where
  "as_add_vma v s =
     (case vma_check v (as_vmas s) of
        Inl e \<Rightarrow> (s, Err e)
      | Inr _ \<Rightarrow> (s\<lparr>as_vmas := insert_vma v (as_vmas s)\<rparr>, Ok ()))"

text \<open>\<^verbatim>\<open>remove_vma\<close>: the area that starts at an address, taken out.\<close>

definition take_vma :: "nat \<Rightarrow> vma list \<Rightarrow> vma option \<times> vma list" where
  "take_vma start vs =
     (case binary_search_start start vs of
        Inr i \<Rightarrow> (Some (vs ! i), remove_at i vs)
      | Inl _ \<Rightarrow> (None, vs))"

definition as_remove_vma :: "nat \<Rightarrow> address_space \<Rightarrow> vma option \<times> address_space" where
  "as_remove_vma start s =
     (case take_vma start (as_vmas s) of (r, vs) \<Rightarrow> (r, s\<lparr>as_vmas := vs\<rparr>))"

text \<open>
  How a page fault is resolved. Copying a shared page and backing a new one touch the page tables:
  \<open>cow\<close> and \<open>demand\<close> stand for them.
\<close>

definition as_resolve_fault ::
  "(nat \<Rightarrow> unit kernel_result) \<Rightarrow> (nat \<Rightarrow> page_flags \<Rightarrow> unit kernel_result) \<Rightarrow>
     nat \<Rightarrow> bool \<Rightarrow> bool \<Rightarrow> bool \<Rightarrow> address_space \<Rightarrow> unit kernel_result" where
  "as_resolve_fault cow demand addr is_present is_write is_fetch s =
     (case find_vma addr (as_vmas s) of
        None \<Rightarrow> Err PageFault
      | Some v \<Rightarrow>
          if is_present then (if is_write then cow addr else Err PageFault)
          else if is_write \<and> \<not> flags_contains (va_flags v) PF_WRITABLE then Err PageFault
          else if is_fetch \<and> flags_contains (va_flags v) PF_NO_EXECUTE then Err PageFault
          else (case va_kind v of
                  Anonymous \<Rightarrow> demand addr (va_flags v)
                | Stack \<Rightarrow> demand addr (va_flags v)
                | Brk \<Rightarrow> demand addr (va_flags v)
                | Guard \<Rightarrow> Err PageFault
                | Fixed \<Rightarrow> Err PageFault
                | FileBacked h off fid sh mw \<Rightarrow> Err PageFault))"

section \<open>Well-formed lists\<close>

definition vmas_ok :: "vma list \<Rightarrow> bool" where
  "vmas_ok vs \<longleftrightarrow>
     sorted_wrt (\<lambda>v w. va_end v \<le> va_start w) vs \<and> (\<forall>v \<in> set vs. va_start v < va_end v)"

lemma vmas_ok_Nil [simp]: "vmas_ok []"
  by (simp add: vmas_ok_def)

lemma vmas_ok_single [simp]: "vmas_ok [v] \<longleftrightarrow> va_start v < va_end v"
  by (simp add: vmas_ok_def)

lemma vmas_ok_Cons [simp]:
  "vmas_ok (v # vs) \<longleftrightarrow>
     va_start v < va_end v \<and> (\<forall>w \<in> set vs. va_end v \<le> va_start w) \<and> vmas_ok vs"
  by (auto simp: vmas_ok_def)

lemma vmas_ok_append:
  "vmas_ok (xs @ ys) \<longleftrightarrow>
     vmas_ok xs \<and> vmas_ok ys \<and> (\<forall>v \<in> set xs. \<forall>w \<in> set ys. va_end v \<le> va_start w)"
  by (induction xs) auto

lemma vmas_ok_nth:
  "vmas_ok vs \<Longrightarrow> i < j \<Longrightarrow> j < length vs \<Longrightarrow> va_end (vs ! i) \<le> va_start (vs ! j)"
  by (simp add: vmas_ok_def sorted_wrt_iff_nth_less)

lemma vmas_ok_pos: "vmas_ok vs \<Longrightarrow> v \<in> set vs \<Longrightarrow> va_start v < va_end v"
  by (simp add: vmas_ok_def)

lemma vmas_ok_starts: "vmas_ok vs \<Longrightarrow> sorted (map va_start vs)"
proof (induction vs)
  case (Cons v vs)
  then have "va_start v \<le> va_start w" if "w \<in> set vs" for w
    using that by (metis less_imp_le order_trans vmas_ok_Cons)
  with Cons show ?case by simp
qed simp

lemma vmas_ok_sort: "vmas_ok vs \<Longrightarrow> sort_key va_start vs = vs"
  by (simp add: sort_key_id_if_sorted vmas_ok_starts)

section \<open>The binary search finds what a scan finds\<close>

lemma bsearch_loop_bound: "0 < sz \<Longrightarrow> bsearch_loop key x base sz < base + sz"
proof (induction key x base sz rule: bsearch_loop.induct)
  case (1 key x base sz)
  show ?case
  proof (cases "sz \<le> 1")
    case True
    with 1 show ?thesis by (simp add: bsearch_loop.simps)
  next
    case False
    then show ?thesis
      using 1 by (subst bsearch_loop.simps) (fastforce simp: Let_def)
  qed
qed

lemma bsearch_loop_below:
  "base = 0 \<or> key base \<le> x \<Longrightarrow> bsearch_loop key x base sz = 0 \<or> key (bsearch_loop key x base sz) \<le> x"
proof (induction key x base sz rule: bsearch_loop.induct)
  case (1 key x base sz)
  show ?case
  proof (cases "sz \<le> 1")
    case True
    with 1 show ?thesis by (simp add: bsearch_loop.simps)
  next
    case False
    then show ?thesis
      using 1 by (subst (1 2) bsearch_loop.simps) (auto simp: Let_def)
  qed
qed

lemma bsearch_loop_above:
  assumes "\<And>j. base + sz \<le> j \<Longrightarrow> j < n \<Longrightarrow> x < key j"
    and "\<And>i j. i < j \<Longrightarrow> j < n \<Longrightarrow> key i < key j" and "base + sz \<le> n" and "0 < sz"
    and "bsearch_loop key x base sz < j" and "j < n"
  shows "x < (key j :: nat)"
  using assms
proof (induction key x base sz arbitrary: j rule: bsearch_loop.induct)
  case (1 key x base sz)
  show ?case
  proof (cases "sz \<le> 1")
    case True
    then have "sz = 1" using "1.prems"(4) by simp
    with "1.prems"(5) have "base + sz \<le> j" by (simp add: bsearch_loop.simps)
    then show ?thesis using "1.prems"(1) "1.prems"(6) by blast
  next
    case False
    let ?mid = "base + sz div 2" and ?sz = "sz - sz div 2"
    let ?base = "if x < key ?mid then base else ?mid"
    have r: "bsearch_loop key x base sz = bsearch_loop key x ?base ?sz"
      using False by (subst bsearch_loop.simps) (simp add: Let_def)
    have up: "x < key k" if k: "?base + ?sz \<le> k" "k < n" for k
    proof (cases "x < key ?mid")
      case True
      show ?thesis
      proof (cases "base + sz \<le> k")
        case out: False
        then have "?mid \<le> k" using k(1) True by simp
        then show ?thesis
          using True "1.prems"(2) [of ?mid k] k(2) by (cases "?mid = k") auto
      qed (use "1.prems"(1) k in blast)
    next
      case no: False
      then have "base + sz \<le> k" using k(1) by simp
      then show ?thesis using "1.prems"(1) k(2) by blast
    qed
    have fit: "?base + ?sz \<le> n" "0 < ?sz" using "1.prems"(3,4) False by auto
    show ?thesis
      by (rule "1.IH" [OF False refl refl up "1.prems"(2) fit(1) fit(2) _ "1.prems"(6)]) (use "1.prems"(5) r in simp_all)
  qed
qed

lemma binary_search_start_cases:
  assumes ok: "vmas_ok vs"
  obtains (hit) i where "binary_search_start x vs = Inr i" and "i < length vs" and "va_start (vs ! i) = x"
  | (miss) p where "binary_search_start x vs = Inl p" and "p \<le> length vs"
      and "\<And>i. i < p \<Longrightarrow> va_start (vs ! i) < x" and "\<And>i. p \<le> i \<Longrightarrow> i < length vs \<Longrightarrow> x < va_start (vs ! i)"
proof (cases "vs = []")
  case True
  then show ?thesis using miss [of 0] by (simp add: binary_search_start_def)
next
  case False
  let ?key = "\<lambda>i. va_start (vs ! i)" and ?n = "length vs"
  let ?b = "bsearch_loop ?key x 0 ?n"
  have asc: "?key i < ?key j" if "i < j" "j < ?n" for i j
    using vmas_ok_nth [OF ok that] vmas_ok_pos [OF ok, of "vs ! i"] that by simp
  have b: "?b < ?n" using bsearch_loop_bound [of ?n ?key x 0] False by simp
  have lo: "?b = 0 \<or> ?key ?b \<le> x" by (rule bsearch_loop_below) simp
  have hi: "x < ?key j" if "?b < j" "j < ?n" for j
    by (rule bsearch_loop_above [where base = 0 and sz = ?n and n = ?n]) (use asc False that in auto)
  consider "?key ?b = x" | "?key ?b < x" | "x < ?key ?b" by linarith
  then show ?thesis
  proof cases
    case 1
    then show ?thesis using hit [of ?b] b False by (simp add: binary_search_start_def Let_def)
  next
    case 2
    have "va_start (vs ! i) < x" if "i < Suc ?b" for i
      using asc [of i ?b] b 2 that by (cases "i = ?b") auto
    moreover have "x < va_start (vs ! i)" if "Suc ?b \<le> i" "i < ?n" for i using hi that by simp
    ultimately show ?thesis
      using miss [of "Suc ?b"] 2 b False by (simp add: binary_search_start_def Let_def)
  next
    case 3
    then have "?b = 0" using lo by auto
    moreover have "x < va_start (vs ! i)" if "i < ?n" for i
      using hi [of i] 3 that \<open>?b = 0\<close> by (cases "i = 0") auto
    moreover have "binary_search_start x vs = Inl 0"
      using 3 False \<open>?b = 0\<close> by (simp add: binary_search_start_def Let_def)
    ultimately show ?thesis using miss [of 0] by simp
  qed
qed

section \<open>The area at an address\<close>

definition vma_at :: "nat \<Rightarrow> vma list \<Rightarrow> vma option" where
  "vma_at a vs = find (vma_contains a) vs"

lemma vma_at_Nil [simp]: "vma_at a [] = None"
  by (simp add: vma_at_def)

lemma vma_at_Cons [simp]: "vma_at a (v # vs) = (if vma_contains a v then Some v else vma_at a vs)"
  by (simp add: vma_at_def)

lemma vma_at_None: "vma_at a vs = None \<longleftrightarrow> (\<forall>v \<in> set vs. \<not> vma_contains a v)"
  unfolding vma_at_def find_None_iff by blast

lemma vma_at_Some: "vmas_ok vs \<Longrightarrow> vma_at a vs = Some v \<longleftrightarrow> v \<in> set vs \<and> vma_contains a v"
proof (induction vs)
  case (Cons w vs)
  then have "w = v" if "vma_contains a w" "vma_contains a v" "v \<in> set vs"
    using that by (fastforce simp: vma_contains_def)
  with Cons show ?case by auto
qed simp

lemma vma_at_append: "vma_at a (xs @ ys) = (case vma_at a xs of Some v \<Rightarrow> Some v | None \<Rightarrow> vma_at a ys)"
  by (induction xs) auto

lemma vma_at_mset:
  assumes "vmas_ok xs" and "vmas_ok ys" and "mset xs = mset ys"
  shows "vma_at a xs = vma_at a ys"
proof -
  have "set xs = set ys" using assms(3) by (metis set_mset_mset)
  then have "vma_at a xs = Some v \<longleftrightarrow> vma_at a ys = Some v" for v
    by (simp add: vma_at_Some assms(1,2))
  then show ?thesis by (metis not_Some_eq)
qed

lemma find_vma_scan:
  assumes ok: "vmas_ok vs"
  shows "find_vma a vs = vma_at a vs"
proof -
  have at: "vma_at a vs = (if vma_contains a (vs ! i) then Some (vs ! i) else None)"
    if i: "i < length vs" "va_start (vs ! i) \<le> a"
      and above: "\<And>j. i < j \<Longrightarrow> j < length vs \<Longrightarrow> a < va_start (vs ! j)" for i
  proof (cases "vma_contains a (vs ! i)")
    case True
    with i show ?thesis by (simp add: vma_at_Some [OF ok])
  next
    case False
    then have over: "va_end (vs ! i) \<le> a" using i by (simp add: vma_contains_def)
    have "\<not> vma_contains a (vs ! j)" if j: "j < length vs" for j
    proof (cases "j < i")
      case True
      with vmas_ok_nth [OF ok True i(1)] i(2) show ?thesis by (simp add: vma_contains_def)
    next
      case nlt: False
      show ?thesis
      proof (cases "j = i")
        case True
        with False show ?thesis by simp
      next
        case ne: False
        with nlt have "i < j" by simp
        from above [OF this j] show ?thesis by (simp add: vma_contains_def)
      qed
    qed
    then have "vma_at a vs = None" by (auto simp: vma_at_None in_set_conv_nth)
    with False show ?thesis by simp
  qed
  from ok show ?thesis
  proof (cases rule: binary_search_start_cases [where x = a])
    case (hit i)
    have "a < va_start (vs ! j)" if "i < j" "j < length vs" for j
      using vmas_ok_nth [OF ok that] vmas_ok_pos [OF ok, of "vs ! i"] hit by simp
    from at [OF hit(2) _ this] hit show ?thesis by (simp add: find_vma_def)
  next
    case (miss p)
    show ?thesis
    proof (cases p)
      case 0
      then have "vma_at a vs = None"
        using miss(4) by (force simp: vma_at_None in_set_conv_nth vma_contains_def)
      with miss 0 show ?thesis by (simp add: find_vma_def)
    next
      case (Suc q)
      have "a < va_start (vs ! j)" if "q < j" "j < length vs" for j using miss(4) that Suc by simp
      moreover have "q < length vs" "va_start (vs ! q) \<le> a"
        using miss(2) miss(3) [of q] Suc by simp_all
      ultimately have "vma_at a vs = (if vma_contains a (vs ! q) then Some (vs ! q) else None)"
        using at by blast
      with miss(1) Suc \<open>q < length vs\<close> show ?thesis by (simp add: find_vma_def)
    qed
  qed
qed

section \<open>Inserting and removing\<close>

lemma mset_insert_at: "mset (insert_at i x xs) = add_mset x (mset xs)"
  by (simp add: insert_at_def) (metis append_take_drop_id mset_append)

lemma mset_remove_at: "i < length xs \<Longrightarrow> add_mset (xs ! i) (mset (remove_at i xs)) = mset xs"
  by (simp add: remove_at_def) (metis id_take_nth_drop mset.simps(2) mset_append union_mset_add_mset_right)

lemma vmas_ok_remove_at: "vmas_ok vs \<Longrightarrow> vmas_ok (remove_at i vs)"
proof -
  assume ok: "vmas_ok vs"
  have "vmas_ok (take i vs @ drop i vs)" using ok by simp
  moreover have "set (drop (Suc i) vs) \<subseteq> set (drop i vs)" by (rule set_drop_subset_set_drop) simp
  moreover have "vmas_ok (take (Suc i) vs @ drop (Suc i) vs)" using ok by simp
  ultimately show ?thesis unfolding remove_at_def vmas_ok_append by blast
qed

lemma vmas_ok_insert_at:
  assumes ok: "vmas_ok vs" and v: "va_start v < va_end v" and p: "p \<le> length vs"
    and lo: "\<And>i. i < p \<Longrightarrow> va_end (vs ! i) \<le> va_start v"
    and hi: "\<And>i. p \<le> i \<Longrightarrow> i < length vs \<Longrightarrow> va_end v \<le> va_start (vs ! i)"
  shows "vmas_ok (insert_at p v vs)"
proof -
  have "vmas_ok (take p vs @ drop p vs)" using ok by simp
  moreover have "\<forall>w \<in> set (take p vs). va_end w \<le> va_start v"
    using lo p by (auto simp: in_set_conv_nth)
  moreover have "\<forall>w \<in> set (drop p vs). va_end v \<le> va_start w"
    using hi p by (auto simp: in_set_conv_nth)
  ultimately show ?thesis using v unfolding insert_at_def vmas_ok_append by auto
qed

lemma insert_vma_ok:
  assumes ok: "vmas_ok vs" and v: "va_start v < va_end v" and free: "\<forall>w \<in> set vs. \<not> overlaps v w"
  shows "vmas_ok (insert_vma v vs)" and "mset (insert_vma v vs) = add_mset v (mset vs)"
proof -
  show "mset (insert_vma v vs) = add_mset v (mset vs)" by (simp add: insert_vma_def mset_insert_at)
  have apart: "va_end v \<le> va_start w \<or> va_end w \<le> va_start v" if "w \<in> set vs" for w
    using free that by (auto simp: overlaps_def not_less)
  from ok show "vmas_ok (insert_vma v vs)"
  proof (cases rule: binary_search_start_cases [where x = "va_start v"])
    case (hit i)
    then have "overlaps v (vs ! i)"
      using v vmas_ok_pos [OF ok, of "vs ! i"] by (simp add: overlaps_def)
    with free hit(2) show ?thesis by simp
  next
    case (miss p)
    have "insert_vma v vs = insert_at p v vs" using miss(1) by (simp add: insert_vma_def insert_pos_def)
    moreover have "va_end (vs ! i) \<le> va_start v" if "i < p" for i
    proof -
      have "vs ! i \<in> set vs" using that miss(2) by simp
      from apart [OF this] miss(3) [OF that] v show ?thesis by linarith
    qed
    moreover have "va_end v \<le> va_start (vs ! i)" if "p \<le> i" "i < length vs" for i
    proof -
      from vmas_ok_pos [OF ok, of "vs ! i"] apart [of "vs ! i"] miss(4) [OF that] that(2) show ?thesis by force
    qed
    ultimately show ?thesis using vmas_ok_insert_at [OF ok v miss(2)] by simp
  qed
qed

lemma vma_at_insert:
  assumes "vmas_ok vs" and "va_start v < va_end v" and "\<forall>w \<in> set vs. \<not> overlaps v w"
  shows "vma_at a (insert_vma v vs) = (if vma_contains a v then Some v else vma_at a vs)"
proof -
  note ins = insert_vma_ok [OF assms]
  have set: "set (insert_vma v vs) = insert v (set vs)" using ins(2) by (metis set_mset_add_mset_insert set_mset_mset)
  show ?thesis
  proof (cases "vma_contains a v")
    case True
    then show ?thesis by (simp add: vma_at_Some [OF ins(1)] set)
  next
    case False
    have "vma_at a (insert_vma v vs) = Some w \<longleftrightarrow> vma_at a vs = Some w" for w
      using False by (auto simp: vma_at_Some [OF ins(1)] vma_at_Some [OF assms(1)] set)
    then have "vma_at a (insert_vma v vs) = vma_at a vs" by (metis not_Some_eq)
    with False show ?thesis by simp
  qed
qed

lemma take_vma_cases:
  assumes ok: "vmas_ok vs"
  obtains (found) v vs' where "take_vma x vs = (Some v, vs')" and "va_start v = x"
      and "mset vs = add_mset v (mset vs')" and "vmas_ok vs'"
  | (absent) "take_vma x vs = (None, vs)"
  using ok
proof (cases rule: binary_search_start_cases [where x = x])
  case (hit i)
  then show ?thesis
    using found [of "vs ! i" "remove_at i vs"] mset_remove_at [OF hit(2)] vmas_ok_remove_at [OF ok]
    by (simp add: take_vma_def)
next
  case (miss p)
  then show ?thesis using absent by (simp add: take_vma_def)
qed

section \<open>The gap search is first fit\<close>

definition gap_fits :: "vma list \<Rightarrow> nat \<Rightarrow> nat \<Rightarrow> nat \<Rightarrow> nat \<Rightarrow> bool" where
  "gap_fits vs sz lo hi a \<longleftrightarrow>
     lo \<le> a \<and> a + sz \<le> hi \<and> (\<forall>v \<in> set vs. va_end v \<le> a \<or> a + sz \<le> va_start v)"

definition lowest :: "(nat \<Rightarrow> bool) \<Rightarrow> nat option \<Rightarrow> bool" where
  "lowest P r \<longleftrightarrow> (case r of None \<Rightarrow> \<forall>b. \<not> P b | Some a \<Rightarrow> P a \<and> (\<forall>b. P b \<longrightarrow> a \<le> b))"

lemma lowest_cong: "(\<And>b. P b \<longleftrightarrow> Q b) \<Longrightarrow> lowest P r \<longleftrightarrow> lowest Q r"
  unfolding lowest_def by (cases r) auto

lemma lowest_eq: "lowest P r \<Longrightarrow> r = (if \<exists>a. P a then Some (LEAST a. P a) else None)"
  by (auto simp: lowest_def intro: Least_equality [symmetric] split: option.splits)

lemma gap_tail_lowest: "0 < sz \<Longrightarrow> lowest (gap_fits [] sz c hi) (gap_tail sz hi c)"
  by (auto simp: lowest_def gap_fits_def gap_tail_def)

lemma gap_loop_lowest:
  "vmas_ok vs \<Longrightarrow> 0 < sz \<Longrightarrow> c < hi \<Longrightarrow> lowest (gap_fits vs sz c hi) (gap_loop sz hi vs c)"
proof (induction vs arbitrary: c)
  case Nil
  then show ?case by (simp add: gap_tail_lowest)
next
  case (Cons v vs)
  note ok = Cons.prems(1)
  have v: "va_start v < va_end v" "\<forall>w \<in> set vs. va_end v \<le> va_start w" "vmas_ok vs" using ok by simp_all
  consider (behind) "va_end v \<le> c" | (past) "c < va_end v" "hi \<le> va_start v"
    | (hole) "c < va_end v" "va_start v < hi" "c \<le> va_start v" "sz \<le> va_start v - c"
    | (small) "c < va_end v" "va_start v < hi" "\<not> (c \<le> va_start v \<and> sz \<le> va_start v - c)" by linarith
  then show ?case
  proof cases
    case behind
    then have "lowest (gap_fits (v # vs) sz c hi) r \<longleftrightarrow> lowest (gap_fits vs sz c hi) r" for r
      by (intro lowest_cong) (auto simp: gap_fits_def)
    with behind Cons.IH [OF v(3) Cons.prems(2,3)] show ?thesis by simp
  next
    case past
    have "b + sz \<le> va_start w" if "w \<in> set (v # vs)" "b + sz \<le> hi" for b w
      using that past v by fastforce
    then have "gap_fits (v # vs) sz c hi b \<longleftrightarrow> gap_fits [] sz c hi b" for b
      unfolding gap_fits_def by auto
    then have "lowest (gap_fits (v # vs) sz c hi) (gap_tail sz hi c)"
      using gap_tail_lowest [OF Cons.prems(2), of c hi] by (simp add: lowest_cong [of "gap_fits (v # vs) sz c hi"])
    with past show ?thesis by simp
  next
    case hole
    then have "gap_fits (v # vs) sz c hi c" using v Cons.prems(3) by (fastforce simp: gap_fits_def)
    then have "lowest (gap_fits (v # vs) sz c hi) (Some c)" by (simp add: lowest_def gap_fits_def)
    with hole show ?thesis by simp
  next
    case small
    then have "gap_fits (v # vs) sz c hi b \<longleftrightarrow> gap_fits vs sz (va_end v) hi b" for b
      unfolding gap_fits_def by auto
    then have *: "lowest (gap_fits (v # vs) sz c hi) r \<longleftrightarrow> lowest (gap_fits vs sz (va_end v) hi) r" for r
      by (rule lowest_cong)
    show ?thesis
    proof (cases "hi \<le> va_end v")
      case True
      then have "lowest (gap_fits vs sz (va_end v) hi) None"
        using Cons.prems(2) by (auto simp: lowest_def gap_fits_def)
      with True small * show ?thesis by auto
    next
      case False
      with Cons.IH [OF v(3) Cons.prems(2), of "va_end v"] small * show ?thesis by auto
    qed
  qed
qed

lemma find_gap_lowest_fit: "vmas_ok vs \<Longrightarrow> 0 < sz \<Longrightarrow> lowest (gap_fits vs sz lo hi) (find_gap vs sz lo hi)"
  using gap_loop_lowest [of vs sz lo hi]
  by (cases "hi \<le> lo") (auto simp: find_gap_def lowest_def gap_fits_def)

lemma find_gap_SomeD:
  "vmas_ok vs \<Longrightarrow> find_gap vs sz lo hi = Some a \<Longrightarrow> 0 < sz \<and> gap_fits vs sz lo hi a"
  using find_gap_lowest_fit [of vs sz lo hi] by (cases "sz = 0") (auto simp: find_gap_def lowest_def)

text \<open>
  C33: the search for free address space is first fit and complete: over a sorted list without
  overlaps it returns the lowest address in the window whose whole range is free, and fails only
  when no range of that size is free.
\<close>

theorem find_gap_lowest:
  assumes "vmas_ok vs" and "0 < sz"
  shows "find_gap vs sz lo hi = (if \<exists>a. gap_fits vs sz lo hi a then Some (LEAST a. gap_fits vs sz lo hi a) else None)"
  by (rule lowest_eq) (rule find_gap_lowest_fit [OF assms])

definition plain_vma :: "nat \<Rightarrow> nat \<Rightarrow> vma" where
  "plain_vma s e = \<lparr>va_start = s, va_end = e, va_kind = Anonymous, va_flags = PF_WRITABLE, va_fork = COPY\<rparr>"

theorem find_gap_lowest_witness:
  "(LEAST a. gap_fits [plain_vma 4096 8192, plain_vma 12288 16384, plain_vma 24576 28672] 8192 4096 65536 a) = 16384"
proof -
  let ?vs = "[plain_vma 4096 8192, plain_vma 12288 16384, plain_vma 24576 28672]"
  have "find_gap ?vs 8192 4096 65536 = Some 16384"
    by (simp add: find_gap_def plain_vma_def)
  moreover have "vmas_ok ?vs" by (simp add: plain_vma_def)
  ultimately show ?thesis using find_gap_lowest [of ?vs 8192 4096 65536] by (simp split: if_splits)
qed

section \<open>The kernel's space\<close>

datatype as_event = AsAdd vma | AsRemove nat

fun as_step :: "as_event \<Rightarrow> address_space \<Rightarrow> address_space" where
  "as_step (AsAdd v) s = fst (as_add_vma v s)"
| "as_step (AsRemove start) s = snd (as_remove_vma start s)"

lemma vma_check_Inr:
  "vma_check v vs = Inr u \<longleftrightarrow> is_hw_page_aligned (va_start v) \<and> is_hw_page_aligned (va_end v) \<and>
     va_start v < va_end v \<and> (\<forall>w \<in> set vs. \<not> overlaps v w)"
  by (auto simp: vma_check_def)

lemma as_step_ok: "vmas_ok (as_vmas s) \<Longrightarrow> vmas_ok (as_vmas (as_step e s))"
proof (cases e)
  case (AsAdd v)
  assume "vmas_ok (as_vmas s)"
  then show ?thesis
    using AsAdd insert_vma_ok(1) [of "as_vmas s" v] by (auto simp: as_add_vma_def vma_check_Inr split: sum.splits)
next
  case (AsRemove x)
  assume ok: "vmas_ok (as_vmas s)"
  then show ?thesis
    by (cases rule: take_vma_cases [where x = x]) (use AsRemove ok in \<open>simp_all add: as_remove_vma_def\<close>)
qed

interpretation asm: machine as_step "\<lambda>s. vmas_ok (as_vmas s)"
  by unfold_locales (rule as_step_ok)

text \<open>
  Whatever is added to the kernel's address space and removed from it, the areas stay sorted
  and disjoint, so the binary search of the fault handler finds exactly the area that contains the
  faulting address, and none when none does.
\<close>

lemma kernel_lookup_is_exact:
  "find_vma a (as_vmas (fold as_step es (as_new pml4))) = Some v \<longleftrightarrow>
     v \<in> set (as_vmas (fold as_step es (as_new pml4))) \<and> vma_contains a v"
proof -
  have "vmas_ok (as_vmas (fold as_step es (as_new pml4)))"
    by (rule asm.inv_run) (simp add: as_new_def)
  then show ?thesis by (simp add: find_vma_scan vma_at_Some)
qed

end
