(* ===== verification/ProcMemory.thy ===== *)
theory ProcMemory imports Vma OrdMap begin

text \<open>
  The memory of processes (\<^verbatim>\<open>kernel/src/proc/pcb.rs\<close>): each process's list of areas and every
  operation on it, behind \<^verbatim>\<open>mmap\<close>, \<^verbatim>\<open>munmap\<close>, \<^verbatim>\<open>mprotect\<close>, \<^verbatim>\<open>mlock\<close>, \<^verbatim>\<open>madvise\<close>, \<^verbatim>\<open>brk\<close>, device mappings,
  \<^verbatim>\<open>fork\<close>, \<^verbatim>\<open>execve\<close> and exit. An operation is written on one process, with \<open>vm_\<close>, and lifted to the
  process table, with \<open>pm_\<close>. What is written here is the critical section under the table's lock. The
  references file mappings hold on their files are taken and given back one by one after that lock
  is dropped: an operation only returns the list of the \<open>ref_step\<close>s its caller performs then, in
  order, as the code collects them in its vectors of retains and releases. \<open>MemoryRaces\<close> performs
  them as steps of their own, between which other calls run.
\<close>

section \<open>State\<close>

record future_lock =
  fl_onfault :: bool

record vm =
  vm_vmas :: "vma list"
  vm_future :: "future_lock option"
  vm_pml4 :: nat

type_synonym vm_table = "(nat, vm) btree"

text \<open>What an operation does to the process it finds, and its answer when there is none.\<close>

definition with_proc :: "nat \<Rightarrow> vm_table \<Rightarrow> 'a \<Rightarrow> (vm \<Rightarrow> vm \<times> 'a) \<Rightarrow> vm_table \<times> 'a" where
  "with_proc pid t missing f =
     (case bt_get t pid of
        None \<Rightarrow> (t, missing)
      | Some p \<Rightarrow> (case f p of (p', r) \<Rightarrow> (bt_insert pid p' t, r)))"

record backing =
  bg_handle :: nat
  bg_shared :: "file_id option"
  bg_may_write :: bool

definition backing_of :: "vma \<Rightarrow> backing option" where
  "backing_of v =
     (case va_kind v of
        FileBacked h off fid sh mw \<Rightarrow>
          Some \<lparr>bg_handle = h, bg_shared = (if sh then fid else None), bg_may_write = (sh \<and> mw)\<rparr>
      | _ \<Rightarrow> None)"

datatype ref_step = Retain backing | Release backing

text \<open>\<^verbatim>\<open>u64::wrapping_add\<close> and \<^verbatim>\<open>wrapping_sub\<close>.\<close>

definition wrapping_add64 :: "nat \<Rightarrow> nat \<Rightarrow> nat" where
  "wrapping_add64 a b = (a + b) mod 2 ^ 64"

definition wrapping_sub64 :: "nat \<Rightarrow> nat \<Rightarrow> nat" where
  "wrapping_sub64 a b = nat ((int a - int b) mod 2 ^ 64)"

section \<open>Adding areas\<close>

definition future_lock_flags :: "vm \<Rightarrow> page_flags \<Rightarrow> page_flags" where
  "future_lock_flags p flags = (if vm_future p \<noteq> None then flags OR PF_MLOCKED else flags)"

definition vm_set_future :: "future_lock option \<Rightarrow> vm \<Rightarrow> vm \<times> unit" where
  "vm_set_future future p = (p\<lparr>vm_future := future\<rparr>, ())"

definition vm_add_vma :: "vma \<Rightarrow> vm \<Rightarrow> vm \<times> unit kernel_result" where
  "vm_add_vma v p =
     (case vma_check v (vm_vmas p) of
        Inl e \<Rightarrow> (p, Err e)
      | Inr _ \<Rightarrow>
          (p\<lparr>vm_vmas := insert_vma (v\<lparr>va_flags := future_lock_flags p (va_flags v)\<rparr>) (vm_vmas p)\<rparr>, Ok ()))"

definition mergeable_kind :: "vma_kind \<Rightarrow> bool" where
  "mergeable_kind k \<longleftrightarrow> k = Anonymous \<or> k = Stack \<or> k = Brk"

definition vm_add_vma_merging :: "vma \<Rightarrow> vm \<Rightarrow> vm \<times> unit kernel_result" where
  "vm_add_vma_merging v p =
     (let v = v\<lparr>va_flags := future_lock_flags p (va_flags v)\<rparr>; vs = vm_vmas p
      in case vma_check v vs of
           Inl e \<Rightarrow> (p, Err e)
         | Inr _ \<Rightarrow>
             (case (if mergeable_kind (va_kind v)
                    then first_index (\<lambda>w. va_end w = va_start v \<and> va_kind w = va_kind v
                                        \<and> va_flags w = va_flags v \<and> va_fork w = va_fork v) vs
                    else None) of
                Some i \<Rightarrow> (p\<lparr>vm_vmas := vs[i := (vs ! i)\<lparr>va_end := va_end v\<rparr>]\<rparr>, Ok ())
              | None \<Rightarrow> vm_add_vma v p))"

text \<open>
  \<^verbatim>\<open>reserve_unmapped_area_phased\<close>: a phase asks for an address that many bytes past a 16 KiB
  boundary; \<^verbatim>\<open>& mask\<close> is the remainder modulo the frame size.
\<close>

definition vm_reserve ::
  "nat \<Rightarrow> nat option \<Rightarrow> nat \<Rightarrow> nat \<Rightarrow> vma_kind \<Rightarrow> page_flags \<Rightarrow> nat \<Rightarrow> vm \<Rightarrow> vm \<times> nat option" where
  "vm_reserve sz phase region_start region_end kind flags span p =
     (case find_gap (vm_vmas p) span region_start region_end of
        None \<Rightarrow> (p, None)
      | Some gap \<Rightarrow>
          let lead = (case phase of None \<Rightarrow> 0 | Some ph \<Rightarrow> wrapping_sub64 ph gap mod FRAME_SIZE)
          in case checked_add64 gap lead of
               None \<Rightarrow> (p, None)
             | Some base \<Rightarrow>
                 (case checked_add64 base sz of
                    None \<Rightarrow> (p, None)
                  | Some e \<Rightarrow>
                      (p\<lparr>vm_vmas := insert_vma
                           \<lparr>va_start = base, va_end = e, va_kind = kind,
                            va_flags = future_lock_flags p flags, va_fork = COPY\<rparr> (vm_vmas p)\<rparr>,
                       Some base)))"

definition reserve_span :: "nat \<Rightarrow> nat option \<Rightarrow> nat option" where
  "reserve_span sz phase = (case phase of Some _ \<Rightarrow> checked_add64 sz FRAME_SIZE | None \<Rightarrow> Some sz)"

definition pm_reserve ::
  "nat \<Rightarrow> nat \<Rightarrow> nat option \<Rightarrow> nat \<Rightarrow> nat \<Rightarrow> vma_kind \<Rightarrow> page_flags \<Rightarrow> vm_table \<Rightarrow> vm_table \<times> nat option" where
  "pm_reserve pid sz phase region_start region_end kind flags t =
     (case reserve_span sz phase of
        None \<Rightarrow> (t, None)
      | Some span \<Rightarrow> with_proc pid t None (vm_reserve sz phase region_start region_end kind flags span))"

definition pm_add_vma :: "nat \<Rightarrow> vma \<Rightarrow> vm_table \<Rightarrow> vm_table \<times> unit kernel_result" where
  "pm_add_vma pid v t = with_proc pid t (Err NoSuchProcess) (vm_add_vma v)"

definition pm_add_vma_merging :: "nat \<Rightarrow> vma \<Rightarrow> vm_table \<Rightarrow> vm_table \<times> unit kernel_result" where
  "pm_add_vma_merging pid v t = with_proc pid t (Err NoSuchProcess) (vm_add_vma_merging v)"

section \<open>Cutting areas\<close>

definition vma_subrange :: "vma \<Rightarrow> nat \<Rightarrow> nat \<Rightarrow> page_flags \<Rightarrow> vma" where
  "vma_subrange v new_start new_end flags =
     \<lparr>va_start = new_start, va_end = new_end,
      va_kind = (case va_kind v of
                   FileBacked h off fid sh mw \<Rightarrow>
                     FileBacked h (wrapping_add64 off (wrapping_sub64 new_start (va_start v))) fid sh mw
                 | other \<Rightarrow> other),
      va_flags = flags, va_fork = va_fork v\<rparr>"

text \<open>
  An area that meets the range is replaced by what is left of it below, by the middle the operation
  makes, and by what is left of it above.
\<close>

definition apart :: "nat \<Rightarrow> nat \<Rightarrow> vma \<Rightarrow> bool" where
  "apart s e v \<longleftrightarrow> va_end v \<le> s \<or> e \<le> va_start v"

definition vma_pieces :: "nat \<Rightarrow> nat \<Rightarrow> vma list \<Rightarrow> vma \<Rightarrow> vma list" where
  "vma_pieces s e middle v =
     (if va_start v < s then [vma_subrange v (va_start v) s (va_flags v)] else [])
     @ middle
     @ (if e < va_end v then [vma_subrange v e (va_end v) (va_flags v)] else [])"

definition cut_piece :: "nat \<Rightarrow> nat \<Rightarrow> vma \<Rightarrow> vma list" where
  "cut_piece s e v = (if apart s e v then [v] else vma_pieces s e [] v)"

definition protect_flags :: "bool \<Rightarrow> bool \<Rightarrow> bool \<Rightarrow> page_flags \<Rightarrow> page_flags" where
  "protect_flags want_write want_exec want_access f =
     (let f = f AND NOT PF_WRITABLE AND NOT PF_NO_EXECUTE AND NOT PF_USER_ACCESSIBLE;
          f = (if want_access then f OR PF_USER_ACCESSIBLE else f);
          f = (if want_write then f OR PF_WRITABLE else f)
      in if \<not> want_exec then f OR PF_NO_EXECUTE else f)"

definition middle :: "nat \<Rightarrow> nat \<Rightarrow> vma \<Rightarrow> page_flags \<Rightarrow> vma" where
  "middle s e v flags = vma_subrange v (max s (va_start v)) (min e (va_end v)) flags"

definition protect_piece :: "bool \<Rightarrow> bool \<Rightarrow> bool \<Rightarrow> nat \<Rightarrow> nat \<Rightarrow> vma \<Rightarrow> vma list" where
  "protect_piece w x a s e v =
     (if apart s e v then [v] else vma_pieces s e [middle s e v (protect_flags w x a (va_flags v))] v)"

definition lock_flags :: "bool \<Rightarrow> page_flags \<Rightarrow> page_flags" where
  "lock_flags lock f = (if lock then f OR PF_MLOCKED else f AND NOT PF_MLOCKED)"

definition lock_piece :: "bool \<Rightarrow> nat \<Rightarrow> nat \<Rightarrow> vma \<Rightarrow> vma list" where
  "lock_piece lock s e v =
     (if apart s e v \<or> flags_contains (va_flags v) PF_MLOCKED = lock then [v]
      else vma_pieces s e [middle s e v (lock_flags lock (va_flags v))] v)"

datatype fork_advice = AdviseWipe | AdviseKeep | AdviseDontCopy | AdviseCopy

fun advice_apply :: "fork_advice \<Rightarrow> fork_policy \<Rightarrow> fork_policy" where
  "advice_apply AdviseWipe p = p\<lparr>fp_wipe := True\<rparr>"
| "advice_apply AdviseKeep p = p\<lparr>fp_wipe := False\<rparr>"
| "advice_apply AdviseDontCopy p = p\<lparr>fp_dont_copy := True\<rparr>"
| "advice_apply AdviseCopy p = p\<lparr>fp_dont_copy := False\<rparr>"

definition advise_piece :: "fork_advice \<Rightarrow> nat \<Rightarrow> nat \<Rightarrow> vma \<Rightarrow> vma list" where
  "advise_piece adv s e v =
     (let policy = advice_apply adv (va_fork v)
      in if apart s e v \<or> policy = va_fork v then [v]
         else vma_pieces s e [(middle s e v (va_flags v))\<lparr>va_fork := policy\<rparr>] v)"

text \<open>The whole list, each area replaced by its pieces, sorted again.\<close>

definition edit_vmas :: "(vma \<Rightarrow> vma list) \<Rightarrow> vma list \<Rightarrow> vma list" where
  "edit_vmas piece vs = sort_key va_start (concat (map piece vs))"

definition backings :: "vma list \<Rightarrow> backing list" where
  "backings vs = List.map_filter backing_of vs"

text \<open>
  The references. \<^verbatim>\<open>munmap\<close> gives back the whole area's and takes one per remainder, the latter first;
  the others keep the area's and take one for each piece beyond the first.
\<close>

definition cut_refs :: "nat \<Rightarrow> nat \<Rightarrow> vma list \<Rightarrow> ref_step list" where
  "cut_refs s e vs =
     (let hit = filter (\<lambda>v. \<not> apart s e v) vs
      in map Retain (backings (concat (map (vma_pieces s e []) hit))) @ map Release (backings hit))"

definition split_refs :: "(vma \<Rightarrow> vma list) \<Rightarrow> vma list \<Rightarrow> ref_step list" where
  "split_refs piece vs =
     concat (map (\<lambda>v. case backing_of v of
                        None \<Rightarrow> []
                      | Some b \<Rightarrow> replicate (length (piece v) - 1) (Retain b)) vs)"

section \<open>The range operations\<close>

definition vm_remove_vma :: "nat \<Rightarrow> vm \<Rightarrow> vm \<times> bool \<times> ref_step list" where
  "vm_remove_vma start p =
     (case take_vma start (vm_vmas p) of
        (None, vs) \<Rightarrow> (p, False, [])
      | (Some v, vs) \<Rightarrow> (p\<lparr>vm_vmas := vs\<rparr>, True, map Release (backings [v])))"

definition pm_remove_vma :: "nat \<Rightarrow> nat \<Rightarrow> vm_table \<Rightarrow> vm_table \<times> bool \<times> ref_step list" where
  "pm_remove_vma pid start t = with_proc pid t (False, []) (vm_remove_vma start)"

definition vm_remove_range :: "nat \<Rightarrow> nat \<Rightarrow> vm \<Rightarrow> vm \<times> unit kernel_result \<times> ref_step list" where
  "vm_remove_range s e p =
     (p\<lparr>vm_vmas := edit_vmas (cut_piece s e) (vm_vmas p)\<rparr>, Ok (), cut_refs s e (vm_vmas p))"

definition pm_remove_range :: "nat \<Rightarrow> nat \<Rightarrow> nat \<Rightarrow> vm_table \<Rightarrow> vm_table \<times> unit kernel_result \<times> ref_step list" where
  "pm_remove_range pid s e t =
     (if e \<le> s then (t, Err InvalidArgument, [])
      else with_proc pid t (Err NoSuchProcess, []) (vm_remove_range s e))"

text \<open>A shared mapping whose handle may not write the file.\<close>

definition write_forbidden :: "vma \<Rightarrow> bool" where
  "write_forbidden v \<longleftrightarrow>
     (case va_kind v of FileBacked h off fid sh mw \<Rightarrow> sh \<and> \<not> mw | _ \<Rightarrow> False)"

definition vm_protect ::
  "nat \<Rightarrow> nat \<Rightarrow> bool \<Rightarrow> bool \<Rightarrow> bool \<Rightarrow> vm \<Rightarrow> vm \<times> unit kernel_result \<times> ref_step list" where
  "vm_protect s e w x a p =
     (if w \<and> (\<exists>v \<in> set (vm_vmas p). s < va_end v \<and> va_start v < e \<and> write_forbidden v)
      then (p, Err PermissionDenied, [])
      else (p\<lparr>vm_vmas := edit_vmas (protect_piece w x a s e) (vm_vmas p)\<rparr>, Ok (),
            split_refs (protect_piece w x a s e) (vm_vmas p)))"

definition pm_protect ::
  "nat \<Rightarrow> nat \<Rightarrow> nat \<Rightarrow> bool \<Rightarrow> bool \<Rightarrow> bool \<Rightarrow> vm_table \<Rightarrow> vm_table \<times> unit kernel_result \<times> ref_step list" where
  "pm_protect pid s e w x a t =
     (if e \<le> s then (t, Err InvalidArgument, [])
      else with_proc pid t (Err NoSuchProcess, []) (vm_protect s e w x a))"

definition vm_lock_range :: "nat \<Rightarrow> nat \<Rightarrow> bool \<Rightarrow> vm \<Rightarrow> vm \<times> ref_step list" where
  "vm_lock_range s e lock p =
     (p\<lparr>vm_vmas := edit_vmas (lock_piece lock s e) (vm_vmas p)\<rparr>, split_refs (lock_piece lock s e) (vm_vmas p))"

definition pm_lock_range :: "nat \<Rightarrow> nat \<Rightarrow> nat \<Rightarrow> bool \<Rightarrow> vm_table \<Rightarrow> vm_table \<times> ref_step list" where
  "pm_lock_range pid s e lock t =
     (if e \<le> s then (t, []) else with_proc pid t [] (vm_lock_range s e lock))"

definition vm_lock_all :: "bool \<Rightarrow> vm \<Rightarrow> vm \<times> unit" where
  "vm_lock_all lock p =
     (p\<lparr>vm_vmas := map (\<lambda>v. v\<lparr>va_flags := lock_flags lock (va_flags v)\<rparr>) (vm_vmas p)\<rparr>, ())"

definition pm_lock_all :: "nat \<Rightarrow> bool \<Rightarrow> vm_table \<Rightarrow> vm_table \<times> unit" where
  "pm_lock_all pid lock t = with_proc pid t () (vm_lock_all lock)"

definition is_private_anonymous :: "vma \<Rightarrow> bool" where
  "is_private_anonymous v \<longleftrightarrow>
     (va_kind v = Anonymous \<or> va_kind v = Stack \<or> va_kind v = Brk) \<and> \<not> flags_contains (va_flags v) PF_SHARED"

text \<open>Whether the areas that meet the range cover it: the walk's cursor and whether it saw a gap.\<close>

fun cover_loop :: "vma list \<Rightarrow> nat \<Rightarrow> bool \<Rightarrow> nat \<times> bool" where
  "cover_loop [] cursor gap = (cursor, gap)"
| "cover_loop (v # vs) cursor gap =
     cover_loop vs (max cursor (va_end v)) (gap \<or> cursor < va_start v)"

definition vm_set_fork_policy ::
  "nat \<Rightarrow> nat \<Rightarrow> fork_advice \<Rightarrow> vm \<Rightarrow> vm \<times> bool kernel_result \<times> ref_step list" where
  "vm_set_fork_policy s e adv p =
     (let hit = filter (\<lambda>v. va_start v < e \<and> s < va_end v) (vm_vmas p)
      in if adv = AdviseWipe \<and> \<not> list_all is_private_anonymous hit then (p, Err InvalidArgument, [])
         else case cover_loop hit s False of
                (cursor, gap) \<Rightarrow>
                  (p\<lparr>vm_vmas := edit_vmas (advise_piece adv s e) (vm_vmas p)\<rparr>,
                   Ok (\<not> gap \<and> e \<le> cursor), split_refs (advise_piece adv s e) (vm_vmas p)))"

definition pm_set_fork_policy ::
  "nat \<Rightarrow> nat \<Rightarrow> nat \<Rightarrow> fork_advice \<Rightarrow> vm_table \<Rightarrow> vm_table \<times> bool kernel_result \<times> ref_step list" where
  "pm_set_fork_policy pid s e adv t =
     (if e \<le> s then (t, Err InvalidArgument, [])
      else with_proc pid t (Err NoSuchProcess, []) (vm_set_fork_policy s e adv))"

section \<open>Device regions\<close>

definition device_region :: "nat \<Rightarrow> vma \<Rightarrow> bool" where
  "device_region e v \<longleftrightarrow> va_end v = e \<and> va_kind v = Fixed \<and> flags_contains (va_flags v) PF_FOREIGN"

definition vm_remove_foreign :: "nat \<Rightarrow> nat \<Rightarrow> vm \<Rightarrow> vm \<times> bool" where
  "vm_remove_foreign s e p =
     (case binary_search_start s (vm_vmas p) of
        Inl _ \<Rightarrow> (p, False)
      | Inr i \<Rightarrow> (if device_region e (vm_vmas p ! i) then (p\<lparr>vm_vmas := remove_at i (vm_vmas p)\<rparr>, True)
                  else (p, False)))"

definition pm_remove_foreign :: "nat \<Rightarrow> nat \<Rightarrow> nat \<Rightarrow> vm_table \<Rightarrow> vm_table \<times> bool" where
  "pm_remove_foreign pid s e t = with_proc pid t False (vm_remove_foreign s e)"

record reservation =
  rs_flags :: page_flags
  rs_fork :: fork_policy

definition claim_pieces :: "nat \<Rightarrow> nat \<Rightarrow> page_flags \<Rightarrow> vma \<Rightarrow> vma list" where
  "claim_pieces s e flags v =
     vma_pieces s e [\<lparr>va_start = s, va_end = e, va_kind = Fixed, va_flags = flags,
                      va_fork = COPY\<lparr>fp_dont_copy := True\<rparr>\<rparr>] v"

definition vm_claim :: "nat \<Rightarrow> nat \<Rightarrow> page_flags \<Rightarrow> vm \<Rightarrow> vm \<times> reservation kernel_result" where
  "vm_claim s e flags p =
     (case first_index (\<lambda>v. va_start v \<le> s \<and> e \<le> va_end v) (vm_vmas p) of
        None \<Rightarrow> (p, Err InvalidArgument)
      | Some i \<Rightarrow>
          let v = vm_vmas p ! i
          in if \<not> (va_kind v = Anonymous \<and> \<not> flags_contains (va_flags v) PF_SHARED
                  \<and> flags_contains (va_flags v) PF_WRITABLE) then (p, Err InvalidArgument)
             else (p\<lparr>vm_vmas := fold (insert_at i) (rev (claim_pieces s e flags v)) (remove_at i (vm_vmas p))\<rparr>,
                   Ok \<lparr>rs_flags = va_flags v, rs_fork = va_fork v\<rparr>))"

definition pm_claim :: "nat \<Rightarrow> nat \<Rightarrow> nat \<Rightarrow> page_flags \<Rightarrow> vm_table \<Rightarrow> vm_table \<times> reservation kernel_result" where
  "pm_claim pid s e flags t =
     (if e \<le> s \<or> s mod FRAME_SIZE \<noteq> 0 \<or> e mod FRAME_SIZE \<noteq> 0 then (t, Err InvalidArgument)
      else with_proc pid t (Err NoSuchProcess) (vm_claim s e flags))"

text \<open>The neighbour after is joined first, then the one before.\<close>

definition same_reservation :: "reservation \<Rightarrow> vma \<Rightarrow> bool" where
  "same_reservation r v \<longleftrightarrow> va_kind v = Anonymous \<and> va_flags v = rs_flags r \<and> va_fork v = rs_fork r"

definition join_after :: "nat \<Rightarrow> reservation \<Rightarrow> nat \<Rightarrow> vma list \<Rightarrow> nat \<times> vma list" where
  "join_after e r i vs =
     (if Suc i < length vs \<and> va_start (vs ! Suc i) = e \<and> same_reservation r (vs ! Suc i)
      then (va_end (vs ! Suc i), remove_at (Suc i) vs) else (e, vs))"

definition join_before :: "nat \<Rightarrow> nat \<Rightarrow> reservation \<Rightarrow> nat \<Rightarrow> vma list \<Rightarrow> vma list" where
  "join_before s e r i vs =
     (if 0 < i \<and> va_end (vs ! (i - 1)) = s \<and> same_reservation r (vs ! (i - 1))
      then remove_at i (vs[i - 1 := (vs ! (i - 1))\<lparr>va_end := e\<rparr>])
      else vs[i := \<lparr>va_start = s, va_end = e, va_kind = Anonymous,
                    va_flags = rs_flags r, va_fork = rs_fork r\<rparr>])"

definition vm_return :: "nat \<Rightarrow> nat \<Rightarrow> nat \<Rightarrow> reservation \<Rightarrow> vm \<Rightarrow> vm \<times> bool" where
  "vm_return pml4 s e r p =
     (if vm_pml4 p \<noteq> pml4 then (p, False)
      else case binary_search_start s (vm_vmas p) of
             Inl _ \<Rightarrow> (p, False)
           | Inr i \<Rightarrow>
               if \<not> device_region e (vm_vmas p ! i) then (p, False)
               else (case join_after e r i (vm_vmas p) of
                       (e', vs) \<Rightarrow> (p\<lparr>vm_vmas := join_before s e' r i vs\<rparr>, True)))"

definition pm_return :: "nat \<Rightarrow> nat \<Rightarrow> nat \<Rightarrow> nat \<Rightarrow> reservation \<Rightarrow> vm_table \<Rightarrow> vm_table \<times> bool" where
  "pm_return pid pml4 s e r t = with_proc pid t False (vm_return pml4 s e r)"

section \<open>Fork, exec and exit\<close>

definition fork_dropped_bytes :: "vma list \<Rightarrow> nat" where
  "fork_dropped_bytes vs =
     fold (\<lambda>v sum. sat_add64 sum (va_end v - va_start v)) (filter (\<lambda>v. fp_dont_copy (va_fork v)) vs) 0"

definition fork_child_vmas :: "vma list \<Rightarrow> vma list" where
  "fork_child_vmas vs =
     map (\<lambda>v. v\<lparr>va_flags := va_flags v AND NOT PF_MLOCKED\<rparr>) (filter (\<lambda>v. \<not> fp_dont_copy (va_fork v)) vs)"

text \<open>A fresh process maps nothing.\<close>

definition vm_new :: vm where
  "vm_new = \<lparr>vm_vmas = [], vm_future = None, vm_pml4 = 0\<rparr>"

text \<open>
  What \<^verbatim>\<open>fork_create\<close> does to memory under the lock: the child's areas are made from the parent's
  and inserted with the child, which starts with no \<^verbatim>\<open>MCL_FUTURE\<close>. Whether the limit on the user's
  processes lets it, which depends on nothing modelled here, is an input; a refused fork changes
  nothing. The references of the child's file mappings are taken after the lock is dropped.
\<close>

definition pm_fork ::
  "bool \<Rightarrow> nat \<Rightarrow> nat \<Rightarrow> nat \<Rightarrow> vm_table \<Rightarrow> vm_table \<times> unit kernel_result \<times> ref_step list" where
  "pm_fork admitted parent child child_pml4 t =
     (case bt_get t parent of
        None \<Rightarrow> (t, Err NoSuchProcess, [])
      | Some p \<Rightarrow>
          let vs = fork_child_vmas (vm_vmas p)
          in if \<not> admitted then (t, Err WouldBlock, [])
             else (bt_insert child \<lparr>vm_vmas = vs, vm_future = None, vm_pml4 = child_pml4\<rparr> t, Ok (),
                   map Retain (backings vs)))"

definition vm_reset_for_exec :: "vm \<Rightarrow> vm \<times> ref_step list" where
  "vm_reset_for_exec p = (p\<lparr>vm_vmas := []\<rparr>, map Release (backings (vm_vmas p)))"

definition pm_reset_for_exec :: "nat \<Rightarrow> vm_table \<Rightarrow> vm_table \<times> ref_step list" where
  "pm_reset_for_exec pid t = with_proc pid t [] vm_reset_for_exec"

definition pm_exit :: "nat \<Rightarrow> vm_table \<Rightarrow> vm_table \<times> ref_step list" where
  "pm_exit pid t =
     (case bt_get t pid of
        None \<Rightarrow> (t, [])
      | Some p \<Rightarrow> (bt_remove pid t, map Release (backings (vm_vmas p))))"

section \<open>Questions\<close>

definition pm_locked_bytes :: "nat \<Rightarrow> (nat \<times> nat) option \<Rightarrow> vm_table \<Rightarrow> nat" where
  "pm_locked_bytes pid window t =
     (let (lo, hi) = (case window of None \<Rightarrow> (0, u64_max) | Some r \<Rightarrow> r)
      in case bt_get t pid of
           None \<Rightarrow> 0
         | Some p \<Rightarrow> fold (\<lambda>v sum. sat_add64 sum (min (va_end v) hi - max (va_start v) lo))
                       (filter (\<lambda>v. flags_contains (va_flags v) PF_MLOCKED) (vm_vmas p)) 0)"

definition pm_total_bytes :: "nat \<Rightarrow> vm_table \<Rightarrow> nat" where
  "pm_total_bytes pid t =
     (case bt_get t pid of
        None \<Rightarrow> 0
      | Some p \<Rightarrow> fold (\<lambda>v sum. sat_add64 sum (va_end v - va_start v)) (vm_vmas p) 0)"

datatype populate = PopRead | PopWrite | PopInaccessible | PopPresent

definition populate_how :: "vma \<Rightarrow> populate" where
  "populate_how v =
     (if va_kind v = Fixed then PopPresent
      else if va_kind v = Guard then PopInaccessible
      else if \<not> flags_contains (va_flags v) PF_USER_ACCESSIBLE then PopInaccessible
      else if flags_contains (va_flags v) PF_WRITABLE \<and> \<not> flags_contains (va_flags v) PF_SHARED then PopWrite
      else PopRead)"

definition pm_populate_parts :: "nat \<Rightarrow> nat \<Rightarrow> nat \<Rightarrow> vm_table \<Rightarrow> (nat \<times> nat \<times> populate) list" where
  "pm_populate_parts pid s e t =
     (case bt_get t pid of
        None \<Rightarrow> []
      | Some p \<Rightarrow> map (\<lambda>v. (max (va_start v) s, min (va_end v) e, populate_how v))
                    (filter (\<lambda>v. s < va_end v \<and> va_start v < e) (vm_vmas p)))"

datatype user_addr_class = InVma vma | Hole "vma option" "vma option" | NoProcess | TableBusy

fun classify_loop :: "nat \<Rightarrow> vma list \<Rightarrow> vma option \<Rightarrow> user_addr_class" where
  "classify_loop addr [] below = Hole below None"
| "classify_loop addr (v # vs) below =
     (if vma_contains addr v then InVma v
      else if va_end v \<le> addr then classify_loop addr vs (Some v)
      else Hole below (Some v))"

definition pm_classify :: "bool \<Rightarrow> nat \<Rightarrow> nat \<Rightarrow> vm_table \<Rightarrow> user_addr_class" where
  "pm_classify lock_free pid addr t =
     (if \<not> lock_free then TableBusy
      else case bt_get t pid of
             None \<Rightarrow> NoProcess
           | Some p \<Rightarrow> classify_loop addr (vm_vmas p) None)"

definition pm_uncopied_ranges :: "nat \<Rightarrow> vm_table \<Rightarrow> (nat \<times> nat) list option" where
  "pm_uncopied_ranges pid t =
     map_option (\<lambda>p. map (\<lambda>v. (va_start v, va_end v)) (filter (\<lambda>v. \<not> copies_pages (va_fork v)) (vm_vmas p)))
       (bt_get t pid)"

fun gaps_loop :: "nat \<Rightarrow> vma list \<Rightarrow> nat \<Rightarrow> (nat \<times> nat) list \<Rightarrow> (nat \<times> nat) list \<times> nat" where
  "gaps_loop e [] cursor gaps = (gaps, cursor)"
| "gaps_loop e (v # vs) cursor gaps =
     (if va_end v \<le> cursor then gaps_loop e vs cursor gaps
      else if e \<le> va_start v then (gaps, cursor)
      else let gaps = (if cursor < va_start v then gaps @ [(cursor, va_start v)] else gaps);
               cursor = (if cursor < va_end v then va_end v else cursor)
           in if e \<le> cursor then (gaps, cursor) else gaps_loop e vs cursor gaps)"

definition pm_coverage_gaps :: "nat \<Rightarrow> nat \<Rightarrow> nat \<Rightarrow> vm_table \<Rightarrow> (nat \<times> nat) list option" where
  "pm_coverage_gaps pid s e t =
     (if e \<le> s then Some []
      else case bt_get t pid of
             None \<Rightarrow> None
           | Some p \<Rightarrow>
               (case gaps_loop e (vm_vmas p) s [] of
                  (gaps, cursor) \<Rightarrow> Some (if cursor < e then gaps @ [(cursor, e)] else gaps)))"

text \<open>The holes \<^verbatim>\<open>range_mapped\<close> looks at the page tables for.\<close>

fun holes_loop :: "vma list \<Rightarrow> nat \<Rightarrow> (nat \<times> nat) list \<Rightarrow> (nat \<times> nat) list \<times> nat" where
  "holes_loop [] at holes = (holes, at)"
| "holes_loop (v # vs) at holes =
     holes_loop vs (max at (va_end v)) (if at < va_start v then holes @ [(at, va_start v)] else holes)"

definition range_holes :: "nat \<Rightarrow> nat \<Rightarrow> vma list \<Rightarrow> (nat \<times> nat) list" where
  "range_holes s e vs =
     (case holes_loop (filter (\<lambda>v. s < va_end v \<and> va_start v < e) vs) s [] of
        (holes, at) \<Rightarrow> if at < e then holes @ [(at, e)] else holes)"

definition pm_shared_file_ranges :: "nat \<Rightarrow> nat \<Rightarrow> nat \<Rightarrow> vm_table \<Rightarrow> (file_id \<times> nat \<times> nat) list" where
  "pm_shared_file_ranges pid s e t =
     (case bt_get t pid of
        None \<Rightarrow> []
      | Some p \<Rightarrow>
          List.map_filter (\<lambda>v. case va_kind v of
               FileBacked h off (Some file) True mw \<Rightarrow>
                 Some (file, sat_add64 off (max s (va_start v) - va_start v),
                       sat_add64 off (min e (va_end v) - va_start v))
             | _ \<Rightarrow> None)
            (filter (\<lambda>v. s < va_end v \<and> va_start v < e) (vm_vmas p)))"

definition maps_shared :: "file_id \<Rightarrow> vma \<Rightarrow> bool" where
  "maps_shared file v =
     (case va_kind v of FileBacked h off (Some f) True mw \<Rightarrow> f = file | _ \<Rightarrow> False)"

definition shared_range :: "vma \<Rightarrow> nat \<Rightarrow> nat \<Rightarrow> (nat \<times> nat) option" where
  "shared_range v lo hi =
     (case va_kind v of
        FileBacked h off fid sh mw \<Rightarrow>
          let from = max lo off; upto = min hi (sat_add64 off (va_end v - va_start v))
          in if from < upto
             then Some (sat_add64 (va_start v) (from - off), sat_add64 (va_start v) (upto - off)) else None
      | _ \<Rightarrow> None)"

end
