(* ===== verification/MemoryView.thy ===== *)
theory MemoryView imports ProcMemory begin

text \<open>
  What the operations on a process's areas mean, page by page. \<open>vm_view\<close> reads the list of areas as a
  map from addresses to pages; the operations on a range share one contract, \<open>range_edit\<close>: they keep
  the list well formed, change the pages of the range and leave every other page as it was. Those
  that only split areas also share \<open>range_split\<close>, on the references file mappings hold.
\<close>

section \<open>Pages\<close>

definition place_at :: "nat \<Rightarrow> vma \<Rightarrow> vma_kind" where
  "place_at a v =
     (case va_kind v of
        FileBacked h off fid sh mw \<Rightarrow>
          FileBacked h (wrapping_add64 off (wrapping_sub64 a (va_start v))) fid sh mw
      | k \<Rightarrow> k)"

type_synonym page = "vma_kind \<times> page_flags \<times> fork_policy"

definition page_of :: "nat \<Rightarrow> vma \<Rightarrow> page" where
  "page_of a v = (place_at a v, va_flags v, va_fork v)"

definition vm_view :: "vma list \<Rightarrow> nat \<Rightarrow> page option" where
  "vm_view vs a = map_option (page_of a) (vma_at a vs)"

lemma vm_view_Nil [simp]: "vm_view [] a = None"
  by (simp add: vm_view_def)

lemma vm_view_Cons [simp]: "vm_view (v # vs) a = (if vma_contains a v then Some (page_of a v) else vm_view vs a)"
  by (simp add: vm_view_def)

lemma vm_view_append: "vm_view (xs @ ys) a = (case vm_view xs a of Some p \<Rightarrow> Some p | None \<Rightarrow> vm_view ys a)"
  by (simp add: vm_view_def vma_at_append split: option.splits)

lemma vm_view_None: "vm_view vs a = None \<longleftrightarrow> (\<forall>v \<in> set vs. \<not> vma_contains a v)"
  by (simp add: vm_view_def vma_at_None)

lemma int_wrapping: "int (wrapping_add64 a b) = (int a + int b) mod 2 ^ 64"
  "int (wrapping_sub64 a b) = (int a - int b) mod 2 ^ 64"
  by (simp add: wrapping_add64_def zmod_int) (simp add: wrapping_sub64_def)

lemma wrapping_split:
  "wrapping_add64 (wrapping_add64 off (wrapping_sub64 s st)) (wrapping_sub64 a s)
     = wrapping_add64 off (wrapping_sub64 a st)"
proof -
  have "int (wrapping_add64 (wrapping_add64 off (wrapping_sub64 s st)) (wrapping_sub64 a s))
      = int (wrapping_add64 off (wrapping_sub64 a st))"
    unfolding int_wrapping mod_add_right_eq mod_add_left_eq by (simp add: algebra_simps)
  then show ?thesis by simp
qed

lemma place_at_subrange [simp]: "place_at a (vma_subrange v s e f) = place_at a v"
  by (simp add: place_at_def vma_subrange_def wrapping_split split: vma_kind.splits)

lemma vma_subrange_simps [simp]:
  "va_start (vma_subrange v s e f) = s" "va_end (vma_subrange v s e f) = e"
  "va_flags (vma_subrange v s e f) = f" "va_fork (vma_subrange v s e f) = va_fork v"
  "backing_of (vma_subrange v s e f) = backing_of v"
  by (simp_all add: vma_subrange_def backing_of_def split: vma_kind.splits)

lemma place_at_flags [simp]:
  "place_at a (v\<lparr>va_flags := f\<rparr>) = place_at a v" "place_at a (v\<lparr>va_fork := p\<rparr>) = place_at a v"
  "place_at a (v\<lparr>va_end := e\<rparr>) = place_at a v"
  by (simp_all add: place_at_def split: vma_kind.splits)

lemma backing_of_flags [simp]:
  "backing_of (v\<lparr>va_flags := f\<rparr>) = backing_of v" "backing_of (v\<lparr>va_fork := p\<rparr>) = backing_of v"
  "backing_of (v\<lparr>va_end := e\<rparr>) = backing_of v"
  by (simp_all add: backing_of_def split: vma_kind.splits)

section \<open>References\<close>

fun retained :: "ref_step list \<Rightarrow> backing list" where
  "retained [] = []"
| "retained (Retain b # rs) = b # retained rs"
| "retained (Release b # rs) = retained rs"

fun released :: "ref_step list \<Rightarrow> backing list" where
  "released [] = []"
| "released (Retain b # rs) = released rs"
| "released (Release b # rs) = b # released rs"

lemma retained_append [simp]: "retained (xs @ ys) = retained xs @ retained ys"
  by (induction xs rule: retained.induct) auto

lemma released_append [simp]: "released (xs @ ys) = released xs @ released ys"
  by (induction xs rule: released.induct) auto

lemma retained_maps [simp]: "retained (map Retain bs) = bs" "retained (map Release bs) = []"
  "released (map Retain bs) = []" "released (map Release bs) = bs"
  by (induction bs) auto

lemma retained_replicate [simp]:
  "retained (replicate n (Retain b)) = replicate n b" "released (replicate n (Retain b)) = []"
  by (induction n) auto

lemma backings_simps [simp]:
  "backings [] = []" "backings (xs @ ys) = backings xs @ backings ys"
  "backings (v # vs) = (case backing_of v of None \<Rightarrow> [] | Some b \<Rightarrow> [b]) @ backings vs"
  by (simp_all add: backings_def List.map_filter_def split: option.splits)

lemma backings_mset: "mset xs = mset ys \<Longrightarrow> mset (backings xs) = mset (backings ys)"
  by (simp add: backings_def List.map_filter_def mset_filter)

lemma backings_same:
  "(\<forall>w \<in> set ws. backing_of w = b) \<Longrightarrow>
     backings ws = (case b of None \<Rightarrow> [] | Some x \<Rightarrow> replicate (length ws) x)"
  by (induction ws) (auto split: option.splits)

section \<open>Replacing areas by their pieces\<close>

definition within :: "vma \<Rightarrow> vma list \<Rightarrow> bool" where
  "within v ws \<longleftrightarrow> vmas_ok ws \<and> (\<forall>w \<in> set ws. va_start v \<le> va_start w \<and> va_end w \<le> va_end v)"

lemma within_self: "va_start v < va_end v \<Longrightarrow> within v [v]"
  by (simp add: within_def)

lemma within_contains: "within v ws \<Longrightarrow> w \<in> set ws \<Longrightarrow> vma_contains a w \<Longrightarrow> vma_contains a v"
  by (fastforce simp: within_def vma_contains_def)

lemma concat_pieces_ok:
  "vmas_ok vs \<Longrightarrow> (\<And>v. v \<in> set vs \<Longrightarrow> within v (f v)) \<Longrightarrow> vmas_ok (concat (map f vs))"
proof (induction vs)
  case (Cons v vs)
  have "vmas_ok (f v)" using Cons.prems(2) by (simp add: within_def)
  moreover have "va_end w \<le> va_start u" if w: "w \<in> set (f v)" and u: "u \<in> set (f x)" "x \<in> set vs" for w u x
  proof -
    have "va_end w \<le> va_end v" using Cons.prems(2) [of v] w by (simp add: within_def)
    also have "\<dots> \<le> va_start x" using Cons.prems(1) u(2) by simp
    also have "\<dots> \<le> va_start u" using Cons.prems(2) [of x] u by (simp add: within_def)
    finally show ?thesis .
  qed
  ultimately show ?case using Cons by (auto simp: vmas_ok_append)
qed simp

lemma concat_pieces_at:
  "vmas_ok vs \<Longrightarrow> (\<And>v. v \<in> set vs \<Longrightarrow> within v (f v)) \<Longrightarrow>
     vma_at a (concat (map f vs)) = Option.bind (vma_at a vs) (\<lambda>v. vma_at a (f v))"
proof (induction vs)
  case (Cons v vs)
  have IH: "vma_at a (concat (map f vs)) = Option.bind (vma_at a vs) (\<lambda>v. vma_at a (f v))"
    using Cons by simp
  show ?case
  proof (cases "vma_contains a v")
    case True
    have "\<not> vma_contains a x" if "x \<in> set vs" for x
      using True Cons.prems(1) that by (auto simp: vma_contains_def)
    then have "vma_at a vs = None" by (simp add: vma_at_None)
    with True IH show ?thesis by (simp add: vma_at_append split: option.splits)
  next
    case False
    then have "vma_at a (f v) = None"
      using within_contains [OF Cons.prems(2) [of v]] by (auto simp: vma_at_None)
    with False IH show ?thesis by (simp add: vma_at_append)
  qed
qed simp

lemma edit_vmas_eq:
  "vmas_ok vs \<Longrightarrow> (\<And>v. v \<in> set vs \<Longrightarrow> within v (f v)) \<Longrightarrow> edit_vmas f vs = concat (map f vs)"
  by (simp add: edit_vmas_def vmas_ok_sort concat_pieces_ok)

text \<open>The pieces an operation on a range makes of an area that meets it.\<close>

lemma vma_pieces_within:
  assumes "s < e" and "\<not> apart s e v" and "va_start v < va_end v" and "vmas_ok mid"
    and "\<And>w. w \<in> set mid \<Longrightarrow> max s (va_start v) \<le> va_start w \<and> va_end w \<le> min e (va_end v)"
  shows "within v (vma_pieces s e mid v)"
  using assms by (fastforce simp: within_def vma_pieces_def apart_def vmas_ok_append)

lemma vma_pieces_view:
  assumes "s < e" and "\<not> apart s e v" and "vma_contains a v"
    and "\<And>w. w \<in> set mid \<Longrightarrow> max s (va_start v) \<le> va_start w \<and> va_end w \<le> min e (va_end v)"
  shows "vm_view (vma_pieces s e mid v) a = (if s \<le> a \<and> a < e then vm_view mid a else Some (page_of a v))"
proof -
  have mid: "vm_view mid a = None" if "\<not> (s \<le> a \<and> a < e)"
    unfolding vm_view_None
  proof
    fix w assume "w \<in> set mid"
    from assms(4) [OF this] that show "\<not> vma_contains a w" by (auto simp: vma_contains_def)
  qed
  consider "a < s" | "s \<le> a" "a < e" | "e \<le> a" by linarith
  then show ?thesis
    using assms(1-3) mid
    by cases (auto simp: vma_pieces_def vm_view_append vma_contains_def apart_def page_of_def split: option.splits)
qed

lemma middle_bounds [simp]: "va_start (middle s e v f) = max s (va_start v)" "va_end (middle s e v f) = min e (va_end v)"
  "va_flags (middle s e v f) = f" "va_fork (middle s e v f) = va_fork v" "backing_of (middle s e v f) = backing_of v"
  "place_at a (middle s e v f) = place_at a v"
  by (simp_all add: middle_def)

lemma middle_ok: "s < e \<Longrightarrow> \<not> apart s e v \<Longrightarrow> va_start v < va_end v \<Longrightarrow> max s (va_start v) < min e (va_end v)"
  by (simp add: apart_def)

section \<open>The contract of the range operations\<close>

locale range_edit =
  fixes piece :: "nat \<Rightarrow> nat \<Rightarrow> vma \<Rightarrow> vma list"
    and change :: "page \<Rightarrow> page option"
  assumes piece_within: "s < e \<Longrightarrow> va_start v < va_end v \<Longrightarrow> within v (piece s e v)"
    and piece_view: "s < e \<Longrightarrow> va_start v < va_end v \<Longrightarrow> vma_contains a v \<Longrightarrow>
      vm_view (piece s e v) a = (if s \<le> a \<and> a < e then change (page_of a v) else Some (page_of a v))"
begin

lemma edit_concat: "vmas_ok vs \<Longrightarrow> s < e \<Longrightarrow> edit_vmas (piece s e) vs = concat (map (piece s e) vs)"
  by (rule edit_vmas_eq) (auto intro: piece_within vmas_ok_pos)

lemma edit_ok: "vmas_ok vs \<Longrightarrow> s < e \<Longrightarrow> vmas_ok (edit_vmas (piece s e) vs)"
  unfolding edit_concat by (rule concat_pieces_ok) (auto intro: piece_within vmas_ok_pos)

lemma edit_view:
  assumes ok: "vmas_ok vs" and se: "s < e"
  shows "vm_view (edit_vmas (piece s e) vs) a =
    (if s \<le> a \<and> a < e then Option.bind (vm_view vs a) change else vm_view vs a)"
proof -
  have "vma_at a (edit_vmas (piece s e) vs) = Option.bind (vma_at a vs) (\<lambda>v. vma_at a (piece s e v))"
    unfolding edit_concat [OF ok se]
    by (rule concat_pieces_at [OF ok]) (rule piece_within [OF se vmas_ok_pos [OF ok]])
  moreover have "vm_view (piece s e v) a = (if s \<le> a \<and> a < e then change (page_of a v) else Some (page_of a v))"
    if "vma_at a vs = Some v" for v
  proof -
    have "v \<in> set vs" "vma_contains a v" using that vma_at_Some [OF ok] by blast+
    then show ?thesis using piece_view [OF se vmas_ok_pos [OF ok]] by blast
  qed
  ultimately show ?thesis
    by (cases "vma_at a vs") (auto simp: vm_view_def)
qed

end

text \<open>An operation that splits areas without dropping any of their bytes.\<close>

locale range_split = range_edit piece change
  for piece :: "nat \<Rightarrow> nat \<Rightarrow> vma \<Rightarrow> vma list" and change :: "page \<Rightarrow> page option" +
  assumes piece_backing: "s < e \<Longrightarrow> va_start v < va_end v \<Longrightarrow>
      piece s e v \<noteq> [] \<and> (\<forall>w \<in> set (piece s e v). backing_of w = backing_of v)"
begin

lemma split_refs_only_retain [simp]: "released (split_refs f vs) = []"
  by (induction vs) (auto simp: split_refs_def split: option.splits)

lemma split_ledger:
  assumes ok: "vmas_ok vs" and se: "s < e"
  shows "mset (backings (edit_vmas (piece s e) vs)) = mset (backings vs) + mset (retained (split_refs (piece s e) vs))"
proof -
  have "mset (backings (concat (map (piece s e) ws))) = mset (backings ws) + mset (retained (split_refs (piece s e) ws))"
    if "set ws \<subseteq> set vs" for ws
    using that
  proof (induction ws)
    case (Cons v ws)
    from piece_backing [OF se vmas_ok_pos [OF ok]] Cons.prems
    have p: "piece s e v \<noteq> []" "\<forall>w \<in> set (piece s e v). backing_of w = backing_of v" by auto
    obtain n where "length (piece s e v) = Suc n" using p(1) by (cases "piece s e v") auto
    with Cons show ?case
      using backings_same [OF p(2)] by (auto simp: split_refs_def split: option.splits)
  qed (simp add: split_refs_def)
  then show ?thesis unfolding edit_concat [OF ok se] by blast
qed

end

section \<open>The operations meet it\<close>

lemma cut_range_edit: "range_edit cut_piece (\<lambda>p. None)"
proof
  fix s e :: nat and v :: vma
  assume se: "s < e" and v: "va_start v < va_end v"
  show "within v (cut_piece s e v)"
    using vma_pieces_within [OF se _ v, of "[]"] by (simp add: cut_piece_def within_self v)
  fix a assume a: "vma_contains a v"
  show "vm_view (cut_piece s e v) a = (if s \<le> a \<and> a < e then None else Some (page_of a v))"
    using vma_pieces_view [OF se _ a, of "[]"] a
    by (auto simp: cut_piece_def apart_def vma_contains_def)
qed

text \<open>The other three keep the middle: \<open>skip\<close> is the test for an area that is already as asked.\<close>

lemma middle_range_split:
  assumes piece: "\<And>s e v. piece s e v = (if apart s e v \<or> skip v then [v] else vma_pieces s e [mid s e v] v)"
    and mid: "\<And>s e v. va_start (mid s e v) = max s (va_start v)" "\<And>s e v. va_end (mid s e v) = min e (va_end v)"
      "\<And>s e v. backing_of (mid s e v) = backing_of v"
    and change: "\<And>s e v a. change (page_of a v) = Some (page_of a (mid s e v))"
    and skip: "\<And>v a. skip v \<Longrightarrow> change (page_of a v) = Some (page_of a v)"
  shows "range_split piece change"
proof
  fix s e :: nat and v :: vma
  assume se: "s < e" and v: "va_start v < va_end v"
  have b: "\<And>w. w \<in> set [mid s e v] \<Longrightarrow> max s (va_start v) \<le> va_start w \<and> va_end w \<le> min e (va_end v)"
    by (simp add: mid)
  show "within v (piece s e v)"
  proof (cases "apart s e v")
    case False
    with middle_ok [OF se False v] have "vmas_ok [mid s e v]" by (simp add: mid)
    from vma_pieces_within [OF se False v this b] show ?thesis by (simp add: piece within_self v)
  qed (simp add: piece within_self v)
  show "piece s e v \<noteq> [] \<and> (\<forall>w \<in> set (piece s e v). backing_of w = backing_of v)"
    by (auto simp: piece vma_pieces_def mid)
  fix a assume a: "vma_contains a v"
  have pv: "vm_view (vma_pieces s e [mid s e v] v) a
      = (if s \<le> a \<and> a < e then vm_view [mid s e v] a else Some (page_of a v))" if "\<not> apart s e v"
    by (rule vma_pieces_view [OF se that a b])
  have "vm_view [mid s e v] a = change (page_of a v)" if "s \<le> a" "a < e"
    using that a change [of a v s e] by (simp add: vma_contains_def mid)
  then show "vm_view (piece s e v) a = (if s \<le> a \<and> a < e then change (page_of a v) else Some (page_of a v))"
    using pv a skip [of v a] by (auto simp: piece apart_def vma_contains_def)
qed

fun protect_page :: "bool \<Rightarrow> bool \<Rightarrow> bool \<Rightarrow> page \<Rightarrow> page" where
  "protect_page w x a (k, f, p) = (k, protect_flags w x a f, p)"

fun lock_page :: "bool \<Rightarrow> page \<Rightarrow> page" where
  "lock_page lock (k, f, p) = (k, lock_flags lock f, p)"

fun advise_page :: "fork_advice \<Rightarrow> page \<Rightarrow> page" where
  "advise_page adv (k, f, p) = (k, f, advice_apply adv p)"

lemma bit_single_u64: "bit (push_bit n 1 :: u64) k \<longleftrightarrow> k = n \<and> n < 64"
  by (auto simp: bit_simps)

lemma lock_flags_same: "flags_contains f PF_MLOCKED = lock \<Longrightarrow> lock_flags lock f = f"
proof -
  have m: "bit PF_MLOCKED n \<longleftrightarrow> n = 11" for n
    unfolding PF_MLOCKED_def bit_single_u64 by auto
  have "flags_contains f PF_MLOCKED \<longleftrightarrow> bit f 11"
    unfolding flags_contains_def
    by (metis (mono_tags, lifting) bit_and_iff bit_word_eqI m)
  then show "flags_contains f PF_MLOCKED = lock \<Longrightarrow> ?thesis"
    by (cases lock) (auto simp: lock_flags_def bit_simps m intro!: bit_word_eqI)
qed

interpretation cut: range_edit cut_piece "\<lambda>p. None"
  by (rule cut_range_edit)

interpretation prot: range_split "protect_piece w x a" "\<lambda>p. Some (protect_page w x a p)" for w x a
  by (rule middle_range_split [where skip = "\<lambda>v. False" and mid = "\<lambda>s e v. middle s e v (protect_flags w x a (va_flags v))"])
    (simp_all add: protect_piece_def page_of_def)

interpretation lock: range_split "lock_piece l" "\<lambda>p. Some (lock_page l p)" for l
  by (rule middle_range_split [where skip = "\<lambda>v. flags_contains (va_flags v) PF_MLOCKED = l"
        and mid = "\<lambda>s e v. middle s e v (lock_flags l (va_flags v))"])
    (simp_all add: lock_piece_def page_of_def lock_flags_same)

interpretation adv: range_split "advise_piece adv" "\<lambda>p. Some (advise_page adv p)" for adv
  by (rule middle_range_split [where skip = "\<lambda>v. advice_apply adv (va_fork v) = va_fork v"
        and mid = "\<lambda>s e v. (middle s e v (va_flags v))\<lparr>va_fork := advice_apply adv (va_fork v)\<rparr>"])
    (simp_all add: advise_piece_def page_of_def Let_def)

end
