(* ===== verification/MemoryRuns.thy ===== *)
theory MemoryRuns imports MemoryView Streams begin

text \<open>
  Runs of the operations on process memory: on one process, where they refine a map from addresses
  to pages, and on the process table, with forks, execs and exits, where the references of file
  mappings balance.
\<close>

section \<open>Operations on one process\<close>

text \<open>The operations whose effect is determined by the pages alone, and the others.\<close>

datatype page_event =
    EvAdd vma | EvGrow vma | EvUnmap nat nat | EvProtect nat nat bool bool bool
  | EvLock nat nat bool | EvLockAll bool | EvAdvise nat nat fork_advice | EvExec
  | EvSetFuture "future_lock option"

datatype vm_event =
    EvPage page_event | EvReserve nat "nat option" nat nat vma_kind page_flags
  | EvRemove nat | EvDetach nat nat | EvClaim nat nat page_flags | EvReturn nat nat nat reservation

text \<open>The process afterwards, the references moved, and what the caller handed over.\<close>

fun page_step :: "page_event \<Rightarrow> vm \<Rightarrow> vm \<times> ref_step list \<times> backing list" where
  "page_step (EvAdd v) p =
     (case vm_add_vma v p of (p', r) \<Rightarrow> (p', [], case r of Inr _ \<Rightarrow> backings [v] | Inl _ \<Rightarrow> []))"
| "page_step (EvGrow v) p =
     (case vm_add_vma_merging v p of (p', r) \<Rightarrow> (p', [], case r of Inr _ \<Rightarrow> backings [v] | Inl _ \<Rightarrow> []))"
| "page_step (EvUnmap s e) p =
     (if e \<le> s then (p, [], []) else case vm_remove_range s e p of (p', r, rs) \<Rightarrow> (p', rs, []))"
| "page_step (EvProtect s e w x a) p =
     (if e \<le> s then (p, [], []) else case vm_protect s e w x a p of (p', r, rs) \<Rightarrow> (p', rs, []))"
| "page_step (EvLock s e l) p =
     (if e \<le> s then (p, [], []) else case vm_lock_range s e l p of (p', rs) \<Rightarrow> (p', rs, []))"
| "page_step (EvLockAll l) p = (fst (vm_lock_all l p), [], [])"
| "page_step (EvAdvise s e adv) p =
     (if e \<le> s then (p, [], []) else case vm_set_fork_policy s e adv p of (p', r, rs) \<Rightarrow> (p', rs, []))"
| "page_step EvExec p = (case vm_reset_for_exec p of (p', rs) \<Rightarrow> (p', rs, []))"
| "page_step (EvSetFuture fut) p = (fst (vm_set_future fut p), [], [])"

fun vm_step :: "vm_event \<Rightarrow> vm \<Rightarrow> vm \<times> ref_step list \<times> backing list" where
  "vm_step (EvPage ev) p = page_step ev p"
| "vm_step (EvReserve sz ph lo hi kind flags) p =
     (case reserve_span sz ph of
        None \<Rightarrow> (p, [], [])
      | Some span \<Rightarrow>
          (case vm_reserve sz ph lo hi kind flags span p of
             (p', None) \<Rightarrow> (p', [], [])
           | (p', Some base) \<Rightarrow>
               (p', [], backings [\<lparr>va_start = base, va_end = base + sz, va_kind = kind,
                                    va_flags = flags, va_fork = COPY\<rparr>])))"
| "vm_step (EvRemove start) p = (case vm_remove_vma start p of (p', r, rs) \<Rightarrow> (p', rs, []))"
| "vm_step (EvDetach s e) p = (fst (vm_remove_foreign s e p), [], [])"
| "vm_step (EvClaim s e flags) p =
     (if e \<le> s \<or> s mod FRAME_SIZE \<noteq> 0 \<or> e mod FRAME_SIZE \<noteq> 0 then (p, [], [])
      else (fst (vm_claim s e flags p), [], []))"
| "vm_step (EvReturn pml4 s e r) p = (fst (vm_return pml4 s e r p), [], [])"

definition vm_ok :: "vm \<Rightarrow> bool" where
  "vm_ok p \<longleftrightarrow> vmas_ok (vm_vmas p)"

text \<open>A reservation of no bytes is the caller's to refuse: \<^verbatim>\<open>mmap\<close> does.\<close>

fun event_ok :: "vm_event \<Rightarrow> bool" where
  "event_ok (EvReserve sz ph lo hi kind flags) = (0 < sz)"
| "event_ok _ = True"

text \<open>What an operation promises: a well-formed list, and references that balance.\<close>

definition kept :: "vm \<Rightarrow> vm \<times> ref_step list \<times> backing list \<Rightarrow> bool" where
  "kept p r \<longleftrightarrow> (case r of (p', rs, given) \<Rightarrow>
     vmas_ok (vm_vmas p') \<and>
     mset (backings (vm_vmas p')) + mset (released rs)
       = mset (backings (vm_vmas p)) + mset (retained rs) + mset given)"

lemma kept_same: "vmas_ok (vm_vmas p) \<Longrightarrow> kept p (p, [], [])"
  by (simp add: kept_def)

lemma mset_backings_Cons: "mset (backings (v # vs)) = mset (backings [v]) + mset (backings vs)"
  by simp

lemma backings_of_mset: "mset vs = add_mset v (mset ws) \<Longrightarrow> mset (backings vs) = mset (backings [v]) + mset (backings ws)"
  using backings_mset [of vs "v # ws"] unfolding mset_backings_Cons [of v ws] by simp

lemma backings_cong: "backing_of v = backing_of w \<Longrightarrow> backings [v] = backings [w]"
  by simp

lemma free_iff:
  assumes ok: "vmas_ok vs" and v: "va_start v < va_end v"
  shows "(\<forall>w \<in> set vs. \<not> overlaps v w) \<longleftrightarrow> (\<forall>a. vma_contains a v \<longrightarrow> vm_view vs a = None)"
proof
  assume "\<forall>w \<in> set vs. \<not> overlaps v w"
  then show "\<forall>a. vma_contains a v \<longrightarrow> vm_view vs a = None"
    by (fastforce simp: vm_view_None overlaps_def vma_contains_def)
next
  assume free: "\<forall>a. vma_contains a v \<longrightarrow> vm_view vs a = None"
  show "\<forall>w \<in> set vs. \<not> overlaps v w"
  proof
    fix w assume w: "w \<in> set vs"
    show "\<not> overlaps v w"
    proof
      assume "overlaps v w"
      then have "vma_contains (max (va_start v) (va_start w)) v" "vma_contains (max (va_start v) (va_start w)) w"
        using v vmas_ok_pos [OF ok w] by (auto simp: overlaps_def vma_contains_def)
      with free w show False unfolding vm_view_None by blast
    qed
  qed
qed

lemma insert_view:
  "vmas_ok vs \<Longrightarrow> va_start v < va_end v \<Longrightarrow> \<forall>w \<in> set vs. \<not> overlaps v w \<Longrightarrow>
     vm_view (insert_vma v vs) a = (if vma_contains a v then Some (page_of a v) else vm_view vs a)"
  by (simp add: vm_view_def vma_at_insert)

lemma overlaps_flags [simp]: "overlaps (v\<lparr>va_flags := f\<rparr>) w = overlaps v w"
  by (simp add: overlaps_def)

lemma vma_check_flags [simp]: "vma_check (v\<lparr>va_flags := f\<rparr>) vs = vma_check v vs"
  by (simp add: vma_check_def)

lemma contains_flags [simp]: "vma_contains a (v\<lparr>va_flags := f\<rparr>) = vma_contains a v"
  by (simp add: vma_contains_def)

lemma add_kept:
  assumes ok: "vmas_ok (vm_vmas p)"
  shows "kept p (page_step (EvAdd v) p)"
proof (cases "vma_check v (vm_vmas p)")
  case (Inl e)
  with ok show ?thesis by (simp add: vm_add_vma_def kept_same)
next
  case (Inr u)
  let ?v = "v\<lparr>va_flags := future_lock_flags p (va_flags v)\<rparr>"
  from Inr have v: "va_start ?v < va_end ?v" "\<forall>w \<in> set (vm_vmas p). \<not> overlaps ?v w"
    by (simp_all add: vma_check_Inr)
  note ins = insert_vma_ok [OF ok v]
  show ?thesis
    using Inr ins(1) backings_of_mset [OF ins(2)] by (simp add: vm_add_vma_def kept_def)
qed

lemma extend_ok:
  assumes ok: "vmas_ok (xs @ w # ys)" and meet: "va_end w = va_start v" and v: "va_start v < va_end v"
    and free: "\<forall>u \<in> set (xs @ w # ys). \<not> overlaps v u"
  shows "vmas_ok (xs @ w\<lparr>va_end := va_end v\<rparr> # ys)"
    and "vm_view (xs @ w\<lparr>va_end := va_end v\<rparr> # ys) a =
      (if vma_contains a v then Some (page_of a (w\<lparr>va_end := va_end v\<rparr>)) else vm_view (xs @ w # ys) a)"
proof -
  have above: "va_end v \<le> va_start u" if "u \<in> set ys" for u
  proof -
    have "va_end w \<le> va_start u" "va_start u < va_end u"
      using ok that by (auto simp: vmas_ok_append intro: vmas_ok_pos)
    moreover have "\<not> overlaps v u" using free that by simp
    ultimately show ?thesis using meet unfolding overlaps_def by linarith
  qed
  then show "vmas_ok (xs @ w\<lparr>va_end := va_end v\<rparr> # ys)"
    using ok meet v by (auto simp: vmas_ok_append)
  have "va_start w < va_end w" using ok by (simp add: vmas_ok_append)
  then have c: "vma_contains a (w\<lparr>va_end := va_end v\<rparr>) \<longleftrightarrow> vma_contains a w \<or> vma_contains a v"
    using meet v by (auto simp: vma_contains_def)
  have below: "vm_view xs a = None" if "vma_contains a v"
    using ok meet that by (fastforce simp: vm_view_None vmas_ok_append vma_contains_def)
  have "page_of a (w\<lparr>va_end := va_end v\<rparr>) = page_of a w" by (simp add: page_of_def)
  then show "vm_view (xs @ w\<lparr>va_end := va_end v\<rparr> # ys) a =
      (if vma_contains a v then Some (page_of a (w\<lparr>va_end := va_end v\<rparr>)) else vm_view (xs @ w # ys) a)"
    using c below by (auto simp: vm_view_append split: option.splits)
qed

text \<open>The two ways \<^verbatim>\<open>add_vma_merging\<close> succeeds.\<close>

lemma merging_cases:
  obtains (refused) e where "vma_check v (vm_vmas p) = Err e" and "vm_add_vma_merging v p = (p, Err e)"
  | (extended) xs w ys where "vma_check v (vm_vmas p) = Ok ()" and "vm_vmas p = xs @ w # ys"
      and "va_end w = va_start v" and "mergeable_kind (va_kind v)" and "va_kind w = va_kind v"
      and "va_flags w = future_lock_flags p (va_flags v)" and "va_fork w = va_fork v"
      and "vm_add_vma_merging v p = (p\<lparr>vm_vmas := xs @ w\<lparr>va_end := va_end v\<rparr> # ys\<rparr>, Ok ())"
  | (added) "vma_check v (vm_vmas p) = Ok ()"
      and "vm_add_vma_merging v p = vm_add_vma (v\<lparr>va_flags := future_lock_flags p (va_flags v)\<rparr>) p"
proof (cases "vma_check v (vm_vmas p)")
  case (Inl e)
  then show ?thesis using refused by (simp add: vm_add_vma_merging_def Let_def)
next
  case (Inr u)
  let ?P = "\<lambda>w. va_end w = va_start v \<and> va_kind w = va_kind v
    \<and> va_flags w = future_lock_flags p (va_flags v) \<and> va_fork w = va_fork v"
  let ?i = "if mergeable_kind (va_kind v) then first_index ?P (vm_vmas p) else None"
  show ?thesis
  proof (cases ?i)
    case None
    then show ?thesis using added Inr by (simp add: vm_add_vma_merging_def Let_def split: if_splits)
  next
    case (Some i)
    then have m: "mergeable_kind (va_kind v)" and f: "first_index ?P (vm_vmas p) = Some i"
      by (auto split: if_splits)
    from first_index_sat [OF f] have P: "?P (vm_vmas p ! i)" .
    from first_index_lt [OF f] have i: "i < length (vm_vmas p)" .
    show ?thesis
      by (rule extended [of "take i (vm_vmas p)" "vm_vmas p ! i" "drop (Suc i) (vm_vmas p)"])
        (use Inr P m f i in \<open>simp_all add: id_take_nth_drop [symmetric] vm_add_vma_merging_def Let_def
           upd_conv_take_nth_drop\<close>)
  qed
qed

lemma mergeable_no_backing: "mergeable_kind (va_kind v) \<Longrightarrow> backing_of v = None"
  by (auto simp: mergeable_kind_def backing_of_def)

lemma grow_kept:
  assumes ok: "vmas_ok (vm_vmas p)"
  shows "kept p (page_step (EvGrow v) p)"
proof (cases rule: merging_cases [where v = v and p = p])
  case (refused e)
  with ok show ?thesis by (simp add: kept_same)
next
  case (extended xs w ys)
  then have v: "va_start v < va_end v" "\<forall>u \<in> set (xs @ w # ys). \<not> overlaps v u"
    by (simp_all add: vma_check_Inr)
  have "vmas_ok (xs @ w\<lparr>va_end := va_end v\<rparr> # ys)"
    by (rule extend_ok(1)) (use ok extended v in simp_all)
  moreover have "backing_of w = None" "backing_of v = None"
    using extended mergeable_no_backing [of v] mergeable_no_backing [of w] by simp_all
  ultimately show ?thesis using extended by (simp add: kept_def)
next
  case added
  let ?v = "v\<lparr>va_flags := future_lock_flags p (va_flags v)\<rparr>"
  from add_kept [OF ok, of ?v] added show ?thesis by (simp split: prod.splits sum.splits)
qed

text \<open>The range operations.\<close>

lemma cut_refs_ledger:
  "mset (backings (concat (map (cut_piece s e) vs))) + mset (released (cut_refs s e vs))
     = mset (backings vs) + mset (retained (cut_refs s e vs))"
proof (induction vs)
  case (Cons v vs)
  show ?case
  proof (cases "apart s e v")
    case True
    with Cons show ?thesis by (simp add: cut_refs_def cut_piece_def Let_def)
  next
    case False
    with Cons show ?thesis by (simp add: cut_refs_def cut_piece_def Let_def)
  qed
qed (simp add: cut_refs_def)

lemma unmap_kept: "vmas_ok (vm_vmas p) \<Longrightarrow> kept p (page_step (EvUnmap s e) p)"
  using cut.edit_ok [of "vm_vmas p" s e] cut_refs_ledger [of s e "vm_vmas p"]
  by (simp add: kept_same kept_def vm_remove_range_def cut.edit_concat)

lemma protect_kept: "vmas_ok (vm_vmas p) \<Longrightarrow> kept p (page_step (EvProtect s e w x a) p)"
  using prot.edit_ok [of "vm_vmas p" s e w x a] prot.split_ledger [of "vm_vmas p" s e w x a]
  by (simp add: kept_same kept_def vm_protect_def)

lemma lock_kept: "vmas_ok (vm_vmas p) \<Longrightarrow> kept p (page_step (EvLock s e l) p)"
  using lock.edit_ok [of "vm_vmas p" s e l] lock.split_ledger [of "vm_vmas p" s e l]
  by (simp add: kept_same kept_def vm_lock_range_def)

lemma advise_kept: "vmas_ok (vm_vmas p) \<Longrightarrow> kept p (page_step (EvAdvise s e adv) p)"
  using adv.edit_ok [of "vm_vmas p" s e adv] adv.split_ledger [of "vm_vmas p" s e adv]
  by (simp add: kept_same kept_def vm_set_fork_policy_def Let_def split: prod.splits)

text \<open>An area changed in place.\<close>

lemma map_vmas_ok:
  "(\<And>v. va_start (f v) = va_start v \<and> va_end (f v) = va_end v) \<Longrightarrow> vmas_ok (map f vs) = vmas_ok vs"
  by (induction vs) auto

lemma map_backings: "(\<And>v. backing_of (f v) = backing_of v) \<Longrightarrow> backings (map f vs) = backings vs"
  by (induction vs) auto

lemma lock_all_kept: "vmas_ok (vm_vmas p) \<Longrightarrow> kept p (page_step (EvLockAll l) p)"
  by (simp add: kept_def vm_lock_all_def map_vmas_ok map_backings)

lemma page_step_kept: "vmas_ok (vm_vmas p) \<Longrightarrow> kept p (page_step ev p)"
  by (cases ev)
    (simp_all only: add_kept grow_kept unmap_kept protect_kept lock_kept lock_all_kept advise_kept,
     simp_all add: kept_def vm_reset_for_exec_def vm_set_future_def)

section \<open>Reserving, removing, claiming and returning\<close>

text \<open>Where a reservation lands: inside the gap found, whatever the phase.\<close>

lemma reserve_spec:
  assumes ok: "vmas_ok (vm_vmas p)" and sz: "0 < sz" and span: "reserve_span sz ph = Some span"
    and res: "vm_reserve sz ph lo hi kind flags span p = (p', Some base)"
  obtains v where "va_start v = base" and "va_end v = base + sz" and "va_kind v = kind"
    and "va_flags v = future_lock_flags p flags" and "va_fork v = COPY"
    and "p' = p\<lparr>vm_vmas := insert_vma v (vm_vmas p)\<rparr>"
    and "lo \<le> base" and "base + sz \<le> hi" and "\<forall>w \<in> set (vm_vmas p). \<not> overlaps v w"
    and "\<And>k. ph = Some k \<Longrightarrow> base mod FRAME_SIZE = k mod FRAME_SIZE"
proof -
  from res obtain gap where gap: "find_gap (vm_vmas p) span lo hi = Some gap"
    by (auto simp: vm_reserve_def split: option.splits)
  define lead where "lead = (case ph of None \<Rightarrow> 0 | Some k \<Rightarrow> wrapping_sub64 k gap mod FRAME_SIZE)"
  define v where "v = \<lparr>va_start = gap + lead, va_end = gap + lead + sz, va_kind = kind,
    va_flags = future_lock_flags p flags, va_fork = COPY\<rparr>"
  have r: "base = gap + lead" "p' = p\<lparr>vm_vmas := insert_vma v (vm_vmas p)\<rparr>"
    using res gap by (auto simp: vm_reserve_def v_def lead_def Let_def split: option.splits)
  have fits: "gap_fits (vm_vmas p) span lo hi gap" using find_gap_SomeD [OF ok gap] by simp
  have room: "lead + sz \<le> span"
  proof (cases ph)
    case None
    with span show ?thesis by (simp add: lead_def reserve_span_def)
  next
    case (Some k)
    have "lead < FRAME_SIZE" by (simp add: lead_def Some FRAME_SIZE_def)
    with span Some show ?thesis by (simp add: reserve_span_def)
  qed
  have free: "\<forall>w \<in> set (vm_vmas p). \<not> overlaps v w"
    using fits room by (fastforce simp: gap_fits_def v_def overlaps_def)
  have phase: "base mod FRAME_SIZE = k mod FRAME_SIZE" if "ph = Some k" for k
  proof -
    have "int (wrapping_sub64 k gap) mod int FRAME_SIZE = (int k - int gap) mod int FRAME_SIZE"
      unfolding int_wrapping FRAME_SIZE_def by (simp add: mod_mod_cancel)
    then have "int lead = (int k - int gap) mod int FRAME_SIZE"
      using that by (simp add: lead_def zmod_int)
    then have "int base mod int FRAME_SIZE = int k mod int FRAME_SIZE"
      unfolding r(1) by (simp add: mod_simps)
    then show ?thesis by (metis of_nat_eq_iff zmod_int)
  qed
  show ?thesis
    by (rule that [of v])
      (use r fits room free phase in \<open>auto simp: v_def gap_fits_def\<close>)
qed

lemma reserve_None: "vm_reserve sz ph lo hi kind flags span p = (p', None) \<Longrightarrow> p' = p"
  by (auto simp: vm_reserve_def Let_def split: option.splits)

lemma reserve_kept:
  assumes ok: "vmas_ok (vm_vmas p)" and sz: "0 < sz"
  shows "kept p (vm_step (EvReserve sz ph lo hi kind flags) p)"
proof (cases "reserve_span sz ph")
  case None
  with ok show ?thesis by (simp add: kept_same)
next
  case (Some span)
  obtain p' r where res: "vm_reserve sz ph lo hi kind flags span p = (p', r)" by (metis surj_pair)
  show ?thesis
  proof (cases r)
    case None
    with res reserve_None [of sz ph lo hi kind flags span p p'] Some ok show ?thesis by (simp add: kept_same)
  next
    case (Some base)
    from reserve_spec [OF ok sz \<open>reserve_span sz ph = Some span\<close> res [unfolded Some]] obtain v where
      v: "va_start v = base" "va_end v = base + sz" "va_kind v = kind"
        "p' = p\<lparr>vm_vmas := insert_vma v (vm_vmas p)\<rparr>" "\<forall>w \<in> set (vm_vmas p). \<not> overlaps v w" by metis
    have pos: "va_start v < va_end v" using v sz by simp
    note ins = insert_vma_ok [OF ok pos v(5)]
    have "backings [v] = backings [\<lparr>va_start = base, va_end = base + sz, va_kind = kind, va_flags = flags, va_fork = COPY\<rparr>]"
      by (rule backings_cong) (simp add: backing_of_def v(3))
    then show ?thesis
      using res Some \<open>reserve_span sz ph = Some span\<close> v(4) ins(1) backings_of_mset [OF ins(2)]
      by (simp add: kept_def)
  qed
qed

lemma remove_kept:
  assumes ok: "vmas_ok (vm_vmas p)"
  shows "kept p (vm_step (EvRemove start) p)"
  using ok
proof (cases rule: take_vma_cases [where x = start])
  case (found v vs')
  with backings_of_mset [OF found(3)] show ?thesis by (simp add: vm_remove_vma_def kept_def)
next
  case absent
  with ok show ?thesis by (simp add: vm_remove_vma_def kept_same)
qed

text \<open>A device region found by its start, with the areas before and after it.\<close>

lemma device_split:
  assumes ok: "vmas_ok (vm_vmas p)" and hit: "binary_search_start s (vm_vmas p) = Inr i"
    and dev: "device_region e (vm_vmas p ! i)"
  obtains xs v ys where "vm_vmas p = xs @ v # ys" and "length xs = i" and "va_start v = s" and "va_end v = e"
    and "backing_of v = None" and "s < e"
proof -
  have i: "i < length (vm_vmas p)" "va_start (vm_vmas p ! i) = s"
    using ok hit by (auto elim: binary_search_start_cases [where x = s])
  have "s < e" using vmas_ok_pos [OF ok, of "vm_vmas p ! i"] i dev by (simp add: device_region_def)
  then show ?thesis
    using that [of "take i (vm_vmas p)" "vm_vmas p ! i" "drop (Suc i) (vm_vmas p)"] i dev
    by (simp add: id_take_nth_drop [symmetric] device_region_def backing_of_def)
qed

lemma remove_at_middle [simp]: "length xs = i \<Longrightarrow> remove_at i (xs @ v # ys) = xs @ ys"
  by (auto simp: remove_at_def)

lemma detach_kept:
  assumes ok: "vmas_ok (vm_vmas p)"
  shows "kept p (vm_step (EvDetach s e) p)"
proof (cases "binary_search_start s (vm_vmas p)")
  case (Inl i)
  with ok show ?thesis by (simp add: vm_remove_foreign_def kept_same)
next
  case (Inr i)
  show ?thesis
  proof (cases "device_region e (vm_vmas p ! i)")
    case True
    from device_split [OF ok Inr True] obtain xs v ys where
      "vm_vmas p = xs @ v # ys" "length xs = i" "backing_of v = None" by metis
    with Inr True ok show ?thesis by (simp add: vm_remove_foreign_def kept_def vmas_ok_append)
  next
    case False
    with Inr ok show ?thesis by (simp add: vm_remove_foreign_def kept_same)
  qed
qed

lemma fold_insert_at:
  "length xs = i \<Longrightarrow> fold (insert_at i) (rev ps) (xs @ ys) = xs @ ps @ ys"
  by (induction ps) (auto simp: insert_at_def)

lemma claim_spec:
  assumes "vm_claim s e flags p = (p', Ok r)"
  obtains xs v ys where "vm_vmas p = xs @ v # ys" and "va_start v \<le> s" and "e \<le> va_end v"
    and "va_kind v = Anonymous" and "r = \<lparr>rs_flags = va_flags v, rs_fork = va_fork v\<rparr>"
    and "p' = p\<lparr>vm_vmas := xs @ claim_pieces s e flags v @ ys\<rparr>"
proof -
  let ?P = "\<lambda>v. va_start v \<le> s \<and> e \<le> va_end v"
  from assms obtain i where f: "first_index ?P (vm_vmas p) = Some i"
    by (auto simp: vm_claim_def split: option.splits)
  let ?xs = "take i (vm_vmas p)" and ?v = "vm_vmas p ! i" and ?ys = "drop (Suc i) (vm_vmas p)"
  note i = first_index_lt [OF f] and P = first_index_sat [OF f]
  have split: "vm_vmas p = ?xs @ ?v # ?ys" using i by (simp add: id_take_nth_drop)
  have "fold (insert_at i) (rev ps) (remove_at i (vm_vmas p)) = ?xs @ ps @ ?ys" for ps
    using i fold_insert_at [of ?xs i ps ?ys] by (simp add: remove_at_def)
  then show ?thesis
    using that [OF split] assms f P by (auto simp: vm_claim_def Let_def split: if_splits)
qed

lemma claim_refused: "vm_claim s e flags p = (p', Err x) \<Longrightarrow> p' = p"
  by (auto simp: vm_claim_def Let_def split: option.splits if_splits)

lemma pieces_replace:
  assumes ok: "vmas_ok (xs @ v # ys)" and w: "within v ps"
  shows "vmas_ok (xs @ ps @ ys)"
    and "vm_view (xs @ ps @ ys) a = (if vma_contains a v then vm_view ps a else vm_view (xs @ v # ys) a)"
proof -
  define f where "f u = (if u = v then ps else [u])" for u
  have in_v: "u \<noteq> v" if "u \<in> set xs \<union> set ys" for u
    using ok that by (fastforce simp: vmas_ok_append dest: vmas_ok_pos)
  then have "map f xs = map (\<lambda>u. [u]) xs" "map f ys = map (\<lambda>u. [u]) ys" by (simp_all add: f_def)
  then have m: "concat (map f xs) = xs" "concat (map f ys) = ys" by (simp_all only: concat_map_singleton map_ident)
  have "f v = ps" by (simp add: f_def)
  then have c: "concat (map f (xs @ v # ys)) = xs @ ps @ ys" using m by simp
  have win: "within u (f u)" if "u \<in> set (xs @ v # ys)" for u
    using w vmas_ok_pos [OF ok that] by (simp add: f_def within_self)
  from concat_pieces_ok [OF ok win] c show "vmas_ok (xs @ ps @ ys)" by simp
  have at: "vma_at a (xs @ ps @ ys) = Option.bind (vma_at a (xs @ v # ys)) (\<lambda>u. vma_at a (f u))"
    using concat_pieces_at [OF ok win] c by simp
  show "vm_view (xs @ ps @ ys) a = (if vma_contains a v then vm_view ps a else vm_view (xs @ v # ys) a)"
  proof (cases "vma_contains a v")
    case True
    then have "vma_at a (xs @ v # ys) = Some v" by (simp add: vma_at_Some [OF ok])
    with True at show ?thesis by (simp add: vm_view_def f_def)
  next
    case False
    have "vma_at a (f u) = Some u" if "vma_at a (xs @ v # ys) = Some u" for u
      using that False vma_at_Some [OF ok, of a u] by (auto simp: f_def)
    with False at show ?thesis by (cases "vma_at a (xs @ v # ys)") (simp_all add: vm_view_def)
  qed
qed

lemma claim_within:
  assumes "va_start v \<le> s" and "e \<le> va_end v" and "s < e"
  shows "within v (claim_pieces s e flags v)"
  unfolding claim_pieces_def
  by (rule vma_pieces_within) (use assms in \<open>auto simp: apart_def\<close>)

lemma backing_of_plain:
  "k = Fixed \<or> k = Anonymous \<Longrightarrow>
     backing_of \<lparr>va_start = s, va_end = e, va_kind = k, va_flags = f, va_fork = p\<rparr> = None"
  by (auto simp: backing_of_def)

lemma claim_kept:
  assumes ok: "vmas_ok (vm_vmas p)"
  shows "kept p (vm_step (EvClaim s e flags) p)"
proof (cases "e \<le> s \<or> s mod FRAME_SIZE \<noteq> 0 \<or> e mod FRAME_SIZE \<noteq> 0")
  case True
  then show ?thesis using ok by (simp add: kept_same)
next
  case False
  obtain p' res where step: "vm_claim s e flags p = (p', res)" by (metis surj_pair)
  show ?thesis
  proof (cases res)
    case (Inl x)
    with claim_refused [of s e flags p p' x] step False ok show ?thesis by (simp add: kept_same)
  next
    case (Inr r)
    from claim_spec [OF step [unfolded Inr]] obtain xs v ys where
      c: "vm_vmas p = xs @ v # ys" "va_start v \<le> s" "e \<le> va_end v" "va_kind v = Anonymous"
        "p' = p\<lparr>vm_vmas := xs @ claim_pieces s e flags v @ ys\<rparr>" by metis
    have "within v (claim_pieces s e flags v)" using claim_within c False by simp
    from pieces_replace(1) [OF ok [unfolded c(1)] this] have "vmas_ok (vm_vmas p')" using c(5) by simp
    moreover have "backing_of v = None" using c(4) by (simp add: backing_of_def)
    then have "backings (claim_pieces s e flags v) = []"
      by (simp add: claim_pieces_def vma_pieces_def backing_of_plain)
    ultimately show ?thesis
      using step False c(1,5) \<open>backing_of v = None\<close> by (simp add: kept_def)
  qed
qed

text \<open>A returned region, joined to its neighbours.\<close>

lemma same_reservation_page: "same_reservation r w \<Longrightarrow> page_of a w = (Anonymous, rs_flags r, rs_fork r)"
  by (simp add: same_reservation_def page_of_def place_at_def)

lemma same_reservation_backing: "same_reservation r w \<Longrightarrow> backing_of w = None"
  by (simp add: same_reservation_def backing_of_def)

lemma join_after_spec:
  assumes ok: "vmas_ok (xs @ v # ys)" and e: "va_end v = e" and i: "length xs = i"
  obtains e' ys' where "join_after e r i (xs @ v # ys) = (e', xs @ v # ys')" and "e \<le> e'"
    and "vmas_ok (xs @ v\<lparr>va_end := e'\<rparr> # ys')" and "backings ys' = backings ys"
    and "\<And>a. vm_view ys a = (if e \<le> a \<and> a < e' then Some (Anonymous, rs_flags r, rs_fork r) else vm_view ys' a)"
proof (cases "\<exists>w zs. ys = w # zs \<and> va_start w = e \<and> same_reservation r w")
  case True
  then obtain w zs where y: "ys = w # zs" "va_start w = e" "same_reservation r w" by auto
  have r: "remove_at (Suc i) (xs @ v # w # zs) = xs @ v # zs"
    using remove_at_middle [of "xs @ [v]" "Suc i" w zs] i by simp
  show ?thesis
  proof (rule that)
    show "join_after e r i (xs @ v # ys) = (va_end w, xs @ v # zs)"
      using i y r by (simp add: join_after_def nth_append)
    show "e \<le> va_end w" "vmas_ok (xs @ v\<lparr>va_end := va_end w\<rparr> # zs)"
      using ok y e by (auto simp: vmas_ok_append)
    show "backings zs = backings ys" using y same_reservation_backing [OF y(3)] by simp
    show "vm_view ys a = (if e \<le> a \<and> a < va_end w then Some (Anonymous, rs_flags r, rs_fork r) else vm_view zs a)" for a
      using y same_reservation_page [OF y(3)] by (auto simp: vma_contains_def)
  qed
next
  case False
  show ?thesis
  proof (rule that)
    show "join_after e r i (xs @ v # ys) = (e, xs @ v # ys)"
      using False i by (cases ys) (auto simp: join_after_def nth_append)
    show "vmas_ok (xs @ v\<lparr>va_end := e\<rparr> # ys)" using ok e by (auto simp: vmas_ok_append)
  qed auto
qed

lemma join_before_spec:
  assumes ok: "vmas_ok (xs @ v\<lparr>va_end := e\<rparr> # ys)" and s: "va_start v = s" and i: "length xs = i"
  obtains zs where "join_before s e r i (xs @ v # ys) = zs" and "vmas_ok zs" and "backings zs = backings xs @ backings ys"
    and "\<And>a. vm_view zs a = (if s \<le> a \<and> a < e then Some (Anonymous, rs_flags r, rs_fork r) else vm_view (xs @ ys) a)"
proof (cases "\<exists>us u. xs = us @ [u] \<and> va_end u = s \<and> same_reservation r u")
  case True
  then obtain us u where x: "xs = us @ [u]" "va_end u = s" "same_reservation r u" by auto
  let ?u = "u\<lparr>va_end := e\<rparr>"
  have u: "va_start u < va_end u" "s < e" using ok s x by (auto simp: vmas_ok_append)
  have b: "join_before s e r i (xs @ v # ys) = us @ ?u # ys"
  proof -
    have "(xs @ v # ys)[i - 1 := ?u] = (us @ [?u]) @ v # ys" "(xs @ v # ys) ! (i - 1) = u" "0 < i"
      using x i by (auto simp: nth_append list_update_append)
    then show ?thesis
      using remove_at_middle [of "us @ [?u]" i v ys] x i by (simp add: join_before_def)
  qed
  show ?thesis
  proof (rule that [OF b])
    show "vmas_ok (us @ ?u # ys)" using ok x s u by (auto simp: vmas_ok_append)
    have "backing_of u = None" by (rule same_reservation_backing [OF x(3)])
    then show "backings (us @ ?u # ys) = backings xs @ backings ys" using x by simp
    fix a
    have us: "vm_view us a = None" if "s \<le> a"
      using that ok x u by (fastforce simp: vm_view_None vmas_ok_append vma_contains_def)
    have pg: "page_of a ?u = (Anonymous, rs_flags r, rs_fork r)"
      by (rule same_reservation_page) (use x(3) in \<open>simp add: same_reservation_def\<close>)
    have pu: "page_of a u = (Anonymous, rs_flags r, rs_fork r)" by (rule same_reservation_page [OF x(3)])
    have c: "vma_contains a ?u \<longleftrightarrow> vma_contains a u \<or> (s \<le> a \<and> a < e)"
      using u x(2) by (auto simp: vma_contains_def)
    have cu: "\<not> vma_contains a u" if "s \<le> a" using x(2) that by (simp add: vma_contains_def)
    show "vm_view (us @ ?u # ys) a
        = (if s \<le> a \<and> a < e then Some (Anonymous, rs_flags r, rs_fork r) else vm_view (xs @ ys) a)"
    proof (cases "s \<le> a")
      case True
      with us cu c pg x show ?thesis by (simp add: vm_view_append)
    next
      case False
      with c pg pu x show ?thesis by (simp add: vm_view_append split: option.splits)
    qed
  qed
next
  case False
  let ?v = "\<lparr>va_start = s, va_end = e, va_kind = Anonymous, va_flags = rs_flags r, va_fork = rs_fork r\<rparr>"
  have nb: "\<not> (0 < i \<and> va_end ((xs @ v # ys) ! (i - 1)) = s \<and> same_reservation r ((xs @ v # ys) ! (i - 1)))"
  proof (cases xs rule: rev_cases)
    case Nil
    with i show ?thesis by simp
  next
    case (snoc us u)
    with False i show ?thesis by (auto simp: nth_append)
  qed
  have b: "join_before s e r i (xs @ v # ys) = xs @ ?v # ys"
    unfolding join_before_def using nb i by (simp add: list_update_append)
  show ?thesis
  proof (rule that [OF b])
    show "vmas_ok (xs @ ?v # ys)" using ok s by (auto simp: vmas_ok_append)
    show "backings (xs @ ?v # ys) = backings xs @ backings ys" by (simp add: backing_of_plain)
    fix a
    have "vm_view xs a = None" if "s \<le> a"
      using that ok s by (fastforce simp: vm_view_None vmas_ok_append vma_contains_def)
    then show "vm_view (xs @ ?v # ys) a
        = (if s \<le> a \<and> a < e then Some (Anonymous, rs_flags r, rs_fork r) else vm_view (xs @ ys) a)"
      by (auto simp: vm_view_append vma_contains_def page_of_def place_at_def split: option.splits)
  qed
qed

text \<open>What giving a claimed region back does to the pages.\<close>

lemma return_spec:
  assumes ok: "vmas_ok (vm_vmas p)" and ret: "vm_return pml4 s e r p = (p', True)"
  shows "vmas_ok (vm_vmas p')" and "backings (vm_vmas p') = backings (vm_vmas p)"
    and "vm_view (vm_vmas p') a =
      (if s \<le> a \<and> a < e then Some (Anonymous, rs_flags r, rs_fork r) else vm_view (vm_vmas p) a)"
proof -
  from ret obtain i where hit: "binary_search_start s (vm_vmas p) = Inr i"
    and dev: "device_region e (vm_vmas p ! i)"
    by (auto simp: vm_return_def split: sum.splits prod.splits if_splits)
  from device_split [OF ok hit dev] obtain xs v ys where
    d: "vm_vmas p = xs @ v # ys" "length xs = i" "va_start v = s" "va_end v = e" "backing_of v = None" "s < e" .
  from join_after_spec [OF ok [unfolded d(1)] d(4) d(2), of r] obtain e' ys' where
    ja: "join_after e r i (xs @ v # ys) = (e', xs @ v # ys')" "e \<le> e'"
      "vmas_ok (xs @ v\<lparr>va_end := e'\<rparr> # ys')" "backings ys' = backings ys"
      "\<And>a. vm_view ys a = (if e \<le> a \<and> a < e' then Some (Anonymous, rs_flags r, rs_fork r) else vm_view ys' a)" by blast
  from join_before_spec [OF ja(3) d(3) d(2), of r] obtain zs where
    jb: "join_before s e' r i (xs @ v # ys') = zs" "vmas_ok zs" "backings zs = backings xs @ backings ys'"
      "\<And>a. vm_view zs a = (if s \<le> a \<and> a < e' then Some (Anonymous, rs_flags r, rs_fork r) else vm_view (xs @ ys') a)" by blast
  have p': "vm_vmas p' = zs"
    using ret hit dev d(1) ja(1) jb(1) by (auto simp: vm_return_def split: if_splits)
  then show "vmas_ok (vm_vmas p')" "backings (vm_vmas p') = backings (vm_vmas p)"
    using jb ja d by simp_all
  have xs: "vm_view xs a = None" if "s \<le> a"
    using that ok d by (fastforce simp: vm_view_None vmas_ok_append vma_contains_def)
  show "vm_view (vm_vmas p') a =
      (if s \<le> a \<and> a < e then Some (Anonymous, rs_flags r, rs_fork r) else vm_view (vm_vmas p) a)"
  proof (cases "s \<le> a")
    case True
    with xs have *: "vm_view (xs @ ws) a = vm_view ws a" for ws by (simp add: vm_view_append)
    show ?thesis
      using True d(3,4) ja(2) unfolding p' d(1) jb(4) * by (auto simp: vma_contains_def ja(5))
  next
    case False
    then have "\<not> vma_contains a v" using d(3) by (simp add: vma_contains_def)
    moreover have "vm_view ys a = vm_view ys' a" using False d(6) ja(5) [of a] by simp
    ultimately have "vm_view (v # ys) a = vm_view ys' a" by simp
    then show ?thesis using False unfolding p' d(1) jb(4)
      by (cases "vm_view xs a") (simp_all add: vm_view_append del: vm_view_Cons)
  qed
qed

lemma return_refused: "vm_return pml4 s e r p = (p', False) \<Longrightarrow> p' = p"
  by (auto simp: vm_return_def split: sum.splits prod.splits if_splits)

lemma return_kept:
  assumes ok: "vmas_ok (vm_vmas p)"
  shows "kept p (vm_step (EvReturn pml4 s e r) p)"
proof -
  obtain p' given_back where step: "vm_return pml4 s e r p = (p', given_back)" by (metis surj_pair)
  show ?thesis
  proof (cases given_back)
    case True
    from return_spec(1,2) [OF ok step [unfolded eqTrueI [OF True]]] step show ?thesis by (simp add: kept_def)
  next
    case False
    with return_refused [of pml4 s e r p p'] step ok show ?thesis by (simp add: kept_same)
  qed
qed

lemma vm_step_kept:
  assumes "vmas_ok (vm_vmas p)" and "event_ok ev"
  shows "kept p (vm_step ev p)"
proof (cases ev)
  case (EvPage x)
  with page_step_kept [OF assms(1)] show ?thesis by simp
next
  case (EvReserve sz ph lo hi k f)
  with reserve_kept [OF assms(1)] assms(2) show ?thesis by simp
qed (simp_all only: remove_kept [OF assms(1)] detach_kept [OF assms(1)] claim_kept [OF assms(1)] return_kept [OF assms(1)])

end
