(* ===== verification/MemoryPages.thy ===== *)
theory MemoryPages imports MemoryRuns begin

text \<open>
  Process memory as a map from addresses to pages. \<open>page_spec\<close> says what \<^verbatim>\<open>mmap\<close>, \<^verbatim>\<open>munmap\<close>,
  \<^verbatim>\<open>mprotect\<close>, \<^verbatim>\<open>mlock\<close>, \<^verbatim>\<open>madvise\<close>, \<^verbatim>\<open>brk\<close> and \<^verbatim>\<open>execve\<close> promise of each page, with no mention of
  areas, splits or merges; the operations on the list refine it.
\<close>

section \<open>The specification\<close>

type_synonym page_state = "bool \<times> (nat \<Rightarrow> page option)"

definition pages_of :: "vm \<Rightarrow> page_state" where
  "pages_of p = (vm_future p \<noteq> None, vm_view (vm_vmas p))"

definition shared_readonly :: "page \<Rightarrow> bool" where
  "shared_readonly pg \<longleftrightarrow> (case fst pg of FileBacked h off fid sh mw \<Rightarrow> sh \<and> \<not> mw | _ \<Rightarrow> False)"

definition private_page :: "page \<Rightarrow> bool" where
  "private_page pg \<longleftrightarrow>
     (fst pg = Anonymous \<or> fst pg = Stack \<or> fst pg = Brk) \<and> \<not> flags_contains (fst (snd pg)) PF_SHARED"

definition new_page :: "bool \<Rightarrow> nat \<Rightarrow> vma \<Rightarrow> page" where
  "new_page fut a v = (place_at a v, if fut then va_flags v OR PF_MLOCKED else va_flags v, va_fork v)"

definition on_pages :: "nat \<Rightarrow> nat \<Rightarrow> (page \<Rightarrow> page option) \<Rightarrow> (nat \<Rightarrow> page option) \<Rightarrow> nat \<Rightarrow> page option" where
  "on_pages s e f m a = (if s \<le> a \<and> a < e then Option.bind (m a) f else m a)"

definition some_page :: "nat \<Rightarrow> nat \<Rightarrow> (page \<Rightarrow> bool) \<Rightarrow> (nat \<Rightarrow> page option) \<Rightarrow> bool" where
  "some_page s e P m \<longleftrightarrow> (\<exists>a pg. s \<le> a \<and> a < e \<and> m a = Some pg \<and> P pg)"

definition spec_add :: "vma \<Rightarrow> page_state \<Rightarrow> page_state" where
  "spec_add v st =
     (if is_hw_page_aligned (va_start v) \<and> is_hw_page_aligned (va_end v) \<and> va_start v < va_end v
         \<and> (\<forall>a. vma_contains a v \<longrightarrow> snd st a = None)
      then (fst st, \<lambda>a. if vma_contains a v then Some (new_page (fst st) a v) else snd st a)
      else st)"

fun page_spec :: "page_event \<Rightarrow> page_state \<Rightarrow> page_state" where
  "page_spec (EvAdd v) st = spec_add v st"
| "page_spec (EvGrow v) st = spec_add v st"
| "page_spec (EvUnmap s e) (fut, m) = (fut, on_pages s e (\<lambda>pg. None) m)"
| "page_spec (EvProtect s e w x acc) (fut, m) =
     (if w \<and> some_page s e shared_readonly m then (fut, m)
      else (fut, on_pages s e (\<lambda>pg. Some (protect_page w x acc pg)) m))"
| "page_spec (EvLock s e l) (fut, m) = (fut, on_pages s e (\<lambda>pg. Some (lock_page l pg)) m)"
| "page_spec (EvLockAll l) (fut, m) = (fut, \<lambda>a. map_option (lock_page l) (m a))"
| "page_spec (EvAdvise s e adv) (fut, m) =
     (if adv = AdviseWipe \<and> some_page s e (\<lambda>pg. \<not> private_page pg) m then (fut, m)
      else (fut, on_pages s e (\<lambda>pg. Some (advise_page adv pg)) m))"
| "page_spec EvExec (fut, m) = (fut, \<lambda>a. None)"
| "page_spec (EvSetFuture f) (fut, m) = (f \<noteq> None, m)"

section \<open>The refinement\<close>

lemma vma_check_free:
  assumes ok: "vmas_ok vs"
  shows "vma_check v vs = Inr u \<longleftrightarrow>
    is_hw_page_aligned (va_start v) \<and> is_hw_page_aligned (va_end v) \<and> va_start v < va_end v
      \<and> (\<forall>a. vma_contains a v \<longrightarrow> vm_view vs a = None)"
  unfolding vma_check_Inr using free_iff [OF ok, of v] by blast

lemma page_of_new:
  "page_of a (v\<lparr>va_flags := future_lock_flags p (va_flags v)\<rparr>) = new_page (vm_future p \<noteq> None) a v"
  by (simp add: page_of_def new_page_def future_lock_flags_def)

lemma add_refines:
  assumes ok: "vmas_ok (vm_vmas p)"
  shows "pages_of (fst (vm_add_vma v p)) = spec_add v (pages_of p)"
proof (cases "vma_check v (vm_vmas p)")
  case (Inl e)
  then have "\<not> (is_hw_page_aligned (va_start v) \<and> is_hw_page_aligned (va_end v) \<and> va_start v < va_end v
      \<and> (\<forall>a. vma_contains a v \<longrightarrow> vm_view (vm_vmas p) a = None))"
    using vma_check_free [OF ok, of v "()"] by simp
  with Inl show ?thesis by (simp only: vm_add_vma_def spec_add_def pages_of_def snd_conv sum.case fst_conv if_False)
next
  case (Inr u)
  let ?v = "v\<lparr>va_flags := future_lock_flags p (va_flags v)\<rparr>"
  from Inr have v: "va_start ?v < va_end ?v" "\<forall>w \<in> set (vm_vmas p). \<not> overlaps ?v w"
    by (simp_all add: vma_check_Inr)
  have view: "vm_view (insert_vma ?v (vm_vmas p)) =
      (\<lambda>a. if vma_contains a v then Some (new_page (vm_future p \<noteq> None) a v) else vm_view (vm_vmas p) a)"
    by (rule ext) (simp only: insert_view [OF ok v] contains_flags page_of_new)
  from Inr [unfolded vma_check_free [OF ok]] show ?thesis
    by (simp add: vm_add_vma_def Inr spec_add_def pages_of_def view cong: if_cong)
qed

lemma spec_add_locked:
  "spec_add (v\<lparr>va_flags := future_lock_flags p (va_flags v)\<rparr>) (pages_of p) = spec_add v (pages_of p)"
proof -
  have "(f OR PF_MLOCKED) OR PF_MLOCKED = f OR PF_MLOCKED" for f :: page_flags
    by (simp add: or.assoc)
  moreover have ends: "va_start (v\<lparr>va_flags := f\<rparr>) = va_start v" "va_end (v\<lparr>va_flags := f\<rparr>) = va_end v" for f
    by simp_all
  ultimately have "new_page (vm_future p \<noteq> None) a (v\<lparr>va_flags := future_lock_flags p (va_flags v)\<rparr>)
      = new_page (vm_future p \<noteq> None) a v" for a
    by (simp add: new_page_def future_lock_flags_def)
  then show ?thesis
    unfolding spec_add_def pages_of_def ends by (simp only: fst_conv snd_conv contains_flags)
qed

lemma grow_refines:
  assumes ok: "vmas_ok (vm_vmas p)"
  shows "pages_of (fst (vm_add_vma_merging v p)) = spec_add v (pages_of p)"
proof (cases rule: merging_cases [where v = v and p = p])
  case (refused e)
  then have "vm_add_vma v p = (p, Err e)" by (simp add: vm_add_vma_def)
  with add_refines [OF ok, of v] refused show ?thesis by simp
next
  case added
  then show ?thesis using add_refines [OF ok] spec_add_locked by simp
next
  case (extended xs w ys)
  then have v: "va_start v < va_end v" "\<forall>u \<in> set (xs @ w # ys). \<not> overlaps v u"
    by (simp_all add: vma_check_Inr)
  have "place_at a w = place_at a v" for a
    using extended(4,5) by (auto simp: place_at_def mergeable_kind_def)
  then have pg: "page_of a (w\<lparr>va_end := va_end v\<rparr>) = new_page (vm_future p \<noteq> None) a v" for a
    using extended(6,7) by (simp add: page_of_def new_page_def future_lock_flags_def)
  have view: "vm_view (xs @ w\<lparr>va_end := va_end v\<rparr> # ys) =
      (\<lambda>a. if vma_contains a v then Some (new_page (vm_future p \<noteq> None) a v) else vm_view (vm_vmas p) a)"
    by (rule ext) (use extend_ok(2) [OF ok [unfolded extended(2)] extended(3) v] pg extended(2) in simp)
  from extended(1) [unfolded vma_check_free [OF ok]] show ?thesis
    by (simp add: extended(8) spec_add_def pages_of_def view cong: if_cong)
qed

lemma some_page_iff:
  assumes ok: "vmas_ok vs" and se: "s < e" and P: "\<And>a v. Q v \<longleftrightarrow> P (page_of a v)"
  shows "some_page s e P (vm_view vs) \<longleftrightarrow> (\<exists>v \<in> set vs. s < va_end v \<and> va_start v < e \<and> Q v)"
proof
  assume "some_page s e P (vm_view vs)"
  then obtain a v where "s \<le> a" "a < e" "vma_at a vs = Some v" "P (page_of a v)"
    by (auto simp: some_page_def vm_view_def)
  then show "\<exists>v \<in> set vs. s < va_end v \<and> va_start v < e \<and> Q v"
    using vma_at_Some [OF ok] P by (fastforce simp: vma_contains_def)
next
  assume "\<exists>v \<in> set vs. s < va_end v \<and> va_start v < e \<and> Q v"
  then obtain v where v: "v \<in> set vs" "s < va_end v" "va_start v < e" "Q v" by blast
  let ?a = "max s (va_start v)"
  have "vma_contains ?a v" using v vmas_ok_pos [OF ok v(1)] by (simp add: vma_contains_def)
  then have "vma_at ?a vs = Some v" using v(1) by (simp add: vma_at_Some [OF ok])
  moreover have "s \<le> ?a" "?a < e" using v(3) se by simp_all
  ultimately show "some_page s e P (vm_view vs)"
    unfolding some_page_def vm_view_def using v(4) P by blast
qed

lemma write_forbidden_page: "write_forbidden v \<longleftrightarrow> shared_readonly (page_of a v)"
  by (simp add: write_forbidden_def shared_readonly_def page_of_def place_at_def split: vma_kind.splits)

lemma private_anonymous_page: "\<not> is_private_anonymous v \<longleftrightarrow> \<not> private_page (page_of a v)"
  by (simp add: is_private_anonymous_def private_page_def page_of_def place_at_def split: vma_kind.splits)

lemma on_pages_empty: "e \<le> s \<Longrightarrow> on_pages s e f m = m"
  by (rule ext) (auto simp: on_pages_def)

lemma some_page_empty: "e \<le> s \<Longrightarrow> \<not> some_page s e P m"
  by (auto simp: some_page_def)

lemma protect_refines:
  assumes ok: "vmas_ok (vm_vmas p)"
  shows "pages_of (fst (page_step (EvProtect s e w x acc) p)) = page_spec (EvProtect s e w x acc) (pages_of p)"
proof (cases "e \<le> s")
  case True
  then show ?thesis by (simp add: pages_of_def on_pages_empty some_page_empty)
next
  case False
  then have se: "s < e" by simp
  have view: "vm_view (edit_vmas (protect_piece w x acc s e) (vm_vmas p))
      = on_pages s e (\<lambda>pg. Some (protect_page w x acc pg)) (vm_view (vm_vmas p))"
    by (rule ext) (simp add: prot.edit_view [OF ok se] on_pages_def)
  show ?thesis
    unfolding page_step.simps vm_protect_def pages_of_def page_spec.simps
      some_page_iff [where P = shared_readonly, OF ok se write_forbidden_page]
    using False view by (cases "w \<and> (\<exists>v \<in> set (vm_vmas p). s < va_end v \<and> va_start v < e \<and> write_forbidden v)") auto
qed

lemma advise_refines:
  assumes ok: "vmas_ok (vm_vmas p)"
  shows "pages_of (fst (page_step (EvAdvise s e adv) p)) = page_spec (EvAdvise s e adv) (pages_of p)"
proof (cases "e \<le> s")
  case True
  then show ?thesis by (simp add: pages_of_def on_pages_empty some_page_empty)
next
  case False
  then have se: "s < e" by simp
  have view: "vm_view (edit_vmas (advise_piece adv s e) (vm_vmas p))
      = on_pages s e (\<lambda>pg. Some (advise_page adv pg)) (vm_view (vm_vmas p))"
    by (rule ext) (simp add: adv.edit_view [OF ok se] on_pages_def)
  have "list_all is_private_anonymous (filter (\<lambda>v. va_start v < e \<and> s < va_end v) (vm_vmas p))
      \<longleftrightarrow> \<not> some_page s e (\<lambda>pg. \<not> private_page pg) (vm_view (vm_vmas p))"
    unfolding some_page_iff [where P = "\<lambda>pg. \<not> private_page pg", OF ok se private_anonymous_page] by (auto simp: list_all_iff)
  then show ?thesis
    using False view
    by (simp add: vm_set_fork_policy_def pages_of_def Let_def split: prod.splits)
qed

lemma page_step_refines:
  assumes ok: "vmas_ok (vm_vmas p)"
  shows "pages_of (fst (page_step ev p)) = page_spec ev (pages_of p)"
proof (cases ev)
  case (EvAdd v)
  then show ?thesis using add_refines [OF ok, of v] by (auto split: prod.splits)
next
  case (EvGrow v)
  then show ?thesis using grow_refines [OF ok, of v] by (auto split: prod.splits)
next
  case (EvUnmap s e)
  have "s < e \<Longrightarrow> vm_view (edit_vmas (cut_piece s e) (vm_vmas p)) = on_pages s e (\<lambda>pg. None) (vm_view (vm_vmas p))"
    by (rule ext) (simp add: cut.edit_view [OF ok] on_pages_def)
  with EvUnmap show ?thesis
    by (cases "e \<le> s") (simp_all add: pages_of_def on_pages_empty vm_remove_range_def)
next
  case (EvLock s e l)
  have "s < e \<Longrightarrow> vm_view (edit_vmas (lock_piece l s e) (vm_vmas p))
      = on_pages s e (\<lambda>pg. Some (lock_page l pg)) (vm_view (vm_vmas p))"
    by (rule ext) (simp add: lock.edit_view [OF ok] on_pages_def)
  with EvLock show ?thesis
    by (cases "e \<le> s") (simp_all add: pages_of_def on_pages_empty vm_lock_range_def)
next
  case (EvLockAll l)
  have "vm_view (map (\<lambda>v. v\<lparr>va_flags := lock_flags l (va_flags v)\<rparr>) vs) a = map_option (lock_page l) (vm_view vs a)" for vs a
    by (induction vs) (simp_all add: page_of_def)
  then have "vm_view (map (\<lambda>v. v\<lparr>va_flags := lock_flags l (va_flags v)\<rparr>) (vm_vmas p))
      = (\<lambda>a. map_option (lock_page l) (vm_view (vm_vmas p) a))" by (rule ext)
  with EvLockAll show ?thesis by (simp add: pages_of_def vm_lock_all_def)
next
  case EvExec
  have "vm_view [] = (\<lambda>a. None)" by (rule ext) simp
  with EvExec show ?thesis by (simp add: pages_of_def vm_reset_for_exec_def)
next
  case (EvSetFuture f)
  then show ?thesis by (simp add: pages_of_def vm_set_future_def)
qed (simp_all only: protect_refines [OF ok] advise_refines [OF ok])

abbreviation page_run :: "page_event list \<Rightarrow> vm \<Rightarrow> vm" where
  "page_run es p \<equiv> fold (\<lambda>ev p. fst (page_step ev p)) es p"

lemma page_step_ok: "vm_ok p \<Longrightarrow> vm_ok (fst (page_step ev p))"
  using page_step_kept [of p ev] by (auto simp: vm_ok_def kept_def split: prod.splits)

interpretation pgm: machine "\<lambda>ev p. fst (page_step ev p)" vm_ok
  by unfold_locales (rule page_step_ok)

text \<open>
  C2: the operations on a process's list of areas do to every page what the system calls promise.
  Whatever sequence of mappings, unmappings, protection changes, locks, fork advice, heap growth
  and execs runs, the list, however it was split, merged and sorted, reads as the page map that the
  specification computes: pages outside a range are as they were, pages inside are changed exactly
  as asked, a file page keeps its place in the file, and a refused call changes nothing.
\<close>

theorem memory_refines_pages:
  assumes "vm_ok p"
  shows "pages_of (page_run es p) = fold page_spec es (pages_of p)"
  using assms
proof (induction es arbitrary: p)
  case (Cons ev es)
  then show ?case
    using page_step_refines [of p ev] page_step_ok [of p ev] by (simp add: vm_ok_def)
qed simp

theorem memory_refines_pages_witness:
  "pages_of (page_run [EvAdd (plain_vma 4096 12288), EvProtect 8192 12288 False False True, EvUnmap 4096 8192]
       \<lparr>vm_vmas = [], vm_future = None, vm_pml4 = 0\<rparr>)
   = fold page_spec [EvAdd (plain_vma 4096 12288), EvProtect 8192 12288 False False True, EvUnmap 4096 8192]
       (pages_of \<lparr>vm_vmas = [], vm_future = None, vm_pml4 = 0\<rparr>)"
  by (rule memory_refines_pages) (simp add: vm_ok_def)

end
