(* ===== verification/MemoryTable.thy ===== *)
theory MemoryTable imports MemoryPages begin

text \<open>
  The process table's memory: every operation by process id, with forks, execs and exits. Over any
  run, each process's list stays sorted and disjoint, and the references taken on mapped files are
  those given back and those still held.
\<close>

section \<open>Operations on the table\<close>

text \<open>
  One operation on one process, as its callers reach it; the result keeps the references moved and
  what the caller handed over.
\<close>

fun on_step :: "nat \<Rightarrow> vm_event \<Rightarrow> vm_table \<Rightarrow> vm_table \<times> ref_step list \<times> backing list" where
  "on_step pid (EvPage (EvAdd v)) t =
     (case pm_add_vma pid v t of (t', r) \<Rightarrow> (t', [], case r of Inr _ \<Rightarrow> backings [v] | Inl _ \<Rightarrow> []))"
| "on_step pid (EvPage (EvGrow v)) t =
     (case pm_add_vma_merging pid v t of (t', r) \<Rightarrow> (t', [], case r of Inr _ \<Rightarrow> backings [v] | Inl _ \<Rightarrow> []))"
| "on_step pid (EvPage (EvUnmap s e)) t = (case pm_remove_range pid s e t of (t', r, rs) \<Rightarrow> (t', rs, []))"
| "on_step pid (EvPage (EvProtect s e w x a)) t = (case pm_protect pid s e w x a t of (t', r, rs) \<Rightarrow> (t', rs, []))"
| "on_step pid (EvPage (EvLock s e l)) t = (case pm_lock_range pid s e l t of (t', rs) \<Rightarrow> (t', rs, []))"
| "on_step pid (EvPage (EvLockAll l)) t = (case pm_lock_all pid l t of (t', u) \<Rightarrow> (t', [], []))"
| "on_step pid (EvPage (EvAdvise s e adv)) t = (case pm_set_fork_policy pid s e adv t of (t', r, rs) \<Rightarrow> (t', rs, []))"
| "on_step pid (EvPage EvExec) t = (case pm_reset_for_exec pid t of (t', rs) \<Rightarrow> (t', rs, []))"
| "on_step pid (EvPage (EvSetFuture f)) t = (case with_proc pid t () (vm_set_future f) of (t', u) \<Rightarrow> (t', [], []))"
| "on_step pid (EvReserve sz ph lo hi k f) t =
     (case pm_reserve pid sz ph lo hi k f t of
        (t', None) \<Rightarrow> (t', [], [])
      | (t', Some base) \<Rightarrow>
          (t', [], backings [\<lparr>va_start = base, va_end = base + sz, va_kind = k, va_flags = f, va_fork = COPY\<rparr>]))"
| "on_step pid (EvRemove start) t = (case pm_remove_vma pid start t of (t', r, rs) \<Rightarrow> (t', rs, []))"
| "on_step pid (EvDetach s e) t = (case pm_remove_foreign pid s e t of (t', r) \<Rightarrow> (t', [], []))"
| "on_step pid (EvClaim s e f) t = (case pm_claim pid s e f t of (t', r) \<Rightarrow> (t', [], []))"
| "on_step pid (EvReturn pml4 s e r) t = (case pm_return pid pml4 s e r t of (t', r) \<Rightarrow> (t', [], []))"

definition pm_create :: "nat \<Rightarrow> nat \<Rightarrow> vm_table \<Rightarrow> vm_table" where
  "pm_create pid pml4 t = bt_insert pid (vm_new\<lparr>vm_pml4 := pml4\<rparr>) t"

text \<open>
  An event is one critical section under the table's lock, with the reference steps its caller
  performs afterwards as an output. The theorems here are about the lists of areas and about which
  steps are performed in all, on which it has no bearing when each is; \<open>MemoryRaces\<close> has them as
  steps of their own.
\<close>

datatype pm_event = Create nat nat | On nat vm_event | Fork bool nat nat nat | Exit nat

fun pm_step :: "pm_event \<Rightarrow> vm_table \<Rightarrow> vm_table \<times> ref_step list \<times> backing list" where
  "pm_step (Create pid pml4) t = (pm_create pid pml4 t, [], [])"
| "pm_step (On pid ev) t = on_step pid ev t"
| "pm_step (Fork admitted parent child pml4) t = (case pm_fork admitted parent child pml4 t of (t', r, rs) \<Rightarrow> (t', rs, []))"
| "pm_step (Exit pid) t = (case pm_exit pid t of (t', rs) \<Rightarrow> (t', rs, []))"

text \<open>A new process gets an id no live process has.\<close>

fun pm_event_ok :: "pm_event \<Rightarrow> vm_table \<Rightarrow> bool" where
  "pm_event_ok (Create pid pml4) t = (bt_get t pid = None)"
| "pm_event_ok (On pid ev) t = event_ok ev"
| "pm_event_ok (Fork admitted parent child pml4) t = (bt_get t child = None)"
| "pm_event_ok (Exit pid) t = True"

definition pm_ok :: "vm_table \<Rightarrow> bool" where
  "pm_ok t \<longleftrightarrow> bt_ok t \<and> (\<forall>p \<in> set (bt_values t). vmas_ok (vm_vmas p))"

definition pm_backings :: "vm_table \<Rightarrow> backing multiset" where
  "pm_backings t = (\<Sum>p \<in># mset (bt_values t). mset (backings (vm_vmas p)))"

section \<open>One entry of the table\<close>

lemma on_step_with:
  assumes "bt_ok t"
  shows "on_step pid ev t = (case bt_get t pid of None \<Rightarrow> (t, [], []) | Some p \<Rightarrow>
    (case vm_step ev p of (p', r) \<Rightarrow> (bt_insert pid p' t, r)))"
proof (cases "bt_get t pid")
  case None
  then show ?thesis
    by (cases "(pid, ev, t)" rule: on_step.cases)
      (simp_all add: pm_add_vma_def pm_add_vma_merging_def pm_remove_range_def pm_protect_def pm_lock_range_def
        pm_lock_all_def pm_set_fork_policy_def pm_reset_for_exec_def pm_reserve_def pm_remove_vma_def
        pm_remove_foreign_def pm_claim_def pm_return_def with_proc_def split: option.splits)
next
  case (Some p)
  note same = bt_insert_same [OF assms Some]
  show ?thesis
    by (cases "(pid, ev, t)" rule: on_step.cases)
      (simp_all add: pm_add_vma_def pm_add_vma_merging_def pm_remove_range_def pm_protect_def pm_lock_range_def
        pm_lock_all_def pm_set_fork_policy_def pm_reset_for_exec_def pm_reserve_def pm_remove_vma_def
        pm_remove_foreign_def pm_claim_def pm_return_def with_proc_def Some same split: option.splits prod.splits)
qed

lemma pm_backings_replace:
  "bt_ok t \<Longrightarrow> bt_get t pid = Some p \<Longrightarrow>
     pm_backings (bt_insert pid p' t) + mset (backings (vm_vmas p)) = pm_backings t + mset (backings (vm_vmas p'))"
  by (simp add: pm_backings_def bt_values_insert bt_values_remove ac_simps)

lemma pm_ok_insert: "pm_ok t \<Longrightarrow> vmas_ok (vm_vmas p) \<Longrightarrow> pm_ok (bt_insert pid p t)"
  using set_values_insert_subset [of t pid p] by (auto simp: pm_ok_def)

lemma pm_ok_get: "pm_ok t \<Longrightarrow> bt_get t pid = Some p \<Longrightarrow> vmas_ok (vm_vmas p)"
  using bt_get_in_values [of t pid p] by (simp add: pm_ok_def)

section \<open>What every operation keeps\<close>

text \<open>References are taken before any is given back, and none is moved when one is handed over.\<close>

definition in_order :: "ref_step list \<Rightarrow> bool" where
  "in_order rs \<longleftrightarrow> (\<exists>as bs. rs = map Retain as @ map Release bs)"

lemma in_order_cases [intro]: "in_order (map Retain as @ map Release bs)"
  by (auto simp: in_order_def)

lemma in_order_one [simp]: "in_order []" "in_order (map Retain as)" "in_order (map Release bs)"
  unfolding in_order_def by (metis append_Nil2 list.map_disc_iff)+ (metis append_Nil list.map_disc_iff)

lemma split_refs_retains: "\<exists>as. split_refs f vs = map Retain as"
proof (induction vs)
  case (Cons v vs)
  then obtain as where "split_refs f vs = map Retain as" ..
  then show ?case
    by (cases "backing_of v")
      (auto simp: split_refs_def intro: exI [of _ as] exI [of _ "replicate n b @ as" for n b])
qed (simp add: split_refs_def)

definition pm_kept :: "vm_table \<Rightarrow> vm_table \<times> ref_step list \<times> backing list \<Rightarrow> bool" where
  "pm_kept t r \<longleftrightarrow> (case r of (t', rs, given) \<Rightarrow>
     pm_ok t' \<and> pm_backings t' + mset (released rs) = pm_backings t + mset (retained rs) + mset given)"

lemma pm_kept_same: "pm_ok t \<Longrightarrow> pm_kept t (t, [], [])"
  by (simp add: pm_kept_def)

lemma on_step_kept:
  assumes t: "pm_ok t" and ev: "event_ok ev"
  shows "pm_kept t (on_step pid ev t)"
proof -
  have ok: "bt_ok t" using t by (simp add: pm_ok_def)
  show ?thesis
  proof (cases "bt_get t pid")
    case None
    with t show ?thesis by (simp add: on_step_with [OF ok] pm_kept_same)
  next
    case (Some p)
    obtain p' rs given where step: "vm_step ev p = (p', rs, given)" by (metis prod_cases3)
    have k: "vmas_ok (vm_vmas p')"
      "mset (backings (vm_vmas p')) + mset (released rs) = mset (backings (vm_vmas p)) + mset (retained rs) + mset given"
      using vm_step_kept [OF pm_ok_get [OF t Some] ev] step by (simp_all add: kept_def)
    have "pm_backings (bt_insert pid p' t) + mset (released rs) + mset (backings (vm_vmas p))
        = pm_backings t + mset (retained rs) + mset given + mset (backings (vm_vmas p))"
      using pm_backings_replace [OF ok Some, of p'] k(2) by (simp add: ac_simps)
    then have "pm_backings (bt_insert pid p' t) + mset (released rs) = pm_backings t + mset (retained rs) + mset given"
      by simp
    with pm_ok_insert [OF t k(1)] show ?thesis
      by (simp add: on_step_with [OF ok] Some step pm_kept_def)
  qed
qed

lemma fork_child_ok: "vmas_ok vs \<Longrightarrow> vmas_ok (fork_child_vmas vs)"
proof (induction vs)
  case (Cons v vs)
  then show ?case by (auto simp: fork_child_vmas_def)
qed (simp add: fork_child_vmas_def)

lemma pm_step_kept:
  assumes t: "pm_ok t" and ev: "pm_event_ok ev t"
  shows "pm_kept t (pm_step ev t)"
proof (cases ev)
  case (Create pid pml4)
  have ok: "bt_ok t" using t by (simp add: pm_ok_def)
  have "bt_remove pid t = t" using ev Create ok by (simp add: bt_remove_absent)
  with Create ok pm_ok_insert [OF t, of "vm_new\<lparr>vm_pml4 := pml4\<rparr>" pid] show ?thesis
    by (simp add: pm_create_def vm_new_def pm_kept_def pm_backings_def bt_values_insert)
next
  case (On pid x)
  with on_step_kept [OF t, of x pid] ev show ?thesis by simp
next
  case (Fork admitted parent child pml4)
  show ?thesis
  proof (cases "bt_get t parent")
    case None
    with Fork t show ?thesis by (simp add: pm_fork_def pm_kept_same)
  next
    case (Some p)
    have ok: "bt_ok t" using t by (simp add: pm_ok_def)
    have "bt_remove child t = t" using ev Fork ok by (simp add: bt_remove_absent)
    with Some Fork ok t fork_child_ok [OF pm_ok_get [OF t Some]] pm_ok_insert [OF t] show ?thesis
      by (simp add: pm_fork_def Let_def pm_kept_def pm_backings_def bt_values_insert)
  qed
next
  case (Exit pid)
  show ?thesis
  proof (cases "bt_get t pid")
    case None
    with Exit t show ?thesis by (simp add: pm_exit_def pm_kept_same)
  next
    case (Some p)
    have ok: "bt_ok t" using t by (simp add: pm_ok_def)
    have "set (bt_values (bt_remove pid t)) \<subseteq> set (bt_values t)"
      by (auto simp: bt_values_def bt_remove_def)
    with t have "pm_ok (bt_remove pid t)" by (auto simp: pm_ok_def)
    with Some Exit bt_values_remove [OF ok Some] show ?thesis
      by (simp add: pm_exit_def pm_kept_def pm_backings_def)
  qed
qed

section \<open>Runs\<close>

abbreviation pm_next :: "pm_event \<Rightarrow> vm_table \<Rightarrow> vm_table" where
  "pm_next ev t \<equiv> fst (pm_step ev t)"

lemma pm_next_ok: "pm_ok t \<Longrightarrow> pm_event_ok ev t \<Longrightarrow> pm_ok (pm_next ev t)"
  using pm_step_kept [of t ev] by (auto simp: pm_kept_def split: prod.splits)

text \<open>References taken, by the operation itself or by the caller that hands one over, and given back.\<close>

definition refs_in :: "pm_event \<Rightarrow> vm_table \<Rightarrow> backing list" where
  "refs_in ev t = retained (fst (snd (pm_step ev t))) @ snd (snd (pm_step ev t))"

definition refs_out :: "pm_event \<Rightarrow> vm_table \<Rightarrow> backing list" where
  "refs_out ev t = released (fst (snd (pm_step ev t)))"

interpretation pmm: ledger_machine pm_next pm_event_ok pm_ok pm_backings refs_in refs_out
proof
  fix ev t assume t: "pm_ok t" "pm_event_ok ev t"
  show "pm_ok (pm_next ev t)" by (rule pm_next_ok [OF t])
  show "pm_backings t + mset (refs_in ev t) = mset (refs_out ev t) + pm_backings (pm_next ev t)"
    using pm_step_kept [OF t] by (auto simp: pm_kept_def refs_in_def refs_out_def ac_simps split: prod.splits)
qed

lemma pm_ok_Nil [simp]: "pm_ok []"
  by (simp add: pm_ok_def bt_ok_def bt_values_def)

text \<open>
  C18: a process's list of areas is always well formed. Starting with no process, after any run of
  mappings, unmappings, splits, merges, reservations, device claims, forks, execs and exits, every
  process's areas are non-empty, sorted by address and pairwise disjoint, which the binary searches
  of the fault handler and the gap search rely on.
\<close>

theorem areas_stay_disjoint:
  assumes "run_ok pm_event_ok pm_next es []" and "bt_get (fold pm_next es []) pid = Some p"
  shows "vmas_ok (vm_vmas p)"
  using pm_ok_get [OF pmm.inv_run [OF pm_ok_Nil assms(1)] assms(2)] .

theorem areas_stay_disjoint_witness:
  "vmas_ok [plain_vma 4096 8192, plain_vma 12288 16384]"
proof -
  let ?es = "[Create 1 0, On 1 (EvPage (EvAdd (plain_vma 4096 16384))), On 1 (EvPage (EvUnmap 8192 12288))]"
  have "bt_get (fold pm_next ?es []) 1
      = Some \<lparr>vm_vmas = [plain_vma 4096 8192, plain_vma 12288 16384], vm_future = None, vm_pml4 = 0\<rparr>"
    by (simp add: pm_create_def pm_add_vma_def with_proc_def vm_new_def bt_get_def vm_add_vma_def
      vma_check_def is_hw_page_aligned_def HW_PAGE_SIZE_def plain_vma_def insert_vma_def insert_pos_def
      insert_at_def binary_search_start_def future_lock_flags_def pm_remove_range_def vm_remove_range_def
      edit_vmas_def cut_piece_def apart_def vma_pieces_def vma_subrange_def)
  with areas_stay_disjoint [of ?es 1] show ?thesis by simp
qed

text \<open>Process 1 with one file mapping of three pages, handle 7.\<close>

definition file_vma :: vma where
  "file_vma = \<lparr>va_start = 4096, va_end = 16384, va_kind = FileBacked 7 0 None False False,
     va_flags = PF_WRITABLE, va_fork = COPY\<rparr>"

definition table_example :: vm_table where
  "table_example = [(1, \<lparr>vm_vmas = [file_vma], vm_future = None, vm_pml4 = 0\<rparr>)]"

lemma table_example_ok: "pm_ok table_example"
  by (simp add: pm_ok_def table_example_def bt_ok_def bt_values_def file_vma_def)

lemma table_example_get: "bt_get table_example 1 = Some \<lparr>vm_vmas = [file_vma], vm_future = None, vm_pml4 = 0\<rparr>"
  by (simp add: table_example_def bt_get_def)

text \<open>
  C10: The references that file mappings hold on their files balance. Over any run of the operations
  on any processes, what was held at the start, was to be taken on the way, by a split or a fork, or was
  handed over with a new mapping, is what was to be given back, by an unmapping, an exec or an exit, and
  what the processes' areas hold at the end: no reference leaks and none is given back twice, as long
  as each taking succeeds, as the code's comments say it must.
\<close>

theorem file_references_balance:
  assumes "pm_ok t" and "run_ok pm_event_ok pm_next es t"
  shows "pm_backings t + mset (gather refs_in pm_next es t)
    = mset (gather refs_out pm_next es t) + pm_backings (fold pm_next es t)"
  by (rule pmm.ledger_run [OF assms])

definition run_example :: "pm_event list" where
  "run_example = [Fork True 1 2 0, On 2 (EvPage (EvUnmap 8192 12288)), Exit 1]"

lemma run_example_ok: "run_ok pm_event_ok pm_next run_example table_example"
  by (simp add: run_example_def table_example_def bt_get_def)

theorem file_references_balance_witness:
  "pm_backings table_example + mset (gather refs_in pm_next run_example table_example)
    = mset (gather refs_out pm_next run_example table_example) + pm_backings (fold pm_next run_example table_example)"
  by (rule file_references_balance [OF table_example_ok run_example_ok])

end
