(* ===== verification/MemoryPromises.thy ===== *)
theory MemoryPromises imports MemoryTable begin

text \<open>
  Promises of the memory operations: the order of a call's reference steps, that a forked child sees
  its parent's pages, that a device region given back leaves the reservation as it was; and the
  coverage walk.
\<close>

section \<open>The order of the references\<close>

lemma split_refs_in_order [simp]: "in_order (split_refs f vs)"
  using split_refs_retains [of f vs] by auto

lemma cut_refs_in_order [simp]: "in_order (cut_refs s e vs)"
  by (auto simp: cut_refs_def Let_def)

lemma page_step_in_order:
  "in_order (fst (snd (page_step ev p))) \<and> (fst (snd (page_step ev p)) = [] \<or> snd (snd (page_step ev p)) = [])"
  by (cases ev)
    (auto simp: vm_remove_range_def vm_protect_def vm_lock_range_def vm_set_fork_policy_def
      vm_reset_for_exec_def Let_def split: prod.splits)

lemma vm_step_in_order:
  "in_order (fst (snd (vm_step ev p))) \<and> (fst (snd (vm_step ev p)) = [] \<or> snd (snd (vm_step ev p)) = [])"
proof (cases ev)
  case (EvPage x)
  then show ?thesis using page_step_in_order by simp
next
  case (EvRemove start)
  then show ?thesis
    by (cases "take_vma start (vm_vmas p)") (auto simp: vm_remove_vma_def split: option.splits)
qed (auto split: option.splits prod.splits)

lemma pm_step_in_order:
  assumes "pm_ok t"
  shows "in_order (fst (snd (pm_step ev t))) \<and> (fst (snd (pm_step ev t)) = [] \<or> snd (snd (pm_step ev t)) = [])"
proof (cases ev)
  case (On pid x)
  have "bt_ok t" using assms by (simp add: pm_ok_def)
  note lifted = on_step_with [OF this, of pid x]
  show ?thesis
  proof (cases "bt_get t pid")
    case (Some p)
    with vm_step_in_order [of x p] show ?thesis by (auto simp: On lifted split: prod.splits)
  qed (simp add: On lifted)
qed (auto simp: pm_fork_def pm_exit_def Let_def split: option.splits)

lemma append_split_maps:
  assumes "map Retain as @ map Release bs = xs @ ys"
  shows "released xs = [] \<or> retained xs = as"
proof (cases "length xs \<le> length as")
  case True
  then have "xs = map Retain (take (length xs) as)"
    using arg_cong [OF assms, of "take (length xs)"] by (simp add: take_map)
  then show ?thesis by (metis retained_maps(3))
next
  case False
  then have "xs = map Retain as @ map Release (take (length xs - length as) bs)"
    using arg_cong [OF assms, of "take (length xs)"] by (simp add: take_map)
  then have "retained xs = as" by (metis append_Nil2 retained_append retained_maps(1,2))
  then show ?thesis ..
qed

text \<open>
  A call that runs alone closes no file under a mapping that survives it. A reference on a file is
  taken for each new piece before any is given back, so at every moment of the call's reference
  steps, if some area held the file before it and some area holds it after, the references taken so
  far exceed those given back. With other calls in between, the file can close (\<open>MemoryRaces\<close>).
\<close>

theorem no_early_close:
  assumes "pm_ok t" and "pm_event_ok ev t" and "pm_step ev t = (t', xs @ ys, given)"
    and "b \<in># pm_backings t" and "b \<in># pm_backings t'"
  shows "count (mset (released xs)) b < count (pm_backings t) b + count (mset (retained xs)) b"
proof -
  let ?c = "\<lambda>zs. count (mset zs) b"
  have bal: "pm_backings t' + mset (released (xs @ ys)) = pm_backings t + mset (retained (xs @ ys)) + mset given"
    using pm_step_kept [OF assms(1,2)] assms(3) by (simp add: pm_kept_def)
  from pm_step_in_order [OF assms(1), of ev] assms(3) obtain as bs where
    rs: "xs @ ys = map Retain as @ map Release bs" and g: "xs @ ys = [] \<or> given = []"
    by (auto simp: in_order_def)
  have pos: "0 < count (pm_backings t) b" "0 < count (pm_backings t') b" using assms(4,5) by simp_all
  from append_split_maps [OF rs [symmetric]] show ?thesis
  proof
    assume "released xs = []"
    then show ?thesis using pos by simp
  next
    assume ret: "retained xs = as"
    have "retained (xs @ ys) = as" unfolding rs by simp
    with ret have "retained ys = []" by simp
    show ?thesis
    proof (cases "xs = []")
      case True
      then show ?thesis using pos by simp
    next
      case False
      with g have "given = []" by simp
      with arg_cong [OF bal, of "\<lambda>m. count m b"] \<open>retained ys = []\<close>
      have "count (pm_backings t') b + (?c (released xs) + ?c (released ys)) = count (pm_backings t) b + ?c (retained xs)"
        by simp
      with pos show ?thesis by linarith
    qed
  qed
qed

lemma file_vma_backing: "backing_of file_vma = Some \<lparr>bg_handle = 7, bg_shared = None, bg_may_write = False\<rparr>"
  by (simp add: file_vma_def backing_of_def)

theorem no_early_close_witness:
  "count (mset (released [Retain \<lparr>bg_handle = 7, bg_shared = None, bg_may_write = False\<rparr>]))
      \<lparr>bg_handle = 7, bg_shared = None, bg_may_write = False\<rparr>
   < count (pm_backings table_example) \<lparr>bg_handle = 7, bg_shared = None, bg_may_write = False\<rparr>
     + count (mset (retained [Retain \<lparr>bg_handle = 7, bg_shared = None, bg_may_write = False\<rparr>]))
      \<lparr>bg_handle = 7, bg_shared = None, bg_may_write = False\<rparr>"
proof -
  let ?b = "\<lparr>bg_handle = 7, bg_shared = None, bg_may_write = False\<rparr>"
  let ?t = "[(1, \<lparr>vm_vmas = [vma_subrange file_vma 8192 16384 PF_WRITABLE], vm_future = None, vm_pml4 = 0\<rparr>)]"
  have step: "pm_step (On 1 (EvPage (EvUnmap 4096 8192))) table_example = (?t, [Retain ?b] @ [Release ?b], [])"
    by (simp add: table_example_def pm_remove_range_def with_proc_def bt_get_def vm_remove_range_def
      edit_vmas_def cut_piece_def apart_def vma_pieces_def cut_refs_def file_vma_backing Let_def)
      (simp add: file_vma_def)
  have held: "?b \<in># pm_backings table_example" "?b \<in># pm_backings ?t"
    by (simp_all add: pm_backings_def table_example_def bt_values_def file_vma_backing)
  show ?thesis
    by (rule no_early_close [OF table_example_ok _ step held]) simp
qed

section \<open>Fork\<close>

fun fork_page :: "page option \<Rightarrow> page option" where
  "fork_page None = None"
| "fork_page (Some (k, f, pol)) = (if fp_dont_copy pol then None else Some (k, f AND NOT PF_MLOCKED, pol))"

lemma fork_child_view:
  assumes ok: "vmas_ok vs"
  shows "vm_view (fork_child_vmas vs) a = fork_page (vm_view vs a)"
proof -
  let ?f = "\<lambda>v. if fp_dont_copy (va_fork v) then [] else [v\<lparr>va_flags := va_flags v AND NOT PF_MLOCKED\<rparr>]"
  have "fork_child_vmas vs = concat (map ?f vs)"
    by (induction vs) (simp_all add: fork_child_vmas_def)
  moreover have "within v (?f v)" if "v \<in> set vs" for v
    using vmas_ok_pos [OF ok that] by (simp add: within_def)
  ultimately have "vma_at a (fork_child_vmas vs) = Option.bind (vma_at a vs) (\<lambda>v. vma_at a (?f v))"
    using concat_pieces_at [OF ok] by simp
  moreover have "vma_contains a v" if "vma_at a vs = Some v" for v
    using that by (simp add: vma_at_Some [OF ok])
  ultimately show ?thesis
    by (cases "vma_at a vs") (auto simp: vm_view_def page_of_def)
qed

text \<open>
  C28: A forked child has, address by address, the pages its parent has: the same places in the same
  files with the same protection and fork policy, except that nothing is locked and that the areas
  the parent marked \<^verbatim>\<open>MADV_DONTFORK\<close> are not there at all. A fork the process limit refuses changes
  nothing.
\<close>

theorem fork_child_pages:
  assumes "pm_ok t" and "bt_get t parent = Some p" and "pm_fork admitted parent child pml4 t = (t', r, rs)"
  shows "(admitted \<longrightarrow> r = Ok () \<and> (\<exists>c. bt_get t' child = Some c \<and> vm_pml4 c = pml4 \<and> vm_future c = None
    \<and> (\<forall>a. vm_view (vm_vmas c) a = fork_page (vm_view (vm_vmas p) a))))
    \<and> (\<not> admitted \<longrightarrow> r = Err WouldBlock \<and> t' = t \<and> rs = [])"
proof -
  have "bt_ok t" using assms(1) by (simp add: pm_ok_def)
  with assms(2,3) fork_child_view [OF pm_ok_get [OF assms(1,2)]] show ?thesis
    by (auto simp: pm_fork_def Let_def split: if_splits)
qed

theorem fork_child_pages_witness:
  "\<exists>c. bt_get (fst (pm_fork True 1 2 0 table_example)) 2 = Some c
    \<and> (\<forall>a. vm_view (vm_vmas c) a = fork_page (vm_view [file_vma] a))"
proof -
  obtain t' r rs where "pm_fork True 1 2 0 table_example = (t', r, rs)" by (metis prod_cases3)
  from fork_child_pages [OF table_example_ok table_example_get this] this show ?thesis by auto
qed

section \<open>Claiming and returning\<close>

lemma binary_search_finds:
  assumes ok: "vmas_ok vs" and w: "w \<in> set vs"
  obtains i where "binary_search_start (va_start w) vs = Inr i" and "vs ! i = w"
  using ok
proof (cases rule: binary_search_start_cases [where x = "va_start w"])
  case (hit i)
  from w obtain j where j: "j < length vs" "vs ! j = w" by (auto simp: in_set_conv_nth)
  have "i = j"
  proof (rule ccontr)
    assume "i \<noteq> j"
    then consider "i < j" | "j < i" by linarith
    then show False
    proof cases
      case 1
      from vmas_ok_nth [OF ok this j(1)] vmas_ok_pos [OF ok, of "vs ! i"] hit j show False by simp
    next
      case 2
      from vmas_ok_nth [OF ok this hit(2)] vmas_ok_pos [OF ok w] hit j show False by simp
    qed
  qed
  with that hit j show ?thesis by simp
next
  case (miss p)
  from w obtain j where "j < length vs" "vs ! j = w" by (auto simp: in_set_conv_nth)
  with miss(3) [of j] miss(4) [of j] show ?thesis by (cases "j < p") auto
qed

lemma claim_return:
  assumes ok: "vmas_ok (vm_vmas p)" and se: "s < e" and foreign: "flags_contains flags PF_FOREIGN"
    and claim: "vm_claim s e flags p = (p', Ok r)"
  obtains q where "vm_return (vm_pml4 p) s e r p' = (q, True)" and "vm_view (vm_vmas q) = vm_view (vm_vmas p)"
proof -
  from claim_spec [OF claim] obtain xs v ys where
    c: "vm_vmas p = xs @ v # ys" "va_start v \<le> s" "e \<le> va_end v" "va_kind v = Anonymous"
      "r = \<lparr>rs_flags = va_flags v, rs_fork = va_fork v\<rparr>" "p' = p\<lparr>vm_vmas := xs @ claim_pieces s e flags v @ ys\<rparr>" .
  let ?d = "\<lparr>va_start = s, va_end = e, va_kind = Fixed, va_flags = flags, va_fork = COPY\<lparr>fp_dont_copy := True\<rparr>\<rparr>"
  note win = claim_within [OF c(2,3) se, of flags]
  note okp = ok [unfolded c(1)]
  have ok': "vmas_ok (vm_vmas p')" using pieces_replace(1) [OF okp win] c(6) by simp
  have "?d \<in> set (vm_vmas p')" using c(6) by (simp add: claim_pieces_def vma_pieces_def)
  from binary_search_finds [OF ok' this] obtain i where
    i: "binary_search_start s (vm_vmas p') = Inr i" "vm_vmas p' ! i = ?d" by auto
  have "device_region e (vm_vmas p' ! i)" using i foreign by (simp add: device_region_def)
  moreover obtain e' zs where "join_after e r i (vm_vmas p') = (e', zs)" by (metis surj_pair)
  moreover have "vm_pml4 p' = vm_pml4 p" using c(6) by simp
  ultimately obtain q where q: "vm_return (vm_pml4 p) s e r p' = (q, True)"
    using i(1) by (simp add: vm_return_def)
  have "vm_view (vm_vmas q) a = vm_view (vm_vmas p) a" for a
  proof (cases "vma_contains a v")
    case True
    then have "vma_at a (vm_vmas p) = Some v" using c(1) by (simp add: vma_at_Some [OF okp])
    then have p: "vm_view (vm_vmas p) a = Some (page_of a v)" by (simp add: vm_view_def)
    have pg: "page_of a v = (Anonymous, rs_flags r, rs_fork r)" using c(4,5) by (simp add: page_of_def place_at_def)
    have "vm_view (vm_vmas p') a = Some (page_of a v)" if "\<not> (s \<le> a \<and> a < e)"
      using pieces_replace(2) [OF okp win, of a] True that c
        vma_pieces_view [OF se _ True, of "[?d]"] se
      by (auto simp: claim_pieces_def apart_def)
    with return_spec(3) [OF ok' q, of a] p pg show ?thesis by auto
  next
    case False
    then have "\<not> (s \<le> a \<and> a < e)" using c(2,3) by (auto simp: vma_contains_def)
    with return_spec(3) [OF ok' q, of a] pieces_replace(2) [OF okp win, of a] False c(1,6) show ?thesis by simp
  qed
  with that [OF q] show ?thesis by blast
qed

text \<open>
  C26: claiming part of a reservation for a device and giving it back is the identity on the pages.
  After a successful claim, the return finds the device region, succeeds, and every page of the
  process, inside and outside the region, is what it was before the claim, however the reservation
  had been split around it.
\<close>

theorem claim_return_roundtrip:
  assumes "pm_ok t" and "bt_get t pid = Some p" and "flags_contains flags PF_FOREIGN"
    and "pm_claim pid s e flags t = (t', Ok r)"
  shows "\<exists>t'' q. pm_return pid (vm_pml4 p) s e r t' = (t'', True) \<and> bt_get t'' pid = Some q
    \<and> vm_view (vm_vmas q) = vm_view (vm_vmas p)"
proof -
  have ok: "bt_ok t" using assms(1) by (simp add: pm_ok_def)
  from assms(2,4) obtain p' where c: "s < e" "vm_claim s e flags p = (p', Ok r)" "t' = bt_insert pid p' t"
    by (auto simp: pm_claim_def with_proc_def split: if_splits prod.splits)
  from claim_return [OF pm_ok_get [OF assms(1,2)] c(1) assms(3) c(2)] obtain q where
    "vm_return (vm_pml4 p) s e r p' = (q, True)" "vm_view (vm_vmas q) = vm_view (vm_vmas p)" .
  with ok c(3) show ?thesis by (simp add: pm_return_def with_proc_def)
qed

definition claim_example :: vm_table where
  "claim_example = [(1, \<lparr>vm_vmas = [plain_vma 16384 81920], vm_future = None, vm_pml4 = 0\<rparr>)]"

theorem claim_return_roundtrip_witness:
  "\<exists>t' r. pm_claim 1 32768 49152 PF_FOREIGN claim_example = (t', Ok r) \<and>
     (\<exists>t'' q. pm_return 1 0 32768 49152 r t' = (t'', True) \<and> bt_get t'' 1 = Some q
        \<and> vm_view (vm_vmas q) = vm_view [plain_vma 16384 81920])"
proof -
  have ok: "pm_ok claim_example"
    by (simp add: pm_ok_def claim_example_def bt_ok_def bt_values_def plain_vma_def)
  have get: "bt_get claim_example 1 = Some \<lparr>vm_vmas = [plain_vma 16384 81920], vm_future = None, vm_pml4 = 0\<rparr>"
    by (simp add: claim_example_def bt_get_def)
  have "flags_contains PF_WRITABLE PF_WRITABLE" "\<not> flags_contains PF_WRITABLE PF_SHARED" "flags_contains PF_FOREIGN PF_FOREIGN"
    by (simp_all add: flags_contains_def PF_WRITABLE_def PF_SHARED_def)
  then obtain t' r where c: "pm_claim 1 32768 49152 PF_FOREIGN claim_example = (t', Ok r)"
    by (auto simp: pm_claim_def FRAME_SIZE_def with_proc_def get [simplified] vm_claim_def plain_vma_def Let_def)
  have f: "flags_contains PF_FOREIGN PF_FOREIGN" by (simp add: flags_contains_def)
  from claim_return_roundtrip [OF ok get f c] c show ?thesis by auto
qed

section \<open>Coverage\<close>

definition in_gaps :: "(nat \<times> nat) list \<Rightarrow> nat \<Rightarrow> bool" where
  "in_gaps gs a \<longleftrightarrow> (\<exists>g \<in> set gs. fst g \<le> a \<and> a < snd g)"

lemma in_gaps_append [simp]: "in_gaps (gs @ [(lo, hi)]) a \<longleftrightarrow> in_gaps gs a \<or> (lo \<le> a \<and> a < hi)"
  by (auto simp: in_gaps_def)

definition gaps_close :: "nat \<Rightarrow> (nat \<times> nat) list \<times> nat \<Rightarrow> (nat \<times> nat) list" where
  "gaps_close e r = (case r of (gs, c) \<Rightarrow> if c < e then gs @ [(c, e)] else gs)"

lemma gaps_loop_exact:
  "vmas_ok vs \<Longrightarrow> c < e \<Longrightarrow>
     in_gaps (gaps_close e (gaps_loop e vs c gs)) a
       \<longleftrightarrow> in_gaps gs a \<or> (c \<le> a \<and> a < e \<and> (\<forall>v \<in> set vs. \<not> vma_contains a v))"
proof (induction vs arbitrary: c gs)
  case Nil
  then show ?case by (simp add: gaps_close_def)
next
  case (Cons v vs)
  have v: "va_start v < va_end v" "\<And>w. w \<in> set vs \<Longrightarrow> va_end v \<le> va_start w" "vmas_ok vs"
    using Cons.prems(1) by auto
  have later: "\<not> vma_contains a w" if "a < va_end v" "w \<in> set vs" for w
    using that v(2) [OF that(2)] by (simp add: vma_contains_def)
  consider (behind) "va_end v \<le> c" | (past) "c < va_end v" "e \<le> va_start v"
    | (last) "c < va_end v" "va_start v < e" "e \<le> va_end v"
    | (inner) "c < va_end v" "va_start v < e" "va_end v < e" by linarith
  then show ?case
  proof cases
    case behind
    with Cons.IH [OF v(3) Cons.prems(2), of gs] show ?thesis by (auto simp: vma_contains_def)
  next
    case past
    with Cons.prems(2) later v(1) show ?thesis by (auto simp: gaps_close_def vma_contains_def)
  next
    case last
    with later show ?thesis by (auto simp: gaps_close_def vma_contains_def)
  next
    case inner
    let ?gs = "if c < va_start v then gs @ [(c, va_start v)] else gs"
    have "gaps_loop e (v # vs) c gs = gaps_loop e vs (va_end v) ?gs" using inner by simp
    moreover have "in_gaps ?gs a \<longleftrightarrow> in_gaps gs a \<or> (c \<le> a \<and> a < va_start v)" by auto
    moreover have "\<forall>w \<in> set vs. \<not> vma_contains a w" if "a < va_start v" using later that v(1) by auto
    ultimately show ?thesis
      using Cons.IH [OF v(3) inner(3), of ?gs] inner v(1) by (auto simp: vma_contains_def)
  qed
qed

text \<open>
  the coverage walk that \<^verbatim>\<open>mprotect\<close> and \<^verbatim>\<open>munmap\<close> answer \<^verbatim>\<open>ENOMEM\<close> from is exact: the gaps it lists are
  together precisely the addresses of the range that no area of the process covers.
\<close>

theorem coverage_gaps_exact:
  assumes "pm_ok t" and "bt_get t pid = Some p"
  shows "\<exists>gs. pm_coverage_gaps pid s e t = Some gs
    \<and> (\<forall>a. in_gaps gs a \<longleftrightarrow> s \<le> a \<and> a < e \<and> vm_view (vm_vmas p) a = None)"
proof (cases "s < e")
  case True
  note exact = gaps_loop_exact [OF pm_ok_get [OF assms] True, of "[]"]
  have "pm_coverage_gaps pid s e t = Some (gaps_close e (gaps_loop e (vm_vmas p) s []))"
    using True assms(2) by (simp add: pm_coverage_gaps_def gaps_close_def split: prod.splits)
  with exact show ?thesis by (simp add: vm_view_None in_gaps_def)
next
  case False
  then show ?thesis by (auto simp: pm_coverage_gaps_def in_gaps_def)
qed

theorem coverage_gaps_exact_witness:
  "\<forall>a. in_gaps [(0, 4096), (16384, 20480)] a \<longleftrightarrow> 0 \<le> a \<and> a < 20480 \<and> vm_view [file_vma] a = None"
proof -
  have "pm_coverage_gaps 1 0 20480 table_example = Some [(0, 4096), (16384, 20480)]"
    by (simp add: pm_coverage_gaps_def table_example_get [simplified]) (simp add: file_vma_def)
  with coverage_gaps_exact [OF table_example_ok table_example_get, of 0 20480] show ?thesis by simp
qed

end
