(* ===== verification/MemoryRaces.thy ===== *)
theory MemoryRaces imports MemoryTable begin

text \<open>
  File mappings with every step on its own: the critical section of a memory call under the process
  table's lock, and each of the reference steps it performs after dropping that lock, each under the
  open-file table's lock (\<^verbatim>\<open>Backing::retain\<close> and \<^verbatim>\<open>Backing::release\<close> of \<^verbatim>\<open>kernel/src/proc/pcb.rs\<close>, over
  \<^verbatim>\<open>dup_shared\<close> and \<^verbatim>\<open>close\<close> of \<^verbatim>\<open>kernel/src/fs/handle.rs\<close>). Nothing keeps a call's steps together, so a
  file can close under a mapping. The page cache's count of shared mappings is not modelled.
\<close>

section \<open>Open files\<close>

text \<open>The open-file table, as the reference counts of the descriptions in it.\<close>

type_synonym open_files = "(nat, nat) btree"

definition dup_shared :: "nat \<Rightarrow> open_files \<Rightarrow> open_files \<times> nat kernel_result" where
  "dup_shared h fs =
     (case bt_get fs h of
        None \<Rightarrow> (fs, Err InvalidHandle)
      | Some n \<Rightarrow> if n = u32_max then (fs, Err InvalidHandle) else (bt_insert h (n + 1) fs, Ok h))"

definition handle_close :: "nat \<Rightarrow> open_files \<Rightarrow> open_files \<times> unit kernel_result" where
  "handle_close h fs =
     (case bt_get fs h of
        None \<Rightarrow> (fs, Err InvalidHandle)
      | Some n \<Rightarrow> if 0 < n - 1 then (bt_insert h (n - 1) fs, Ok ()) else (bt_remove h fs, Ok ()))"

text \<open>Both results are dropped by the callers.\<close>

definition backing_retain :: "backing \<Rightarrow> open_files \<Rightarrow> open_files" where
  "backing_retain b fs = fst (dup_shared (bg_handle b) fs)"

definition backing_release :: "backing \<Rightarrow> open_files \<Rightarrow> open_files" where
  "backing_release b fs = fst (handle_close (bg_handle b) fs)"

fun ref_apply :: "ref_step \<Rightarrow> open_files \<Rightarrow> open_files" where
  "ref_apply (Retain b) fs = backing_retain b fs"
| "ref_apply (Release b) fs = backing_release b fs"

section \<open>Interleaved calls\<close>

text \<open>
  The calls that have dropped the process table's lock, each with the reference steps it has left, in
  the order the calls took the lock. The reference a new mapping is handed is taken before its call,
  by whoever holds the file: a holder is a descriptor, say.
\<close>

record shared_memory =
  sm_table :: vm_table
  sm_files :: open_files
  sm_calls :: "ref_step list list"

datatype sm_event = Locked pm_event | Unlocked nat | HolderDup nat | HolderClose nat

fun sm_step :: "sm_event \<Rightarrow> shared_memory \<Rightarrow> shared_memory" where
  "sm_step (Locked ev) m =
     (case pm_step ev (sm_table m) of
        (t, rs, given) \<Rightarrow> m\<lparr>sm_table := t, sm_calls := sm_calls m @ [rs]\<rparr>)"
| "sm_step (Unlocked i) m =
     (if i < length (sm_calls m)
      then case sm_calls m ! i of
          [] \<Rightarrow> m
        | r # rs \<Rightarrow> m\<lparr>sm_files := ref_apply r (sm_files m), sm_calls := (sm_calls m)[i := rs]\<rparr>
      else m)"
| "sm_step (HolderDup h) m = m\<lparr>sm_files := fst (dup_shared h (sm_files m))\<rparr>"
| "sm_step (HolderClose h) m = m\<lparr>sm_files := fst (handle_close h (sm_files m))\<rparr>"

section \<open>A file closed under its mapping\<close>

lemma apart_pieces: "\<forall>u \<in> set us. apart s e u \<Longrightarrow> concat (map (protect_piece w x a s e) us) = us"
  and apart_cuts: "\<forall>u \<in> set us. apart s e u \<Longrightarrow> concat (map (cut_piece s e) us) = us"
  and apart_refs: "\<forall>u \<in> set us. apart s e u \<Longrightarrow> split_refs (protect_piece w x a s e) us = []"
  and apart_hits: "\<forall>u \<in> set us. apart s e u \<Longrightarrow> filter (\<lambda>u. \<not> apart s e u) us = []"
  by (induction us) (auto simp: protect_piece_def cut_piece_def split_refs_def split: option.splits)

text \<open>Protecting the inside of one area of a list, and then unmapping what is left of it below.\<close>

lemma protect_inside:
  fixes x a :: bool
  assumes ok: "vmas_ok (xs @ v # ys)" and inside: "va_start v < s" "s < e" "e < va_end v" and b: "backing_of v = Some b"
  defines "low \<equiv> vma_subrange v (va_start v) s (va_flags v)"
    and "mid \<equiv> middle s e v (protect_flags False x a (va_flags v))"
    and "high \<equiv> vma_subrange v e (va_end v) (va_flags v)"
  shows "edit_vmas (protect_piece False x a s e) (xs @ v # ys) = xs @ [low, mid, high] @ ys"
    and "split_refs (protect_piece False x a s e) (xs @ v # ys) = [Retain b, Retain b]"
    and "edit_vmas (cut_piece (va_start v) s) (xs @ [low, mid, high] @ ys) = xs @ [mid, high] @ ys"
    and "cut_refs (va_start v) s (xs @ [low, mid, high] @ ys) = [Release b]"
proof -
  have far: "\<forall>u \<in> set xs. apart s e u" "\<forall>u \<in> set ys. apart s e u"
      "\<forall>u \<in> set xs. apart (va_start v) s u" "\<forall>u \<in> set ys. apart (va_start v) s u"
    using ok inside by (fastforce simp: vmas_ok_append apart_def)+
  have near: "\<not> apart s e v" using inside by (simp add: apart_def)
  have piece: "protect_piece False x a s e v = [low, mid, high]"
    using inside near by (simp add: protect_piece_def vma_pieces_def low_def mid_def high_def)
  have protected: "concat (map (protect_piece False x a s e) (xs @ v # ys)) = xs @ [low, mid, high] @ ys"
    using far by (simp add: apart_pieces piece)
  have ends: "va_start low = va_start v" "va_end low = s" "va_start mid = s" "va_end mid = e"
      "va_start high = e" "va_end high = va_end v"
    using inside by (simp_all add: low_def mid_def high_def middle_def vma_subrange_def)
  have ok': "vmas_ok (xs @ [low, mid, high] @ ys)"
    using ok inside ends by (auto simp: vmas_ok_append)
  then show edited: "edit_vmas (protect_piece False x a s e) (xs @ v # ys) = xs @ [low, mid, high] @ ys"
    by (simp only: edit_vmas_def protected vmas_ok_sort)
  have "split_refs f (us @ u # ws) = split_refs f us @ split_refs f [u] @ split_refs f ws" for f us u ws
    by (simp add: split_refs_def)
  moreover have "split_refs (protect_piece False x a s e) [v] = [Retain b, Retain b]"
    by (simp add: split_refs_def piece b numeral_eq_Suc)
  ultimately show "split_refs (protect_piece False x a s e) (xs @ v # ys) = [Retain b, Retain b]"
    using far by (simp add: apart_refs)
  have cuts: "cut_piece (va_start v) s low = []" "cut_piece (va_start v) s mid = [mid]"
      "cut_piece (va_start v) s high = [high]"
    using inside ends by (simp_all add: cut_piece_def apart_def vma_pieces_def)
  have "concat (map (cut_piece (va_start v) s) (xs @ [low, mid, high] @ ys)) = xs @ [mid, high] @ ys"
    using far by (simp add: apart_cuts cuts)
  moreover have "vmas_ok (xs @ [mid, high] @ ys)" using ok' by (auto simp: vmas_ok_append)
  ultimately show "edit_vmas (cut_piece (va_start v) s) (xs @ [low, mid, high] @ ys) = xs @ [mid, high] @ ys"
    by (simp only: edit_vmas_def vmas_ok_sort)
  have "filter (\<lambda>u. \<not> apart (va_start v) s u) (xs @ [low, mid, high] @ ys) = [low]"
    using far inside ends by (simp add: apart_hits) (simp add: apart_def)
  moreover have "vma_pieces (va_start v) s [] low = []" using ends by (simp add: vma_pieces_def)
  moreover have "backing_of low = Some b"
    using b by (auto simp: backing_of_def low_def vma_subrange_def split: vma_kind.splits)
  ultimately show "cut_refs (va_start v) s (xs @ [low, mid, high] @ ys) = [Release b]"
    by (simp add: cut_refs_def backings_def List.map_filter_def)
qed

text \<open>
  C20: A mapped file can be closed under its mapping. Let one of a process's areas map a file that
  nothing else holds open (its descriptor closed after the \<^verbatim>\<open>mmap\<close>, as is usual), and let no call have
  reference steps left. One thread's \<^verbatim>\<open>mprotect\<close> of a range inside the area, to read-only, splits the
  area in three and drops the process table's lock, with two references to take; before it takes
  them another thread unmaps the lowest piece, which gives the area's one reference back. Then the
  file is closed and its handle gone; both takings fail, and what they answer is dropped; and the
  process still has the two other pieces, mapping the closed handle.
\<close>

theorem file_closes_under_mapping:
  assumes tab: "bt_ok (sm_table m)" "bt_get (sm_table m) pid = Some p"
    and areas: "vm_vmas p = xs @ v # ys" "vmas_ok (vm_vmas p)"
    and held: "backing_of v = Some b" "bt_ok (sm_files m)" "bt_get (sm_files m) (bg_handle b) = Some 1"
    and idle: "sm_calls m = []"
    and inside: "va_start v < s" "s < e" "e < va_end v"
  shows "let m' = fold sm_step [Locked (On pid (EvPage (EvProtect s e False x a))),
        Locked (On pid (EvPage (EvUnmap (va_start v) s))), Unlocked 1, Unlocked 0, Unlocked 0] m
    in sm_calls m' = [[], []] \<and> bt_get (sm_files m') (bg_handle b) = None
      \<and> (\<exists>p' mid high. bt_get (sm_table m') pid = Some p' \<and> vm_vmas p' = xs @ [mid, high] @ ys
          \<and> va_start mid = s \<and> va_end mid = e \<and> backing_of mid = Some b
          \<and> va_start high = e \<and> va_end high = va_end v \<and> backing_of high = Some b)"
proof -
  let ?low = "vma_subrange v (va_start v) s (va_flags v)"
    and ?mid = "middle s e v (protect_flags False x a (va_flags v))"
    and ?high = "vma_subrange v e (va_end v) (va_flags v)"
  let ?p1 = "p\<lparr>vm_vmas := xs @ [?low, ?mid, ?high] @ ys\<rparr>" and ?p2 = "p\<lparr>vm_vmas := xs @ [?mid, ?high] @ ys\<rparr>"
  let ?t1 = "bt_insert pid ?p1 (sm_table m)"
  note cut = protect_inside [OF areas(2) [unfolded areas(1)] inside held(1), of x a]
  have protect: "pm_step (On pid (EvPage (EvProtect s e False x a))) (sm_table m) = (?t1, [Retain b, Retain b], [])"
    using tab inside areas(1) cut(1,2) by (simp add: pm_protect_def with_proc_def vm_protect_def)
  have t1: "bt_ok ?t1" "bt_get ?t1 pid = Some ?p1" using tab(1) by simp_all
  have unmap: "pm_step (On pid (EvPage (EvUnmap (va_start v) s))) ?t1 = (bt_insert pid ?p2 ?t1, [Release b], [])"
    using t1 inside cut(3,4) by (simp add: pm_remove_range_def with_proc_def vm_remove_range_def)
  have closed: "backing_release b (sm_files m) = bt_remove (bg_handle b) (sm_files m)"
    using held(3) by (simp add: backing_release_def handle_close_def)
  have missing: "backing_retain b (bt_remove (bg_handle b) (sm_files m)) = bt_remove (bg_handle b) (sm_files m)"
    using held(2) by (simp add: backing_retain_def dup_shared_def)
  have kinds: "backing_of ?mid = Some b" "backing_of ?high = Some b"
    using held(1) by (auto simp: backing_of_def middle_def vma_subrange_def split: vma_kind.splits)
  have ends: "va_start ?mid = s" "va_end ?mid = e" "va_start ?high = e" "va_end ?high = va_end v"
    using inside by (simp_all add: middle_def vma_subrange_def)
  let ?t2 = "bt_insert pid ?p2 ?t1" and ?fs = "bt_remove (bg_handle b) (sm_files m)"
  have "sm_step (Locked (On pid (EvPage (EvProtect s e False x a)))) m
      = m\<lparr>sm_table := ?t1, sm_calls := [[Retain b, Retain b]]\<rparr>"
    unfolding sm_step.simps protect by (simp add: idle)
  moreover have "sm_step (Locked (On pid (EvPage (EvUnmap (va_start v) s)))) (m\<lparr>sm_table := ?t1, sm_calls := [[Retain b, Retain b]]\<rparr>)
      = m\<lparr>sm_table := ?t2, sm_calls := [[Retain b, Retain b], [Release b]]\<rparr>"
    by (simp add: unmap del: append.simps pm_step.simps)
  moreover have "sm_step (Unlocked 1) (m\<lparr>sm_table := ?t2, sm_calls := [[Retain b, Retain b], [Release b]]\<rparr>)
      = m\<lparr>sm_table := ?t2, sm_files := ?fs, sm_calls := [[Retain b, Retain b], []]\<rparr>"
    by (simp add: closed)
  moreover have "sm_step (Unlocked 0) (m\<lparr>sm_table := ?t2, sm_files := ?fs, sm_calls := [Retain b # rs, []]\<rparr>)
      = m\<lparr>sm_table := ?t2, sm_files := ?fs, sm_calls := [rs, []]\<rparr>" for rs
    by (simp add: missing)
  ultimately have "fold sm_step [Locked (On pid (EvPage (EvProtect s e False x a))),
        Locked (On pid (EvPage (EvUnmap (va_start v) s))), Unlocked 1, Unlocked 0, Unlocked 0] m
      = m\<lparr>sm_table := ?t2, sm_files := ?fs, sm_calls := [[], []]\<rparr>"
    by (simp only: fold.simps comp_apply id_apply)
  moreover have "bt_get ?t2 pid = Some ?p2" using t1(1) by simp
  moreover have "bt_get ?fs (bg_handle b) = None" using held(2) by simp
  ultimately show ?thesis using kinds ends by (simp add: Let_def)
qed

text \<open>One process with one file mapping, handle 7, of which it is the only holder.\<close>

definition race_example :: shared_memory where
  "race_example = \<lparr>sm_table = table_example, sm_files = [(7, 1)], sm_calls = []\<rparr>"

theorem file_closes_under_mapping_witness:
  "let m' = fold sm_step [Locked (On 1 (EvPage (EvProtect 8192 12288 False False True))),
        Locked (On 1 (EvPage (EvUnmap 4096 8192))), Unlocked 1, Unlocked 0, Unlocked 0] race_example
    in bt_get (sm_files m') 7 = None \<and> (\<exists>p'. bt_get (sm_table m') 1 = Some p' \<and> length (vm_vmas p') = 2)"
proof -
  let ?b = "\<lparr>bg_handle = 7, bg_shared = None, bg_may_write = False\<rparr>"
  have "bt_ok (sm_table race_example)" "bt_get (sm_table race_example) 1 = Some \<lparr>vm_vmas = [file_vma], vm_future = None, vm_pml4 = 0\<rparr>"
    using table_example_ok table_example_get by (simp_all add: race_example_def pm_ok_def)
  moreover have "vm_vmas \<lparr>vm_vmas = [file_vma], vm_future = None, vm_pml4 = 0\<rparr> = [] @ file_vma # []"
    "vmas_ok (vm_vmas \<lparr>vm_vmas = [file_vma], vm_future = None, vm_pml4 = 0\<rparr>)" "backing_of file_vma = Some ?b"
    "bt_ok (sm_files race_example)" "bt_get (sm_files race_example) (bg_handle ?b) = Some 1" "sm_calls race_example = []"
    "va_start file_vma < 8192" "(8192 :: nat) < 12288" "12288 < va_end file_vma"
    by (simp_all add: file_vma_def backing_of_def race_example_def bt_ok_def bt_get_def)
  ultimately have closes: "let m' = fold sm_step [Locked (On 1 (EvPage (EvProtect 8192 12288 False False True))),
        Locked (On 1 (EvPage (EvUnmap (va_start file_vma) 8192))), Unlocked 1, Unlocked 0, Unlocked 0] race_example
    in sm_calls m' = [[], []] \<and> bt_get (sm_files m') (bg_handle ?b) = None
      \<and> (\<exists>p' mid high. bt_get (sm_table m') 1 = Some p' \<and> vm_vmas p' = [] @ [mid, high] @ []
          \<and> va_start mid = 8192 \<and> va_end mid = 12288 \<and> backing_of mid = Some ?b
          \<and> va_start high = 12288 \<and> va_end high = va_end file_vma \<and> backing_of high = Some ?b)"
    by (rule file_closes_under_mapping)
  have low: "va_start file_vma = 4096" by (simp add: file_vma_def)
  define m where "m = fold sm_step [Locked (On 1 (EvPage (EvProtect 8192 12288 False False True))),
        Locked (On 1 (EvPage (EvUnmap 4096 8192))), Unlocked 1, Unlocked 0, Unlocked 0] race_example"
  show ?thesis
    using closes unfolding Let_def low m_def [symmetric] by auto
qed

end
