(* ===== verification/FrameBuddy.thy ===== *)
theory FrameBuddy imports Prelude begin

text \<open>
  The physical frame allocator (\<^verbatim>\<open>kernel/src/mm/frame.rs\<close>): binary buddies, whose free lists are
  threaded through the free blocks themselves. Physical addresses are numbers; \<open>bd_nodes\<close> is the first
  words of the free blocks, read and written through the direct map. A call is one critical section
  under the allocator's lock. The pointers \<^verbatim>\<open>page_info\<close> and \<^verbatim>\<open>refcount\<close> are arrays of \<open>bd_total\<close>
  entries; an access beyond them, which the unsafe code must not make, is unspecified.
\<close>

section \<open>State\<close>

definition MAX_ORDER :: nat where "MAX_ORDER = 10"
definition DMA_ZONE_END :: nat where "DMA_ZONE_END = 0x1000000"
definition INFO_ALLOCATED :: u8 where "INFO_ALLOCATED = 0xFF"
definition LOW_MEMORY_RESERVE :: nat where "LOW_MEMORY_RESERVE = 0x100000"

definition in_dma_zone :: "nat \<Rightarrow> nat \<Rightarrow> bool" where
  "in_dma_zone addr order \<longleftrightarrow>
     order < 64 \<and> (case checked_add64 addr (FRAME_SIZE * 2 ^ order mod 2 ^ 64) of
       Some e \<Rightarrow> e \<le> DMA_ZONE_END | None \<Rightarrow> False)"

record free_node =
  fn_next :: nat
  fn_prev :: nat

record free_list =
  fl_head :: nat
  fl_tail :: nat
  fl_count :: nat

definition free_list_new :: free_list where
  "free_list_new = \<lparr>fl_head = 0, fl_tail = 0, fl_count = 0\<rparr>"

record buddy =
  bd_lists :: "free_list list"
  bd_nodes :: "nat \<Rightarrow> free_node"
  bd_info :: "u8 list"
  bd_ref :: "u16 list"
  bd_total :: nat
  bd_free :: nat

text \<open>The allocator with every frame unavailable, as \<^verbatim>\<open>init\<close> builds it.\<close>

definition empty_buddy :: "nat \<Rightarrow> buddy" where
  "empty_buddy total_frames =
     \<lparr>bd_lists = replicate (MAX_ORDER + 1) free_list_new, bd_nodes = (\<lambda>_. \<lparr>fn_next = 0, fn_prev = 0\<rparr>),
      bd_info = replicate total_frames INFO_ALLOCATED, bd_ref = replicate total_frames 0,
      bd_total = total_frames, bd_free = 0\<rparr>"

definition frame_index :: "nat \<Rightarrow> nat" where
  "frame_index addr = addr div FRAME_SIZE"

definition get_info :: "buddy \<Rightarrow> nat \<Rightarrow> u8" where
  "get_info b i = bd_info b ! i"

definition set_info :: "nat \<Rightarrow> u8 \<Rightarrow> buddy \<Rightarrow> buddy" where
  "set_info i v b = b\<lparr>bd_info := (bd_info b)[i := v]\<rparr>"

definition get_refcount :: "buddy \<Rightarrow> nat \<Rightarrow> u16" where
  "get_refcount b i = bd_ref b ! i"

definition set_refcount :: "nat \<Rightarrow> u16 \<Rightarrow> buddy \<Rightarrow> buddy" where
  "set_refcount i v b = b\<lparr>bd_ref := (bd_ref b)[i := v]\<rparr>"

definition get_list :: "buddy \<Rightarrow> nat \<Rightarrow> free_list" where
  "get_list b order = bd_lists b ! order"

definition put_list :: "nat \<Rightarrow> free_list \<Rightarrow> buddy \<Rightarrow> buddy" where
  "put_list order l b = b\<lparr>bd_lists := (bd_lists b)[order := l]\<rparr>"

definition put_node :: "nat \<Rightarrow> free_node \<Rightarrow> buddy \<Rightarrow> buddy" where
  "put_node a n b = b\<lparr>bd_nodes := (bd_nodes b)(a := n)\<rparr>"

definition set_next :: "nat \<Rightarrow> nat \<Rightarrow> buddy \<Rightarrow> buddy" where
  "set_next a x b = put_node a ((bd_nodes b a)\<lparr>fn_next := x\<rparr>) b"

definition set_prev :: "nat \<Rightarrow> nat \<Rightarrow> buddy \<Rightarrow> buddy" where
  "set_prev a x b = put_node a ((bd_nodes b a)\<lparr>fn_prev := x\<rparr>) b"

section \<open>Free lists\<close>

definition append_free :: "nat \<Rightarrow> nat \<Rightarrow> nat \<Rightarrow> buddy \<Rightarrow> buddy" where
  "append_free addr order old_tail b =
     (let b = put_node addr \<lparr>fn_next = 0, fn_prev = old_tail\<rparr> b;
          b = set_next old_tail addr b;
          l = get_list b order;
          b = put_list order (l\<lparr>fl_tail := addr, fl_count := sat_add64 (fl_count l) 1\<rparr>) b
      in set_info (frame_index addr) (of_nat order) b)"

definition push_free :: "nat \<Rightarrow> nat \<Rightarrow> buddy \<Rightarrow> buddy" where
  "push_free addr order b =
     (let old_tail = fl_tail (get_list b order)
      in if in_dma_zone addr order \<and> old_tail \<noteq> 0 then append_free addr order old_tail b
         else let old_head = fl_head (get_list b order);
                  b = put_node addr \<lparr>fn_next = old_head, fn_prev = 0\<rparr> b;
                  b = (if old_head \<noteq> 0 then set_prev old_head addr b else b);
                  l = (get_list b order)\<lparr>fl_head := addr\<rparr>;
                  l = (if old_head = 0 then l\<lparr>fl_tail := addr\<rparr> else l);
                  b = put_list order (l\<lparr>fl_count := sat_add64 (fl_count l) 1\<rparr>) b
              in set_info (frame_index addr) (of_nat order) b)"

definition remove_free :: "nat \<Rightarrow> nat \<Rightarrow> buddy \<Rightarrow> buddy" where
  "remove_free addr order b =
     (let nxt = fn_next (bd_nodes b addr);
          prv = fn_prev (bd_nodes b addr);
          b = (if prv \<noteq> 0 then set_next prv nxt b
               else put_list order ((get_list b order)\<lparr>fl_head := nxt\<rparr>) b);
          b = (if nxt \<noteq> 0 then set_prev nxt prv b
               else put_list order ((get_list b order)\<lparr>fl_tail := prv\<rparr>) b);
          l = get_list b order;
          b = put_list order (l\<lparr>fl_count := fl_count l - 1\<rparr>) b;
          b = put_node addr \<lparr>fn_next = 0, fn_prev = 0\<rparr> b
      in set_info (frame_index addr) INFO_ALLOCATED b)"

definition pop_free :: "nat \<Rightarrow> buddy \<Rightarrow> buddy \<times> nat option" where
  "pop_free order b =
     (let head = fl_head (get_list b order)
      in if head = 0 then (b, None) else (remove_free head order b, Some head))"

section \<open>Filling the lists\<close>

text \<open>The largest order that fits in what remains and is aligned at the address.\<close>

function grow_order :: "nat \<Rightarrow> nat \<Rightarrow> nat \<Rightarrow> nat" where
  "grow_order addr remaining order =
     (if order < MAX_ORDER
      then let next_size = FRAME_SIZE * 2 ^ (order + 1)
           in if remaining < next_size \<or> \<not> next_size dvd addr then order
              else grow_order addr remaining (order + 1)
      else order)"
  by pat_completeness auto
termination by (relation "measure (\<lambda>(a, r, k). MAX_ORDER - k)") auto

declare grow_order.simps [simp del]

function add_free_range :: "nat \<Rightarrow> nat \<Rightarrow> buddy \<Rightarrow> buddy" where
  "add_free_range addr e b =
     (if addr < e
      then let order = grow_order addr (e - addr) 0;
               b = push_free addr order b;
               b = b\<lparr>bd_free := sat_add64 (bd_free b) (2 ^ order)\<rparr>
           in add_free_range (addr + FRAME_SIZE * 2 ^ order) e b
      else b)"
  by pat_completeness auto
termination by (relation "measure (\<lambda>(a, e, b). e - a)") (auto simp: FRAME_SIZE_def intro: diff_less_mono2)

declare add_free_range.simps [simp del]

section \<open>Allocation\<close>

text \<open>A popped block split down to the order asked for, the upper halves back on their lists.\<close>

function split_down :: "nat \<Rightarrow> nat \<Rightarrow> nat \<Rightarrow> buddy \<Rightarrow> buddy" where
  "split_down addr order source b =
     (if order < source
      then split_down addr order (source - 1) (push_free (addr + FRAME_SIZE * 2 ^ (source - 1)) (source - 1) b)
      else b)"
  by pat_completeness auto
termination by (relation "measure (\<lambda>(a, k, s, b). s)") auto

declare split_down.simps [simp del]

text \<open>A loop over the frames of a block that sets their reference counts.\<close>

definition set_refs :: "nat \<Rightarrow> nat \<Rightarrow> u16 \<Rightarrow> buddy \<Rightarrow> buddy" where
  "set_refs base n v b = fold (\<lambda>i b. set_refcount (base + i) v b) [0..<n] b"

text \<open>What both allocations do with the block they took off its list.\<close>

definition carve :: "nat \<Rightarrow> nat \<Rightarrow> nat \<Rightarrow> buddy \<Rightarrow> buddy" where
  "carve addr order source b =
     (let b = split_down addr order source b;
          b = b\<lparr>bd_free := bd_free b - 2 ^ order\<rparr>
      in set_refs (frame_index addr) (2 ^ order) 1 b)"

definition alloc_inner :: "nat \<Rightarrow> buddy \<Rightarrow> buddy \<times> nat kernel_result" where
  "alloc_inner order b =
     (if MAX_ORDER < order then (b, Err InvalidArgument)
      else let head = (\<lambda>o'. fl_head (get_list b o'));
               above_zone = find (\<lambda>o'. head o' \<noteq> 0 \<and> \<not> in_dma_zone (head o') o') [order..<MAX_ORDER + 1];
               choice = (case above_zone of Some o' \<Rightarrow> Some o'
                         | None \<Rightarrow> find (\<lambda>o'. head o' \<noteq> 0) [order..<MAX_ORDER + 1])
           in (case choice of
                 None \<Rightarrow> (b, Err OutOfMemory)
               | Some source \<Rightarrow>
                   (case pop_free source b of
                      (b, None) \<Rightarrow> (b, Err InternalError)
                    | (b, Some addr) \<Rightarrow> (carve addr order source b, Ok addr))))"

text \<open>
  The walk of one list for a block that ends below \<open>max_addr\<close>; it follows the links as they are, and
  returns only if they lead to the end.
\<close>

definition fits_below :: "nat \<Rightarrow> nat \<Rightarrow> nat \<Rightarrow> bool" where
  "fits_below alloc_size max_addr addr \<longleftrightarrow>
     (case checked_add64 addr alloc_size of Some e \<Rightarrow> e \<le> max_addr | None \<Rightarrow> False)"

partial_function (option) walk_below :: "(nat \<Rightarrow> free_node) \<Rightarrow> (nat \<Rightarrow> bool) \<Rightarrow> nat \<Rightarrow> nat option option" where
  "walk_below m fits addr =
     (if addr = 0 then Some None else if fits addr then Some (Some addr)
      else walk_below m fits (fn_next (m addr)))"

fun scan_below :: "(nat \<Rightarrow> bool) \<Rightarrow> nat list \<Rightarrow> buddy \<Rightarrow> (nat \<times> nat) option option" where
  "scan_below fits [] b = Some None"
| "scan_below fits (source # orders) b =
     (case walk_below (bd_nodes b) fits (fl_head (get_list b source)) of
        None \<Rightarrow> None
      | Some (Some addr) \<Rightarrow> Some (Some (addr, source))
      | Some None \<Rightarrow> scan_below fits orders b)"

definition alloc_inner_constrained :: "nat \<Rightarrow> nat \<Rightarrow> buddy \<Rightarrow> (buddy \<times> nat kernel_result) option" where
  "alloc_inner_constrained order max_addr b =
     (if MAX_ORDER < order then Some (b, Err InvalidArgument)
      else (case scan_below (fits_below (FRAME_SIZE * 2 ^ order) max_addr) [order..<MAX_ORDER + 1] b of
              None \<Rightarrow> None
            | Some None \<Rightarrow> Some (b, Err OutOfMemory)
            | Some (Some (addr, source)) \<Rightarrow>
                Some (carve addr order source (remove_free addr source b), Ok addr)))"

section \<open>Freeing\<close>

definition buddy_of :: "nat \<Rightarrow> nat \<Rightarrow> nat" where
  "buddy_of addr order = addr XOR (FRAME_SIZE * 2 ^ order)"

function coalesce :: "nat \<Rightarrow> nat \<Rightarrow> buddy \<Rightarrow> buddy \<times> nat \<times> nat" where
  "coalesce addr order b =
     (if order < MAX_ORDER
      then let bud = buddy_of addr order; i = frame_index bud
           in if bd_total b \<le> i then (b, addr, order)
              else if get_info b i \<noteq> of_nat order then (b, addr, order)
              else coalesce (min addr bud) (order + 1) (remove_free bud order b)
      else (b, addr, order))"
  by pat_completeness auto
termination by (relation "measure (\<lambda>(a, k, b). MAX_ORDER - k)") auto

declare coalesce.simps [simp del]

definition sat_dec16 :: "u16 \<Rightarrow> u16" where
  "sat_dec16 n = (if n = 0 then 0 else n - 1)"

definition sat_inc16 :: "u16 \<Rightarrow> u16" where
  "sat_inc16 n = (if n = 0xFFFF then n else n + 1)"

definition drop_refs :: "nat \<Rightarrow> nat \<Rightarrow> buddy \<Rightarrow> buddy" where
  "drop_refs base n b = fold (\<lambda>i b. set_refcount (base + i) (sat_dec16 (get_refcount b (base + i))) b) [0..<n] b"

definition free_inner :: "nat \<Rightarrow> nat \<Rightarrow> buddy \<Rightarrow> buddy \<times> unit kernel_result" where
  "free_inner addr order b =
     (if MAX_ORDER < order then (b, Err InvalidArgument)
      else if \<not> FRAME_SIZE dvd addr then (b, Err BadAlignment)
      else let i = frame_index addr
           in if bd_total b \<le> i then (b, Err InvalidAddress)
              else if get_info b i \<noteq> INFO_ALLOCATED then (b, Err InvalidAddress)
              else if 1 < get_refcount b i then (drop_refs i (2 ^ order) b, Ok ())
              else (case coalesce addr order (set_refs i (2 ^ order) 0 b) of
                      (b, a, ord) \<Rightarrow>
                        let b = push_free a ord b
                        in (b\<lparr>bd_free := sat_add64 (bd_free b) (2 ^ order)\<rparr>, Ok ())))"

section \<open>Sharing\<close>

definition refcount :: "nat \<Rightarrow> buddy \<Rightarrow> u16" where
  "refcount frame b = (if length (bd_info b) \<le> frame_index frame then 0 else get_refcount b (frame_index frame))"

definition ref_inc :: "nat \<Rightarrow> buddy \<Rightarrow> buddy \<times> unit kernel_result" where
  "ref_inc frame b =
     (let i = frame_index frame
      in if length (bd_info b) \<le> i then (b, Err InvalidAddress)
         else let rc = get_refcount b i
              in if rc = 0 then (b, Err InvalidArgument)
                 else (set_refcount i (sat_inc16 rc) b, Ok ()))"

definition ref_dec :: "nat \<Rightarrow> buddy \<Rightarrow> buddy \<times> u16 kernel_result" where
  "ref_dec frame b =
     (let i = frame_index frame
      in if length (bd_info b) \<le> i then (b, Err InvalidAddress)
         else let rc = get_refcount b i
              in if rc = 0 then (b, Err InvalidArgument)
                 else let rc = sat_dec16 rc in (set_refcount i rc b, Ok rc))"

definition is_allocator_owned :: "nat \<Rightarrow> buddy \<Rightarrow> bool" where
  "is_allocator_owned frame b \<longleftrightarrow> frame_index frame < bd_total b"

end
