(* ===== verification/FrameLists.thy ===== *)
theory FrameLists imports FrameBuddy begin

text \<open>
  The free lists threaded through the free blocks are lists: reading a list by its links (\<open>free_blocks\<close>)
  after an operation gives the list operation applied to what was read before, for the list it works
  on, and the same as before for every other.
\<close>

section \<open>Segments of a doubly linked list\<close>

definition first :: "nat list \<Rightarrow> nat \<Rightarrow> nat" where
  "first xs n = (case xs of [] \<Rightarrow> n | a # _ \<Rightarrow> a)"

definition final :: "nat \<Rightarrow> nat list \<Rightarrow> nat" where
  "final p xs = (if xs = [] then p else last xs)"

text \<open>The blocks \<open>xs\<close> linked in order, with \<open>p\<close> before the first and \<open>n\<close> after the last.\<close>

fun seg :: "(nat \<Rightarrow> free_node) \<Rightarrow> nat \<Rightarrow> nat list \<Rightarrow> nat \<Rightarrow> bool" where
  "seg m p [] n \<longleftrightarrow> True"
| "seg m p (a # xs) n \<longleftrightarrow> fn_prev (m a) = p \<and> fn_next (m a) = first xs n \<and> seg m a xs n"

lemma first_simps [simp]: "first [] n = n" "first (a # xs) n = a"
  by (simp_all add: first_def)

lemma first_append [simp]: "first (xs @ ys) n = first xs (first ys n)"
  by (cases xs) simp_all

lemma final_simps [simp]: "final p [] = p" "final p (xs @ [a]) = a" "final p (a # xs) = final a xs"
  by (simp_all add: final_def)

lemma final_append [simp]: "final p (xs @ ys) = final (final p xs) ys"
  by (simp add: final_def)

lemma first_in: "0 \<notin> set xs \<Longrightarrow> first xs 0 = 0 \<longleftrightarrow> xs = []" "first xs 0 \<noteq> 0 \<Longrightarrow> first xs 0 \<in> set xs"
  by (cases xs; auto)+

lemma final_in: "0 \<notin> set xs \<Longrightarrow> final 0 xs = 0 \<longleftrightarrow> xs = []" "final 0 xs \<noteq> 0 \<Longrightarrow> final 0 xs \<in> set xs"
  by (cases xs rule: rev_cases; auto)+

lemma seg_append [simp]: "seg m p (xs @ ys) n \<longleftrightarrow> seg m p xs (first ys n) \<and> seg m (final p xs) ys n"
  by (induction xs arbitrary: p) auto

lemma seg_cong: "(\<And>x. x \<in> set xs \<Longrightarrow> m' x = m x) \<Longrightarrow> seg m' p xs n \<longleftrightarrow> seg m p xs n"
  by (induction xs arbitrary: p) auto

lemma seg_upd [simp]: "a \<notin> set xs \<Longrightarrow> seg (m(a := v)) p xs n \<longleftrightarrow> seg m p xs n"
  by (rule seg_cong) auto

definition list_rep :: "(nat \<Rightarrow> free_node) \<Rightarrow> free_list \<Rightarrow> nat list \<Rightarrow> bool" where
  "list_rep m l xs \<longleftrightarrow> seg m 0 xs 0 \<and> distinct xs \<and> 0 \<notin> set xs
     \<and> fl_head l = first xs 0 \<and> fl_tail l = final 0 xs \<and> fl_count l = length xs"

section \<open>Reading a list\<close>

fun walk :: "(nat \<Rightarrow> free_node) \<Rightarrow> nat \<Rightarrow> nat \<Rightarrow> nat list" where
  "walk m a 0 = []"
| "walk m a (Suc n) = a # walk m (fn_next (m a)) n"

definition free_blocks :: "buddy \<Rightarrow> nat \<Rightarrow> nat list" where
  "free_blocks b k = (if k \<le> MAX_ORDER
     then walk (bd_nodes b) (fl_head (get_list b k)) (fl_count (get_list b k)) else [])"

lemma walk_seg: "seg m p xs n \<Longrightarrow> walk m (first xs n) (length xs) = xs"
  by (induction xs arbitrary: p) auto

lemma free_blocks_rep: "k \<le> MAX_ORDER \<Longrightarrow> list_rep (bd_nodes b) (get_list b k) xs \<Longrightarrow> free_blocks b k = xs"
  by (auto simp: free_blocks_def list_rep_def walk_seg)

definition lists_ok :: "buddy \<Rightarrow> bool" where
  "lists_ok b \<longleftrightarrow> length (bd_lists b) = MAX_ORDER + 1
     \<and> (\<forall>k \<le> MAX_ORDER. list_rep (bd_nodes b) (get_list b k) (free_blocks b k))
     \<and> (\<forall>j k. j \<noteq> k \<longrightarrow> set (free_blocks b j) \<inter> set (free_blocks b k) = {})"

lemma lists_rep: "lists_ok b \<Longrightarrow> k \<le> MAX_ORDER \<Longrightarrow> list_rep (bd_nodes b) (get_list b k) (free_blocks b k)"
  by (simp add: lists_ok_def)

lemma free_blocks_other: "lists_ok b \<Longrightarrow> j \<noteq> k \<Longrightarrow> x \<in> set (free_blocks b k) \<Longrightarrow> x \<notin> set (free_blocks b j)"
  by (auto simp: lists_ok_def)

text \<open>A step that relinks the blocks of one list, and at most the block it puts in or takes out.\<close>

lemma lists_change:
  assumes ok: "lists_ok b" and k: "k \<le> MAX_ORDER" and lists: "bd_lists b' = (bd_lists b)[k := l]"
    and rep: "list_rep (bd_nodes b') l xs" and sub: "set xs \<subseteq> insert a (set (free_blocks b k))"
    and nodes: "\<And>x. x \<noteq> a \<Longrightarrow> x \<notin> set (free_blocks b k) \<Longrightarrow> bd_nodes b' x = bd_nodes b x"
    and fresh: "\<And>j. j \<noteq> k \<Longrightarrow> a \<notin> set (free_blocks b j)"
  shows "lists_ok b' \<and> free_blocks b' = (free_blocks b)(k := xs)"
proof -
  have len: "length (bd_lists b) = MAX_ORDER + 1" using ok by (simp add: lists_ok_def)
  have here: "get_list b' k = l" using k len lists by (simp add: get_list_def)
  have there: "list_rep (bd_nodes b') (get_list b' j) (free_blocks b j)" if "j \<le> MAX_ORDER" "j \<noteq> k" for j
  proof -
    have "bd_nodes b' x = bd_nodes b x" if "x \<in> set (free_blocks b j)" for x
      using nodes [of x] fresh [OF \<open>j \<noteq> k\<close>] free_blocks_other [OF ok \<open>j \<noteq> k\<close> [symmetric] that] that by blast
    then have "seg (bd_nodes b') 0 (free_blocks b j) 0 \<longleftrightarrow> seg (bd_nodes b) 0 (free_blocks b j) 0" by (rule seg_cong)
    moreover have "get_list b' j = get_list b j" using that(2) lists by (simp add: get_list_def)
    ultimately show ?thesis using lists_rep [OF ok that(1)] by (simp add: list_rep_def)
  qed
  have eq: "free_blocks b' = (free_blocks b)(k := xs)"
  proof
    fix j show "free_blocks b' j = ((free_blocks b)(k := xs)) j"
    proof (cases "j \<le> MAX_ORDER")
      case True
      then show ?thesis using free_blocks_rep [of k b' xs] free_blocks_rep [of j b'] rep here there k by auto
    next
      case False
      then show ?thesis using k by (auto simp: free_blocks_def)
    qed
  qed
  have "set (free_blocks b' i) \<inter> set (free_blocks b' j) = {}" if "i \<noteq> j" for i j
    using that sub fresh free_blocks_other [OF ok] by (auto simp: eq)
  then have "lists_ok b'"
    using there rep here len lists by (auto simp: lists_ok_def eq)
  with eq show ?thesis by blast
qed

section \<open>Operations\<close>

lemma get_put_list [simp]:
  "k < length (bd_lists b) \<Longrightarrow> get_list (put_list k l b) k = l" "get_list (put_node a n b) k = get_list b k"
  "get_list (set_info i v b) k = get_list b k" "get_list (set_next a x b) k = get_list b k"
  "get_list (set_prev a x b) k = get_list b k"
  by (simp_all add: get_list_def put_list_def put_node_def set_info_def set_next_def set_prev_def)

lemma lists_put [simp]:
  "bd_lists (put_list k l b) = (bd_lists b)[k := l]" "bd_lists (put_node a n b) = bd_lists b"
  "bd_lists (set_info i v b) = bd_lists b" "bd_lists (set_next a x b) = bd_lists b" "bd_lists (set_prev a x b) = bd_lists b"
  by (simp_all add: put_list_def put_node_def set_info_def set_next_def set_prev_def)

lemma nodes_put [simp]:
  "bd_nodes (put_list k l b) = bd_nodes b" "bd_nodes (put_node a n b) = (bd_nodes b)(a := n)"
  "bd_nodes (set_info i v b) = bd_nodes b"
  "bd_nodes (set_next a x b) = (bd_nodes b)(a := (bd_nodes b a)\<lparr>fn_next := x\<rparr>)"
  "bd_nodes (set_prev a x b) = (bd_nodes b)(a := (bd_nodes b a)\<lparr>fn_prev := x\<rparr>)"
  by (simp_all add: put_list_def put_node_def set_info_def set_next_def set_prev_def)

definition pushed :: "nat \<Rightarrow> nat \<Rightarrow> nat list \<Rightarrow> nat list" where
  "pushed a k xs = (if in_dma_zone a k \<and> xs \<noteq> [] then xs @ [a] else a # xs)"

lemma push_list:
  assumes ok: "lists_ok b" and k: "k \<le> MAX_ORDER" and a: "a \<noteq> 0" "\<And>j. a \<notin> set (free_blocks b j)"
    and room: "length (free_blocks b k) < u64_max"
  shows "lists_ok (push_free a k b) \<and> free_blocks (push_free a k b) = (free_blocks b)(k := pushed a k (free_blocks b k))"
proof -
  let ?xs = "free_blocks b k" and ?l = "get_list b k"
  have len: "k < length (bd_lists b)" using ok k by (simp add: lists_ok_def)
  have rep: "seg (bd_nodes b) 0 ?xs 0" "distinct ?xs" "0 \<notin> set ?xs" "fl_head ?l = first ?xs 0"
    "fl_tail ?l = final 0 ?xs" "fl_count ?l = length ?xs"
    using lists_rep [OF ok k] by (simp_all add: list_rep_def)
  have more: "sat_add64 (length ?xs) 1 = Suc (length ?xs)" using room by (simp add: sat_add64_exact)
  show ?thesis
  proof (cases "in_dma_zone a k \<and> ?xs \<noteq> []")
    case True
    then obtain ys t where ys: "?xs = ys @ [t]" by (metis rev_exhaust)
    have new: "a \<noteq> t" "a \<notin> set ys" using a(2) [of k] ys by auto
    have "final 0 ?xs \<noteq> 0" using True final_in(1) [OF rep(3)] by blast
    then have push: "push_free a k b = append_free a k t b"
      using True rep(5) ys by (simp add: push_free_def)
    show ?thesis
      unfolding push pushed_def if_P [OF True]
      by (rule lists_change [OF ok k, where a = a and l = "?l\<lparr>fl_tail := a, fl_count := sat_add64 (fl_count ?l) 1\<rparr>"])
        (use rep a(1) a(2) new ys more len in \<open>auto simp: append_free_def Let_def list_rep_def\<close>)
  next
    case False
    show ?thesis
    proof (cases "?xs")
      case Nil
      show ?thesis
        unfolding pushed_def if_not_P [OF False]
        by (rule lists_change [OF ok k, where a = a and
              l = "?l\<lparr>fl_head := a, fl_tail := a, fl_count := sat_add64 (fl_count ?l) 1\<rparr>"])
          (use False rep a Nil more len in \<open>auto simp: push_free_def Let_def list_rep_def\<close>)
    next
      case (Cons x xs)
      have "x \<noteq> 0" using rep(3) Cons by auto
      moreover have "a \<noteq> x" "a \<notin> set xs" using a(2) [of k] Cons by auto
      ultimately show ?thesis
        unfolding pushed_def if_not_P [OF False]
        by (intro lists_change [OF ok k, where a = a and l = "?l\<lparr>fl_head := a, fl_count := sat_add64 (fl_count ?l) 1\<rparr>"])
          (use False rep a Cons more len in \<open>auto simp: push_free_def Let_def list_rep_def\<close>)
    qed
  qed
qed

lemma remove_list:
  assumes ok: "lists_ok b" and k: "k \<le> MAX_ORDER" and a: "a \<in> set (free_blocks b k)"
  shows "lists_ok (remove_free a k b) \<and> free_blocks (remove_free a k b) = (free_blocks b)(k := remove1 a (free_blocks b k))"
proof -
  let ?xs = "free_blocks b k" and ?l = "get_list b k"
  have len: "k < length (bd_lists b)" using ok k by (simp add: lists_ok_def)
  have rep: "seg (bd_nodes b) 0 ?xs 0" "distinct ?xs" "0 \<notin> set ?xs" "fl_head ?l = first ?xs 0"
    "fl_tail ?l = final 0 ?xs" "fl_count ?l = length ?xs"
    using lists_rep [OF ok k] by (simp_all add: list_rep_def)
  obtain ys zs where xs: "?xs = ys @ a # zs" using a by (meson split_list)
  have out: "a \<notin> set ys" "a \<notin> set zs" and rm: "remove1 a ?xs = ys @ zs"
    using rep(2) xs by (auto simp: remove1_append)
  have dis: "distinct (ys @ zs)" "0 \<notin> set (ys @ zs)" "a \<noteq> 0" "length ?xs - 1 = length (ys @ zs)"
    using rep(2,3) xs by auto
  have node: "fn_prev (bd_nodes b a) = final 0 ys" "fn_next (bd_nodes b a) = first zs 0"
    and segs: "seg (bd_nodes b) 0 ys a" "seg (bd_nodes b) a zs 0"
    using rep(1) xs by simp_all
  define l where "l = ?l\<lparr>fl_head := first (ys @ zs) 0, fl_tail := final 0 (ys @ zs), fl_count := length ?xs - 1\<rparr>"
  have "bd_lists (remove_free a k b) = (bd_lists b)[k := l]
      \<and> seg (bd_nodes (remove_free a k b)) 0 (ys @ zs) 0
      \<and> (\<forall>x. x \<noteq> a \<longrightarrow> x \<notin> set ?xs \<longrightarrow> bd_nodes (remove_free a k b) x = bd_nodes b x)"
  proof (cases ys rule: rev_cases)
    case y: Nil
    show ?thesis
    proof (cases zs)
      case Nil
      with y node rep len xs show ?thesis by (cases ?l) (simp add: remove_free_def Let_def l_def)
    next
      case (Cons q zs')
      with y node rep len xs segs out dis show ?thesis
        by (cases ?l) (auto simp: remove_free_def Let_def l_def)
    qed
  next
    case y: (snoc ys' p)
    show ?thesis
    proof (cases zs)
      case Nil
      with y node rep len xs segs out dis show ?thesis
        by (cases ?l) (auto simp: remove_free_def Let_def l_def)
    next
      case (Cons q zs')
      with y node rep len xs segs out dis show ?thesis
        by (cases ?l) (auto simp: remove_free_def Let_def l_def)
    qed
  qed
  then show ?thesis unfolding rm
    by (intro lists_change [OF ok k, where a = a and l = l])
      (use dis xs a free_blocks_other [OF ok] in \<open>auto simp: list_rep_def l_def\<close>)
qed

end
