(* ===== verification/FrameState.thy ===== *)
theory FrameState imports FrameLists begin

text \<open>
  The invariant of the frame allocator, on frame numbers: the free blocks are aligned, in range and
  disjoint, the page-info array names exactly them, free frames have no references, and the counter
  counts them. Every operation keeps it and says what becomes of the set of free frames.
\<close>

section \<open>Blocks of frames\<close>

type_synonym block = "nat \<times> nat"

fun span :: "block \<Rightarrow> nat set" where
  "span (n, k) = {n..<n + 2 ^ k}"

definition good :: "nat \<Rightarrow> block \<Rightarrow> bool" where
  "good tot x \<longleftrightarrow> snd x \<le> MAX_ORDER \<and> 2 ^ snd x dvd fst x \<and> fst x + 2 ^ snd x \<le> tot \<and> 0 < fst x"

definition frame_addr :: "nat \<Rightarrow> nat" where
  "frame_addr n = FRAME_SIZE * n"

definition blocks :: "buddy \<Rightarrow> block set" where
  "blocks b = {(n, k). frame_addr n \<in> set (free_blocks b k)}"

definition free_frames :: "buddy \<Rightarrow> nat set" where
  "free_frames b = (\<Union>x \<in> blocks b. span x)"

lemma frame_addr_simps [simp]:
  "frame_index (frame_addr n) = n" "frame_addr m = frame_addr n \<longleftrightarrow> m = n" "frame_addr n = 0 \<longleftrightarrow> n = 0"
  "FRAME_SIZE dvd frame_addr n" "frame_addr n + FRAME_SIZE * m = frame_addr (n + m)"
  "min (frame_addr m) (frame_addr n) = frame_addr (min m n)"
  by (simp_all add: frame_index_def frame_addr_def FRAME_SIZE_def min_def)

lemma aligned_addr: "FRAME_SIZE dvd a \<Longrightarrow> a = frame_addr (frame_index a)"
  by (simp add: frame_index_def frame_addr_def)

lemma span_half: "j < k \<Longrightarrow> span (n + 2 ^ j, j) \<subseteq> span (n, k)"
proof -
  assume "j < k"
  then have "(2 :: nat) ^ j + 2 ^ j \<le> 2 ^ k"
    using power_increasing [of "Suc j" k "2 :: nat"] by simp
  then show ?thesis by auto
qed

lemma span_split: "span (n, Suc k) = span (n, k) \<union> span (n + 2 ^ k, k)" "span (n, k) \<inter> span (n + 2 ^ k, k) = {}"
  by auto

lemma span_mono: "j \<le> k \<Longrightarrow> span (n, j) \<subseteq> span (n, k)"
  using power_increasing [of j k "2 :: nat"] by auto

lemma span_start [simp]: "n \<in> span (n, k)"
  by simp

lemma card_span [simp]: "card (span (n, k)) = 2 ^ k"
  by simp

lemma finite_span [simp]: "finite (span x)"
  by (cases x) simp

lemma good_halves: "good tot (n, Suc k) \<longleftrightarrow> Suc k \<le> MAX_ORDER \<and> 2 ^ Suc k dvd n \<and> good tot (n, k) \<and> good tot (n + 2 ^ k, k)"
  by (auto simp: good_def intro: dvd_mult_right)

section \<open>Buddies\<close>

lemma xor_buddy:
  fixes n :: nat
  assumes "2 ^ k dvd n"
  shows "n XOR 2 ^ k = (if even (n div 2 ^ k) then n + 2 ^ k else n - 2 ^ k)"
proof -
  obtain q where q: "n = 2 ^ k * q" using assms by blast
  have "n XOR 2 ^ k = push_bit k (q XOR 1)"
    by (simp add: q push_bit_eq_mult push_bit_xor [symmetric] mult.commute flip: push_bit_eq_mult)
  then show ?thesis
    by (cases "even q") (simp_all add: q push_bit_eq_mult xor_Suc_0_eq algebra_simps)
qed

lemma buddy_addr: "buddy_of (frame_addr n) k = frame_addr (n XOR 2 ^ k)"
proof -
  have "frame_addr m = push_bit 14 m" for m
    by (simp add: frame_addr_def FRAME_SIZE_def push_bit_eq_mult)
  moreover have "FRAME_SIZE * 2 ^ k = push_bit 14 (2 ^ k)"
    by (simp add: FRAME_SIZE_def push_bit_eq_mult)
  ultimately show ?thesis by (simp add: buddy_of_def push_bit_xor)
qed

text \<open>A block and its buddy are the halves of the block above.\<close>

lemma merge:
  assumes "good tot (n, k)" and "good tot (n XOR 2 ^ k, k)" and "k < MAX_ORDER"
  shows "good tot (min n (n XOR 2 ^ k), Suc k)"
    and "span (min n (n XOR 2 ^ k), Suc k) = span (n, k) \<union> span (n XOR 2 ^ k, k)"
    and "span (n, k) \<inter> span (n XOR 2 ^ k, k) = {}"
proof -
  have dvd: "2 ^ k dvd n" using assms(1) by (simp add: good_def)
  then obtain q where q: "n = 2 ^ k * q" by blast
  consider (low) "even q" "n XOR 2 ^ k = n + 2 ^ k" | (high) m where "odd q" "n XOR 2 ^ k = m" "n = m + 2 ^ k"
  proof (cases "even q")
    case True
    then show thesis using low xor_buddy [OF dvd] q by simp
  next
    case False
    then have "2 ^ k \<le> n" using q by (cases q) auto
    then have "n = (n - 2 ^ k) + 2 ^ k" "n XOR 2 ^ k = n - 2 ^ k" using xor_buddy [OF dvd] q False by simp_all
    then show thesis using high False by metis
  qed
  then have "good tot (min n (n XOR 2 ^ k), Suc k)
    \<and> span (min n (n XOR 2 ^ k), Suc k) = span (n, k) \<union> span (n XOR 2 ^ k, k)
    \<and> span (n, k) \<inter> span (n XOR 2 ^ k, k) = {}"
  proof cases
    case low
    moreover have "2 ^ Suc k dvd n" using low(1) q by (auto simp: elim!: evenE)
    ultimately show ?thesis using assms by (auto simp: good_halves)
  next
    case high
    moreover have "2 ^ Suc k dvd m"
    proof -
      obtain r where "q = 2 * r + 1" using high(1) by (rule oddE)
      then have "m = 2 ^ Suc k * r" using q high(3) by (simp add: algebra_simps)
      then show ?thesis by simp
    qed
    ultimately show ?thesis using assms by (auto simp: good_halves)
  qed
  then show "good tot (min n (n XOR 2 ^ k), Suc k)"
    and "span (min n (n XOR 2 ^ k), Suc k) = span (n, k) \<union> span (n XOR 2 ^ k, k)"
    and "span (n, k) \<inter> span (n XOR 2 ^ k, k) = {}" by blast+
qed

section \<open>The invariant\<close>

text \<open>Behind a block inside the ISA DMA zone there are only such blocks.\<close>

definition zoned :: "nat \<Rightarrow> nat list \<Rightarrow> bool" where
  "zoned k xs \<longleftrightarrow> sorted_wrt (\<lambda>a c. in_dma_zone a k \<longrightarrow> in_dma_zone c k) xs"

lemma zoned_pushed: "zoned k xs \<Longrightarrow> zoned k (pushed a k xs)"
  by (auto simp: zoned_def pushed_def sorted_wrt_append)

lemma zoned_remove1: "zoned k xs \<Longrightarrow> zoned k (remove1 a xs)"
  unfolding zoned_def by (induction xs) (auto dest: notin_set_remove1 [rotated] set_mp [OF set_remove1_subset])

definition core_ok :: "buddy \<Rightarrow> bool" where
  "core_ok b \<longleftrightarrow> lists_ok b \<and> length (bd_info b) = bd_total b \<and> length (bd_ref b) = bd_total b
     \<and> bd_total b \<le> 2 ^ 50
     \<and> (\<forall>k. \<forall>a \<in> set (free_blocks b k). FRAME_SIZE dvd a)
     \<and> (\<forall>x \<in> blocks b. good (bd_total b) x)
     \<and> (\<forall>x \<in> blocks b. \<forall>y \<in> blocks b. x \<noteq> y \<longrightarrow> span x \<inter> span y = {})
     \<and> (\<forall>(n, k) \<in> blocks b. bd_info b ! n = of_nat k)
     \<and> (\<forall>i < bd_total b. (\<forall>k. (i, k) \<notin> blocks b) \<longrightarrow> bd_info b ! i = INFO_ALLOCATED)
     \<and> (\<forall>i \<in> free_frames b. bd_ref b ! i = 0)
     \<and> (\<forall>k. zoned k (free_blocks b k))"

definition buddy_ok :: "buddy \<Rightarrow> bool" where
  "buddy_ok b \<longleftrightarrow> core_ok b \<and> bd_free b = card (free_frames b)"

lemma core_okD:
  assumes "core_ok b"
  shows "lists_ok b" "length (bd_info b) = bd_total b" "length (bd_ref b) = bd_total b" "bd_total b \<le> 2 ^ 50"
    and "a \<in> set (free_blocks b k) \<Longrightarrow> FRAME_SIZE dvd a"
    and "x \<in> blocks b \<Longrightarrow> good (bd_total b) x"
    and "x \<in> blocks b \<Longrightarrow> y \<in> blocks b \<Longrightarrow> x \<noteq> y \<Longrightarrow> span x \<inter> span y = {}"
    and "(n, k) \<in> blocks b \<Longrightarrow> bd_info b ! n = of_nat k"
    and "i < bd_total b \<Longrightarrow> (\<And>k. (i, k) \<notin> blocks b) \<Longrightarrow> bd_info b ! i = INFO_ALLOCATED"
    and "i \<in> free_frames b \<Longrightarrow> bd_ref b ! i = 0"
    and "zoned k (free_blocks b k)"
  using assms by (auto simp: core_ok_def)

lemma free_blocks_aligned: "core_ok b \<Longrightarrow> a \<in> set (free_blocks b k) \<Longrightarrow> (frame_index a, k) \<in> blocks b"
  using core_okD(5) aligned_addr [of a] by (auto simp: blocks_def)

lemma free_in_range: "core_ok b \<Longrightarrow> i \<in> free_frames b \<Longrightarrow> i < bd_total b"
  by (fastforce simp: free_frames_def good_def dest: core_okD(6))

lemma finite_free: "core_ok b \<Longrightarrow> finite (free_frames b)"
  by (rule finite_subset [of _ "{..<bd_total b}"]) (auto dest: free_in_range)

lemma block_at_start: "core_ok b \<Longrightarrow> (n, j) \<in> blocks b \<Longrightarrow> (n, k) \<in> blocks b \<Longrightarrow> j = k"
  using core_okD(7) [of b "(n, j)" "(n, k)"] by fastforce

lemma order_le: "core_ok b \<Longrightarrow> (n, k) \<in> blocks b \<Longrightarrow> k \<le> MAX_ORDER"
  by (auto simp: good_def dest: core_okD(6))

lemma free_blocks_short:
  assumes "core_ok b"
  shows "length (free_blocks b k) \<le> bd_total b"
proof (cases "k \<le> MAX_ORDER")
  case True
  have "distinct (free_blocks b k)" using lists_rep [OF core_okD(1) [OF assms] True] by (simp add: list_rep_def)
  moreover have "inj_on frame_index (set (free_blocks b k))"
    using core_okD(5) [OF assms] by (metis aligned_addr inj_onI)
  moreover have "frame_index ` set (free_blocks b k) \<subseteq> {..<bd_total b}"
  proof
    fix n assume "n \<in> frame_index ` set (free_blocks b k)"
    then have "good (bd_total b) (n, k)" using free_blocks_aligned [OF assms] core_okD(6) [OF assms] by blast
    then show "n \<in> {..<bd_total b}" 
      by (auto simp: good_def intro!: less_le_trans [of n "n + 2 ^ k" "bd_total b"])
  qed
  ultimately show ?thesis
    using card_mono [of "{..<bd_total b}" "frame_index ` set (free_blocks b k)"]
    by (simp add: card_image distinct_card)
qed (simp add: free_blocks_def)

lemma info_inj:
  assumes "j \<le> MAX_ORDER" and "k \<le> MAX_ORDER"
  shows "(of_nat j :: u8) = of_nat k \<longleftrightarrow> j = k" and "(of_nat j :: u8) \<noteq> INFO_ALLOCATED"
proof -
  have u: "unat (of_nat i :: u8) = i" if "i \<le> MAX_ORDER" for i
    using that by (simp add: unat_of_nat MAX_ORDER_def)
  show "(of_nat j :: u8) = of_nat k \<longleftrightarrow> j = k" using u assms by metis
  show "(of_nat j :: u8) \<noteq> INFO_ALLOCATED"
  proof
    assume "(of_nat j :: u8) = INFO_ALLOCATED"
    then have "j = unat INFO_ALLOCATED" using u [OF assms(1)] by simp
    then show False using assms(1) by (simp add: INFO_ALLOCATED_def MAX_ORDER_def)
  qed
qed

text \<open>The page-info array answers which blocks are free.\<close>

lemma info_free:
  assumes "core_ok b" and "n < bd_total b" and "k \<le> MAX_ORDER"
  shows "get_info b n = of_nat k \<longleftrightarrow> (n, k) \<in> blocks b"
    and "get_info b n = INFO_ALLOCATED \<longleftrightarrow> (\<forall>j. (n, j) \<notin> blocks b)"
proof -
  have none: "bd_info b ! n = INFO_ALLOCATED" if "\<And>j. (n, j) \<notin> blocks b"
    using that assms(2) core_okD(9) [OF assms(1)] by blast
  have some: "bd_info b ! n = of_nat j" "j \<le> MAX_ORDER" if "(n, j) \<in> blocks b" for j
    using that core_okD(8) [OF assms(1)] order_le [OF assms(1)] by blast+
  show "get_info b n = of_nat k \<longleftrightarrow> (n, k) \<in> blocks b"
    using none some info_inj(1) [OF _ assms(3)] info_inj(2) [OF assms(3) assms(3)] by (metis get_info_def)
  show "get_info b n = INFO_ALLOCATED \<longleftrightarrow> (\<forall>j. (n, j) \<notin> blocks b)"
    using none some info_inj(2) by (metis get_info_def)
qed

section \<open>Putting a block in and taking it out\<close>

lemma put_fields [simp]:
  "bd_info (put_list k l b) = bd_info b" "bd_info (put_node a n b) = bd_info b" "bd_info (set_next a x b) = bd_info b"
  "bd_info (set_prev a x b) = bd_info b" "bd_info (set_info i v b) = (bd_info b)[i := v]"
  "bd_ref (put_list k l b) = bd_ref b" "bd_ref (put_node a n b) = bd_ref b" "bd_ref (set_next a x b) = bd_ref b"
  "bd_ref (set_prev a x b) = bd_ref b" "bd_ref (set_info i v b) = bd_ref b"
  "bd_total (put_list k l b) = bd_total b" "bd_total (put_node a n b) = bd_total b" "bd_total (set_next a x b) = bd_total b"
  "bd_total (set_prev a x b) = bd_total b" "bd_total (set_info i v b) = bd_total b"
  "bd_free (put_list k l b) = bd_free b" "bd_free (put_node a n b) = bd_free b" "bd_free (set_next a x b) = bd_free b"
  "bd_free (set_prev a x b) = bd_free b" "bd_free (set_info i v b) = bd_free b"
  by (simp_all add: put_list_def put_node_def set_next_def set_prev_def set_info_def)

lemma push_fields [simp]:
  "bd_info (push_free a k b) = (bd_info b)[frame_index a := of_nat k]" "bd_ref (push_free a k b) = bd_ref b"
  "bd_total (push_free a k b) = bd_total b" "bd_free (push_free a k b) = bd_free b"
  by (simp_all add: push_free_def append_free_def Let_def)

lemma remove_fields [simp]:
  "bd_info (remove_free a k b) = (bd_info b)[frame_index a := INFO_ALLOCATED]" "bd_ref (remove_free a k b) = bd_ref b"
  "bd_total (remove_free a k b) = bd_total b" "bd_free (remove_free a k b) = bd_free b"
  by (simp_all add: remove_free_def Let_def)

text \<open>The frames of a block that is on no list: in range, disjoint from the free ones, unreferenced.\<close>

definition loose :: "block \<Rightarrow> buddy \<Rightarrow> bool" where
  "loose x b \<longleftrightarrow> good (bd_total b) x \<and> span x \<inter> free_frames b = {} \<and> (\<forall>i \<in> span x. bd_ref b ! i = 0)"

lemma set_pushed [simp]: "set (pushed a k xs) = insert a (set xs)"
  by (auto simp: pushed_def)

lemma push_ok:
  assumes ok: "core_ok b" and loose: "loose (n, k) b"
  shows "core_ok (push_free (frame_addr n) k b)"
    and "blocks (push_free (frame_addr n) k b) = insert (n, k) (blocks b)"
    and "free_frames (push_free (frame_addr n) k b) = free_frames b \<union> span (n, k)"
proof -
  let ?b = "push_free (frame_addr n) k b"
  have g: "good (bd_total b) (n, k)" and apart: "span (n, k) \<inter> free_frames b = {}"
    using loose by (simp_all add: loose_def)
  have k: "k \<le> MAX_ORDER" and n: "0 < n" "n < bd_total b"
    using g by (auto simp: good_def intro!: less_le_trans [of n "n + 2 ^ k" "bd_total b"])
  have out: "(n, j) \<notin> blocks b" for j
    using apart span_start [of n k] span_start [of n j] unfolding free_frames_def by blast
  then have fresh: "frame_addr n \<notin> set (free_blocks b j)" for j by (auto simp: blocks_def)
  have room: "length (free_blocks b k) < u64_max"
    using free_blocks_short [OF ok, of k] core_okD(4) [OF ok] by (simp add: u64_max_def)
  note push = push_list [OF core_okD(1) [OF ok] k _ fresh room]
  then have lists: "lists_ok ?b" and cont: "free_blocks ?b = (free_blocks b)(k := pushed (frame_addr n) k (free_blocks b k))"
    using n by simp_all
  show bl: "blocks ?b = insert (n, k) (blocks b)"
    by (auto simp: blocks_def cont)
  then show free: "free_frames ?b = free_frames b \<union> span (n, k)" by (auto simp: free_frames_def)
  have far: "span (n, k) \<inter> span y = {}" if "y \<in> blocks b" for y
    using that apart by (auto simp: free_frames_def)
  have info: "n \<noteq> m" if "(m, j) \<in> blocks b" for m j using that out by blast
  have "\<forall>j. \<forall>a \<in> set (free_blocks ?b j). FRAME_SIZE dvd a"
    using core_okD(5) [OF ok] by (auto simp: cont)
  moreover have "\<forall>x \<in> blocks ?b. \<forall>y \<in> blocks ?b. x \<noteq> y \<longrightarrow> span x \<inter> span y = {}"
    using core_okD(7) [OF ok] far by (simp only: bl) blast
  moreover have "\<forall>(m, j) \<in> blocks ?b. bd_info ?b ! m = of_nat j"
    using core_okD(2,8) [OF ok] n info by (auto simp: bl)
  moreover have "\<forall>i < bd_total ?b. (\<forall>j. (i, j) \<notin> blocks ?b) \<longrightarrow> bd_info ?b ! i = INFO_ALLOCATED"
  proof clarify
    fix i assume i: "i < bd_total ?b" "\<forall>j. (i, j) \<notin> blocks ?b"
    then have "i \<noteq> n" by (auto simp: bl)
    with i show "bd_info ?b ! i = INFO_ALLOCATED" using core_okD(9) [OF ok] by (simp add: bl)
  qed
  moreover have "\<forall>i \<in> free_frames ?b. bd_ref ?b ! i = 0"
    using core_okD(10) [OF ok] loose by (auto simp: free loose_def)
  moreover have "\<forall>j. zoned j (free_blocks ?b j)"
    using core_okD(11) [OF ok] zoned_pushed by (auto simp: cont)
  ultimately show "core_ok ?b"
    using lists core_okD(2,3,4,6) [OF ok] g by (simp add: core_ok_def bl)
qed

lemma remove_ok:
  assumes ok: "core_ok b" and block: "(n, k) \<in> blocks b"
  shows "core_ok (remove_free (frame_addr n) k b)"
    and "blocks (remove_free (frame_addr n) k b) = blocks b - {(n, k)}"
    and "free_frames (remove_free (frame_addr n) k b) = free_frames b - span (n, k)"
    and "loose (n, k) (remove_free (frame_addr n) k b)"
proof -
  let ?b = "remove_free (frame_addr n) k b"
  have k: "k \<le> MAX_ORDER" using order_le [OF ok block] .
  have mem: "frame_addr n \<in> set (free_blocks b k)" using block by (simp add: blocks_def)
  have "n < bd_total b" using core_okD(6) [OF ok block] by (auto simp: good_def intro!: less_le_trans [of n "n + 2 ^ k" "bd_total b"])
  note rem = remove_list [OF core_okD(1) [OF ok] k mem]
  then have lists: "lists_ok ?b" and cont: "free_blocks ?b = (free_blocks b)(k := remove1 (frame_addr n) (free_blocks b k))"
    by simp_all
  have dist: "distinct (free_blocks b k)" using lists_rep [OF core_okD(1) [OF ok] k] by (simp add: list_rep_def)
  show bl: "blocks ?b = blocks b - {(n, k)}"
    using dist by (auto simp: blocks_def cont)
  have apart: "span (n, k) \<inter> span y = {}" if "y \<in> blocks ?b" for y
    using core_okD(7) [OF ok block, of y] that by (auto simp: bl)
  have "free_frames b = span (n, k) \<union> free_frames ?b"
    using block by (auto simp: free_frames_def bl)
  moreover have none: "span (n, k) \<inter> free_frames ?b = {}" using apart unfolding free_frames_def by blast
  ultimately show free: "free_frames ?b = free_frames b - span (n, k)" by blast
  have all: "span (n, k) \<subseteq> free_frames b" using block unfolding free_frames_def by blast
  have starts: "(n, j) \<notin> blocks ?b" for j
    using apart [of "(n, j)"] span_start [of n k] span_start [of n j] by blast
  have "\<forall>j. \<forall>a \<in> set (free_blocks ?b j). FRAME_SIZE dvd a"
    using core_okD(5) [OF ok] set_remove1_subset [of "frame_addr n" "free_blocks b k"] by (auto simp: cont)
  moreover have "\<forall>x \<in> blocks ?b. \<forall>y \<in> blocks ?b. x \<noteq> y \<longrightarrow> span x \<inter> span y = {}"
    using core_okD(7) [OF ok] by (simp only: bl) blast
  moreover have "\<forall>(m, j) \<in> blocks ?b. bd_info ?b ! m = of_nat j"
  proof clarify
    fix m j assume mj: "(m, j) \<in> blocks ?b"
    then have "m \<noteq> n" using starts by blast
    with mj show "bd_info ?b ! m = of_nat j" using core_okD(8) [OF ok] by (auto simp: bl)
  qed
  moreover have "\<forall>i < bd_total ?b. (\<forall>j. (i, j) \<notin> blocks ?b) \<longrightarrow> bd_info ?b ! i = INFO_ALLOCATED"
  proof clarify
    fix i assume i: "i < bd_total ?b" "\<forall>j. (i, j) \<notin> blocks ?b"
    then show "bd_info ?b ! i = INFO_ALLOCATED"
      using core_okD(9) [OF ok, of i] core_okD(2) [OF ok] by (cases "i = n") (auto simp: bl)
  qed
  moreover have "\<forall>i \<in> free_frames ?b. bd_ref ?b ! i = 0"
    using core_okD(10) [OF ok] by (auto simp: free)
  moreover have "\<forall>j. zoned j (free_blocks ?b j)"
    using core_okD(11) [OF ok] zoned_remove1 by (auto simp: cont)
  ultimately show "core_ok ?b"
    using lists core_okD(2,3,4,6) [OF ok] by (simp add: core_ok_def bl)
  show "loose (n, k) ?b"
    using none core_okD(6) [OF ok block] core_okD(10) [OF ok] all unfolding loose_def by auto
qed

section \<open>Reference counts and the counter\<close>

lemma free_blocks_info [simp]: "free_blocks (b\<lparr>bd_ref := r\<rparr>) = free_blocks b" "free_blocks (b\<lparr>bd_free := f\<rparr>) = free_blocks b"
  by (auto simp: free_blocks_def get_list_def fun_eq_iff)

lemma blocks_info [simp]:
  "blocks (b\<lparr>bd_ref := r\<rparr>) = blocks b" "blocks (b\<lparr>bd_free := f\<rparr>) = blocks b"
  "free_frames (b\<lparr>bd_ref := r\<rparr>) = free_frames b" "free_frames (b\<lparr>bd_free := f\<rparr>) = free_frames b"
  by (simp_all add: blocks_def free_frames_def)

lemma lists_info [simp]: "lists_ok (b\<lparr>bd_ref := r\<rparr>) = lists_ok b" "lists_ok (b\<lparr>bd_free := f\<rparr>) = lists_ok b"
  by (simp_all add: lists_ok_def get_list_def)

lemma core_free [simp]: "core_ok (b\<lparr>bd_free := f\<rparr>) = core_ok b"
  by (simp add: core_ok_def)

lemma core_ref:
  "core_ok b \<Longrightarrow> length r = bd_total b \<Longrightarrow> (\<And>i. i \<in> free_frames b \<Longrightarrow> r ! i = 0) \<Longrightarrow> core_ok (b\<lparr>bd_ref := r\<rparr>)"
  by (simp add: core_ok_def)

lemma set_refs_eq:
  "\<exists>r. set_refs base n v b = b\<lparr>bd_ref := r\<rparr> \<and> length r = length (bd_ref b)
    \<and> (\<forall>i < length (bd_ref b). r ! i = (if base \<le> i \<and> i < base + n then v else bd_ref b ! i))"
proof (induction n)
  case 0
  then show ?case by (intro exI [of _ "bd_ref b"]) (auto simp: set_refs_def)
next
  case (Suc n)
  then obtain r where r: "set_refs base n v b = b\<lparr>bd_ref := r\<rparr>" "length r = length (bd_ref b)"
    "\<forall>i < length (bd_ref b). r ! i = (if base \<le> i \<and> i < base + n then v else bd_ref b ! i)" by blast
  have "set_refs base (Suc n) v b = b\<lparr>bd_ref := r[base + n := v]\<rparr>"
    using r(1) by (simp add: set_refs_def set_refcount_def)
  then show ?case
    using r by (intro exI [of _ "r[base + n := v]"]) (auto simp: less_Suc_eq)
qed

lemma drop_refs_eq:
  "\<exists>r. drop_refs base n b = b\<lparr>bd_ref := r\<rparr> \<and> length r = length (bd_ref b)
    \<and> (\<forall>i < length (bd_ref b). r ! i = (if base \<le> i \<and> i < base + n then sat_dec16 (bd_ref b ! i) else bd_ref b ! i))"
proof (induction n)
  case 0
  then show ?case by (intro exI [of _ "bd_ref b"]) (auto simp: drop_refs_def)
next
  case (Suc n)
  then obtain r where r: "drop_refs base n b = b\<lparr>bd_ref := r\<rparr>" "length r = length (bd_ref b)"
    "\<forall>i < length (bd_ref b). r ! i = (if base \<le> i \<and> i < base + n then sat_dec16 (bd_ref b ! i) else bd_ref b ! i)"
    by blast
  have "drop_refs base (Suc n) b = b\<lparr>bd_ref := r[base + n := sat_dec16 (r ! (base + n))]\<rparr>"
    using r(1) by (simp add: drop_refs_def set_refcount_def get_refcount_def)
  then show ?case
    using r by (intro exI [of _ "r[base + n := sat_dec16 (r ! (base + n))]"]) (auto simp: less_Suc_eq)
qed

end
