(* ===== verification/FrameOps.thy ===== *)
theory FrameOps imports FrameState begin

text \<open>
  What the allocations, the frees and the filling of the lists do to the free blocks and the free
  frames (\<^verbatim>\<open>alloc_inner\<close>, \<^verbatim>\<open>alloc_inner_constrained\<close>, \<^verbatim>\<open>free_inner\<close>, \<^verbatim>\<open>add_free_range\<close> of
  \<^verbatim>\<open>kernel/src/mm/frame.rs\<close>), each keeping the invariant.
\<close>

section \<open>Allocation\<close>

lemma find_from_Some:
  assumes "find P [k..<m] = Some s"
  shows "k \<le> s \<and> s < m \<and> P s \<and> (\<forall>j. k \<le> j \<and> j < s \<longrightarrow> \<not> P j)"
proof -
  obtain i where i: "i < m - k" "P (k + i)" "s = k + i" "\<forall>j < i. \<not> P (k + j)"
    using assms by (auto simp: find_Some_iff)
  have "\<not> P j" if "k \<le> j" "j < s" for j
    using i(3) i(4) [rule_format, of "j - k"] that by simp
  with i show ?thesis by simp
qed

lemma split_ok:
  assumes "core_ok b" and "loose (n, s) b" and "k \<le> s"
  shows "core_ok (split_down (frame_addr n) k s b) \<and> loose (n, k) (split_down (frame_addr n) k s b)
    \<and> blocks (split_down (frame_addr n) k s b) = blocks b \<union> {(n + 2 ^ j, j) | j. k \<le> j \<and> j < s}
    \<and> free_frames (split_down (frame_addr n) k s b) = free_frames b \<union> (span (n, s) - span (n, k))
    \<and> bd_ref (split_down (frame_addr n) k s b) = bd_ref b
    \<and> bd_total (split_down (frame_addr n) k s b) = bd_total b \<and> bd_free (split_down (frame_addr n) k s b) = bd_free b"
  using assms
proof (induction s arbitrary: b)
  case 0
  then show ?case by (simp add: split_down.simps)
next
  case (Suc s)
  show ?case
  proof (cases "k = Suc s")
    case True
    with Suc.prems show ?thesis by (auto simp: split_down.simps)
  next
    case False
    with Suc.prems have le: "k \<le> s" by simp
    let ?b = "push_free (frame_addr (n + 2 ^ s)) s b"
    have step: "split_down (frame_addr n) k (Suc s) b = split_down (frame_addr n) k s ?b"
      using le by (subst split_down.simps) simp
    have halves: "loose (n + 2 ^ s, s) b" "good (bd_total b) (n, s)"
      using Suc.prems(2) span_split(1) [of n s] by (auto simp: loose_def good_halves)
    note push = push_ok [OF Suc.prems(1) halves(1)]
    have "loose (n, s) ?b"
      using Suc.prems(2) halves(2) span_split [of n s] by (auto simp: loose_def push(3))
    note IH = Suc.IH [OF push(1) this le]
    have "span (n, k) \<subseteq> span (n, s)" using le by (rule span_mono)
    then have "span (n + 2 ^ s, s) \<union> (span (n, s) - span (n, k)) = span (n, Suc s) - span (n, k)"
      using span_split [of n s] by blast
    moreover have "{(n + 2 ^ j, j) | j. k \<le> j \<and> j < Suc s} = insert (n + 2 ^ s, s) {(n + 2 ^ j, j) | j. k \<le> j \<and> j < s}"
      using le by (auto simp: less_Suc_eq)
    ultimately show ?thesis using IH push by (auto simp: step simp del: span.simps)
  qed
qed

lemma carve_ok:
  assumes "core_ok b" and "loose (n, s) b" and "k \<le> s"
  shows "core_ok (carve (frame_addr n) k s b)"
    and "blocks (carve (frame_addr n) k s b) = blocks b \<union> {(n + 2 ^ j, j) | j. k \<le> j \<and> j < s}"
    and "free_frames (carve (frame_addr n) k s b) = free_frames b \<union> (span (n, s) - span (n, k))"
    and "i < bd_total b \<Longrightarrow> bd_ref (carve (frame_addr n) k s b) ! i = (if i \<in> span (n, k) then 1 else bd_ref b ! i)"
    and "bd_total (carve (frame_addr n) k s b) = bd_total b"
    and "bd_free (carve (frame_addr n) k s b) = bd_free b - 2 ^ k"
proof -
  let ?b = "split_down (frame_addr n) k s b"
  note split = split_ok [OF assms]
  obtain r where r: "carve (frame_addr n) k s b = ?b\<lparr>bd_free := bd_free b - 2 ^ k, bd_ref := r\<rparr>"
    "length r = bd_total b" "\<forall>i < bd_total b. r ! i = (if i \<in> span (n, k) then 1 else bd_ref b ! i)"
    using set_refs_eq [of n "2 ^ k" 1 "?b\<lparr>bd_free := bd_free b - 2 ^ k\<rparr>"] split core_okD(3) [OF assms(1)]
    by (auto simp: carve_def Let_def)
  have "core_ok ((?b\<lparr>bd_free := bd_free b - 2 ^ k\<rparr>)\<lparr>bd_ref := r\<rparr>)"
  proof (rule core_ref)
    fix i assume i: "i \<in> free_frames (?b\<lparr>bd_free := bd_free b - 2 ^ k\<rparr>)"
    then have "i \<notin> span (n, k)" using split by (auto simp: loose_def)
    moreover have "bd_ref b ! i = 0" using i split core_okD(10) [of ?b i] by simp
    moreover have "i < bd_total b" using i split free_in_range [of ?b i] by simp
    ultimately show "r ! i = 0" using r(3) by simp
  qed (use split r in simp_all)
  then show "core_ok (carve (frame_addr n) k s b)" by (simp add: r(1))
  show "blocks (carve (frame_addr n) k s b) = blocks b \<union> {(n + 2 ^ j, j) | j. k \<le> j \<and> j < s}"
    "free_frames (carve (frame_addr n) k s b) = free_frames b \<union> (span (n, s) - span (n, k))"
    "bd_total (carve (frame_addr n) k s b) = bd_total b" "bd_free (carve (frame_addr n) k s b) = bd_free b - 2 ^ k"
    "i < bd_total b \<Longrightarrow> bd_ref (carve (frame_addr n) k s b) ! i = (if i \<in> span (n, k) then 1 else bd_ref b ! i)"
    using split r by simp_all
qed

text \<open>A free block taken off its list and carved.\<close>

definition taken :: "block \<Rightarrow> nat \<Rightarrow> buddy \<Rightarrow> buddy" where
  "taken x k b = carve (frame_addr (fst x)) k (snd x) (remove_free (frame_addr (fst x)) (snd x) b)"

lemma taken_ok:
  assumes ok: "buddy_ok b" and block: "(n, s) \<in> blocks b" and le: "k \<le> s"
  shows "buddy_ok (taken (n, s) k b)"
    and "blocks (taken (n, s) k b) = blocks b - {(n, s)} \<union> {(n + 2 ^ j, j) | j. k \<le> j \<and> j < s}"
    and "free_frames (taken (n, s) k b) = free_frames b - span (n, k)"
    and "span (n, k) \<subseteq> free_frames b" and "good (bd_total b) (n, k)"
    and "i < bd_total b \<Longrightarrow> bd_ref (taken (n, s) k b) ! i = (if i \<in> span (n, k) then 1 else bd_ref b ! i)"
    and "bd_total (taken (n, s) k b) = bd_total b"
proof -
  have core: "core_ok b" using ok by (simp add: buddy_ok_def)
  let ?b = "remove_free (frame_addr n) s b"
  note rem = remove_ok [OF core block]
  note carve = carve_ok [OF rem(1,4) le, folded taken_def [of "(n, s)", simplified]]
  have mono: "span (n, k) \<subseteq> span (n, s)" using le by (rule span_mono)
  have "span (n, s) \<subseteq> free_frames b" using block unfolding free_frames_def by blast
  with mono show sub: "span (n, k) \<subseteq> free_frames b" by blast
  show free: "free_frames (taken (n, s) k b) = free_frames b - span (n, k)"
    using carve(3) rem(3) mono \<open>span (n, s) \<subseteq> free_frames b\<close> by blast
  have "card (free_frames b - span (n, k)) = card (free_frames b) - 2 ^ k"
    using sub card_Diff_subset [of "span (n, k)" "free_frames b"] by simp
  then show "buddy_ok (taken (n, s) k b)"
    using carve(1,6) ok by (simp add: buddy_ok_def free)
  show "blocks (taken (n, s) k b) = blocks b - {(n, s)} \<union> {(n + 2 ^ j, j) | j. k \<le> j \<and> j < s}"
    using carve(2) rem(2) by simp
  show "bd_total (taken (n, s) k b) = bd_total b" using carve(5) by simp
  show "i < bd_total b \<Longrightarrow> bd_ref (taken (n, s) k b) ! i = (if i \<in> span (n, k) then 1 else bd_ref b ! i)"
    using carve(4) by simp
  have "2 ^ k dvd (2 :: nat) ^ s" "n + 2 ^ k \<le> n + 2 ^ s" using le by (simp_all add: le_imp_power_dvd)
  then show "good (bd_total b) (n, k)"
    using core_okD(6) [OF core block] le le_trans [of "n + 2 ^ k" "n + 2 ^ s" "bd_total b"]
    by (auto simp: good_def intro: dvd_trans)
qed

lemma list_head:
  assumes "core_ok b" and "k \<le> MAX_ORDER"
  shows "fl_head (get_list b k) = first (free_blocks b k) 0"
    and "fl_head (get_list b k) = 0 \<longleftrightarrow> free_blocks b k = []"
    and "fl_head (get_list b k) \<noteq> 0 \<Longrightarrow> fl_head (get_list b k) \<in> set (free_blocks b k)"
  using lists_rep [OF core_okD(1) [OF assms(1)] assms(2)] first_in [of "free_blocks b k"]
  by (auto simp: list_rep_def)

lemma head_block:
  assumes "core_ok b" and "k \<le> MAX_ORDER" and "fl_head (get_list b k) \<noteq> 0"
  obtains n where "fl_head (get_list b k) = frame_addr n" and "(n, k) \<in> blocks b"
  using that list_head(3) [OF assms] core_okD(5) [OF assms(1)] aligned_addr free_blocks_aligned [OF assms(1)] by metis

text \<open>An allocation fails when no block is big enough, or takes one; from the DMA zone only if it must.\<close>

definition low_block :: "block \<Rightarrow> bool" where
  "low_block x \<longleftrightarrow> in_dma_zone (frame_addr (fst x)) (snd x)"

lemma alloc_cases:
  assumes ok: "core_ok b" and k: "k \<le> MAX_ORDER"
  obtains (none) "\<forall>(n, s) \<in> blocks b. s < k" and "alloc_inner k b = (b, Err OutOfMemory)"
  | (some) n s where "(n, s) \<in> blocks b" and "k \<le> s"
      and "alloc_inner k b = (taken (n, s) k b, Ok (frame_addr n))"
      and "low_block (n, s) \<longrightarrow> (\<forall>x \<in> blocks b. k \<le> snd x \<longrightarrow> low_block x)"
      and "\<not> low_block (n, s) \<longrightarrow> (\<forall>x \<in> blocks b. k \<le> snd x \<and> \<not> low_block x \<longrightarrow> s \<le> snd x)"
proof -
  let ?head = "\<lambda>j. fl_head (get_list b j)"
  let ?high = "\<lambda>j. ?head j \<noteq> 0 \<and> \<not> in_dma_zone (?head j) j"
  let ?js = "[k..<MAX_ORDER + 1]"
  have low: "low_block (m, j)" if "(m, j) \<in> blocks b" "\<not> ?high j" for m j
  proof -
    have m: "frame_addr m \<in> set (free_blocks b j)" using that(1) by (simp add: blocks_def)
    then obtain a xs where xs: "free_blocks b j = a # xs" by (cases "free_blocks b j") auto
    have j: "j \<le> MAX_ORDER" using order_le [OF ok that(1)] .
    have "?head j = a" using list_head(1) [OF ok j] xs by simp
    moreover have "a \<noteq> 0" using list_head(2) [OF ok j] xs \<open>?head j = a\<close> by simp
    ultimately have "in_dma_zone a j" using that(2) by simp
    then show ?thesis
      using core_okD(11) [OF ok, of j] m xs by (auto simp: zoned_def low_block_def)
  qed
  have take: "alloc_inner k b = (taken (n, s) k b, Ok (frame_addr n))"
    if "(case find ?high ?js of Some j \<Rightarrow> Some j | None \<Rightarrow> find (\<lambda>j. ?head j \<noteq> 0) ?js) = Some s"
      "?head s = frame_addr n" "?head s \<noteq> 0" for n s
    using that k by (simp add: alloc_inner_def pop_free_def taken_def Let_def)
  show thesis
  proof (cases "find ?high ?js")
    case (Some s)
    from find_from_Some [OF Some] have s: "k \<le> s" "s \<le> MAX_ORDER" "?high s"
      and first: "\<And>j. k \<le> j \<Longrightarrow> j < s \<Longrightarrow> \<not> ?high j" by simp_all
    obtain n where n: "?head s = frame_addr n" "(n, s) \<in> blocks b" using head_block [OF ok s(2)] s(3) by metis
    show thesis
    proof (rule some [OF n(2) s(1) take])
      show "low_block (n, s) \<longrightarrow> (\<forall>x \<in> blocks b. k \<le> snd x \<longrightarrow> low_block x)"
        using s(3) n(1) by (simp add: low_block_def)
      show "\<not> low_block (n, s) \<longrightarrow> (\<forall>x \<in> blocks b. k \<le> snd x \<and> \<not> low_block x \<longrightarrow> s \<le> snd x)"
        using first low by (metis linorder_not_less prod.collapse)
    qed (use Some n s in auto)
  next
    case None
    then have all: "\<And>j. k \<le> j \<Longrightarrow> j \<le> MAX_ORDER \<Longrightarrow> \<not> ?high j" by (auto simp: find_None_iff)
    then have zone: "\<forall>x \<in> blocks b. k \<le> snd x \<longrightarrow> low_block x"
      using low order_le [OF ok] by (metis prod.collapse)
    show thesis
    proof (cases "find (\<lambda>j. ?head j \<noteq> 0) ?js")
      case bare: None
      then have empty: "\<And>j. k \<le> j \<Longrightarrow> j \<le> MAX_ORDER \<Longrightarrow> free_blocks b j = []"
        using list_head(2) [OF ok] by (auto simp: find_None_iff)
      have "\<forall>(n, s) \<in> blocks b. s < k"
      proof clarify
        fix n s assume x: "(n, s) \<in> blocks b"
        then have "free_blocks b s \<noteq> []" by (auto simp: blocks_def)
        with empty [of s] order_le [OF ok x] show "s < k" by (cases "k \<le> s") auto
      qed
      moreover have "alloc_inner k b = (b, Err OutOfMemory)"
        using k None bare by (simp add: alloc_inner_def Let_def del: upt_Suc)
      ultimately show thesis by (rule none)
    next
      case (Some s)
      from find_from_Some [OF Some] have s: "k \<le> s" "s \<le> MAX_ORDER" "?head s \<noteq> 0" by simp_all
      obtain n where n: "?head s = frame_addr n" "(n, s) \<in> blocks b" using head_block [OF ok s(2,3)] by metis
      show thesis
        by (rule some [OF n(2) s(1) take]) (use Some None n s zone in \<open>auto simp: low_block_def\<close>)
    qed
  qed
qed

text \<open>The walk of a list returns: it is a search of the list's free_blocks.\<close>

lemma walk_below_seg: "seg m p xs 0 \<Longrightarrow> 0 \<notin> set xs \<Longrightarrow> walk_below m fits (first xs 0) = Some (find fits xs)"
proof (induction xs arbitrary: p)
  case Nil
  then show ?case by (simp add: walk_below.simps)
next
  case (Cons a xs)
  then show ?case by (subst walk_below.simps) auto
qed

lemma walk_below_list:
  "core_ok b \<Longrightarrow> k \<le> MAX_ORDER \<Longrightarrow> walk_below (bd_nodes b) fits (fl_head (get_list b k)) = Some (find fits (free_blocks b k))"
  using lists_rep [OF core_okD(1), of b k] by (auto simp: list_rep_def dest: walk_below_seg)

lemma scan_below_cases:
  assumes "core_ok b" and "\<forall>j \<in> set js. j \<le> MAX_ORDER"
  obtains (none) "scan_below fits js b = Some None" and "\<forall>j \<in> set js. \<forall>a \<in> set (free_blocks b j). \<not> fits a"
  | (some) a j where "scan_below fits js b = Some (Some (a, j))" and "j \<in> set js" and "a \<in> set (free_blocks b j)" and "fits a"
  using assms(2)
proof (induction js arbitrary: thesis)
  case Nil
  then show thesis by simp
next
  case (Cons j js)
  show thesis
  proof (cases "find fits (free_blocks b j)")
    case None
    then have "scan_below fits (j # js) b = scan_below fits js b"
      using walk_below_list [OF assms(1), of j] Cons.prems(3) by simp
    moreover have "\<forall>a \<in> set (free_blocks b j). \<not> fits a" using None by (simp add: find_None_iff)
    ultimately show thesis using Cons by (metis list.set_intros(2) set_ConsD list.set_intros(1))
  next
    case (Some a)
    then have "scan_below fits (j # js) b = Some (Some (a, j))"
      using walk_below_list [OF assms(1), of j] Cons.prems(3) by simp
    moreover have "a \<in> set (free_blocks b j)" "fits a" using Some by (auto simp: find_Some_iff)
    ultimately show thesis using Cons.prems(2) by simp
  qed
qed

lemma constrained_cases:
  assumes ok: "core_ok b" and k: "k \<le> MAX_ORDER"
  obtains (none) "\<forall>(n, s) \<in> blocks b. k \<le> s \<longrightarrow> \<not> fits_below (FRAME_SIZE * 2 ^ k) mx (frame_addr n)"
      and "alloc_inner_constrained k mx b = Some (b, Err OutOfMemory)"
  | (some) n s where "(n, s) \<in> blocks b" and "k \<le> s" and "fits_below (FRAME_SIZE * 2 ^ k) mx (frame_addr n)"
      and "alloc_inner_constrained k mx b = Some (taken (n, s) k b, Ok (frame_addr n))"
proof -
  let ?fits = "fits_below (FRAME_SIZE * 2 ^ k) mx" and ?js = "[k..<MAX_ORDER + 1]"
  have js: "\<forall>j \<in> set ?js. j \<le> MAX_ORDER" by auto
  show thesis
  proof (cases rule: scan_below_cases [OF ok js, of ?fits])
    case bare: 1
    then have "\<forall>(n, s) \<in> blocks b. k \<le> s \<longrightarrow> \<not> ?fits (frame_addr n)"
      using order_le [OF ok] by (fastforce simp: blocks_def)
    then show thesis
      by (rule none) (use bare k in \<open>simp add: alloc_inner_constrained_def del: upt_Suc\<close>)
  next
    case (2 a s)
    then obtain n where n: "a = frame_addr n" "(n, s) \<in> blocks b"
      using core_okD(5) [OF ok] aligned_addr free_blocks_aligned [OF ok] by metis
    show thesis
      by (rule some [OF n(2)]) (use 2 n k in \<open>auto simp: alloc_inner_constrained_def taken_def simp del: upt_Suc\<close>)
  qed
qed

section \<open>Freeing\<close>

definition settled :: "buddy \<Rightarrow> bool" where
  "settled b \<longleftrightarrow> (\<forall>(n, k) \<in> blocks b. k < MAX_ORDER \<longrightarrow> (n XOR 2 ^ k, k) \<notin> blocks b)"

text \<open>The merging loop: the loose block grows by whole free buddies, and stops where there is none.\<close>

lemma coalesce_ok:
  assumes "core_ok b" and "loose (n, k) b"
  shows "\<exists>b' m j. coalesce (frame_addr n) k b = (b', frame_addr m, j) \<and> core_ok b' \<and> loose (m, j) b'
    \<and> blocks b' \<subseteq> blocks b \<and> free_frames b' \<union> span (m, j) = free_frames b \<union> span (n, k)
    \<and> bd_ref b' = bd_ref b \<and> bd_total b' = bd_total b \<and> bd_free b' = bd_free b
    \<and> (j < MAX_ORDER \<longrightarrow> (m XOR 2 ^ j, j) \<notin> blocks b')"
  using assms
proof (induction "MAX_ORDER - k" arbitrary: n k b)
  case 0
  then have "MAX_ORDER \<le> k" "k \<le> MAX_ORDER" by (auto simp: loose_def good_def)
  with 0 show ?case by (auto simp: coalesce.simps)
next
  case (Suc d)
  then have lt: "k < MAX_ORDER" by simp
  let ?m = "n XOR 2 ^ k"
  have g: "good (bd_total b) (n, k)" using Suc.prems(2) by (simp add: loose_def)
  have stop: "coalesce (frame_addr n) k b = (b, frame_addr n, k)" if "(?m, k) \<notin> blocks b"
  proof (cases "bd_total b \<le> ?m")
    case True
    with lt show ?thesis by (simp add: coalesce.simps [of "frame_addr n"] buddy_addr)
  next
    case False
    with that have "get_info b ?m \<noteq> of_nat k"
      using info_free(1) [OF Suc.prems(1), of ?m k] lt by simp
    with False lt show ?thesis by (simp add: coalesce.simps [of "frame_addr n"] buddy_addr)
  qed
  show ?case
  proof (cases "(?m, k) \<in> blocks b")
    case False
    with stop Suc.prems show ?thesis by auto
  next
    case True
    have gm: "good (bd_total b) (?m, k)" using core_okD(6) [OF Suc.prems(1) True] .
    then have "?m < bd_total b" by (auto simp: good_def intro!: less_le_trans [of ?m "?m + 2 ^ k" "bd_total b"])
    moreover have "get_info b ?m = of_nat k"
      using info_free(1) [OF Suc.prems(1) calculation, of k] True lt by simp
    ultimately have step: "coalesce (frame_addr n) k b
        = coalesce (frame_addr (min n ?m)) (Suc k) (remove_free (frame_addr ?m) k b)"
      using lt by (simp add: coalesce.simps [of "frame_addr n" k] buddy_addr Let_def)
    let ?b = "remove_free (frame_addr ?m) k b"
    note rem = remove_ok [OF Suc.prems(1) True]
    note m = merge [OF g gm lt]
    have sub: "span (?m, k) \<subseteq> free_frames b" using True unfolding free_frames_def by blast
    have merged: "loose (min n ?m, Suc k) ?b"
      using Suc.prems(2) rem(4) m by (auto simp: loose_def rem(3) simp del: span.simps)
    have "d = MAX_ORDER - Suc k" using Suc.hyps(2) by simp
    from Suc.hyps(1) [OF this rem(1) merged] obtain b' q j where IH: "coalesce (frame_addr (min n ?m)) (Suc k) ?b = (b', frame_addr q, j)"
      "core_ok b'" "loose (q, j) b'" "blocks b' \<subseteq> blocks ?b"
      "free_frames b' \<union> span (q, j) = free_frames ?b \<union> span (min n ?m, Suc k)"
      "bd_ref b' = bd_ref ?b" "bd_total b' = bd_total ?b" "bd_free b' = bd_free ?b"
      "j < MAX_ORDER \<longrightarrow> (q XOR 2 ^ j, j) \<notin> blocks b'"
      by (elim exE conjE) (rule that, assumption+)
    have "free_frames ?b \<union> span (min n ?m, Suc k) = free_frames b \<union> span (n, k)"
      unfolding m(2) rem(3) using sub by blast
    then have "free_frames b' \<union> span (q, j) = free_frames b \<union> span (n, k)" using IH(5) by blast
    moreover have "blocks b' \<subseteq> blocks b" using IH(4) rem(2) by blast
    moreover have "bd_ref b' = bd_ref b" "bd_total b' = bd_total b" "bd_free b' = bd_free b" using IH(6-8) by simp_all
    ultimately show ?thesis
      unfolding step using IH(1-3,9) by (intro exI [of _ b'] exI [of _ q] exI [of _ j] conjI)
  qed
qed

text \<open>Of a block in use: shared, it loses a reference; else its frames become free.\<close>

lemma free_shared:
  assumes ok: "buddy_ok b" and x: "good (bd_total b) (n, k)" "span (n, k) \<inter> free_frames b = {}"
    and shared: "1 < bd_ref b ! n"
  obtains b' where "free_inner (frame_addr n) k b = (b', Ok ())" and "buddy_ok b'" and "blocks b' = blocks b"
    and "free_frames b' = free_frames b" and "bd_total b' = bd_total b"
    and "\<And>i. i < bd_total b \<Longrightarrow> bd_ref b' ! i = (if i \<in> span (n, k) then sat_dec16 (bd_ref b ! i) else bd_ref b ! i)"
proof -
  have core: "core_ok b" using ok by (simp add: buddy_ok_def)
  have n: "k \<le> MAX_ORDER" "n < bd_total b"
    using x(1) by (auto simp: good_def intro!: less_le_trans [of n "n + 2 ^ k" "bd_total b"])
  have "(n, j) \<notin> blocks b" for j
    using x(2) span_start [of n k] span_start [of n j] unfolding free_frames_def by blast
  then have "get_info b n = INFO_ALLOCATED" using info_free(2) [OF core n(2,1)] by blast
  then have run: "free_inner (frame_addr n) k b = (drop_refs n (2 ^ k) b, Ok ())"
    using n shared by (simp add: free_inner_def get_refcount_def)
  obtain r where r: "drop_refs n (2 ^ k) b = b\<lparr>bd_ref := r\<rparr>" "length r = bd_total b"
    "\<forall>i < bd_total b. r ! i = (if i \<in> span (n, k) then sat_dec16 (bd_ref b ! i) else bd_ref b ! i)"
    using drop_refs_eq [of n "2 ^ k" b] core_okD(3) [OF core] by auto
  have "core_ok (b\<lparr>bd_ref := r\<rparr>)"
  proof (rule core_ref [OF core r(2)])
    fix i assume i: "i \<in> free_frames b"
    then have "i \<notin> span (n, k)" using x(2) by blast
    then show "r ! i = 0"
      using r(3) core_okD(10) [OF core i] free_in_range [OF core i] by (simp del: span.simps)
  qed
  then show thesis using r ok run by (intro that [of "b\<lparr>bd_ref := r\<rparr>"]) (simp_all add: buddy_ok_def)
qed

lemma settled_insert:
  assumes "settled b" and "blocks b' = insert (m, j) B" and "B \<subseteq> blocks b"
    and "j < MAX_ORDER \<longrightarrow> (m XOR 2 ^ j, j) \<notin> B"
  shows "settled b'"
proof -
  have twice: "(n XOR 2 ^ k) XOR 2 ^ k = n" for n k :: nat by (simp add: xor.assoc)
  have self: "n XOR 2 ^ k \<noteq> n" for n k :: nat
  proof
    assume "n XOR 2 ^ k = n"
    then have "n XOR (n XOR 2 ^ k) = n XOR n" by simp
    then show False by (simp flip: xor.assoc)
  qed
  show ?thesis
    unfolding settled_def
  proof clarify
    fix n k assume x: "(n, k) \<in> blocks b'" "k < MAX_ORDER" "(n XOR 2 ^ k, k) \<in> blocks b'"
    consider "(n, k) = (m, j)" "(n XOR 2 ^ k, k) \<in> B" | "(n, k) \<in> B" "(n XOR 2 ^ k, k) = (m, j)"
      | "(n, k) \<in> B" "(n XOR 2 ^ k, k) \<in> B"
      using x self [of n k] assms(2) by auto
    then show False
    proof cases
      case 1
      then show False using assms(4) x(2) by simp
    next
      case 2
      then have "m XOR 2 ^ j = n" using twice [of n k] by auto
      with 2 show False using assms(4) x(2) by auto
    next
      case 3
      then show False using assms(1,3) x(2) by (auto simp: settled_def)
    qed
  qed
qed

lemma free_last:
  assumes ok: "buddy_ok b" and x: "good (bd_total b) (n, k)" "span (n, k) \<inter> free_frames b = {}"
    and sole: "\<not> 1 < bd_ref b ! n"
  obtains b' where "free_inner (frame_addr n) k b = (b', Ok ())" and "buddy_ok b'"
    and "free_frames b' = free_frames b \<union> span (n, k)" and "bd_total b' = bd_total b"
    and "\<And>i. i < bd_total b \<Longrightarrow> bd_ref b' ! i = (if i \<in> span (n, k) then 0 else bd_ref b ! i)"
    and "settled b \<Longrightarrow> settled b'"
proof -
  have core: "core_ok b" using ok by (simp add: buddy_ok_def)
  have n: "k \<le> MAX_ORDER" "n < bd_total b"
    using x(1) by (auto simp: good_def intro!: less_le_trans [of n "n + 2 ^ k" "bd_total b"])
  have "(n, j) \<notin> blocks b" for j
    using x(2) span_start [of n k] span_start [of n j] unfolding free_frames_def by blast
  then have info: "get_info b n = INFO_ALLOCATED" using info_free(2) [OF core n(2,1)] by blast
  obtain r where r: "set_refs n (2 ^ k) 0 b = b\<lparr>bd_ref := r\<rparr>" "length r = bd_total b"
    "\<forall>i < bd_total b. r ! i = (if i \<in> span (n, k) then 0 else bd_ref b ! i)"
    using set_refs_eq [of n "2 ^ k" 0 b] core_okD(3) [OF core] by auto
  have core1: "core_ok (b\<lparr>bd_ref := r\<rparr>)"
  proof (rule core_ref [OF core r(2)])
    fix i assume i: "i \<in> free_frames b"
    then show "r ! i = 0" using r(3) core_okD(10) [OF core i] free_in_range [OF core i] by simp
  qed
  have "span (n, k) \<subseteq> {..<bd_total b}" using x(1) by (auto simp: good_def)
  then have "loose (n, k) (b\<lparr>bd_ref := r\<rparr>)" using x r(3) by (auto simp: loose_def)
  from coalesce_ok [OF core1 this] obtain c m j where c: "coalesce (frame_addr n) k (b\<lparr>bd_ref := r\<rparr>) = (c, frame_addr m, j)"
    "core_ok c" "loose (m, j) c" "blocks c \<subseteq> blocks b" "free_frames c \<union> span (m, j) = free_frames b \<union> span (n, k)"
    "bd_ref c = r" "bd_total c = bd_total b" "bd_free c = bd_free b" "j < MAX_ORDER \<longrightarrow> (m XOR 2 ^ j, j) \<notin> blocks c"
    by auto
  let ?b = "(push_free (frame_addr m) j c)\<lparr>bd_free := sat_add64 (bd_free b) (2 ^ k)\<rparr>"
  note push = push_ok [OF c(2,3)]
  have run: "free_inner (frame_addr n) k b = (?b, Ok ())"
    using n info sole r(1) c by (simp add: free_inner_def get_refcount_def Let_def)
  have free: "free_frames ?b = free_frames b \<union> span (n, k)" using push(3) c(5) by simp
  have card: "card (free_frames b \<union> span (n, k)) = card (free_frames b) + 2 ^ k"
    using card_Un_disjoint [OF finite_free [OF core], of "span (n, k)"] x(2) by (simp add: Int_commute)
  have "card (free_frames b \<union> span (n, k)) \<le> bd_total b"
    using card_mono [of "{..<bd_total b}" "free_frames b \<union> span (n, k)"] free_in_range [OF core]
      \<open>span (n, k) \<subseteq> {..<bd_total b}\<close> by auto
  then have "sat_add64 (bd_free b) (2 ^ k) = card (free_frames b \<union> span (n, k))"
    using ok card core_okD(4) [OF core] by (intro trans [OF sat_add64_exact]) (simp_all add: buddy_ok_def u64_max_def)
  then have "buddy_ok ?b" using push(1) free by (simp add: buddy_ok_def)
  moreover have "settled ?b" if "settled b"
    using settled_insert [OF that, of ?b m j "blocks c"] push(2) c(4,9) by simp
  ultimately show thesis using that [OF run] free c r push by simp
qed

lemma taken_settled:
  assumes ok: "buddy_ok b" and block: "(n, s) \<in> blocks b" and le: "k \<le> s" and "settled b"
  shows "settled (taken (n, s) k b)"
  unfolding settled_def
proof clarify
  let ?b = "taken (n, s) k b"
  have core: "core_ok b" using ok by (simp add: buddy_ok_def)
  note t = taken_ok [OF ok block le]
  have n: "2 ^ s dvd n" using core_okD(6) [OF core block] by (simp add: good_def)
  have bud: "(n + 2 ^ j) XOR 2 ^ j = n" if "j < s" for j
  proof -
    have "2 ^ Suc j dvd n" using n that by (meson Suc_leI dvd_trans le_imp_power_dvd)
    then obtain q where "n = 2 ^ j * (2 * q)" by (auto simp: mult.assoc elim!: dvdE)
    then have "2 ^ j dvd n + 2 ^ j" "(n + 2 ^ j) div 2 ^ j = 2 * q + 1" by simp_all
    then show ?thesis using xor_buddy [of j "n + 2 ^ j"] by simp
  qed
  have gone: "(n, j) \<notin> blocks ?b" for j
  proof
    assume "(n, j) \<in> blocks ?b"
    then have "n \<in> free_frames ?b" using span_start [of n j] unfolding free_frames_def by blast
    then show False using t(3) span_start [of n k] by blast
  qed
  fix m j assume x: "(m, j) \<in> blocks ?b" "j < MAX_ORDER" "(m XOR 2 ^ j, j) \<in> blocks ?b"
  have upper: "(y, j) \<in> blocks b" if "(y, j) \<in> blocks ?b" "(y XOR 2 ^ j, j) \<in> blocks ?b" for y
  proof (rule ccontr)
    assume "(y, j) \<notin> blocks b"
    with that(1) have "y = n + 2 ^ j" "j < s" using t(2) by auto
    with bud that(2) gone show False by simp
  qed
  have "(m XOR 2 ^ j) XOR 2 ^ j = m" by (simp add: xor.assoc)
  with upper x have "(m, j) \<in> blocks b" "(m XOR 2 ^ j, j) \<in> blocks b" by simp_all
  with assms(4) x(2) show False by (auto simp: settled_def)
qed

section \<open>Filling the lists\<close>

lemma grow_order_fits:
  assumes "FRAME_SIZE * 2 ^ k \<le> rest" and "FRAME_SIZE * 2 ^ k dvd a" and "k \<le> MAX_ORDER"
  shows "FRAME_SIZE * 2 ^ grow_order a rest k \<le> rest \<and> FRAME_SIZE * 2 ^ grow_order a rest k dvd a
    \<and> grow_order a rest k \<le> MAX_ORDER"
  using assms
proof (induction a rest k rule: grow_order.induct)
  case (1 a rest k)
  show ?case
  proof (cases "k < MAX_ORDER \<and> FRAME_SIZE * 2 ^ (k + 1) \<le> rest \<and> FRAME_SIZE * 2 ^ (k + 1) dvd a")
    case True
    then have "grow_order a rest k = grow_order a rest (k + 1)" by (subst grow_order.simps) simp
    with 1 True show ?thesis by simp
  next
    case False
    then have "grow_order a rest k = k" by (subst grow_order.simps) (auto simp: Let_def)
    with 1 show ?thesis by simp
  qed
qed

lemma add_range_ok:
  assumes "buddy_ok b" and "0 < m" and "m \<le> e" and "e \<le> bd_total b" and "{m..<e} \<inter> free_frames b = {}"
    and "\<forall>i < bd_total b. bd_ref b ! i = 0"
  shows "buddy_ok (add_free_range (frame_addr m) (frame_addr e) b)
    \<and> free_frames (add_free_range (frame_addr m) (frame_addr e) b) = free_frames b \<union> {m..<e}
    \<and> bd_ref (add_free_range (frame_addr m) (frame_addr e) b) = bd_ref b
    \<and> bd_total (add_free_range (frame_addr m) (frame_addr e) b) = bd_total b"
  using assms
proof (induction "e - m" arbitrary: m b rule: less_induct)
  case less
  have pos: "0 < FRAME_SIZE" by (simp add: FRAME_SIZE_def)
  show ?case
  proof (cases "m < e")
    case False
    with less.prems show ?thesis by (subst (1 2 3 4) add_free_range.simps) (simp add: frame_addr_def)
  next
    case True
    define k where "k = grow_order (frame_addr m) (frame_addr e - frame_addr m) 0"
    have "FRAME_SIZE * 1 \<le> FRAME_SIZE * (e - m)" using True by (intro mult_le_mono) simp_all
    then have "FRAME_SIZE * 2 ^ 0 \<le> frame_addr e - frame_addr m"
      by (simp add: frame_addr_def diff_mult_distrib2)
    then have fit: "FRAME_SIZE * 2 ^ k \<le> FRAME_SIZE * (e - m)" "FRAME_SIZE * 2 ^ k dvd FRAME_SIZE * m" "k \<le> MAX_ORDER"
      using grow_order_fits [of 0 "frame_addr e - frame_addr m" "frame_addr m"]
      by (simp_all add: k_def frame_addr_def diff_mult_distrib2)
    then have k: "m + 2 ^ k \<le> e" "2 ^ k dvd m" using pos True by auto
    have sub: "span (m, k) \<subseteq> {m..<e}" using k(1) by auto
    let ?b = "(push_free (frame_addr m) k b)\<lparr>bd_free := sat_add64 (bd_free b) (2 ^ k)\<rparr>"
    have core: "core_ok b" using less.prems(1) by (simp add: buddy_ok_def)
    have apart: "free_frames b \<inter> span (m, k) = {}" using less.prems(5) sub by blast
    have "\<forall>i \<in> span (m, k). bd_ref b ! i = 0" using less.prems(4,6) sub by fastforce
    then have "loose (m, k) b"
      using less.prems(2,4) k fit(3) apart by (auto simp: loose_def good_def Int_commute)
    note push = push_ok [OF core this]
    have card: "card (free_frames b \<union> span (m, k)) = card (free_frames b) + 2 ^ k"
      using card_Un_disjoint [OF finite_free [OF core] _ apart] by simp
    have "free_frames b \<subseteq> {..<bd_total b}" using free_in_range [OF core] by auto
    moreover have "span (m, k) \<subseteq> {..<bd_total b}" using k(1) less.prems(4) by auto
    ultimately have "free_frames b \<union> span (m, k) \<subseteq> {..<bd_total b}" by (rule Un_least)
    then have "card (free_frames b \<union> span (m, k)) \<le> card {..<bd_total b}" by (intro card_mono) simp_all
    then have "card (free_frames b \<union> span (m, k)) \<le> bd_total b" by simp
    then have "sat_add64 (bd_free b) (2 ^ k) = card (free_frames b \<union> span (m, k))"
      using less.prems(1) card core_okD(4) [OF core]
      by (intro trans [OF sat_add64_exact]) (simp_all add: buddy_ok_def u64_max_def)
    then have ok: "buddy_ok ?b" using push(1,3) by (simp add: buddy_ok_def)
    have step: "add_free_range (frame_addr m) (frame_addr e) b = add_free_range (frame_addr (m + 2 ^ k)) (frame_addr e) ?b"
      using True pos by (subst add_free_range.simps) (simp add: k_def Let_def, simp add: frame_addr_def)
    have "{m + 2 ^ k..<e} \<inter> span (m, k) = {}" "{m + 2 ^ k..<e} \<subseteq> {m..<e}" by auto
    then have "{m + 2 ^ k..<e} \<inter> free_frames ?b = {}"
      using less.prems(5) unfolding blocks_info push(3) by blast
    moreover have "e - (m + 2 ^ k) < e - m" using True by (intro diff_less_mono2) simp_all
    ultimately have "buddy_ok (add_free_range (frame_addr (m + 2 ^ k)) (frame_addr e) ?b)
      \<and> free_frames (add_free_range (frame_addr (m + 2 ^ k)) (frame_addr e) ?b) = free_frames ?b \<union> {m + 2 ^ k..<e}
      \<and> bd_ref (add_free_range (frame_addr (m + 2 ^ k)) (frame_addr e) ?b) = bd_ref ?b
      \<and> bd_total (add_free_range (frame_addr (m + 2 ^ k)) (frame_addr e) ?b) = bd_total ?b"
      using ok less.prems k True by (intro less.hyps) auto
    moreover have "free_frames ?b \<union> {m + 2 ^ k..<e} = free_frames b \<union> {m..<e}" using push(3) k(1) by auto
    ultimately show ?thesis by (simp add: step)
  qed
qed

lemma empty_ok:
  assumes "tot \<le> 2 ^ 50"
  shows "buddy_ok (empty_buddy tot)" and "free_frames (empty_buddy tot) = {}"
proof -
  have cont: "free_blocks (empty_buddy tot) k = []" for k
    by (simp add: free_blocks_def get_list_def empty_buddy_def free_list_new_def less_Suc_eq_le [symmetric] del: replicate_Suc)
  then have bl: "blocks (empty_buddy tot) = {}" by (auto simp: blocks_def)
  then show free: "free_frames (empty_buddy tot) = {}" by (simp add: free_frames_def)
  have "lists_ok (empty_buddy tot)"
    by (auto simp: lists_ok_def cont list_rep_def get_list_def less_Suc_eq_le [symmetric] simp del: replicate_Suc)
      (simp_all add: empty_buddy_def free_list_new_def less_Suc_eq_le del: replicate_Suc)
  then show "buddy_ok (empty_buddy tot)"
    using assms by (simp add: buddy_ok_def core_ok_def bl free cont zoned_def) (simp add: empty_buddy_def)
qed

text \<open>An allocator above the DMA zone, with its last four frames free: one block of order 2.\<close>

definition small_buddy :: buddy where
  "small_buddy = add_free_range (frame_addr 1024) (frame_addr 1028) (empty_buddy 1028)"

lemma small_ok:
  shows "buddy_ok small_buddy" and "free_frames small_buddy = {1024..<1028}" and "blocks small_buddy = {(1024, 2)}"
    and "settled small_buddy" and "bd_total small_buddy = 1028"
proof -
  have "\<forall>i < 1028. bd_ref (empty_buddy 1028) ! i = 0" "bd_total (empty_buddy 1028) = 1028" by (simp_all add: empty_buddy_def)
  then show ok: "buddy_ok small_buddy" and free: "free_frames small_buddy = {1024..<1028}" and tot: "bd_total small_buddy = 1028"
    using add_range_ok [OF empty_ok(1) [of 1028], of 1024 1028] empty_ok(2) [of 1028] by (simp_all add: small_buddy_def)
  have core: "core_ok small_buddy" using ok by (simp add: buddy_ok_def)
  have "grow_order (frame_addr 1024) (frame_addr 4) 0 = 2"
    by (simp add: grow_order.simps MAX_ORDER_def frame_addr_def FRAME_SIZE_def)
  moreover have "add_free_range (frame_addr 1028) (frame_addr 1028) b = b" for b
    by (simp add: add_free_range.simps)
  moreover have "bd_free (empty_buddy 1028) = 0" by (simp add: empty_buddy_def)
  moreover have "frame_addr 1024 + FRAME_SIZE * 2 ^ 2 = frame_addr 1028" "frame_addr 1024 < frame_addr 1028"
    "frame_addr 1028 - frame_addr 1024 = frame_addr 4"
    by (simp_all add: frame_addr_def FRAME_SIZE_def)
  ultimately have small: "small_buddy = push_free (frame_addr 1024) 2 (empty_buddy 1028)\<lparr>bd_free := 4\<rparr>"
    unfolding small_buddy_def by (subst add_free_range.simps) (simp add: sat_add64_def u64_max_def)
  have "core_ok (empty_buddy 1028)" "blocks (empty_buddy 1028) = {}" "bd_total (empty_buddy 1028) = 1028"
    using empty_ok [of 1028] by (auto simp: buddy_ok_def free_frames_def empty_buddy_def)
  moreover from this have "loose (1024, 2) (empty_buddy 1028)"
    by (auto simp: loose_def good_def MAX_ORDER_def free_frames_def empty_buddy_def)
  ultimately show blocks: "blocks small_buddy = {(1024, 2)}"
    using push_ok(2) [of "empty_buddy 1028" 1024 2] by (simp add: small)
  show "settled small_buddy" by (auto simp: settled_def blocks)
qed

end
