(* ===== verification/FramePromises.thy ===== *)
theory FramePromises imports FrameOps begin

text \<open>
  What the frame allocator promises its callers over any sequence of allocations, sharings and frees:
  no frame is in two hands, none is lost, the DMA zone is kept for those who need it; and what it
  does not notice, a frame freed twice.
\<close>

section \<open>Callers and the allocator\<close>

text \<open>
  The allocator together with the references that callers hold on blocks: an allocation gives one, a
  sharing of a frame one more, a free gives one back. A caller frees what it holds, with the order it
  was allocated with, as the unsafe functions require; a frame has fewer than 2^16 - 1 holders.
\<close>

type_synonym frame_sys = "buddy \<times> block multiset"

inductive frame_step :: "frame_sys \<Rightarrow> frame_sys \<Rightarrow> bool" where
  alloc: "alloc_inner k b = (b', Ok a) \<Longrightarrow> frame_step (b, A) (b', add_mset (frame_index a, k) A)"
| alloc_fails: "alloc_inner k b = (b', Err e) \<Longrightarrow> frame_step (b, A) (b', A)"
| below: "alloc_inner_constrained k mx b = Some (b', Ok a) \<Longrightarrow> frame_step (b, A) (b', add_mset (frame_index a, k) A)"
| below_fails: "alloc_inner_constrained k mx b = Some (b', Err e) \<Longrightarrow> frame_step (b, A) (b', A)"
| free: "(n, k) \<in># A \<Longrightarrow> free_inner (frame_addr n) k b = (b', r) \<Longrightarrow> frame_step (b, A) (b', A - {#(n, k)#})"
| share: "(n, 0) \<in># A \<Longrightarrow> count A (n, 0) < 2 ^ 16 - 1 \<Longrightarrow> ref_inc (frame_addr n) b = (b', r)
    \<Longrightarrow> frame_step (b, A) (b', add_mset (n, 0) A)"
| unshare: "1 < count A (n, 0) \<Longrightarrow> ref_dec (frame_addr n) b = (b', r) \<Longrightarrow> frame_step (b, A) (b', A - {#(n, 0)#})"

definition held_frames :: "block multiset \<Rightarrow> nat set" where
  "held_frames A = (\<Union>x \<in> set_mset A. span x)"

definition owned :: "block multiset \<Rightarrow> buddy \<Rightarrow> block \<Rightarrow> bool" where
  "owned A b x \<longleftrightarrow> good (bd_total b) x \<and> span x \<inter> free_frames b = {} \<and> (\<forall>i \<in> span x. unat (bd_ref b ! i) = count A x)"

fun sys_ok :: "frame_sys \<Rightarrow> bool" where
  "sys_ok (b, A) \<longleftrightarrow> buddy_ok b \<and> (\<forall>x \<in> set_mset A. owned A b x)
     \<and> (\<forall>x \<in> set_mset A. \<forall>y \<in> set_mset A. x \<noteq> y \<longrightarrow> span x \<inter> span y = {})"

definition same_memory :: "frame_sys \<Rightarrow> frame_sys \<Rightarrow> bool" where
  "same_memory s s' \<longleftrightarrow> free_frames (fst s') \<union> held_frames (snd s') = free_frames (fst s) \<union> held_frames (snd s)"

lemma owned_in_range: "owned A b x \<Longrightarrow> i \<in> span x \<Longrightarrow> i < bd_total b"
  by (cases x) (auto simp: owned_def good_def)

text \<open>The block a caller gets: free before, referenced once, apart from every other.\<close>

lemma taken_step:
  assumes ok: "sys_ok (b, A)" and block: "(n, s) \<in> blocks b" "k \<le> s"
  shows "sys_ok (taken (n, s) k b, add_mset (n, k) A)" and "same_memory (b, A) (taken (n, s) k b, add_mset (n, k) A)"
    and "(n, k) \<notin># A"
proof -
  have b: "buddy_ok b" and A: "\<And>x. x \<in># A \<Longrightarrow> owned A b x"
    and apart: "\<And>x y. x \<in># A \<Longrightarrow> y \<in># A \<Longrightarrow> x \<noteq> y \<Longrightarrow> span x \<inter> span y = {}" using ok by auto
  note t = taken_ok [OF b block]
  let ?b = "taken (n, s) k b"
  have far: "span x \<inter> span (n, k) = {}" if "x \<in># A" for x
    using A [OF that] t(4) by (auto simp: owned_def)
  then show new: "(n, k) \<notin># A" by fastforce
  have "owned (add_mset (n, k) A) ?b x" if x: "x \<in># A" for x
  proof -
    have "bd_ref ?b ! i = bd_ref b ! i" if "i \<in> span x" for i
      using t(6) [OF owned_in_range [OF A [OF x] that]] far [OF x] that by auto
    moreover have "x \<noteq> (n, k)" using x new by blast
    ultimately show ?thesis using A [OF x] t(3,7) by (auto simp: owned_def)
  qed
  moreover have "owned (add_mset (n, k) A) ?b (n, k)"
    using t new by (auto simp: owned_def good_def not_in_iff)
  ultimately show "sys_ok (?b, add_mset (n, k) A)"
    using t(1) apart far by (auto simp: Int_commute simp del: span.simps)
  show "same_memory (b, A) (?b, add_mset (n, k) A)"
    using t(3,4) by (auto simp: same_memory_def held_frames_def simp del: span.simps)
qed

text \<open>A step that changes how often one block is referenced.\<close>

lemma recount_step:
  assumes ok: "sys_ok (b, A)" and x: "x \<in># A" and b': "buddy_ok b'" "free_frames b' = free_frames b" "bd_total b' = bd_total b"
    and A': "set_mset A' = set_mset A" "\<And>y. y \<noteq> x \<Longrightarrow> count A' y = count A y"
    and other: "\<And>i. i < bd_total b \<Longrightarrow> i \<notin> span x \<Longrightarrow> bd_ref b' ! i = bd_ref b ! i"
    and here: "\<And>i. i \<in> span x \<Longrightarrow> unat (bd_ref b ! i) = count A x \<Longrightarrow> unat (bd_ref b' ! i) = count A' x"
  shows "sys_ok (b', A')" and "same_memory (b, A) (b', A')"
proof -
  have A: "\<And>y. y \<in># A \<Longrightarrow> owned A b y"
    and apart: "\<And>y z. y \<in># A \<Longrightarrow> z \<in># A \<Longrightarrow> y \<noteq> z \<Longrightarrow> span y \<inter> span z = {}" using ok by auto
  have "owned A' b' y" if y: "y \<in># A" for y
  proof (cases "y = x")
    case True
    then show ?thesis using A [OF y] here b' by (simp add: owned_def)
  next
    case False
    then have "bd_ref b' ! i = bd_ref b ! i" if "i \<in> span y" for i
      using other [OF owned_in_range [OF A [OF y] that]] apart [OF y x False] that by blast
    with False show ?thesis using A [OF y] A'(2) b' by (simp add: owned_def)
  qed
  then show "sys_ok (b', A')" using b'(1) A'(1) apart by simp
  show "same_memory (b, A) (b', A')" by (simp add: same_memory_def held_frames_def A'(1) b'(2))
qed

lemma unat_dec16: "0 < unat r \<Longrightarrow> unat (sat_dec16 r) = unat r - 1"
  by (auto simp: sat_dec16_def unat_minus_one)

lemma unat_inc16: "unat r < 2 ^ 16 - 1 \<Longrightarrow> unat (sat_inc16 r) = unat r + 1"
  by (auto simp: sat_inc16_def unat_word_ariths)

lemma free_step:
  assumes ok: "sys_ok (b, A)" and x: "(n, k) \<in># A" and free: "free_inner (frame_addr n) k b = (b', r)"
  shows "sys_ok (b', A - {#(n, k)#})" and "same_memory (b, A) (b', A - {#(n, k)#})" and "r = Ok ()"
    and "settled b \<Longrightarrow> settled b'"
proof -
  have b: "buddy_ok b" and A: "\<And>y. y \<in># A \<Longrightarrow> owned A b y"
    and apart: "\<And>y z. y \<in># A \<Longrightarrow> z \<in># A \<Longrightarrow> y \<noteq> z \<Longrightarrow> span y \<inter> span z = {}" using ok by auto
  have g: "good (bd_total b) (n, k)" "span (n, k) \<inter> free_frames b = {}" and refs: "unat (bd_ref b ! n) = count A (n, k)"
    using A [OF x] span_start [of n k] unfolding owned_def by blast+
  have many: "1 < bd_ref b ! n \<longleftrightarrow> 1 < count A (n, k)"
    using refs by (simp add: word_less_nat_alt)
  have "sys_ok (b', A - {#(n, k)#}) \<and> same_memory (b, A) (b', A - {#(n, k)#}) \<and> r = Ok () \<and> (settled b \<longrightarrow> settled b')"
  proof (cases "1 < count A (n, k)")
    case True
    then have shared: "1 < bd_ref b ! n" using many by simp
    obtain c where c: "free_inner (frame_addr n) k b = (c, Ok ())" "buddy_ok c" "blocks c = blocks b"
      "free_frames c = free_frames b" "bd_total c = bd_total b"
      "\<And>i. i < bd_total b \<Longrightarrow> bd_ref c ! i = (if i \<in> span (n, k) then sat_dec16 (bd_ref b ! i) else bd_ref b ! i)"
      using free_shared [OF b g shared] by metis
    have "unat (bd_ref c ! i) = count (A - {#(n, k)#}) (n, k)"
      if "i \<in> span (n, k)" "unat (bd_ref b ! i) = count A (n, k)" for i
      using c(6) [OF owned_in_range [OF A [OF x] that(1)]] unat_dec16 [of "bd_ref b ! i"] that True x
      by (simp del: span.simps)
    moreover have "set_mset (A - {#(n, k)#}) = set_mset A"
      using True by (auto simp: in_diff_count dest: in_diffD)
    moreover have "bd_ref c ! i = bd_ref b ! i" if "i < bd_total b" "i \<notin> span (n, k)" for i
      using c(6) [OF that(1)] that(2) by (simp del: span.simps)
    ultimately have "sys_ok (c, A - {#(n, k)#})" "same_memory (b, A) (c, A - {#(n, k)#})"
      using recount_step [OF ok x c(2,4,5), of "A - {#(n, k)#}"] by simp_all
    then show ?thesis using c free by (auto simp: settled_def)
  next
    case False
    then have sole: "\<not> 1 < bd_ref b ! n" and one: "count A (n, k) = 1"
      using many x by (simp_all add: Suc_lessI count_greater_zero_iff [symmetric] del: count_greater_zero_iff)
    obtain c where c: "free_inner (frame_addr n) k b = (c, Ok ())" "buddy_ok c"
      "free_frames c = free_frames b \<union> span (n, k)" "bd_total c = bd_total b"
      "\<And>i. i < bd_total b \<Longrightarrow> bd_ref c ! i = (if i \<in> span (n, k) then 0 else bd_ref b ! i)" "settled b \<Longrightarrow> settled c"
      using free_last [OF b g sole] by metis
    have gone: "y \<in># A - {#(n, k)#} \<longleftrightarrow> y \<in># A \<and> y \<noteq> (n, k)" for y
      using one by (auto simp: in_diff_count dest: in_diffD)
    have "owned (A - {#(n, k)#}) c y" if y: "y \<in># A" "y \<noteq> (n, k)" for y
    proof -
      have far: "span y \<inter> span (n, k) = {}" using apart [OF y(1) x y(2)] .
      have "bd_ref c ! i = bd_ref b ! i" if "i \<in> span y" for i
        using c(5) [OF owned_in_range [OF A [OF y(1)] that]] far that by auto
      then show ?thesis using A [OF y(1)] c(3,4) far y(2) by (auto simp: owned_def simp del: span.simps)
    qed
    then have "sys_ok (c, A - {#(n, k)#})" using c(2) apart gone by simp
    moreover have "same_memory (b, A) (c, A - {#(n, k)#})"
      using c(3) gone x by (auto simp: same_memory_def held_frames_def simp del: span.simps)
    ultimately show ?thesis using c free by simp
  qed
  then show "sys_ok (b', A - {#(n, k)#})" "same_memory (b, A) (b', A - {#(n, k)#})" "r = Ok ()"
    "settled b \<Longrightarrow> settled b'" by blast+
qed

lemma set_refcount_ok:
  assumes ok: "buddy_ok b" and n: "n \<notin> free_frames b"
  shows "buddy_ok (set_refcount n v b)" and "free_frames (set_refcount n v b) = free_frames b"
    and "bd_total (set_refcount n v b) = bd_total b"
proof -
  have core: "core_ok b" using ok by (simp add: buddy_ok_def)
  have "core_ok (b\<lparr>bd_ref := (bd_ref b)[n := v]\<rparr>)"
  proof (rule core_ref [OF core])
    fix i assume i: "i \<in> free_frames b"
    then have "n \<noteq> i" using n by blast
    with core_okD(10) [OF core i] show "(bd_ref b)[n := v] ! i = 0" by simp
  qed (simp add: core_okD(3) [OF core])
  then show "buddy_ok (set_refcount n v b)" using ok by (simp add: set_refcount_def buddy_ok_def)
qed (simp_all add: set_refcount_def)

lemma set_refcount_step:
  assumes ok: "sys_ok (b, A)" and x: "(n, 0) \<in># A" and A': "set_mset A' = set_mset A" "\<And>y. y \<noteq> (n, 0) \<Longrightarrow> count A' y = count A y"
    and v: "unat v = count A' (n, 0)"
  shows "sys_ok (set_refcount n v b, A') \<and> same_memory (b, A) (set_refcount n v b, A')"
proof -
  have b: "buddy_ok b" and own: "owned A b (n, 0)" using ok x by auto
  have n: "n < length (bd_ref b)" "n \<notin> free_frames b"
    using own b core_okD(3) [of b] by (auto simp: owned_def good_def buddy_ok_def)
  note set = set_refcount_ok [OF b n(2), of v]
  have "bd_ref (set_refcount n v b) ! i = bd_ref b ! i" if "i \<notin> span (n, 0)" for i
    using that by (auto simp: set_refcount_def)
  moreover have "unat (bd_ref (set_refcount n v b) ! i) = count A' (n, 0)" if "i \<in> span (n, 0)" for i
    using that n(1) v by (simp add: set_refcount_def)
  ultimately show ?thesis
    using recount_step [OF ok x set A'] by blast
qed

lemma share_step:
  assumes ok: "sys_ok (b, A)" and x: "(n, 0) \<in># A"
  shows "count A (n, 0) < 2 ^ 16 - 1 \<Longrightarrow> ref_inc (frame_addr n) b = (b', r) \<Longrightarrow>
      sys_ok (b', add_mset (n, 0) A) \<and> same_memory (b, A) (b', add_mset (n, 0) A)"
    and "1 < count A (n, 0) \<Longrightarrow> ref_dec (frame_addr n) b = (b', r') \<Longrightarrow>
      sys_ok (b', A - {#(n, 0)#}) \<and> same_memory (b, A) (b', A - {#(n, 0)#})"
proof -
  have b: "buddy_ok b" and own: "owned A b (n, 0)" using ok x by auto
  have len: "length (bd_info b) = bd_total b"
    using b core_okD(2) by (auto simp: buddy_ok_def)
  have n: "n < bd_total b" "unat (bd_ref b ! n) = count A (n, 0)"
    using own by (auto simp: owned_def good_def)
  then have rc: "bd_ref b ! n \<noteq> 0" "0 < unat (bd_ref b ! n)" using x by (metis count_greater_zero_iff less_numeral_extra(3) unat_0, simp)
  show "sys_ok (b', add_mset (n, 0) A) \<and> same_memory (b, A) (b', add_mset (n, 0) A)"
    if "count A (n, 0) < 2 ^ 16 - 1" "ref_inc (frame_addr n) b = (b', r)"
  proof -
    have "b' = set_refcount n (sat_inc16 (bd_ref b ! n)) b"
      using that(2) n rc len by (simp add: ref_inc_def get_refcount_def split: if_splits)
    then show ?thesis
      using set_refcount_step [OF ok x, of "add_mset (n, 0) A"] unat_inc16 [of "bd_ref b ! n"] n that(1) x
      by (simp add: insert_absorb)
  qed
  show "sys_ok (b', A - {#(n, 0)#}) \<and> same_memory (b, A) (b', A - {#(n, 0)#})"
    if "1 < count A (n, 0)" "ref_dec (frame_addr n) b = (b', r')"
  proof -
    have "b' = set_refcount n (sat_dec16 (bd_ref b ! n)) b"
      using that(2) n rc len by (simp add: ref_dec_def get_refcount_def Let_def split: if_splits)
    moreover have "set_mset (A - {#(n, 0)#}) = set_mset A"
      using that(1) by (auto simp: in_diff_count dest: in_diffD)
    ultimately show ?thesis
      using set_refcount_step [OF ok x, of "A - {#(n, 0)#}"] unat_dec16 [OF rc(2)] n by simp
  qed
qed

text \<open>Every step of a caller keeps the books.\<close>

lemma frame_step_ok:
  assumes "sys_ok (b, A)" and "frame_step (b, A) s'"
  shows "sys_ok s' \<and> same_memory (b, A) s'"
proof -
  have core: "core_ok b" and tot: "buddy_ok b" using assms(1) by (simp_all add: buddy_ok_def)
  have stay: "sys_ok (b, A) \<and> same_memory (b, A) (b, A)" using assms(1) by (simp add: same_memory_def)
  have large: "fst (alloc_inner k b) = b \<and> snd (alloc_inner k b) = Err InvalidArgument
    \<and> alloc_inner_constrained k mx b = Some (b, Err InvalidArgument)" if "MAX_ORDER < k" for k mx
    using that by (simp add: alloc_inner_def alloc_inner_constrained_def)
  from assms(2) show ?thesis
  proof (cases rule: frame_step.cases)
    case (alloc k b' a)
    then have "k \<le> MAX_ORDER" using large [of k] by (cases "MAX_ORDER < k") auto
    then show ?thesis
      using alloc taken_step [OF assms(1)] by (elim alloc_cases [OF core]) (auto simp del: sys_ok.simps)
  next
    case (alloc_fails k b' e)
    then show ?thesis
      using stay large [of k] by (cases "k \<le> MAX_ORDER") (auto elim!: alloc_cases [OF core] simp del: sys_ok.simps)
  next
    case (below k mx b' a)
    then have "k \<le> MAX_ORDER" using large [of k mx] by (cases "MAX_ORDER < k") auto
    then show ?thesis
      using below taken_step [OF assms(1)] by (elim constrained_cases [OF core, of k mx]) (auto simp del: sys_ok.simps)
  next
    case (below_fails k mx b' e)
    then show ?thesis
      using stay large [of k mx] by (cases "k \<le> MAX_ORDER") (auto elim!: constrained_cases [OF core, of k mx] simp del: sys_ok.simps)
  next
    case (free n k b' r)
    then show ?thesis using free_step(1,2) [OF assms(1)] by blast
  next
    case (share n b' r)
    then show ?thesis using share_step(1) [OF assms(1)] by blast
  next
    case (unshare n b' r)
    then have "(n, 0) \<in># A" by (metis count_greater_zero_iff gr_zeroI not_less_zero)
    with unshare show ?thesis using share_step(2) [OF assms(1)] by blast
  qed
qed

lemma sys_books: "sys_ok (b, A) \<Longrightarrow> bd_free b + card (held_frames A) = card (free_frames b \<union> held_frames A)"
proof -
  assume ok: "sys_ok (b, A)"
  then have core: "core_ok b" and free: "bd_free b = card (free_frames b)" by (simp_all add: buddy_ok_def)
  have "finite (held_frames A)" by (simp add: held_frames_def)
  moreover have "free_frames b \<inter> held_frames A = {}" using ok by (fastforce simp: held_frames_def owned_def)
  ultimately show ?thesis using card_Un_disjoint [OF finite_free [OF core]] free by simp
qed

lemma frame_run_ok: "frame_step\<^sup>*\<^sup>* s s' \<Longrightarrow> sys_ok s \<Longrightarrow> sys_ok s' \<and> same_memory s s'"
proof (induction rule: rtranclp_induct)
  case base
  then show ?case by (simp add: same_memory_def)
next
  case (step s1 s2)
  then show ?case using frame_step_ok [of "fst s1" "snd s1" s2] by (simp add: same_memory_def)
qed

text \<open>What callers do leaves alone blocks that are held but not theirs.\<close>

lemma frame_step_frame:
  assumes ok: "sys_ok (b, A + P)" and apart: "\<forall>x \<in># P. x \<notin># A" and step: "frame_step (b, A) (b', A')"
  shows "frame_step (b, A + P) (b', A' + P)" and "\<forall>x \<in># P. x \<notin># A'"
proof -
  have core: "core_ok b" using ok by (simp add: buddy_ok_def)
  note fresh = taken_step(3) [OF ok]
  have large: "alloc_inner k b = (b, Err InvalidArgument)" "alloc_inner_constrained k mx b = Some (b, Err InvalidArgument)"
    if "MAX_ORDER < k" for k mx
    using that by (simp_all add: alloc_inner_def alloc_inner_constrained_def)
  from step have "frame_step (b, A + P) (b', A' + P) \<and> (\<forall>x \<in># P. x \<notin># A')"
  proof (cases rule: frame_step.cases)
    case (alloc k a)
    then have "k \<le> MAX_ORDER" using large(1) [of k] by (cases "MAX_ORDER < k") auto
    then have "(frame_index a, k) \<notin># A + P"
      using alloc fresh by (elim alloc_cases [OF core]) auto
    then show ?thesis using apart alloc frame_step.alloc [OF alloc(2), of "A + P"] by auto
  next
    case (alloc_fails k e)
    then show ?thesis using apart frame_step.alloc_fails by blast
  next
    case (below k mx a)
    then have "k \<le> MAX_ORDER" using large(2) [of k mx] by (cases "MAX_ORDER < k") auto
    then have "(frame_index a, k) \<notin># A + P"
      using below fresh by (elim constrained_cases [OF core, of k mx]) auto
    then show ?thesis using apart below frame_step.below [OF below(2), of "A + P"] by auto
  next
    case (below_fails k mx e)
    then show ?thesis using apart frame_step.below_fails by blast
  next
    case (free n k r)
    then have "A + P - {#(n, k)#} = A' + P" by simp
    then show ?thesis using apart free frame_step.free [of n k "A + P"] by (auto dest: in_diffD)
  next
    case (share n r)
    then have "(n, 0) \<notin># P" using apart by blast
    then have "count (A + P) (n, 0) = count A (n, 0)" by (simp add: not_in_iff)
    then show ?thesis using apart share frame_step.share [of n "A + P"] by auto
  next
    case (unshare n r)
    then have "(n, 0) \<in># A" by (metis count_greater_zero_iff gr_zeroI not_less_zero)
    moreover from this have "(n, 0) \<notin># P" using apart by blast
    ultimately have "A + P - {#(n, 0)#} = A' + P" "count (A + P) (n, 0) = count A (n, 0)"
      using unshare by (simp_all add: not_in_iff)
    then show ?thesis using apart unshare frame_step.unshare [of "A + P" n] by (auto dest: in_diffD)
  qed
  then show "frame_step (b, A + P) (b', A' + P)" and "\<forall>x \<in># P. x \<notin># A'" by blast+
qed

section \<open>What an allocation gives\<close>

lemma multiple_gap: "d dvd a \<Longrightarrow> d dvd c \<Longrightarrow> a < c \<Longrightarrow> a + d \<le> (c :: nat)"
  by (metis dvd_diffD1 dvd_imp_le le_add_diff_inverse less_imp_le_nat nat_add_left_cancel_le zero_less_diff dvd_diff_nat)

lemma low_block_iff:
  assumes "good tot (n, s)" and "tot \<le> 2 ^ 50"
  shows "low_block (n, s) \<longleftrightarrow> n < 1024"
proof -
  have s: "s \<le> 10" "2 ^ s dvd n" "n + 2 ^ s \<le> 2 ^ 50" using assms by (auto simp: good_def MAX_ORDER_def)
  have "(2 :: nat) ^ s dvd 2 ^ 10" using s(1) by (rule le_imp_power_dvd)
  then have gap: "n < 1024 \<longleftrightarrow> n + 2 ^ s \<le> 1024" 
    using multiple_gap [OF s(2), of 1024] less_le_trans [of n "n + 2 ^ s" 1024] by auto
  have "(2 :: nat) ^ s \<le> 2 ^ 10" using s(1) by (intro power_increasing) simp_all
  then have "FRAME_SIZE * 2 ^ s mod 2 ^ 64 = FRAME_SIZE * 2 ^ s" by (simp add: FRAME_SIZE_def)
  moreover have "frame_addr n + FRAME_SIZE * 2 ^ s = FRAME_SIZE * (n + 2 ^ s)"
    by (simp add: frame_addr_def distrib_left)
  moreover have "FRAME_SIZE * (n + 2 ^ s) \<le> FRAME_SIZE * 2 ^ 50" using s(3) by (rule mult_le_mono2)
  ultimately show ?thesis
    using s(1,3) by (auto simp: low_block_def in_dma_zone_def checked_add64_def u64_max_def DMA_ZONE_END_def gap FRAME_SIZE_def)
qed

text \<open>
  C29: An allocation succeeds whenever some free block is big enough, and then the frames it gives were
  free, are free no more, and are aligned to the size asked for; it gives frames of the ISA DMA zone
  (the first 1024) only when every free block that is big enough lies there. When it fails it is for
  want of memory and changes nothing.
\<close>

theorem alloc_spares_the_dma_zone:
  assumes ok: "buddy_ok b" and k: "k \<le> MAX_ORDER"
  shows "case alloc_inner k b of
      (b', Inl e) \<Rightarrow> b' = b \<and> e = OutOfMemory \<and> (\<forall>(m, s) \<in> blocks b. s < k)
    | (b', Inr a) \<Rightarrow> \<exists>n. a = frame_addr n \<and> 2 ^ k dvd n \<and> buddy_ok b'
        \<and> span (n, k) \<subseteq> free_frames b \<and> free_frames b' = free_frames b - span (n, k)
        \<and> (n < 1024 \<longrightarrow> (\<forall>(m, s) \<in> blocks b. k \<le> s \<longrightarrow> m < 1024))"
proof -
  have core: "core_ok b" using ok by (simp add: buddy_ok_def)
  note low = low_block_iff [OF core_okD(6) [OF core] core_okD(4) [OF core]]
  show ?thesis
  proof (cases rule: alloc_cases [OF core k])
    case 1
    then show ?thesis by simp
  next
    case (2 n s)
    note t = taken_ok [OF ok 2(1,2)]
    have "n < 1024 \<longrightarrow> (\<forall>(m, j) \<in> blocks b. k \<le> j \<longrightarrow> m < 1024)"
      using 2(1,4) low by fastforce
    then show ?thesis
      using t(1,3-5) 2(3) by (auto simp: good_def simp del: span.simps)
  qed
qed

lemma small_alloc:
  assumes "k \<le> 2"
  shows "alloc_inner k small_buddy = (taken (1024, 2) k small_buddy, Ok (frame_addr 1024))"
proof -
  have "core_ok small_buddy" "k \<le> MAX_ORDER" using small_ok(1) assms by (simp_all add: buddy_ok_def MAX_ORDER_def)
  then show ?thesis
    by (rule alloc_cases) (use assms small_ok(3) in auto)
qed

theorem alloc_spares_the_dma_zone_witness:
  "\<exists>b'. alloc_inner 1 small_buddy = (b', Ok (frame_addr 1024)) \<and> buddy_ok b' \<and> free_frames b' = {1026..<1028}"
proof -
  have "1 \<le> MAX_ORDER" by (simp add: MAX_ORDER_def)
  from alloc_spares_the_dma_zone [OF small_ok(1) this] show ?thesis
    using small_alloc [of 1] small_ok(2) by (auto simp: numeral_eq_Suc)
qed

section \<open>A settled allocator is determined by its free frames\<close>

lemma span_nested:
  assumes "2 ^ k dvd n" and "2 ^ j dvd m" and "k \<le> j" and "span (n, k) \<inter> span (m, j) \<noteq> {}"
  shows "span (n, k) \<subseteq> span (m, j)"
proof -
  have k: "2 ^ k dvd m" "2 ^ k dvd m + 2 ^ j"
    using assms(2,3) by (meson dvd_add dvd_trans le_imp_power_dvd)+
  from assms(4) obtain i where "i \<in> span (n, k) \<inter> span (m, j)" by blast
  then have i: "n \<le> i" "i < n + 2 ^ k" "m \<le> i" "i < m + 2 ^ j" by simp_all
  have "m \<le> n" using multiple_gap [OF assms(1) k(1)] i by linarith
  moreover have "n + 2 ^ k \<le> m + 2 ^ j" using multiple_gap [OF assms(1) k(2)] i by linarith
  ultimately show ?thesis by auto
qed

text \<open>An aligned stretch of free frames lies inside one free block.\<close>

lemma settled_covers:
  assumes ok: "core_ok b" and settled: "settled b"
  shows "2 ^ k dvd n \<Longrightarrow> k \<le> MAX_ORDER \<Longrightarrow> span (n, k) \<subseteq> free_frames b \<Longrightarrow> \<exists>x \<in> blocks b. span (n, k) \<subseteq> span x"
proof (induction k arbitrary: n)
  case 0
  then have "n \<in> free_frames b" by simp
  then show ?case by (auto simp: free_frames_def)
next
  case (Suc k)
  have dvd: "2 ^ k dvd n" "2 ^ k dvd n + 2 ^ k" using Suc.prems(1) by (auto intro: dvd_mult_right)
  have halves: "span (n, k) \<subseteq> span (n, Suc k)" "span (n + 2 ^ k, k) \<subseteq> span (n, Suc k)" by auto
  have whole: ?case if "(m, j) \<in> blocks b" "span (i, k) \<subseteq> span (m, j)" "k < j" "span (i, k) \<subseteq> span (n, Suc k)" for m j i
  proof -
    have "2 ^ j dvd m" using core_okD(6) [OF ok that(1)] by (simp add: good_def)
    moreover have "span (n, Suc k) \<inter> span (m, j) \<noteq> {}" using that(2,4) span_start [of i k] by blast
    ultimately have "span (n, Suc k) \<subseteq> span (m, j)"
      using span_nested [OF Suc.prems(1), of j m] that(3) by simp
    with that(1) show ?thesis by blast
  qed
  obtain m j where low: "(m, j) \<in> blocks b" "span (n, k) \<subseteq> span (m, j)"
    using Suc.IH [OF dvd(1)] Suc.prems(2,3) halves(1) by fastforce
  obtain m' j' where high: "(m', j') \<in> blocks b" "span (n + 2 ^ k, k) \<subseteq> span (m', j')"
    using Suc.IH [OF dvd(2)] Suc.prems(2,3) halves(2) by fastforce
  have size: "k \<le> j" "k \<le> j'"
    using card_mono [OF finite_span low(2)] card_mono [OF finite_span high(2)] by simp_all
  show ?case
  proof (cases "k < j \<or> k < j'")
    case True
    then show ?thesis using whole [OF low _ halves(1)] whole [OF high _ halves(2)] by blast
  next
    case False
    with size have "j = k" "j' = k" by simp_all
    then have "n = m" "n + 2 ^ k = m'" using low(2) high(2) by auto
    moreover have "n XOR 2 ^ k = n + 2 ^ k"
    proof -
      obtain q where "n = 2 ^ k * (2 * q)" using Suc.prems(1) by (auto simp: mult.assoc elim!: dvdE)
      then show ?thesis using xor_buddy [OF dvd(1)] by simp
    qed
    ultimately have False
      using settled low(1) high(1) \<open>j = k\<close> \<open>j' = k\<close> Suc.prems(2) by (auto simp: settled_def)
    then show ?thesis ..
  qed
qed

section \<open>What a constrained allocation gives\<close>

lemma fits_below_iff:
  assumes "good tot (n, s)" and "tot \<le> 2 ^ 50" and "k \<le> s" and "mx \<le> u64_max"
  shows "fits_below (FRAME_SIZE * 2 ^ k) mx (frame_addr n) \<longleftrightarrow> frame_addr (n + 2 ^ k) \<le> mx"
proof -
  have "(2 :: nat) ^ k \<le> 2 ^ s" using assms(3) by (rule power_increasing) simp
  moreover have "n + 2 ^ s \<le> 2 ^ 50" using assms(1,2) by (simp add: good_def)
  ultimately have "n + 2 ^ k \<le> 2 ^ 50" by (metis add_left_mono le_trans)
  then have "frame_addr (n + 2 ^ k) \<le> FRAME_SIZE * 2 ^ 50" unfolding frame_addr_def by (rule mult_le_mono2)
  moreover have "frame_addr n + FRAME_SIZE * 2 ^ k = frame_addr (n + 2 ^ k)" by (simp add: frame_addr_def distrib_left)
  ultimately show ?thesis using assms(4) unfolding fits_below_def checked_add64_def by auto
qed

text \<open>
  C27: An allocation below an address is exact. From a merged-up state it always returns, it gives an
  aligned block that was free and ends at or below the address, and it fails for want of memory just
  when no aligned block of that size below the address is free.
\<close>

theorem constrained_alloc_exact:
  assumes ok: "buddy_ok b" and settled: "settled b" and k: "k \<le> MAX_ORDER" and mx: "mx \<le> u64_max"
  shows "case alloc_inner_constrained k mx b of
      None \<Rightarrow> False
    | Some (b', Inl e) \<Rightarrow> b' = b \<and> e = OutOfMemory
        \<and> (\<forall>n. 2 ^ k dvd n \<and> span (n, k) \<subseteq> free_frames b \<longrightarrow> mx < frame_addr (n + 2 ^ k))
    | Some (b', Inr a) \<Rightarrow> \<exists>n. a = frame_addr n \<and> 2 ^ k dvd n \<and> frame_addr (n + 2 ^ k) \<le> mx
        \<and> span (n, k) \<subseteq> free_frames b \<and> free_frames b' = free_frames b - span (n, k) \<and> buddy_ok b' \<and> settled b'"
proof -
  have core: "core_ok b" using ok by (simp add: buddy_ok_def)
  note fits = fits_below_iff [OF core_okD(6) [OF core] core_okD(4) [OF core]]
  show ?thesis
  proof (cases rule: constrained_cases [OF core k, of mx])
    case 1
    have "mx < frame_addr (n + 2 ^ k)" if n: "2 ^ k dvd n" "span (n, k) \<subseteq> free_frames b" for n
    proof -
      obtain m s where x: "(m, s) \<in> blocks b" "span (n, k) \<subseteq> span (m, s)"
        using settled_covers [OF core settled n(1) k n(2)] by fastforce
      have "k \<le> s" using card_mono [OF finite_span x(2)] by simp
      then have "mx < frame_addr (m + 2 ^ k)" using 1(1) x(1) fits [OF x(1) _ mx] by fastforce
      moreover have "m \<le> n" using x(2) span_start [of n k] by auto
      then have "frame_addr (m + 2 ^ k) \<le> frame_addr (n + 2 ^ k)" unfolding frame_addr_def by (intro mult_le_mono2) simp
      ultimately show ?thesis by (rule less_le_trans)
    qed
    then show ?thesis using 1(2) by simp
  next
    case (2 n s)
    note t = taken_ok [OF ok 2(1,2)]
    have "frame_addr (n + 2 ^ k) \<le> mx" using fits [OF 2(1,2) mx] 2(3) by blast
    then show ?thesis
      using t(1,3-5) 2(4) taken_settled [OF ok 2(1,2) settled] by (auto simp: good_def simp del: span.simps)
  qed
qed

theorem constrained_alloc_exact_witness:
  "\<exists>b' n. alloc_inner_constrained 1 (frame_addr 1028) small_buddy = Some (b', Ok (frame_addr n)) \<and> n + 2 \<le> 1028"
proof -
  have k: "1 \<le> MAX_ORDER" by (simp add: MAX_ORDER_def)
  have order: "frame_addr m \<le> frame_addr n \<longleftrightarrow> m \<le> n" for m n by (simp add: frame_addr_def FRAME_SIZE_def)
  have free: "2 ^ 1 dvd (1024 :: nat) \<and> span (1024, 1) \<subseteq> free_frames small_buddy"
    by (auto simp: small_ok(2))
  have "frame_addr 1028 \<le> u64_max" by (simp add: frame_addr_def FRAME_SIZE_def u64_max_def)
  note exact = constrained_alloc_exact [OF small_ok(1,4) k this]
  obtain b' r where run: "alloc_inner_constrained 1 (frame_addr 1028) small_buddy = Some (b', r)"
    using exact by (auto split: option.splits)
  show ?thesis
  proof (cases r)
    case (Inl e)
    then have "\<forall>n. 2 ^ 1 dvd n \<and> span (n, 1) \<subseteq> free_frames small_buddy \<longrightarrow> frame_addr 1028 < frame_addr (n + 2 ^ 1)"
      using exact unfolding run by simp
    with free have "frame_addr 1028 < frame_addr (1024 + 2 ^ 1)" by blast
    then show ?thesis using order [of "1024 + 2 ^ 1" 1028] by simp
  next
    case (Inr a)
    then show ?thesis using exact run by (auto simp: order simp del: span.simps)
  qed
qed

lemma settled_subset:
  assumes "core_ok b" "settled b" "core_ok c" "settled c" and free: "free_frames b = free_frames c"
  shows "blocks b \<subseteq> blocks c"
proof
  have inside: "\<exists>y \<in> blocks e. span x \<subseteq> span y"
    if "core_ok d" "core_ok e" "settled e" "free_frames d = free_frames e" "x \<in> blocks d" for x d e
  proof -
    have "span x \<subseteq> free_frames e" using that(4,5) unfolding free_frames_def by blast
    then show ?thesis
      using settled_covers [OF that(2,3), of "snd x" "fst x"] core_okD(6) [OF that(1,5)] by (auto simp: good_def)
  qed
  fix x assume x: "x \<in> blocks b"
  obtain y where y: "y \<in> blocks c" "span x \<subseteq> span y" using inside [OF assms(1,3,4) free x] by blast
  obtain z where z: "z \<in> blocks b" "span y \<subseteq> span z" using inside [OF assms(3,1,2) free [symmetric] y(1)] by blast
  have "span x \<noteq> {}" by (cases x) simp
  then have "x = z" using core_okD(7) [OF assms(1) x z(1)] y(2) z(2) by blast
  then have same: "span x = span y" using y z by blast
  obtain n k m j where eq: "x = (n, k)" "y = (m, j)" by (cases x, cases y)
  then have "(2 :: nat) ^ k = 2 ^ j" using same card_span [of n k] card_span [of m j] by simp
  then have "k = j" by simp
  moreover have "n \<in> span (m, j)" "m \<in> span (n, k)" using same eq by (metis span_start)+
  then have "n = m" by simp
  ultimately show "x \<in> blocks c" using y(1) eq by simp
qed

text \<open>
  C9: Freeing undoes allocating. From a state in which no two free buddies are left unmerged (which
  allocations and frees keep), freeing the block just allocated succeeds and leaves the same free
  blocks, merged as they were, and the same count.
\<close>

theorem alloc_free_roundtrip:
  assumes ok: "buddy_ok b" and settled: "settled b" and alloc: "alloc_inner k b = (b1, Ok a)"
    and free: "free_inner a k b1 = (b2, r)"
  shows "r = Ok () \<and> blocks b2 = blocks b \<and> bd_free b2 = bd_free b \<and> buddy_ok b2 \<and> settled b2"
proof -
  have core: "core_ok b" using ok by (simp add: buddy_ok_def)
  have k: "k \<le> MAX_ORDER" using alloc by (cases "MAX_ORDER < k") (auto simp: alloc_inner_def)
  obtain n s where x: "(n, s) \<in> blocks b" "k \<le> s" and b1: "b1 = taken (n, s) k b" and a: "a = frame_addr n"
    by (rule alloc_cases [OF core k]) (use alloc in auto)
  note t = taken_ok [OF ok x, folded b1]
  have n: "n < bd_total b" using t(5) by (auto simp: good_def intro!: less_le_trans [of n "n + 2 ^ k" "bd_total b"])
  have sole: "\<not> 1 < bd_ref b1 ! n" using t(6) [OF n] by simp
  have good: "good (bd_total b1) (n, k)" "span (n, k) \<inter> free_frames b1 = {}" using t(3,5,7) by auto
  obtain c where c: "free_inner (frame_addr n) k b1 = (c, Ok ())" "buddy_ok c"
    "free_frames c = free_frames b1 \<union> span (n, k)" "settled b1 \<Longrightarrow> settled c"
    using free_last [OF t(1) good sole] by metis
  have same: "free_frames c = free_frames b" using c(3) t(3,4) by blast
  have set: "settled c" using c(4) taken_settled [OF ok x settled] b1 by simp
  have "blocks c = blocks b"
    using settled_subset [of b c] settled_subset [of c b] same set settled core c(2) by (auto simp: buddy_ok_def)
  then show ?thesis using c(1,2) free a ok same set by (simp add: buddy_ok_def)
qed

theorem alloc_free_roundtrip_witness:
  "\<exists>b1 b2. alloc_inner 0 small_buddy = (b1, Ok (frame_addr 1024)) \<and> b1 \<noteq> small_buddy
    \<and> free_inner (frame_addr 1024) 0 b1 = (b2, Ok ()) \<and> blocks b2 = {(1024, 2)}"
proof -
  obtain b1 b2 r where run: "alloc_inner 0 small_buddy = (b1, Ok (frame_addr 1024))" "free_inner (frame_addr 1024) 0 b1 = (b2, r)"
    using small_alloc [of 0] by (metis prod.exhaust le0)
  note undone = alloc_free_roundtrip [OF small_ok(1,4) run]
  have "b1 = taken (1024, 2) 0 small_buddy" using run(1) small_alloc [of 0] by simp
  then have "1024 \<notin> free_frames b1" "1024 \<in> free_frames small_buddy"
    using taken_ok(3) [OF small_ok(1), of 1024 2 0] small_ok(2,3) by auto
  then show ?thesis using run undone small_ok(3) by auto
qed

section \<open>A frame freed twice\<close>

text \<open>
  Freeing a frame twice goes unnoticed once it has merged. Only the first frame of a free block is
  marked free, so a free of any other frame of it passes the double-free check and succeeds: the
  frame is put on the lists a second time, on its own, while still part of the larger free block, and
  both will be handed out.
\<close>

theorem double_free_unnoticed:
  assumes ok: "buddy_ok b" and block: "(n, k) \<in> blocks b" and i: "n < i" "i < n + 2 ^ k"
  shows "\<exists>b'. free_inner (frame_addr i) 0 b = (b', Ok ()) \<and> (n, k) \<in> blocks b' \<and> (i, 0) \<in> blocks b'
    \<and> bd_free b' = bd_free b + 1"
proof -
  have core: "core_ok b" using ok by (simp add: buddy_ok_def)
  have good: "good (bd_total b) (n, k)" using core_okD(6) [OF core block] .
  have k: "0 < k" "k \<le> MAX_ORDER" using i good by (cases k; simp add: good_def)+
  have range: "i < bd_total b" using i(2) good by (simp add: good_def)
  have inside: "i \<in> span (n, k)" using i by simp
  have only: "x = (n, k)" if "x \<in> blocks b" "j \<in> span x" "j \<in> span (n, k)" for x j
    using core_okD(7) [OF core that(1) block] that(2,3) by blast
  have none: "(j, q) \<notin> blocks b" if "j \<in> span (n, k)" "(j, q) \<noteq> (n, k)" for j q
    using only [of "(j, q)" j] that span_start by blast
  have info: "get_info b i = INFO_ALLOCATED" using info_free(2) [OF core range k(2)] none [OF inside] i(1) by auto
  have "i \<in> free_frames b" using block inside unfolding free_frames_def by blast
  then have zero: "bd_ref b ! i = 0" using core_okD(10) [OF core] by blast
  obtain r where r: "set_refs i 1 0 b = b\<lparr>bd_ref := r\<rparr>" "length r = bd_total b"
    "\<forall>j < bd_total b. r ! j = (if j = i then 0 else bd_ref b ! j)"
    using set_refs_eq [of i 1 0 b] core_okD(3) [OF core] by (auto simp: le_less_Suc_eq)
  let ?b = "b\<lparr>bd_ref := r\<rparr>"
  have core1: "core_ok ?b"
    using r(3) core_okD(10) [OF core] free_in_range [OF core] by (intro core_ref [OF core r(2)]) auto
  have stay: "coalesce (frame_addr i) 0 ?b = (?b, frame_addr i, 0)"
  proof -
    let ?m = "i XOR 1"
    have even: "even n" "even (n + 2 ^ k)" using good k by (auto simp: good_def intro: dvd_trans [of 2 "2 ^ k"])
    have m: "?m = (if even i then i + 1 else i - 1)" using xor_buddy [of 0 i] by simp
    have "?m \<in> span (n, k)"
    proof (cases "even i")
      case True
      then have "i + 1 \<noteq> n + 2 ^ k" using even(2) by (metis odd_one odd_add)
      with True m i show ?thesis by simp
    next
      case False
      with m have "?m = i - 1" by simp
      with i show ?thesis unfolding span.simps atLeastLessThan_iff by linarith
    qed
    then have out: "(?m, 0) \<notin> blocks ?b" using none [of ?m 0] k(1) by simp
    show ?thesis
    proof (cases "bd_total b \<le> ?m")
      case True
      then show ?thesis using buddy_addr [of i 0] by (simp add: coalesce.simps MAX_ORDER_def)
    next
      case False
      then have "get_info ?b ?m \<noteq> of_nat 0" using info_free(1) [OF core1, of ?m 0] out by simp
      with False show ?thesis using buddy_addr [of i 0] by (simp add: coalesce.simps MAX_ORDER_def)
    qed
  qed
  let ?c = "push_free (frame_addr i) 0 ?b"
  have "length (free_blocks ?b 0) < u64_max"
    using free_blocks_short [OF core1, of 0] core_okD(4) [OF core] by (simp add: u64_max_def)
  moreover have "frame_addr i \<notin> set (free_blocks ?b j)" for j
    using none [OF inside, of j] i(1) by (auto simp: blocks_def)
  ultimately have "free_blocks ?c = (free_blocks ?b)(0 := pushed (frame_addr i) 0 (free_blocks ?b 0))"
    using push_list [OF core_okD(1) [OF core1], of 0 "frame_addr i"] i by simp
  then have "blocks ?c = insert (i, 0) (blocks b)" by (auto simp: blocks_def)
  moreover have "free_inner (frame_addr i) 0 b = (?c\<lparr>bd_free := sat_add64 (bd_free b) 1\<rparr>, Ok ())"
    using range info zero stay r(1) by (simp add: free_inner_def get_refcount_def Let_def)
  moreover have "sat_add64 (bd_free b) 1 = bd_free b + 1"
  proof (rule sat_add64_exact)
    have "card (free_frames b) \<le> card {..<bd_total b}" using free_in_range [OF core] by (intro card_mono) auto
    then show "bd_free b + 1 \<le> u64_max" using ok core_okD(4) [OF core] by (simp add: buddy_ok_def u64_max_def)
  qed
  ultimately show ?thesis using block by simp
qed

theorem double_free_unnoticed_witness:
  "\<exists>b'. free_inner (frame_addr 1025) 0 small_buddy = (b', Ok ()) \<and> (1024, 2) \<in> blocks b' \<and> (1025, 0) \<in> blocks b'"
  using double_free_unnoticed [OF small_ok(1), of 1024 2 1025] small_ok(3) by auto

end
