(* ===== verification/FrameCache.thy ===== *)
theory FrameCache imports FramePromises begin

text \<open>
  The per-CPU caches in front of the frame allocator (\<^verbatim>\<open>kernel/src/mm/frame.rs\<close>): \<^verbatim>\<open>alloc_frame\<close>,
  \<^verbatim>\<open>free_frame\<close> and what they call. A CPU touches its own cache with interrupts off, so a call is one
  step of it. Diagnostics, poisoning and zeroing, the wait for remote copies and the cgroup's books are
  left out; the answer of the cgroup's charge is an argument. When memory runs out the model stops
  where reclaim begins (\<open>Ok None\<close>).
\<close>

section \<open>State\<close>

definition PCPU_CACHE_SIZE :: nat where "PCPU_CACHE_SIZE = 32"
definition PCPU_BATCH :: nat where "PCPU_BATCH = PCPU_CACHE_SIZE div 2"

record frame_cache =
  fc_frames :: "nat list"
  fc_count :: nat

definition cache_new :: frame_cache where
  "cache_new = \<lparr>fc_frames = replicate PCPU_CACHE_SIZE 0, fc_count = 0\<rparr>"

definition cache_pop :: "frame_cache \<Rightarrow> frame_cache \<times> nat option" where
  "cache_pop c =
     (if fc_count c = 0 then (c, None)
      else let n = fc_count c - 1 in (c\<lparr>fc_count := n\<rparr>, Some (fc_frames c ! n)))"

definition cache_push :: "nat \<Rightarrow> frame_cache \<Rightarrow> frame_cache \<times> bool" where
  "cache_push addr c =
     (if PCPU_CACHE_SIZE \<le> fc_count c then (c, False)
      else (c\<lparr>fc_frames := (fc_frames c)[fc_count c := addr], fc_count := fc_count c + 1\<rparr>, True))"

definition cache_is_full :: "frame_cache \<Rightarrow> bool" where
  "cache_is_full c \<longleftrightarrow> PCPU_CACHE_SIZE \<le> fc_count c"

record frame_alloc =
  fa_buddy :: buddy
  fa_caches :: "frame_cache list"
  fa_pcpu :: bool

definition put_cache :: "nat \<Rightarrow> frame_cache \<Rightarrow> frame_alloc \<Rightarrow> frame_alloc" where
  "put_cache cpu c s = s\<lparr>fa_caches := (fa_caches s)[cpu := c]\<rparr>"

definition frame_alloc_new :: "buddy \<Rightarrow> frame_alloc" where
  "frame_alloc_new b = \<lparr>fa_buddy = b, fa_caches = replicate MAX_CPUS cache_new, fa_pcpu = False\<rparr>"

definition enable_pcpu_caches :: "frame_alloc \<Rightarrow> frame_alloc" where
  "enable_pcpu_caches s = s\<lparr>fa_pcpu := True\<rparr>"

section \<open>Moving frames between a cache and the lists\<close>

primrec refill_loop :: "nat \<Rightarrow> buddy \<Rightarrow> frame_cache \<Rightarrow> buddy \<times> frame_cache \<times> nat" where
  "refill_loop 0 b c = (b, c, 0)"
| "refill_loop (Suc n) b c =
     (case alloc_inner 0 b of
        (b, Inr addr) \<Rightarrow> (case refill_loop n b (fst (cache_push addr c)) of (b, c, m) \<Rightarrow> (b, c, m + 1))
      | (b, Inl e) \<Rightarrow> (b, c, 0))"

definition pcpu_refill :: "nat \<Rightarrow> frame_alloc \<Rightarrow> frame_alloc \<times> nat" where
  "pcpu_refill cpu s =
     (case refill_loop PCPU_BATCH (fa_buddy s) (fa_caches s ! cpu) of
        (b, c, refilled) \<Rightarrow> (put_cache cpu c (s\<lparr>fa_buddy := b\<rparr>), refilled))"

primrec drain_loop :: "nat \<Rightarrow> buddy \<Rightarrow> frame_cache \<Rightarrow> buddy \<times> frame_cache \<times> nat" where
  "drain_loop 0 b c = (b, c, 0)"
| "drain_loop (Suc n) b c =
     (case cache_pop c of
        (c, Some a) \<Rightarrow> (case drain_loop n (fst (free_inner a 0 b)) c of (b, c, m) \<Rightarrow> (b, c, m + 1))
      | (c, None) \<Rightarrow> (b, c, 0))"

definition pcpu_drain :: "nat \<Rightarrow> frame_alloc \<Rightarrow> frame_alloc \<times> nat" where
  "pcpu_drain cpu s =
     (case drain_loop PCPU_BATCH (fa_buddy s) (fa_caches s ! cpu) of
        (b, c, drained) \<Rightarrow> (put_cache cpu c (s\<lparr>fa_buddy := b\<rparr>), drained))"

section \<open>Freeing a frame\<close>

definition free_order :: "nat \<Rightarrow> nat \<Rightarrow> frame_alloc \<Rightarrow> frame_alloc \<times> unit kernel_result" where
  "free_order frame order s =
     (case free_inner frame order (fa_buddy s) of (b, r) \<Rightarrow> (s\<lparr>fa_buddy := b\<rparr>, r))"

definition frame_is_shared :: "nat \<Rightarrow> buddy \<Rightarrow> bool" where
  "frame_is_shared frame b \<longleftrightarrow> frame_index frame < length (bd_info b) \<and> 1 < get_refcount b (frame_index frame)"

definition free_frame :: "nat \<Rightarrow> nat \<Rightarrow> frame_alloc \<Rightarrow> frame_alloc \<times> unit kernel_result" where
  "free_frame cpu frame s =
     (if fa_pcpu s
      then if frame_is_shared frame (fa_buddy s) then free_order frame 0 s
           else if in_dma_zone frame 0 then free_order frame 0 s
           else let s = (if cache_is_full (fa_caches s ! cpu) then fst (pcpu_drain cpu s) else s)
                in (case cache_push frame (fa_caches s ! cpu) of
                      (c, True) \<Rightarrow> (put_cache cpu c s, Ok ())
                    | (c, False) \<Rightarrow> free_order frame 0 s)
      else free_order frame 0 s)"

section \<open>Allocating a frame\<close>

definition phys_frame :: "nat \<Rightarrow> nat option" where
  "phys_frame addr = (if FRAME_SIZE dvd addr then Some addr else None)"

text \<open>
  One attempt under the lock; \<open>Ok None\<close> is want of memory, after which \<^verbatim>\<open>alloc_order_inner\<close> reclaims
  and attempts again.
\<close>

definition alloc_attempt :: "nat \<Rightarrow> frame_alloc \<Rightarrow> frame_alloc \<times> nat option kernel_result" where
  "alloc_attempt order s =
     (case alloc_inner order (fa_buddy s) of
        (b, Inr addr) \<Rightarrow> (s\<lparr>fa_buddy := b\<rparr>, Ok (Some addr))
      | (b, Inl e) \<Rightarrow> (s\<lparr>fa_buddy := b\<rparr>, if e = OutOfMemory then Ok None else Err e))"

definition alloc_order_first :: "nat \<Rightarrow> unit kernel_result \<Rightarrow> frame_alloc \<Rightarrow> frame_alloc \<times> nat option kernel_result" where
  "alloc_order_first order charge s =
     (case alloc_attempt order s of
        (s, Inl e) \<Rightarrow> (s, Err e)
      | (s, Inr None) \<Rightarrow> (s, Ok None)
      | (s, Inr (Some addr)) \<Rightarrow>
          (case phys_frame addr of
             None \<Rightarrow> (s, Err InternalError)
           | Some frame \<Rightarrow>
               (case charge of
                  Inl e \<Rightarrow> (fst (free_order frame order s), Err e)
                | Inr _ \<Rightarrow> (s, Ok (Some frame)))))"

text \<open>What \<^verbatim>\<open>alloc_frame\<close> does with a cached frame; by then the task may be on another CPU.\<close>

definition give_cached :: "nat \<Rightarrow> unit kernel_result \<Rightarrow> nat \<Rightarrow> frame_alloc \<Rightarrow> frame_alloc \<times> nat option kernel_result" where
  "give_cached cpu' charge addr s =
     (case phys_frame addr of
        None \<Rightarrow> (s, Err InternalError)
      | Some frame \<Rightarrow>
          (case charge of
             Inl e \<Rightarrow> (fst (free_frame cpu' frame s), Err e)
           | Inr _ \<Rightarrow> (s, Ok (Some frame))))"

definition alloc_frame :: "nat \<Rightarrow> nat \<Rightarrow> unit kernel_result \<Rightarrow> frame_alloc \<Rightarrow> frame_alloc \<times> nat option kernel_result" where
  "alloc_frame cpu cpu' charge s =
     (if fa_pcpu s
      then (case cache_pop (fa_caches s ! cpu) of
              (c, Some addr) \<Rightarrow> give_cached cpu' charge addr (put_cache cpu c s)
            | (c, None) \<Rightarrow>
                (case pcpu_refill cpu s of
                   (s, refilled) \<Rightarrow>
                     if 0 < refilled
                     then (case cache_pop (fa_caches s ! cpu) of
                             (c, Some addr) \<Rightarrow> give_cached cpu' charge addr (put_cache cpu c s)
                           | (c, None) \<Rightarrow> alloc_order_first 0 charge s)
                     else alloc_order_first 0 charge s))
      else alloc_order_first 0 charge s)"

section \<open>What is cached\<close>

definition in_cache :: "frame_cache \<Rightarrow> nat list" where
  "in_cache c = take (fc_count c) (fc_frames c)"

definition cached :: "frame_cache \<Rightarrow> block multiset" where
  "cached c = image_mset (\<lambda>a. (frame_index a, 0)) (mset (in_cache c))"

definition all_cached :: "frame_alloc \<Rightarrow> block multiset" where
  "all_cached s = (\<Sum>c \<leftarrow> fa_caches s. cached c)"

definition cache_ok :: "frame_cache \<Rightarrow> bool" where
  "cache_ok c \<longleftrightarrow> length (fc_frames c) = PCPU_CACHE_SIZE \<and> fc_count c \<le> PCPU_CACHE_SIZE
     \<and> (\<forall>a \<in> set (in_cache c). FRAME_SIZE dvd a)"

lemma cache_new_ok [simp]: "cache_ok cache_new" "cached cache_new = {#}"
  by (simp_all add: cache_ok_def cache_new_def in_cache_def cached_def)

lemma push_cases:
  assumes "cache_ok c" and "FRAME_SIZE dvd a"
  obtains (full) "fc_count c = PCPU_CACHE_SIZE" and "cache_push a c = (c, False)"
  | (room) c' where "fc_count c < PCPU_CACHE_SIZE" and "cache_push a c = (c', True)" and "cache_ok c'"
      and "fc_count c' = fc_count c + 1" and "cached c' = add_mset (frame_index a, 0) (cached c)"
proof (cases "fc_count c < PCPU_CACHE_SIZE")
  case False
  then show thesis using full assms(1) by (simp add: cache_push_def cache_ok_def)
next
  case True
  let ?c = "c\<lparr>fc_frames := (fc_frames c)[fc_count c := a], fc_count := fc_count c + 1\<rparr>"
  have "in_cache ?c = in_cache c @ [a]"
    using True assms(1) by (simp add: in_cache_def cache_ok_def take_Suc_conv_app_nth)
  then show thesis
    using room [of ?c] True assms by (auto simp: cache_push_def cache_ok_def cached_def)
qed

lemma pop_cases:
  assumes "cache_ok c"
  obtains (empty) "cached c = {#}" and "fc_count c = 0" and "cache_pop c = (c, None)"
  | (some) c' n where "cache_pop c = (c', Some (frame_addr n))" and "cache_ok c'" and "fc_count c = fc_count c' + 1"
      and "cached c = add_mset (n, 0) (cached c')"
proof (cases "fc_count c")
  case 0
  then show thesis using empty by (simp add: cache_pop_def cached_def in_cache_def)
next
  case (Suc m)
  let ?c = "c\<lparr>fc_count := m\<rparr>" and ?a = "fc_frames c ! m"
  have "in_cache c = in_cache ?c @ [?a]"
    using Suc assms by (simp add: in_cache_def cache_ok_def take_Suc_conv_app_nth)
  moreover from this have "?a = frame_addr (frame_index ?a)"
    using assms aligned_addr by (simp add: cache_ok_def)
  ultimately show thesis
    using some [of ?c "frame_index ?a"] Suc assms by (auto simp: cache_pop_def cache_ok_def cached_def)
qed

section \<open>Callers, caches and lists\<close>

text \<open>What callers hold and what the caches hold are apart, and a cached frame has one reference.\<close>

definition books :: "buddy \<Rightarrow> block multiset \<Rightarrow> block multiset \<Rightarrow> bool" where
  "books b A P \<longleftrightarrow> sys_ok (b, A + P) \<and> (\<forall>x \<in># P. count (A + P) x = 1)"

definition all_frames :: "buddy \<Rightarrow> block multiset \<Rightarrow> nat set" where
  "all_frames b A = free_frames b \<union> held_frames A"

lemma same_memory_iff: "same_memory (b, A) (b', A') \<longleftrightarrow> all_frames b' A' = all_frames b A"
  by (simp add: same_memory_def all_frames_def)

lemma books_apart: "books b A P \<Longrightarrow> x \<in># P \<Longrightarrow> x \<notin># A"
proof -
  assume "books b A P" and x: "x \<in># P"
  then have "count A x + count P x = 1" "count P x \<noteq> 0" by (auto simp: books_def simp del: sys_ok.simps)
  then have "count A x = 0" by linarith
  then show "x \<notin># A" by (simp add: not_in_iff)
qed

lemma books_step:
  assumes "books b A P" and "frame_step (b, A) (b', A')"
  shows "books b' A' P \<and> all_frames b' (A' + P) = all_frames b (A + P)"
proof -
  have ok: "sys_ok (b, A + P)" and apart: "\<forall>x \<in># P. x \<notin># A"
    using assms(1) books_apart by (auto simp: books_def simp del: sys_ok.simps)
  note step = frame_step_frame [OF ok apart assms(2)]
  have "count (A' + P) x = 1" if "x \<in># P" for x
    using that apart step(2) assms(1) by (simp add: books_def not_in_iff)
  then show ?thesis
    using frame_step_ok [OF ok step(1)] by (simp add: books_def same_memory_iff del: sys_ok.simps)
qed

lemma books_move: "books b (add_mset x A) P \<Longrightarrow> count (add_mset x A + P) x = 1 \<Longrightarrow> books b A (add_mset x P)"
  by (auto simp: books_def simp del: sys_ok.simps)

lemma books_back: "books b A (add_mset x P) \<Longrightarrow> books b (add_mset x A) P"
  by (auto simp: books_def simp del: sys_ok.simps)

text \<open>A frame just allocated has one reference.\<close>

lemma books_alloc:
  assumes ok: "books b A P" and alloc: "alloc_inner 0 b = (b', Ok a)"
  shows "a = frame_addr (frame_index a)" and "books b' A (add_mset (frame_index a, 0) P)"
    and "all_frames b' (add_mset (frame_index a, 0) A + P) = all_frames b (A + P)"
proof -
  have sys: "sys_ok (b, A + P)" using ok by (simp add: books_def)
  then have core: "core_ok b" by (simp add: buddy_ok_def)
  obtain n s where x: "(n, s) \<in> blocks b" and a: "a = frame_addr n"
    by (rule alloc_cases [OF core, of 0]) (use alloc in auto)
  then show "a = frame_addr (frame_index a)" by simp
  have fresh: "(frame_index a, 0) \<notin># A + P" using taken_step(3) [OF sys x] a by simp
  note step = books_step [OF ok frame_step.alloc [OF alloc, of A]]
  then show "all_frames b' (add_mset (frame_index a, 0) A + P) = all_frames b (A + P)" by simp
  show "books b' A (add_mset (frame_index a, 0) P)"
    using step fresh by (intro books_move) (auto simp: not_in_iff)
qed

text \<open>Freeing a cached frame for good.\<close>

lemma books_free:
  assumes ok: "books b A (add_mset (n, 0) P)" and free: "free_inner (frame_addr n) 0 b = (b', r)"
  shows "books b' A P" and "all_frames b' (A + P) = all_frames b (A + add_mset (n, 0) P)"
proof -
  have "frame_step (b, add_mset (n, 0) A) (b', A)"
    using frame_step.free [of n 0 "add_mset (n, 0) A" b b' r] free by simp
  from books_step [OF books_back [OF ok] this] show "books b' A P"
    and "all_frames b' (A + P) = all_frames b (A + add_mset (n, 0) P)" by simp_all
qed

section \<open>Refill and drain\<close>

lemma refill_loop_ok:
  assumes "books b A (Q + cached c)" and "cache_ok c" and "fc_count c + n \<le> PCPU_CACHE_SIZE"
    and "refill_loop n b c = (b', c', m)"
  shows "books b' A (Q + cached c') \<and> cache_ok c' \<and> all_frames b' (A + (Q + cached c')) = all_frames b (A + (Q + cached c))
    \<and> fc_count c' = fc_count c + m"
  using assms
proof (induction n arbitrary: b c m)
  case 0
  then show ?case by simp
next
  case (Suc n)
  show ?case
  proof (cases "snd (alloc_inner 0 b)")
    case (Inl e)
    have "core_ok b" using Suc.prems(1) by (simp add: books_def buddy_ok_def)
    then have "fst (alloc_inner 0 b) = b"
      by (rule alloc_cases [of b 0]) (use Inl in auto)
    with Inl Suc.prems show ?thesis by (cases "alloc_inner 0 b") simp
  next
    case (Inr a)
    then obtain b1 where alloc: "alloc_inner 0 b = (b1, Ok a)" by (cases "alloc_inner 0 b") simp
    note new = books_alloc [OF Suc.prems(1) alloc]
    have "FRAME_SIZE dvd a" using new(1) frame_addr_simps(4) by metis
    then obtain c1 where c1: "cache_push a c = (c1, True)" "cache_ok c1" "fc_count c1 = fc_count c + 1"
      "cached c1 = add_mset (frame_index a, 0) (cached c)"
      by (rule push_cases [OF Suc.prems(2)]) (use Suc.prems(3) in auto)
    obtain k where "refill_loop n b1 c1 = (b', c', k)" and m: "m = Suc k"
      using Suc.prems(4) alloc c1(1) by (auto split: prod.splits)
    moreover have "books b1 A (Q + cached c1)" using new(2) c1(4) by simp
    moreover have "all_frames b1 (A + (Q + cached c1)) = all_frames b (A + (Q + cached c))"
      using new(3) c1(4) by simp
    moreover have "fc_count c1 + n \<le> PCPU_CACHE_SIZE" using c1(3) Suc.prems(3) by simp
    ultimately show ?thesis using Suc.IH [of b1 c1 k] c1(2,3) m by simp
  qed
qed

lemma drain_loop_ok:
  assumes "books b A (Q + cached c)" and "cache_ok c" and "drain_loop n b c = (b', c', m)"
  shows "books b' A (Q + cached c') \<and> cache_ok c' \<and> all_frames b' (A + (Q + cached c')) = all_frames b (A + (Q + cached c))
    \<and> fc_count c = fc_count c' + m \<and> (fc_count c' = 0 \<or> m = n)"
  using assms
proof (induction n arbitrary: b c m)
  case 0
  then show ?case by simp
next
  case (Suc n)
  from Suc.prems(2) show ?case
  proof (cases rule: pop_cases)
    case empty
    then show ?thesis using Suc.prems by simp
  next
    case (some c1 i)
    obtain b1 r where free: "free_inner (frame_addr i) 0 b = (b1, r)" by fastforce
    obtain k where run: "drain_loop n b1 c1 = (b', c', k)" and m: "m = Suc k"
      using Suc.prems(3) some(1) free by (auto split: prod.splits)
    have owner: "books b A (add_mset (i, 0) (Q + cached c1))" using Suc.prems(1) some(4) by simp
    have "all_frames b1 (A + (Q + cached c1)) = all_frames b (A + (Q + cached c))"
      using books_free(2) [OF owner free] some(4) by simp
    with run show ?thesis using Suc.IH [of b1 c1 k] books_free(1) [OF owner free] some(2,3) m by simp
  qed
qed

section \<open>Every call keeps the books\<close>

definition cpus_ok :: "frame_alloc \<Rightarrow> block multiset \<Rightarrow> bool" where
  "cpus_ok s A \<longleftrightarrow> books (fa_buddy s) A (all_cached s) \<and> (\<forall>c \<in> set (fa_caches s). cache_ok c)"

definition all_memory :: "frame_alloc \<Rightarrow> block multiset \<Rightarrow> nat set" where
  "all_memory s A = all_frames (fa_buddy s) (A + all_cached s)"

definition keeps :: "frame_alloc \<Rightarrow> block multiset \<Rightarrow> frame_alloc \<Rightarrow> block multiset \<Rightarrow> bool" where
  "keeps s A s' A' \<longleftrightarrow> cpus_ok s' A' \<and> all_memory s' A' = all_memory s A \<and> length (fa_caches s') = length (fa_caches s)"

lemma keeps_refl: "cpus_ok s A \<Longrightarrow> keeps s A s A"
  by (simp add: keeps_def)

lemma keeps_trans: "keeps s A t B \<Longrightarrow> keeps t B u C \<Longrightarrow> keeps s A u C"
  by (simp add: keeps_def)

lemma keeps_ok: "keeps s A t B \<Longrightarrow> cpus_ok t B" "keeps s A t B \<Longrightarrow> length (fa_caches t) = length (fa_caches s)"
  by (simp_all add: keeps_def)

text \<open>One CPU's cache apart from the others.\<close>

lemma cache_at:
  assumes "cpu < length (fa_caches s)"
  obtains Q where "all_cached s = Q + cached (fa_caches s ! cpu)"
    and "\<And>c t. fa_caches t = (fa_caches s)[cpu := c] \<Longrightarrow> all_cached t = Q + cached c"
proof -
  let ?cs = "fa_caches s"
  let ?Q = "(\<Sum>c \<leftarrow> take cpu ?cs. cached c) + (\<Sum>c \<leftarrow> drop (Suc cpu) ?cs. cached c)"
  have all: "all_cached t = ?Q + cached c" if "fa_caches t = ?cs[cpu := c]" for c t
    using that assms by (simp add: all_cached_def upd_conv_take_nth_drop)
  from all [of s "?cs ! cpu"] have "all_cached s = ?Q + cached (?cs ! cpu)" by simp
  with all show thesis using that [of ?Q] by blast
qed

lemma cache_step:
  assumes ok: "cpus_ok s A" and cpu: "cpu < length (fa_caches s)" and t: "fa_caches t = (fa_caches s)[cpu := c]"
    and step: "\<And>Q. books (fa_buddy s) A (Q + cached (fa_caches s ! cpu)) \<Longrightarrow> cache_ok (fa_caches s ! cpu) \<Longrightarrow>
      books (fa_buddy t) A' (Q + cached c) \<and> cache_ok c
      \<and> all_frames (fa_buddy t) (A' + (Q + cached c)) = all_frames (fa_buddy s) (A + (Q + cached (fa_caches s ! cpu)))"
  shows "keeps s A t A'"
proof -
  obtain Q where Q: "all_cached s = Q + cached (fa_caches s ! cpu)" "all_cached t = Q + cached c"
    using t by (blast intro: cache_at [OF cpu])
  have "cache_ok d" if "d \<in> set (fa_caches t)" "d \<noteq> c" for d
    using that ok set_update_subset_insert [of "fa_caches s" cpu c] unfolding t cpus_ok_def by blast
  moreover have "books (fa_buddy t) A' (Q + cached c) \<and> cache_ok c
      \<and> all_frames (fa_buddy t) (A' + (Q + cached c)) = all_frames (fa_buddy s) (A + (Q + cached (fa_caches s ! cpu)))"
    using ok cpu Q(1) by (intro step) (auto simp: cpus_ok_def)
  ultimately show ?thesis unfolding keeps_def cpus_ok_def all_memory_def Q t by auto
qed

lemma buddy_keeps:
  assumes "cpus_ok s A" and "frame_step (fa_buddy s, A) (b', A')"
  shows "keeps s A (s\<lparr>fa_buddy := b'\<rparr>) A'"
proof -
  have "all_cached (s\<lparr>fa_buddy := b'\<rparr>) = all_cached s" by (simp add: all_cached_def)
  moreover have "books (fa_buddy s) A (all_cached s)" using assms(1) by (simp add: cpus_ok_def)
  note books_step [OF this assms(2)]
  ultimately show ?thesis
    using assms(1) by (simp add: keeps_def cpus_ok_def all_memory_def)
qed

lemma refill_keeps:
  assumes "cpus_ok s A" and "cpu < length (fa_caches s)" and "fc_count (fa_caches s ! cpu) = 0"
  shows "keeps s A (fst (pcpu_refill cpu s)) A"
proof -
  obtain b c m where run: "refill_loop PCPU_BATCH (fa_buddy s) (fa_caches s ! cpu) = (b, c, m)" by (cases rule: prod_cases3)
  then have t: "fst (pcpu_refill cpu s) = put_cache cpu c (s\<lparr>fa_buddy := b\<rparr>)" by (simp add: pcpu_refill_def)
  have "fc_count (fa_caches s ! cpu) + PCPU_BATCH \<le> PCPU_CACHE_SIZE" using assms(3) by (simp add: PCPU_BATCH_def)
  then show ?thesis
    unfolding t using refill_loop_ok [OF _ _ _ run] by (intro cache_step [OF assms(1,2)]) (auto simp: put_cache_def)
qed

lemma drain_keeps:
  assumes "cpus_ok s A" and "cpu < length (fa_caches s)"
  shows "keeps s A (fst (pcpu_drain cpu s)) A"
proof -
  obtain b c m where run: "drain_loop PCPU_BATCH (fa_buddy s) (fa_caches s ! cpu) = (b, c, m)" by (cases rule: prod_cases3)
  then have t: "fst (pcpu_drain cpu s) = put_cache cpu c (s\<lparr>fa_buddy := b\<rparr>)" by (simp add: pcpu_drain_def)
  show ?thesis
    unfolding t using drain_loop_ok [OF _ _ run] by (intro cache_step [OF assms]) (auto simp: put_cache_def)
qed

lemma pop_keeps:
  assumes ok: "cpus_ok s A" and cpu: "cpu < length (fa_caches s)" and pop: "cache_pop (fa_caches s ! cpu) = (c, Some a)"
  shows "keeps s A (put_cache cpu c s) (add_mset (frame_index a, 0) A) \<and> a = frame_addr (frame_index a)"
proof -
  have "cache_ok (fa_caches s ! cpu)" using ok cpu by (auto simp: cpus_ok_def)
  then obtain n where n: "a = frame_addr n" "cache_ok c" "cached (fa_caches s ! cpu) = add_mset (n, 0) (cached c)"
    by (rule pop_cases) (use pop in auto)
  have "keeps s A (put_cache cpu c s) (add_mset (n, 0) A)"
    using n books_back by (intro cache_step [OF ok cpu]) (auto simp: put_cache_def)
  with n show ?thesis by simp
qed

lemma push_keeps:
  assumes ok: "cpus_ok s A" and cpu: "cpu < length (fa_caches s)" and x: "(n, 0) \<in># A"
    and sole: "\<not> frame_is_shared (frame_addr n) (fa_buddy s)" and push: "cache_push (frame_addr n) (fa_caches s ! cpu) = (c, True)"
  shows "keeps s A (put_cache cpu c s) (A - {#(n, 0)#})"
proof -
  let ?A = "A - {#(n, 0)#}"
  have A: "A = add_mset (n, 0) ?A" using x by simp
  have "cache_ok (fa_caches s ! cpu)" using ok cpu by (auto simp: cpus_ok_def)
  moreover have "FRAME_SIZE dvd frame_addr n" by simp
  ultimately obtain c: "cache_ok c" "cached c = add_mset (n, 0) (cached (fa_caches s ! cpu))"
    by (rule push_cases) (use push in auto)
  have "books (fa_buddy s) ?A (Q + cached c)" if b: "books (fa_buddy s) A (Q + cached (fa_caches s ! cpu))" for Q
  proof -
    let ?D = "A + (Q + cached (fa_caches s ! cpu))"
    have sys: "sys_ok (fa_buddy s, ?D)" using b by (simp add: books_def)
    then have "owned ?D (fa_buddy s) (n, 0)" "length (bd_info (fa_buddy s)) = bd_total (fa_buddy s)"
      using x core_okD(2) [of "fa_buddy s"] by (auto simp: buddy_ok_def)
    then have "unat (bd_ref (fa_buddy s) ! n) = count ?D (n, 0)" "n < length (bd_info (fa_buddy s))"
      by (auto simp: owned_def good_def)
    moreover from this sole have "unat (bd_ref (fa_buddy s) ! n) \<le> 1"
      by (simp add: frame_is_shared_def get_refcount_def word_less_nat_alt)
    moreover have "0 < count ?D (n, 0)" using x by simp
    ultimately have "count ?D (n, 0) = 1" by linarith
    then show ?thesis using b A books_move [of "fa_buddy s" "(n, 0)" ?A] c(2) by simp
  qed
  moreover have "?A + (Q + cached c) = A + (Q + cached (fa_caches s ! cpu))" for Q
    by (subst (2) A) (simp add: c(2))
  moreover have "fa_buddy (put_cache cpu c s) = fa_buddy s" "fa_caches (put_cache cpu c s) = (fa_caches s)[cpu := c]"
    by (simp_all add: put_cache_def)
  ultimately show ?thesis
    using c(1) by (intro cache_step [OF ok cpu, of _ c]) metis+
qed

lemma free_order_keeps:
  assumes "cpus_ok s A" and "(n, k) \<in># A"
  shows "keeps s A (fst (free_order (frame_addr n) k s)) (A - {#(n, k)#})"
proof -
  obtain b r where free: "free_inner (frame_addr n) k (fa_buddy s) = (b, r)" by fastforce
  then show ?thesis
    using buddy_keeps [OF assms(1) frame_step.free [OF assms(2) free]] by (simp add: free_order_def)
qed

lemma shared_iff:
  assumes ok: "cpus_ok s A" and x: "(n, 0) \<in># A"
  shows "frame_is_shared (frame_addr n) (fa_buddy s) \<longleftrightarrow> 1 < count A (n, 0)"
proof -
  let ?D = "A + all_cached s"
  have books: "books (fa_buddy s) A (all_cached s)" using ok by (simp add: cpus_ok_def)
  then have sys: "sys_ok (fa_buddy s, ?D)" by (simp add: books_def)
  then have "owned ?D (fa_buddy s) (n, 0)" "length (bd_info (fa_buddy s)) = bd_total (fa_buddy s)"
    using x core_okD(2) [of "fa_buddy s"] by (auto simp: buddy_ok_def)
  then have "unat (bd_ref (fa_buddy s) ! n) = count ?D (n, 0)" "n < length (bd_info (fa_buddy s))"
    by (auto simp: owned_def good_def)
  moreover have "(n, 0) \<notin># all_cached s" using books_apart [OF books] x by blast
  then have "count ?D (n, 0) = count A (n, 0)" by (simp add: not_in_iff)
  ultimately show ?thesis by (simp add: frame_is_shared_def get_refcount_def word_less_nat_alt)
qed

lemma drained_keeps:
  "cpus_ok s A \<Longrightarrow> cpu < length (fa_caches s) \<Longrightarrow> keeps s A (if p then fst (pcpu_drain cpu s) else s) A"
  using drain_keeps keeps_refl by simp

lemma free_frame_keeps:
  assumes ok: "cpus_ok s A" and cpu: "cpu < length (fa_caches s)" and x: "(n, 0) \<in># A"
  shows "keeps s A (fst (free_frame cpu (frame_addr n) s)) (A - {#(n, 0)#})"
proof (cases "fa_pcpu s \<and> \<not> frame_is_shared (frame_addr n) (fa_buddy s) \<and> \<not> in_dma_zone (frame_addr n) 0")
  case False
  then have "free_frame cpu (frame_addr n) s = free_order (frame_addr n) 0 s" by (auto simp: free_frame_def)
  then show ?thesis using free_order_keeps [OF ok x] by simp
next
  case True
  define t where "t = (if cache_is_full (fa_caches s ! cpu) then fst (pcpu_drain cpu s) else s)"
  have t: "keeps s A t A" unfolding t_def using drained_keeps [OF ok cpu] .
  obtain c p where push: "cache_push (frame_addr n) (fa_caches t ! cpu) = (c, p)" by fastforce
  have run: "fst (free_frame cpu (frame_addr n) s) =
      (if p then put_cache cpu c t else fst (free_order (frame_addr n) 0 t))"
    using True push by (simp add: free_frame_def t_def [symmetric] Let_def split: bool.split)
  have sole: "\<not> frame_is_shared (frame_addr n) (fa_buddy t)"
    using True shared_iff [OF ok x] shared_iff [OF keeps_ok(1) [OF t] x] by simp
  have "keeps t A (fst (free_frame cpu (frame_addr n) s)) (A - {#(n, 0)#})"
    using push_keeps [OF keeps_ok(1) [OF t] _ x sole] free_order_keeps [OF keeps_ok(1) [OF t] x] keeps_ok(2) [OF t] cpu push
    unfolding run by simp
  with t show ?thesis by (rule keeps_trans)
qed

text \<open>What a call that answers \<open>r\<close> leaves its caller with.\<close>

definition given :: "nat \<Rightarrow> nat option kernel_result \<Rightarrow> block multiset \<Rightarrow> block multiset" where
  "given k r A = (case r of Inr (Some a) \<Rightarrow> add_mset (frame_index a, k) A | _ \<Rightarrow> A)"

lemma alloc_order_keeps:
  assumes ok: "cpus_ok s A" and run: "alloc_order_first k charge s = (s', r)"
  shows "keeps s A s' (given k r A)"
proof (cases "alloc_inner k (fa_buddy s)")
  case (Pair b q)
  show ?thesis
  proof (cases q)
    case (Inl e)
    then have "keeps s A (s\<lparr>fa_buddy := b\<rparr>) A"
      using buddy_keeps [OF ok frame_step.alloc_fails] Pair by blast
    then show ?thesis
      using run Pair Inl by (auto simp: alloc_order_first_def alloc_attempt_def given_def split: if_splits)
  next
    case (Inr a)
    then have alloc: "alloc_inner k (fa_buddy s) = (b, Ok a)" using Pair by simp
    let ?t = "s\<lparr>fa_buddy := b\<rparr>"
    have t: "keeps s A ?t (add_mset (frame_index a, k) A)"
      using buddy_keeps [OF ok frame_step.alloc [OF alloc, of A]] .
    have "core_ok (fa_buddy s)" using ok by (simp add: cpus_ok_def books_def buddy_ok_def)
    moreover have "k \<le> MAX_ORDER" using alloc by (cases "MAX_ORDER < k") (auto simp: alloc_inner_def)
    ultimately obtain n where a: "a = frame_addr n"
      by (rule alloc_cases) (use alloc in auto)
    have "keeps s A (fst (free_order a k ?t)) A"
      using keeps_trans [OF t free_order_keeps [OF keeps_ok(1) [OF t], of n k]] a by simp
    then show ?thesis
      using run alloc t a by (auto simp: alloc_order_first_def alloc_attempt_def given_def phys_frame_def split: sum.splits)
  qed
qed

lemma give_cached_keeps:
  assumes ok: "cpus_ok s A" and cpu: "cpu < length (fa_caches s)" "cpu' < length (fa_caches s)"
    and pop: "cache_pop (fa_caches s ! cpu) = (c, Some a)" and run: "give_cached cpu' charge a (put_cache cpu c s) = (s', r)"
  shows "keeps s A s' (given 0 r A)"
proof -
  let ?t = "put_cache cpu c s"
  obtain n where a: "a = frame_addr n" and t: "keeps s A ?t (add_mset (n, 0) A)"
    using pop_keeps [OF ok cpu(1) pop] frame_addr_simps(1) by metis
  have "keeps s A (fst (free_frame cpu' a ?t)) A"
    using keeps_trans [OF t free_frame_keeps [OF keeps_ok(1) [OF t], of cpu' n]] keeps_ok(2) [OF t] cpu(2) a by simp
  then show ?thesis
    using run t a by (auto simp: give_cached_def given_def phys_frame_def split: sum.splits)
qed

lemma alloc_frame_keeps:
  assumes ok: "cpus_ok s A" and cpu: "cpu < length (fa_caches s)" "cpu' < length (fa_caches s)"
    and run: "alloc_frame cpu cpu' charge s = (s', r)"
  shows "keeps s A s' (given 0 r A)"
proof (cases "fa_pcpu s")
  case False
  then show ?thesis using run alloc_order_keeps [OF ok] by (simp add: alloc_frame_def)
next
  case True
  have "cache_ok (fa_caches s ! cpu)" using ok cpu by (auto simp: cpus_ok_def)
  then show ?thesis
  proof (cases rule: pop_cases)
    case (some c n)
    then show ?thesis using run True give_cached_keeps [OF ok cpu some(1)] by (simp add: alloc_frame_def)
  next
    case empty
    obtain t m where refill: "pcpu_refill cpu s = (t, m)" by fastforce
    then have t: "keeps s A t A" using refill_keeps [OF ok cpu(1) empty(2)] by simp
    have cpu': "cpu < length (fa_caches t)" "cpu' < length (fa_caches t)" using cpu keeps_ok(2) [OF t] by simp_all
    obtain c q where pop: "cache_pop (fa_caches t ! cpu) = (c, q)" by fastforce
    consider (cached) a where "q = Some a" "give_cached cpu' charge a (put_cache cpu c t) = (s', r)"
      | (slow) "alloc_order_first 0 charge t = (s', r)"
      using run True empty refill pop by (auto simp: alloc_frame_def split: if_splits option.splits)
    then have "keeps t A s' (given 0 r A)"
    proof cases
      case cached
      with pop show ?thesis using give_cached_keeps [OF keeps_ok(1) [OF t] cpu'] by blast
    next
      case slow
      then show ?thesis by (rule alloc_order_keeps [OF keeps_ok(1) [OF t]])
    qed
    with t show ?thesis by (rule keeps_trans)
  qed
qed

section \<open>Any sequence of calls\<close>

text \<open>
  Callers on any CPUs: whatever goes past the caches, the single-frame calls through them, and the
  moment the caches are switched on.
\<close>

inductive cpu_step :: "frame_alloc \<times> block multiset \<Rightarrow> frame_alloc \<times> block multiset \<Rightarrow> bool" where
  past: "frame_step (fa_buddy s, A) (b', A') \<Longrightarrow> cpu_step (s, A) (s\<lparr>fa_buddy := b'\<rparr>, A')"
| order: "alloc_order_first k charge s = (s', r) \<Longrightarrow> cpu_step (s, A) (s', given k r A)"
| get: "cpu < length (fa_caches s) \<Longrightarrow> cpu' < length (fa_caches s) \<Longrightarrow> alloc_frame cpu cpu' charge s = (s', r)
    \<Longrightarrow> cpu_step (s, A) (s', given 0 r A)"
| give: "cpu < length (fa_caches s) \<Longrightarrow> (n, 0) \<in># A \<Longrightarrow> free_frame cpu (frame_addr n) s = (s', r)
    \<Longrightarrow> cpu_step (s, A) (s', A - {#(n, 0)#})"
| enable: "cpu_step (s, A) (enable_pcpu_caches s, A)"

lemma cpu_step_keeps:
  assumes "cpus_ok s A" and "cpu_step (s, A) (s', A')"
  shows "keeps s A s' A'"
  using assms(2)
proof (cases rule: cpu_step.cases)
  case (past b')
  then show ?thesis using buddy_keeps [OF assms(1)] by simp
next
  case (order k charge r)
  then show ?thesis using alloc_order_keeps [OF assms(1)] by simp
next
  case (get cpu cpu' charge r)
  then show ?thesis using alloc_frame_keeps [OF assms(1)] by simp
next
  case (give cpu n r)
  then show ?thesis using free_frame_keeps [OF assms(1)] by (metis fst_conv)
next
  case enable
  then show ?thesis
    using assms(1) by (simp add: keeps_def cpus_ok_def all_memory_def all_cached_def enable_pcpu_caches_def)
qed

lemma cpu_run_keeps: "cpu_step\<^sup>*\<^sup>* p q \<Longrightarrow> cpus_ok (fst p) (snd p) \<Longrightarrow> keeps (fst p) (snd p) (fst q) (snd q)"
proof (induction rule: rtranclp_induct)
  case base
  then show ?case by (rule keeps_refl)
next
  case (step q1 q2)
  then have one: "keeps (fst p) (snd p) (fst q1) (snd q1)" by blast
  then have "keeps (fst q1) (snd q1) (fst q2) (snd q2)"
    using cpu_step_keeps [OF keeps_ok(1) [OF one]] step(2) by simp
  with one show ?case by (rule keeps_trans)
qed

text \<open>The accounts that a consistent state has.\<close>

lemma cpus_books:
  assumes "cpus_ok s A"
  shows "\<forall>x \<in> set_mset A. \<forall>y \<in> set_mset A. x \<noteq> y \<longrightarrow> span x \<inter> span y = {}"
    and "held_frames A \<inter> free_frames (fa_buddy s) = {}"
    and "held_frames (all_cached s) \<inter> (held_frames A \<union> free_frames (fa_buddy s)) = {}"
    and "all_memory s A = free_frames (fa_buddy s) \<union> held_frames (all_cached s) \<union> held_frames A"
proof -
  let ?P = "all_cached s" and ?b = "fa_buddy s"
  have books: "books ?b A ?P" using assms by (simp add: cpus_ok_def)
  then have sys: "sys_ok (?b, A + ?P)" by (simp add: books_def)
  have off: "span x \<inter> free_frames ?b = {}" if "x \<in># A \<or> x \<in># ?P" for x
    using sys that by (auto simp: owned_def)
  have apart: "span x \<inter> span y = {}" if "x \<in># A + ?P" "y \<in># A + ?P" "x \<noteq> y" for x y
    using sys that by auto
  have "span x \<inter> span y = {}" if "x \<in># ?P" "y \<in># A" for x y
    using apart [of x y] books_apart [OF books that(1)] that by fastforce
  then show "held_frames ?P \<inter> (held_frames A \<union> free_frames ?b) = {}"
    using off unfolding held_frames_def by blast
  show "held_frames A \<inter> free_frames ?b = {}" using off unfolding held_frames_def by blast
  show "\<forall>x \<in> set_mset A. \<forall>y \<in> set_mset A. x \<noteq> y \<longrightarrow> span x \<inter> span y = {}" using apart by simp
  show "all_memory s A = free_frames ?b \<union> held_frames ?P \<union> held_frames A"
    by (auto simp: all_memory_def all_frames_def held_frames_def)
qed

lemma nothing_cached: "sum_list (replicate n {#}) = {#}"
  by (induction n) simp_all

lemma frame_alloc_new_ok: "sys_ok (b, {#}) \<Longrightarrow> cpus_ok (frame_alloc_new b) {#}"
  by (simp add: cpus_ok_def books_def all_cached_def frame_alloc_new_def nothing_cached del: sys_ok.simps)

text \<open>A caller with one frame, and the caches on.\<close>

definition one_frame :: frame_alloc where
  "one_frame = enable_pcpu_caches ((frame_alloc_new small_buddy)\<lparr>fa_buddy := taken (1024, 2) 0 small_buddy\<rparr>)"

lemma one_frame_reached:
  "cpus_ok (frame_alloc_new small_buddy) {#}" "cpu_step\<^sup>*\<^sup>* (frame_alloc_new small_buddy, {#}) (one_frame, {#(1024, 0)#})"
  "cpus_ok one_frame {#(1024, 0)#}"
proof -
  let ?s = "frame_alloc_new small_buddy"
  show start: "cpus_ok ?s {#}" using small_ok(1) by (intro frame_alloc_new_ok) simp
  have "fa_buddy ?s = small_buddy" by (simp add: frame_alloc_new_def)
  then have "cpu_step (?s, {#}) (?s\<lparr>fa_buddy := taken (1024, 2) 0 small_buddy\<rparr>, {#(1024, 0)#})"
    using cpu_step.past [OF frame_step.alloc [of 0 "fa_buddy ?s" _ "frame_addr 1024" "{#}"]] small_alloc [of 0] by simp
  moreover have "cpu_step (?s\<lparr>fa_buddy := taken (1024, 2) 0 small_buddy\<rparr>, {#(1024, 0)#}) (one_frame, {#(1024, 0)#})"
    unfolding one_frame_def by (rule cpu_step.enable)
  ultimately show run: "cpu_step\<^sup>*\<^sup>* (?s, {#}) (one_frame, {#(1024, 0)#})" by auto
  show "cpus_ok one_frame {#(1024, 0)#}" using keeps_ok(1) [OF cpu_run_keeps [OF run]] start by simp
qed

text \<open>
  C3: No frame is in two hands and none is lost. Over any sequence of allocations (of any order, below
  an address, through the caches, refused by a charge), sharings and frees by callers on any CPUs, the
  blocks held stay disjoint from each other, from every CPU's cache and from the free lists, and the
  frames that are free, cached or held are those that were so before.
\<close>

theorem frames_never_in_two_hands:
  assumes "cpus_ok s A" and "cpu_step\<^sup>*\<^sup>* (s, A) (s', A')"
  shows "(\<forall>x \<in> set_mset A'. \<forall>y \<in> set_mset A'. x \<noteq> y \<longrightarrow> span x \<inter> span y = {})
    \<and> held_frames A' \<inter> free_frames (fa_buddy s') = {}
    \<and> held_frames (all_cached s') \<inter> (held_frames A' \<union> free_frames (fa_buddy s')) = {}
    \<and> free_frames (fa_buddy s') \<union> held_frames (all_cached s') \<union> held_frames A'
      = free_frames (fa_buddy s) \<union> held_frames (all_cached s) \<union> held_frames A"
proof -
  have "keeps s A s' A'" using cpu_run_keeps [OF assms(2)] assms(1) by simp
  then have "cpus_ok s' A'" "all_memory s' A' = all_memory s A" by (simp_all add: keeps_def)
  then show ?thesis using cpus_books [of s' A'] cpus_books(4) [OF assms(1)] by simp
qed

theorem frames_never_in_two_hands_witness:
  "cpu_step\<^sup>*\<^sup>* (frame_alloc_new small_buddy, {#}) (one_frame, {#(1024, 0)#}) \<and> 1024 \<notin> free_frames (fa_buddy one_frame)"
proof -
  have "held_frames {#(1024, 0)#} = {1024}" by (auto simp: held_frames_def)
  then show ?thesis
    using frames_never_in_two_hands [OF one_frame_reached(1,2)] one_frame_reached(2) by blast
qed

section \<open>One allocation\<close>

lemma alloc_order_answers:
  assumes ok: "cpus_ok s A" and k: "k \<le> MAX_ORDER" and run: "alloc_order_first k charge s = (s', r)"
  shows "case r of
      Inl e \<Rightarrow> charge = Inl e
    | Inr None \<Rightarrow> (\<forall>(m, j) \<in> blocks (fa_buddy s). j < k)
    | Inr (Some a) \<Rightarrow> charge = Ok () \<and> span (frame_index a, k) \<subseteq> free_frames (fa_buddy s)"
proof -
  have "core_ok (fa_buddy s)" and b: "buddy_ok (fa_buddy s)"
    using ok by (simp_all add: cpus_ok_def books_def buddy_ok_def)
  from this(1) k show ?thesis
  proof (cases rule: alloc_cases)
    case none
    then show ?thesis using run by (auto simp: alloc_order_first_def alloc_attempt_def)
  next
    case (some n j)
    then show ?thesis
      using run taken_ok(4) [OF b some(1,2)]
      by (auto simp: alloc_order_first_def alloc_attempt_def phys_frame_def simp del: span.simps split: sum.splits)
  qed
qed

lemma give_cached_answers:
  "give_cached cpu' charge (frame_addr n) s = (s', r) \<Longrightarrow>
    case r of Inl e \<Rightarrow> charge = Inl e | Inr q \<Rightarrow> charge = Ok () \<and> q = Some (frame_addr n)"
  by (auto simp: give_cached_def phys_frame_def split: sum.splits)

lemma popped_is_cached:
  assumes ok: "cpus_ok s A" and cpu: "cpu < length (fa_caches s)" and pop: "cache_pop (fa_caches s ! cpu) = (c, Some a)"
  shows "\<exists>n. a = frame_addr n \<and> n \<in> held_frames (all_cached s)"
proof -
  obtain Q where Q: "all_cached s = Q + cached (fa_caches s ! cpu)" by (blast intro: cache_at [OF cpu])
  have "cache_ok (fa_caches s ! cpu)" using ok cpu by (auto simp: cpus_ok_def)
  then obtain n where "a = frame_addr n" "cached (fa_caches s ! cpu) = add_mset (n, 0) (cached c)"
    by (rule pop_cases) (use pop in auto)
  then show ?thesis using Q by (auto simp: held_frames_def)
qed

lemma shared_put_cache [simp]:
  "fa_buddy (put_cache cpu c s) = fa_buddy s" "fa_pcpu (put_cache cpu c s) = fa_pcpu s"
  "cpu < length (fa_caches s) \<Longrightarrow> fa_caches (put_cache cpu c s) ! cpu = c"
  "length (fa_caches (put_cache cpu c s)) = length (fa_caches s)"
  by (simp_all add: put_cache_def)

lemma refill_counts:
  assumes ok: "cpus_ok s A" and cpu: "cpu < length (fa_caches s)" and empty: "fc_count (fa_caches s ! cpu) = 0"
    and run: "pcpu_refill cpu s = (t, m)"
  shows "fc_count (fa_caches t ! cpu) = m" and "m = 0 \<Longrightarrow> fa_buddy t = fa_buddy s"
proof -
  obtain b c where loop: "refill_loop PCPU_BATCH (fa_buddy s) (fa_caches s ! cpu) = (b, c, m)"
    and t: "t = put_cache cpu c (s\<lparr>fa_buddy := b\<rparr>)"
    using run by (auto simp: pcpu_refill_def split: prod.splits)
  obtain Q where "all_cached s = Q + cached (fa_caches s ! cpu)" by (blast intro: cache_at [OF cpu])
  then have books: "books (fa_buddy s) A (Q + cached (fa_caches s ! cpu))" "cache_ok (fa_caches s ! cpu)"
    using ok cpu by (auto simp: cpus_ok_def)
  have "fc_count (fa_caches s ! cpu) + PCPU_BATCH \<le> PCPU_CACHE_SIZE" using empty by (simp add: PCPU_BATCH_def)
  then have "fc_count c = m" using refill_loop_ok [OF books _ loop] empty by simp
  then show "fc_count (fa_caches t ! cpu) = m" using cpu by (simp add: t)
  have "core_ok (fa_buddy s)" using books(1) by (simp add: books_def buddy_ok_def)
  then have stay: "b = fa_buddy s" if "alloc_inner 0 (fa_buddy s) = (b, Err e)" for b e
    by (rule alloc_cases [of _ 0]) (use that in auto)
  obtain k where k: "PCPU_BATCH = Suc k" by (simp add: PCPU_BATCH_def PCPU_CACHE_SIZE_def)
  show "fa_buddy t = fa_buddy s" if "m = 0"
    using loop stay that unfolding k by (auto simp: t split: prod.splits sum.splits)
qed

lemma span_zero: "span (n, 0) = {n}"
  by auto

text \<open>
  C21: A single-frame allocation gives a frame nobody holds. The frame was on the free lists or in a
  cache, hence in nobody's hands; the call fails only if the cgroup refuses the charge, and comes to
  reclaiming memory only if the free lists are empty and so was this CPU's cache (those of the other
  CPUs, which may hold frames, are not asked).
\<close>

theorem alloc_frame_gives_unheld_frame:
  assumes ok: "cpus_ok s A" and cpu: "cpu < length (fa_caches s)"
    and run: "alloc_frame cpu cpu' charge s = (s', r)"
  shows "case r of
      Inl e \<Rightarrow> charge = Inl e
    | Inr None \<Rightarrow> free_frames (fa_buddy s) = {} \<and> (fa_pcpu s \<longrightarrow> fc_count (fa_caches s ! cpu) = 0)
    | Inr (Some a) \<Rightarrow> charge = Ok () \<and> frame_index a \<notin> held_frames A
        \<and> frame_index a \<in> free_frames (fa_buddy s) \<union> held_frames (all_cached s)"
proof -
  have slow: "case r of
      Inl e \<Rightarrow> charge = Inl e
    | Inr None \<Rightarrow> free_frames (fa_buddy t) = {}
    | Inr (Some a) \<Rightarrow> charge = Ok () \<and> frame_index a \<in> free_frames (fa_buddy t)"
    if "cpus_ok t A" "alloc_order_first 0 charge t = (s', r)" for t
    using alloc_order_answers [OF that(1) _ that(2)]
    by (auto simp: free_frames_def MAX_ORDER_def span_zero simp del: span.simps split: sum.splits option.splits)
  have mine: "i \<notin> held_frames A \<and> i \<in> free_frames (fa_buddy s) \<union> held_frames (all_cached s)"
    if "keeps s A t A" "i \<in> free_frames (fa_buddy t) \<union> held_frames (all_cached t)" for t i
    using cpus_books [OF keeps_ok(1) [OF that(1)]] cpus_books(4) [OF ok] that by (auto simp: keeps_def)
  show ?thesis
  proof (cases "fa_pcpu s")
    case False
    then show ?thesis
      using slow [OF ok] run mine [OF keeps_refl [OF ok]] by (auto simp: alloc_frame_def split: sum.splits option.splits)
  next
    case True
    have "cache_ok (fa_caches s ! cpu)" using ok cpu by (auto simp: cpus_ok_def)
    then show ?thesis
    proof (cases rule: pop_cases)
      case (some c n)
      then have "give_cached cpu' charge (frame_addr n) (put_cache cpu c s) = (s', r)" using run True by (simp add: alloc_frame_def)
      then show ?thesis
        using give_cached_answers popped_is_cached [OF ok cpu some(1)] mine [OF keeps_refl [OF ok]]
        by (fastforce split: sum.splits)
    next
      case empty
      obtain t m where refill: "pcpu_refill cpu s = (t, m)" by fastforce
      then have t: "keeps s A t A" using refill_keeps [OF ok cpu empty(2)] by simp
      have cpu': "cpu < length (fa_caches t)" using cpu keeps_ok(2) [OF t] by simp
      obtain c q where pop: "cache_pop (fa_caches t ! cpu) = (c, q)" by fastforce
      consider (cached) a where "q = Some a" "give_cached cpu' charge a (put_cache cpu c t) = (s', r)"
        | (slow) "alloc_order_first 0 charge t = (s', r)" "m = 0 \<or> q = None"
        using run True empty refill pop by (auto simp: alloc_frame_def split: if_splits option.splits)
      then show ?thesis
      proof cases
        case cached
        then show ?thesis
          using give_cached_answers popped_is_cached [OF keeps_ok(1) [OF t] cpu'] pop mine [OF t]
          by (fastforce split: sum.splits)
      next
        case slow': slow
        have "free_frames (fa_buddy s) = {}" if "free_frames (fa_buddy t) = {}"
        proof -
          have count: "fc_count (fa_caches t ! cpu) = m" using refill_counts(1) [OF ok cpu empty(2) refill] .
          have "q = None \<Longrightarrow> m = 0"
            using pop count by (auto simp: cache_pop_def Let_def split: if_splits)
          then have "m = 0" using slow'(2) by blast
          then show ?thesis using refill_counts(2) [OF ok cpu empty(2) refill] that by simp
        qed
        then show ?thesis
          using slow [OF keeps_ok(1) [OF t] slow'(1)] mine [OF t] empty(2) by (auto split: sum.splits option.splits)
      qed
    qed
  qed
qed

theorem alloc_frame_gives_unheld_frame_witness:
  "\<exists>s a. alloc_frame 0 0 (Ok ()) one_frame = (s, Ok (Some a)) \<and> frame_index a \<noteq> 1024"
proof -
  have cpu: "0 < length (fa_caches one_frame)" by (simp add: one_frame_def frame_alloc_new_def enable_pcpu_caches_def MAX_CPUS_def)
  obtain s r where run: "alloc_frame 0 0 (Ok ()) one_frame = (s, r)" by fastforce
  have "free_frames (fa_buddy one_frame) \<noteq> {}"
    using taken_ok(3) [OF small_ok(1), of 1024 2 0] small_ok(2,3) by (auto simp: one_frame_def enable_pcpu_caches_def)
  then show ?thesis
    using alloc_frame_gives_unheld_frame [OF one_frame_reached(3) cpu run] run
    by (auto simp: held_frames_def split: sum.splits option.splits)
qed

section \<open>A frame freed twice on one CPU\<close>

lemma in_cache_push:
  assumes "length (fc_frames c) = PCPU_CACHE_SIZE" and "cache_push a c = (c', True)"
  shows "in_cache c' = in_cache c @ [a]" and "length (fc_frames c') = PCPU_CACHE_SIZE"
  using assms
  by (auto simp: cache_push_def in_cache_def take_Suc_conv_app_nth nth_list_update split: if_splits)

text \<open>
  C37: Freeing a frame twice hands it out twice. With the per-CPU caches on, the free of a frame that
  lies outside the DMA zone and has no other holder puts it in the CPU's cache without looking
  whether it is in use. So a caller that is the only holder of such a frame and frees it twice on a
  CPU whose cache has room for two gets two successes, the cache's last two entries are both that
  frame, and the next two allocations there, if admitted by the memory charge and not moved to
  another CPU, both return it. A frame in the DMA zone goes to the lists, whose free looks.
\<close>

theorem double_free_hands_frame_out_twice:
  assumes ok: "cpus_ok s A" and on: "fa_pcpu s" and cpu: "cpu < length (fa_caches s)"
    and held: "count A (n, 0) = 1" and high: "\<not> in_dma_zone (frame_addr n) 0"
    and room: "fc_count (fa_caches s ! cpu) + 2 \<le> PCPU_CACHE_SIZE"
  shows "\<exists>s1 s2 s3 s4. free_frame cpu (frame_addr n) s = (s1, Ok ()) \<and> free_frame cpu (frame_addr n) s1 = (s2, Ok ())
    \<and> in_cache (fa_caches s2 ! cpu) = in_cache (fa_caches s ! cpu) @ [frame_addr n, frame_addr n]
    \<and> alloc_frame cpu cpu (Ok ()) s2 = (s3, Ok (Some (frame_addr n)))
    \<and> alloc_frame cpu cpu (Ok ()) s3 = (s4, Ok (Some (frame_addr n)))"
proof -
  have "(n, 0) \<in># A" using held by (metis count_greater_zero_iff zero_less_one)
  then have sole: "\<not> frame_is_shared (frame_addr n) (fa_buddy s)" using shared_iff [OF ok] held by simp
  define c where "c = fa_caches s ! cpu"
  have "cache_ok c" using ok cpu by (auto simp: cpus_ok_def c_def)
  then have len: "length (fc_frames c) = PCPU_CACHE_SIZE" by (simp add: cache_ok_def)
  define c1 where "c1 = c\<lparr>fc_frames := (fc_frames c)[fc_count c := frame_addr n], fc_count := fc_count c + 1\<rparr>"
  define c2 where "c2 = c1\<lparr>fc_frames := (fc_frames c1)[fc_count c1 := frame_addr n], fc_count := fc_count c1 + 1\<rparr>"
  have push: "cache_push (frame_addr n) c = (c1, True)" "cache_push (frame_addr n) c1 = (c2, True)"
    "\<not> cache_is_full c" "\<not> cache_is_full c1"
    using room by (simp_all add: cache_push_def cache_is_full_def c_def c1_def c2_def)
  have twice: "in_cache c2 = in_cache c @ [frame_addr n, frame_addr n]"
    using in_cache_push(1) [OF in_cache_push(2) [OF len push(1)] push(2)] in_cache_push(1) [OF len push(1)]
    by simp
  have pop: "cache_pop c2 = (c2\<lparr>fc_count := fc_count c + 1\<rparr>, Some (frame_addr n))"
    "cache_pop (c2\<lparr>fc_count := fc_count c + 1\<rparr>) = (c2\<lparr>fc_count := fc_count c\<rparr>, Some (frame_addr n))"
    using room len by (simp_all add: cache_pop_def Let_def c2_def c1_def c_def)
  have "free_frame cpu (frame_addr n) s = (put_cache cpu c1 s, Ok ())"
    using on sole high push by (simp add: free_frame_def c_def [symmetric])
  moreover have "free_frame cpu (frame_addr n) (put_cache cpu c1 s) = (put_cache cpu c2 (put_cache cpu c1 s), Ok ())"
    using on sole high push cpu by (simp add: free_frame_def)
  ultimately show ?thesis
    using on cpu pop twice by (simp add: alloc_frame_def give_cached_def phys_frame_def c_def)
qed

theorem double_free_hands_frame_out_twice_witness:
  "\<exists>s1 s2 s3 s4. free_frame 0 (frame_addr 1024) one_frame = (s1, Ok ()) \<and> free_frame 0 (frame_addr 1024) s1 = (s2, Ok ())
    \<and> in_cache (fa_caches s2 ! 0) = [frame_addr 1024, frame_addr 1024]
    \<and> alloc_frame 0 0 (Ok ()) s2 = (s3, Ok (Some (frame_addr 1024)))
    \<and> alloc_frame 0 0 (Ok ()) s3 = (s4, Ok (Some (frame_addr 1024)))"
proof -
  have "fa_pcpu one_frame" "0 < length (fa_caches one_frame)" "fc_count (fa_caches one_frame ! 0) = 0"
    by (simp_all add: one_frame_def enable_pcpu_caches_def frame_alloc_new_def MAX_CPUS_def cache_new_def)
  moreover from this(3) have "in_cache (fa_caches one_frame ! 0) = []" by (simp add: in_cache_def)
  moreover have "\<not> in_dma_zone (frame_addr 1024) 0"
    by (simp add: in_dma_zone_def frame_addr_def FRAME_SIZE_def checked_add64_def u64_max_def DMA_ZONE_END_def)
  ultimately show ?thesis
    using double_free_hands_frame_out_twice [OF one_frame_reached(3), of 0 1024] by (simp add: PCPU_CACHE_SIZE_def)
qed

end
