(* ===== verification/FrameBoot.thy ===== *)
theory FrameBoot imports FrameCache begin

text \<open>
  The frame allocator at boot, filled from the bootloader's memory map (\<^verbatim>\<open>init\<close> and the functions it
  calls in \<^verbatim>\<open>kernel/src/mm/frame.rs\<close>), and the kernel's own check of its free lists
  (\<^verbatim>\<open>validate_free_lists\<close>). What is in the metadata arrays other than \<^verbatim>\<open>page_info\<close> and
  \<^verbatim>\<open>refcount\<close> only matter for their size.
\<close>

section \<open>The memory map\<close>

record memmap_entry =
  me_base :: nat
  me_length :: nat
  me_type :: nat

definition USABLE :: nat where "USABLE = 0"
definition ACPI_RECLAIMABLE :: nat where "ACPI_RECLAIMABLE = 2"
definition BOOTLOADER_RECLAIMABLE :: nat where "BOOTLOADER_RECLAIMABLE = 5"

text \<open>Rounding to a power of two, \<^verbatim>\<open>& !(align - 1)\<close> in the code.\<close>

definition align_up :: "nat \<Rightarrow> nat \<Rightarrow> nat" where
  "align_up addr align = (addr + align - 1) div align * align"

definition align_down :: "nat \<Rightarrow> nat \<Rightarrow> nat" where
  "align_down addr align = addr div align * align"

definition me_end :: "memmap_entry \<Rightarrow> nat" where
  "me_end e = sat_add64 (me_base e) (me_length e)"

fun max_phys :: "memmap_entry list \<Rightarrow> nat \<Rightarrow> nat" where
  "max_phys [] m = m"
| "max_phys (e # es) m =
     (if me_type e \<in> {USABLE, BOOTLOADER_RECLAIMABLE, ACPI_RECLAIMABLE}
      then max_phys es (if m < me_end e then me_end e else m)
      else max_phys es m)"

text \<open>\<^verbatim>\<open>find_map\<close> over the entries, for one floor and then the other.\<close>

fun find_region :: "nat \<Rightarrow> nat \<Rightarrow> memmap_entry list \<Rightarrow> nat option" where
  "find_region floor_addr metadata_size [] = None"
| "find_region floor_addr metadata_size (e # es) =
     (let base = align_up (max (me_base e) floor_addr) FRAME_SIZE;
          e_end = align_down (me_end e) FRAME_SIZE
      in if me_type e = USABLE \<and> base < e_end \<and> metadata_size \<le> e_end - base then Some base
         else find_region floor_addr metadata_size es)"

definition metadata_base :: "memmap_entry list \<Rightarrow> nat \<Rightarrow> nat option" where
  "metadata_base es metadata_size =
     (case find_region DMA_ZONE_END metadata_size es of
        Some base \<Rightarrow> Some base
      | None \<Rightarrow> find_region LOW_MEMORY_RESERVE metadata_size es)"

definition zeroed_words :: "nat \<Rightarrow> nat" where
  "zeroed_words total_frames = (total_frames + 63) div 64"

definition metadata_bytes :: "nat \<Rightarrow> nat" where
  "metadata_bytes total_frames =
     (let refcount_offset = align_up total_frames 2;
          cgroup_offset = align_up (refcount_offset + total_frames * 2) 4;
          owner_offset = cgroup_offset + total_frames * 4;
          zeroed_offset = align_up (owner_offset + total_frames) 8
      in zeroed_offset + zeroed_words total_frames * 8)"

definition plan_metadata :: "memmap_entry list \<Rightarrow> (nat \<times> nat \<times> nat) kernel_result" where
  "plan_metadata es =
     (let top = max_phys es 0
      in if top = 0 then Err OutOfMemory
         else let total_frames = align_up top FRAME_SIZE div FRAME_SIZE;
                  metadata_frames = align_up (metadata_bytes total_frames) FRAME_SIZE div FRAME_SIZE;
                  metadata_size = metadata_frames * FRAME_SIZE
              in (case metadata_base es metadata_size of
                    None \<Rightarrow> Err OutOfMemory
                  | Some base \<Rightarrow> Ok (total_frames, base, metadata_size)))"

section \<open>Filling the lists\<close>

definition populate_range :: "nat \<Rightarrow> nat \<Rightarrow> buddy \<times> nat \<Rightarrow> buddy \<times> nat" where
  "populate_range start e s =
     (case s of (b, usable) \<Rightarrow> (add_free_range start e b, usable + (e - start) div FRAME_SIZE))"

definition populate_entry :: "nat \<Rightarrow> nat \<Rightarrow> memmap_entry \<Rightarrow> buddy \<times> nat \<Rightarrow> buddy \<times> nat" where
  "populate_entry metadata_phys metadata_end entry s =
     (if me_type entry \<noteq> USABLE then s
      else let start = align_up (me_base entry) FRAME_SIZE; e = align_down (me_end entry) FRAME_SIZE
           in if e \<le> start then s
              else let start = max start LOW_MEMORY_RESERVE
                   in if e \<le> start then s
                      else if start < metadata_end \<and> metadata_phys < e
                      then let s = (if start < metadata_phys then populate_range start (min e metadata_phys) s else s)
                           in if metadata_end < e then populate_range (max start metadata_end) e s else s
                      else populate_range start e s)"

definition populate_free_lists :: "memmap_entry list \<Rightarrow> nat \<Rightarrow> nat \<Rightarrow> buddy \<Rightarrow> buddy \<times> nat" where
  "populate_free_lists es metadata_phys metadata_end b = fold (populate_entry metadata_phys metadata_end) es (b, 0)"

definition frame_init :: "memmap_entry list \<Rightarrow> (buddy \<times> nat) kernel_result" where
  "frame_init es =
     (case plan_metadata es of
        Inl e \<Rightarrow> Err e
      | Inr (total_frames, metadata_phys, metadata_size) \<Rightarrow>
          Ok (populate_free_lists es metadata_phys (metadata_phys + metadata_size) (empty_buddy total_frames)))"

section \<open>The frames given to the allocator\<close>

text \<open>The frames of a usable region that are wholly inside it and above low memory.\<close>

definition region_lo :: "memmap_entry \<Rightarrow> nat" where
  "region_lo e = max ((me_base e + FRAME_SIZE - 1) div FRAME_SIZE) 64"

definition region_hi :: "memmap_entry \<Rightarrow> nat" where
  "region_hi e = me_end e div FRAME_SIZE"

lemma region_addr:
  "align_up (me_base e) FRAME_SIZE = frame_addr ((me_base e + FRAME_SIZE - 1) div FRAME_SIZE)"
  "align_down (me_end e) FRAME_SIZE = frame_addr (region_hi e)" "LOW_MEMORY_RESERVE = frame_addr 64"
  by (simp_all add: align_up_def align_down_def frame_addr_def region_hi_def LOW_MEMORY_RESERVE_def FRAME_SIZE_def)

lemma frame_addr_order [simp]:
  "frame_addr m \<le> frame_addr n \<longleftrightarrow> m \<le> n" "frame_addr m < frame_addr n \<longleftrightarrow> m < n"
  "max (frame_addr m) (frame_addr n) = frame_addr (max m n)" "(frame_addr n - frame_addr m) div FRAME_SIZE = n - m"
  by (auto simp: frame_addr_def FRAME_SIZE_def max_def diff_mult_distrib2 [symmetric])

definition filled :: "buddy \<times> nat \<Rightarrow> nat set \<Rightarrow> nat \<Rightarrow> bool" where
  "filled s F tot \<longleftrightarrow> buddy_ok (fst s) \<and> free_frames (fst s) = F \<and> bd_free (fst s) = snd s \<and> bd_total (fst s) = tot
     \<and> (\<forall>i < tot. bd_ref (fst s) ! i = 0)"

lemma populate_range_ok:
  assumes "filled s F tot" and "0 < m" and "m \<le> e" and "e \<le> tot" and "{m..<e} \<inter> F = {}"
  shows "filled (populate_range (frame_addr m) (frame_addr e) s) (F \<union> {m..<e}) tot"
proof -
  obtain b u where s: "s = (b, u)" by (cases s)
  have b: "buddy_ok b" "free_frames b = F" "bd_free b = u" "bd_total b = tot" "\<forall>i < tot. bd_ref b ! i = 0"
    using assms(1) s by (simp_all add: filled_def)
  note add = add_range_ok [OF b(1) assms(2,3), unfolded b, OF assms(4,5) b(5)]
  have "finite F" using finite_free [of b] b(1,2) by (simp add: buddy_ok_def)
  then have "card (F \<union> {m..<e}) = u + (e - m)"
    using card_Un_disjoint [of F "{m..<e}"] assms(5) b(1-3) by (simp add: buddy_ok_def Int_commute)
  then show ?thesis
    using add by (simp add: filled_def populate_range_def s buddy_ok_def b)
qed

definition entry_frames :: "nat \<Rightarrow> nat \<Rightarrow> memmap_entry \<Rightarrow> nat set" where
  "entry_frames ms me e = (if me_type e = USABLE then {region_lo e..<region_hi e} - {ms..<me} else {})"

lemma populate_entry_ok:
  assumes "filled s F tot" and "me_type e = USABLE \<Longrightarrow> region_hi e \<le> tot" and "entry_frames ms me e \<inter> F = {}" and "ms \<le> me"
  shows "filled (populate_entry (frame_addr ms) (frame_addr me) e s) (F \<union> entry_frames ms me e) tot"
proof (cases "me_type e = USABLE \<and> region_lo e < region_hi e")
  case False
  then show ?thesis
    using assms(1) by (auto simp: populate_entry_def entry_frames_def region_addr region_lo_def Let_def)
next
  case True
  let ?lo = "region_lo e" and ?hi = "region_hi e"
  have pos: "0 < ?lo" by (simp add: region_lo_def)
  have top: "?hi \<le> tot" using True assms(2) by blast
  have start: "populate_entry (frame_addr ms) (frame_addr me) e s =
    (if ?lo < me \<and> ms < ?hi
     then let s = (if ?lo < ms then populate_range (frame_addr ?lo) (frame_addr (min ?hi ms)) s else s)
          in if me < ?hi then populate_range (frame_addr (max ?lo me)) (frame_addr ?hi) s else s
     else populate_range (frame_addr ?lo) (frame_addr ?hi) s)"
  proof -
    define c where "c = (me_base e + FRAME_SIZE - 1) div FRAME_SIZE"
    have lo: "max c 64 = ?lo" by (simp add: c_def region_lo_def)
    have "\<not> ?hi \<le> c" "\<not> ?hi \<le> ?lo" using True lo by linarith+
    then show ?thesis
      using True by (simp only: populate_entry_def region_addr c_def [symmetric] Let_def frame_addr_order lo
          simp_thms if_False frame_addr_simps if_True)
  qed
  show ?thesis
  proof (cases "?lo < me \<and> ms < ?hi")
    case apart: False
    then have "entry_frames ms me e = {?lo..<?hi}" using True by (auto simp: entry_frames_def)
    then show ?thesis
      using populate_range_ok [OF assms(1) pos _ top] True assms(3) unfolding start if_not_P [OF apart] by simp
  next
    case over: True
    let ?s = "if ?lo < ms then populate_range (frame_addr ?lo) (frame_addr (min ?hi ms)) s else s"
    let ?F = "F \<union> {?lo..<min ?hi ms}"
    have parts: "entry_frames ms me e = {?lo..<min ?hi ms} \<union> {max ?lo me..<?hi}"
      using True assms(4) by (auto simp: entry_frames_def)
    have one: "filled ?s ?F tot"
      using populate_range_ok [OF assms(1) pos, of "min ?hi ms"] assms top parts over by (auto simp: Int_Un_distrib2)
    have "{max ?lo me..<?hi} \<inter> ?F = {}"
      using assms(3,4) parts by auto
    then have "filled (if me < ?hi then populate_range (frame_addr (max ?lo me)) (frame_addr ?hi) ?s else ?s)
        (?F \<union> {max ?lo me..<?hi}) tot"
      using populate_range_ok [OF one, of "max ?lo me" ?hi] pos over top True one by auto
    then show ?thesis
      unfolding start if_P [OF over] Let_def parts by (simp add: Un_assoc)
  qed
qed

lemma populate_ok:
  assumes "filled s F tot" and "ms \<le> me" and "\<forall>e \<in> set es. me_type e = USABLE \<longrightarrow> region_hi e \<le> tot"
    and "\<forall>e \<in> set es. entry_frames ms me e \<inter> F = {}"
    and "sorted_wrt (\<lambda>e f. entry_frames ms me e \<inter> entry_frames ms me f = {}) es"
  shows "filled (fold (populate_entry (frame_addr ms) (frame_addr me)) es s) (F \<union> (\<Union>e \<in> set es. entry_frames ms me e)) tot"
  using assms
proof (induction es arbitrary: s F)
  case Nil
  then show ?case by simp
next
  case (Cons e es)
  then have "filled (populate_entry (frame_addr ms) (frame_addr me) e s) (F \<union> entry_frames ms me e) tot"
    by (intro populate_entry_ok) simp_all
  then have "filled (fold (populate_entry (frame_addr ms) (frame_addr me)) es (populate_entry (frame_addr ms) (frame_addr me) e s))
    (F \<union> entry_frames ms me e \<union> (\<Union>e \<in> set es. entry_frames ms me e)) tot"
    using Cons.prems by (intro Cons.IH) auto
  then show ?case by (simp add: Un_assoc)
qed

text \<open>A memory map as the bootloader gives it: within 52 bits, its usable regions apart.\<close>

definition regions_apart :: "memmap_entry \<Rightarrow> memmap_entry \<Rightarrow> bool" where
  "regions_apart e f \<longleftrightarrow> me_type e = USABLE \<and> me_type f = USABLE \<longrightarrow>
     me_base e + me_length e \<le> me_base f \<or> me_base f + me_length f \<le> me_base e"

definition memory_map :: "memmap_entry list \<Rightarrow> bool" where
  "memory_map es \<longleftrightarrow> (\<forall>e \<in> set es. me_base e + me_length e \<le> 2 ^ 52) \<and> sorted_wrt regions_apart es"

lemma entry_frames_iff:
  assumes "me_base e + me_length e \<le> 2 ^ 52"
  shows "i \<in> entry_frames ms me e \<longleftrightarrow> me_type e = USABLE \<and> me_base e \<le> frame_addr i
    \<and> frame_addr (i + 1) \<le> me_base e + me_length e \<and> LOW_MEMORY_RESERVE \<le> frame_addr i \<and> \<not> (ms \<le> i \<and> i < me)"
proof -
  have e: "me_end e = me_base e + me_length e" using assms by (simp add: me_end_def sat_add64_exact u64_max_def)
  have "region_lo e \<le> i \<longleftrightarrow> me_base e \<le> frame_addr i \<and> LOW_MEMORY_RESERVE \<le> frame_addr i"
    by (auto simp: region_lo_def frame_addr_def FRAME_SIZE_def LOW_MEMORY_RESERVE_def)
  moreover have "i < region_hi e \<longleftrightarrow> frame_addr (i + 1) \<le> me_base e + me_length e"
    unfolding region_hi_def e frame_addr_def FRAME_SIZE_def by (simp add: less_eq_div_iff_mult_less_eq Suc_le_eq [symmetric] mult.commute del: mult_Suc_right)
  ultimately show ?thesis by (auto simp: entry_frames_def)
qed

lemma entries_apart:
  assumes "regions_apart e f" and "me_base e + me_length e \<le> 2 ^ 52" and "me_base f + me_length f \<le> 2 ^ 52"
  shows "entry_frames ms me e \<inter> entry_frames ms me f = {}"
proof -
  have "frame_addr i < frame_addr (i + 1)" for i by simp
  then show ?thesis
    using assms by (auto simp: entry_frames_iff regions_apart_def simp del: frame_addr_order) (meson le_trans not_le)+
qed

lemma max_phys_ge: "m \<le> max_phys es m" "e \<in> set es \<Longrightarrow> me_type e = USABLE \<Longrightarrow> me_end e \<le> max_phys es m"
proof -
  show ge: "m \<le> max_phys es m" for m
    by (induction es m rule: max_phys.induct) auto
  show "e \<in> set es \<Longrightarrow> me_type e = USABLE \<Longrightarrow> me_end e \<le> max_phys es m"
  proof (induction es m rule: max_phys.induct)
    case (2 f es m)
    have "n \<le> max_phys es n" for n by (induction es n rule: max_phys.induct) auto
    from this [of "if m < me_end f then me_end f else m"] 2 show ?case by (auto split: if_splits)
  qed simp
qed

lemma max_phys_le: "\<forall>e \<in> set es. me_end e \<le> t \<Longrightarrow> m \<le> t \<Longrightarrow> max_phys es m \<le> t"
  by (induction es m rule: max_phys.induct) auto

lemma find_region_addr: "find_region f n es = Some base \<Longrightarrow> \<exists>m. base = frame_addr m"
proof (induction es)
  case (Cons e es)
  then show ?case
    by (auto simp: Let_def align_up_def frame_addr_def mult.commute split: if_splits)
qed simp

text \<open>
  C12: At boot the allocator is given exactly the memory the machine has to give: the free frames are
  those lying wholly inside a usable region of the memory map, above low memory and outside the
  allocator's own metadata, each once, and the counters say how many. From there on
  \<open>frames_never_in_two_hands\<close> applies.
\<close>

theorem boot_frees_usable_memory:
  assumes map: "memory_map es" and plan: "plan_metadata es = Ok (tot, mp, sz)" and init: "frame_init es = Ok (b, usable)"
  shows "cpus_ok (frame_alloc_new b) {#} \<and> bd_free b = usable
    \<and> free_frames b = {i. \<exists>e \<in> set es. me_type e = USABLE \<and> me_base e \<le> frame_addr i
        \<and> frame_addr (i + 1) \<le> me_base e + me_length e \<and> LOW_MEMORY_RESERVE \<le> frame_addr i
        \<and> \<not> (mp \<le> frame_addr i \<and> frame_addr i < mp + sz)}"
proof -
  have small: "me_base e + me_length e \<le> 2 ^ 52" if "e \<in> set es" for e using map that by (simp add: memory_map_def)
  have tot: "tot = (max_phys es 0 + FRAME_SIZE - 1) div FRAME_SIZE"
    and "metadata_base es sz = Some mp" and sz: "\<exists>n. sz = frame_addr n"
    using plan by (auto simp: plan_metadata_def Let_def align_up_def frame_addr_def FRAME_SIZE_def
        mult.commute split: option.splits if_splits)
  then obtain ms n where mp: "mp = frame_addr ms" "sz = frame_addr n"
    by (auto simp: metadata_base_def split: option.splits dest!: find_region_addr)
  have "me_end e \<le> 2 ^ 52" if "e \<in> set es" for e
    using small [OF that] by (simp add: me_end_def sat_add64_exact u64_max_def)
  then have "max_phys es 0 \<le> 2 ^ 52" by (intro max_phys_le) simp_all
  then have top: "tot \<le> 2 ^ 50" by (simp add: tot FRAME_SIZE_def)
  have hi: "region_hi e \<le> tot" if "e \<in> set es" "me_type e = USABLE" for e
    using max_phys_ge(2) [OF that, of 0] unfolding tot region_hi_def
    by (intro div_le_mono) (simp add: FRAME_SIZE_def)
  have run: "(b, usable) = fold (populate_entry (frame_addr ms) (frame_addr (ms + n))) es (empty_buddy tot, 0)"
    using init plan by (simp add: frame_init_def populate_free_lists_def mp frame_addr_def distrib_left)
  have "sorted_wrt (\<lambda>e f. entry_frames ms (ms + n) e \<inter> entry_frames ms (ms + n) f = {}) es"
  proof (rule sorted_wrt_mono_rel)
    show "sorted_wrt regions_apart es" using map by (simp add: memory_map_def)
    show "\<And>e f. e \<in> set es \<Longrightarrow> f \<in> set es \<Longrightarrow> regions_apart e f
      \<Longrightarrow> entry_frames ms (ms + n) e \<inter> entry_frames ms (ms + n) f = {}" by (rule entries_apart) (assumption | rule small)+
  qed
  then have "filled (b, usable) (\<Union>e \<in> set es. entry_frames ms (ms + n) e) tot"
    using populate_ok [of "(empty_buddy tot, 0)" "{}" tot ms "ms + n" es] empty_ok [OF top] hi unfolding run
    by (simp add: filled_def) (simp add: empty_buddy_def)
  then have sys: "sys_ok (b, {#})" and "bd_free b = usable" and frames: "free_frames b = (\<Union>e \<in> set es. entry_frames ms (ms + n) e)"
    by (simp_all add: filled_def)
  moreover have "mp + sz = frame_addr (ms + n)" by (simp add: mp frame_addr_def distrib_left)
  then have meta: "mp \<le> frame_addr i \<longleftrightarrow> ms \<le> i" "frame_addr i < mp + sz \<longleftrightarrow> i < ms + n" for i
    by (simp_all add: mp(1))
  have "free_frames b = {i. \<exists>e \<in> set es. me_type e = USABLE \<and> me_base e \<le> frame_addr i
        \<and> frame_addr (i + 1) \<le> me_base e + me_length e \<and> LOW_MEMORY_RESERVE \<le> frame_addr i
        \<and> \<not> (mp \<le> frame_addr i \<and> frame_addr i < mp + sz)}"
    unfolding frames meta using small by (auto simp: entry_frames_iff)
  ultimately show ?thesis using frame_alloc_new_ok [OF sys] by blast
qed

theorem boot_frees_usable_memory_witness:
  "\<exists>b. frame_init [\<lparr>me_base = 0x100000, me_length = 0x20000, me_type = USABLE\<rparr>] = Ok (b, bd_free b)
    \<and> free_frames b = {65..<72}"
proof -
  let ?es = "[\<lparr>me_base = 0x100000, me_length = 0x20000, me_type = USABLE\<rparr>]"
  have e: "me_end (hd ?es) = 0x120000" by (simp add: me_end_def sat_add64_def u64_max_def)
  then have top: "max_phys ?es 0 = 0x120000" by simp
  have bytes: "metadata_bytes 72 = 592" by (simp add: metadata_bytes_def zeroed_words_def align_up_def Let_def)
  have "find_region DMA_ZONE_END 0x4000 ?es = None" "find_region LOW_MEMORY_RESERVE 0x4000 ?es = Some 0x100000"
    using e by (simp_all add: Let_def align_up_def align_down_def FRAME_SIZE_def DMA_ZONE_END_def LOW_MEMORY_RESERVE_def)
  then have "metadata_base ?es 0x4000 = Some 0x100000" by (simp add: metadata_base_def)
  moreover have "align_up 0x120000 FRAME_SIZE div FRAME_SIZE = 72" "align_up 592 FRAME_SIZE div FRAME_SIZE * FRAME_SIZE = 0x4000"
    by (simp_all add: align_up_def FRAME_SIZE_def)
  ultimately have plan: "plan_metadata ?es = Ok (72, 0x100000, 0x4000)"
    unfolding plan_metadata_def top Let_def by (simp only: bytes) simp
  obtain b usable where init: "frame_init ?es = Ok (b, usable)"
    using plan by (cases "populate_free_lists ?es 0x100000 (0x100000 + 0x4000) (empty_buddy 72)") (simp add: frame_init_def)
  have "memory_map ?es" by (simp add: memory_map_def)
  note boot = boot_frees_usable_memory [OF this plan init]
  have addr: "0x100000 = frame_addr 64" "frame_addr 64 + 0x4000 = frame_addr 65" "frame_addr 64 + 0x20000 = frame_addr 72"
    "LOW_MEMORY_RESERVE = frame_addr 64"
    by (simp_all add: frame_addr_def FRAME_SIZE_def LOW_MEMORY_RESERVE_def)
  have "free_frames b = {i. 64 \<le> i \<and> i + 1 \<le> 72 \<and> 64 \<le> i \<and> \<not> (64 \<le> i \<and> i < 65)}"
    using boot unfolding bex_simps list.set by (simp only: bex_simps memmap_entry.simps addr frame_addr_order simp_thms)
  also have "\<dots> = {65..<72}" by auto
  finally show ?thesis using boot init by blast
qed

end
