(* ===== verification/FrameCheck.thy ===== *)
theory FrameCheck imports FrameOps begin

text \<open>
  The kernel's own check of the frame allocator's free lists (\<^verbatim>\<open>validate_free_lists\<close> in
  \<^verbatim>\<open>kernel/src/mm/frame.rs\<close>). It follows the links as it finds them, so the walks are partial
  functions: that they come to an end is proved.
\<close>

section \<open>The check\<close>

datatype list_fault = Cycle | NodeOutOfRange | OrderMismatch | BrokenBackLink | CountDisagrees | TailNotLast | ZoneOrderBroken

partial_function (option) validate_walk ::
  "buddy \<Rightarrow> nat \<Rightarrow> nat \<Rightarrow> nat \<Rightarrow> nat \<Rightarrow> nat \<Rightarrow> (list_fault + nat \<times> nat) option" where
  "validate_walk b order cap addr prv seen =
     (if addr = 0 then Some (Inr (prv, seen))
      else if cap < seen then Some (Inl Cycle)
      else if bd_total b \<le> frame_index addr then Some (Inl NodeOutOfRange)
      else if get_info b (frame_index addr) \<noteq> of_nat order then Some (Inl OrderMismatch)
      else if fn_prev (bd_nodes b addr) \<noteq> prv then Some (Inl BrokenBackLink)
      else validate_walk b order cap (fn_next (bd_nodes b addr)) addr (sat_add64 seen 1))"

partial_function (option) zone_walk :: "(nat \<Rightarrow> free_node) \<Rightarrow> nat \<Rightarrow> nat \<Rightarrow> bool \<Rightarrow> bool option" where
  "zone_walk m order addr in_zone =
     (if addr = 0 then Some True
      else let low = in_dma_zone addr order
           in if in_zone \<and> \<not> low then Some False else zone_walk m order (fn_next (m addr)) low)"

definition validate_order :: "buddy \<Rightarrow> nat \<Rightarrow> (list_fault + unit) option" where
  "validate_order b order =
     (let l = get_list b order; expected = fl_count l; cap = sat_add64 expected 1
      in (case validate_walk b order cap (fl_head l) 0 0 of
            None \<Rightarrow> None
          | Some (Inl fault) \<Rightarrow> Some (Inl fault)
          | Some (Inr (prv, seen)) \<Rightarrow>
              if seen \<noteq> expected then Some (Inl CountDisagrees)
              else if fl_tail l \<noteq> prv then Some (Inl TailNotLast)
              else (case zone_walk (bd_nodes b) order (fl_head l) False of
                      None \<Rightarrow> None
                    | Some True \<Rightarrow> Some (Inr ())
                    | Some False \<Rightarrow> Some (Inl ZoneOrderBroken))))"

fun validate_orders :: "buddy \<Rightarrow> nat list \<Rightarrow> ((nat \<times> list_fault) + unit) option" where
  "validate_orders b [] = Some (Inr ())"
| "validate_orders b (order # orders) =
     (case validate_order b order of
        None \<Rightarrow> None
      | Some (Inl fault) \<Rightarrow> Some (Inl (order, fault))
      | Some (Inr _) \<Rightarrow> validate_orders b orders)"

definition validate_free_lists :: "buddy \<Rightarrow> ((nat \<times> list_fault) + unit) option" where
  "validate_free_lists b = validate_orders b [0..<MAX_ORDER + 1]"

section \<open>What it checks\<close>

definition node_ok :: "buddy \<Rightarrow> nat \<Rightarrow> nat \<Rightarrow> bool" where
  "node_ok b order a \<longleftrightarrow> a \<noteq> 0 \<and> frame_index a < bd_total b \<and> get_info b (frame_index a) = of_nat order"

lemma chain_nil: "first xs 0 = 0 \<and> (\<forall>a \<in> set xs. node_ok b k a) \<longleftrightarrow> xs = []"
  by (cases xs) (auto simp: node_ok_def)

lemma chain_end: "(\<exists>xs. first xs 0 = 0 \<and> seg m p xs 0 \<and> (\<forall>a \<in> set xs. node_ok b k a)
    \<and> q = final p xs \<and> n = seen + length xs \<and> n \<le> N) \<longleftrightarrow> q = p \<and> n = seen \<and> seen \<le> N"
proof (intro iffI; (elim exE conjE)?)
  fix xs assume "first xs 0 = 0" "\<forall>a \<in> set xs. node_ok b k a" "q = final p xs" "n = seen + length xs" "n \<le> N"
  moreover from this have "xs = []" using chain_nil by blast
  ultimately show "q = p \<and> n = seen \<and> seen \<le> N" by simp
next
  assume "q = p" "n = seen" "seen \<le> N"
  then show "\<exists>xs. first xs 0 = 0 \<and> seg m p xs 0 \<and> (\<forall>a \<in> set xs. node_ok b k a)
    \<and> q = final p xs \<and> n = seen + length xs \<and> n \<le> N" by (intro exI [of _ "[]"]) simp
qed

text \<open>What the walk has seen when it ends well; a chain with such back links has no cycle.\<close>

lemma validate_walk_end:
  assumes "cap < u64_max" and "seen \<le> cap + 1"
  shows "\<exists>r. validate_walk b k cap addr p seen = Some r \<and>
    (\<forall>q n. r = Inr (q, n) \<longleftrightarrow> (\<exists>xs. first xs 0 = addr \<and> seg (bd_nodes b) p xs 0 \<and> (\<forall>a \<in> set xs. node_ok b k a)
      \<and> q = final p xs \<and> n = seen + length xs \<and> n \<le> cap + 1))"
  using assms(2)
proof (induction "cap + 1 - seen" arbitrary: addr p seen)
  case 0
  then have seen: "seen = cap + 1" by simp
  show ?case
  proof (cases "addr = 0")
    case True
    then show ?thesis using seen by (subst validate_walk.simps) (simp only: chain_end, auto)
  next
    case False
    then have "xs \<noteq> []" if "first xs 0 = addr" for xs using that by (cases xs) auto
    then have "\<not> (\<exists>xs. first xs 0 = addr \<and> P xs \<and> n = seen + length xs \<and> n \<le> cap + 1)" for P n
      using seen by fastforce
    with False show ?thesis using seen by (subst validate_walk.simps) simp
  qed
next
  case (Suc d)
  have seen: "seen \<le> cap" "sat_add64 seen 1 = seen + 1" 
    using Suc.hyps(2) Suc.prems assms(1) sat_add64_exact [of seen 1] by simp_all
  have none: "\<not> (\<exists>xs. first xs 0 = addr \<and> seg (bd_nodes b) p xs 0 \<and> (\<forall>a \<in> set xs. node_ok b k a) \<and> P xs)"
    if "addr \<noteq> 0" "\<not> (node_ok b k addr \<and> fn_prev (bd_nodes b addr) = p)" for P
  proof (rule notI, elim exE conjE)
    fix xs assume xs: "first xs 0 = addr" "seg (bd_nodes b) p xs 0" "\<forall>a \<in> set xs. node_ok b k a"
    with that(1) obtain ys where "xs = addr # ys" by (cases xs) auto
    with xs that(2) show False by simp
  qed
  show ?case
  proof (cases "addr = 0 \<or> \<not> (node_ok b k addr \<and> fn_prev (bd_nodes b addr) = p)")
    case stop: True
    show ?thesis
    proof (cases "addr = 0")
      case True
      then show ?thesis
        using Suc.prems by (subst validate_walk.simps) (simp only: chain_end, auto)
    next
      case False
      then show ?thesis
        using none stop seen by (subst validate_walk.simps) (auto simp: node_ok_def)
    qed
  next
    case go: False
    then have run: "validate_walk b k cap addr p seen = validate_walk b k cap (fn_next (bd_nodes b addr)) addr (seen + 1)"
      using seen by (subst validate_walk.simps) (auto simp: node_ok_def)
    have cons: "(\<exists>xs. first xs 0 = addr \<and> seg (bd_nodes b) p xs 0 \<and> (\<forall>a \<in> set xs. node_ok b k a)
          \<and> q = final p xs \<and> n = seen + length xs \<and> n \<le> cap + 1)
      \<longleftrightarrow> (\<exists>xs. first xs 0 = fn_next (bd_nodes b addr) \<and> seg (bd_nodes b) addr xs 0 \<and> (\<forall>a \<in> set xs. node_ok b k a)
          \<and> q = final addr xs \<and> n = seen + 1 + length xs \<and> n \<le> cap + 1)" (is "?l \<longleftrightarrow> ?r") for q n
    proof
      assume ?l
      then obtain xs where xs: "first xs 0 = addr" "seg (bd_nodes b) p xs 0" "\<forall>a \<in> set xs. node_ok b k a"
        "q = final p xs" "n = seen + length xs" "n \<le> cap + 1" by blast
      then obtain ys where "xs = addr # ys" using go by (cases xs) auto
      with xs show ?r by auto
    next
      assume ?r
      then obtain xs where "first xs 0 = fn_next (bd_nodes b addr)" "seg (bd_nodes b) addr xs 0" "\<forall>a \<in> set xs. node_ok b k a"
        "q = final addr xs" "n = seen + 1 + length xs" "n \<le> cap + 1" by blast
      then show ?l using go by (intro exI [of _ "addr # xs"]) auto
    qed
    show ?thesis
      unfolding run cons using Suc.hyps(1) [of "seen + 1"] Suc.hyps(2) seen(1) by simp
  qed
qed

lemma zone_walk_end:
  "seg m p xs 0 \<Longrightarrow> 0 \<notin> set xs \<Longrightarrow>
    zone_walk m k (first xs 0) z = Some ((z \<longrightarrow> (\<forall>a \<in> set xs. in_dma_zone a k)) \<and> zoned k xs)"
proof (induction xs arbitrary: p z)
  case Nil
  then show ?case by (subst zone_walk.simps) (simp add: zoned_def)
next
  case (Cons a xs)
  then show ?case by (subst zone_walk.simps) (auto simp: zoned_def Let_def)
qed

text \<open>A chain linked both ways from nothing has no cycle.\<close>

lemma seg_distinct:
  assumes "seg m 0 xs n" and "0 \<notin> set xs"
  shows "distinct xs"
  using assms
proof (induction xs arbitrary: n rule: rev_induct)
  case (snoc a xs)
  then have dist: "distinct xs" and prv: "fn_prev (m a) = final 0 xs" by auto
  have "a \<notin> set xs"
  proof
    assume "a \<in> set xs"
    then obtain us vs where xs: "xs = us @ a # vs" by (meson split_list)
    then have "fn_prev (m a) = final 0 us" using snoc.prems(1) by simp
    then have same: "final 0 us = final a vs" using prv xs by simp
    have "final a vs \<in> set (a # vs)" by (cases vs rule: rev_cases) simp_all
    moreover have "final 0 us \<in> insert 0 (set us)" by (cases us rule: rev_cases) simp_all
    ultimately show False using same dist snoc.prems(2) xs by auto
  qed
  with dist show ?case by simp
qed simp

definition list_sound :: "buddy \<Rightarrow> nat \<Rightarrow> bool" where
  "list_sound b k \<longleftrightarrow> (\<exists>xs. list_rep (bd_nodes b) (get_list b k) xs \<and> (\<forall>a \<in> set xs. node_ok b k a) \<and> zoned k xs)"

lemma validate_order_end:
  assumes "fl_count (get_list b k) < u64_max - 1"
  shows "\<exists>r. validate_order b k = Some r \<and> (r = Inr () \<longleftrightarrow> list_sound b k)"
proof -
  let ?l = "get_list b k"
  let ?chain = "\<lambda>q n xs. first xs 0 = fl_head ?l \<and> seg (bd_nodes b) 0 xs 0 \<and> (\<forall>a \<in> set xs. node_ok b k a)
      \<and> q = final 0 xs \<and> n = length xs \<and> n \<le> fl_count ?l + 2"
  have cap: "sat_add64 (fl_count ?l) 1 = fl_count ?l + 1" "fl_count ?l + 1 < u64_max"
    using assms sat_add64_exact [of "fl_count ?l" 1] by simp_all
  obtain r where run: "validate_walk b k (fl_count ?l + 1) (fl_head ?l) 0 0 = Some r"
    and r: "\<And>q n. r = Inr (q, n) \<longleftrightarrow> (\<exists>xs. ?chain q n xs)"
    using validate_walk_end [OF cap(2), of 0 b k "fl_head ?l" 0] by auto
  show ?thesis
  proof (cases r)
    case (Inl f)
    have "\<not> list_sound b k"
    proof
      assume "list_sound b k"
      then obtain xs where "list_rep (bd_nodes b) ?l xs" "\<forall>a \<in> set xs. node_ok b k a" by (auto simp: list_sound_def)
      then have "?chain (final 0 xs) (length xs) xs" by (auto simp: list_rep_def)
      then have "r = Inr (final 0 xs, length xs)" using r by blast
      with Inl show False by simp
    qed
    then show ?thesis using run Inl cap(1) by (simp add: validate_order_def)
  next
    case (Inr s)
    obtain q n where s: "s = (q, n)" by (cases s)
    then obtain xs where xs: "?chain q n xs" using r Inr by blast
    then have zero: "0 \<notin> set xs" by (auto simp: node_ok_def)
    have only: "ys = xs" if "list_rep (bd_nodes b) ?l ys" "\<forall>a \<in> set ys. node_ok b k a" "length xs = fl_count ?l" for ys
    proof -
      have "walk (bd_nodes b) (fl_head ?l) (length xs) = xs" using walk_seg [of "bd_nodes b" 0 xs 0] xs by simp
      moreover have "walk (bd_nodes b) (fl_head ?l) (fl_count ?l) = ys"
        using walk_seg [of "bd_nodes b" 0 ys 0] that(1) unfolding list_rep_def by (elim conjE) simp
      ultimately show ?thesis using that(3) by simp
    qed
    show ?thesis
    proof (cases "n = fl_count ?l \<and> fl_tail ?l = q")
      case True
      have len: "length xs = fl_count ?l" and "fl_tail ?l = final 0 xs" "fl_head ?l = first xs 0" "seg (bd_nodes b) 0 xs 0"
        using xs True by argo+
      moreover have "distinct xs" using seg_distinct [OF \<open>seg (bd_nodes b) 0 xs 0\<close> zero] .
      ultimately have rep: "list_rep (bd_nodes b) ?l xs" using zero unfolding list_rep_def by argo
      have "list_sound b k \<longleftrightarrow> zoned k xs"
        unfolding list_sound_def using rep xs only [OF _ _ len] by metis
      moreover have "zone_walk (bd_nodes b) k (fl_head ?l) False = Some (zoned k xs)"
        using zone_walk_end [of "bd_nodes b" 0 xs k False] xs zero by simp
      ultimately show ?thesis
        using run Inr s True cap(1) by (auto simp: validate_order_def split: bool.split)
    next
      case False
      have "\<not> list_sound b k"
      proof
        assume "list_sound b k"
        then obtain ys where ys: "list_rep (bd_nodes b) ?l ys" "\<forall>a \<in> set ys. node_ok b k a" by (auto simp: list_sound_def)
        then have "?chain (final 0 ys) (length ys) ys" by (auto simp: list_rep_def)
        then have "r = Inr (final 0 ys, length ys)" using r by blast
        then show False using False ys(1) Inr s by (simp add: list_rep_def)
      qed
      then show ?thesis using run Inr s False cap(1) by (auto simp: validate_order_def Let_def)
    qed
  qed
qed

lemma validate_orders_end:
  "\<forall>k \<in> set ks. fl_count (get_list b k) < u64_max - 1 \<Longrightarrow>
    \<exists>r. validate_orders b ks = Some r \<and> (r = Inr () \<longleftrightarrow> (\<forall>k \<in> set ks. list_sound b k))"
proof (induction ks)
  case (Cons k ks)
  then obtain r where "validate_order b k = Some r" "r = Inr () \<longleftrightarrow> list_sound b k"
    using validate_order_end [of b k] by auto
  with Cons show ?case by (cases r) auto
qed simp

text \<open>
  C23: The kernel's free-list check is exact. It always comes to an end, whatever the links in memory
  are, and it answers that all is well just when every order's list is a chain linked both ways, of as
  many blocks as its count says, ending in its tail, every block in range and marked with that order
  in the page-info array, and no block above the DMA zone behind one inside it.
\<close>

theorem validate_free_lists_exact:
  assumes "\<forall>k \<le> MAX_ORDER. fl_count (get_list b k) < u64_max - 1"
  shows "\<exists>r. validate_free_lists b = Some r \<and>
    (r = Inr () \<longleftrightarrow> (\<forall>k \<le> MAX_ORDER. \<exists>xs. list_rep (bd_nodes b) (get_list b k) xs \<and> zoned k xs
      \<and> (\<forall>a \<in> set xs. a \<noteq> 0 \<and> frame_index a < bd_total b \<and> get_info b (frame_index a) = of_nat k)))"
proof -
  have "list_sound b k \<longleftrightarrow> (\<exists>xs. list_rep (bd_nodes b) (get_list b k) xs \<and> zoned k xs
      \<and> (\<forall>a \<in> set xs. a \<noteq> 0 \<and> frame_index a < bd_total b \<and> get_info b (frame_index a) = of_nat k))" for k
    by (auto simp: list_sound_def node_ok_def)
  moreover define ks where "ks = [0..<MAX_ORDER + 1]"
  then have "(\<forall>k \<in> set ks. P k) \<longleftrightarrow> (\<forall>k \<le> MAX_ORDER. P k)" for P
    by (auto simp: less_Suc_eq_le simp del: upt_Suc)
  ultimately show ?thesis
    using validate_orders_end [of ks b] assms unfolding validate_free_lists_def ks_def [symmetric] by simp
qed

theorem validate_free_lists_exact_witness: "validate_free_lists small_buddy = Some (Inr ())"
proof -
  have core: "core_ok small_buddy" using small_ok(1) by (simp add: buddy_ok_def)
  have rep: "list_rep (bd_nodes small_buddy) (get_list small_buddy k) (free_blocks small_buddy k)" if "k \<le> MAX_ORDER" for k
    using lists_rep [OF core_okD(1) [OF core] that] .
  then have "fl_count (get_list small_buddy k) < u64_max - 1" if "k \<le> MAX_ORDER" for k
    using that free_blocks_short [OF core, of k] small_ok(5) by (fastforce simp: list_rep_def u64_max_def)
  moreover have "a \<noteq> 0 \<and> frame_index a < bd_total small_buddy \<and> get_info small_buddy (frame_index a) = of_nat k"
    if "a \<in> set (free_blocks small_buddy k)" for a k
  proof -
    have "(frame_index a, k) = (1024, 2)" using free_blocks_aligned [OF core that] small_ok(3) by blast
    then have x: "frame_index a = 1024" "k = 2" by simp_all
    moreover have "a \<noteq> 0" using x(1) by (cases "a = 0") (simp_all add: frame_index_def)
    ultimately show ?thesis
      using info_free(1) [OF core, of 1024 2] small_ok(3,5) by (simp add: MAX_ORDER_def)
  qed
  ultimately show ?thesis
    using validate_free_lists_exact [of small_buddy] rep core_okD(11) [OF core] by blast
qed

end
