(* ===== verification/Channel.thy ===== *)
theory Channel imports Waiters OrdMap Resources begin

text \<open>
  Channels (\<^verbatim>\<open>kernel/src/ipc/channel.rs\<close>), the microkernel's message passing: pairs of ends, a queue
  of messages each way, or a rendezvous slot each way on a synchronous channel. A call is a sequence
  of critical sections under the table's lock, and one definition here is one critical section: a
  blocking call is the turns it takes between waking and parking, an interruptible one the sections
  of its loop, its local state handed from one to the next. A section returns the tasks its caller
  wakes when it has dropped the lock. A send also calls \<open>wake_ready\<close> then, which takes the lock again:
  the senders that have that call still before them are part of the state. Statistics and traces are
  not modelled.
\<close>

section \<open>Handles\<close>

type_synonym chan_id = u64
type_synonym chan_handle = u64

definition MAX_QUEUE_DEPTH :: nat where "MAX_QUEUE_DEPTH = 64"
definition MAX_MESSAGE_SIZE :: nat where "MAX_MESSAGE_SIZE = 64 * 1024"
definition MAX_CAPS_PER_MESSAGE :: nat where "MAX_CAPS_PER_MESSAGE = 64"

definition chan_handle_new :: "chan_id \<Rightarrow> nat \<Rightarrow> chan_handle" where
  "chan_handle_new i side = push_bit 1 i OR (of_nat side AND 1)"

definition chan_handle_id :: "chan_handle \<Rightarrow> chan_id" where
  "chan_handle_id h = drop_bit 1 h"

definition chan_side :: "chan_handle \<Rightarrow> nat" where
  "chan_side h = unat (h AND 1)"

text \<open>The other side's index, and the other end.\<close>

definition other :: "nat \<Rightarrow> nat" where
  "other side = 1 - side"

definition chan_peer_side :: "chan_handle \<Rightarrow> nat" where
  "chan_peer_side h = other (chan_side h)"

definition chan_peer_end :: "chan_handle \<Rightarrow> chan_handle" where
  "chan_peer_end h = chan_handle_new (chan_handle_id h) (chan_peer_side h)"

text \<open>An array with an entry per side.\<close>

type_synonym 'a both = "'a \<times> 'a"

definition at2 :: "nat \<Rightarrow> 'a both \<Rightarrow> 'a" where
  "at2 i p = (if i = 0 then fst p else snd p)"

definition put2 :: "nat \<Rightarrow> 'a \<Rightarrow> 'a both \<Rightarrow> 'a both" where
  "put2 i x p = (if i = 0 then (x, snd p) else (fst p, x))"

section \<open>Messages\<close>

record transferred_cap =
  tc_type :: resource_type
  tc_id :: u64
  tc_rights :: rights

record message =
  msg_data :: "u8 list"
  msg_caps :: "transferred_cap list"

definition message_from_bytes :: "u8 list \<Rightarrow> message kernel_result" where
  "message_from_bytes data =
     (if MAX_MESSAGE_SIZE < length data then Err MessageTooLarge
      else Ok \<lparr>msg_data = data, msg_caps = []\<rparr>)"

definition message_from_bytes_and_caps :: "u8 list \<Rightarrow> transferred_cap list \<Rightarrow> message kernel_result" where
  "message_from_bytes_and_caps data caps =
     (if MAX_MESSAGE_SIZE < length data then Err MessageTooLarge
      else if MAX_CAPS_PER_MESSAGE < length caps then Err InvalidArgument
      else Ok \<lparr>msg_data = data, msg_caps = caps\<rparr>)"

definition message_take_caps :: "message \<Rightarrow> message \<times> transferred_cap list" where
  "message_take_caps m = (m\<lparr>msg_caps := []\<rparr>, msg_caps m)"

section \<open>A channel\<close>

record peer_cred =
  peer_pid :: u64
  peer_uid :: u32
  peer_gid :: u32

record channel =
  ch_queues :: "message list both"
  ch_closed :: "bool both"
  ch_waiters :: "task_id option both"
  ch_senders :: "task_id option both"
  ch_ready :: "waiter_set both"
  ch_sync :: bool
  ch_slots :: "message option both"
  ch_creds :: "peer_cred option both"
  ch_service_key :: "u64 option"
  ch_refs :: "u32 both"

definition chan_new :: channel where
  "chan_new = \<lparr>ch_queues = ([], []), ch_closed = (False, False), ch_waiters = (None, None),
     ch_senders = (None, None), ch_ready = (ws_new, ws_new), ch_sync = False,
     ch_slots = (None, None), ch_creds = (None, None), ch_service_key = None, ch_refs = (1, 1)\<rparr>"

definition chan_new_sync :: channel where
  "chan_new_sync = chan_new\<lparr>ch_sync := True\<rparr>"

text \<open>What every send asks first: is either end closed, and is there room.\<close>

definition ends_closed :: "nat \<Rightarrow> channel \<Rightarrow> bool" where
  "ends_closed our ch \<longleftrightarrow> at2 our (ch_closed ch) \<or> at2 (other our) (ch_closed ch)"

definition has_room :: "nat \<Rightarrow> channel \<Rightarrow> bool" where
  "has_room our ch \<longleftrightarrow>
     (if ch_sync ch then at2 (other our) (ch_waiters ch) \<noteq> None
      else length (at2 (other our) (ch_queues ch)) < MAX_QUEUE_DEPTH)"

text \<open>\<^verbatim>\<open>if let Some(task) = ...\<close>: the task to wake, if any.\<close>

definition opt_list :: "'a option \<Rightarrow> 'a list" where
  "opt_list x = (case x of None \<Rightarrow> [] | Some y \<Rightarrow> [y])"

text \<open>The hand-over: the message into the slot or the queue, and the blocked receiver taken.\<close>

definition deposit :: "nat \<Rightarrow> message option \<Rightarrow> channel \<Rightarrow> channel \<times> task_id list" where
  "deposit our pending ch =
     (let peer = other our;
          ch' = (case pending of
                   None \<Rightarrow> ch
                 | Some m \<Rightarrow>
                     if ch_sync ch then ch\<lparr>ch_slots := put2 our (Some m) (ch_slots ch)\<rparr>
                     else ch\<lparr>ch_queues := put2 peer (at2 peer (ch_queues ch) @ [m]) (ch_queues ch)\<rparr>)
      in (ch'\<lparr>ch_waiters := put2 peer None (ch_waiters ch)\<rparr>, opt_list (at2 peer (ch_waiters ch))))"

text \<open>A sender that finds no room: the message into the empty slot, and the sender's own entry.\<close>

definition park_sender :: "task_id \<Rightarrow> nat \<Rightarrow> message option \<Rightarrow> channel \<Rightarrow> channel \<times> message option" where
  "park_sender task our pending ch =
     (let parks = ch_sync ch \<and> at2 our (ch_slots ch) = None;
          ch' = (if parks then ch\<lparr>ch_slots := put2 our pending (ch_slots ch)\<rparr> else ch)
      in (ch'\<lparr>ch_senders := put2 our (Some task) (ch_senders ch)\<rparr>, if parks then None else pending))"

text \<open>The message a receive takes.\<close>

definition take_message :: "nat \<Rightarrow> channel \<Rightarrow> channel \<times> message option" where
  "take_message our ch =
     (if ch_sync ch then (ch\<lparr>ch_slots := put2 (other our) None (ch_slots ch)\<rparr>, at2 (other our) (ch_slots ch))
      else case at2 our (ch_queues ch) of
        [] \<Rightarrow> (ch, None)
      | m # q \<Rightarrow> (ch\<lparr>ch_queues := put2 our q (ch_queues ch)\<rparr>, Some m))"

definition was_full :: "nat \<Rightarrow> channel \<Rightarrow> bool" where
  "was_full our ch \<longleftrightarrow> \<not> ch_sync ch \<and> MAX_QUEUE_DEPTH \<le> length (at2 our (ch_queues ch))"

section \<open>The table\<close>

text \<open>
  \<open>cs_ready\<close> is the atomic \<^verbatim>\<open>READY_WAITERS\<close>, whose additions and subtractions wrap. \<open>cs_waking\<close> is where the
  sending tasks stand: the handles for which a send has left its critical section and not yet called
  \<^verbatim>\<open>wake_ready\<close>.
\<close>

record channels =
  cs_next :: chan_id
  cs_table :: "(chan_id, channel) btree"
  cs_ready :: u64
  cs_waking :: "chan_handle list"

definition put_chan :: "chan_id \<Rightarrow> channel \<Rightarrow> channels \<Rightarrow> channels" where
  "put_chan i ch s = s\<lparr>cs_table := bt_adjust i (\<lambda>_. ch) (cs_table s)\<rparr>"

definition alloc_channel_id :: "channels \<Rightarrow> channels \<times> chan_id" where
  "alloc_channel_id s = (s\<lparr>cs_next := cs_next s + 1\<rparr>, cs_next s)"

definition chan_create :: "channels \<Rightarrow> channels \<times> chan_handle \<times> chan_handle" where
  "chan_create s =
     (case alloc_channel_id s of
        (s, i) \<Rightarrow> (s\<lparr>cs_table := bt_insert i chan_new (cs_table s)\<rparr>, chan_handle_new i 0, chan_handle_new i 1))"

definition chan_create_sync :: "channels \<Rightarrow> channels \<times> chan_handle \<times> chan_handle" where
  "chan_create_sync s =
     (case alloc_channel_id s of
        (s, i) \<Rightarrow> (s\<lparr>cs_table := bt_insert i chan_new_sync (cs_table s)\<rparr>, chan_handle_new i 0, chan_handle_new i 1))"

definition chan_get :: "chan_handle \<Rightarrow> channels \<Rightarrow> channel option" where
  "chan_get h s = bt_get (cs_table s) (chan_handle_id h)"

definition chan_is_sync :: "chan_handle \<Rightarrow> channels \<Rightarrow> bool option" where
  "chan_is_sync h s = map_option ch_sync (chan_get h s)"

definition set_side_cred :: "chan_handle \<Rightarrow> peer_cred \<Rightarrow> channels \<Rightarrow> channels \<times> bool" where
  "set_side_cred h cred s =
     (case chan_get h s of
        None \<Rightarrow> (s, False)
      | Some ch \<Rightarrow>
          if at2 (chan_side h) (ch_creds ch) \<noteq> None then (s, False)
          else (put_chan (chan_handle_id h)
                  (ch\<lparr>ch_creds := put2 (chan_side h) (Some cred) (ch_creds ch)\<rparr>) s, True))"

definition set_service_key :: "chan_handle \<Rightarrow> u64 \<Rightarrow> channels \<Rightarrow> channels \<times> bool" where
  "set_service_key h key s =
     (case chan_get h s of
        None \<Rightarrow> (s, False)
      | Some ch \<Rightarrow>
          if ch_service_key ch \<noteq> None then (s, False)
          else (put_chan (chan_handle_id h) (ch\<lparr>ch_service_key := Some key\<rparr>) s, True))"

definition chan_service_key :: "chan_handle \<Rightarrow> channels \<Rightarrow> u64 option" where
  "chan_service_key h s = (case chan_get h s of None \<Rightarrow> None | Some ch \<Rightarrow> ch_service_key ch)"

definition peer_cred_of :: "chan_handle \<Rightarrow> channels \<Rightarrow> peer_cred option" where
  "peer_cred_of h s = (case chan_get h s of None \<Rightarrow> None | Some ch \<Rightarrow> at2 (chan_peer_side h) (ch_creds ch))"

section \<open>Readiness\<close>

definition take_ready :: "nat \<Rightarrow> channel \<Rightarrow> u64 \<Rightarrow> channel \<times> task_id list \<times> u64" where
  "take_ready side ch n =
     (case ws_take_all (at2 side (ch_ready ch)) of
        (tasks, w) \<Rightarrow> (ch\<lparr>ch_ready := put2 side w (ch_ready ch)\<rparr>, tasks, n - of_nat (length tasks)))"

definition wake_ready :: "chan_handle \<Rightarrow> channels \<Rightarrow> channels \<times> task_id list" where
  "wake_ready sender s =
     (if cs_ready s = 0 then (s, [])
      else case chan_get sender s of
        None \<Rightarrow> (s, [])
      | Some ch \<Rightarrow>
          (case take_ready (chan_peer_side sender) ch (cs_ready s) of
             (ch, tasks, n) \<Rightarrow> ((put_chan (chan_handle_id sender) ch s)\<lparr>cs_ready := n\<rparr>, tasks)))"

text \<open>
  A send's way to \<^verbatim>\<open>wake_ready\<close>: it leaves its critical section owing the call, and makes it some time
  later. (The count is read before the lock is taken; a count that changes in between comes to the
  same as reading it under the lock, since at zero there is no waiter to take.)
\<close>

definition leave_to_wake :: "chan_handle \<Rightarrow> channels \<Rightarrow> channels" where
  "leave_to_wake h s = s\<lparr>cs_waking := cs_waking s @ [h]\<rparr>"

definition wake_turn :: "chan_handle \<Rightarrow> channels \<Rightarrow> channels \<times> task_id list" where
  "wake_turn h s = wake_ready h (s\<lparr>cs_waking := remove1 h (cs_waking s)\<rparr>)"

definition chan_register_waiter :: "chan_handle \<Rightarrow> task_id \<Rightarrow> channels \<Rightarrow> channels" where
  "chan_register_waiter h task s =
     (case chan_get h s of
        None \<Rightarrow> s
      | Some ch \<Rightarrow>
          let w = at2 (chan_side h) (ch_ready ch); w' = ws_insert task w
          in (put_chan (chan_handle_id h) (ch\<lparr>ch_ready := put2 (chan_side h) w' (ch_ready ch)\<rparr>) s)
               \<lparr>cs_ready := cs_ready s + of_nat (ws_count w' - ws_count w)\<rparr>)"

definition chan_deregister_waiter :: "chan_handle \<Rightarrow> task_id \<Rightarrow> channels \<Rightarrow> channels" where
  "chan_deregister_waiter h task s =
     (case chan_get h s of
        None \<Rightarrow> s
      | Some ch \<Rightarrow>
          let w = at2 (chan_side h) (ch_ready ch); w' = ws_remove task w
          in (put_chan (chan_handle_id h) (ch\<lparr>ch_ready := put2 (chan_side h) w' (ch_ready ch)\<rparr>) s)
               \<lparr>cs_ready := cs_ready s - of_nat (ws_count w - ws_count w')\<rparr>)"

definition chan_has_pending :: "chan_handle \<Rightarrow> channels \<Rightarrow> bool" where
  "chan_has_pending h s =
     (case chan_get h s of
        None \<Rightarrow> False
      | Some ch \<Rightarrow> if ch_sync ch then at2 (chan_peer_side h) (ch_slots ch) \<noteq> None
                   else at2 (chan_side h) (ch_queues ch) \<noteq> [])"

definition chan_readable :: "chan_handle \<Rightarrow> channels \<Rightarrow> bool" where
  "chan_readable h s =
     (case chan_get h s of
        None \<Rightarrow> True
      | Some ch \<Rightarrow> (if ch_sync ch then at2 (chan_peer_side h) (ch_slots ch) \<noteq> None
                    else at2 (chan_side h) (ch_queues ch) \<noteq> [])
                   \<or> at2 (chan_peer_side h) (ch_closed ch))"

definition chan_writable :: "chan_handle \<Rightarrow> channels \<Rightarrow> bool" where
  "chan_writable h s =
     (case chan_get h s of
        None \<Rightarrow> True
      | Some ch \<Rightarrow> at2 (chan_peer_side h) (ch_closed ch) \<or> has_room (chan_side h) ch)"

definition chan_peer_closed :: "chan_handle \<Rightarrow> channels \<Rightarrow> bool" where
  "chan_peer_closed h s =
     (case chan_get h s of None \<Rightarrow> True | Some ch \<Rightarrow> at2 (chan_peer_side h) (ch_closed ch))"

section \<open>Sending\<close>

text \<open>A message in, the receiver to wake, and the readiness waiters left to \<^verbatim>\<open>wake_ready\<close>.\<close>

definition deliver ::
  "chan_handle \<Rightarrow> message option \<Rightarrow> channel \<Rightarrow> channels \<Rightarrow> channels \<times> task_id list" where
  "deliver h pending ch s =
     (case deposit (chan_side h) pending ch of
        (ch, woken) \<Rightarrow> (leave_to_wake h (put_chan (chan_handle_id h) ch s), woken))"

definition send_or_return ::
  "chan_handle \<Rightarrow> message \<Rightarrow> channels
     \<Rightarrow> channels \<times> task_id list \<times> (kernel_error \<times> message option + unit)" where
  "send_or_return h msg s =
     (case chan_get h s of
        None \<Rightarrow> (s, [], Inl (InvalidHandle, None))
      | Some ch \<Rightarrow>
          if ends_closed (chan_side h) ch then (s, [], Inl (ChannelClosed, None))
          else if has_room (chan_side h) ch
          then (case deliver h (Some msg) ch s of (s, woken) \<Rightarrow> (s, woken, Inr ()))
          else (s, [], Inl (ChannelFull, Some msg)))"

definition chan_send :: "chan_handle \<Rightarrow> message \<Rightarrow> channels \<Rightarrow> channels \<times> task_id list \<times> unit kernel_result" where
  "chan_send h msg s =
     (case send_or_return h msg s of
        (s, woken, Inl (e, _)) \<Rightarrow> (s, woken, Err e)
      | (s, woken, Inr _) \<Rightarrow> (s, woken, Ok ()))"

text \<open>\<^verbatim>\<open>send_blocking\<close>: one turn of the loop up to the park, and what it looks at when it wakes.\<close>

definition send_turn ::
  "task_id \<Rightarrow> chan_handle \<Rightarrow> message option \<Rightarrow> channels
     \<Rightarrow> channels \<times> task_id list \<times> message option \<times> unit kernel_result turn" where
  "send_turn task h pending s =
     (case chan_get h s of
        None \<Rightarrow> (s, [], pending, Finished (Err InvalidHandle))
      | Some ch \<Rightarrow>
          if ends_closed (chan_side h) ch then (s, [], pending, Finished (Err ChannelClosed))
          else if has_room (chan_side h) ch
          then (case deliver h pending ch s of (s, woken) \<Rightarrow> (s, woken, None, Finished (Ok ())))
          else (case park_sender task (chan_side h) pending ch of
                  (ch, pending) \<Rightarrow>
                    (leave_to_wake h (put_chan (chan_handle_id h) ch s), [], pending, Parked)))"

definition send_resume :: "chan_handle \<Rightarrow> channels \<Rightarrow> unit kernel_result turn" where
  "send_resume h s =
     (case chan_get h s of
        None \<Rightarrow> Finished (Err InvalidHandle)
      | Some ch \<Rightarrow>
          if ch_sync ch \<and> at2 (chan_side h) (ch_slots ch) = None then Finished (Ok ()) else Again)"

text \<open>
  \<^verbatim>\<open>send_timeout\<close>: the attempt before the timer is armed, with the deadline for the loop, and one
  turn of the loop; whether the timer has fired and the clock are inputs.
\<close>

definition send_timed_start ::
  "chan_handle \<Rightarrow> message \<Rightarrow> nat \<Rightarrow> nat \<Rightarrow> channels
     \<Rightarrow> channels \<times> task_id list \<times> nat \<times> unit kernel_result turn" where
  "send_timed_start h msg now timeout_ns s =
     (case chan_get h s of
        None \<Rightarrow> (s, [], 0, Finished (Err InvalidHandle))
      | Some ch \<Rightarrow>
          if ends_closed (chan_side h) ch then (s, [], 0, Finished (Err ChannelClosed))
          else if has_room (chan_side h) ch
          then (case deliver h (Some msg) ch s of (s, woken) \<Rightarrow> (s, woken, 0, Finished (Ok ())))
          else if timeout_ns = 0 then (s, [], 0, Finished (Err TimedOut))
          else (s, [], sat_add64 now timeout_ns, Again))"

definition clear_slot :: "nat \<Rightarrow> channel \<Rightarrow> channel" where
  "clear_slot our ch = (if ch_sync ch then ch\<lparr>ch_slots := put2 our None (ch_slots ch)\<rparr> else ch)"

definition send_timed_turn ::
  "task_id \<Rightarrow> chan_handle \<Rightarrow> bool \<Rightarrow> nat \<Rightarrow> nat \<Rightarrow> message option \<Rightarrow> channels
     \<Rightarrow> channels \<times> task_id list \<times> message option \<times> unit kernel_result turn" where
  "send_timed_turn task h fired now deadline pending s =
     (case chan_get h s of
        None \<Rightarrow> (s, [], pending, Finished (Err InvalidHandle))
      | Some ch \<Rightarrow>
          let our = chan_side h; i = chan_handle_id h
          in if ends_closed our ch then (put_chan i (clear_slot our ch) s, [], pending, Finished (Err ChannelClosed))
             else if ch_sync ch \<and> at2 our (ch_slots ch) = None \<and> pending = None
             then (s, [], pending, Finished (Ok ()))
             else if has_room our ch
             then (case deliver h pending ch s of (s, woken) \<Rightarrow> (s, woken, None, Finished (Ok ())))
             else (case park_sender task our pending ch of
                     (ch, pending) \<Rightarrow>
                       if fired \<or> deadline \<le> now
                       then (put_chan i (clear_slot our ch) s, [], pending, Finished (Err TimedOut))
                       else (leave_to_wake h (put_chan i ch s), [], pending, Parked)))"

section \<open>Receiving\<close>

definition room_waiters :: "nat \<Rightarrow> bool \<Rightarrow> channel \<Rightarrow> u64 \<Rightarrow> channel \<times> task_id list \<times> u64" where
  "room_waiters sender_side full ch n =
     (if \<not> full \<or> n = 0 then (ch, [], n) else take_ready sender_side ch n)"

definition try_recv :: "chan_handle \<Rightarrow> channels \<Rightarrow> channels \<times> task_id list \<times> message option kernel_result" where
  "try_recv h s =
     (case chan_get h s of
        None \<Rightarrow> (s, [], Err InvalidHandle)
      | Some ch \<Rightarrow>
          let our = chan_side h; peer = chan_peer_side h; full = was_full our ch
          in (case take_message our ch of
                (ch, Some m) \<Rightarrow>
                  let sender = opt_list (at2 peer (ch_senders ch));
                      ch = ch\<lparr>ch_senders := put2 peer None (ch_senders ch)\<rparr>
                  in (case room_waiters peer full ch (cs_ready s) of
                        (ch, room, n) \<Rightarrow>
                          ((put_chan (chan_handle_id h) ch s)\<lparr>cs_ready := n\<rparr>, sender @ room, Ok (Some m)))
              | (_, None) \<Rightarrow>
                  if at2 peer (ch_closed ch) then (s, [], Err ChannelClosed) else (s, [], Ok None)))"

text \<open>
  \<^verbatim>\<open>recv\<close> and \<^verbatim>\<open>recv_timeout\<close> take a message in the way of \<^verbatim>\<open>try_recv\<close>, and in the same critical section
  note the receiver when there is none.
\<close>

definition note_receiver :: "task_id \<Rightarrow> chan_handle \<Rightarrow> channels \<Rightarrow> channels" where
  "note_receiver task h s =
     (case chan_get h s of
        None \<Rightarrow> s
      | Some ch \<Rightarrow> put_chan (chan_handle_id h)
                     (ch\<lparr>ch_waiters := put2 (chan_side h) (Some task) (ch_waiters ch)\<rparr>) s)"

definition recv_turn ::
  "task_id \<Rightarrow> chan_handle \<Rightarrow> channels \<Rightarrow> channels \<times> task_id list \<times> message kernel_result turn" where
  "recv_turn task h s =
     (case try_recv h s of
        (s, woken, Inl e) \<Rightarrow> (s, woken, Finished (Err e))
      | (s, woken, Inr (Some m)) \<Rightarrow> (s, woken, Finished (Ok m))
      | (s, woken, Inr None) \<Rightarrow> (note_receiver task h s, woken, Parked))"

definition recv_timed_start ::
  "chan_handle \<Rightarrow> nat \<Rightarrow> nat \<Rightarrow> channels \<Rightarrow> channels \<times> task_id list \<times> nat \<times> message kernel_result turn" where
  "recv_timed_start h now timeout_ns s =
     (case try_recv h s of
        (s, woken, Inl e) \<Rightarrow> (s, woken, 0, Finished (Err e))
      | (s, woken, Inr (Some m)) \<Rightarrow> (s, woken, 0, Finished (Ok m))
      | (s, woken, Inr None) \<Rightarrow>
          if timeout_ns = 0 then (s, woken, 0, Finished (Err TimedOut))
          else (s, woken, sat_add64 now timeout_ns, Again))"

definition recv_timed_turn ::
  "task_id \<Rightarrow> chan_handle \<Rightarrow> bool \<Rightarrow> nat \<Rightarrow> nat \<Rightarrow> channels
     \<Rightarrow> channels \<times> task_id list \<times> message kernel_result turn" where
  "recv_timed_turn task h fired now deadline s =
     (case try_recv h s of
        (s, woken, Inl e) \<Rightarrow> (s, woken, Finished (Err e))
      | (s, woken, Inr (Some m)) \<Rightarrow> (s, woken, Finished (Ok m))
      | (s, woken, Inr None) \<Rightarrow>
          if fired \<or> deadline \<le> now then (s, woken, Finished (Err TimedOut))
          else (note_receiver task h s, woken, Parked))"

section \<open>Interruptible waits\<close>

text \<open>
  The loops of \<^verbatim>\<open>recv_interruptible\<close> and \<^verbatim>\<open>send_interruptible\<close>, each critical section a step and the
  place in the loop a value: try, register, look again, and, when there is still nothing, park; after
  the park, or when the look found something, deregister and try again. The signal asked for after
  the try is an input; how long a park lasts is not said here (\<open>watch_step\<close> in \<open>ChannelPromises\<close>).
\<close>

datatype int_place = AtTry | AtRegister | AtCheck | AtPark | AtLeave

datatype 'r move = Return 'r | Goto int_place

fun recv_int_step ::
  "task_id \<Rightarrow> chan_handle \<Rightarrow> bool \<Rightarrow> int_place \<Rightarrow> channels
     \<Rightarrow> channels \<times> task_id list \<times> message kernel_result move" where
  "recv_int_step task h signal AtTry s =
     (case try_recv h s of
        (s, woken, Inl e) \<Rightarrow> (s, woken, Return (Err e))
      | (s, woken, Inr (Some m)) \<Rightarrow> (s, woken, Return (Ok m))
      | (s, woken, Inr None) \<Rightarrow> (s, woken, if signal then Return (Err Interrupted) else Goto AtRegister))"
| "recv_int_step task h signal AtRegister s = (chan_register_waiter h task s, [], Goto AtCheck)"
| "recv_int_step task h signal AtCheck s = (s, [], Goto (if chan_readable h s then AtLeave else AtPark))"
| "recv_int_step task h signal AtPark s = (s, [], Goto AtLeave)"
| "recv_int_step task h signal AtLeave s = (chan_deregister_waiter h task s, [], Goto AtTry)"

fun send_int_step ::
  "task_id \<Rightarrow> chan_handle \<Rightarrow> bool \<Rightarrow> message \<Rightarrow> int_place \<Rightarrow> channels
     \<Rightarrow> channels \<times> task_id list \<times> unit kernel_result move" where
  "send_int_step task h signal msg AtTry s =
     (case send_or_return h msg s of
        (s, woken, Inr _) \<Rightarrow> (s, woken, Return (Ok ()))
      | (s, woken, Inl (e, back)) \<Rightarrow>
          (s, woken,
           if \<not> (e = ChannelFull \<and> back \<noteq> None) then Return (Err e)
           else if signal then Return (Err Interrupted) else Goto AtRegister))"
| "send_int_step task h signal msg AtRegister s = (chan_register_waiter h task s, [], Goto AtCheck)"
| "send_int_step task h signal msg AtCheck s = (s, [], Goto (if chan_writable h s then AtLeave else AtPark))"
| "send_int_step task h signal msg AtPark s = (s, [], Goto AtLeave)"
| "send_int_step task h signal msg AtLeave s = (chan_deregister_waiter h task s, [], Goto AtTry)"

section \<open>Holders\<close>

definition sat_inc32 :: "u32 \<Rightarrow> u32" where
  "sat_inc32 n = (if unat n = u32_max then n else n + 1)"

definition sat_dec32 :: "u32 \<Rightarrow> u32" where
  "sat_dec32 n = (if n = 0 then 0 else n - 1)"

definition chan_dup :: "chan_handle \<Rightarrow> channels \<Rightarrow> channels \<times> unit kernel_result" where
  "chan_dup h s =
     (case chan_get h s of
        None \<Rightarrow> (s, Err InvalidHandle)
      | Some ch \<Rightarrow>
          let side = chan_side h
          in if at2 side (ch_closed ch) then (s, Err InvalidHandle)
             else (put_chan (chan_handle_id h)
                     (ch\<lparr>ch_refs := put2 side (sat_inc32 (at2 side (ch_refs ch))) (ch_refs ch)\<rparr>) s, Ok ()))"

text \<open>The end shut: the peer's waiters taken, the message parked on our side dropped.\<close>

definition shut_end :: "nat \<Rightarrow> channel \<Rightarrow> channel \<times> task_id list" where
  "shut_end our ch =
     (let peer = other our
      in (clear_slot our
            (ch\<lparr>ch_closed := put2 our True (ch_closed ch),
                ch_waiters := put2 peer None (ch_waiters ch),
                ch_senders := put2 peer None (ch_senders ch)\<rparr>),
          opt_list (at2 peer (ch_waiters ch)) @ opt_list (at2 peer (ch_senders ch))))"

definition ready_count :: "channel \<Rightarrow> nat" where
  "ready_count ch = ws_count (fst (ch_ready ch)) + ws_count (snd (ch_ready ch))"

definition chan_close :: "chan_handle \<Rightarrow> channels \<Rightarrow> channels \<times> task_id list" where
  "chan_close h s =
     (case chan_get h s of
        None \<Rightarrow> (s, [])
      | Some ch \<Rightarrow>
          let our = chan_side h; i = chan_handle_id h
          in if at2 our (ch_closed ch) then (s, [])
             else let refs = sat_dec32 (at2 our (ch_refs ch));
                      ch = ch\<lparr>ch_refs := put2 our refs (ch_refs ch)\<rparr>
                  in if 0 < refs then (put_chan i ch s, [])
                     else (case shut_end our ch of
                             (ch, woken) \<Rightarrow>
                               (case take_ready (other our) ch (cs_ready s) of
                                  (ch, ready, n) \<Rightarrow>
                                    (if at2 0 (ch_closed ch) \<and> at2 1 (ch_closed ch)
                                     then s\<lparr>cs_table := bt_remove i (cs_table s),
                                            cs_ready := n - of_nat (ready_count ch)\<rparr>
                                     else (put_chan i ch s)\<lparr>cs_ready := n\<rparr>,
                                     woken @ ready))))"

end
