(* ===== verification/ChannelRuns.thy ===== *)
theory ChannelRuns imports Channel Streams begin

text \<open>
  Runs of channel operations (\<^verbatim>\<open>kernel/src/ipc/channel.rs\<close>): every critical section of every call,
  the \<^verbatim>\<open>wake_ready\<close> of a send on its own, as an event, the effect of an event on the one channel it names, the normal form that reduces a step
  on the table to that effect, and the invariant every event keeps: among it, that the count of
  readiness waiters by which a send skips the table's lock is exact.
\<close>

section \<open>Pairs and handles\<close>

lemma other_zero [simp]: "other i = 0 \<longleftrightarrow> i \<noteq> 0"
  by (auto simp: other_def)

lemma at2_put2: "at2 i (put2 j x p) = (if (i = 0) = (j = 0) then x else at2 i p)"
  by (simp add: at2_def put2_def)

lemma at2_put2_simps [simp]:
  "at2 i (put2 i x p) = x" "at2 (other i) (put2 i x p) = at2 (other i) p" "at2 i (put2 (other i) x p) = at2 i p"
  by (auto simp: at2_put2)

lemma at2_other_other [simp]: "at2 (other (other i)) p = at2 i p"
  by (simp add: at2_def)

lemma put2_same [simp]: "put2 i (at2 i p) p = p"
  by (simp add: at2_def put2_def)

lemma put2_put2 [simp]: "put2 i x (put2 i y p) = put2 i x p"
  by (simp add: put2_def)

lemma at2_pair [simp]: "at2 i (x, x) = x"
  by (simp add: at2_def)

lemma forall_sides: "(\<forall>i. P (at2 i p) (at2 (other i) q)) \<longleftrightarrow> P (fst p) (snd q) \<and> P (snd p) (fst q)"
proof
  assume "\<forall>i. P (at2 i p) (at2 (other i) q)"
  from spec [OF this, of 0] spec [OF this, of 1] show "P (fst p) (snd q) \<and> P (snd p) (fst q)"
    by (simp add: at2_def)
qed (simp add: at2_def)

lemma bit_chan_handle:
  assumes "side < 2"
  shows "bit (chan_handle_new i side) n \<longleftrightarrow> (1 \<le> n \<and> n < 64 \<and> bit i (n - 1)) \<or> (n = 0 \<and> side = 1)"
proof -
  have "bit (push_bit 1 i) n \<longleftrightarrow> 1 \<le> n \<and> n < 64 \<and> bit i (n - 1)"
    by (simp only: bit_push_bit_iff possible_bit_word) auto
  moreover have "bit (of_nat side AND 1 :: u64) n \<longleftrightarrow> n = 0 \<and> side = 1"
    using assms by (cases side) (auto simp: bit_1_iff)
  ultimately show ?thesis unfolding chan_handle_new_def bit_or_iff by simp
qed

lemma chan_side_lt: "chan_side h < 2"
  by (simp add: chan_side_def and_one_eq unat_mod_distrib)

lemma handle_decodes:
  assumes "i < 2 ^ 63" and "side < 2"
  shows "chan_handle_id (chan_handle_new i side) = i" and "chan_side (chan_handle_new i side) = side"
proof -
  have "chan_handle_new i side AND 1 = of_nat side"
    using assms(2) by (intro bit_word_eqI)
      (cases side, auto simp: bit_and_iff bit_1_iff bit_chan_handle)
  then show "chan_side (chan_handle_new i side) = side"
    using assms(2) by (cases side) (auto simp: chan_side_def)
  have "take_bit 63 (unat i) = unat i"
    using assms(1) by (intro take_bit_nat_eq_self) (simp add: word_less_nat_alt)
  then have "take_bit 63 i = i" by (metis unsigned_word_eqI unsigned_take_bit_eq)
  then have high: "bit i n \<Longrightarrow> n < 63" for n by (metis bit_take_bit_iff)
  show "chan_handle_id (chan_handle_new i side) = i"
    using assms(2) high
    by (intro bit_word_eqI) (auto simp: chan_handle_id_def bit_drop_bit_eq bit_chan_handle)
qed

section \<open>Events\<close>

datatype (plugins only: code size) chan_op =
    OpSend message
  | OpSendTurn task_id "message option"
  | OpSendStart message nat nat
  | OpSendTimed task_id bool nat nat "message option"
  | OpSendInt task_id bool message int_place
  | OpTryRecv
  | OpRecvTurn task_id
  | OpRecvStart nat nat
  | OpRecvTimed task_id bool nat nat
  | OpRecvInt task_id bool int_place
  | OpWake
  | OpRegister task_id
  | OpDeregister task_id
  | OpDup
  | OpClose
  | OpSetCred peer_cred
  | OpSetKey u64

datatype chan_event = ChCreate bool | ChOn chan_handle chan_op

text \<open>The table after an event and the tasks it wakes.\<close>

definition state_woken :: "channels \<times> task_id list \<times> 'r \<Rightarrow> channels \<times> task_id list" where
  "state_woken r = (fst r, fst (snd r))"

fun op_step :: "chan_op \<Rightarrow> chan_handle \<Rightarrow> channels \<Rightarrow> channels \<times> task_id list" where
  "op_step (OpSend m) h s = state_woken (chan_send h m s)"
| "op_step (OpSendTurn t p) h s = state_woken (send_turn t h p s)"
| "op_step (OpSendStart m now ns) h s = state_woken (send_timed_start h m now ns s)"
| "op_step (OpSendTimed t f now dl p) h s = state_woken (send_timed_turn t h f now dl p s)"
| "op_step (OpSendInt t sig m at) h s = state_woken (send_int_step t h sig m at s)"
| "op_step OpTryRecv h s = state_woken (try_recv h s)"
| "op_step (OpRecvTurn t) h s = state_woken (recv_turn t h s)"
| "op_step (OpRecvStart now ns) h s = state_woken (recv_timed_start h now ns s)"
| "op_step (OpRecvTimed t f now dl) h s = state_woken (recv_timed_turn t h f now dl s)"
| "op_step (OpRecvInt t sig at) h s = state_woken (recv_int_step t h sig at s)"
| "op_step OpWake h s = wake_turn h s"
| "op_step (OpRegister t) h s = (chan_register_waiter h t s, [])"
| "op_step (OpDeregister t) h s = (chan_deregister_waiter h t s, [])"
| "op_step OpDup h s = (fst (chan_dup h s), [])"
| "op_step OpClose h s = chan_close h s"
| "op_step (OpSetCred c) h s = (fst (set_side_cred h c s), [])"
| "op_step (OpSetKey k) h s = (fst (set_service_key h k s), [])"

fun chan_step :: "chan_event \<Rightarrow> channels \<Rightarrow> channels" where
  "chan_step (ChCreate sync) s = fst (if sync then chan_create_sync s else chan_create s)"
| "chan_step (ChOn h op) s = fst (op_step op h s)"

fun chan_woken :: "chan_event \<Rightarrow> channels \<Rightarrow> task_id list" where
  "chan_woken (ChCreate sync) s = []"
| "chan_woken (ChOn h op) s = snd (op_step op h s)"

text \<open>The messages a call takes over from its caller, and those it answers with.\<close>

definition taken_over :: "message option \<Rightarrow> message option \<Rightarrow> message list" where
  "taken_over before after = (if after = None then opt_list before else [])"

fun op_sent :: "chan_op \<Rightarrow> chan_handle \<Rightarrow> channels \<Rightarrow> message list" where
  "op_sent (OpSend m) h s = (case chan_send h m s of (_, _, Inr _) \<Rightarrow> [m] | _ \<Rightarrow> [])"
| "op_sent (OpSendTurn t p) h s = (case send_turn t h p s of (_, _, p', _) \<Rightarrow> taken_over p p')"
| "op_sent (OpSendStart m now ns) h s =
     (case send_timed_start h m now ns s of (_, _, _, Finished (Inr _)) \<Rightarrow> [m] | _ \<Rightarrow> [])"
| "op_sent (OpSendTimed t f now dl p) h s =
     (case send_timed_turn t h f now dl p s of (_, _, p', _) \<Rightarrow> taken_over p p')"
| "op_sent (OpSendInt t sig m at) h s =
     (case send_int_step t h sig m at s of (_, _, Return (Inr _)) \<Rightarrow> [m] | _ \<Rightarrow> [])"
| "op_sent _ h s = []"

definition answered :: "message kernel_result turn \<Rightarrow> message list" where
  "answered r = (case r of Finished (Inr m) \<Rightarrow> [m] | _ \<Rightarrow> [])"

fun op_received :: "chan_op \<Rightarrow> chan_handle \<Rightarrow> channels \<Rightarrow> message list" where
  "op_received OpTryRecv h s = (case try_recv h s of (_, _, Inr (Some m)) \<Rightarrow> [m] | _ \<Rightarrow> [])"
| "op_received (OpRecvTurn t) h s = answered (snd (snd (recv_turn t h s)))"
| "op_received (OpRecvStart now ns) h s = answered (snd (snd (snd (recv_timed_start h now ns s))))"
| "op_received (OpRecvTimed t f now dl) h s = answered (snd (snd (recv_timed_turn t h f now dl s)))"
| "op_received (OpRecvInt t sig at) h s =
     (case recv_int_step t h sig at s of (_, _, Return (Inr m)) \<Rightarrow> [m] | _ \<Rightarrow> [])"
| "op_received _ h s = []"

section \<open>What an event does to its channel\<close>

definition drop_ready :: "nat \<Rightarrow> channel \<Rightarrow> channel" where
  "drop_ready side ch = ch\<lparr>ch_ready := put2 side [] (ch_ready ch)\<rparr>"

definition eff_deliver :: "nat \<Rightarrow> message option \<Rightarrow> channel \<Rightarrow> channel" where
  "eff_deliver our p ch = fst (deposit our p ch)"

definition eff_park :: "task_id \<Rightarrow> nat \<Rightarrow> message option \<Rightarrow> channel \<Rightarrow> channel" where
  "eff_park t our p ch = fst (park_sender t our p ch)"

definition eff_recv :: "nat \<Rightarrow> channel \<Rightarrow> channel" where
  "eff_recv our ch =
     (case take_message our ch of
        (_, None) \<Rightarrow> ch
      | (ch', Some _) \<Rightarrow>
          let ch' = ch'\<lparr>ch_senders := put2 (other our) None (ch_senders ch)\<rparr>
          in if was_full our ch then drop_ready (other our) ch' else ch')"

text \<open>Nothing to receive, and the peer open: a receive waits.\<close>

definition idle :: "nat \<Rightarrow> channel \<Rightarrow> bool" where
  "idle our ch \<longleftrightarrow> snd (take_message our ch) = None \<and> \<not> at2 (other our) (ch_closed ch)"

definition await_msg :: "task_id \<Rightarrow> nat \<Rightarrow> channel \<Rightarrow> channel" where
  "await_msg t our ch = ch\<lparr>ch_waiters := put2 our (Some t) (ch_waiters ch)\<rparr>"

definition enlist :: "task_id \<Rightarrow> nat \<Rightarrow> channel \<Rightarrow> channel" where
  "enlist t our ch = ch\<lparr>ch_ready := put2 our (ws_insert t (at2 our (ch_ready ch))) (ch_ready ch)\<rparr>"

definition delist :: "task_id \<Rightarrow> nat \<Rightarrow> channel \<Rightarrow> channel" where
  "delist t our ch = ch\<lparr>ch_ready := put2 our (ws_remove t (at2 our (ch_ready ch))) (ch_ready ch)\<rparr>"

definition eff_close :: "nat \<Rightarrow> channel \<Rightarrow> channel" where
  "eff_close our ch =
     (if at2 our (ch_closed ch) then ch
      else let ch = ch\<lparr>ch_refs := put2 our (sat_dec32 (at2 our (ch_refs ch))) (ch_refs ch)\<rparr>
           in if 0 < at2 our (ch_refs ch) then ch else drop_ready (other our) (fst (shut_end our ch)))"

fun chan_effect :: "chan_op \<Rightarrow> nat \<Rightarrow> channel \<Rightarrow> channel" where
  "chan_effect (OpSend m) our ch =
     (if \<not> ends_closed our ch \<and> has_room our ch then eff_deliver our (Some m) ch else ch)"
| "chan_effect (OpSendTurn t p) our ch =
     (if ends_closed our ch then ch
      else if has_room our ch then eff_deliver our p ch else eff_park t our p ch)"
| "chan_effect (OpSendStart m now ns) our ch =
     (if \<not> ends_closed our ch \<and> has_room our ch then eff_deliver our (Some m) ch else ch)"
| "chan_effect (OpSendTimed t f now dl p) our ch =
     (if ends_closed our ch then clear_slot our ch
      else if ch_sync ch \<and> at2 our (ch_slots ch) = None \<and> p = None then ch
      else if has_room our ch then eff_deliver our p ch
      else if f \<or> dl \<le> now then clear_slot our (fst (park_sender t our p ch)) else eff_park t our p ch)"
| "chan_effect (OpSendInt t sig m at) our ch =
     (case at of
        AtTry \<Rightarrow> if \<not> ends_closed our ch \<and> has_room our ch then eff_deliver our (Some m) ch else ch
      | AtRegister \<Rightarrow> enlist t our ch
      | AtLeave \<Rightarrow> delist t our ch
      | _ \<Rightarrow> ch)"
| "chan_effect (OpRecvTurn t) our ch = (if idle our ch then await_msg t our ch else eff_recv our ch)"
| "chan_effect (OpRecvTimed t f now dl) our ch =
     (if idle our ch \<and> \<not> (f \<or> dl \<le> now) then await_msg t our ch else eff_recv our ch)"
| "chan_effect (OpRecvInt t sig at) our ch =
     (case at of AtTry \<Rightarrow> eff_recv our ch | AtRegister \<Rightarrow> enlist t our ch | AtLeave \<Rightarrow> delist t our ch | _ \<Rightarrow> ch)"
| "chan_effect OpWake our ch = drop_ready (other our) ch"
| "chan_effect OpTryRecv our ch = eff_recv our ch"
| "chan_effect (OpRecvStart now ns) our ch = eff_recv our ch"
| "chan_effect (OpRegister t) our ch = enlist t our ch"
| "chan_effect (OpDeregister t) our ch = delist t our ch"
| "chan_effect OpDup our ch =
     (if at2 our (ch_closed ch) then ch
      else ch\<lparr>ch_refs := put2 our (sat_inc32 (at2 our (ch_refs ch))) (ch_refs ch)\<rparr>)"
| "chan_effect OpClose our ch = eff_close our ch"
| "chan_effect (OpSetCred c) our ch =
     (if at2 our (ch_creds ch) \<noteq> None then ch else ch\<lparr>ch_creds := put2 our (Some c) (ch_creds ch)\<rparr>)"
| "chan_effect (OpSetKey k) our ch =
     (if ch_service_key ch \<noteq> None then ch else ch\<lparr>ch_service_key := Some k\<rparr>)"

text \<open>The tasks it wakes.\<close>

definition wakes_deliver :: "nat \<Rightarrow> channel \<Rightarrow> task_id list" where
  "wakes_deliver our ch = opt_list (at2 (other our) (ch_waiters ch))"

definition wakes_recv :: "nat \<Rightarrow> channel \<Rightarrow> task_id list" where
  "wakes_recv our ch =
     (if snd (take_message our ch) = None then []
      else opt_list (at2 (other our) (ch_senders ch))
        @ (if was_full our ch then at2 (other our) (ch_ready ch) else []))"

fun chan_wakes :: "chan_op \<Rightarrow> nat \<Rightarrow> channel \<Rightarrow> task_id list" where
  "chan_wakes (OpSend m) our ch =
     (if \<not> ends_closed our ch \<and> has_room our ch then wakes_deliver our ch else [])"
| "chan_wakes (OpSendTurn t p) our ch =
     (if \<not> ends_closed our ch \<and> has_room our ch then wakes_deliver our ch else [])"
| "chan_wakes (OpSendStart m now ns) our ch =
     (if \<not> ends_closed our ch \<and> has_room our ch then wakes_deliver our ch else [])"
| "chan_wakes (OpSendTimed t f now dl p) our ch =
     (if ends_closed our ch then []
      else if ch_sync ch \<and> at2 our (ch_slots ch) = None \<and> p = None then []
      else if has_room our ch then wakes_deliver our ch else [])"
| "chan_wakes (OpSendInt t sig m at) our ch =
     (if at = AtTry \<and> \<not> ends_closed our ch \<and> has_room our ch then wakes_deliver our ch else [])"
| "chan_wakes OpWake our ch = at2 (other our) (ch_ready ch)"
| "chan_wakes OpClose our ch =
     (if at2 our (ch_closed ch) \<or> 0 < sat_dec32 (at2 our (ch_refs ch)) then []
      else opt_list (at2 (other our) (ch_waiters ch)) @ opt_list (at2 (other our) (ch_senders ch))
        @ at2 (other our) (ch_ready ch))"
| "chan_wakes OpTryRecv our ch = wakes_recv our ch"
| "chan_wakes (OpRecvTurn t) our ch = wakes_recv our ch"
| "chan_wakes (OpRecvStart now ns) our ch = wakes_recv our ch"
| "chan_wakes (OpRecvTimed t f now dl) our ch = wakes_recv our ch"
| "chan_wakes (OpRecvInt t sig at) our ch = (if at = AtTry then wakes_recv our ch else [])"
| "chan_wakes _ our ch = []"

text \<open>The sections a call leaves with its \<^verbatim>\<open>wake_ready\<close> before it.\<close>

fun owes_wake :: "chan_op \<Rightarrow> nat \<Rightarrow> channel \<Rightarrow> bool" where
  "owes_wake (OpSend m) our ch \<longleftrightarrow> \<not> ends_closed our ch \<and> has_room our ch"
| "owes_wake (OpSendTurn t p) our ch \<longleftrightarrow> \<not> ends_closed our ch"
| "owes_wake (OpSendStart m now ns) our ch \<longleftrightarrow> \<not> ends_closed our ch \<and> has_room our ch"
| "owes_wake (OpSendTimed t f now dl p) our ch \<longleftrightarrow>
     \<not> ends_closed our ch \<and> \<not> (ch_sync ch \<and> at2 our (ch_slots ch) = None \<and> p = None)
     \<and> (has_room our ch \<or> \<not> (f \<or> dl \<le> now))"
| "owes_wake (OpSendInt t sig m at) our ch \<longleftrightarrow> at = AtTry \<and> \<not> ends_closed our ch \<and> has_room our ch"
| "owes_wake _ our ch \<longleftrightarrow> False"

definition waking_after :: "chan_op \<Rightarrow> chan_handle \<Rightarrow> channel option \<Rightarrow> chan_handle list \<Rightarrow> chan_handle list" where
  "waking_after op h found ws =
     (if op = OpWake then remove1 h ws
      else case found of
          Some ch \<Rightarrow> if owes_wake op (chan_side h) ch then ws @ [h] else ws
        | None \<Rightarrow> ws)"

section \<open>The normal form of a step\<close>

definition gone :: "channel \<Rightarrow> bool" where
  "gone ch \<longleftrightarrow> fst (ch_closed ch) \<and> snd (ch_closed ch)"

text \<open>A channel put back, or taken out when both ends are closed; the count follows.\<close>

definition commit :: "chan_id \<Rightarrow> channel \<Rightarrow> channels \<Rightarrow> channels" where
  "commit i ch s =
     (case bt_get (cs_table s) i of
        None \<Rightarrow> s
      | Some old \<Rightarrow>
          s\<lparr>cs_table := (if gone ch then bt_remove i (cs_table s) else bt_adjust i (\<lambda>_. ch) (cs_table s)),
            cs_ready := cs_ready s + (if gone ch then 0 else of_nat (ready_count ch)) - of_nat (ready_count old)\<rparr>)"

definition total_ready :: "channels \<Rightarrow> nat" where
  "total_ready s = (\<Sum>ch \<in># mset (bt_values (cs_table s)). ready_count ch)"

definition count_exact :: "channels \<Rightarrow> bool" where
  "count_exact s \<longleftrightarrow> cs_ready s = of_nat (total_ready s) \<and> total_ready s < 2 ^ 64"

text \<open>A table in order, whose channels have an open end.\<close>

definition tidy :: "channels \<Rightarrow> bool" where
  "tidy s \<longleftrightarrow> bt_ok (cs_table s) \<and> (\<forall>i ch. bt_get (cs_table s) i = Some ch \<longrightarrow> \<not> gone ch)"

lemma total_split:
  "bt_ok (cs_table s) \<Longrightarrow> bt_get (cs_table s) i = Some ch \<Longrightarrow>
     total_ready s = ready_count ch + total_ready (s\<lparr>cs_table := bt_remove i (cs_table s)\<rparr>)"
  by (simp add: total_ready_def bt_values_remove)

lemma total_put:
  "bt_ok (cs_table s) \<Longrightarrow> bt_get (cs_table s) i = Some ch \<Longrightarrow>
     total_ready (s\<lparr>cs_table := bt_adjust i (\<lambda>_. ch') (cs_table s)\<rparr>)
       = ready_count ch' + total_ready (s\<lparr>cs_table := bt_remove i (cs_table s)\<rparr>)"
  by (simp add: total_ready_def bt_adjust_insert bt_values_insert)

lemma total_ready_cong [simp]: "total_ready (s\<lparr>cs_ready := n\<rparr>) = total_ready s"
  by (simp add: total_ready_def)

lemma commit_get:
  "bt_get (cs_table (commit i ch s)) j =
     (if j = i \<and> bt_get (cs_table s) i \<noteq> None then if gone ch then None else Some ch else bt_get (cs_table s) j)"
  by (auto simp: commit_def split: option.splits)

lemma commit_tidy: "tidy s \<Longrightarrow> tidy (commit i ch s)"
  by (auto simp: tidy_def commit_def split: option.splits if_splits)

lemma commit_next [simp]: "cs_next (commit i ch s) = cs_next s"
  by (simp add: commit_def split: option.splits)

text \<open>The senders on their way to \<^verbatim>\<open>wake_ready\<close> are apart from all that.\<close>

lemma waking_apart [simp]:
  "tidy (s\<lparr>cs_waking := w\<rparr>) = tidy s" "total_ready (s\<lparr>cs_waking := w\<rparr>) = total_ready s"
  "count_exact (s\<lparr>cs_waking := w\<rparr>) = count_exact s" "chan_get h (s\<lparr>cs_waking := w\<rparr>) = chan_get h s"
  "commit i ch (s\<lparr>cs_waking := w\<rparr>) = (commit i ch s)\<lparr>cs_waking := w\<rparr>" "cs_waking (commit i ch s) = cs_waking s"
  by (simp_all add: tidy_def total_ready_def count_exact_def chan_get_def commit_def split: option.splits)

lemma commit_same: "tidy s \<Longrightarrow> bt_get (cs_table s) i = Some ch \<Longrightarrow> commit i ch s = s"
  by (simp add: commit_def tidy_def bt_adjust_same)

lemma bt_adjust_twice: "bt_adjust k f (bt_adjust k g m) = bt_adjust k (\<lambda>x. f (g x)) m"
  by (auto simp: bt_adjust_def)

lemma bt_remove_adjust: "bt_remove k (bt_adjust k f m) = bt_remove k m"
  by (induction m) (auto simp: bt_remove_def bt_adjust_def)

lemma commit_commit:
  "tidy s \<Longrightarrow> \<not> gone ch \<Longrightarrow> commit i ch' (commit i ch s) = commit i ch' s"
  by (cases "bt_get (cs_table s) i")
    (simp_all add: commit_def bt_adjust_twice bt_remove_adjust)

lemma commit_exact:
  assumes "tidy s" and "count_exact s" and "bt_get (cs_table s) i = Some old"
    and "gone ch \<or> total_ready s + ready_count ch < 2 ^ 64 + ready_count old"
  shows "count_exact (commit i ch s)"
proof -
  have ok: "bt_ok (cs_table s)" using assms(1) by (simp add: tidy_def)
  note split = total_split [OF ok assms(3)] and put = total_put [OF ok assms(3), of ch]
  show ?thesis
  proof (cases "gone ch")
    case True
    with assms(2,3) split show ?thesis by (simp add: count_exact_def commit_def)
  next
    case False
    with assms(2-4) split put show ?thesis by (simp add: count_exact_def commit_def)
  qed
qed

lemma put_chan_commit:
  "bt_get (cs_table s) i = Some old \<Longrightarrow> \<not> gone ch \<Longrightarrow> ready_count ch = ready_count old \<Longrightarrow>
     put_chan i ch s = commit i ch s"
  by (simp add: put_chan_def commit_def)

lemma put_count_commit:
  "bt_get (cs_table s) i = Some old \<Longrightarrow> \<not> gone ch \<Longrightarrow>
     n = cs_ready s + of_nat (ready_count ch) - of_nat (ready_count old) \<Longrightarrow>
     (put_chan i ch s)\<lparr>cs_ready := n\<rparr> = commit i ch s"
  by (simp add: put_chan_def commit_def)

text \<open>The readiness waiters of a side, taken.\<close>

lemma gone_drop [simp]: "gone (drop_ready side ch) = gone ch"
  by (simp add: gone_def drop_ready_def)

lemma ready_count_drop: "ready_count (drop_ready side ch) + length (at2 side (ch_ready ch)) = ready_count ch"
  by (simp add: ready_count_def drop_ready_def put2_def at2_def ws_count_def)

lemma drop_ready_empty: "at2 side (ch_ready ch) = [] \<Longrightarrow> drop_ready side ch = ch"
  by (cases ch) (auto simp: drop_ready_def put2_def at2_def split: if_splits)

lemma no_count_no_waiters:
  assumes "tidy s" and "count_exact s" and "cs_ready s = 0" and "bt_get (cs_table s) i = Some ch"
  shows "at2 side (ch_ready ch) = []"
proof -
  have "total_ready s = 0"
    using assms(2,3) by (auto simp: count_exact_def word_of_nat_eq_0_iff dest: nat_dvd_not_less)
  then have "ready_count ch = 0"
    using assms(1,4) total_split [of s i ch] by (simp add: tidy_def)
  then show ?thesis by (simp add: ready_count_def ws_count_def at2_def)
qed

lemma take_ready_eq:
  "take_ready side ch n = (drop_ready side ch, at2 side (ch_ready ch), n - of_nat (length (at2 side (ch_ready ch))))"
  by (simp add: take_ready_def drop_ready_def)

lemma ready_count_word:
  "(n :: u64) - of_nat (length (at2 side (ch_ready ch))) =
     n + of_nat (ready_count (drop_ready side ch)) - of_nat (ready_count ch)"
proof -
  have "(of_nat (ready_count ch) :: u64)
      = of_nat (ready_count (drop_ready side ch)) + of_nat (length (at2 side (ch_ready ch)))"
    by (metis ready_count_drop of_nat_add)
  then show ?thesis by simp
qed

text \<open>Skipping the lock when the count is zero changes nothing.\<close>

lemma wake_ready_eq:
  assumes "tidy s" and "count_exact s" and "chan_get h s = Some ch"
  shows "wake_ready h s = (commit (chan_handle_id h) (drop_ready (chan_peer_side h) ch) s,
    at2 (chan_peer_side h) (ch_ready ch))"
proof -
  have get: "bt_get (cs_table s) (chan_handle_id h) = Some ch" using assms(3) by (simp add: chan_get_def)
  then have "\<not> gone ch" using assms(1) by (simp add: tidy_def)
  then have full: "(put_chan (chan_handle_id h) (drop_ready (chan_peer_side h) ch) s)
      \<lparr>cs_ready := cs_ready s - of_nat (length (at2 (chan_peer_side h) (ch_ready ch)))\<rparr>
      = commit (chan_handle_id h) (drop_ready (chan_peer_side h) ch) s"
    by (intro put_count_commit [OF get]) (simp_all add: ready_count_word)
  show ?thesis
  proof (cases "cs_ready s = 0")
    case True
    from no_count_no_waiters [OF assms(1,2) this get]
    have "at2 (chan_peer_side h) (ch_ready ch) = []" .
    with True show ?thesis
      by (simp add: wake_ready_def drop_ready_empty commit_same [OF assms(1) get])
  next
    case False
    with assms(3) full show ?thesis by (simp add: wake_ready_def take_ready_eq)
  qed
qed

text \<open>The channel's own updates leave the readiness sets and the closed ends alone.\<close>

definition same_frame :: "channel \<Rightarrow> channel \<Rightarrow> bool" where
  "same_frame ch ch' \<longleftrightarrow> ch_ready ch' = ch_ready ch \<and> ch_closed ch' = ch_closed ch"

lemma same_frameD:
  "same_frame ch ch' \<Longrightarrow> gone ch' = gone ch" "same_frame ch ch' \<Longrightarrow> ready_count ch' = ready_count ch"
  by (simp_all add: same_frame_def gone_def ready_count_def)

lemma frame_simps [simp]:
  "same_frame ch (fst (deposit our p ch))" "same_frame ch (fst (park_sender t our p ch))"
  "same_frame ch (fst (take_message our ch))" "same_frame ch (clear_slot our ch)"
  "same_frame ch ch" "same_frame ch (await_msg t our ch)"
  "same_frame ch (ch\<lparr>ch_creds := c\<rparr>)" "same_frame ch (ch\<lparr>ch_service_key := k\<rparr>)"
  "same_frame ch (ch\<lparr>ch_refs := r\<rparr>)" "same_frame ch (ch\<lparr>ch_senders := w\<rparr>)"
  "same_frame ch (ch\<lparr>ch_waiters := w\<rparr>)"
  by (auto simp: same_frame_def deposit_def park_sender_def take_message_def clear_slot_def await_msg_def Let_def
      split: option.splits list.splits)

lemma frame_trans: "same_frame a b \<Longrightarrow> same_frame b c \<Longrightarrow> same_frame a c"
  by (simp add: same_frame_def)

lemma commit_frame:
  assumes "tidy s" and "count_exact s" and "bt_get (cs_table s) i = Some ch" and "same_frame ch ch'"
  shows "put_chan i ch' s = commit i ch' s" and "tidy (commit i ch' s)" and "count_exact (commit i ch' s)"
    and "bt_get (cs_table (commit i ch' s)) i = Some ch'" and "\<not> gone ch'"
proof -
  show g: "\<not> gone ch'" using assms(1,3,4) by (simp add: tidy_def same_frameD)
  show "put_chan i ch' s = commit i ch' s"
    using put_chan_commit [OF assms(3) g] same_frameD(2) [OF assms(4)] by simp
  show "tidy (commit i ch' s)" by (rule commit_tidy [OF assms(1)])
  show "count_exact (commit i ch' s)"
    using commit_exact [OF assms(1-3), of ch'] assms(2) same_frameD(2) [OF assms(4)]
    by (simp add: count_exact_def)
  show "bt_get (cs_table (commit i ch' s)) i = Some ch'"
    using assms(3) g by (simp add: commit_get)
qed

text \<open>A channel changed, its readiness waiters left for later.\<close>

lemma leave_after:
  assumes "tidy s" and "count_exact s" and "chan_get h s = Some ch" and "same_frame ch ch'"
  shows "leave_to_wake h (put_chan (chan_handle_id h) ch' s)
    = (commit (chan_handle_id h) ch' s)\<lparr>cs_waking := cs_waking s @ [h]\<rparr>"
proof -
  have get: "bt_get (cs_table s) (chan_handle_id h) = Some ch" using assms(3) by (simp add: chan_get_def)
  show ?thesis by (simp add: leave_to_wake_def commit_frame(1) [OF assms(1,2) get assms(4)])
qed

lemma deliver_eq:
  assumes "tidy s" and "count_exact s" and "chan_get h s = Some ch"
  shows "deliver h p ch s
    = ((commit (chan_handle_id h) (eff_deliver (chan_side h) p ch) s)\<lparr>cs_waking := cs_waking s @ [h]\<rparr>,
       wakes_deliver (chan_side h) ch)"
proof -
  obtain ch' w where d: "deposit (chan_side h) p ch = (ch', w)" by fastforce
  have "same_frame ch ch'" by (metis d frame_simps(1) fst_conv)
  from leave_after [OF assms this] d show ?thesis
    by (simp add: deliver_def eff_deliver_def wakes_deliver_def) (simp add: deposit_def Let_def)
qed

lemma park_eq:
  assumes "tidy s" and "count_exact s" and "chan_get h s = Some ch"
    and "park_sender t (chan_side h) p ch = (ch', p')"
  shows "leave_to_wake h (put_chan (chan_handle_id h) ch' s)
    = (commit (chan_handle_id h) (eff_park t (chan_side h) p ch) s)\<lparr>cs_waking := cs_waking s @ [h]\<rparr>"
proof -
  have "same_frame ch ch'" by (metis assms(4) frame_simps(2) fst_conv)
  from leave_after [OF assms(1-3) this] assms(4) show ?thesis by (simp add: eff_park_def)
qed

lemma room_waiters_eq:
  assumes "tidy s" and "count_exact s" and "bt_get (cs_table s) i = Some old"
    and "ch_ready ch = ch_ready old"
  shows "room_waiters side full ch (cs_ready s)
    = (if full then take_ready side ch (cs_ready s) else (ch, [], cs_ready s))"
  using no_count_no_waiters [OF assms(1,2) _ assms(3), of side] assms(4)
  by (simp add: room_waiters_def take_ready_eq drop_ready_empty)

lemma take_message_None: "snd (take_message our ch) = None \<Longrightarrow> fst (take_message our ch) = ch"
  by (cases ch) (auto simp: take_message_def at2_def put2_def split: list.splits if_splits)

lemma try_recv_eq:
  assumes "tidy s" and "count_exact s" and "chan_get h s = Some ch"
  shows "try_recv h s = (commit (chan_handle_id h) (eff_recv (chan_side h) ch) s, wakes_recv (chan_side h) ch,
    case snd (take_message (chan_side h) ch) of Some m \<Rightarrow> Ok (Some m)
    | None \<Rightarrow> if at2 (chan_peer_side h) (ch_closed ch) then Err ChannelClosed else Ok None)"
proof -
  have get: "bt_get (cs_table s) (chan_handle_id h) = Some ch" using assms(3) by (simp add: chan_get_def)
  obtain ch1 m where t: "take_message (chan_side h) ch = (ch1, m)" by fastforce
  show ?thesis
  proof (cases m)
    case None
    with t assms(3) show ?thesis
      by (simp add: try_recv_def Let_def eff_recv_def wakes_recv_def commit_same [OF assms(1) get])
  next
    case (Some x)
    let ?ch = "ch1\<lparr>ch_senders := put2 (other (chan_side h)) None (ch_senders ch)\<rparr>"
    have same: "same_frame ch ch1" by (metis t frame_simps(3) fst_conv)
    have keep: "ch_senders ch1 = ch_senders ch"
      using arg_cong [OF t, of fst] by (auto simp: take_message_def split: list.splits if_splits)
    have f: "same_frame ch ?ch" by (rule frame_trans [OF same]) simp
    then have rd: "ch_ready ?ch = ch_ready ch" by (simp add: same_frame_def)
    note c = commit_frame [OF assms(1,2) get f]
    have plain: "(put_chan (chan_handle_id h) ?ch s)\<lparr>cs_ready := cs_ready s\<rparr> = commit (chan_handle_id h) ?ch s"
      using c(5) same_frameD(2) [OF f] by (intro put_count_commit [OF get]) simp_all
    have full: "(put_chan (chan_handle_id h) (drop_ready side ?ch) s)
        \<lparr>cs_ready := cs_ready s - of_nat (length (at2 side (ch_ready ch)))\<rparr>
        = commit (chan_handle_id h) (drop_ready side ?ch) s" for side
      using c(5) ready_count_word [of "cs_ready s" side ?ch] rd same_frameD(2) [OF f]
      by (intro put_count_commit [OF get]) simp_all
    show ?thesis
      using t Some assms(3) keep plain full rd
      by (simp add: try_recv_def Let_def eff_recv_def wakes_recv_def chan_peer_side_def
          room_waiters_eq [OF assms(1,2) get rd] take_ready_eq)
  qed
qed

lemma gone_enlist [simp]: "gone (enlist t our ch) = gone ch"
  by (simp add: gone_def enlist_def)

lemma register_eq:
  assumes "tidy s" and "chan_get h s = Some ch"
  shows "chan_register_waiter h t s = commit (chan_handle_id h) (enlist t (chan_side h) ch) s"
    and "chan_deregister_waiter h t s
      = commit (chan_handle_id h) (delist t (chan_side h) ch) s"
proof -
  have get: "bt_get (cs_table s) (chan_handle_id h) = Some ch" using assms(2) by (simp add: chan_get_def)
  then have g: "\<not> gone ch" using assms(1) by (simp add: tidy_def)
  let ?w = "at2 (chan_side h) (ch_ready ch)"
  have more: "ready_count (enlist t (chan_side h) ch) = ready_count ch + (ws_count (ws_insert t ?w) - ws_count ?w)"
    by (simp add: enlist_def ready_count_def put2_def at2_def ws_insert_def ws_count_def)
  have "(put_chan (chan_handle_id h) (enlist t (chan_side h) ch) s)
      \<lparr>cs_ready := cs_ready s + of_nat (ws_count (ws_insert t ?w) - ws_count ?w)\<rparr>
      = commit (chan_handle_id h) (enlist t (chan_side h) ch) s"
    by (rule put_count_commit [OF get]) (simp_all add: g more)
  then show "chan_register_waiter h t s = commit (chan_handle_id h) (enlist t (chan_side h) ch) s"
    using assms(2) by (simp add: chan_register_waiter_def Let_def enlist_def)
  let ?ch = "delist t (chan_side h) ch"
  have le: "ws_count (ws_remove t w) \<le> ws_count w" for w by (simp add: ws_count_def ws_remove_def)
  have less: "ready_count ch = ready_count ?ch + (ws_count ?w - ws_count (ws_remove t ?w))"
    using le by (simp add: delist_def ready_count_def put2_def at2_def)
  have "(put_chan (chan_handle_id h) ?ch s)
      \<lparr>cs_ready := cs_ready s - of_nat (ws_count ?w - ws_count (ws_remove t ?w))\<rparr> = commit (chan_handle_id h) ?ch s"
    using g by (intro put_count_commit [OF get]) (simp_all only: less of_nat_add, simp_all add: gone_def delist_def)
  then show "chan_deregister_waiter h t s = commit (chan_handle_id h) ?ch s"
    using assms(2) by (simp add: chan_deregister_waiter_def Let_def delist_def)
qed

lemma close_eq:
  assumes "tidy s" and "count_exact s" and "chan_get h s = Some ch"
  shows "chan_close h s = (commit (chan_handle_id h) (eff_close (chan_side h) ch) s,
    chan_wakes OpClose (chan_side h) ch)"
proof -
  have get: "bt_get (cs_table s) (chan_handle_id h) = Some ch" using assms(3) by (simp add: chan_get_def)
  let ?our = "chan_side h" and ?i = "chan_handle_id h"
  let ?refs = "sat_dec32 (at2 ?our (ch_refs ch))"
  let ?c = "ch\<lparr>ch_refs := put2 ?our ?refs (ch_refs ch)\<rparr>"
  obtain ch' w where shut: "shut_end ?our ?c = (ch', w)" by fastforce
  let ?d = "drop_ready (other ?our) ch'"
  have ready: "ch_ready ch' = ch_ready ch"
    using arg_cong [OF shut, of fst] by (auto simp: shut_end_def clear_slot_def Let_def split: if_splits)
  have woken: "w = opt_list (at2 (other ?our) (ch_waiters ch)) @ opt_list (at2 (other ?our) (ch_senders ch))"
    using arg_cong [OF shut, of snd] by (simp add: shut_end_def Let_def)
  consider (closed) "at2 ?our (ch_closed ch)" | (held) "\<not> at2 ?our (ch_closed ch)" "0 < ?refs"
    | (last) "\<not> at2 ?our (ch_closed ch)" "?refs = 0" by (metis word_gt_0)
  then show ?thesis
  proof cases
    case closed
    with assms(3) show ?thesis by (simp add: chan_close_def Let_def eff_close_def commit_same [OF assms(1) get])
  next
    case held
    with assms(3) show ?thesis
      using commit_frame(1) [OF assms(1,2) get, of ?c]
      by (simp add: chan_close_def Let_def eff_close_def)
  next
    case last
    have count: "cs_ready s - of_nat (length (at2 (other ?our) (ch_ready ch')))
        = cs_ready s + of_nat (ready_count ?d) - of_nat (ready_count ch)"
      using ready_count_word [of "cs_ready s" "other ?our" ch'] ready by (simp add: ready_count_def)
    have both: "at2 0 (ch_closed ?d) \<and> at2 1 (ch_closed ?d) \<longleftrightarrow> gone ?d"
      by (simp add: gone_def at2_def)
    have "chan_close h s =
      (if gone ?d then s\<lparr>cs_table := bt_remove ?i (cs_table s),
          cs_ready := cs_ready s - of_nat (length (at2 (other ?our) (ch_ready ch'))) - of_nat (ready_count ?d)\<rparr>
       else (put_chan ?i ?d s)\<lparr>cs_ready := cs_ready s - of_nat (length (at2 (other ?our) (ch_ready ch')))\<rparr>,
       w @ at2 (other ?our) (ch_ready ch'))"
      using last assms(3) shut by (simp add: chan_close_def Let_def take_ready_eq both [simplified])
    moreover have "s\<lparr>cs_table := bt_remove ?i (cs_table s),
          cs_ready := cs_ready s - of_nat (length (at2 (other ?our) (ch_ready ch'))) - of_nat (ready_count ?d)\<rparr>
        = commit ?i ?d s" if "gone ?d"
      using that get by (simp add: commit_def count)
    moreover have "(put_chan ?i ?d s)\<lparr>cs_ready := cs_ready s - of_nat (length (at2 (other ?our) (ch_ready ch')))\<rparr>
        = commit ?i ?d s" if "\<not> gone ?d"
      using put_count_commit [OF get that count] .
    ultimately show ?thesis
      using last shut ready woken by (simp add: eff_close_def Let_def)
  qed
qed

text \<open>A step on a channel that exists, whichever the call, is its effect committed.\<close>

lemma send_or_return_eq:
  assumes "tidy s" and "count_exact s" and "chan_get h s = Some ch"
  shows "send_or_return h m s =
    (if ends_closed (chan_side h) ch then (s, [], Inl (ChannelClosed, None))
     else if has_room (chan_side h) ch
     then ((commit (chan_handle_id h) (eff_deliver (chan_side h) (Some m) ch) s)\<lparr>cs_waking := cs_waking s @ [h]\<rparr>,
           wakes_deliver (chan_side h) ch, Inr ())
     else (s, [], Inl (ChannelFull, Some m)))"
  using assms(3) by (simp add: send_or_return_def deliver_eq [OF assms])

text \<open>A section on a channel that exists is its effect committed, and the wake-up it leaves.\<close>

lemma op_step_eq:
  assumes "tidy s" and "count_exact s" and "chan_get h s = Some ch"
  shows "op_step op h s
    = ((commit (chan_handle_id h) (chan_effect op (chan_side h) ch) s)
         \<lparr>cs_waking := waking_after op h (Some ch) (cs_waking s)\<rparr>,
       chan_wakes op (chan_side h) ch)"
proof -
  let ?our = "chan_side h" and ?i = "chan_handle_id h"
  have get: "bt_get (cs_table s) ?i = Some ch" using assms(3) by (simp add: chan_get_def)
  note same = commit_same [OF assms(1) get]
  note keep = commit_frame(1) [OF assms(1,2) get]
  note recv = try_recv_eq [OF assms] and send = send_or_return_eq [OF assms]
  note register = register_eq [OF assms(1,3)]
  have idle_recv: "eff_recv ?our ch = ch" "wakes_recv ?our ch = []" if "snd (take_message ?our ch) = None"
    using that by (auto simp: eff_recv_def wakes_recv_def split: prod.splits)
  have await: "note_receiver t h s = commit ?i (await_msg t ?our ch) s" for t
    using assms(3) keep [of "await_msg t ?our ch"] by (simp add: note_receiver_def await_msg_def)
  have still: "(commit i c s)\<lparr>cs_waking := cs_waking s\<rparr> = commit i c s" for i c
    by (metis waking_apart(6) channels.surjective channels.update_convs(4))
  have stay: "s\<lparr>cs_waking := cs_waking s\<rparr> = s" by simp
  show ?thesis
  proof (cases op)
    case (OpSend m)
    then show ?thesis by (simp add: state_woken_def chan_send_def send same waking_after_def)
  next
    case (OpSendTurn t p)
    obtain ch' p' where k: "park_sender t ?our p ch = (ch', p')" by fastforce
    show ?thesis
      using OpSendTurn k park_eq [OF assms k] assms(3)
      by (simp add: state_woken_def send_turn_def deliver_eq [OF assms] same waking_after_def)
  next
    case (OpSendStart m now ns)
    then show ?thesis
      using assms(3) by (simp add: state_woken_def send_timed_start_def deliver_eq [OF assms] same waking_after_def)
  next
    case (OpSendTimed t f now dl p)
    obtain ch' p' where k: "park_sender t ?our p ch = (ch', p')" by fastforce
    then have "same_frame ch ch'" by (metis frame_simps(2) fst_conv)
    then have "same_frame ch (clear_slot ?our ch')" by (rule frame_trans) simp
    then show ?thesis
      using OpSendTimed k park_eq [OF assms k] assms(3) keep
      by (simp add: state_woken_def send_timed_turn_def Let_def deliver_eq [OF assms] same waking_after_def still)
  next
    case (OpSendInt t sig m at)
    then show ?thesis
      by (cases at) (simp_all add: state_woken_def send same register waking_after_def still)
  next
    case OpTryRecv
    then show ?thesis by (simp add: state_woken_def recv waking_after_def still)
  next
    case (OpRecvTurn t)
    then show ?thesis
      using idle_recv await
      by (simp add: state_woken_def recv_turn_def recv idle_def same chan_peer_side_def waking_after_def still
          split: option.splits)
  next
    case (OpRecvStart now ns)
    then show ?thesis
      by (simp add: state_woken_def recv_timed_start_def recv waking_after_def still split: option.splits)
  next
    case (OpRecvTimed t f now dl)
    then show ?thesis
      using idle_recv await
      by (simp add: state_woken_def recv_timed_turn_def recv idle_def same chan_peer_side_def waking_after_def still
          split: option.splits)
  next
    case (OpRecvInt t sig at)
    then show ?thesis
      by (cases at) (simp_all add: state_woken_def recv same register waking_after_def still split: option.splits)
  next
    case OpWake
    then show ?thesis
      using wake_ready_eq [of "s\<lparr>cs_waking := remove1 h (cs_waking s)\<rparr>" h ch] assms
      by (simp add: wake_turn_def chan_peer_side_def waking_after_def)
  next
    case (OpRegister t)
    then show ?thesis by (simp add: register waking_after_def still)
  next
    case (OpDeregister t)
    then show ?thesis by (simp add: register waking_after_def still)
  next
    case OpDup
    then show ?thesis using assms(3) keep by (simp add: chan_dup_def Let_def same waking_after_def still)
  next
    case OpClose
    then show ?thesis by (simp add: close_eq [OF assms] waking_after_def still)
  next
    case (OpSetCred c)
    then show ?thesis using assms(3) keep by (simp add: set_side_cred_def same waking_after_def still)
  next
    case (OpSetKey k)
    then show ?thesis using assms(3) keep by (simp add: set_service_key_def same waking_after_def still)
  qed
qed

end
