(* ===== verification/ChannelState.thy ===== *)
theory ChannelState imports ChannelRuns begin

text \<open>
  The invariant of the channel table: what holds of every channel between two calls, and that every
  operation keeps it (\<open>chans_ok_step\<close>).
\<close>

section \<open>A channel in order\<close>

text \<open>
  An end is closed when its last holder is gone; a queue holds at most \<^verbatim>\<open>MAX_QUEUE_DEPTH\<close>; only
  synchronous channels use slots; who is noted as a receiver has nothing to receive from an open
  peer, and who is noted as a sender on a buffered channel faces a full queue and an open peer.
\<close>

definition side_ok :: "nat \<Rightarrow> channel \<Rightarrow> bool" where
  "side_ok i ch \<longleftrightarrow>
     (at2 i (ch_closed ch) \<longleftrightarrow> at2 i (ch_refs ch) = 0)
     \<and> length (at2 i (ch_queues ch)) \<le> MAX_QUEUE_DEPTH
     \<and> (if ch_sync ch then at2 i (ch_queues ch) = [] else at2 i (ch_slots ch) = None)
     \<and> (at2 i (ch_waiters ch) \<noteq> None \<longrightarrow> idle i ch)
     \<and> (\<not> ch_sync ch \<and> at2 i (ch_senders ch) \<noteq> None \<longrightarrow> \<not> has_room i ch \<and> \<not> at2 (other i) (ch_closed ch))"

definition chan_ok :: "channel \<Rightarrow> bool" where
  "chan_ok ch \<longleftrightarrow> side_ok 0 ch \<and> side_ok 1 ch"

lemma idle_eq: "idle i ch \<longleftrightarrow>
    (if ch_sync ch then at2 (other i) (ch_slots ch) = None else at2 i (ch_queues ch) = [])
    \<and> \<not> at2 (other i) (ch_closed ch)"
  by (auto simp: idle_def take_message_def split: list.splits)

lemmas side_simps = side_ok_def idle_eq has_room_def

text \<open>Which side comes first does not matter.\<close>

lemma side_ok_cong: "(i = 0) = (j = 0) \<Longrightarrow> side_ok i ch = side_ok j ch"
  by (simp add: side_simps at2_def)

lemma chan_ok_sides: "chan_ok ch \<longleftrightarrow> side_ok our ch \<and> side_ok (other our) ch"
proof (cases "our = 0")
  case True
  with side_ok_cong [of "other our" 1] show ?thesis by (simp add: chan_ok_def)
next
  case False
  with side_ok_cong [of our 1] side_ok_cong [of "other our" 0] show ?thesis by (auto simp: chan_ok_def)
qed

lemma chan_ok_side: "chan_ok ch \<Longrightarrow> side_ok i ch"
  using chan_ok_sides by blast

lemma chan_ok_new [simp]: "chan_ok chan_new" "chan_ok chan_new_sync"
  by (simp_all add: chan_ok_def side_simps chan_new_def chan_new_sync_def)

lemma chan_ok_info [simp]:
  "chan_ok (ch\<lparr>ch_creds := c\<rparr>) = chan_ok ch" "chan_ok (ch\<lparr>ch_service_key := k\<rparr>) = chan_ok ch"
  "chan_ok (ch\<lparr>ch_ready := r\<rparr>) = chan_ok ch" "chan_ok (drop_ready i ch) = chan_ok ch"
  "chan_ok (enlist t i ch) = chan_ok ch" "chan_ok (delist t i ch) = chan_ok ch"
  by (simp_all add: chan_ok_def side_simps drop_ready_def enlist_def delist_def)

lemma clear_slot_ok: "chan_ok ch \<Longrightarrow> chan_ok (clear_slot our ch)"
  by (auto simp: chan_ok_sides [of _ our] side_simps clear_slot_def)

lemma deposit_fields:
  "ch_waiters (fst (deposit our p ch)) = put2 (other our) None (ch_waiters ch)"
  "ch_sync (fst (deposit our p ch)) = ch_sync ch" "ch_closed (fst (deposit our p ch)) = ch_closed ch"
  "ch_refs (fst (deposit our p ch)) = ch_refs ch" "ch_senders (fst (deposit our p ch)) = ch_senders ch"
  "ch_creds (fst (deposit our p ch)) = ch_creds ch" "ch_service_key (fst (deposit our p ch)) = ch_service_key ch"
  "ch_queues (fst (deposit our p ch)) = (if ch_sync ch then ch_queues ch
     else put2 (other our) (at2 (other our) (ch_queues ch) @ opt_list p) (ch_queues ch))"
  "ch_slots (fst (deposit our p ch)) = (if ch_sync ch \<and> p \<noteq> None then put2 our p (ch_slots ch) else ch_slots ch)"
  by (cases p; simp add: deposit_def Let_def opt_list_def)+

lemma deposit_ok:
  assumes ok: "chan_ok ch" and room: "has_room our ch" and op: "\<not> ends_closed our ch"
  shows "chan_ok (fst (deposit our p ch))"
proof -
  have s: "side_ok our ch" "side_ok (other our) ch" using ok by (simp_all add: chan_ok_side)
  have "side_ok our (fst (deposit our p ch))"
    using s(1) room by (auto simp: side_simps deposit_fields split: if_splits)
  moreover have "length (opt_list p) \<le> 1" by (simp add: opt_list_def split: option.splits)
  then have "side_ok (other our) (fst (deposit our p ch))"
    using s(2) room by (auto simp: side_simps deposit_fields split: if_splits)
  ultimately show ?thesis by (simp add: chan_ok_sides [of _ our])
qed

lemma park_ok:
  assumes "chan_ok ch" and "\<not> has_room our ch" and "\<not> ends_closed our ch"
  shows "chan_ok (fst (park_sender t our p ch))"
  using assms
  by (cases "ch_sync ch")
    (auto simp: chan_ok_sides [of _ our] side_simps park_sender_def Let_def ends_closed_def)

lemma eff_recv_cases:
  obtains (none) "eff_recv our ch = ch" "snd (take_message our ch) = None"
  | (slot) m where "ch_sync ch" "at2 (other our) (ch_slots ch) = Some m" "snd (take_message our ch) = Some m"
      "eff_recv our ch = ch\<lparr>ch_slots := put2 (other our) None (ch_slots ch),
         ch_senders := put2 (other our) None (ch_senders ch)\<rparr>"
  | (queue) m q r where "\<not> ch_sync ch" "at2 our (ch_queues ch) = m # q" "snd (take_message our ch) = Some m"
      "eff_recv our ch = ch\<lparr>ch_queues := put2 our q (ch_queues ch),
         ch_senders := put2 (other our) None (ch_senders ch), ch_ready := r\<rparr>"
proof (cases "ch_sync ch")
  case True
  show ?thesis
  proof (cases "at2 (other our) (ch_slots ch)")
    case None
    with True show ?thesis by (intro none) (simp_all add: eff_recv_def take_message_def)
  next
    case (Some m)
    with True show ?thesis
      by (intro slot [of m]) (simp_all add: eff_recv_def take_message_def was_full_def Let_def)
  qed
next
  case False
  show ?thesis
  proof (cases "at2 our (ch_queues ch)")
    case Nil
    with False show ?thesis by (intro none) (simp_all add: eff_recv_def take_message_def)
  next
    case (Cons m q)
    with False show ?thesis
      by (intro queue [of m q "if was_full our ch then put2 (other our) [] (ch_ready ch) else ch_ready ch"])
        (simp_all add: eff_recv_def take_message_def Let_def drop_ready_def)
  qed
qed

lemma recv_ok:
  assumes "chan_ok ch"
  shows "chan_ok (eff_recv our ch)"
proof (cases rule: eff_recv_cases [of our ch])
  case (slot m)
  then show ?thesis
    using assms by (auto simp: chan_ok_sides [of _ our] side_simps)
next
  case (queue m q r)
  then show ?thesis
    using assms by (auto simp: chan_ok_sides [of _ our] side_simps)
qed (use assms in simp)

lemma await_ok: "chan_ok ch \<Longrightarrow> idle our ch \<Longrightarrow> chan_ok (await_msg t our ch)"
  by (auto simp: chan_ok_sides [of _ our] side_simps await_msg_def)

lemma sat_inc32_zero: "sat_inc32 n = 0 \<Longrightarrow> n = 0"
proof (rule ccontr)
  assume z: "sat_inc32 n = 0" and n: "n \<noteq> 0"
  then have "unat n \<noteq> u32_max" and "n + 1 = 0" by (auto simp: sat_inc32_def split: if_splits)
  then have "n = - 1" by (simp add: eq_neg_iff_add_eq_0)
  then have "unat n = u32_max" by (simp add: u32_max_def unsigned_minus_1_eq_mask mask_eq_exp_minus_1)
  with \<open>unat n \<noteq> u32_max\<close> show False ..
qed

lemma close_fields:
  assumes "\<not> at2 our (ch_closed ch)"
  shows "eff_close our ch =
    (let ch' = ch\<lparr>ch_refs := put2 our (sat_dec32 (at2 our (ch_refs ch))) (ch_refs ch)\<rparr>
     in if sat_dec32 (at2 our (ch_refs ch)) = 0
        then drop_ready (other our) (clear_slot our
          (ch'\<lparr>ch_closed := put2 our True (ch_closed ch), ch_waiters := put2 (other our) None (ch_waiters ch),
               ch_senders := put2 (other our) None (ch_senders ch)\<rparr>))
        else ch')"
  using assms by (simp add: eff_close_def Let_def shut_end_def word_gt_0)

lemma chan_close_ok:
  assumes "chan_ok ch"
  shows "chan_ok (eff_close our ch)"
proof (cases "at2 our (ch_closed ch)")
  case True
  with assms show ?thesis by (simp add: eff_close_def)
next
  case False
  have "chan_ok (ch\<lparr>ch_refs := put2 our r (ch_refs ch)\<rparr>)" if "r \<noteq> 0" for r
    using assms False that by (auto simp: chan_ok_sides [of _ our] side_simps)
  moreover have "chan_ok (ch\<lparr>ch_refs := put2 our 0 (ch_refs ch), ch_closed := put2 our True (ch_closed ch),
      ch_waiters := put2 (other our) None (ch_waiters ch), ch_senders := put2 (other our) None (ch_senders ch)\<rparr>)"
    using assms by (auto simp: chan_ok_sides [of _ our] side_simps)
  ultimately show ?thesis
    by (simp add: close_fields [OF False] Let_def clear_slot_ok)
qed

lemma chan_effect_ok:
  assumes "chan_ok ch"
  shows "chan_ok (chan_effect op our ch)"
proof -
  have deliver: "chan_ok (eff_deliver our p ch)" if "has_room our ch" "\<not> ends_closed our ch" for p
    using deposit_ok [OF assms that] by (simp add: eff_deliver_def)
  have park: "chan_ok (fst (park_sender t our p ch))" "chan_ok (eff_park t our p ch)"
    if "\<not> has_room our ch" "\<not> ends_closed our ch" for t p
    using park_ok [OF assms that] by (simp_all add: eff_park_def)
  have dup: "chan_ok (ch\<lparr>ch_refs := put2 our (sat_inc32 (at2 our (ch_refs ch))) (ch_refs ch)\<rparr>)"
    if "\<not> at2 our (ch_closed ch)"
    using assms that by (auto simp: chan_ok_sides [of _ our] side_simps dest: sat_inc32_zero)
  show ?thesis
    using assms
    by (cases op) (simp_all add: deliver park dup recv_ok await_ok chan_close_ok clear_slot_ok split: int_place.split)
qed

section \<open>The table\<close>

definition chans_ok :: "channels \<Rightarrow> bool" where
  "chans_ok s \<longleftrightarrow> tidy s \<and> count_exact s
     \<and> (\<forall>i ch. bt_get (cs_table s) i = Some ch \<longrightarrow> i < cs_next s \<and> chan_ok ch)"

text \<open>
  A new channel's id has not come round; the readiness waiters can be counted; and only a send that
  has left its critical section calls \<^verbatim>\<open>wake_ready\<close>.
\<close>

fun chan_event_ok :: "chan_event \<Rightarrow> channels \<Rightarrow> bool" where
  "chan_event_ok (ChCreate sync) s \<longleftrightarrow> unat (cs_next s) + 1 < 2 ^ 64"
| "chan_event_ok (ChOn h op) s \<longleftrightarrow> total_ready s + 1 < 2 ^ 64 \<and> (op = OpWake \<longrightarrow> h \<in> set (cs_waking s))"

lemma op_step_none:
  assumes "chan_get h s = None"
  shows "op_step op h s = (s\<lparr>cs_waking := waking_after op h None (cs_waking s)\<rparr>, [])"
proof -
  note defs = state_woken_def chan_send_def send_or_return_def send_turn_def send_timed_start_def
    send_timed_turn_def try_recv_def recv_turn_def recv_timed_start_def recv_timed_turn_def wake_turn_def wake_ready_def
    chan_register_waiter_def chan_deregister_waiter_def chan_dup_def chan_close_def
    set_side_cred_def set_service_key_def waking_after_def
  show ?thesis
  proof (cases op)
    case (OpSendInt t sig m at)
    with assms show ?thesis by (cases at) (simp_all add: defs)
  next
    case (OpRecvInt t sig at)
    with assms show ?thesis by (cases at) (simp_all add: defs)
  qed (use assms in \<open>simp_all add: defs\<close>)
qed

lemma drop_ready_count: "ready_count (drop_ready i ch) \<le> ready_count ch"
  using ready_count_drop [of i ch] by linarith

lemma close_ready_count: "ready_count (eff_close our ch) \<le> ready_count ch"
proof -
  let ?c = "ch\<lparr>ch_refs := put2 our (sat_dec32 (at2 our (ch_refs ch))) (ch_refs ch)\<rparr>"
  have "ch_ready (fst (shut_end our ?c)) = ch_ready ch"
    by (simp add: shut_end_def clear_slot_def Let_def)
  then have "ready_count (fst (shut_end our ?c)) = ready_count ch" by (simp add: ready_count_def)
  then have "ready_count (drop_ready (other our) (fst (shut_end our ?c))) \<le> ready_count ch"
    using drop_ready_count [of "other our" "fst (shut_end our ?c)"] by simp
  moreover have "ready_count ?c = ready_count ch" by (simp add: ready_count_def)
  ultimately show ?thesis by (simp add: eff_close_def Let_def)
qed

lemma effect_ready_count:
  "ready_count (chan_effect op our ch) \<le> ready_count ch + 1"
proof -
  have enlist: "ready_count (enlist t our ch) \<le> ready_count ch + 1" for t
    by (simp add: ready_count_def enlist_def put2_def at2_def ws_count_def ws_insert_def)
  note drop = drop_ready_count
  note counts = same_frameD(2)
  have "ready_count (eff_deliver our p ch) = ready_count ch" "ready_count (eff_park t our p ch) = ready_count ch" for t p
    unfolding eff_deliver_def eff_park_def by (rule counts, simp)+
  moreover have "ready_count (eff_recv our ch) \<le> ready_count ch"
  proof -
    obtain ch' m where t: "take_message our ch = (ch', m)" by fastforce
    then have "same_frame ch ch'" by (metis frame_simps(3) fst_conv)
    then have "ready_count (ch'\<lparr>ch_senders := w\<rparr>) = ready_count ch" for w
      by (simp add: ready_count_def same_frame_def)
    with drop [of "other our" "ch'\<lparr>ch_senders := put2 (other our) None (ch_senders ch)\<rparr>"] t show ?thesis
      by (simp add: eff_recv_def Let_def split: option.split)
  qed
  moreover note close_ready_count [of our ch]
  moreover have "ready_count (clear_slot our c) = ready_count c" for c by (rule counts) simp
  moreover have "ready_count (fst (park_sender t our p ch)) = ready_count ch" for t p by (rule counts) simp
  moreover have "ready_count (delist t our ch) \<le> ready_count ch" for t
    by (simp add: delist_def ready_count_def put2_def at2_def ws_count_def ws_remove_def)
  moreover have "ready_count (drop_ready (other our) ch) \<le> ready_count ch" by (rule drop)
  moreover have "ready_count (await_msg t our ch) = ready_count ch" for t by (rule counts) simp
  ultimately show ?thesis
    using enlist
    by (cases op) (auto simp: ready_count_def intro: le_SucI split: int_place.split)
qed

lemma chans_okD:
  assumes "chans_ok s"
  shows "tidy s" "count_exact s" "bt_ok (cs_table s)"
    and "bt_get (cs_table s) i = Some ch \<Longrightarrow> i < cs_next s \<and> chan_ok ch \<and> \<not> gone ch"
  using assms by (auto simp: chans_ok_def tidy_def)

definition after :: "channel \<Rightarrow> channel option" where
  "after ch = (if gone ch then None else Some ch)"

text \<open>What an event makes of a channel that exists.\<close>

fun chan_event_effect :: "chan_event \<Rightarrow> chan_id \<Rightarrow> channel \<Rightarrow> channel option" where
  "chan_event_effect (ChCreate sync) i ch = Some ch"
| "chan_event_effect (ChOn h op) i ch =
     (if chan_handle_id h = i then after (chan_effect op (chan_side h) ch) else Some ch)"

fun chan_event_wakes :: "chan_event \<Rightarrow> chan_id \<Rightarrow> channel \<Rightarrow> task_id list" where
  "chan_event_wakes (ChCreate sync) i ch = []"
| "chan_event_wakes (ChOn h op) i ch = (if chan_handle_id h = i then chan_wakes op (chan_side h) ch else [])"

lemma chan_step_some:
  assumes ok: "chans_ok s" and get: "bt_get (cs_table s) i = Some ch"
  shows "bt_get (cs_table (chan_step e s)) i = chan_event_effect e i ch"
    and "set (chan_event_wakes e i ch) \<subseteq> set (chan_woken e s)"
proof -
  have "bt_get (cs_table (chan_step e s)) i = chan_event_effect e i ch
    \<and> set (chan_event_wakes e i ch) \<subseteq> set (chan_woken e s)"
  proof (cases e)
    case (ChCreate sync)
    have "i \<noteq> cs_next s" using chans_okD(4) [OF ok get] by auto
    with ChCreate get chans_okD(3) [OF ok] show ?thesis
      by (simp add: chan_create_def chan_create_sync_def alloc_channel_id_def)
  next
    case (ChOn h op)
    note eq = op_step_eq [OF chans_okD(1,2) [OF ok]]
    show ?thesis
    proof (cases "chan_get h s")
      case None
      with ChOn get show ?thesis by (auto simp: op_step_none chan_get_def)
    next
      case (Some c)
      have c: "bt_get (cs_table s) (chan_handle_id h) = Some c" using Some by (simp add: chan_get_def)
      show ?thesis
      proof (cases "chan_handle_id h = i")
        case True
        with c get have "c = ch" by simp
        with ChOn True get eq [OF Some] show ?thesis by (simp add: commit_get after_def)
      next
        case False
        with ChOn get eq [OF Some] show ?thesis by (simp add: commit_get)
      qed
    qed
  qed
  then show "bt_get (cs_table (chan_step e s)) i = chan_event_effect e i ch"
    and "set (chan_event_wakes e i ch) \<subseteq> set (chan_woken e s)" by blast+
qed

lemma chan_step_none:
  assumes ok: "chans_ok s" and none: "bt_get (cs_table s) i = None"
    and some: "bt_get (cs_table (chan_step e s)) i = Some ch"
  shows "i = cs_next s \<and> (\<exists>sync. e = ChCreate sync \<and> ch = (if sync then chan_new_sync else chan_new))"
proof (cases e)
  case (ChCreate sync)
  with none some chans_okD(3) [OF ok] show ?thesis
    by (cases sync) (auto simp: chan_create_def chan_create_sync_def alloc_channel_id_def split: if_splits)
next
  case (ChOn h op)
  show ?thesis
  proof (cases "chan_get h s")
    case None
    with ChOn none some show ?thesis by (simp add: op_step_none)
  next
    case (Some c)
    with ChOn none some op_step_eq [OF chans_okD(1,2) [OF ok] Some] show ?thesis
      by (auto simp: commit_get split: if_splits)
  qed
qed

lemma chan_step_next:
  assumes "chans_ok s" and "chan_event_ok e s"
  shows "cs_next s \<le> cs_next (chan_step e s)"
    and "e = ChCreate sync \<Longrightarrow> cs_next s < cs_next (chan_step e s)"
proof -
  have new: "cs_next s < cs_next s + 1" if "unat (cs_next s) + 1 < 2 ^ 64"
  proof -
    have "unat (cs_next s + 1) = unat (cs_next s) + 1"
      using that by (subst unat_add_lem [THEN iffD1]) simp_all
    then show ?thesis by (simp add: word_less_nat_alt)
  qed
  show "e = ChCreate sync \<Longrightarrow> cs_next s < cs_next (chan_step e s)"
    using assms(2) new by (simp add: chan_create_def chan_create_sync_def alloc_channel_id_def)
  show "cs_next s \<le> cs_next (chan_step e s)"
  proof (cases e)
    case (ChCreate sync)
    with assms(2) new show ?thesis
      by (simp add: chan_create_def chan_create_sync_def alloc_channel_id_def)
  next
    case (ChOn h op)
    then show ?thesis
      using op_step_eq [OF chans_okD(1,2) [OF assms(1)]] op_step_none [of h s op]
      by (cases "chan_get h s") simp_all
  qed
qed

lemma chans_ok_step:
  assumes ok: "chans_ok s" and ev: "chan_event_ok e s"
  shows "chans_ok (chan_step e s)"
proof -
  have all: "i < cs_next (chan_step e s) \<and> chan_ok ch" if "bt_get (cs_table (chan_step e s)) i = Some ch" for i ch
  proof (cases "bt_get (cs_table s) i")
    case None
    note new = chan_step_none [OF ok None that]
    then obtain sync where "e = ChCreate sync" "ch = (if sync then chan_new_sync else chan_new)" by blast
    with new chan_step_next(2) [OF ok ev] show ?thesis by (simp split: if_splits)
  next
    case (Some c)
    note c = chans_okD(4) [OF ok Some]
    have "chan_event_effect e i c = Some ch" using chan_step_some(1) [OF ok Some] that by metis
    then have "chan_ok ch" using c by (cases e) (auto simp: after_def chan_effect_ok split: if_splits)
    moreover have "i < cs_next (chan_step e s)"
      using c chan_step_next(1) [OF ok ev] by (metis order_less_le_trans)
    ultimately show ?thesis by simp
  qed
  have "tidy (chan_step e s) \<and> count_exact (chan_step e s)"
  proof (cases e)
    case (ChCreate sync)
    have none: "bt_get (cs_table s) (cs_next s) = None"
      using chans_okD(4) [OF ok, of "cs_next s"] by (cases "bt_get (cs_table s) (cs_next s)") auto
    have "\<not> gone chan_new" "\<not> gone chan_new_sync" "ready_count chan_new = 0" "ready_count chan_new_sync = 0"
      by (simp_all add: gone_def chan_new_def chan_new_sync_def ready_count_def ws_count_def)
    with ChCreate chans_okD(1-3) [OF ok] show ?thesis
      by (auto simp: tidy_def count_exact_def total_ready_def chan_create_def chan_create_sync_def
          alloc_channel_id_def bt_values_insert bt_remove_absent [OF none] split: if_splits)
  next
    case (ChOn h op)
    show ?thesis
    proof (cases "chan_get h s")
      case None
      with ChOn chans_okD(1,2) [OF ok] show ?thesis by (simp add: op_step_none)
    next
      case (Some c)
      then have "bt_get (cs_table s) (chan_handle_id h) = Some c" by (simp add: chan_get_def)
      from commit_exact [OF chans_okD(1,2) [OF ok] this] effect_ready_count [of op "chan_side h" c] ev ChOn
      show ?thesis
        using op_step_eq [OF chans_okD(1,2) [OF ok] Some] commit_tidy [OF chans_okD(1) [OF ok]] by simp
    qed
  qed
  with all show ?thesis by (auto simp: chans_ok_def)
qed

interpretation chans: guarded_machine chan_step chan_event_ok chans_ok
  by unfold_locales (rule chans_ok_step)

end
