(* ===== verification/ChannelPromises.thy ===== *)
theory ChannelPromises imports ChannelState begin

text \<open>
  What channels promise (\<^verbatim>\<open>kernel/src/ipc/channel.rs\<close>): messages arrive once and in the order they
  were sent; who waits on an end is woken by whatever ends the wait; the identity the kernel
  recorded for an end, and the service a connection was made to, never change; and two things they
  do not promise, that a synchronous send has been received when it reports success and that a send
  that fails leaves the sender its capabilities (in \<^verbatim>\<open>ChannelCaps\<close>).
\<close>

section \<open>Ends\<close>

lemma chan_handle_eq: "chan_handle_id h = chan_handle_id r \<Longrightarrow> chan_side h = chan_side r \<Longrightarrow> h = r"
proof (rule bit_word_eqI)
  fix n
  assume i: "chan_handle_id h = chan_handle_id r" and s: "chan_side h = chan_side r"
  show "bit h n = bit r n"
  proof (cases n)
    case 0
    from s have "h AND 1 = r AND 1" by (simp add: chan_side_def word_unat_eq_iff)
    then have "bit (h AND 1) 0 = bit (r AND 1) 0" by simp
    with 0 show ?thesis by (simp add: bit_and_iff)
  next
    case (Suc m)
    from i have "bit (drop_bit 1 h) m = bit (drop_bit 1 r) m" by (simp add: chan_handle_id_def)
    with Suc show ?thesis by (simp add: bit_drop_bit_eq)
  qed
qed

lemma chan_id_lt: "chan_handle_id h < 2 ^ 63"
proof -
  have "unat h < 2 ^ LENGTH(64)" by (rule unsigned_less)
  then show ?thesis
    by (simp add: chan_handle_id_def word_less_nat_alt drop_bit_eq_div unat_div_distrib)
qed

lemma other_lt: "i < 2 \<Longrightarrow> other i < 2" "i < 2 \<Longrightarrow> other (other i) = i"
  by (auto simp: other_def)

lemma peer_end_decodes [simp]:
  "chan_handle_id (chan_peer_end h) = chan_handle_id h" "chan_side (chan_peer_end h) = other (chan_side h)"
  using handle_decodes [OF chan_id_lt other_lt(1) [OF chan_side_lt]]
  by (simp_all add: chan_peer_end_def chan_peer_side_def)

lemma peer_end_iff: "chan_handle_id h = chan_handle_id r \<Longrightarrow> h = chan_peer_end r \<longleftrightarrow> h \<noteq> r"
proof -
  assume i: "chan_handle_id h = chan_handle_id r"
  have "chan_side h = other (chan_side r) \<longleftrightarrow> chan_side h \<noteq> chan_side r"
    using chan_side_lt [of h] chan_side_lt [of r] unfolding other_def by arith
  moreover have "h = chan_peer_end r \<longleftrightarrow> chan_side h = other (chan_side r)"
    using i chan_handle_eq [of h "chan_peer_end r"] by auto
  moreover have "h = r \<longleftrightarrow> chan_side h = chan_side r" using i chan_handle_eq [of h r] by auto
  ultimately show ?thesis by blast
qed

section \<open>Messages arrive in order\<close>

lemma recv_sync [simp]: "ch_sync (eff_recv our ch) = ch_sync ch"
  by (rule eff_recv_cases [of our ch]) simp_all

lemma effect_sync [simp]: "ch_sync (chan_effect op our ch) = ch_sync ch"
proof -
  have "ch_sync (fst (park_sender t our p ch)) = ch_sync ch" "ch_sync (clear_slot our c) = ch_sync c" for t p c
    by (simp_all add: park_sender_def Let_def clear_slot_def)
  then show ?thesis
    by (cases op)
      (simp_all add: eff_deliver_def eff_park_def deposit_fields drop_ready_def enlist_def delist_def await_msg_def
        eff_close_def shut_end_def Let_def split: int_place.split)
qed

text \<open>On a buffered channel a call adds to the peer's queue what it took over, and takes from its own what it answers.\<close>

lemma queues_after:
  assumes "chans_ok s" and "chan_get h s = Some ch" and "\<not> ch_sync ch"
  shows "at2 (other (chan_side h)) (ch_queues (chan_effect op (chan_side h) ch))
      = at2 (other (chan_side h)) (ch_queues ch) @ op_sent op h s"
    and "at2 (chan_side h) (ch_queues ch)
      = op_received op h s @ at2 (chan_side h) (ch_queues (chan_effect op (chan_side h) ch))"
proof -
  let ?our = "chan_side h"
  note ok = chans_okD(1,2) [OF assms(1)]
  note deliver = deliver_eq [OF ok assms(2)] and recv = try_recv_eq [OF ok assms(2)]
    and send = send_or_return_eq [OF ok assms(2)]
  have park: "park_sender t ?our p ch = (ch\<lparr>ch_senders := put2 ?our (Some t) (ch_senders ch)\<rparr>, p)" for t p
    using assms(3) by (simp_all add: park_sender_def Let_def)
  have clear: "ch_queues (clear_slot ?our c) = ch_queues c" for c by (simp add: clear_slot_def)
  have delivered: "ch_queues (eff_deliver ?our p ch)
      = put2 (other ?our) (at2 (other ?our) (ch_queues ch) @ opt_list p) (ch_queues ch)" for p
    using assms(3) by (simp add: eff_deliver_def deposit_fields)
  have closed: "ch_queues (eff_close ?our ch) = ch_queues ch"
    by (simp add: eff_close_def Let_def shut_end_def clear drop_ready_def)
  have taken: "at2 ?our (ch_queues ch) = opt_list (snd (take_message ?our ch)) @ at2 ?our (ch_queues (eff_recv ?our ch))
      \<and> at2 (other ?our) (ch_queues (eff_recv ?our ch)) = at2 (other ?our) (ch_queues ch)"
    using assms(3) by (cases rule: eff_recv_cases [of ?our ch]) (simp_all add: opt_list_def)
  have quiet: "idle ?our ch \<Longrightarrow> opt_list (snd (take_message ?our ch)) = []" by (simp add: idle_def opt_list_def)
  note effs = delivered closed clear park eff_park_def drop_ready_def enlist_def delist_def await_msg_def
  show "at2 (other ?our) (ch_queues (chan_effect op ?our ch)) = at2 (other ?our) (ch_queues ch) @ op_sent op h s"
  proof (cases op)
    case (OpSend m)
    then show ?thesis by (simp add: chan_send_def send effs opt_list_def)
  next
    case (OpSendTurn t p)
    with assms(2) park_eq [OF ok assms(2) park] show ?thesis
      by (cases p) (simp_all add: send_turn_def deliver effs taken_over_def opt_list_def)
  next
    case (OpSendStart m now ns)
    with assms(2) show ?thesis by (simp add: send_timed_start_def deliver effs opt_list_def)
  next
    case (OpSendTimed t f now dl p)
    with assms(2,3) park_eq [OF ok assms(2) park] show ?thesis
      by (cases p) (simp_all add: send_timed_turn_def Let_def deliver effs taken_over_def opt_list_def)
  next
    case (OpSendInt t sig m at)
    then show ?thesis by (cases at) (simp_all add: send effs opt_list_def)
  next
    case (OpRecvInt t sig at)
    then show ?thesis using taken by (cases at) (simp_all add: effs)
  qed (use taken in \<open>simp_all add: effs\<close>)
  show "at2 ?our (ch_queues ch) = op_received op h s @ at2 ?our (ch_queues (chan_effect op ?our ch))"
  proof (cases op)
    case OpTryRecv
    with taken show ?thesis by (simp add: recv opt_list_def split: option.split)
  next
    case (OpRecvTurn t)
    with taken quiet show ?thesis
      by (simp add: recv_turn_def recv effs answered_def idle_def opt_list_def chan_peer_side_def split: option.split)
  next
    case (OpRecvStart now ns)
    with taken show ?thesis
      by (simp add: recv_timed_start_def recv answered_def opt_list_def split: option.split)
  next
    case (OpRecvTimed t f now dl)
    with taken quiet show ?thesis
      by (simp add: recv_timed_turn_def recv effs answered_def idle_def opt_list_def chan_peer_side_def split: option.split)
  next
    case (OpRecvInt t sig at)
    with taken show ?thesis by (cases at) (simp_all add: recv effs opt_list_def split: option.split)
  next
    case (OpSendInt t sig m at)
    then show ?thesis by (cases at) (simp_all add: effs)
  qed (simp_all add: effs)
qed

text \<open>What is queued for an end of a buffered channel.\<close>

definition queued_for :: "chan_handle \<Rightarrow> channels \<Rightarrow> message list option" where
  "queued_for r s =
     (case chan_get r s of
        None \<Rightarrow> None
      | Some ch \<Rightarrow> if ch_sync ch then None else Some (at2 (chan_side r) (ch_queues ch)))"

text \<open>The messages the peer's calls took over, and those the calls on the end answered.\<close>

fun sent_to :: "chan_handle \<Rightarrow> chan_event \<Rightarrow> channels \<Rightarrow> message list" where
  "sent_to r (ChOn h op) s = (if h = chan_peer_end r then op_sent op h s else [])"
| "sent_to r (ChCreate sync) s = []"

fun received_at :: "chan_handle \<Rightarrow> chan_event \<Rightarrow> channels \<Rightarrow> message list" where
  "received_at r (ChOn h op) s = (if h = r then op_received op h s else [])"
| "received_at r (ChCreate sync) s = []"

definition queue_inv :: "chan_handle \<Rightarrow> channels \<Rightarrow> bool" where
  "queue_inv r s \<longleftrightarrow> chans_ok s \<and> chan_handle_id r < cs_next s"

lemma queue_inv_step: "queue_inv r s \<Longrightarrow> chan_event_ok e s \<Longrightarrow> queue_inv r (chan_step e s)"
  using chans_ok_step [of s e] chan_step_next(1) [of s e] by (auto simp: queue_inv_def intro: order_less_le_trans)

lemma chan_get_step:
  assumes "chans_ok s" and "chan_get h s = Some ch"
  shows "chan_get h (chan_step e s) = chan_event_effect e (chan_handle_id h) ch"
  using chan_step_some(1) [OF assms(1)] assms(2) by (simp add: chan_get_def)

lemma event_effect_sync: "chan_event_effect e i ch = Some ch' \<Longrightarrow> ch_sync ch' = ch_sync ch"
  by (cases e) (auto simp: after_def split: if_splits)

lemma queue_gone:
  assumes "queue_inv r s" and "queued_for r s = None"
  shows "queued_for r (chan_step e s) = None"
proof (cases "chan_get r s")
  case None
  have "chan_get r (chan_step e s) = None"
  proof (rule ccontr)
    assume "chan_get r (chan_step e s) \<noteq> None"
    with None chan_step_none [of s "chan_handle_id r" e] assms(1) show False
      by (auto simp: chan_get_def queue_inv_def)
  qed
  then show ?thesis by (simp add: queued_for_def)
next
  case (Some ch)
  with assms chan_get_step [of s r ch e] event_effect_sync [of e "chan_handle_id r" ch] show ?thesis
    by (auto simp: queued_for_def queue_inv_def split: if_splits option.splits)
qed

lemma queue_balance:
  assumes inv: "queue_inv r s" and before: "queued_for r s = Some c" and later: "queued_for r (chan_step e s) = Some c'"
  shows "c @ sent_to r e s = received_at r e s @ c'"
proof -
  have ok: "chans_ok s" using inv by (simp add: queue_inv_def)
  obtain ch where ch: "chan_get r s = Some ch" "\<not> ch_sync ch" "c = at2 (chan_side r) (ch_queues ch)"
    using before by (auto simp: queued_for_def split: option.splits if_splits)
  obtain ch' where ch': "chan_event_effect e (chan_handle_id r) ch = Some ch'" "c' = at2 (chan_side r) (ch_queues ch')"
    using later chan_get_step [OF ok ch(1), of e] by (auto simp: queued_for_def split: option.splits if_splits)
  show ?thesis
  proof (cases e)
    case (ChOn h op)
    show ?thesis
    proof (cases "chan_handle_id h = chan_handle_id r")
      case False
      with ChOn ch(3) ch' show ?thesis by auto
    next
      case True
      then have get: "chan_get h s = Some ch" using ch(1) by (simp add: chan_get_def)
      have eff: "ch' = chan_effect op (chan_side h) ch"
        using ch' ChOn True by (auto simp: after_def split: if_splits)
      note q = queues_after [OF ok get ch(2), of op]
      show ?thesis
      proof (cases "h = r")
        case True
        then have "h \<noteq> chan_peer_end r" using peer_end_iff [of h r] by simp
        with True ChOn q(2) ch(3) ch'(2) eff show ?thesis by simp
      next
        case False
        then have "h = chan_peer_end r" using peer_end_iff [OF True] by simp
        with False ChOn q(1) ch(3) ch'(2) eff show ?thesis by simp
      qed
    qed
  qed (use ch(3) ch' in simp)
qed

interpretation chan_queue: stream_machine chan_step chan_event_ok "queue_inv r" "queued_for r" "sent_to r" "received_at r"
  by unfold_locales (rule queue_inv_step queue_gone queue_balance; assumption)+

text \<open>
  C6: A buffered channel delivers exactly the messages sent, in order: over any interleaving of the
  critical sections of every kind of send, receive, close and registration on every channel, what
  was queued for an end followed by what its peer's calls took over is what the calls on the end
  answered followed by what is queued at the end of the run. No message is lost, doubled or
  reordered, also while senders wait for room or time out.
\<close>

theorem channel_delivers_in_order:
  assumes "chans_ok s" and "run_ok chan_event_ok chan_step es s"
    and "queued_for r s = Some c" and "queued_for r (fold chan_step es s) = Some c'"
  shows "c @ gather (sent_to r) chan_step es s = gather (received_at r) chan_step es s @ c'"
proof -
  obtain ch where "chan_get r s = Some ch"
    using assms(3) by (auto simp: queued_for_def split: option.splits)
  with assms(1) have "queue_inv r s"
    using chans_okD(4) [OF assms(1)] by (simp add: queue_inv_def chan_get_def)
  then show ?thesis by (rule chan_queue.stream_run) (use assms in simp_all)
qed

definition two_messages :: "message list" where
  "two_messages = [\<lparr>msg_data = [1], msg_caps = []\<rparr>, \<lparr>msg_data = [2], msg_caps = []\<rparr>]"

definition chan_example :: channels where
  "chan_example = \<lparr>cs_next = 6, cs_table = [(5, chan_new\<lparr>ch_queues := (two_messages, [])\<rparr>)], cs_ready = 0, cs_waking = []\<rparr>"

definition chan_example_run :: "chan_event list" where
  "chan_example_run = [ChOn 10 OpTryRecv, ChOn 11 (OpSend \<lparr>msg_data = [3], msg_caps = []\<rparr>)]"

lemmas chan_eval = chan_get_def chan_handle_id_def chan_side_def chan_peer_side_def other_def at2_def put2_def
  chan_handle_new_def chan_peer_end_def bt_get_def bt_adjust_def bt_remove_def put_chan_def try_recv_def
  take_message_def was_full_def room_waiters_def opt_list_def state_woken_def chan_send_def send_or_return_def
  ends_closed_def has_room_def deliver_def deposit_def leave_to_wake_def wake_turn_def wake_ready_def Let_def
  MAX_QUEUE_DEPTH_def chan_new_def

lemma chan_example_ok: "chans_ok chan_example"
  by (auto simp: chans_ok_def tidy_def count_exact_def total_ready_def chan_example_def bt_get_def bt_ok_def
      bt_values_def gone_def chan_new_def ready_count_def ws_count_def chan_ok_def side_simps two_messages_def
      MAX_QUEUE_DEPTH_def at2_def split: if_splits)

theorem channel_delivers_in_order_witness:
  "two_messages @ gather (sent_to 10) chan_step chan_example_run chan_example
     = gather (received_at 10) chan_step chan_example_run chan_example @ [last two_messages, \<lparr>msg_data = [3], msg_caps = []\<rparr>]"
proof -
  have run: "run_ok chan_event_ok chan_step chan_example_run chan_example"
    by (simp add: chan_example_run_def chan_example_def two_messages_def chan_eval
        total_ready_def bt_values_def ready_count_def ws_count_def)
  have "queued_for 10 chan_example = Some two_messages"
    by (simp add: queued_for_def chan_example_def chan_eval)
  moreover have "queued_for 10 (fold chan_step chan_example_run chan_example)
      = Some [last two_messages, \<lparr>msg_data = [3], msg_caps = []\<rparr>]"
    by (simp add: queued_for_def chan_example_run_def chan_example_def two_messages_def chan_eval)
  ultimately show ?thesis
    using channel_delivers_in_order [OF chan_example_ok run] by blast
qed

section \<open>Who waits is woken\<close>

text \<open>The four ways to wait on an end, and what a task that waits has found.\<close>

datatype wait = RecvWait | SendWait | ReadWait | WriteWait

definition listed :: "task_id \<Rightarrow> nat \<Rightarrow> channel \<Rightarrow> bool" where
  "listed t our ch \<longleftrightarrow> t \<in> set (at2 our (ch_ready ch))"

fun waiting_on :: "wait \<Rightarrow> task_id \<Rightarrow> nat \<Rightarrow> channel \<Rightarrow> bool" where
  "waiting_on RecvWait t our ch \<longleftrightarrow> at2 our (ch_waiters ch) = Some t \<and> idle our ch"
| "waiting_on SendWait t our ch \<longleftrightarrow> \<not> ch_sync ch \<and> at2 our (ch_senders ch) = Some t
     \<and> \<not> has_room our ch \<and> \<not> at2 (other our) (ch_closed ch)"
| "waiting_on ReadWait t our ch \<longleftrightarrow> listed t our ch \<and> idle our ch"
| "waiting_on WriteWait t our ch \<longleftrightarrow> \<not> ch_sync ch \<and> listed t our ch
     \<and> \<not> has_room our ch \<and> \<not> at2 (other our) (ch_closed ch)"

text \<open>
  The same, where it may be that a message has come since, and the sender has yet to call
  \<^verbatim>\<open>wake_ready\<close>.
\<close>

definition waiting_or_owed :: "wait \<Rightarrow> bool \<Rightarrow> task_id \<Rightarrow> nat \<Rightarrow> channel \<Rightarrow> bool" where
  "waiting_or_owed w owed t our ch \<longleftrightarrow> waiting_on w t our ch
     \<or> (w = ReadWait \<and> owed \<and> listed t our ch \<and> \<not> at2 (other our) (ch_closed ch))"

text \<open>The calls of others on the same end that leave the waiter its place or its registration.\<close>

fun op_leaves :: "wait \<Rightarrow> task_id \<Rightarrow> chan_op \<Rightarrow> bool" where
  "op_leaves RecvWait t (OpRecvTurn u) \<longleftrightarrow> u = t"
| "op_leaves RecvWait t (OpRecvTimed u f now dl) \<longleftrightarrow> u = t"
| "op_leaves SendWait t (OpSendTurn u p) \<longleftrightarrow> u = t"
| "op_leaves SendWait t (OpSendTimed u f now dl p) \<longleftrightarrow> u = t"
| "op_leaves ReadWait t (OpDeregister u) \<longleftrightarrow> u \<noteq> t"
| "op_leaves WriteWait t (OpDeregister u) \<longleftrightarrow> u \<noteq> t"
| "op_leaves ReadWait t (OpRecvInt u sig at) \<longleftrightarrow> u \<noteq> t \<or> at \<noteq> AtLeave"
| "op_leaves WriteWait t (OpRecvInt u sig at) \<longleftrightarrow> u \<noteq> t \<or> at \<noteq> AtLeave"
| "op_leaves ReadWait t (OpSendInt u sig m at) \<longleftrightarrow> u \<noteq> t \<or> at \<noteq> AtLeave"
| "op_leaves WriteWait t (OpSendInt u sig m at) \<longleftrightarrow> u \<noteq> t \<or> at \<noteq> AtLeave"
| "op_leaves w t op \<longleftrightarrow> True"

lemma waiting_open: "waiting_on w t our ch \<Longrightarrow> \<not> at2 (other our) (ch_closed ch)"
  by (cases w) (simp_all add: idle_def)

lemma open_not_gone: "\<not> at2 i (ch_closed ch) \<Longrightarrow> \<not> gone ch"
  by (auto simp: gone_def at2_def split: if_splits)

lemma deposit_ready [simp]: "ch_ready (fst (deposit our p ch)) = ch_ready ch"
  using frame_simps(1) [of ch our p] by (simp add: same_frame_def)

lemma park_fields:
  "ch_ready (fst (park_sender t our p ch)) = ch_ready ch" "ch_waiters (fst (park_sender t our p ch)) = ch_waiters ch"
  "ch_closed (fst (park_sender t our p ch)) = ch_closed ch" "ch_queues (fst (park_sender t our p ch)) = ch_queues ch"
  "ch_senders (fst (park_sender t our p ch)) = put2 our (Some t) (ch_senders ch)"
  "ch_sync (fst (park_sender t our p ch)) = ch_sync ch"
  "at2 (other our) (ch_slots (fst (park_sender t our p ch))) = at2 (other our) (ch_slots ch)"
  by (simp_all add: park_sender_def Let_def)

lemma clear_fields:
  "ch_ready (clear_slot our ch) = ch_ready ch" "ch_waiters (clear_slot our ch) = ch_waiters ch"
  "ch_closed (clear_slot our ch) = ch_closed ch" "ch_queues (clear_slot our ch) = ch_queues ch"
  "ch_senders (clear_slot our ch) = ch_senders ch" "ch_sync (clear_slot our ch) = ch_sync ch"
  "at2 our (ch_slots (clear_slot our ch)) = (if ch_sync ch then None else at2 our (ch_slots ch))"
  "at2 (other our) (ch_slots (clear_slot our ch)) = at2 (other our) (ch_slots ch)"
  by (simp_all add: clear_slot_def)

lemmas waiting_fields = idle_eq has_room_def deposit_fields park_fields clear_fields drop_ready_def enlist_def
  delist_def await_msg_def eff_deliver_def eff_park_def wakes_deliver_def opt_list_def listed_def

text \<open>Calls on the waiter's own end.\<close>

lemma idle_recv: "idle our ch \<Longrightarrow> eff_recv our ch = ch"
  by (rule eff_recv_cases [of our ch]) (auto simp: idle_def)

lemma recv_keeps:
  "ch_waiters (eff_recv our ch) = ch_waiters ch" "ch_closed (eff_recv our ch) = ch_closed ch"
  "at2 our (ch_senders (eff_recv our ch)) = at2 our (ch_senders ch)"
  "at2 our (ch_ready (eff_recv our ch)) = at2 our (ch_ready ch)"
  "at2 (other our) (ch_queues (eff_recv our ch)) = at2 (other our) (ch_queues ch)"
proof -
  have "ch_waiters (eff_recv our ch) = ch_waiters ch \<and> ch_closed (eff_recv our ch) = ch_closed ch
    \<and> at2 our (ch_senders (eff_recv our ch)) = at2 our (ch_senders ch)
    \<and> at2 (other our) (ch_queues (eff_recv our ch)) = at2 (other our) (ch_queues ch)"
    by (rule eff_recv_cases [of our ch]) simp_all
  moreover have "at2 our (ch_ready (eff_recv our ch)) = at2 our (ch_ready ch)"
    by (cases "take_message our ch"; cases "snd (take_message our ch)")
      (use frame_simps(3) [of ch our] in \<open>auto simp: eff_recv_def Let_def drop_ready_def same_frame_def\<close>)
  ultimately show "ch_waiters (eff_recv our ch) = ch_waiters ch" "ch_closed (eff_recv our ch) = ch_closed ch"
    "at2 our (ch_senders (eff_recv our ch)) = at2 our (ch_senders ch)"
    "at2 our (ch_ready (eff_recv our ch)) = at2 our (ch_ready ch)"
    "at2 (other our) (ch_queues (eff_recv our ch)) = at2 (other our) (ch_queues ch)"
    by simp_all
qed

lemma close_own_fields:
  "at2 our (ch_waiters (eff_close our ch)) = at2 our (ch_waiters ch)"
  "at2 our (ch_senders (eff_close our ch)) = at2 our (ch_senders ch)"
  "at2 our (ch_ready (eff_close our ch)) = at2 our (ch_ready ch)"
  "at2 (other our) (ch_closed (eff_close our ch)) = at2 (other our) (ch_closed ch)"
  "ch_queues (eff_close our ch) = ch_queues ch" "ch_sync (eff_close our ch) = ch_sync ch"
  "at2 (other our) (ch_slots (eff_close our ch)) = at2 (other our) (ch_slots ch)"
  by (simp_all add: eff_close_def Let_def shut_end_def drop_ready_def clear_fields)

lemma own_recv_wait:
  assumes "waiting_on RecvWait t our ch" and "op_leaves RecvWait t op"
  shows "waiting_on RecvWait t our (chan_effect op our ch)"
  using assms idle_recv [of our ch]
  by (cases op) (simp_all add: waiting_fields close_own_fields split: int_place.split)

lemma own_listed:
  assumes "listed t our ch" and "op_leaves w t op" and "w = ReadWait \<or> w = WriteWait"
  shows "listed t our (chan_effect op our ch)"
  using assms
  by (cases op) (auto simp: waiting_fields close_own_fields recv_keeps split: int_place.split)

lemma own_read_idle:
  assumes "idle our ch"
  shows "idle our (chan_effect op our ch)"
  using assms idle_recv [of our ch]
  by (cases op) (simp_all add: waiting_fields close_own_fields split: int_place.split)

lemma own_peer_open:
  "at2 (other our) (ch_closed (chan_effect op our ch)) = at2 (other our) (ch_closed ch)"
  by (cases op) (simp_all add: waiting_fields close_own_fields recv_keeps split: int_place.split)

lemma own_send_wait:
  assumes "waiting_on SendWait t our ch" and "op_leaves SendWait t op"
  shows "waiting_on SendWait t our (chan_effect op our ch)"
  using assms
  by (cases op) (auto simp: waiting_fields close_own_fields recv_keeps split: int_place.split)

lemma own_write_wait:
  assumes "waiting_on WriteWait t our ch" and "op_leaves WriteWait t op"
  shows "waiting_on WriteWait t our (chan_effect op our ch)"
  using assms
  by (cases op) (auto simp: waiting_fields close_own_fields recv_keeps split: int_place.split)

lemma own_waits:
  assumes "waiting_or_owed w owed t our ch" and "op_leaves w t op"
  shows "waiting_or_owed w owed t our (chan_effect op our ch)"
proof (cases w)
  case ReadWait
  with assms own_listed [of t our ch w op] own_read_idle [of our ch op] own_peer_open [of our op ch] show ?thesis
    by (auto simp: waiting_or_owed_def)
qed (use assms own_recv_wait own_send_wait own_write_wait in \<open>auto simp: waiting_or_owed_def\<close>)

text \<open>Calls on the peer's end.\<close>

lemma put2_other_other [simp]: "put2 (other (other i)) x p = put2 i x p"
  by (simp add: put2_def)

lemma peer_recv:
  obtains (none) "eff_recv (other our) ch = ch" "wakes_recv (other our) ch = []"
      "snd (take_message (other our) ch) = None"
  | (some) "set (opt_list (at2 our (ch_senders ch))) \<subseteq> set (wakes_recv (other our) ch)"
      "was_full (other our) ch \<Longrightarrow> set (at2 our (ch_ready ch)) \<subseteq> set (wakes_recv (other our) ch)"
      "\<not> was_full (other our) ch \<Longrightarrow> ch_ready (eff_recv (other our) ch) = ch_ready ch"
      "ch_waiters (eff_recv (other our) ch) = ch_waiters ch"
      "ch_closed (eff_recv (other our) ch) = ch_closed ch"
      "at2 our (ch_queues (eff_recv (other our) ch)) = at2 our (ch_queues ch)"
      "ch_sync ch \<Longrightarrow> at2 (other our) (ch_slots (eff_recv (other our) ch)) = at2 (other our) (ch_slots ch)"
proof (cases "snd (take_message (other our) ch)")
  case None
  then show ?thesis
    by (intro none) (auto simp: eff_recv_def wakes_recv_def split: prod.splits)
next
  case (Some m)
  obtain c where c: "take_message (other our) ch = (c, Some m)" using Some by (metis prod.collapse)
  have f: "same_frame ch c" by (metis c frame_simps(3) fst_conv)
  have "ch_waiters c = ch_waiters ch" "at2 our (ch_queues c) = at2 our (ch_queues ch)"
    "ch_sync ch \<Longrightarrow> at2 (other our) (ch_slots c) = at2 (other our) (ch_slots ch)"
    using arg_cong [OF c, of fst] by (auto simp: take_message_def split: list.splits if_splits)
  with c f show ?thesis
    by (intro some) (simp_all add: eff_recv_def wakes_recv_def Let_def drop_ready_def same_frame_def)
qed

lemma close_peer_fields:
  "\<not> at2 (other our) (ch_closed ch) \<Longrightarrow> chan_wakes OpClose (other our) ch = [] \<or>
     set (opt_list (at2 our (ch_waiters ch))) \<union> set (opt_list (at2 our (ch_senders ch))) \<union> set (at2 our (ch_ready ch))
       \<subseteq> set (chan_wakes OpClose (other our) ch)"
  "0 < sat_dec32 (at2 (other our) (ch_refs ch)) \<Longrightarrow>
     eff_close (other our) ch = (if at2 (other our) (ch_closed ch) then ch
       else ch\<lparr>ch_refs := put2 (other our) (sat_dec32 (at2 (other our) (ch_refs ch))) (ch_refs ch)\<rparr>)"
  by (auto simp: eff_close_def Let_def)

lemma waiting_info:
  "waiting_on w t i (ch\<lparr>ch_creds := c\<rparr>) = waiting_on w t i ch"
  "waiting_on w t i (ch\<lparr>ch_service_key := k\<rparr>) = waiting_on w t i ch"
  "waiting_on w t i (ch\<lparr>ch_refs := r\<rparr>) = waiting_on w t i ch"
  by (cases w; simp add: waiting_fields)+

text \<open>What each kind of call on the peer's end does to a waiter.\<close>

lemma peer_close_waits:
  assumes "waiting_on w t our ch"
  shows "waiting_on w t our (eff_close (other our) ch) \<or> t \<in> set (chan_wakes OpClose (other our) ch)"
proof (cases "0 < sat_dec32 (at2 (other our) (ch_refs ch))")
  case True
  with assms close_peer_fields(2) [OF True] waiting_open [OF assms] show ?thesis by (simp add: waiting_info)
next
  case False
  with assms waiting_open [OF assms] show ?thesis by (cases w) (auto simp: opt_list_def listed_def)
qed

lemma peer_listed:
  assumes "listed t our ch"
  shows "listed t our (chan_effect op (other our) ch) \<or> t \<in> set (chan_wakes op (other our) ch)"
proof -
  have recv: "listed t our (eff_recv (other our) ch) \<or> t \<in> set (wakes_recv (other our) ch)"
    using assms by (cases rule: peer_recv [of our ch]; cases "was_full (other our) ch") (auto simp: listed_def)
  have close: "listed t our (eff_close (other our) ch) \<or> t \<in> set (chan_wakes OpClose (other our) ch)"
  proof (cases "at2 (other our) (ch_closed ch)")
    case True
    with assms show ?thesis by (simp add: eff_close_def)
  next
    case False
    show ?thesis
    proof (cases "0 < sat_dec32 (at2 (other our) (ch_refs ch))")
      case True
      with assms False close_peer_fields(2) [OF True] show ?thesis by (simp add: listed_def)
    next
      case shut: False
      with assms False show ?thesis by (simp add: listed_def)
    qed
  qed
  show ?thesis
    using assms recv close by (cases op) (auto simp: waiting_fields split: int_place.split)
qed

lemma peer_waits:
  assumes wait: "waiting_or_owed w owed t our ch"
    and owing: "op \<noteq> OpWake \<Longrightarrow> owed \<or> owes_wake op (other our) ch \<Longrightarrow> owed'"
  shows "waiting_or_owed w owed' t our (chan_effect op (other our) ch) \<or> t \<in> set (chan_wakes op (other our) ch)"
proof (cases "waiting_on w t our ch")
  case True
  note waiting = True
  have deliver: "waiting_on w t our (eff_deliver (other our) p ch) \<or> t \<in> set (wakes_deliver (other our) ch)
      \<or> (w = ReadWait \<and> listed t our (eff_deliver (other our) p ch) \<and> \<not> at2 (other our) (ch_closed (eff_deliver (other our) p ch)))" for p
    using waiting by (cases w) (auto simp: waiting_fields)
  have park: "waiting_on w t our (eff_park u (other our) p ch)
      \<or> (w = ReadWait \<and> listed t our (eff_park u (other our) p ch) \<and> \<not> at2 (other our) (ch_closed (eff_park u (other our) p ch)))"
    if "\<not> has_room (other our) ch" for u p
    using waiting that by (cases w) (auto simp: waiting_fields)
  have clear: "waiting_on w t our (clear_slot (other our) (fst (park_sender u (other our) p ch)))"
    if "\<not> has_room (other our) ch" for u p
    using waiting that by (cases w) (auto simp: waiting_fields)
  have clear': "waiting_on w t our (clear_slot (other our) ch)"
    using waiting by (cases w) (auto simp: waiting_fields)
  have recv: "waiting_on w t our (eff_recv (other our) ch) \<or> t \<in> set (wakes_recv (other our) ch)"
    using waiting
    by (cases rule: peer_recv [of our ch]; cases w; cases "was_full (other our) ch")
      (auto simp: waiting_fields was_full_def take_message_def MAX_QUEUE_DEPTH_def split: list.splits)
  have await: "waiting_on w t our (await_msg u (other our) ch)" for u
    using waiting by (cases w) (auto simp: waiting_fields)
  have enlist: "waiting_on w t our (enlist u (other our) ch)" and leave: "waiting_on w t our (delist u (other our) ch)" for u
    using waiting by (cases w; auto simp: waiting_fields)+
  have wake: "waiting_on w t our (drop_ready (other (other our)) ch) \<or> t \<in> set (at2 our (ch_ready ch))"
    using waiting by (cases w) (auto simp: waiting_fields)
  note close = peer_close_waits [OF waiting]
  show ?thesis
  proof (cases op)
    case (OpSend m)
    with deliver [of "Some m"] waiting owing show ?thesis by (auto simp: waiting_or_owed_def)
  next
    case (OpSendTurn u p)
    with deliver [of p] park [of u p] waiting owing show ?thesis by (auto simp: waiting_or_owed_def)
  next
    case (OpSendStart m now ns)
    with deliver [of "Some m"] waiting owing show ?thesis by (auto simp: waiting_or_owed_def)
  next
    case (OpSendTimed u f now dl p)
    with deliver [of p] park [of u p] clear [of u p] clear' waiting owing show ?thesis
      by (auto simp: waiting_or_owed_def)
  next
    case (OpSendInt u sig m at)
    with deliver [of "Some m"] enlist [of u] leave [of u] waiting owing show ?thesis
      by (cases at) (auto simp: waiting_or_owed_def)
  next
    case (OpRecvInt u sig at)
    with recv enlist [of u] leave [of u] waiting show ?thesis
      by (cases at) (auto simp: waiting_or_owed_def)
  next
    case OpWake
    with wake show ?thesis by (auto simp: waiting_or_owed_def)
  next
    case OpClose
    with close show ?thesis by (auto simp: waiting_or_owed_def)
  next
    case (OpRecvTurn u)
    with recv await [of u] show ?thesis by (auto simp: waiting_or_owed_def)
  next
    case (OpRecvTimed u f now dl)
    with recv await [of u] show ?thesis by (auto simp: waiting_or_owed_def)
  qed (use waiting recv enlist leave in \<open>auto simp: waiting_or_owed_def waiting_info\<close>)
next
  case False
  then have w: "w = ReadWait" "owed" "listed t our ch" "\<not> at2 (other our) (ch_closed ch)"
    using wait by (auto simp: waiting_or_owed_def)
  show ?thesis
  proof (cases "t \<in> set (chan_wakes op (other our) ch)")
    case False
    then have still: "listed t our (chan_effect op (other our) ch)" using peer_listed [OF w(3)] by blast
    have "op \<noteq> OpWake" using False w(3) by (auto simp: listed_def)
    moreover have "\<not> at2 (other our) (ch_closed (chan_effect op (other our) ch))"
    proof (cases op)
      case OpClose
      with False w(3,4) close_peer_fields(2) [of our ch] show ?thesis
        by (cases "0 < sat_dec32 (at2 (other our) (ch_refs ch))") (auto simp: listed_def)
    qed (use w(4) in \<open>auto simp: waiting_fields recv_keeps split: int_place.split\<close>)
    ultimately show ?thesis using still w(1,2) owing by (simp add: waiting_or_owed_def)
  qed simp
qed

section \<open>One waiting task among the others\<close>

definition waits_at :: "wait \<Rightarrow> task_id \<Rightarrow> chan_handle \<Rightarrow> channels \<Rightarrow> bool" where
  "waits_at w t h s = (case chan_get h s of None \<Rightarrow> False | Some ch \<Rightarrow> waiting_on w t (chan_side h) ch)"

definition waits_or_owed :: "wait \<Rightarrow> task_id \<Rightarrow> chan_handle \<Rightarrow> channels \<Rightarrow> bool" where
  "waits_or_owed w t h s = (case chan_get h s of None \<Rightarrow> False
     | Some ch \<Rightarrow> waiting_or_owed w (chan_peer_end h \<in> set (cs_waking s)) t (chan_side h) ch)"

text \<open>Registered for readiness, if there is still a channel.\<close>

definition listed_at :: "task_id \<Rightarrow> chan_handle \<Rightarrow> channels \<Rightarrow> bool" where
  "listed_at t h s = (case chan_get h s of None \<Rightarrow> True | Some ch \<Rightarrow> listed t (chan_side h) ch)"

fun leaves_waiter :: "wait \<Rightarrow> task_id \<Rightarrow> chan_handle \<Rightarrow> chan_event \<Rightarrow> bool" where
  "leaves_waiter w t h (ChOn g op) \<longleftrightarrow> (g = h \<longrightarrow> op_leaves w t op)"
| "leaves_waiter w t h (ChCreate sync) \<longleftrightarrow> True"

lemma waking_step:
  assumes "chans_ok s" and "chan_get h s = Some ch" and "chan_handle_id g = chan_handle_id h"
  shows "cs_waking (chan_step (ChOn g op) s) = waking_after op g (Some ch) (cs_waking s)"
  using op_step_eq [OF chans_okD(1,2) [OF assms(1)], of g ch op] assms(2,3) by (simp add: chan_get_def)

lemma waking_stays:
  assumes "chans_ok s" and "r \<in> set (cs_waking s)" and "e \<noteq> ChOn r OpWake"
  shows "r \<in> set (cs_waking (chan_step e s))"
proof (cases e)
  case (ChCreate sync)
  with assms(2) show ?thesis by (simp add: chan_create_def chan_create_sync_def alloc_channel_id_def)
next
  case (ChOn g op)
  then have "cs_waking (chan_step e s) = waking_after op g (chan_get g s) (cs_waking s)"
    using op_step_none [of g s op] op_step_eq [OF chans_okD(1,2) [OF assms(1)], of g _ op]
    by (cases "chan_get g s") simp_all
  with ChOn assms(2,3) show ?thesis by (auto simp: waking_after_def split: option.split)
qed

text \<open>A step of somebody else, on the one channel that matters.\<close>

lemma other_step:
  assumes ok: "chans_ok s" and ch: "chan_get h s = Some ch"
  obtains (apart) "chan_event_effect e (chan_handle_id h) ch = Some ch" "e \<noteq> ChOn (chan_peer_end h) OpWake"
  | (own) op where "e = ChOn h op" "chan_event_effect e (chan_handle_id h) ch = after (chan_effect op (chan_side h) ch)"
  | (peer) op where "e = ChOn (chan_peer_end h) op"
      "chan_event_effect e (chan_handle_id h) ch = after (chan_effect op (other (chan_side h)) ch)"
      "set (chan_wakes op (other (chan_side h)) ch) \<subseteq> set (chan_woken e s)"
proof (cases e)
  case (ChCreate sync)
  with apart show thesis by simp
next
  case (ChOn g op)
  show thesis
  proof (cases "chan_handle_id g = chan_handle_id h")
    case False
    then have "g \<noteq> chan_peer_end h" by auto
    with ChOn False apart show thesis by simp
  next
    case True
    have get: "bt_get (cs_table s) (chan_handle_id h) = Some ch" using ch by (simp add: chan_get_def)
    show thesis
    proof (cases "g = h")
      case True
      with ChOn own show thesis by simp
    next
      case False
      with True have "g = chan_peer_end h" using peer_end_iff [of g h] by blast
      with ChOn True chan_step_some(2) [OF ok get, of e] peer show thesis by simp
    qed
  qed
qed

lemma still_waits:
  assumes ok: "chans_ok s" and ch: "chan_get h s = Some ch"
    and eff: "chan_event_effect e (chan_handle_id h) ch = after ch'"
    and wait: "waiting_or_owed w owed t (chan_side h) ch'"
    and owed: "owed \<Longrightarrow> chan_peer_end h \<in> set (cs_waking (chan_step e s))"
  shows "waits_or_owed w t h (chan_step e s)"
proof -
  have "\<not> at2 (other (chan_side h)) (ch_closed ch')"
    using wait waiting_open by (auto simp: waiting_or_owed_def)
  then have "chan_get h (chan_step e s) = Some ch'"
    using chan_get_step [OF ok ch, of e] eff open_not_gone [of "other (chan_side h)" ch'] by (simp add: after_def)
  with wait owed show ?thesis by (auto simp: waits_or_owed_def waiting_or_owed_def)
qed

lemma waits_step:
  assumes ok: "chans_ok s" and wait: "waits_or_owed w t h s" and leave: "leaves_waiter w t h e"
  shows "waits_or_owed w t h (chan_step e s) \<or> t \<in> set (chan_woken e s)"
proof -
  let ?our = "chan_side h" and ?p = "chan_peer_end h"
  obtain ch where ch: "chan_get h s = Some ch" "waiting_or_owed w (?p \<in> set (cs_waking s)) t ?our ch"
    using wait by (auto simp: waits_or_owed_def split: option.splits)
  note here = still_waits [OF ok ch(1), of e] and stays = waking_stays [OF ok, of ?p e]
  show ?thesis
  using ok ch(1)
  proof (cases rule: other_step [where e = e])
    case apart
    have "\<not> gone ch" using chans_okD(4) [OF ok] ch(1) by (auto simp: chan_get_def)
    with apart here [of ch, OF _ ch(2)] stays show ?thesis by (simp add: after_def)
  next
    case (own op)
    have "?p \<noteq> h" using peer_end_iff [of h h] by auto
    then have "e \<noteq> ChOn ?p OpWake" using own by auto
    with own leave here [OF own(2) own_waits [OF ch(2)]] stays show ?thesis by simp
  next
    case (peer op)
    let ?after = "?p \<in> set (cs_waking (chan_step e s))"
    have "?after" if "op \<noteq> OpWake" "?p \<in> set (cs_waking s) \<or> owes_wake op (other ?our) ch"
      using that peer(1) stays waking_step [OF ok ch(1), of ?p op] by (auto simp: waking_after_def)
    from peer_waits [OF ch(2), of op ?after, OF this] peer here [OF peer(2)] show ?thesis by blast
  qed
qed

lemma listed_step:
  assumes ok: "chans_ok s" and ev: "chan_event_ok e s" and known: "chan_handle_id h < cs_next s"
    and listed: "listed_at t h s" and leave: "leaves_waiter w t h e" and kind: "w = ReadWait \<or> w = WriteWait"
  shows "listed_at t h (chan_step e s) \<or> t \<in> set (chan_woken e s)"
proof (cases "chan_get h s")
  case None
  then have "chan_get h (chan_step e s) = None"
    using chan_step_none [OF ok, of "chan_handle_id h" e] known
    by (cases "chan_get h (chan_step e s)") (auto simp: chan_get_def)
  then show ?thesis by (simp add: listed_at_def)
next
  case (Some ch)
  then have "listed t (chan_side h) ch" using listed by (simp add: listed_at_def)
  note stays = own_listed [OF this _ kind] and wakes = peer_listed [OF this]
  have here: "listed_at t h (chan_step e s)"
    if "chan_event_effect e (chan_handle_id h) ch \<in> {Some ch', after ch'}" "listed t (chan_side h) ch'" for ch'
    using that chan_get_step [OF ok Some, of e] by (auto simp: listed_at_def after_def)
  show ?thesis
  using ok Some
  proof (cases rule: other_step [where e = e])
    case apart
    with here \<open>listed t (chan_side h) ch\<close> show ?thesis by blast
  next
    case (own op)
    with leave have "op_leaves w t op" by simp
    with own here stays show ?thesis by blast
  next
    case (peer op)
    then show ?thesis using here wakes [of op] by blast
  qed
qed

text \<open>
  A blocking call, from its first look to its return, among everything else that happens. It is at a
  place in its loop, or asleep in \<^verbatim>\<open>sched::block_current_on\<close>, or over; its task has the scheduler's
  \<^verbatim>\<open>pending_wake\<close> token or not; and calls of \<^verbatim>\<open>sched::wake\<close> for it, by those who have dropped the table's
  lock with its id, are still to come.
\<close>

datatype place = Inside int_place | Asleep | Over

record watch =
  wt_chans :: channels
  wt_pending :: "message option"
  wt_at :: place
  wt_token :: bool
  wt_due :: nat

definition turn_place :: "'r turn \<Rightarrow> int_place \<Rightarrow> place" where
  "turn_place r parked = (case r of Finished _ \<Rightarrow> Over | Again \<Rightarrow> Inside AtTry | Parked \<Rightarrow> Inside parked)"

definition move_place :: "'r move \<Rightarrow> place" where
  "move_place r = (case r of Return _ \<Rightarrow> Over | Goto at \<Rightarrow> Inside at)"

text \<open>
  One critical section of the call itself: \<^verbatim>\<open>recv\<close>, \<^verbatim>\<open>send_blocking\<close>, \<^verbatim>\<open>recv_interruptible\<close> or
  \<^verbatim>\<open>send_interruptible\<close>. (The first has nothing to do at \<open>AtLeave\<close>; the second looks there whether its
  parked message was taken.)
\<close>

fun own_section ::
  "wait \<Rightarrow> task_id \<Rightarrow> chan_handle \<Rightarrow> message \<Rightarrow> bool \<Rightarrow> int_place \<Rightarrow> message option \<Rightarrow> channels
     \<Rightarrow> channels \<times> task_id list \<times> message option \<times> place" where
  "own_section RecvWait t h m sig at p s =
     (if at = AtTry then case recv_turn t h s of (s, woken, r) \<Rightarrow> (s, woken, p, turn_place r AtPark)
      else (s, [], p, Inside AtTry))"
| "own_section SendWait t h m sig at p s =
     (if at = AtTry then case send_turn t h p s of (s, woken, p, r) \<Rightarrow> (s, woken, p, turn_place r AtPark)
      else (s, [], p, turn_place (send_resume h s) AtTry))"
| "own_section ReadWait t h m sig at p s =
     (case recv_int_step t h sig at s of (s, woken, r) \<Rightarrow> (s, woken, p, move_place r))"
| "own_section WriteWait t h m sig at p s =
     (case send_int_step t h sig m at s of (s, woken, r) \<Rightarrow> (s, woken, p, move_place r))"

text \<open>
  The park takes the token instead of sleeping; an interruptible one also looks for a signal before
  it sleeps. A wake ends a sleep, and is kept as the token when there is none; a wake from elsewhere,
  for a signal or by a stale timer, does the same.
\<close>

datatype watch_event = Others chan_event | Own bool | WakeDue | WakeElsewhere

definition awaken :: "watch \<Rightarrow> watch" where
  "awaken s = (if wt_at s = Asleep then s\<lparr>wt_at := Inside AtLeave\<rparr> else s\<lparr>wt_token := True\<rparr>)"

definition park :: "wait \<Rightarrow> bool \<Rightarrow> watch \<Rightarrow> watch" where
  "park w sig s =
     (if sig \<and> (w = ReadWait \<or> w = WriteWait) then s\<lparr>wt_at := Inside AtLeave\<rparr>
      else if wt_token s then s\<lparr>wt_token := False, wt_at := Inside AtLeave\<rparr>
      else s\<lparr>wt_at := Asleep\<rparr>)"

fun watch_step :: "wait \<Rightarrow> task_id \<Rightarrow> chan_handle \<Rightarrow> message \<Rightarrow> watch_event \<Rightarrow> watch \<Rightarrow> watch" where
  "watch_step w t h m (Others e) s =
     s\<lparr>wt_chans := chan_step e (wt_chans s), wt_due := wt_due s + count_list (chan_woken e (wt_chans s)) t\<rparr>"
| "watch_step w t h m (Own sig) s =
     (case wt_at s of
        Inside AtPark \<Rightarrow> park w sig s
      | Inside at \<Rightarrow>
          (case own_section w t h m sig at (wt_pending s) (wt_chans s) of
             (c, woken, p, later) \<Rightarrow>
               s\<lparr>wt_chans := c, wt_pending := p, wt_at := later, wt_due := wt_due s + count_list woken t\<rparr>)
      | _ \<Rightarrow> s)"
| "watch_step w t h m WakeDue s = awaken (s\<lparr>wt_due := wt_due s - 1\<rparr>)"
| "watch_step w t h m WakeElsewhere s = awaken s"

text \<open>Others leave the task its place or registration; a wake that is due comes once.\<close>

fun watch_ok :: "wait \<Rightarrow> task_id \<Rightarrow> chan_handle \<Rightarrow> watch_event \<Rightarrow> watch \<Rightarrow> bool" where
  "watch_ok w t h (Others e) s \<longleftrightarrow> chan_event_ok e (wt_chans s) \<and> leaves_waiter w t h e"
| "watch_ok w t h (Own sig) s \<longleftrightarrow> total_ready (wt_chans s) + 1 < 2 ^ 64"
| "watch_ok w t h WakeDue s \<longleftrightarrow> 0 < wt_due s"
| "watch_ok w t h WakeElsewhere s \<longleftrightarrow> True"

text \<open>
  What holds at every moment. A task that has found nothing, or has just registered, still stands
  where the others look for it, unless its wake is already on the way.
\<close>

definition kind_fits :: "wait \<Rightarrow> chan_handle \<Rightarrow> channels \<Rightarrow> bool" where
  "kind_fits w h s \<longleftrightarrow> chan_handle_id h < cs_next s
     \<and> (w = SendWait \<or> w = WriteWait \<longrightarrow> chan_is_sync h s \<noteq> Some True)"

definition wake_coming :: "watch \<Rightarrow> bool" where
  "wake_coming s \<longleftrightarrow> 0 < wt_due s \<or> wt_token s"

fun watched_at :: "wait \<Rightarrow> task_id \<Rightarrow> chan_handle \<Rightarrow> place \<Rightarrow> watch \<Rightarrow> bool" where
  "watched_at w t h (Inside AtCheck) s \<longleftrightarrow> (w = ReadWait \<or> w = WriteWait) \<and> (wake_coming s \<or> listed_at t h (wt_chans s))"
| "watched_at w t h (Inside AtPark) s \<longleftrightarrow> wake_coming s \<or> waits_or_owed w t h (wt_chans s)"
| "watched_at w t h Asleep s \<longleftrightarrow> 0 < wt_due s \<or> waits_or_owed w t h (wt_chans s)"
| "watched_at w t h (Inside AtRegister) s \<longleftrightarrow> w = ReadWait \<or> w = WriteWait"
| "watched_at w t h _ s \<longleftrightarrow> True"

definition watch_inv :: "wait \<Rightarrow> task_id \<Rightarrow> chan_handle \<Rightarrow> watch \<Rightarrow> bool" where
  "watch_inv w t h s \<longleftrightarrow> chans_ok (wt_chans s) \<and> kind_fits w h (wt_chans s) \<and> watched_at w t h (wt_at s) s"

lemma kind_fits_step:
  assumes ok: "chans_ok s" and ev: "chan_event_ok e s" and fits: "kind_fits w h s"
  shows "kind_fits w h (chan_step e s)"
proof (cases "chan_get h s")
  case None
  then have "chan_get h (chan_step e s) = None"
    using chan_step_none [OF ok, of "chan_handle_id h" e] fits
    by (cases "chan_get h (chan_step e s)") (auto simp: chan_get_def kind_fits_def)
  then show ?thesis
    using fits order_less_le_trans [OF _ chan_step_next(1) [OF ok ev]] by (simp add: kind_fits_def chan_is_sync_def)
next
  case (Some ch)
  note now = chan_get_step [OF ok Some, of e]
  have "ch_sync c = ch_sync ch" if "chan_get h (chan_step e s) = Some c" for c
    using event_effect_sync [of e "chan_handle_id h" ch c] now that by simp
  with Some fits order_less_le_trans [OF _ chan_step_next(1) [OF ok ev]] show ?thesis
    by (cases "chan_get h (chan_step e s)") (auto simp: kind_fits_def chan_is_sync_def)
qed

lemma own_section_event:
  assumes "own_section w t h m sig at p s = (c, woken, p', later)"
  shows "c = s \<or> (\<exists>op. op \<noteq> OpWake \<and> c = chan_step (ChOn h op) s)"
proof (cases w)
  case RecvWait
  with assms have "c = s \<or> c = chan_step (ChOn h (OpRecvTurn t)) s"
    by (auto simp: state_woken_def split: if_splits prod.splits)
  then show ?thesis by blast
next
  case SendWait
  with assms have "c = s \<or> c = chan_step (ChOn h (OpSendTurn t p)) s"
    by (auto simp: state_woken_def split: if_splits prod.splits)
  then show ?thesis by blast
next
  case ReadWait
  with assms have "c = chan_step (ChOn h (OpRecvInt t sig at)) s"
    by (auto simp: state_woken_def split: prod.splits)
  then show ?thesis by blast
next
  case WriteWait
  with assms have "c = chan_step (ChOn h (OpSendInt t sig m at)) s"
    by (auto simp: state_woken_def split: prod.splits)
  then show ?thesis by blast
qed

lemma recv_parks:
  assumes ok: "chans_ok s" and turn: "recv_turn t h s = (c, woken, r)" and parked: "turn_place r AtPark = Inside AtPark"
  shows "waits_or_owed RecvWait t h c"
proof -
  have r: "r = Parked" using parked by (cases r) (simp_all add: turn_place_def)
  obtain ch where ch: "chan_get h s = Some ch"
    using turn r by (cases "chan_get h s") (auto simp: recv_turn_def try_recv_def)
  note ok' = chans_okD(1,2) [OF ok]
  have idle: "idle (chan_side h) ch"
    using turn r try_recv_eq [OF ok' ch]
    by (auto simp: recv_turn_def idle_def chan_peer_side_def split: option.splits if_splits)
  have wait: "waiting_on RecvWait t (chan_side h) (await_msg t (chan_side h) ch)"
    using idle by (simp add: waiting_fields)
  have "c = chan_step (ChOn h (OpRecvTurn t)) s" using turn by (simp add: state_woken_def)
  then have "chan_get h c = after (await_msg t (chan_side h) ch)"
    using chan_get_step [OF ok ch, of "ChOn h (OpRecvTurn t)"] idle by simp
  with wait open_not_gone [OF waiting_open [OF wait]] show ?thesis
    by (simp add: waits_or_owed_def waiting_or_owed_def after_def)
qed

lemma send_parks:
  assumes ok: "chans_ok s" and fits: "kind_fits SendWait h s"
    and turn: "send_turn t h p s = (c, woken, p', r)" and parked: "turn_place r AtPark = Inside AtPark"
  shows "waits_or_owed SendWait t h c"
proof -
  have r: "r = Parked" using parked by (cases r) (simp_all add: turn_place_def)
  obtain ch where ch: "chan_get h s = Some ch"
    using turn r by (cases "chan_get h s") (auto simp: send_turn_def)
  let ?our = "chan_side h"
  have full: "\<not> ends_closed ?our ch \<and> \<not> has_room ?our ch"
    using turn r ch by (auto simp: send_turn_def split: prod.splits if_splits)
  have wait: "waiting_on SendWait t ?our (eff_park t ?our p ch)"
    using full fits ch by (simp add: waiting_fields ends_closed_def kind_fits_def chan_is_sync_def)
  have "c = chan_step (ChOn h (OpSendTurn t p)) s" using turn by (simp add: state_woken_def)
  then have "chan_get h c = after (eff_park t ?our p ch)"
    using chan_get_step [OF ok ch, of "ChOn h (OpSendTurn t p)"] full by simp
  with wait open_not_gone [OF waiting_open [OF wait]] show ?thesis
    by (simp add: waits_or_owed_def waiting_or_owed_def after_def)
qed

text \<open>The register, and the look that decides to park.\<close>

lemma register_lists:
  assumes ok: "chans_ok s"
  shows "listed_at t h (chan_register_waiter h t s)"
proof (cases "chan_get h s")
  case None
  then show ?thesis by (simp add: chan_register_waiter_def listed_at_def)
next
  case (Some ch)
  have "chan_register_waiter h t s = chan_step (ChOn h (OpRegister t)) s" by simp
  then show ?thesis
    using chan_get_step [OF ok Some, of "ChOn h (OpRegister t)"]
    by (simp add: listed_at_def after_def listed_def enlist_def)
qed

lemma check_waits:
  assumes "kind_fits w h s" and "listed_at t h s"
  shows "w = ReadWait \<Longrightarrow> \<not> chan_readable h s \<Longrightarrow> waits_or_owed w t h s"
    and "w = WriteWait \<Longrightarrow> \<not> chan_writable h s \<Longrightarrow> waits_or_owed w t h s"
  using assms
  by (auto simp: chan_readable_def chan_writable_def waits_or_owed_def waiting_or_owed_def listed_at_def idle_eq
      chan_peer_side_def kind_fits_def chan_is_sync_def split: option.splits)

text \<open>A section of the call leaves the task where the next one expects it.\<close>

lemma own_section_watched:
  assumes ok: "chans_ok (wt_chans s)" and fits: "kind_fits w h (wt_chans s)"
    and watched: "watched_at w t h (Inside at) s" and at: "at \<noteq> AtPark"
    and run: "own_section w t h m sig at (wt_pending s) (wt_chans s) = (c, woken, p, later)"
    and next_s: "wt_chans s' = c" "wake_coming s \<Longrightarrow> wake_coming s'"
  shows "watched_at w t h later s'"
proof (cases w)
  case RecvWait
  with run at recv_parks [OF ok] next_s show ?thesis
    by (auto simp: turn_place_def split: if_splits prod.splits turn.splits)
next
  case SendWait
  with run at send_parks [OF ok fits [unfolded SendWait]] next_s show ?thesis
    by (auto simp: turn_place_def split: if_splits prod.splits turn.splits)
next
  case ReadWait
  show ?thesis
  proof (cases at)
    case AtTry
    with run ReadWait next_s show ?thesis
      by (auto simp: move_place_def split: prod.splits sum.splits option.splits)
  next
    case AtRegister
    with run ReadWait next_s register_lists [OF ok, of t h] show ?thesis by (auto simp: move_place_def)
  next
    case AtCheck
    with run ReadWait next_s watched check_waits(1) [OF fits] show ?thesis
      by (auto simp: move_place_def split: if_splits)
  qed (use run ReadWait next_s at in \<open>auto simp: move_place_def\<close>)
next
  case WriteWait
  show ?thesis
  proof (cases at)
    case AtTry
    with run WriteWait next_s show ?thesis
      by (auto simp: move_place_def split: prod.splits sum.splits)
  next
    case AtRegister
    with run WriteWait next_s register_lists [OF ok, of t h] show ?thesis by (auto simp: move_place_def)
  next
    case AtCheck
    with run WriteWait next_s watched check_waits(2) [OF fits] show ?thesis
      by (auto simp: move_place_def split: if_splits)
  qed (use run WriteWait next_s at in \<open>auto simp: move_place_def\<close>)
qed

lemma others_watched:
  assumes ok: "chans_ok (wt_chans s)" and fits: "kind_fits w h (wt_chans s)"
    and watched: "watched_at w t h (wt_at s) s"
    and ev: "chan_event_ok e (wt_chans s)" and leave: "leaves_waiter w t h e"
  shows "watched_at w t h (wt_at s) (watch_step w t h m (Others e) s)"
proof (cases "t \<in> set (chan_woken e (wt_chans s))")
  case True
  then have "0 < count_list (chan_woken e (wt_chans s)) t" by (metis count_list_0_iff gr0I)
  with watched show ?thesis
    by (cases "wt_at s" rule: place.exhaust; cases w)
      (auto simp: wake_coming_def elim!: watched_at.elims)
next
  case False
  show ?thesis
  proof (cases "wt_at s")
    case (Inside at)
    with watched listed_step [OF ok ev _ _ leave] waits_step [OF ok _ leave] fits False show ?thesis
      by (cases at) (auto simp: wake_coming_def kind_fits_def)
  next
    case Asleep
    with watched waits_step [OF ok _ leave] False show ?thesis by auto
  next
    case Over
    then show ?thesis by simp
  qed
qed

lemma watch_inv_step:
  assumes inv: "watch_inv w t h s" and ev: "watch_ok w t h e s"
  shows "watch_inv w t h (watch_step w t h m e s)"
proof -
  have ok: "chans_ok (wt_chans s)" and fits: "kind_fits w h (wt_chans s)"
    and watched: "watched_at w t h (wt_at s) s"
    using inv by (simp_all add: watch_inv_def)
  have awake: "watch_inv w t h (awaken s')" if "wt_chans s' = wt_chans s" "wt_at s' = wt_at s" for s'
    using that ok fits watched by (cases "wt_at s" rule: place.exhaust; cases w)
      (auto simp: watch_inv_def awaken_def wake_coming_def elim!: watched_at.elims)
  show ?thesis
  proof (cases e)
    case (Others d)
    with ev have "chan_event_ok d (wt_chans s)" "leaves_waiter w t h d" by simp_all
    with Others others_watched [OF ok fits watched this, of m] chans_ok_step [OF ok] kind_fits_step [OF ok _ fits]
    show ?thesis by (simp add: watch_inv_def)
  next
    case (Own sig)
    have count: "total_ready (wt_chans s) + 1 < 2 ^ 64" using Own ev by simp
    show ?thesis
    proof (cases "wt_at s")
      case (Inside at)
      show ?thesis
      proof (cases "at = AtPark")
        case True
        with Inside Own ok fits watched show ?thesis by (auto simp: watch_inv_def park_def wake_coming_def)
      next
        case False
        obtain c woken p later where run: "own_section w t h m sig at (wt_pending s) (wt_chans s) = (c, woken, p, later)"
          by (metis prod_cases4)
        let ?s = "s\<lparr>wt_chans := c, wt_pending := p, wt_at := later, wt_due := wt_due s + count_list woken t\<rparr>"
        have step: "watch_step w t h m e s = ?s" using Own Inside False run by (cases at) simp_all
        have "chans_ok c \<and> kind_fits w h c"
          using own_section_event [OF run] ok fits count chans_ok_step [OF ok] kind_fits_step [OF ok _ fits]
          by (metis chan_event_ok.simps(2))
        moreover have "watched_at w t h later ?s"
          by (rule own_section_watched [OF ok fits _ False run]) (use watched Inside in \<open>auto simp: wake_coming_def\<close>)
        ultimately show ?thesis by (simp add: step watch_inv_def)
      qed
    qed (use Own inv in simp_all)
  qed (use awake in simp_all)
qed

interpretation watched: guarded_machine "watch_step w t h m" "watch_ok w t h" "watch_inv w t h" for w t h m
  by unfold_locales (rule watch_inv_step)

text \<open>
  C16: A task asleep in a blocking call on an end has something to wait for, or its wake-up on the way.
  Take any of the four loops that wait on one end of an existing channel - \<^verbatim>\<open>recv\<close>; \<^verbatim>\<open>send_blocking\<close> and
  \<^verbatim>\<open>send_interruptible\<close> on a buffered channel; \<^verbatim>\<open>recv_interruptible\<close> - from its start, with the table's
  invariant in force, and let everything else happen between any two of its critical sections
  (between the try, the register, the look again, the park and the deregister): every section of every
  call on every channel, a send's \<^verbatim>\<open>wake_ready\<close> as late as it likes after the send, the
  \<^verbatim>\<open>sched::wake\<close> calls others owe the task, stray wakes, stale \<^verbatim>\<open>pending_wake\<close> tokens, signals. Assumed is that no other
  task takes its place as the end's blocked receiver or sender, nor deregisters it; that at most
  \<^verbatim>\<open>2^64 - 2\<close> readiness waiters and \<^verbatim>\<open>2^64 - 2\<close> channels exist when one is added; and that \<^verbatim>\<open>wake_ready\<close> is
  called only by a send that owes it. Then whenever the task is asleep and no \<^verbatim>\<open>sched::wake\<close> for it is
  owed, it is noted at its end, there is nothing to receive (no room to send) and the peer is open;
  or, for \<^verbatim>\<open>recv_interruptible\<close>, a send on the peer's end has still to call the \<^verbatim>\<open>wake_ready\<close> that
  wakes it.
\<close>

theorem parked_task_is_woken:
  assumes ok: "chans_ok (wt_chans s)" and start: "wt_at s = Inside AtTry"
    and ch: "chan_get h (wt_chans s) = Some ch" and kind: "w = SendWait \<or> w = WriteWait \<Longrightarrow> \<not> ch_sync ch"
    and run: "run_ok (watch_ok w t h) (watch_step w t h m) es s"
    and now: "s' = fold (watch_step w t h m) es s" and asleep: "wt_at s' = Asleep" and settled: "wt_due s' = 0"
  shows "waits_at w t h (wt_chans s')
    \<or> (w = ReadWait \<and> chan_peer_end h \<in> set (cs_waking (wt_chans s'))
        \<and> t \<in> set (chan_woken (ChOn (chan_peer_end h) OpWake) (wt_chans s')))"
proof -
  have "watch_inv w t h s"
    using ok start ch kind chans_okD(4) [OF ok, of "chan_handle_id h" ch]
    by (auto simp: watch_inv_def kind_fits_def chan_is_sync_def chan_get_def)
  then have inv: "watch_inv w t h s'" using watched.inv_run run now by metis
  then have ok': "chans_ok (wt_chans s')" and "waits_or_owed w t h (wt_chans s')"
    using asleep settled by (simp_all add: watch_inv_def)
  then obtain ch' where ch': "chan_get h (wt_chans s') = Some ch'"
      "waiting_or_owed w (chan_peer_end h \<in> set (cs_waking (wt_chans s'))) t (chan_side h) ch'"
    by (auto simp: waits_or_owed_def split: option.splits)
  have "chan_get (chan_peer_end h) (wt_chans s') = Some ch'" using ch'(1) by (simp add: chan_get_def)
  then have "chan_woken (ChOn (chan_peer_end h) OpWake) (wt_chans s') = at2 (chan_side h) (ch_ready ch')"
    using op_step_eq [OF chans_okD(1,2) [OF ok'], of "chan_peer_end h" ch' OpWake] by (simp del: op_step.simps)
  with ch' show ?thesis by (auto simp: waits_at_def waiting_or_owed_def listed_def)
qed

definition quiet_example :: channels where
  "quiet_example = \<lparr>cs_next = 6, cs_table = [(5, chan_new)], cs_ready = 0, cs_waking = []\<rparr>"

lemma quiet_example_ok: "chans_ok quiet_example"
  by (auto simp: chans_ok_def tidy_def count_exact_def total_ready_def quiet_example_def bt_get_def bt_ok_def
      bt_values_def gone_def chan_new_def ready_count_def ws_count_def chan_ok_def side_simps
      at2_def split: if_splits)

definition watch_example :: watch where
  "watch_example = \<lparr>wt_chans = quiet_example, wt_pending = None, wt_at = Inside AtTry, wt_token = False, wt_due = 0\<rparr>"

definition watch_example_run :: "watch_event list" where
  "watch_example_run = [Own False, Own False, Own False, Own False, Others (ChOn 11 (OpSend \<lparr>msg_data = [3], msg_caps = []\<rparr>))]"

lemmas watch_eval = watch_example_def watch_example_run_def quiet_example_def chan_eval move_place_def park_def
  chan_register_waiter_def chan_readable_def ws_insert_def ws_count_def ws_new_def total_ready_def bt_values_def
  ready_count_def

theorem parked_task_is_woken_witness:
  "7 \<in> set (chan_woken (ChOn (chan_peer_end 10) OpWake)
     (wt_chans (fold (watch_step ReadWait 7 10 \<lparr>msg_data = [], msg_caps = []\<rparr>) watch_example_run watch_example)))"
proof -
  let ?m = "\<lparr>msg_data = [], msg_caps = []\<rparr>"
  let ?s = "fold (watch_step ReadWait 7 10 ?m) watch_example_run watch_example"
  have ok: "chans_ok (wt_chans watch_example)" using quiet_example_ok by (simp add: watch_example_def)
  have start: "wt_at watch_example = Inside AtTry" "chan_get 10 (wt_chans watch_example) = Some chan_new"
    by (simp_all add: watch_eval)
  have run: "run_ok (watch_ok ReadWait 7 10) (watch_step ReadWait 7 10 ?m) watch_example_run watch_example"
    by (simp add: watch_eval)
  have asleep: "wt_at ?s = Asleep" and settled: "wt_due ?s = 0" by (simp_all add: watch_eval)
  have "\<not> waits_at ReadWait 7 10 (wt_chans ?s)" by (simp add: watch_eval waits_at_def idle_eq)
  then show ?thesis
    using parked_task_is_woken [OF ok start _ run refl asleep settled] by simp
qed

section \<open>Identities never change\<close>

lemma effect_creds:
  "at2 i (ch_creds ch) = Some c \<Longrightarrow> at2 i (ch_creds (chan_effect op our ch)) = Some c"
  "ch_service_key ch = Some k \<Longrightarrow> ch_service_key (chan_effect op our ch) = Some k"
proof -
  have recv: "ch_creds (eff_recv our ch) = ch_creds ch \<and> ch_service_key (eff_recv our ch) = ch_service_key ch"
    by (rule eff_recv_cases [of our ch]) simp_all
  have info: "ch_creds (clear_slot our x) = ch_creds x" "ch_service_key (clear_slot our x) = ch_service_key x"
    "ch_creds (fst (park_sender t our p ch)) = ch_creds ch"
    "ch_service_key (fst (park_sender t our p ch)) = ch_service_key ch" for x t p
    by (simp_all add: clear_slot_def park_sender_def Let_def)
  show "at2 i (ch_creds (chan_effect op our ch)) = Some c" if "at2 i (ch_creds ch) = Some c"
    using that recv info
    by (cases op)
      (auto simp: eff_deliver_def eff_park_def drop_ready_def deposit_fields enlist_def delist_def await_msg_def
        eff_close_def shut_end_def Let_def put2_def at2_def split: int_place.split)
  show "ch_service_key (chan_effect op our ch) = Some k" if "ch_service_key ch = Some k"
    using that recv info
    by (cases op)
      (auto simp: eff_deliver_def eff_park_def drop_ready_def deposit_fields enlist_def delist_def await_msg_def
        eff_close_def shut_end_def Let_def split: int_place.split)
qed

text \<open>What is known of the other end, while the channel exists.\<close>

definition knows :: "chan_handle \<Rightarrow> peer_cred \<Rightarrow> channels \<Rightarrow> bool" where
  "knows h c s \<longleftrightarrow> chan_handle_id h < cs_next s
     \<and> (case chan_get h s of None \<Rightarrow> True | Some ch \<Rightarrow> at2 (chan_peer_side h) (ch_creds ch) = Some c)"

lemma knows_step:
  assumes ok: "chans_ok s" and ev: "chan_event_ok e s" and knows: "knows h c s"
  shows "knows h c (chan_step e s)"
proof -
  have i: "chan_handle_id h < cs_next (chan_step e s)"
    using knows chan_step_next(1) [OF ok ev] by (auto simp: knows_def intro: order_less_le_trans)
  show ?thesis
  proof (cases "chan_get h s")
    case None
    have "chan_get h (chan_step e s) = None"
    proof (rule ccontr)
      assume "chan_get h (chan_step e s) \<noteq> None"
      with None chan_step_none [OF ok, of "chan_handle_id h" e] knows show False
        by (auto simp: chan_get_def knows_def)
    qed
    with i show ?thesis by (simp add: knows_def)
  next
    case (Some ch)
    with knows have "at2 (chan_peer_side h) (ch_creds ch) = Some c" by (simp add: knows_def)
    with effect_creds(1) [OF this] have "at2 (chan_peer_side h) (ch_creds ch') = Some c"
      if "chan_event_effect e (chan_handle_id h) ch = Some ch'" for ch'
      using that by (cases e) (auto simp: after_def split: if_splits)
    with i chan_get_step [OF ok Some, of e] show ?thesis
      by (simp add: knows_def split: option.split)
  qed
qed

text \<open>
  The identity a service is told of its peer cannot be changed, by the peer or by anyone: once
  the kernel has recorded who owns the other end of a channel, every later answer is that record,
  through any calls on any channel, for as long as the channel exists; and an id is not used again,
  so the handle never names another channel.
\<close>

theorem peer_identity_is_fixed:
  assumes "chans_ok s" and "run_ok chan_event_ok chan_step es s" and "peer_cred_of h s = Some c"
  shows "peer_cred_of h (fold chan_step es s) = (if chan_get h (fold chan_step es s) = None then None else Some c)"
proof -
  obtain ch where ch: "chan_get h s = Some ch" "at2 (chan_peer_side h) (ch_creds ch) = Some c"
    using assms(3) by (auto simp: peer_cred_of_def split: option.splits)
  then have "knows h c s"
    using chans_okD(4) [OF assms(1)] by (simp add: knows_def chan_get_def)
  then have "knows h c (fold chan_step es s)"
    using chans.keeps_run [where P = "knows h c", OF knows_step assms(1,2)] by blast
  then show ?thesis by (auto simp: knows_def peer_cred_of_def split: option.splits)
qed

theorem peer_identity_is_fixed_witness:
  "peer_cred_of 10 (fold chan_step [ChOn 11 OpTryRecv, ChOn 11 (OpSetCred \<lparr>peer_pid = 9, peer_uid = 0, peer_gid = 0\<rparr>)]
     (fst (set_side_cred 11 \<lparr>peer_pid = 4, peer_uid = 1000, peer_gid = 1000\<rparr> quiet_example)))
     = Some \<lparr>peer_pid = 4, peer_uid = 1000, peer_gid = 1000\<rparr>"
proof -
  let ?c = "\<lparr>peer_pid = 4, peer_uid = 1000, peer_gid = 1000\<rparr>"
    and ?es = "[ChOn 11 OpTryRecv, ChOn 11 (OpSetCred \<lparr>peer_pid = 9, peer_uid = 0, peer_gid = 0\<rparr>)]"
  let ?s = "fst (set_side_cred 11 ?c quiet_example)"
  note defs = set_side_cred_def quiet_example_def chan_eval
  have "chans_ok (chan_step (ChOn 11 (OpSetCred ?c)) quiet_example)"
    by (rule chans_ok_step [OF quiet_example_ok])
      (simp add: defs total_ready_def bt_values_def ready_count_def ws_count_def)
  then have ok: "chans_ok ?s" by simp
  have run: "run_ok chan_event_ok chan_step ?es ?s"
    by (simp add: defs total_ready_def bt_values_def ready_count_def ws_count_def)
  have cred: "peer_cred_of 10 ?s = Some ?c" by (simp add: defs peer_cred_of_def)
  have there: "chan_get 10 (fold chan_step ?es ?s) \<noteq> None" by (simp add: defs)
  from peer_identity_is_fixed [OF ok run cred] show ?thesis unfolding if_not_P [OF there] .
qed

section \<open>A synchronous send can be lost\<close>

lemma commit_keeps:
  assumes "tidy s" and "count_exact s" and "chan_get h s = Some old" and "ready_count ch \<le> ready_count old"
    and "\<not> gone ch" and "chan_handle_id h = i"
  shows "tidy (commit i ch s)" and "count_exact (commit i ch s)"
    and "chan_handle_id g = i \<Longrightarrow> chan_get g (commit i ch s) = Some ch"
proof -
  have get: "bt_get (cs_table s) i = Some old" using assms(3,6) by (simp add: chan_get_def)
  show "tidy (commit i ch s)" by (rule commit_tidy [OF assms(1)])
  show "count_exact (commit i ch s)"
    using commit_exact [OF assms(1,2) get, of ch] assms(2,4) by (simp add: count_exact_def)
  show "chan_handle_id g = i \<Longrightarrow> chan_get g (commit i ch s) = Some ch"
    using get assms(5) by (simp add: chan_get_def commit_get)
qed

text \<open>A receive with a timeout that finds nothing leaves its task noted as the end's receiver.\<close>

lemma timed_receive_leaves_note:
  assumes ok': "tidy s" "count_exact s" and ch: "chan_get r s = Some ch" "idle (chan_side r) ch"
    and ours: "\<not> at2 (chan_side r) (ch_closed ch)" and early: "now < deadline"
  obtains s' where "recv_timed_turn t r False now deadline s = (s', [], Parked)"
    and "recv_timed_turn t r True later deadline s' = (s', [], Finished (Err TimedOut))"
    and "tidy s'" "count_exact s'" "chan_get r s' = Some (await_msg t (chan_side r) ch)"
proof -
  let ?our = "chan_side r" and ?i = "chan_handle_id r"
  let ?c1 = "await_msg t ?our ch"
  let ?s1 = "commit ?i ?c1 s"
  have r0: "try_recv r s = (s, [], Ok None)"
    using try_recv_eq [OF ok' ch(1)] idle_recv [OF ch(2)] commit_same [OF ok'(1), of ?i ch] ch
    by (simp add: wakes_recv_def chan_peer_side_def chan_get_def idle_def)
  have g1: "\<not> gone ?c1" using ours by (intro open_not_gone [of ?our]) (simp add: await_msg_def)
  have n1: "ready_count ?c1 = ready_count ch" by (rule same_frameD(2)) simp
  note k1 = commit_keeps [OF ok' ch(1) eq_refl [OF n1] g1 refl]
  have "note_receiver t r s = ?s1"
    using commit_frame(1) [OF ok', of ?i ch ?c1] ch(1)
    by (simp add: note_receiver_def await_msg_def chan_get_def)
  then have first: "recv_timed_turn t r False now deadline s = (?s1, [], Parked)"
    using r0 early by (simp add: recv_timed_turn_def)
  have get1: "chan_get r ?s1 = Some ?c1" using k1(3) by simp
  have idle1: "idle ?our ?c1" using ch(2) by (simp add: idle_eq await_msg_def)
  have "recv_timed_turn t r True later deadline ?s1 = (?s1, [], Finished (Err TimedOut))"
    using try_recv_eq [OF k1(1,2) get1] idle1 idle_recv [OF idle1] commit_same [OF k1(1), of ?i ?c1] get1
    by (simp add: recv_timed_turn_def wakes_recv_def chan_peer_side_def chan_get_def idle_def)
  from that [OF first this k1(1,2) get1] show thesis .
qed

text \<open>A message parked for a receiver that is only noted is dropped when the sender's last handle closes.\<close>

lemma parked_message_is_dropped:
  assumes ok: "tidy s" "count_exact s" and ch: "chan_get r s = Some ch" "ch_sync ch"
    and noted: "has_room (other (chan_side r)) ch"
    and opened: "\<not> at2 (chan_side r) (ch_closed ch)" "\<not> at2 (chan_peer_side r) (ch_closed ch)"
    and one: "at2 (chan_peer_side r) (ch_refs ch) = 1"
  shows "case chan_send (chan_peer_end r) m s of (s3, _, sent) \<Rightarrow>
    case wake_turn (chan_peer_end r) s3 of (s4, _) \<Rightarrow>
    case chan_close (chan_peer_end r) s4 of (s5, _) \<Rightarrow>
      sent = Ok () \<and> snd (snd (try_recv r s5)) = Err ChannelClosed"
proof -
  let ?our = "chan_side r" and ?i = "chan_handle_id r" and ?p = "chan_peer_end r"
  let ?c2 = "eff_deliver (other ?our) (Some m) ch"
  let ?s2 = "commit ?i ?c2 s" and ?w = "cs_waking s @ [chan_peer_end r]"
  let ?s3 = "?s2\<lparr>cs_waking := remove1 ?p ?w\<rparr>"
  let ?c3 = "drop_ready ?our ?c2"
  let ?s4 = "commit ?i ?c3 ?s3"
  let ?c4 = "eff_close (other ?our) ?c3"
  have peer: "chan_get ?p s = Some ch" using ch(1) by (simp add: chan_get_def)
  have open_ends: "\<not> ends_closed (other ?our) ch"
    using opened by (simp add: ends_closed_def chan_peer_side_def)
  have sent: "chan_send ?p m s = (?s2\<lparr>cs_waking := ?w\<rparr>, wakes_deliver (other ?our) ch, Ok ())"
    using send_or_return_eq [OF ok peer, of m] noted open_ends by (simp add: chan_send_def)
  have f2: "ch_closed ?c2 = ch_closed ch" "ch_sync ?c2" "ch_refs ?c2 = ch_refs ch"
    using ch(2) by (simp_all add: eff_deliver_def deposit_fields)
  have g2: "\<not> gone ?c2" using opened f2 by (intro open_not_gone [of ?our]) simp
  have n2: "ready_count ?c2 = ready_count ch"
    unfolding eff_deliver_def by (rule same_frameD(2)) simp
  note k2 = commit_keeps [OF ok ch(1) eq_refl [OF n2] g2 refl]
  have ok3: "tidy ?s3" "count_exact ?s3" using k2(1,2) by simp_all
  have get3: "chan_get ?p ?s3 = Some ?c2" using k2(3) by simp
  have g3: "\<not> gone ?c3" using g2 by simp
  note k3 = commit_keeps [OF ok3 get3 drop_ready_count g3 peer_end_decodes(1)]
  have "chan_peer_side ?p = other (other ?our)" by (simp add: chan_peer_side_def)
  moreover have "drop_ready (other (other ?our)) ?c2 = ?c3" by (simp add: drop_ready_def)
  ultimately have woken: "fst (wake_turn ?p (?s2\<lparr>cs_waking := ?w\<rparr>)) = ?s4"
    using wake_ready_eq [OF ok3 get3] by (simp add: wake_turn_def)
  have get4: "chan_get ?p ?s4 = Some ?c3" by (rule k3(3)) simp
  have closed: "fst (chan_close ?p ?s4) = commit ?i ?c4 ?s4"
    using close_eq [OF k3(1,2) get4] by simp
  have f4: "at2 (other ?our) (ch_closed ?c4)" "ch_sync ?c4" "at2 (other ?our) (ch_slots ?c4) = None"
    "\<not> at2 ?our (ch_closed ?c4)"
    using f2 one opened
    by (simp_all add: eff_close_def Let_def shut_end_def drop_ready_def clear_fields sat_dec32_def
        chan_peer_side_def)
  have g4: "\<not> gone ?c4" using f4(4) by (rule open_not_gone)
  note k4 = commit_keeps [OF k3(1,2) get4 close_ready_count g4 peer_end_decodes(1)]
  have get5: "chan_get r (commit ?i ?c4 ?s4) = Some ?c4" by (rule k4(3)) simp
  have "snd (snd (try_recv r (commit ?i ?c4 ?s4))) = Err ChannelClosed"
    using try_recv_eq [OF k4(1,2) get5] f4 by (simp add: take_message_def chan_peer_side_def)
  with sent woken closed show ?thesis by (simp add: case_prod_beta del: waking_apart)
qed

text \<open>
  C38: On a synchronous channel a send can report success for a message nobody receives. On an end that
  is open, with an open peer and nothing to receive, a receive with a timeout notes itself as the end's
  receiver and leaves the note behind when it times out; the next send takes the note for a blocked
  receiver, parks its message and succeeds; and closing the sender's end, when that is its only
  handle, drops the message, so that the next receive is told only that the channel closed.
\<close>

theorem sync_send_is_lost:
  assumes ok: "chans_ok s" and ch: "chan_get r s = Some ch" "ch_sync ch" "idle (chan_side r) ch"
    and ours: "\<not> at2 (chan_side r) (ch_closed ch)" and one: "at2 (chan_peer_side r) (ch_refs ch) = 1"
    and early: "now < deadline"
  shows "case recv_timed_turn t r False now deadline s of (s1, _, first) \<Rightarrow>
    case recv_timed_turn t r True later deadline s1 of (s2, _, second) \<Rightarrow>
    case chan_send (chan_peer_end r) m s2 of (s3, _, sent) \<Rightarrow>
    case wake_turn (chan_peer_end r) s3 of (s4, _) \<Rightarrow>
    case chan_close (chan_peer_end r) s4 of (s5, _) \<Rightarrow>
      first = Parked \<and> second = Finished (Err TimedOut) \<and> sent = Ok ()
      \<and> snd (snd (try_recv r s5)) = Err ChannelClosed"
proof -
  obtain s' where turns: "recv_timed_turn t r False now deadline s = (s', [], Parked)"
      "recv_timed_turn t r True later deadline s' = (s', [], Finished (Err TimedOut))"
    and kept: "tidy s'" "count_exact s'" "chan_get r s' = Some (await_msg t (chan_side r) ch)"
    using timed_receive_leaves_note [OF chans_okD(1,2) [OF ok] ch(1,3) ours early] by metis
  have peer: "\<not> at2 (other (chan_side r)) (ch_closed ch)" using ch(3) by (simp add: idle_def)
  show ?thesis
    using parked_message_is_dropped [OF kept, of m] turns ch(2) ours one peer
    by (simp add: await_msg_def has_room_def chan_peer_side_def split: prod.splits)
qed

definition sync_example :: channels where
  "sync_example = \<lparr>cs_next = 6, cs_table = [(5, chan_new_sync)], cs_ready = 0, cs_waking = []\<rparr>"

lemma sync_example_ok: "chans_ok sync_example"
  by (auto simp: chans_ok_def tidy_def count_exact_def total_ready_def sync_example_def bt_get_def bt_ok_def
      bt_values_def gone_def chan_new_def chan_new_sync_def ready_count_def ws_count_def chan_ok_def side_simps
      at2_def split: if_splits)

theorem sync_send_is_lost_witness:
  "case recv_timed_turn 7 10 False 0 100 sync_example of (s1, _, first) \<Rightarrow>
   case recv_timed_turn 7 10 True 100 100 s1 of (s2, _, second) \<Rightarrow>
   case chan_send (chan_peer_end 10) \<lparr>msg_data = [1], msg_caps = []\<rparr> s2 of (s3, _, sent) \<Rightarrow>
   case wake_turn (chan_peer_end 10) s3 of (s4, _) \<Rightarrow>
   case chan_close (chan_peer_end 10) s4 of (s5, _) \<Rightarrow>
     first = Parked \<and> second = Finished (Err TimedOut) \<and> sent = Ok ()
     \<and> snd (snd (try_recv 10 s5)) = Err ChannelClosed"
proof (rule sync_send_is_lost [OF sync_example_ok])
  show "chan_get 10 sync_example = Some chan_new_sync" by (simp add: sync_example_def chan_eval)
qed (simp_all add: chan_new_sync_def chan_new_def idle_eq at2_def)

end
