(* ===== verification/ChannelCaps.thy ===== *)
theory ChannelCaps imports ChannelState ProcAuthority begin

text \<open>
  Capabilities sent in messages (\<^verbatim>\<open>send_with_caps\<close>, \<^verbatim>\<open>recv_with_caps\<close> and \<^verbatim>\<open>try_recv_with_caps\<close> of
  \<^verbatim>\<open>kernel/src/ipc/channel.rs\<close>): the composition of the channels with the capability tables of the
  processes. Sending and receiving make no authority; but a send that fails after the capabilities
  have left the sender's table destroys them.
\<close>

section \<open>The calls\<close>

type_synonym ipc = "kstate \<times> channels"

definition transferred :: "cap_entry \<Rightarrow> transferred_cap" where
  "transferred e = \<lparr>tc_type = ce_type e, tc_id = ce_id e, tc_rights = ce_rights e\<rparr>"

definition detach_caps ::
  "u64 \<Rightarrow> u64 \<Rightarrow> u64 list \<Rightarrow> kstate \<Rightarrow> kstate \<times> transferred_cap list kernel_result" where
  "detach_caps now pid handles k =
     (if handles = [] then (k, Ok [])
      else case remove_caps now pid handles k of
        (k, Inl e) \<Rightarrow> (k, Err e)
      | (k, Inr entries) \<Rightarrow> (k, Ok (map transferred entries)))"

definition send_with_caps ::
  "u64 \<Rightarrow> chan_handle \<Rightarrow> u8 list \<Rightarrow> u64 list \<Rightarrow> u64 \<Rightarrow> ipc \<Rightarrow> ipc \<times> task_id list \<times> unit kernel_result" where
  "send_with_caps now h data handles pid st =
     (case st of (k, s) \<Rightarrow>
        if MAX_CAPS_PER_MESSAGE < length handles then (st, [], Err InvalidArgument)
        else if MAX_MESSAGE_SIZE < length data then (st, [], Err MessageTooLarge)
        else case detach_caps now pid handles k of
          (k, Inl e) \<Rightarrow> ((k, s), [], Err e)
        | (k, Inr caps) \<Rightarrow>
            (case message_from_bytes_and_caps data caps of
               Inl e \<Rightarrow> ((k, s), [], Err e)
             | Inr m \<Rightarrow> (case chan_send h m s of (s, woken, r) \<Rightarrow> ((k, s), woken, r))))"

text \<open>What both receives do with the message they got.\<close>

definition accept_caps :: "u64 \<Rightarrow> message \<Rightarrow> kstate \<Rightarrow> kstate \<times> (u8 list \<times> u64 list) kernel_result" where
  "accept_caps pid m k =
     (case message_take_caps m of
        (m, caps) \<Rightarrow>
          (case (if caps = [] then (k, Ok [])
                 else insert_caps pid (map (\<lambda>c. (tc_type c, tc_id c, tc_rights c)) caps) k) of
             (k, Inl e) \<Rightarrow> (k, Err e)
           | (k, Inr handles) \<Rightarrow> (k, Ok (msg_data m, handles))))"

definition recv_with_caps_turn ::
  "task_id \<Rightarrow> chan_handle \<Rightarrow> u64 \<Rightarrow> ipc \<Rightarrow> ipc \<times> task_id list \<times> (u8 list \<times> u64 list) kernel_result turn" where
  "recv_with_caps_turn task h pid st =
     (case st of (k, s) \<Rightarrow>
        case recv_turn task h s of
          (s, woken, Finished (Inl e)) \<Rightarrow> ((k, s), woken, Finished (Err e))
        | (s, woken, Finished (Inr m)) \<Rightarrow>
            (case accept_caps pid m k of (k, r) \<Rightarrow> ((k, s), woken, Finished r))
        | (s, woken, Again) \<Rightarrow> ((k, s), woken, Again)
        | (s, woken, Parked) \<Rightarrow> ((k, s), woken, Parked))"

definition try_recv_with_caps ::
  "chan_handle \<Rightarrow> u64 \<Rightarrow> ipc \<Rightarrow> ipc \<times> task_id list \<times> (u8 list \<times> u64 list) option kernel_result" where
  "try_recv_with_caps h pid st =
     (case st of (k, s) \<Rightarrow>
        case try_recv h s of
          (s, woken, Inl e) \<Rightarrow> ((k, s), woken, Err e)
        | (s, woken, Inr None) \<Rightarrow> ((k, s), woken, Ok None)
        | (s, woken, Inr (Some m)) \<Rightarrow>
            (case accept_caps pid m k of
               (k, Inl e) \<Rightarrow> ((k, s), woken, Err e)
             | (k, Inr r) \<Rightarrow> ((k, s), woken, Ok (Some r))))"

section \<open>Messages in transit\<close>

definition messages :: "channel \<Rightarrow> message set" where
  "messages ch = set (fst (ch_queues ch)) \<union> set (snd (ch_queues ch))
     \<union> set_option (fst (ch_slots ch)) \<union> set_option (snd (ch_slots ch))"

fun op_messages :: "chan_op \<Rightarrow> message set" where
  "op_messages (OpSend m) = {m}"
| "op_messages (OpSendTurn t p) = set_option p"
| "op_messages (OpSendStart m now ns) = {m}"
| "op_messages (OpSendTimed t f now dl p) = set_option p"
| "op_messages (OpSendInt t sig m at) = {m}"
| "op_messages _ = {}"

lemma messages_cong [simp]:
  "messages (ch\<lparr>ch_ready := r\<rparr>) = messages ch" "messages (ch\<lparr>ch_waiters := w\<rparr>) = messages ch"
  "messages (ch\<lparr>ch_senders := w\<rparr>) = messages ch" "messages (ch\<lparr>ch_creds := c\<rparr>) = messages ch"
  "messages (ch\<lparr>ch_service_key := k\<rparr>) = messages ch" "messages (ch\<lparr>ch_refs := n\<rparr>) = messages ch"
  "messages (ch\<lparr>ch_closed := b\<rparr>) = messages ch"
  by (simp_all add: messages_def)

lemma messages_drop [simp]: "messages (drop_ready i ch) = messages ch" "messages (enlist t i ch) = messages ch"
  "messages (delist t i ch) = messages ch" "messages (await_msg t i ch) = messages ch"
  by (simp_all add: drop_ready_def enlist_def delist_def await_msg_def)

lemma messages_clear: "messages (clear_slot our ch) \<subseteq> messages ch"
  by (auto simp: clear_slot_def messages_def put2_def)

lemma messages_put:
  "messages (ch\<lparr>ch_slots := put2 i p (ch_slots ch)\<rparr>) \<subseteq> messages ch \<union> set_option p"
  "messages (ch\<lparr>ch_queues := put2 i q (ch_queues ch)\<rparr>) \<subseteq> messages ch \<union> set q"
  "set (at2 i (ch_queues ch)) \<subseteq> messages ch" "set_option (at2 i (ch_slots ch)) \<subseteq> messages ch"
  by (auto simp: messages_def put2_def at2_def)

lemma messages_deposit: "messages (fst (deposit our p ch)) \<subseteq> messages ch \<union> set_option p"
  using messages_put(1) [of our p ch] messages_put(2) [of "other our" "at2 (other our) (ch_queues ch) @ opt_list p" ch]
    messages_put(3) [of "other our" ch]
  by (cases p) (auto simp: deposit_def Let_def opt_list_def)

lemma messages_park: "messages (fst (park_sender t our p ch)) \<subseteq> messages ch \<union> set_option p"
  using messages_put(1) [of our p ch] by (auto simp: park_sender_def Let_def)

lemma messages_recv: "messages (eff_recv our ch) \<subseteq> messages ch"
proof (cases rule: eff_recv_cases [of our ch])
  case (slot m)
  then show ?thesis using messages_put(1) [of "other our" None ch] by simp
next
  case (queue m q r)
  then show ?thesis using messages_put(2) [of our q ch] messages_put(3) [of our ch] by auto
qed simp

lemma messages_taken: "set_option (snd (take_message our ch)) \<subseteq> messages ch"
  using messages_put(3) [of our ch] messages_put(4) [of "other our" ch]
  by (auto simp: take_message_def split: list.splits)

lemma messages_close: "messages (eff_close our ch) \<subseteq> messages ch"
proof -
  have "messages (fst (shut_end our c)) \<subseteq> messages c" for c
    using messages_clear [of our "c\<lparr>ch_closed := put2 our True (ch_closed c),
      ch_waiters := put2 (other our) None (ch_waiters c), ch_senders := put2 (other our) None (ch_senders c)\<rparr>"]
    by (simp add: shut_end_def Let_def)
  from this [of "ch\<lparr>ch_refs := r\<rparr>" for r] show ?thesis
    by (simp add: eff_close_def Let_def)
qed

lemma messages_effect: "messages (chan_effect op our ch) \<subseteq> messages ch \<union> op_messages op"
proof -
  note dests = subsetD [OF messages_deposit] subsetD [OF messages_park] subsetD [OF messages_recv]
    subsetD [OF messages_close] subsetD [OF messages_clear]
  show ?thesis
    by (cases op) (auto simp: eff_deliver_def eff_park_def split: if_splits int_place.splits dest: dests)
qed

definition in_transit :: "channels \<Rightarrow> message set" where
  "in_transit s = (\<Union>ch \<in> set (bt_values (cs_table s)). messages ch)"

fun event_messages :: "chan_event \<Rightarrow> message set" where
  "event_messages (ChCreate sync) = {}"
| "event_messages (ChOn h op) = op_messages op"

lemma in_transit_get: "bt_get (cs_table s) i = Some ch \<Longrightarrow> messages ch \<subseteq> in_transit s"
  by (auto simp: in_transit_def dest: bt_get_in_values)

lemma in_transit_step:
  assumes ok: "chans_ok s" and ev: "chan_event_ok e s"
  shows "in_transit (chan_step e s) \<subseteq> in_transit s \<union> event_messages e"
proof
  fix m assume "m \<in> in_transit (chan_step e s)"
  then obtain ch where "ch \<in> set (bt_values (cs_table (chan_step e s)))" "m \<in> messages ch"
    by (auto simp: in_transit_def)
  then obtain i where ch: "bt_get (cs_table (chan_step e s)) i = Some ch" "m \<in> messages ch"
    using bt_values_get [OF chans_okD(3) [OF chans_ok_step [OF ok ev]]] by blast
  show "m \<in> in_transit s \<union> event_messages e"
  proof (cases "bt_get (cs_table s) i")
    case None
    from chan_step_none [OF ok None ch(1)] ch(2) show ?thesis
      by (auto simp: messages_def chan_new_def chan_new_sync_def split: if_splits)
  next
    case (Some c)
    have "chan_event_effect e i c = Some ch" using chan_step_some(1) [OF ok Some, of e] ch(1) by simp
    then have "m \<in> messages c \<union> event_messages e"
      using ch(2) messages_effect by (cases e) (fastforce simp: after_def split: if_splits)+
    with in_transit_get [OF Some] show ?thesis by blast
  qed
qed

section \<open>Authority\<close>

definition msg_authority :: "message \<Rightarrow> (resource_type \<times> u64 \<times> nat) set" where
  "msg_authority m = (\<Union>c \<in> set (msg_caps m). rights_over (tc_type c) (tc_id c) (tc_rights c))"

text \<open>Every right some process holds, could have restored, or has in a message on its way.\<close>

definition proc_authority :: "kstate \<Rightarrow> (resource_type \<times> u64 \<times> nat) set" where
  "proc_authority k = (\<Union>p \<in> set (bt_values (k_procs k)). held (p_caps p))"

fun ipc_authority :: "ipc \<Rightarrow> (resource_type \<times> u64 \<times> nat) set" where
  "ipc_authority (k, s) = proc_authority k \<union> (\<Union>m \<in> in_transit s. msg_authority m)"

definition procs_ok :: "kstate \<Rightarrow> bool" where
  "procs_ok k \<longleftrightarrow> bt_ok (k_procs k) \<and> (\<forall>p \<in> set (bt_values (k_procs k)). table_ok (p_caps p))"

lemma procs_ok_get: "procs_ok k \<Longrightarrow> bt_get (k_procs k) pid = Some p \<Longrightarrow> table_ok (p_caps p)"
  by (auto simp: procs_ok_def dest: bt_get_in_values)

lemma held_proc: "bt_get (k_procs k) pid = Some p \<Longrightarrow> held (p_caps p) \<subseteq> proc_authority k"
  by (auto simp: proc_authority_def dest: bt_get_in_values)

lemma put_proc_values: "set (bt_values (k_procs (put_proc pid q k))) \<subseteq> insert q (set (bt_values (k_procs k)))"
  by (force simp: put_proc_def bt_values_def bt_adjust_def)

lemma put_proc_procs:
  assumes "procs_ok k" and "table_ok (p_caps q)"
  shows "procs_ok (put_proc pid q k)"
    and "proc_authority (put_proc pid q k) \<subseteq> proc_authority k \<union> held (p_caps q)"
proof -
  note vals = put_proc_values [of pid q k]
  have "bt_ok (k_procs (put_proc pid q k))"
    using assms(1) by (simp add: procs_ok_def put_proc_def)
  then show "procs_ok (put_proc pid q k)"
    using assms subsetD [OF vals] by (fastforce simp: procs_ok_def)
  show "proc_authority (put_proc pid q k) \<subseteq> proc_authority k \<union> held (p_caps q)"
    using subsetD [OF vals] by (fastforce simp: proc_authority_def)
qed

lemma audit_procs [simp]:
  "procs_ok (k\<lparr>k_audit := a\<rparr>) = procs_ok k" "proc_authority (k\<lparr>k_audit := a\<rparr>) = proc_authority k"
  by (simp_all add: procs_ok_def proc_authority_def)

lemma insert_loop_held:
  assumes "table_ok t" and "insert_loop es t acc = (t', hs)"
  shows "table_ok t' \<and> held t' \<subseteq> held t \<union> (\<Union>(ty, rid, r) \<in> set es. rights_over ty rid r)"
  using assms
proof (induction es t acc rule: insert_loop.induct)
  case (2 ty rid r es t acc)
  obtain t1 r1 where ins: "ct_insert ty rid r t = (t1, r1)" by fastforce
  have one: "table_ok t1" "held t1 \<subseteq> held t \<union> rights_over ty rid r"
    using table_ok_insert [OF 2(3), of ty rid r NONE] held_insert [of ty rid r NONE t] ins
    by (simp_all add: ct_insert_def rights_over_def bits_NONE)
  show ?case
  proof (cases r1)
    case (Inl e)
    with 2(1) [OF ins [symmetric, unfolded Inl] refl one(1)] 2(4) ins one show ?thesis by auto
  next
    case (Inr h)
    with 2(2) [OF ins [symmetric, unfolded Inr] refl one(1)] 2(4) ins one show ?thesis by auto
  qed
qed auto

lemma remove_loop_ok:
  "table_ok t \<Longrightarrow> remove_loop now pid hs t a acc = (t', a', es) \<Longrightarrow> table_ok t' \<and> held t' \<subseteq> held t"
proof (induction now pid hs t a acc rule: remove_loop.induct)
  case (2 now pid h hs t a acc)
  obtain t1 e where rm: "ct_remove h t = (t1, e)" by fastforce
  have "table_ok t1" "held t1 \<subseteq> held t" using table_ok_remove [OF 2(3), of h] held_remove [of h t] rm by simp_all
  with 2 rm show ?case by (cases e) auto
qed simp

lemma detach_ok:
  assumes "procs_ok k" and "detach_caps now pid handles k = (k', r)"
  shows "procs_ok k' \<and> proc_authority k' \<subseteq> proc_authority k
    \<and> (\<forall>caps. r = Ok caps \<longrightarrow> (\<forall>c \<in> set caps. rights_over (tc_type c) (tc_id c) (tc_rights c) \<subseteq> proc_authority k))"
proof (cases "handles = []")
  case True
  with assms show ?thesis by (auto simp: detach_caps_def)
next
  case False
  show ?thesis
  proof (cases "\<exists>p. bt_get (k_procs k) pid = Some p \<and> validate_caps (p_caps p) handles = Ok ()")
    case no: False
    then show ?thesis
      using assms False by (auto simp: detach_caps_def remove_caps_def split: option.splits sum.splits prod.splits)
  next
    case True
    then obtain p where p: "bt_get (k_procs k) pid = Some p" "validate_caps (p_caps p) handles = Ok ()" by blast
    obtain t a es where loop: "remove_loop now pid handles (p_caps p) (k_audit k) [] = (t, a, es)"
      by (metis prod_cases3)
    note t = procs_ok_get [OF assms(1) p(1)]
    note rem = remove_loop_ok [OF t loop]
    have res: "k' = (put_proc pid (p\<lparr>p_caps := t\<rparr>) k)\<lparr>k_audit := a\<rparr>" "r = Ok (map transferred es)"
      using assms(2) False p loop by (simp_all add: detach_caps_def remove_caps_def)
    have "entry_held e \<subseteq> held (p_caps p) \<and> ce_valid e" if e: "e \<in> set es" for e
    proof -
      obtain h where h: "h \<in> set handles" "bt_get (ct_entries (p_caps p)) h = Some e"
        using remove_loop_spec [OF table_okD(1) [OF t] loop] e by auto
      then have "ce_valid e" using p(2) validate_caps_ok [of "p_caps p" handles] by (auto simp: lookup_some)
      with h(2) show ?thesis by (auto simp: held_def dest: bt_get_in_values)
    qed
    then have "rights_over (ce_type e) (ce_id e) (ce_rights e) \<subseteq> proc_authority k" if "e \<in> set es" for e
      using that held_proc [OF p(1)] by (fastforce simp: entry_held_def rights_over_def)
    then show ?thesis
      using res put_proc_procs [OF assms(1), of "p\<lparr>p_caps := t\<rparr>" pid] rem held_proc [OF p(1)]
      by (auto simp: transferred_def)
  qed
qed

lemma accept_ok:
  assumes "procs_ok k" and "accept_caps pid m k = (k', r)"
  shows "procs_ok k' \<and> proc_authority k' \<subseteq> proc_authority k \<union> msg_authority m"
proof (cases "msg_caps m = [] \<or> bt_get (k_procs k) pid = None")
  case True
  with assms show ?thesis
    by (auto simp: accept_caps_def message_take_caps_def insert_caps_def split: if_splits)
next
  case False
  then obtain p where p: "bt_get (k_procs k) pid = Some p" and caps: "msg_caps m \<noteq> []" by auto
  let ?es = "map (\<lambda>c. (tc_type c, tc_id c, tc_rights c)) (msg_caps m)"
  obtain t hs where ins: "insert_loop ?es (p_caps p) [] = (t, hs)" by fastforce
  have "k' = put_proc pid (p\<lparr>p_caps := t\<rparr>) k"
    using assms(2) caps p ins by (auto simp: accept_caps_def message_take_caps_def insert_caps_def)
  moreover have "(\<Union>(ty, rid, r) \<in> set ?es. rights_over ty rid r) = msg_authority m"
    by (auto simp: msg_authority_def)
  ultimately show ?thesis
    using insert_loop_held [OF procs_ok_get [OF assms(1) p] ins] held_proc [OF p]
      put_proc_procs [OF assms(1), of "p\<lparr>p_caps := t\<rparr>" pid]
    by auto
qed

section \<open>The processes and the channels as one machine\<close>

datatype ipc_event =
    IpcSys u64 id_event
  | IpcChan chan_event
  | IpcSend u64 chan_handle "u8 list" "u64 list" u64
  | IpcRecvTurn task_id chan_handle u64
  | IpcTryRecv chan_handle u64

fun ipc_step :: "ipc_event \<Rightarrow> ipc \<Rightarrow> ipc" where
  "ipc_step (IpcSys pid e) st = (sys_step pid e (fst st), snd st)"
| "ipc_step (IpcChan e) st = (fst st, chan_step e (snd st))"
| "ipc_step (IpcSend now h data handles pid) st = fst (send_with_caps now h data handles pid st)"
| "ipc_step (IpcRecvTurn t h pid) st = fst (recv_with_caps_turn t h pid st)"
| "ipc_step (IpcTryRecv h pid) st = fst (try_recv_with_caps h pid st)"

text \<open>
  What an event brings in: the capabilities inserted in a table from outside, and those of a message
  handed to the plain calls (user space has only the calls above and messages without capabilities).
\<close>

fun ipc_given :: "ipc_event \<Rightarrow> (resource_type \<times> u64 \<times> nat) set" where
  "ipc_given (IpcSys pid e) = ev_given e"
| "ipc_given (IpcChan e) = (\<Union>m \<in> event_messages e. msg_authority m)"
| "ipc_given _ = {}"

fun ipc_event_ok :: "ipc_event \<Rightarrow> ipc \<Rightarrow> bool" where
  "ipc_event_ok (IpcSys pid e) st \<longleftrightarrow> True"
| "ipc_event_ok (IpcChan e) st \<longleftrightarrow> chan_event_ok e (snd st)"
| "ipc_event_ok _ st \<longleftrightarrow> total_ready (snd st) + 1 < 2 ^ 64"

definition ipc_ok :: "ipc \<Rightarrow> bool" where
  "ipc_ok st \<longleftrightarrow> procs_ok (fst st) \<and> chans_ok (snd st)"

lemma sys_step_put:
  assumes "procs_ok k"
  shows "sys_step pid e k
    = (case bt_get (k_procs k) pid of None \<Rightarrow> k | Some p \<Rightarrow> put_proc pid (proc_step e p) k)"
proof -
  have keep: "put_proc pid p k = k" if "bt_get (k_procs k) pid = Some p" for p
    using assms that by (simp add: put_proc_def procs_ok_def bt_adjust_same)
  show ?thesis
    by (cases e) (auto simp: set_id_def set_re_id_def set_res_id_def set_fs_id_def exec_credentials_def
      apply_ids_def update_credentials_def keep split: prod.splits option.splits sum.splits)
qed

lemma sys_step_ok:
  assumes "procs_ok k"
  shows "procs_ok (sys_step pid e k) \<and> proc_authority (sys_step pid e k) \<subseteq> proc_authority k \<union> ev_given e"
proof (cases "bt_get (k_procs k) pid")
  case None
  with assms show ?thesis by (simp add: sys_step_put)
next
  case (Some p)
  note q = proc_step_ok [OF procs_ok_get [OF assms Some], of e]
  show ?thesis
    using put_proc_procs [OF assms q, of pid] proc_step_held [of e p] held_proc [OF Some] assms
    by (auto simp: sys_step_put Some)
qed

lemma chan_op_ok:
  assumes "chans_ok s" and "total_ready s + 1 < 2 ^ 64" and "op \<noteq> OpWake"
  shows "chans_ok (chan_step (ChOn h op) s)"
    and "in_transit (chan_step (ChOn h op) s) \<subseteq> in_transit s \<union> op_messages op"
  using chans_ok_step [OF assms(1), of "ChOn h op"] in_transit_step [OF assms(1), of "ChOn h op"] assms(2,3)
  by simp_all

text \<open>What a receive answers with was in transit.\<close>

lemma try_recv_transit:
  assumes "chans_ok s" and "try_recv h s = (s', w, Inr (Some m))"
  shows "m \<in> in_transit s"
proof (cases "chan_get h s")
  case None
  with assms(2) show ?thesis by (simp add: try_recv_def)
next
  case (Some ch)
  then have "snd (take_message (chan_side h) ch) = Some m"
    using try_recv_eq [OF chans_okD(1,2) [OF assms(1)] Some] assms(2) by (auto split: option.splits if_splits)
  with messages_taken [of "chan_side h" ch] have "m \<in> messages ch" by auto
  moreover have "bt_get (cs_table s) (chan_handle_id h) = Some ch" using Some by (simp add: chan_get_def)
  ultimately show ?thesis using in_transit_get by blast
qed

lemma recv_turn_transit:
  assumes "chans_ok s" and "recv_turn t h s = (s', w, Finished (Inr m))"
  shows "m \<in> in_transit s"
proof -
  obtain s1 w1 where "try_recv h s = (s1, w1, Inr (Some m))"
    using assms(2) by (auto simp: recv_turn_def split: prod.splits sum.splits option.splits)
  with assms(1) show ?thesis by (rule try_recv_transit)
qed

lemma recv_op_state:
  "fst (recv_turn t h s) = chan_step (ChOn h (OpRecvTurn t)) s"
  "fst (try_recv h s) = chan_step (ChOn h OpTryRecv) s"
  "fst (chan_send h m s) = chan_step (ChOn h (OpSend m)) s"
  by (simp_all add: state_woken_def)

definition transit_authority :: "channels \<Rightarrow> (resource_type \<times> u64 \<times> nat) set" where
  "transit_authority s = (\<Union>m \<in> in_transit s. msg_authority m)"

lemma authority_eq: "ipc_authority st = proc_authority (fst st) \<union> transit_authority (snd st)"
  by (cases st) (simp add: transit_authority_def)

lemma transit_mono: "in_transit s' \<subseteq> in_transit s \<union> ms \<Longrightarrow>
    transit_authority s' \<subseteq> transit_authority s \<union> (\<Union>m \<in> ms. msg_authority m)"
  by (auto simp: transit_authority_def)

lemma message_new: "message_from_bytes_and_caps data caps = Ok m \<Longrightarrow> msg_caps m = caps"
  by (auto simp: message_from_bytes_and_caps_def split: if_splits)

definition confined :: "ipc \<Rightarrow> ipc \<Rightarrow> bool" where
  "confined st st' \<longleftrightarrow> ipc_ok st' \<and> ipc_authority st' \<subseteq> ipc_authority st"

lemma send_with_caps_cases:
  assumes "detach_caps now pid handles k = (k1, r)"
  obtains (early) "fst (send_with_caps now h data handles pid (k, s)) \<in> {(k, s), (k1, s)}"
  | (sent) caps m where "r = Ok caps" "message_from_bytes_and_caps data caps = Ok m"
      "fst (send_with_caps now h data handles pid (k, s)) = (k1, fst (chan_send h m s))"
proof (cases r)
  case (Inl e)
  then show thesis using assms by (intro early) (auto simp: send_with_caps_def)
next
  case (Inr caps)
  show thesis
  proof (cases "message_from_bytes_and_caps data caps")
    case (Inl e)
    then show thesis using assms Inr by (intro early) (auto simp: send_with_caps_def)
  next
    case m: (Inr m)
    show thesis
    proof (cases "MAX_CAPS_PER_MESSAGE < length handles \<or> MAX_MESSAGE_SIZE < length data")
      case True
      then show thesis by (intro early) (auto simp: send_with_caps_def)
    next
      case False
      then show thesis
        using assms Inr m by (intro sent) (auto simp: send_with_caps_def split: prod.splits)
    qed
  qed
qed

lemma send_confined:
  assumes "ipc_ok st" and "total_ready (snd st) + 1 < 2 ^ 64"
  shows "confined st (fst (send_with_caps now h data handles pid st))"
proof -
  obtain k s where st: "st = (k, s)" by (cases st)
  obtain k1 r where detach: "detach_caps now pid handles k = (k1, r)" by fastforce
  have ok: "procs_ok k" "chans_ok s" using assms(1) st by (simp_all add: ipc_ok_def)
  note d = detach_ok [OF ok(1) detach]
  then have here: "confined st (k1, s)"
    using st ok by (auto simp: confined_def ipc_ok_def authority_eq)
  consider (early) "fst (send_with_caps now h data handles pid st) \<in> {st, (k1, s)}"
    | (sent) caps m where "r = Ok caps" "message_from_bytes_and_caps data caps = Ok m"
        "fst (send_with_caps now h data handles pid st) = (k1, fst (chan_send h m s))"
    using detach unfolding st by (rule send_with_caps_cases [where h = h and data = data and s = s]) blast+
  then show ?thesis
  proof cases
    case early
    moreover have "confined st st" using assms(1) by (simp add: confined_def)
    ultimately show ?thesis using here by (elim insertE) simp_all
  next
    case sent
    have "msg_authority m \<subseteq> proc_authority k"
      using d sent(1) message_new [OF sent(2)] by (auto simp: msg_authority_def)
    moreover note chan_op_ok [OF ok(2), of "OpSend m" h]
    ultimately show ?thesis
      using here assms(2) transit_mono [of "fst (chan_send h m s)" s "{m}"]
      unfolding sent(3) recv_op_state by (auto simp: confined_def ipc_ok_def authority_eq st)
  qed
qed

lemma accept_confined:
  assumes "procs_ok k" and "chans_ok s'" and "in_transit s' \<subseteq> in_transit s" and "m \<in> in_transit s"
  shows "confined (k, s) (fst (accept_caps pid m k), s')"
proof -
  obtain k' r where a: "accept_caps pid m k = (k', r)" by fastforce
  have "msg_authority m \<subseteq> transit_authority s" using assms(4) by (auto simp: transit_authority_def)
  then show ?thesis
    using accept_ok [OF assms(1) a] assms(2) transit_mono [of s' s "{}"] assms(3)
    by (auto simp: confined_def ipc_ok_def authority_eq a)
qed

lemma recv_confined:
  assumes "ipc_ok st" and "total_ready (snd st) + 1 < 2 ^ 64"
  shows "confined st (fst (recv_with_caps_turn t h pid st))" (is ?blocking)
    and "confined st (fst (try_recv_with_caps h pid st))" (is ?polling)
proof -
  obtain k s where st: "st = (k, s)" by (cases st)
  have ok: "procs_ok k" "chans_ok s" using assms(1) st by (simp_all add: ipc_ok_def)
  have small: "total_ready s + 1 < 2 ^ 64" using assms(2) st by simp
  have quiet: "confined st (k, s')" if "chans_ok s'" "in_transit s' \<subseteq> in_transit s" for s'
    using that transit_mono [of s' s "{}"] ok st by (auto simp: confined_def ipc_ok_def authority_eq)
  have accepted: "confined st (k', s')"
    if "chans_ok s'" "in_transit s' \<subseteq> in_transit s" "accept_caps pid m k = (k', r)" "m \<in> in_transit s"
    for s' m k' r
    using accept_confined [OF ok(1) that(1,2,4), of pid] that(3) st by simp
  note op = chan_op_ok [OF ok(2) small, where h = h]
  obtain s1 w r where recv: "recv_turn t h s = (s1, w, r)" by (metis prod_cases3)
  have s1: "chans_ok s1" "in_transit s1 \<subseteq> in_transit s"
    using op [of "OpRecvTurn t"] recv by (simp_all add: state_woken_def)
  show ?blocking
    using recv_turn_transit [OF ok(2)] recv quiet [OF s1] accepted [OF s1]
    by (auto simp: recv_with_caps_turn_def st split: turn.splits sum.splits prod.splits)
  obtain s2 w r where poll: "try_recv h s = (s2, w, r)" by (metis prod_cases3)
  have s2: "chans_ok s2" "in_transit s2 \<subseteq> in_transit s"
    using op [of OpTryRecv] poll by (simp_all add: state_woken_def)
  show ?polling
    using try_recv_transit [OF ok(2)] poll quiet [OF s2] accepted [OF s2]
    by (auto simp: try_recv_with_caps_def st split: option.splits sum.splits prod.splits)
qed

locale guarded_authority = guarded_machine step ok inv
  for step :: "'e \<Rightarrow> 's \<Rightarrow> 's" and ok :: "'e \<Rightarrow> 's \<Rightarrow> bool" and inv :: "'s \<Rightarrow> bool" +
  fixes auth :: "'s \<Rightarrow> 'a set"
    and given :: "'e \<Rightarrow> 'a set"
  assumes auth_step: "inv s \<Longrightarrow> ok e s \<Longrightarrow> auth (step e s) \<subseteq> auth s \<union> given e"
begin

lemma auth_run:
  "inv s \<Longrightarrow> run_ok ok step es s \<Longrightarrow> auth (fold step es s) \<subseteq> auth s \<union> (\<Union>e \<in> set es. given e)"
proof (induction es arbitrary: s)
  case Nil
  then show ?case by simp
next
  case (Cons e es)
  then have "auth (fold step es (step e s)) \<subseteq> auth (step e s) \<union> (\<Union>e \<in> set es. given e)"
    by (intro Cons.IH inv_step) simp_all
  with auth_step [of s e] Cons.prems show ?case by auto
qed

end

interpretation ipc: guarded_authority ipc_step ipc_event_ok ipc_ok ipc_authority ipc_given
proof
  fix e st assume ok: "ipc_ok st" "ipc_event_ok e st"
  have "ipc_ok (ipc_step e st) \<and> ipc_authority (ipc_step e st) \<subseteq> ipc_authority st \<union> ipc_given e"
  proof (cases e)
    case (IpcSys pid ev)
    with ok sys_step_ok [of "fst st" pid ev] show ?thesis by (auto simp: ipc_ok_def authority_eq)
  next
    case (IpcChan ev)
    with ok transit_mono [OF in_transit_step [of "snd st" ev]] show ?thesis
      by (auto simp: ipc_ok_def authority_eq chans_ok_step)
  next
    case (IpcSend now h data handles pid)
    with ok send_confined [of st now h data handles pid] show ?thesis by (simp add: confined_def)
  next
    case (IpcRecvTurn t h pid)
    with ok recv_confined(1) [of st t h pid] show ?thesis by (simp add: confined_def)
  next
    case (IpcTryRecv h pid)
    with ok recv_confined(2) [of st h pid] show ?thesis by (simp add: confined_def)
  qed
  then show "ipc_ok (ipc_step e st)" "ipc_authority (ipc_step e st) \<subseteq> ipc_authority st \<union> ipc_given e" by blast+
qed

text \<open>
  C5: Sending capabilities makes none: whatever processes and channels do, in any order, every right
  over a resource that a process holds or has put aside, or that a message carries, was there before
  or was inserted in a table from outside the calls.
\<close>

theorem message_authority_confined:
  assumes "ipc_ok st" and "run_ok ipc_event_ok ipc_step es st"
  shows "ipc_authority (fold ipc_step es st) \<subseteq> ipc_authority st \<union> (\<Union>e \<in> set es. ipc_given e)"
  using assms by (rule ipc.auth_run)

definition ipc_example :: ipc where
  "ipc_example = (sample_kernel, \<lparr>cs_next = 6, cs_table = [(5, chan_new)], cs_ready = 0, cs_waking = []\<rparr>)"

definition ipc_example_run :: "ipc_event list" where
  "ipc_example_run = [IpcSend 0 11 [1] [2] 5, IpcSys 5 (EvCap (OpRevoke 1))]"

lemma new_channel_ok: "chans_ok \<lparr>cs_next = 6, cs_table = [(5, chan_new)], cs_ready = 0, cs_waking = []\<rparr>"
  by (auto simp: chans_ok_def tidy_def count_exact_def total_ready_def bt_get_def bt_ok_def
      bt_values_def gone_def chan_new_def ready_count_def ws_count_def chan_ok_def side_simps
      MAX_QUEUE_DEPTH_def at2_def split: if_splits)

lemma ipc_example_ok: "ipc_ok ipc_example"
  by (simp add: ipc_ok_def ipc_example_def new_channel_ok procs_ok_def sample_kernel_def bt_ok_def bt_values_def
      sample_proc_def table_ok_sample)

theorem message_authority_confined_witness:
  "ipc_authority (fold ipc_step ipc_example_run ipc_example) \<subseteq> ipc_authority ipc_example"
proof -
  have "run_ok ipc_event_ok ipc_step ipc_example_run ipc_example"
    by (simp add: ipc_example_run_def ipc_example_def total_ready_def bt_values_def ready_count_def ws_count_def chan_new_def)
  from message_authority_confined [OF ipc_example_ok this] show ?thesis
    by (simp add: ipc_example_run_def)
qed

section \<open>A send that fails\<close>

lemma remove_loop_length: "remove_loop now pid hs t a acc = (t', a', es) \<Longrightarrow> length es \<le> length acc + length hs"
  by (induction now pid hs t a acc rule: remove_loop.induct) (fastforce split: prod.splits option.splits)+

lemma remove_loop_next: "remove_loop now pid hs t a acc = (t', a', es) \<Longrightarrow> ct_next t' = ct_next t"
proof (induction now pid hs t a acc rule: remove_loop.induct)
  case (2 now pid h hs t a acc)
  obtain t1 e where rm: "ct_remove h t = (t1, e)" by fastforce
  then have "ct_next t1 = ct_next t" by (auto simp: ct_remove_def)
  with 2 rm show ?case by (cases e) auto
qed simp

text \<open>The sender's record with the handles gone from its table and all else as it was.\<close>

definition without_caps :: "u64 list \<Rightarrow> pcb \<Rightarrow> pcb \<Rightarrow> bool" where
  "without_caps handles p p' \<longleftrightarrow> p_cred p' = p_cred p \<and> ct_next (p_caps p') = ct_next (p_caps p)
     \<and> (\<forall>j. bt_get (ct_entries (p_caps p')) j
          = (if j \<in> set handles then None else bt_get (ct_entries (p_caps p)) j))"

lemma detach_removes:
  assumes "bt_get (k_procs k) pid = Some p" and "table_ok (p_caps p)" and "handles \<noteq> []"
    and "validate_caps (p_caps p) handles = Ok ()"
  obtains caps t a where "detach_caps now pid handles k = ((put_proc pid (p\<lparr>p_caps := t\<rparr>) k)\<lparr>k_audit := a\<rparr>, Ok caps)"
    and "without_caps handles p (p\<lparr>p_caps := t\<rparr>)" and "length caps \<le> length handles"
proof -
  obtain t a es where loop: "remove_loop now pid handles (p_caps p) (k_audit k) [] = (t, a, es)"
    by (metis prod_cases3)
  have "detach_caps now pid handles k
      = ((put_proc pid (p\<lparr>p_caps := t\<rparr>) k)\<lparr>k_audit := a\<rparr>, Ok (map transferred es))"
    using assms loop by (simp add: detach_caps_def remove_caps_def)
  moreover have "without_caps handles p (p\<lparr>p_caps := t\<rparr>)"
    using remove_loop_spec [OF table_okD(1) [OF assms(2)] loop] remove_loop_next [OF loop]
    by (simp add: without_caps_def)
  moreover have "length (map transferred es) \<le> length handles"
    using remove_loop_length [OF loop] by simp
  ultimately show thesis by (rule that)
qed

lemma refused_send:
  assumes "chan_get h s = Some ch" and "ends_closed (chan_side h) ch \<or> \<not> has_room (chan_side h) ch"
  shows "chan_send h m s = (s, [], Err (if ends_closed (chan_side h) ch then ChannelClosed else ChannelFull))"
  using assms by (auto simp: chan_send_def send_or_return_def)

text \<open>
  C30: A send with capabilities that fails destroys them. When the handles all name capabilities of
  the sender and the message is within the limits, but the queue is full or an end closed, the
  capabilities have left the sender's table before the channel refuses: the call returns the error
  and wakes nobody; the sender's table is what it was less exactly the given handles, with no entry
  under any other handle added or changed; and no other process and no channel has changed. So the
  capabilities are neither with the sender, under old handles or new, nor with anyone else, nor in a message.
\<close>

theorem failed_send_destroys_caps:
  assumes p: "bt_get (k_procs k) pid = Some p" "table_ok (p_caps p)"
    and handles: "handles \<noteq> []" "length handles \<le> MAX_CAPS_PER_MESSAGE" "validate_caps (p_caps p) handles = Ok ()"
    and data: "length data \<le> MAX_MESSAGE_SIZE"
    and ch: "chan_get h s = Some ch" "ends_closed (chan_side h) ch \<or> \<not> has_room (chan_side h) ch"
  shows "\<exists>k' p'. send_with_caps now h data handles pid (k, s)
      = ((k', s), [], Err (if ends_closed (chan_side h) ch then ChannelClosed else ChannelFull))
    \<and> bt_get (k_procs k') pid = Some p' \<and> (\<forall>c \<in> set handles. ct_lookup (p_caps p') c = Err InvalidCapability)
    \<and> without_caps handles p p'
    \<and> (\<forall>j. j \<noteq> pid \<longrightarrow> bt_get (k_procs k') j = bt_get (k_procs k) j)"
proof -
  obtain caps t a where d: "detach_caps now pid handles k = ((put_proc pid (p\<lparr>p_caps := t\<rparr>) k)\<lparr>k_audit := a\<rparr>, Ok caps)"
    and t: "without_caps handles p (p\<lparr>p_caps := t\<rparr>)" and len: "length caps \<le> length handles"
    using detach_removes [OF p handles(1,3), of now] by metis
  have "\<forall>c \<in> set handles. ct_lookup t c = Err InvalidCapability"
    using t by (simp add: without_caps_def ct_lookup_def)
  with d t p(1) len handles(2) data refused_send [OF ch] show ?thesis
    by (simp add: send_with_caps_def message_from_bytes_and_caps_def)
qed

definition full_example :: channels where
  "full_example = \<lparr>cs_next = 6, cs_table = [(5, chan_new
     \<lparr>ch_queues := ([], replicate 64 \<lparr>msg_data = [], msg_caps = []\<rparr>)\<rparr>)], cs_ready = 0, cs_waking = []\<rparr>"

theorem failed_send_destroys_caps_witness:
  "\<exists>k' p'. send_with_caps 0 10 [1] [2] 5 (sample_kernel, full_example) = ((k', full_example), [], Err ChannelFull)
    \<and> bt_get (k_procs k') 5 = Some p' \<and> ct_lookup (p_caps p') 2 = Err InvalidCapability"
proof -
  let ?ch = "chan_new\<lparr>ch_queues := ([], replicate 64 \<lparr>msg_data = [], msg_caps = []\<rparr>)\<rparr>"
  have side: "chan_handle_id 10 = 5" "chan_side 10 = 0" by (simp_all add: chan_handle_id_def chan_side_def)
  have valid: "validate_caps (p_caps sample_proc) [2] = Ok ()"
    by (simp add: sample_proc_def sample_entries ct_lookup_def bt_get_def)
  have table: "table_ok (p_caps sample_proc)" by (simp add: sample_proc_def table_ok_sample)
  have "chan_get 10 full_example = Some ?ch"
    by (simp add: full_example_def chan_get_def bt_get_def side)
  moreover have "\<not> has_room (chan_side 10) ?ch" "\<not> ends_closed (chan_side 10) ?ch"
    by (simp_all add: side has_room_def ends_closed_def at2_def other_def chan_new_def MAX_QUEUE_DEPTH_def)
  ultimately show ?thesis
    using failed_send_destroys_caps [OF sample_kernel_get table _ _ valid, of "[1]" 10 full_example ?ch 0]
    by (fastforce simp: MAX_CAPS_PER_MESSAGE_def MAX_MESSAGE_SIZE_def)
qed

end
