(* ===== verification/IpcSemaphore.thy ===== *)
theory IpcSemaphore imports Waiters OrdMap Streams begin

text \<open>
  Counting semaphores for user space (\<^verbatim>\<open>kernel/src/ipc/semaphore.rs\<close>). A signal gives its units to the
  waiters in batches, letting the table's lock go between them; a blocked wait is a turn before its
  park and one after each. A turn is one hold of the lock, and the tasks it wakes are an output.
\<close>

section \<open>State\<close>

definition DEFAULT_MAX_COUNT :: nat where "DEFAULT_MAX_COUNT = u64_max div 2"
definition MAX_WAITERS :: nat where "MAX_WAITERS = 256"
definition WAKE_BATCH :: nat where "WAKE_BATCH = 16"

record ipc_sem =
  sm_count :: nat
  sm_granting :: nat
  sm_max :: nat
  sm_waiters :: "task_id list"
  sm_closed :: bool

definition sem_new :: "nat \<Rightarrow> nat \<Rightarrow> ipc_sem" where
  "sem_new initial mx = \<lparr>sm_count = min initial mx, sm_granting = 0, sm_max = mx, sm_waiters = [], sm_closed = False\<rparr>"

record sems =
  sp_table :: "(u64, ipc_sem) btree"
  sp_next :: u64

definition sem_get :: "u64 \<Rightarrow> sems \<Rightarrow> ipc_sem option" where
  "sem_get h s = bt_get (sp_table s) h"

definition sem_put :: "u64 \<Rightarrow> ipc_sem \<Rightarrow> sems \<Rightarrow> sems" where
  "sem_put h sem s = s\<lparr>sp_table := bt_adjust h (\<lambda>_. sem) (sp_table s)\<rparr>"

definition alloc_sem_id :: "sems \<Rightarrow> sems \<times> u64" where
  "alloc_sem_id s = (s\<lparr>sp_next := sp_next s + 1\<rparr>, sp_next s)"

section \<open>Creating and signalling\<close>

definition sem_create :: "nat \<Rightarrow> nat \<Rightarrow> sems \<Rightarrow> sems \<times> u64" where
  "sem_create initial max_count s =
     (let mx = (if max_count = 0 then DEFAULT_MAX_COUNT else max_count)
      in case alloc_sem_id s of
           (s, i) \<Rightarrow> (s\<lparr>sp_table := bt_insert i (sem_new initial mx) (sp_table s)\<rparr>, i))"

fun grant_loop :: "nat \<Rightarrow> ipc_sem \<Rightarrow> nat \<Rightarrow> ipc_sem \<times> nat \<times> task_id list" where
  "grant_loop 0 sem left = (sem, left, [])"
| "grant_loop (Suc slots) sem left =
     (if left = 0 then (sem, left, [])
      else (case sm_waiters sem of
              [] \<Rightarrow> (sem, left, [])
            | t # ts \<Rightarrow>
                (case grant_loop slots (sem\<lparr>sm_waiters := ts, sm_granting := sm_granting sem - 1\<rparr>) (left - 1) of
                   (sem, left, wake) \<Rightarrow> (sem, left, t # wake))))"

definition grant_batch :: "ipc_sem \<Rightarrow> nat \<Rightarrow> ipc_sem \<times> nat \<times> task_id list" where
  "grant_batch sem left =
     (case grant_loop WAKE_BATCH sem left of
        (sem, left, wake) \<Rightarrow>
          if sm_waiters sem = []
          then (sem\<lparr>sm_granting := sm_granting sem - left, sm_count := sat_add64 (sm_count sem) left\<rparr>, 0, wake)
          else (sem, left, wake))"

text \<open>
  A turn of \<^verbatim>\<open>signal\<close>'s loop: \<open>left\<close> of its \<open>n\<close> units are still to give, \<open>accepted\<close> after the first turn.
  \<open>Again\<close> is another turn with what is left.
\<close>

definition signal_turn :: "u64 \<Rightarrow> nat \<Rightarrow> nat \<Rightarrow> bool \<Rightarrow> sems \<Rightarrow> sems \<times> nat \<times> task_id list \<times> unit kernel_result turn" where
  "signal_turn h n left accepted s =
     (case sem_get h s of
        None \<Rightarrow> (s, left, [], Finished (if accepted then Ok () else Err InvalidHandle))
      | Some sem \<Rightarrow>
          if \<not> accepted \<and> sm_closed sem then (s, left, [], Finished (Err ChannelClosed))
          else if \<not> accepted \<and> sm_max sem - sat_add64 (sm_count sem) (sm_granting sem) < n
          then (s, left, [], Finished (Err Overflow))
          else let sem = (if accepted then sem else sem\<lparr>sm_granting := sat_add64 (sm_granting sem) n\<rparr>)
               in (case grant_batch sem left of
                     (sem, left, wake) \<Rightarrow>
                       (sem_put h sem s, left, wake, if left = 0 then Finished (Ok ()) else Again)))"

definition sem_signal :: "u64 \<Rightarrow> nat \<Rightarrow> sems \<Rightarrow> sems \<times> nat \<times> task_id list \<times> unit kernel_result turn" where
  "sem_signal h n s = (if n = 0 then (s, 0, [], Finished (Ok ())) else signal_turn h n n False s)"

section \<open>Waiting\<close>

definition take_unit :: "ipc_sem \<Rightarrow> ipc_sem" where
  "take_unit sem = sem\<lparr>sm_count := sm_count sem - 1\<rparr>"

text \<open>\<^verbatim>\<open>wait\<close>, up to its park.\<close>

definition wait_turn :: "u64 \<Rightarrow> task_id \<Rightarrow> sems \<Rightarrow> sems \<times> unit kernel_result turn" where
  "wait_turn h me s =
     (case sem_get h s of
        None \<Rightarrow> (s, Finished (Err InvalidHandle))
      | Some sem \<Rightarrow>
          if 0 < sm_count sem then (sem_put h (take_unit sem) s, Finished (Ok ()))
          else if sm_closed sem then (s, Finished (Err ChannelClosed))
          else if MAX_WAITERS \<le> length (sm_waiters sem) then (s, Finished (Err WouldBlock))
          else (sem_put h (sem\<lparr>sm_waiters := sm_waiters sem @ [me]\<rparr>) s, Parked))"

definition holds_unit_after_park :: "ipc_sem \<Rightarrow> task_id \<Rightarrow> bool" where
  "holds_unit_after_park sem me \<longleftrightarrow> me \<notin> set (sm_waiters sem)"

text \<open>\<^verbatim>\<open>wait\<close>, when a park has ended.\<close>

definition woken_turn :: "u64 \<Rightarrow> task_id \<Rightarrow> sems \<Rightarrow> unit kernel_result turn" where
  "woken_turn h me s =
     (case sem_get h s of
        None \<Rightarrow> Finished (Err ChannelClosed)
      | Some sem \<Rightarrow>
          if sm_closed sem then Finished (Err ChannelClosed)
          else if holds_unit_after_park sem me then Finished (Ok ()) else Parked)"

definition sem_try_wait :: "u64 \<Rightarrow> sems \<Rightarrow> sems \<times> unit kernel_result" where
  "sem_try_wait h s =
     (case sem_get h s of
        None \<Rightarrow> (s, Err InvalidHandle)
      | Some sem \<Rightarrow>
          if 0 < sm_count sem then (sem_put h (take_unit sem) s, Ok ())
          else if sm_closed sem then (s, Err ChannelClosed) else (s, Err WouldBlock))"

text \<open>\<^verbatim>\<open>wait_timeout\<close> before its timer is armed; \<open>Again\<close> is to go on to the loop.\<close>

definition timed_start :: "u64 \<Rightarrow> nat \<Rightarrow> sems \<Rightarrow> sems \<times> unit kernel_result turn" where
  "timed_start h timeout_ns s =
     (case sem_get h s of
        None \<Rightarrow> (s, Finished (Err InvalidHandle))
      | Some sem \<Rightarrow>
          if 0 < sm_count sem then (sem_put h (take_unit sem) s, Finished (Ok ()))
          else if sm_closed sem then (s, Finished (Err ChannelClosed))
          else (s, if timeout_ns = 0 then Finished (Err TimedOut) else Again))"

text \<open>
  A pass of its loop; \<open>expired\<close> says that the timer has fired or the clock is past the deadline. The
  first occurrence of the task is taken off the queue. Parked is parked with \<open>queued\<close> true.
\<close>

definition timed_turn :: "u64 \<Rightarrow> task_id \<Rightarrow> bool \<Rightarrow> bool \<Rightarrow> sems \<Rightarrow> sems \<times> unit kernel_result turn" where
  "timed_turn h me queued expired s =
     (case sem_get h s of
        None \<Rightarrow> (s, Finished (Err ChannelClosed))
      | Some sem \<Rightarrow>
          if sm_closed sem then (s, Finished (Err ChannelClosed))
          else if queued \<and> holds_unit_after_park sem me then (s, Finished (Ok ()))
          else if \<not> queued \<and> 0 < sm_count sem then (sem_put h (take_unit sem) s, Finished (Ok ()))
          else if expired then (sem_put h (sem\<lparr>sm_waiters := remove1 me (sm_waiters sem)\<rparr>) s, Finished (Err TimedOut))
          else if \<not> queued \<and> MAX_WAITERS \<le> length (sm_waiters sem) then (s, Finished (Err WouldBlock))
          else (if queued then s else sem_put h (sem\<lparr>sm_waiters := sm_waiters sem @ [me]\<rparr>) s, Parked))"

section \<open>Asking and closing\<close>

definition sem_count :: "u64 \<Rightarrow> sems \<Rightarrow> nat kernel_result" where
  "sem_count h s = (case sem_get h s of None \<Rightarrow> Err InvalidHandle | Some sem \<Rightarrow> Ok (sm_count sem))"

definition sem_close :: "u64 \<Rightarrow> sems \<Rightarrow> sems \<times> task_id list" where
  "sem_close h s =
     (case sem_get h s of
        None \<Rightarrow> (s, [])
      | Some sem \<Rightarrow> (s\<lparr>sp_table := bt_remove h (sp_table s)\<rparr>, sm_waiters sem))"

definition sem_has_value :: "u64 \<Rightarrow> sems \<Rightarrow> bool" where
  "sem_has_value h s = (case sem_get h s of None \<Rightarrow> False | Some sem \<Rightarrow> 0 < sm_count sem \<or> sm_closed sem)"

section \<open>Granting a batch\<close>

lemma grant_loop_effect:
  "grant_loop k sem left = (sem', left', wake) \<Longrightarrow> left \<le> sm_granting sem \<Longrightarrow>
    sm_waiters sem = wake @ sm_waiters sem' \<and> left = left' + length wake \<and> sm_granting sem = sm_granting sem' + length wake
    \<and> sm_count sem' = sm_count sem \<and> sm_max sem' = sm_max sem \<and> sm_closed sem' = sm_closed sem"
proof (induction k arbitrary: sem left wake)
  case (Suc k)
  show ?case
  proof (cases "left = 0 \<or> sm_waiters sem = []")
    case True
    then show ?thesis using Suc.prems by (cases "left = 0") auto
  next
    case False
    then obtain t ts where ts: "sm_waiters sem = t # ts" by (cases "sm_waiters sem") auto
    obtain w where run: "grant_loop k (sem\<lparr>sm_waiters := ts, sm_granting := sm_granting sem - 1\<rparr>) (left - 1) = (sem', left', w)"
      and wake: "wake = t # w"
      using Suc.prems(1) False ts by (auto split: prod.splits)
    show ?thesis using Suc.IH [OF run] Suc.prems(2) False ts wake by auto
  qed
qed simp

lemma grant_batch_effect:
  assumes "grant_batch sem left = (sem', left', wake)" and "left \<le> sm_granting sem"
    and "sm_count sem + sm_granting sem \<le> u64_max" and "0 < sm_count sem \<Longrightarrow> sm_waiters sem = []"
  shows "sm_waiters sem = wake @ sm_waiters sem'" and "sm_granting sem' + left = sm_granting sem + left'"
    and "sm_count sem' + sm_granting sem' + length wake = sm_count sem + sm_granting sem"
    and "sm_max sem' = sm_max sem" "sm_closed sem' = sm_closed sem" and "0 < sm_count sem' \<Longrightarrow> sm_waiters sem' = []"
proof -
  obtain x l where loop: "grant_loop WAKE_BATCH sem left = (x, l, wake)"
    and rest: "(if sm_waiters x = [] then (x\<lparr>sm_granting := sm_granting x - l, sm_count := sat_add64 (sm_count x) l\<rparr>, 0) else (x, l))
      = (sem', left')"
    using assms(1) by (auto simp: grant_batch_def split: prod.splits if_splits)
  note eff = grant_loop_effect [OF loop assms(2)]
  have "sat_add64 (sm_count x) l = sm_count x + l" using eff assms(2,3) by (intro sat_add64_exact) linarith
  then show "sm_waiters sem = wake @ sm_waiters sem'" and "sm_granting sem' + left = sm_granting sem + left'"
    and "sm_count sem' + sm_granting sem' + length wake = sm_count sem + sm_granting sem"
    and "sm_max sem' = sm_max sem" "sm_closed sem' = sm_closed sem" and "0 < sm_count sem' \<Longrightarrow> sm_waiters sem' = []"
    using rest eff assms(2,4) by (auto split: if_splits)
qed

section \<open>Calls in progress and the invariant\<close>

text \<open>The signals between two batches, with their semaphore and what is left to give.\<close>

type_synonym sem_sys = "sems \<times> (u64 \<times> nat) multiset"

datatype sem_event =
    SmCreate nat nat
  | SmSignal u64 nat
  | SmMore u64 nat
  | SmWait u64 task_id
  | SmTry u64
  | SmTimedStart u64 nat
  | SmTimed u64 task_id bool bool
  | SmClose u64

definition to_give :: "u64 \<Rightarrow> (u64 \<times> nat) multiset \<Rightarrow> nat" where
  "to_give h C = (\<Sum>x \<in># filter_mset (\<lambda>x. fst x = h) C. snd x)"

definition go_on :: "u64 \<Rightarrow> nat \<Rightarrow> 'r turn \<Rightarrow> (u64 \<times> nat) multiset \<Rightarrow> (u64 \<times> nat) multiset" where
  "go_on h left r C = (case r of Again \<Rightarrow> add_mset (h, left) C | _ \<Rightarrow> C)"

fun sem_step :: "sem_event \<Rightarrow> sem_sys \<Rightarrow> sem_sys" where
  "sem_step (SmCreate i m) (s, C) = (fst (sem_create i m s), C)"
| "sem_step (SmSignal h n) (s, C) = (case sem_signal h n s of (s, left, _, r) \<Rightarrow> (s, go_on h left r C))"
| "sem_step (SmMore h left) (s, C) =
     (case signal_turn h left left True s of (s, l, _, r) \<Rightarrow> (s, go_on h l r (C - {#(h, left)#})))"
| "sem_step (SmWait h t) (s, C) = (fst (wait_turn h t s), C)"
| "sem_step (SmTry h) (s, C) = (fst (sem_try_wait h s), C)"
| "sem_step (SmTimedStart h ns) (s, C) = (fst (timed_start h ns s), C)"
| "sem_step (SmTimed h t q e) (s, C) = (fst (timed_turn h t q e s), C)"
| "sem_step (SmClose h) (s, C) = (fst (sem_close h s), C)"

definition sem_queue :: "u64 \<Rightarrow> sem_sys \<Rightarrow> task_id list" where
  "sem_queue h s = (case sem_get h (fst s) of None \<Rightarrow> [] | Some sem \<Rightarrow> sm_waiters sem)"

text \<open>
  What callers can do: 64-bit numbers, handles not used up, a call goes on only where one is in
  progress, and a task that begins to wait is not waiting already.
\<close>

fun sem_event_ok :: "sem_event \<Rightarrow> sem_sys \<Rightarrow> bool" where
  "sem_event_ok (SmCreate i m) s \<longleftrightarrow> unat (sp_next (fst s)) + 1 < 2 ^ 64 \<and> m \<le> u64_max"
| "sem_event_ok (SmMore h left) s \<longleftrightarrow> (h, left) \<in># snd s"
| "sem_event_ok (SmWait h t) s \<longleftrightarrow> t \<notin> set (sem_queue h s)"
| "sem_event_ok (SmTimed h t q e) s \<longleftrightarrow> q \<or> t \<notin> set (sem_queue h s)"
| "sem_event_ok _ s \<longleftrightarrow> True"

definition sem_ok :: "nat \<Rightarrow> ipc_sem \<Rightarrow> bool" where
  "sem_ok giving sem \<longleftrightarrow> sm_count sem + sm_granting sem \<le> sm_max sem \<and> sm_max sem \<le> u64_max
     \<and> (0 < sm_count sem \<longrightarrow> sm_waiters sem = []) \<and> distinct (sm_waiters sem) \<and> length (sm_waiters sem) \<le> MAX_WAITERS
     \<and> \<not> sm_closed sem \<and> sm_granting sem = giving"

fun sems_ok :: "sem_sys \<Rightarrow> bool" where
  "sems_ok (s, C) \<longleftrightarrow> bt_ok (sp_table s) \<and> (\<forall>(h, l) \<in># C. h < sp_next s)
     \<and> (\<forall>h sem. sem_get h s = Some sem \<longrightarrow> h < sp_next s \<and> sem_ok (to_give h C) sem)"

lemma sems_okD: "sems_ok s \<Longrightarrow> sem_get h (fst s) = Some sem \<Longrightarrow> sem_ok (to_give h (snd s)) sem"
  by (cases s) simp

lemma sem_queueD: "t \<in> set (sem_queue h s) \<Longrightarrow> \<exists>sem. sem_get h (fst s) = Some sem \<and> t \<in> set (sm_waiters sem)"
  by (cases "sem_get h (fst s)") (simp_all add: sem_queue_def)

lemma to_give_simps [simp]:
  "to_give h {#} = 0" "to_give h (add_mset x C) = (if fst x = h then snd x else 0) + to_give h C"
  by (simp_all add: to_give_def)

lemma to_give_none: "\<forall>x \<in># C. fst x \<noteq> h \<Longrightarrow> to_give h C = 0"
  by (induction C) auto

lemma to_give_minus: "x \<in># C \<Longrightarrow> to_give h C = (if fst x = h then snd x else 0) + to_give h (C - {#x#})"
  by (metis insert_DiffM to_give_simps(2))

lemma sem_get_put [simp]:
  "sem_get h s = Some sem \<Longrightarrow> sem_get j (sem_put h x s) = (if j = h then Some x else sem_get j s)"
  "sp_next (sem_put h x s) = sp_next s" "bt_ok (sp_table (sem_put h x s)) = bt_ok (sp_table s)"
  by (auto simp: sem_get_def sem_put_def)

lemma put_keeps_ok:
  assumes "sems_ok (s, C)" and "sem_get h s = Some sem" and "sem_ok (to_give h C') sem'"
    and "\<And>j. j \<noteq> h \<Longrightarrow> to_give j C' = to_give j C" and "\<forall>(j, l) \<in># C'. j < sp_next s"
  shows "sems_ok (sem_put h sem' s, C')"
  using assms by auto

lemma take_unit_ok: "sem_ok g sem \<Longrightarrow> sem_ok g (take_unit sem)"
  by (auto simp: sem_ok_def take_unit_def)

text \<open>A batch granted out of what is being given.\<close>

lemma batch_ok:
  assumes "sem_ok g sem" and "grant_batch sem left = (sem', left', wake)" and "left \<le> g"
  shows "sem_ok (g - left + left') sem'" and "sm_waiters sem = wake @ sm_waiters sem'"
    and "sm_count sem' + sm_granting sem' + length wake = sm_count sem + sm_granting sem"
proof -
  have s: "left \<le> sm_granting sem" "sm_count sem + sm_granting sem \<le> u64_max" "0 < sm_count sem \<Longrightarrow> sm_waiters sem = []"
    using assms(1,3) by (auto simp: sem_ok_def)
  note eff = grant_batch_effect [OF assms(2) s]
  show "sem_ok (g - left + left') sem'" using eff assms(1,3) by (auto simp: sem_ok_def)
  show "sm_waiters sem = wake @ sm_waiters sem'"
    and "sm_count sem' + sm_granting sem' + length wake = sm_count sem + sm_granting sem" using eff by blast+
qed

section \<open>What each turn does\<close>

definition units :: "u64 \<Rightarrow> sems \<Rightarrow> nat" where
  "units h s = (case sem_get h s of None \<Rightarrow> 0 | Some sem \<Rightarrow> sm_count sem + sm_granting sem)"

fun refused :: "unit kernel_result turn \<Rightarrow> bool" where
  "refused (Finished (Inl e)) \<longleftrightarrow> True"
| "refused _ \<longleftrightarrow> False"

definition calls_after :: "u64 \<Rightarrow> nat \<Rightarrow> bool \<Rightarrow> nat \<Rightarrow> unit kernel_result turn \<Rightarrow> (u64 \<times> nat) multiset \<Rightarrow> (u64 \<times> nat) multiset" where
  "calls_after h left accepted l r C = go_on h l r (if accepted then C - {#(h, left)#} else C)"

lemma signal_turn_ok:
  assumes ok: "sems_ok (s, C)" and run: "signal_turn h n left accepted s = (s', l, w, r)"
    and call: "if accepted then (h, left) \<in># C else left = n"
  shows "sems_ok (s', calls_after h left accepted l r C)"
    and "units h s' + length w = units h s + (if accepted \<or> refused r then 0 else n)"
    and "j \<noteq> h \<Longrightarrow> sem_get j s' = sem_get j s" and "sem_queue h (s, C) = w @ sem_queue h (s', C')"
proof -
  have ids: "\<forall>(i, m) \<in># C. i < sp_next s" and tables: "bt_ok (sp_table s)" using ok by auto
  have fewer: "\<forall>(i, m) \<in># D. i < sp_next s" if "set_mset D \<subseteq> insert (h, l) (set_mset C)" "h < sp_next s" for D
    using that ids by auto
  have "sems_ok (s', calls_after h left accepted l r C) \<and> units h s' + length w = units h s + (if accepted \<or> refused r then 0 else n)
    \<and> (j \<noteq> h \<longrightarrow> sem_get j s' = sem_get j s) \<and> sem_queue h (s, C) = w @ sem_queue h (s', C')"
  proof (cases "sem_get h s")
    case None
    then have run': "s' = s" "w = []" "r = Finished (if accepted then Ok () else Err InvalidHandle)"
      using run by (simp_all add: signal_turn_def)
    have "sems_ok (s, if accepted then C - {#(h, left)#} else C)"
    proof (cases accepted)
      case True
      with call have "(h, left) \<in># C" by simp
      then have same: "to_give i (C - {#(h, left)#}) = to_give i C" if "i \<noteq> h" for i
        using to_give_minus [of "(h, left)" C i] that by simp
      have "sem_ok (to_give i (C - {#(h, left)#})) y" if "sem_get i s = Some y" for i y
        using same [of i] ok None that by (cases "i = h") auto
      with ok True show ?thesis by (auto dest: in_diffD)
    qed (use ok in simp)
    with run' show ?thesis by (auto simp: calls_after_def go_on_def sem_queue_def)
  next
    case (Some sem)
    have sem: "sem_ok (to_give h C) sem" "h < sp_next s" using ok Some by auto
    have sum: "sat_add64 (sm_count sem) (sm_granting sem) = sm_count sem + sm_granting sem"
      using sem(1) by (intro sat_add64_exact) (auto simp: sem_ok_def)
    show ?thesis
    proof (cases "\<not> accepted \<and> sm_max sem - (sm_count sem + sm_granting sem) < n")
      case True
      then have "s' = s" "w = []" "r = Finished (Err Overflow)"
        using run Some sum sem(1) by (auto simp: signal_turn_def sem_ok_def)
      with ok True show ?thesis by (simp add: calls_after_def go_on_def sem_queue_def)
    next
      case go: False
      define x where "x = (if accepted then sem else sem\<lparr>sm_granting := sat_add64 (sm_granting sem) n\<rparr>)"
      define g where "g = to_give h C + (if accepted then 0 else n)"
      have "sat_add64 (sm_granting sem) n = sm_granting sem + n" if "\<not> accepted"
        using go that sem(1) by (intro sat_add64_exact) (auto simp: sem_ok_def)
      then have x: "sem_ok g x" "sm_waiters x = sm_waiters sem"
        "sm_count x + sm_granting x = sm_count sem + sm_granting sem + (if accepted then 0 else n)"
        using go sem(1) by (auto simp: x_def g_def sem_ok_def)
      obtain y where batch: "grant_batch x left = (y, l, w)" and s': "s' = sem_put h y s"
        and r: "r = (if l = 0 then Finished (Ok ()) else Again)"
        using run Some sum go sem(1) by (auto simp: signal_turn_def x_def [symmetric] sem_ok_def Let_def split: prod.splits if_splits)
      have left: "left \<le> g" using call to_give_minus [of "(h, left)" C h] by (auto simp: g_def split: if_splits)
      note eff = batch_ok [OF x(1) batch left]
      have give: "to_give i (calls_after h left accepted l r C) = (if i = h then g - left + l else to_give i C)" for i
        using call to_give_minus [of "(h, left)" C i] r by (auto simp: calls_after_def go_on_def g_def)
      have "sems_ok (sem_put h y s, calls_after h left accepted l r C)"
      proof (rule put_keeps_ok [OF ok Some])
        show "sem_ok (to_give h (calls_after h left accepted l r C)) y" using eff(1) give by simp
        show "\<And>i. i \<noteq> h \<Longrightarrow> to_give i (calls_after h left accepted l r C) = to_give i C" using give by simp
        show "\<forall>(i, m) \<in># calls_after h left accepted l r C. i < sp_next s"
          using r by (intro fewer [OF _ sem(2)]) (auto simp: calls_after_def go_on_def dest: in_diffD split: if_splits)
      qed
      then show ?thesis
        using eff x Some s' r by (simp add: units_def sem_queue_def)
    qed
  qed
  then show "sems_ok (s', calls_after h left accepted l r C)"
    and "units h s' + length w = units h s + (if accepted \<or> refused r then 0 else n)"
    and "j \<noteq> h \<Longrightarrow> sem_get j s' = sem_get j s" and "sem_queue h (s, C) = w @ sem_queue h (s', C')" by blast+
qed

text \<open>Taking a counted unit, joining the queue and leaving it.\<close>

lemma take_unit_step:
  assumes "sems_ok (s, C)" and "sem_get h s = Some sem" and "0 < sm_count sem"
  shows "sems_ok (sem_put h (take_unit sem) s, C)" and "units h (sem_put h (take_unit sem) s) + 1 = units h s"
    and "sem_queue j (sem_put h (take_unit sem) s, C) = sem_queue j (s, C)"
proof -
  have "sem_ok (to_give h C) sem" using assms by auto
  then show "sems_ok (sem_put h (take_unit sem) s, C)"
    using assms(1) by (intro put_keeps_ok [OF assms(1,2) take_unit_ok]) auto
qed (use assms in \<open>auto simp: units_def take_unit_def sem_queue_def split: option.splits\<close>)

lemma join_step:
  assumes "sems_ok (s, C)" and "sem_get h s = Some sem" and "sm_count sem = 0" and "length (sm_waiters sem) < MAX_WAITERS"
    and "t \<notin> set (sm_waiters sem)"
  shows "sems_ok (sem_put h (sem\<lparr>sm_waiters := sm_waiters sem @ [t]\<rparr>) s, C)"
    and "units h (sem_put h (sem\<lparr>sm_waiters := sm_waiters sem @ [t]\<rparr>) s) = units h s"
proof -
  have "sem_ok (to_give h C) sem" using assms(1,2) by auto
  then have "sem_ok (to_give h C) (sem\<lparr>sm_waiters := sm_waiters sem @ [t]\<rparr>)" using assms(3-5) by (auto simp: sem_ok_def)
  then show "sems_ok (sem_put h (sem\<lparr>sm_waiters := sm_waiters sem @ [t]\<rparr>) s, C)"
    using assms(1) by (intro put_keeps_ok [OF assms(1,2)]) auto
qed (use assms(2) in \<open>simp add: units_def\<close>)

lemma leave_step:
  assumes "sems_ok (s, C)" and "sem_get h s = Some sem"
  shows "sems_ok (sem_put h (sem\<lparr>sm_waiters := remove1 t (sm_waiters sem)\<rparr>) s, C)"
    and "units h (sem_put h (sem\<lparr>sm_waiters := remove1 t (sm_waiters sem)\<rparr>) s) = units h s"
proof -
  have "sem_ok (to_give h C) sem" using assms by auto
  then have "sem_ok (to_give h C) (sem\<lparr>sm_waiters := remove1 t (sm_waiters sem)\<rparr>)"
    by (auto simp: sem_ok_def length_remove1 split: if_splits)
  then show "sems_ok (sem_put h (sem\<lparr>sm_waiters := remove1 t (sm_waiters sem)\<rparr>) s, C)"
    using assms(1) by (intro put_keeps_ok [OF assms]) auto
qed (use assms(2) in \<open>simp add: units_def\<close>)

section \<open>Every event\<close>

fun sem_on :: "sem_event \<Rightarrow> sem_sys \<Rightarrow> u64" where
  "sem_on (SmCreate i m) s = sp_next (fst s)"
| "sem_on (SmSignal h n) s = h"
| "sem_on (SmMore h l) s = h"
| "sem_on (SmWait h t) s = h"
| "sem_on (SmTry h) s = h"
| "sem_on (SmTimedStart h ns) s = h"
| "sem_on (SmTimed h t q e) s = h"
| "sem_on (SmClose h) s = h"

text \<open>The tasks an event wakes, the units it brings in, and those it hands out (or destroys, closing).\<close>

fun sem_woken :: "sem_event \<Rightarrow> sem_sys \<Rightarrow> task_id list" where
  "sem_woken (SmSignal h n) s = fst (snd (snd (sem_signal h n (fst s))))"
| "sem_woken (SmMore h l) s = fst (snd (snd (signal_turn h l l True (fst s))))"
| "sem_woken (SmClose h) s = snd (sem_close h (fst s))"
| "sem_woken _ s = []"

fun units_in :: "sem_event \<Rightarrow> sem_sys \<Rightarrow> nat" where
  "units_in (SmCreate i m) s = min i (if m = 0 then DEFAULT_MAX_COUNT else m)"
| "units_in (SmSignal h n) s = (if refused (snd (snd (snd (sem_signal h n (fst s))))) then 0 else n)"
| "units_in _ s = 0"

fun units_out :: "sem_event \<Rightarrow> sem_sys \<Rightarrow> nat" where
  "units_out (SmWait h t) s = (if snd (wait_turn h t (fst s)) = Finished (Ok ()) then 1 else 0)"
| "units_out (SmTry h) s = (if snd (sem_try_wait h (fst s)) = Ok () then 1 else 0)"
| "units_out (SmTimedStart h ns) s = (if snd (timed_start h ns (fst s)) = Finished (Ok ()) then 1 else 0)"
| "units_out (SmTimed h t q e) s = (if \<not> q \<and> snd (timed_turn h t q e (fst s)) = Finished (Ok ()) then 1 else 0)"
| "units_out (SmClose h) s = units h (fst s)"
| "units_out (SmCreate i m) s = 0"
| "units_out e s = length (sem_woken e s)"

lemma sem_create_ok:
  assumes ok: "sems_ok (s, C)" and ev: "unat (sp_next s) + 1 < 2 ^ 64" "m \<le> u64_max"
  shows "sems_ok (fst (sem_create i m s), C)" and "sem_get (sp_next s) s = None"
    and "sem_get j (fst (sem_create i m s)) =
      (if j = sp_next s then Some (sem_new i (if m = 0 then DEFAULT_MAX_COUNT else m)) else sem_get j s)"
proof -
  let ?mx = "if m = 0 then DEFAULT_MAX_COUNT else m"
  have "unat (sp_next s + 1) = unat (sp_next s) + 1"
    using ev(1) by (subst unat_add_lem [THEN iffD1]) simp_all
  then have up: "j < sp_next s + 1 \<longleftrightarrow> j < sp_next s \<or> j = sp_next s" for j
    by (simp add: word_less_nat_alt less_Suc_eq word_unat_eq_iff)
  have idle: "to_give (sp_next s) C = 0"
    using ok by (intro to_give_none) auto
  have get: "sem_get j (fst (sem_create i m s)) = (if j = sp_next s then Some (sem_new i ?mx) else sem_get j s)" for j
    using ok by (simp add: sem_create_def alloc_sem_id_def sem_get_def Let_def)
  then show "sem_get j (fst (sem_create i m s)) = (if j = sp_next s then Some (sem_new i ?mx) else sem_get j s)" .
  show none: "sem_get (sp_next s) s = None" using ok by (cases "sem_get (sp_next s) s") auto
  have "?mx \<le> u64_max" using ev(2) by (simp add: DEFAULT_MAX_COUNT_def)
  then have "sem_ok 0 (sem_new i ?mx)" by (simp add: sem_ok_def sem_new_def)
  moreover have "sp_next (fst (sem_create i m s)) = sp_next s + 1" "bt_ok (sp_table (fst (sem_create i m s)))"
    using ok by (simp_all add: sem_create_def alloc_sem_id_def Let_def)
  ultimately show "sems_ok (fst (sem_create i m s), C)" using ok idle up by (auto simp: get)
qed

lemma sem_close_ok:
  assumes "sems_ok (s, C)"
  shows "sems_ok (fst (sem_close h s), C)" and "sem_get j (fst (sem_close h s)) = (if j = h then None else sem_get j s)"
proof -
  show get: "sem_get j (fst (sem_close h s)) = (if j = h then None else sem_get j s)" for j
    by (auto simp: sem_close_def sem_get_def split: option.split)
  have "sp_next (fst (sem_close h s)) = sp_next s" "bt_ok (sp_table (fst (sem_close h s)))"
    using assms by (auto simp: sem_close_def split: option.split)
  with assms show "sems_ok (fst (sem_close h s), C)" by (auto simp: get)
qed

text \<open>A call that takes a counted unit, joins the queue, leaves it, or does nothing.\<close>

lemma waiting_ok:
  assumes ok: "sems_ok (s, C)"
  shows "t \<notin> set (sem_queue h (s, C)) \<Longrightarrow> sems_ok (fst (wait_turn h t s), C)
      \<and> units h (fst (wait_turn h t s)) + units_out (SmWait h t) (s, C) = units h s"
    and "sems_ok (fst (sem_try_wait h s), C) \<and> units h (fst (sem_try_wait h s)) + units_out (SmTry h) (s, C) = units h s"
    and "sems_ok (fst (timed_start h ns s), C)
      \<and> units h (fst (timed_start h ns s)) + units_out (SmTimedStart h ns) (s, C) = units h s"
    and "q \<or> t \<notin> set (sem_queue h (s, C)) \<Longrightarrow> sems_ok (fst (timed_turn h t q e s), C)
      \<and> units h (fst (timed_turn h t q e s)) + units_out (SmTimed h t q e) (s, C) = units h s"
proof -
  have "(t \<notin> set (sem_queue h (s, C)) \<longrightarrow> sems_ok (fst (wait_turn h t s), C)
      \<and> units h (fst (wait_turn h t s)) + units_out (SmWait h t) (s, C) = units h s)
    \<and> (sems_ok (fst (sem_try_wait h s), C) \<and> units h (fst (sem_try_wait h s)) + units_out (SmTry h) (s, C) = units h s)
    \<and> (sems_ok (fst (timed_start h ns s), C)
      \<and> units h (fst (timed_start h ns s)) + units_out (SmTimedStart h ns) (s, C) = units h s)
    \<and> (q \<or> t \<notin> set (sem_queue h (s, C)) \<longrightarrow> sems_ok (fst (timed_turn h t q e s), C)
      \<and> units h (fst (timed_turn h t q e s)) + units_out (SmTimed h t q e) (s, C) = units h s)"
  proof (cases "sem_get h s")
    case None
    then show ?thesis using ok by (simp add: wait_turn_def sem_try_wait_def timed_start_def timed_turn_def del: sems_ok.simps)
  next
    case (Some sem)
    note defs = wait_turn_def sem_try_wait_def timed_start_def timed_turn_def Some
    have queue: "sem_queue h (s, C) = sm_waiters sem" by (simp add: sem_queue_def Some)
    note take = take_unit_step [OF ok Some] and join = join_step [OF ok Some] and leave = leave_step [OF ok Some]
    show ?thesis
    proof (cases "0 < sm_count sem")
      case True
      then have "sm_waiters sem = []" using ok Some by (auto simp: sem_ok_def)
      then show ?thesis
        using True take leave ok by (auto simp: defs holds_unit_after_park_def simp del: sems_ok.simps)
    next
      case False
      then show ?thesis
        using join [of t] leave [of t] ok queue by (auto simp: defs not_le simp del: sems_ok.simps)
    qed
  qed
  then show "t \<notin> set (sem_queue h (s, C)) \<Longrightarrow> sems_ok (fst (wait_turn h t s), C)
      \<and> units h (fst (wait_turn h t s)) + units_out (SmWait h t) (s, C) = units h s"
    and "sems_ok (fst (sem_try_wait h s), C) \<and> units h (fst (sem_try_wait h s)) + units_out (SmTry h) (s, C) = units h s"
    and "sems_ok (fst (timed_start h ns s), C)
      \<and> units h (fst (timed_start h ns s)) + units_out (SmTimedStart h ns) (s, C) = units h s"
    and "q \<or> t \<notin> set (sem_queue h (s, C)) \<Longrightarrow> sems_ok (fst (timed_turn h t q e s), C)
      \<and> units h (fst (timed_turn h t q e s)) + units_out (SmTimed h t q e) (s, C) = units h s" by blast+
qed

lemma signal_ok:
  assumes ok: "sems_ok (s, C)" and run: "sem_signal h n s = (s', l, w, r)"
  shows "sems_ok (s', go_on h l r C)" and "units h s' + length w = units h s + (if refused r then 0 else n)"
    and "j \<noteq> h \<Longrightarrow> sem_get j s' = sem_get j s" and "sem_queue h (s, C) = w @ sem_queue h (s', C')"
proof -
  have "sems_ok (s', go_on h l r C) \<and> units h s' + length w = units h s + (if refused r then 0 else n)
    \<and> (j \<noteq> h \<longrightarrow> sem_get j s' = sem_get j s) \<and> sem_queue h (s, C) = w @ sem_queue h (s', C')"
  proof (cases "n = 0")
    case True
    then show ?thesis using ok run by (auto simp: sem_signal_def go_on_def sem_queue_def simp del: sems_ok.simps)
  next
    case False
    then have "signal_turn h n n False s = (s', l, w, r)" using run by (simp add: sem_signal_def)
    from signal_turn_ok [OF ok this] show ?thesis by (simp add: calls_after_def del: sems_ok.simps)
  qed
  then show "sems_ok (s', go_on h l r C)" and "units h s' + length w = units h s + (if refused r then 0 else n)"
    and "j \<noteq> h \<Longrightarrow> sem_get j s' = sem_get j s" and "sem_queue h (s, C) = w @ sem_queue h (s', C')" by blast+
qed

lemma sem_step_ok:
  assumes ok: "sems_ok s" and ev: "sem_event_ok e s"
  shows "sems_ok (sem_step e s)"
    and "units (sem_on e s) (fst (sem_step e s)) + units_out e s = units (sem_on e s) (fst s) + units_in e s"
proof -
  obtain t C where s: "s = (t, C)" by (cases s)
  have good: "sems_ok (t, C)" using ok s by simp
  have "sems_ok (sem_step e s)
    \<and> units (sem_on e s) (fst (sem_step e s)) + units_out e s = units (sem_on e s) (fst s) + units_in e s"
  proof (cases e)
    case (SmCreate i m)
    then have e: "unat (sp_next t) + 1 < 2 ^ 64" "m \<le> u64_max" using ev s by simp_all
    note c = sem_create_ok(1,2) [OF good e] sem_create_ok(3) [OF good e, of _ i]
    have "units (sp_next t) t = 0" using c(2) by (simp add: units_def)
    moreover have "units (sp_next t) (fst (sem_create i m t)) = min i (if m = 0 then DEFAULT_MAX_COUNT else m)"
      using c(3) [of "sp_next t"] by (simp add: units_def sem_new_def)
    ultimately show ?thesis using c(1) SmCreate s by simp
  next
    case (SmSignal h n)
    obtain t' l w r where run: "sem_signal h n t = (t', l, w, r)" by (metis prod_cases4)
    show ?thesis using signal_ok [OF good run] run SmSignal s by (simp del: sems_ok.simps)
  next
    case (SmMore h left)
    obtain t' l w r where run: "signal_turn h left left True t = (t', l, w, r)" by (metis prod_cases4)
    have "(h, left) \<in># C" using ev SmMore s by simp
    then show ?thesis
      using signal_turn_ok [OF good run] run SmMore s by (simp add: calls_after_def del: sems_ok.simps)
  next
    case (SmWait h u)
    then show ?thesis using waiting_ok(1) [OF good, of u h] ev s by (simp del: sems_ok.simps)
  next
    case (SmTry h)
    then show ?thesis using waiting_ok(2) [OF good, of h] s by (simp del: sems_ok.simps)
  next
    case (SmTimedStart h ns)
    then show ?thesis using waiting_ok(3) [OF good, of h ns] s by (simp del: sems_ok.simps)
  next
    case (SmTimed h u q x)
    then show ?thesis using waiting_ok(4) [OF good, of q u h x] ev s by (simp del: sems_ok.simps)
  next
    case (SmClose h)
    then show ?thesis using sem_close_ok [OF good, of h] s by (simp add: units_def del: sems_ok.simps)
  qed
  then show "sems_ok (sem_step e s)"
    and "units (sem_on e s) (fst (sem_step e s)) + units_out e s = units (sem_on e s) (fst s) + units_in e s" by blast+
qed

text \<open>An event leaves every other semaphore as it is.\<close>

lemma sem_other:
  assumes ok: "sems_ok s" and ev: "sem_event_ok e s" and j: "j \<noteq> sem_on e s"
  shows "sem_get j (fst (sem_step e s)) = sem_get j (fst s)"
proof -
  obtain t C where s: "s = (t, C)" by (cases s)
  have good: "sems_ok (t, C)" using ok s by simp
  show ?thesis
  proof (cases e)
    case (SmCreate i m)
    then have e: "unat (sp_next t) + 1 < 2 ^ 64" "m \<le> u64_max" using ev s by simp_all
    show ?thesis using sem_create_ok(3) [OF good e] SmCreate s j by simp
  next
    case (SmSignal h n)
    obtain t' l w r where run: "sem_signal h n t = (t', l, w, r)" by (metis prod_cases4)
    show ?thesis using signal_ok(3) [OF good run] run SmSignal s j by simp
  next
    case (SmMore h left)
    obtain t' l w r where run: "signal_turn h left left True t = (t', l, w, r)" by (metis prod_cases4)
    have "(h, left) \<in># C" using ev SmMore s by simp
    then show ?thesis using signal_turn_ok(3) [OF good run] run SmMore s j by simp
  next
    case (SmClose h)
    then show ?thesis using sem_close_ok(2) [OF good] s j by simp
  qed (use s j in \<open>auto simp: wait_turn_def sem_try_wait_def timed_start_def timed_turn_def split: option.split\<close>)
qed

interpretation sm: ledger_machine sem_step sem_event_ok sems_ok "\<lambda>s. replicate_mset (units h (fst s)) ()"
  "\<lambda>e s. if sem_on e s = h then replicate (units_in e s) () else []"
  "\<lambda>e s. if sem_on e s = h then replicate (units_out e s) () else []" for h
proof
  show "sems_ok s \<Longrightarrow> sem_event_ok e s \<Longrightarrow> sems_ok (sem_step e s)" for s e by (rule sem_step_ok(1))
  show "replicate_mset (units h (fst s)) () + mset (if sem_on e s = h then replicate (units_in e s) () else [])
      = mset (if sem_on e s = h then replicate (units_out e s) () else []) + replicate_mset (units h (fst (sem_step e s))) ()"
    if "sems_ok s" "sem_event_ok e s" for s e
  proof (cases "sem_on e s = h")
    case True
    then have "units h (fst s) + units_in e s = units_out e s + units h (fst (sem_step e s))"
      using sem_step_ok(2) [OF that] by simp
    then show ?thesis using True by (simp add: multiset_eq_iff)
  next
    case False
    then have "units h (fst (sem_step e s)) = units h (fst s)" using sem_other [OF that, of h] by (simp add: units_def)
    with False show ?thesis by simp
  qed
qed

section \<open>Units\<close>

definition brought_in :: "u64 \<Rightarrow> sem_event list \<Rightarrow> sem_sys \<Rightarrow> nat" where
  "brought_in h es s = length (gather (\<lambda>e s. if sem_on e s = h then replicate (units_in e s) () else []) sem_step es s)"

definition handed_out :: "u64 \<Rightarrow> sem_event list \<Rightarrow> sem_sys \<Rightarrow> nat" where
  "handed_out h es s = length (gather (\<lambda>e s. if sem_on e s = h then replicate (units_out e s) () else []) sem_step es s)"

definition sems_start :: sem_sys where "sems_start = (\<lparr>sp_table = [], sp_next = 1\<rparr>, {#})"

lemma sems_start_ok: "sems_ok sems_start"
  by (simp add: sems_start_def sem_get_def)

text \<open>
  C11: A semaphore neither makes nor loses units. Over any run of calls by any tasks, cut at every
  release of the table's lock, what it had and what creation and accepted signals brought in is what
  waiters and takers got, closing destroyed, and is still there, counted or held by a signal between
  two batches. It never holds more than its maximum, and never counts a unit while a task waits.
\<close>

theorem sem_units_conserved:
  assumes "sems_ok s" and "run_ok sem_event_ok sem_step es s"
  shows "units h (fst s) + brought_in h es s = handed_out h es s + units h (fst (fold sem_step es s))
    \<and> (\<forall>sem. sem_get h (fst (fold sem_step es s)) = Some sem \<longrightarrow>
        sm_count sem + sm_granting sem \<le> sm_max sem \<and> (0 < sm_count sem \<longrightarrow> sm_waiters sem = []))"
proof -
  have "sems_ok (fold sem_step es s)" using sm.inv_run assms .
  then have "\<forall>sem. sem_get h (fst (fold sem_step es s)) = Some sem \<longrightarrow>
        sm_count sem + sm_granting sem \<le> sm_max sem \<and> (0 < sm_count sem \<longrightarrow> sm_waiters sem = [])"
    using sems_okD by (fastforce simp: sem_ok_def)
  moreover have "units h (fst s) + brought_in h es s = handed_out h es s + units h (fst (fold sem_step es s))"
    using arg_cong [OF sm.ledger_run [OF assms], of size h] by (simp add: brought_in_def handed_out_def)
  ultimately show ?thesis by blast
qed

definition sem_run :: "sem_event list" where
  "sem_run = [SmCreate 1 3, SmWait 1 7, SmWait 1 8, SmSignal 1 2]"

lemma grant_loop_numeral: "grant_loop (numeral k) sem left =
     (if left = 0 then (sem, left, [])
      else (case sm_waiters sem of
              [] \<Rightarrow> (sem, left, [])
            | t # ts \<Rightarrow>
                (case grant_loop (pred_numeral k) (sem\<lparr>sm_waiters := ts, sm_granting := sm_granting sem - 1\<rparr>) (left - 1) of
                   (sem, left, wake) \<Rightarrow> (sem, left, t # wake))))"
  by (simp add: numeral_eq_Suc)

lemma sem_run_ok: "run_ok sem_event_ok sem_step sem_run sems_start"
  and sem_run_totals: "brought_in 1 sem_run sems_start = 3" "handed_out 1 sem_run sems_start = 2"
  by (simp_all add: sem_run_def sems_start_def brought_in_def handed_out_def sem_create_def alloc_sem_id_def sem_new_def
      sem_queue_def sem_get_def sem_put_def bt_get_def bt_adjust_def wait_turn_def take_unit_def MAX_WAITERS_def
      sem_signal_def signal_turn_def sat_add64_def u64_max_def grant_batch_def WAKE_BATCH_def grant_loop_numeral)

theorem sem_units_conserved_witness: "units 1 (fst (fold sem_step sem_run sems_start)) = 1"
  using sem_units_conserved [OF sems_start_ok sem_run_ok, of 1] sem_run_totals
  by (simp add: sems_start_def units_def sem_get_def)

section \<open>Waiters\<close>

lemma waiter_step:
  assumes ok: "sems_ok s" and ev: "sem_event_ok e s" and t: "t \<in> set (sem_queue h s)" and e: "e \<noteq> SmTimed h t True True"
  shows "t \<in> set (sem_queue h (sem_step e s)) \<or> (t \<in> set (sem_woken e s) \<and> woken_turn h t (fst (sem_step e s)) \<noteq> Parked)"
proof -
  obtain v C where s: "s = (v, C)" by (cases s)
  have good: "sems_ok (v, C)" using ok s by simp
  obtain sem where sem: "sem_get h v = Some sem" and tw: "t \<in> set (sm_waiters sem)"
    using sem_queueD [OF t] s by auto
  have "distinct (sem_queue h (v, C))" using good sem by (auto simp: sem_queue_def sem_ok_def)
  then have served: "t \<in> set (sem_queue h (v', C')) \<or> (t \<in> set w \<and> woken_turn h t v' \<noteq> Parked)"
    if "sem_queue h (v, C) = w @ sem_queue h (v', C')" for w v' C'
    using that t s by (auto simp: woken_turn_def sem_queue_def holds_unit_after_park_def split: option.splits)
  show ?thesis
  proof (cases "sem_on e s = h")
    case False
    then show ?thesis using sem_other [OF ok ev, of h] t by (simp add: sem_queue_def)
  next
    case True
    show ?thesis
    proof (cases e)
      case (SmCreate i m)
      then have "h = sp_next v" using True s by simp
      then show ?thesis using sem good by auto
    next
      case (SmSignal k n)
      obtain v' l w r where run: "sem_signal h n v = (v', l, w, r)" by (metis prod_cases4)
      show ?thesis using served [OF signal_ok(4) [OF good run]] run SmSignal True s by simp
    next
      case (SmMore k left)
      obtain v' l w r where run: "signal_turn h left left True v = (v', l, w, r)" by (metis prod_cases4)
      have "(h, left) \<in># C" using ev SmMore True s by simp
      then show ?thesis using served [OF signal_turn_ok(4) [OF good run]] run SmMore True s by simp
    next
      case (SmTimed k u q x)
      then have "u = t \<Longrightarrow> q" using ev t True by simp
      then show ?thesis
        using SmTimed True s sem tw e by (cases "u = t") (auto simp: timed_turn_def sem_queue_def take_unit_def)
    next
      case (SmClose k)
      then have "t \<in> set (sem_woken e s)" "sem_get h (fst (sem_step e s)) = None"
        using True s sem tw sem_close_ok(2) [OF good, of h h] by (simp_all add: sem_close_def)
      then show ?thesis by (simp add: woken_turn_def)
    qed (use True s sem tw in \<open>auto simp: wait_turn_def sem_try_wait_def timed_start_def sem_queue_def take_unit_def\<close>)
  qed
qed

text \<open>
  C17: A task blocked on a semaphore is woken by what ends its wait. In any run in which its own timeout
  does not expire, either it is still queued at the end and no unit is counted, so that there is
  nothing for it to take, or some event of the run, a grant or the close, wakes it, and its next look
  finds the wait over.
\<close>

theorem sem_waiter_is_woken:
  assumes "sems_ok s" and "run_ok sem_event_ok sem_step es s" and "t \<in> set (sem_queue h s)"
    and "SmTimed h t True True \<notin> set es"
  shows "(t \<in> set (sem_queue h (fold sem_step es s)) \<and> sem_count h (fst (fold sem_step es s)) = Ok 0)
    \<or> (\<exists>es1 e es2. es = es1 @ e # es2 \<and> t \<in> set (sem_woken e (fold sem_step es1 s))
        \<and> woken_turn h t (fst (sem_step e (fold sem_step es1 s))) \<noteq> Parked)"
  using assms
proof (induction es arbitrary: s)
  case Nil
  obtain sem where sem: "sem_get h (fst s) = Some sem" "t \<in> set (sm_waiters sem)"
    using sem_queueD [OF Nil.prems(3)] by blast
  then have "sm_count sem = 0" using sems_okD [OF Nil.prems(1) sem(1)] by (auto simp: sem_ok_def)
  then show ?case using Nil.prems(3) sem(1) by (simp add: sem_count_def)
next
  case (Cons e es)
  have ev: "sem_event_ok e s" and run: "run_ok sem_event_ok sem_step es (sem_step e s)" using Cons.prems(2) by simp_all
  have ok: "sems_ok (sem_step e s)" using Cons.prems(1) ev by (rule sem_step_ok(1))
  from waiter_step [OF Cons.prems(1) ev Cons.prems(3)] Cons.prems(4)
  consider "t \<in> set (sem_queue h (sem_step e s))"
    | "t \<in> set (sem_woken e s)" "woken_turn h t (fst (sem_step e s)) \<noteq> Parked" by auto
  then show ?case
  proof cases
    case 1
    have "SmTimed h t True True \<notin> set es" using Cons.prems(4) by simp
    from Cons.IH [OF ok run 1 this] show ?thesis
    proof (elim disjE exE conjE)
      fix es1 f es2
      assume "es = es1 @ f # es2" "t \<in> set (sem_woken f (fold sem_step es1 (sem_step e s)))"
        "woken_turn h t (fst (sem_step f (fold sem_step es1 (sem_step e s)))) \<noteq> Parked"
      then show ?thesis by (intro disjI2 exI [of _ "e # es1"] exI [of _ f] exI [of _ es2]) simp
    qed auto
  next
    case 2
    then show ?thesis by (intro disjI2 exI [of _ "[]"] exI [of _ e] exI [of _ es]) simp
  qed
qed

theorem sem_waiter_is_woken_witness:
  "\<exists>es1 e es2. [SmSignal 1 2] = es1 @ e # es2 \<and> 8 \<in> set (sem_woken e (fold sem_step es1 (fold sem_step (take 3 sem_run) sems_start)))"
proof -
  let ?s = "fold sem_step (take 3 sem_run) sems_start"
  have run: "run_ok sem_event_ok sem_step [SmSignal 1 2] ?s" "run_ok sem_event_ok sem_step (take 3 sem_run) sems_start"
    "8 \<in> set (sem_queue 1 ?s)" "sem_queue 1 (sem_step (SmSignal 1 2) ?s) = []"
    by (simp_all add: sem_run_def sems_start_def sem_create_def alloc_sem_id_def sem_new_def
      sem_queue_def sem_get_def sem_put_def bt_get_def bt_adjust_def wait_turn_def take_unit_def MAX_WAITERS_def
      sem_signal_def signal_turn_def sat_add64_def u64_max_def grant_batch_def WAKE_BATCH_def grant_loop_numeral)
  have "sems_ok ?s" using sm.inv_run [OF sems_start_ok run(2)] .
  from sem_waiter_is_woken [OF this run(1,3)] show ?thesis using run(4) by auto
qed

end
