(* ===== verification/Spec2Isabelle.thy ===== *)
theory Spec2Isabelle
  imports Errors Rights Resources CapTable CapAudit ProcAuthority CapGroups PipeStream SchedCpu MemoryPromises MemoryRaces FrameBoot FrameCheck
    ChannelPromises ChannelCaps IpcSemaphore
begin

text \<open>
  A model of the core of the SlateOS kernel.

  \<^bold>\<open>The program.\<close> SlateOS is a microkernel. A process acts only through capabilities, handles into a
  table of its own (\<^verbatim>\<open>kernel/src/cap/table.rs\<close>) held in its process record together with its user
  and group identities and its memory (\<^verbatim>\<open>kernel/src/proc/pcb.rs\<close>). Processes talk through kernel
  objects with blocking calls, of which pipes (\<^verbatim>\<open>kernel/src/ipc/pipe.rs\<close>) carry bytes and channels
  (\<^verbatim>\<open>kernel/src/ipc/channel.rs\<close>) messages with capabilities in them; a blocked task is noted in the
  object and woken by whoever makes its wait pointless. A woken task goes to the run queue of a CPU,
  which is one of three schedulers behind an enum (\<^verbatim>\<open>kernel/src/sched/\<close>). Under it all, physical memory is
  handed out frame by frame (\<^verbatim>\<open>kernel/src/mm/frame.rs\<close>).

  \<^bold>\<open>Where each part is.\<close>

  \<^item> \<open>Prelude\<close>: integers, results (\<open>Ok\<close> and \<open>Err\<close> of a sum), bits of a word as a set, and the locales
    \<open>machine\<close> (an invariant kept by every step) and \<open>authority_machine\<close> (what a state can confer
    grows only by what an event is given). \<open>OrdMap\<close>: \<^verbatim>\<open>BTreeMap\<close> as a list sorted by key, with its
    contract \<open>ordered_map\<close>. \<open>Streams\<close>: executions with events that are admissible only in some
    states (\<open>guarded_machine\<close>), first-in first-out contracts (\<open>stream_machine\<close>) and balanced books
    (\<open>ledger_machine\<close>).
  \<^item> \<open>Errors\<close>, \<open>Rights\<close>, \<open>Resources\<close>: \<^verbatim>\<open>error.rs\<close>, \<^verbatim>\<open>cap/rights.rs\<close>, \<^verbatim>\<open>cap/mod.rs\<close>.
  \<^item> \<open>CapTable\<close>: \<^verbatim>\<open>cap/table.rs\<close>, every operation; \<open>held\<close> is the authority a table can ever confer.
    \<open>CapAudit\<close>: the audit ring of \<^verbatim>\<open>cap/audit.rs\<close>, against the full history. \<open>CapGroups\<close>:
    \<^verbatim>\<open>cap/groups.rs\<close>.
  \<^item> \<open>ProcAuthority\<close>: from \<^verbatim>\<open>proc/pcb.rs\<close> and \<^verbatim>\<open>proc/setid.rs\<close>, the process's credentials, every call
    that changes them, and the transfer and inheritance of capabilities.
  \<^item> \<open>Waiters\<close>: \<^verbatim>\<open>ipc/waiters.rs\<close>, and the three ways a turn of a blocking call ends (\<open>Finished\<close>,
    \<open>Parked\<close>, \<open>Again\<close>). \<open>Pipe\<close> is the model of \<^verbatim>\<open>ipc/pipe.rs\<close>, \<open>PipeStream\<close> what it promises.
  \<^item> \<open>Channel\<close> is the model of \<^verbatim>\<open>ipc/channel.rs\<close>; \<open>ChannelRuns\<close> gives every call a normal form, the
    effect on its channel committed to the table; \<open>ChannelState\<close> has the table's invariant;
    \<open>ChannelPromises\<close> order, wake-ups (a blocking call section by section among everything else,
    \<open>watch_step\<close>, with the token of \<^verbatim>\<open>sched::wake\<close>) and identity; \<open>ChannelCaps\<close> the messages with capabilities,
    over \<open>ProcAuthority\<close>. \<open>IpcSemaphore\<close>: \<^verbatim>\<open>ipc/semaphore.rs\<close>.
  \<^item> \<open>RunQueue\<close>: what the schedulers share and the contract \<open>run_queue\<close> (\<open>exact_queue\<close> for the two
    that count exactly). \<open>PriorityRR\<close>, \<open>Eevdf\<close>, \<open>DeadlineSched\<close>: \<^verbatim>\<open>sched/priority_rr.rs\<close>,
    \<^verbatim>\<open>sched/eevdf.rs\<close>, \<^verbatim>\<open>sched/deadline.rs\<close>. \<open>SchedCpu\<close>: \<^verbatim>\<open>sched/backend.rs\<close> and the per-CPU queues
    of \<^verbatim>\<open>sched/priority_rr.rs\<close>, with stealing, balancing and draining.
  \<^item> \<open>Vma\<close>: \<^verbatim>\<open>mm/vma.rs\<close>. \<open>ProcMemory\<close>: a process's list of areas (\<^verbatim>\<open>proc/pcb.rs\<close>). \<open>MemoryView\<close>:
    the meaning of each operation, page by page (the locales \<open>range_edit\<close> and \<open>range_split\<close> for the
    four that cut areas at a range). \<open>MemoryRuns\<close>, \<open>MemoryPages\<close>, \<open>MemoryTable\<close>, \<open>MemoryPromises\<close>: runs,
    the refinement of a map from pages, the process table with forks and the books of the file
    references, and the promises that need an order of steps. \<open>MemoryRaces\<close>: the reference steps of each
    call on their own, after the lock is dropped, over the reference counts of \<^verbatim>\<open>fs/handle.rs\<close>.
  \<^item> \<open>FrameBuddy\<close> is the model of the buddy lists of \<^verbatim>\<open>mm/frame.rs\<close>, links in memory included;
    \<open>FrameLists\<close> reads them as lists, \<open>FrameState\<close> has the invariant on frame numbers, \<open>FrameOps\<close> what each
    operation does to the set of free frames, \<open>FramePromises\<close> the callers' view. \<open>FrameCache\<close>: the per-CPU
    caches, \<^verbatim>\<open>alloc_frame\<close> and \<^verbatim>\<open>free_frame\<close>. \<open>FrameBoot\<close>: filling the lists from the memory map.
    \<open>FrameCheck\<close>: \<^verbatim>\<open>validate_free_lists\<close>.

  \<^bold>\<open>How it is written.\<close> A lock-protected object is a record; a call is a function from the state to the
  new state and the result, with the tasks it wakes as an output. A blocking call is cut at its
  parks: each turn is a function, its local variables are handed from turn to turn, and a run is any
  sequence of turns of any tasks, so that the theorems on runs cover every interleaving of critical
  sections. What a call does after dropping its lock is an output of the section (the tasks to wake,
  the references to take and give back) and, where another step can come in between and matters, an
  event of its own: the \<^verbatim>\<open>wake_ready\<close> of a channel's send (\<open>cs_waking\<close>), the four sections of an
  interruptible wait (\<open>recv_int_step\<close>, \<open>send_int_step\<close>), the \<^verbatim>\<open>sched::wake\<close> calls in \<open>watch_step\<close>, and the
  reference steps in \<open>sm_step\<close>. The runs of \<open>MemoryTable\<close> take each call's reference steps in one with it;
  \<open>MemoryRaces\<close> shows what that leaves out.
  Words keep their width where the code's arithmetic can wrap (handles, ids, rights, virtual
  deadlines, the counter of readiness waiters); lengths and sums that the code saturates are numbers
  with the saturation written out. Time is an input.

  \<^bold>\<open>What is shown.\<close> Authority: no sequence of calls by a process gives it a right it was not given
  (\<open>table_confinement\<close>, \<open>dropped_root_cannot_return\<close>), transfers move, and over the processes and
  channels together nothing is made (\<open>message_authority_confined\<close>). IPC: pipes and channels deliver
  in order what was put in (\<open>pipe_delivers_in_order\<close>, \<open>channel_delivers_in_order\<close>, both by
  \<open>stream_machine\<close>), a parked task is woken by the step that ends its wait, and a task asleep on a
  channel has something to wait for or its wake-up on the way (\<open>parked_task_is_woken\<close>); a semaphore
  neither makes nor loses units (\<open>sem_units_conserved\<close>, by \<open>ledger_machine\<close>). Scheduling: no task is lost
  or run twice over any run of the per-CPU queues; the partitioned indexes of the EEVDF queue pick
  what a scan picks; admission bounds the deadline scheduler's load. Memory: the area list stays
  sorted and disjoint, is a map from pages, and references balance. Frames: from the memory map on
  (\<open>boot_frees_usable_memory\<close>), over any calls on any CPUs, no frame is held twice, held and free, or
  lost (\<open>frames_never_in_two_hands\<close>); freeing undoes allocating, and the kernel's check of the lists
  says just what it should. Some theorems state what the
  code does where it does not do what it means to; the manifest lists them.

  \<^bold>\<open>Bounds and termination.\<close> Loops are structural, or \<open>function\<close>s with a measure (the binary search of
  \<open>Vma\<close>, the rebalancing of \<open>Eevdf\<close>, the bitmap walk of \<open>RunQueue\<close>, the merging of \<open>FrameBuddy\<close>). \<open>bk_drain\<close> and the walks along the
  links of free lists may not return and are partial functions, with theorems that say when they do.
  Physical addresses are numbers below 2^64; the frame theorems take at most 2^50 frames, memory maps
  within 52 bits and fewer than 2^16 - 1 holders of a frame. Identifiers are never exhausted in the
  admissible runs (\<open>chan_event_ok\<close> and its like): 2^63 or 2^64 creations.

  \<^bold>\<open>What is not modelled.\<close> The scheduler's context switch and task record, page tables and the filling
  of pages, system-call entry and the Linux personality, program loading, signals, drivers, the
  network stack, file systems, and everything in user space; statistics, traces and self-tests. Of the
  frame allocator: reclaiming when memory runs out, the pool of zeroed frames, cgroup and owner tags.
  They are raw memory, registers, or code outside the core chosen here.
\<close>

end
